(* ===== verification/Prelude.thy ===== *)
theory Prelude
  imports Main "HOL-Library.Word" "HOL-Library.Multiset"
begin

text \<open>
  Shared vocabulary of the development: the machine types the C++ sources use, the
  collections of rewrite rules the component theories fill, and the generic facts on
  lists, words and options their proofs share.

  \<^item> \<open>u8\<close>, \<open>u16\<close>, \<open>u32\<close>, \<open>u64\<close> are the C++ types \<^verbatim>\<open>unsigned char\<close>, \<^verbatim>\<open>uint16_t\<close>,
    \<^verbatim>\<open>uint32_t\<close> / \<^verbatim>\<open>BitSize_t\<close> and \<^verbatim>\<open>uint64_t\<close> / \<^verbatim>\<open>CCTimeType\<close>;
  \<^item> \<open>u24\<close> is the value type of \<^verbatim>\<open>uint24_t\<close> (theory \<open>Uint24\<close> proves that the struct of
    \<^verbatim>\<open>types.h\<close>, a masked 32 bit integer, computes exactly these values).
\<close>

unbundle bit_operations_syntax

type_synonym u8 = "8 word"
type_synonym u16 = "16 word"
type_synonym u24 = "24 word"
type_synonym u32 = "32 word"
type_synonym u64 = "64 word"

named_theorems refine_simps "an operation of the model commutes with its abstraction function"
named_theorems invar_intros "an operation of the model preserves its well-formedness invariant"
named_theorems serial_simps "serial number arithmetic as facts on natural numbers"

section \<open>Words as numbers modulo a power of two\<close>

lemma unat_sub_wrap [serial_simps]:
  fixes a b :: "'a::len word"
  shows "unat (a - b) = (if b \<le> a then unat a - unat b else 2 ^ LENGTH('a) + unat a - unat b)"
  by (simp add: unat_sub_if' word_le_nat_alt add.commute)

lemma unat_plus_wrap:
  fixes a b :: "'a::len word"
  shows "unat (a + b) = (unat a + unat b) mod 2 ^ LENGTH('a)"
  by (rule unat_word_ariths(1))

lemma unat_less_2p: "unat (a :: 'a::len word) < 2 ^ LENGTH('a)"
  by (rule unsigned_less)

lemma unat_u24_less: "unat (a :: u24) < 16777216"
  using unat_less_2p [of a] by simp

lemma unat_u32_less: "unat (a :: u32) < 4294967296"
  using unat_less_2p [of a] by simp

lemma unat_u8_less: "unat (a :: u8) < 256"
  using unat_less_2p [of a] by simp

section \<open>Lists addressed by index\<close>

lemma nth_map_upt [simp]: "i < n - m \<Longrightarrow> map f [m..<n] ! i = f (m + i)"
  by simp

lemma map_upt_Suc_front: "map f [0..<Suc n] = f 0 # map (\<lambda>i. f (Suc i)) [0..<n]"
  by (induction n) simp_all

lemma sorted_wrt_remove_at:
  "sorted_wrt R xs \<Longrightarrow> sorted_wrt R (take p xs @ drop (Suc p) xs)"
  by (auto simp: sorted_wrt_iff_nth_less nth_append)

lemma set_remove_at: "set (take p xs @ drop (Suc p) xs) = {xs ! j | j. j < length xs \<and> j \<noteq> p}"
proof (intro equalityI subsetI)
  fix x assume "x \<in> set (take p xs @ drop (Suc p) xs)"
  then consider j where "j < length xs" "j < p" "x = xs ! j"
    | j where "j < length xs - Suc p" "x = xs ! (Suc p + j)"
    by (auto simp: in_set_conv_nth)
  then show "x \<in> {xs ! j | j. j < length xs \<and> j \<noteq> p}" by cases force+
next
  fix x assume "x \<in> {xs ! j | j. j < length xs \<and> j \<noteq> p}"
  then obtain j where j: "j < length xs" "j \<noteq> p" "x = xs ! j" by blast
  show "x \<in> set (take p xs @ drop (Suc p) xs)"
  proof (cases "j < p")
    case True
    then show ?thesis using j nth_mem [of j "take p xs"] by simp
  next
    case False
    then show ?thesis using j nth_mem [of "j - Suc p" "drop (Suc p) xs"] by simp
  qed
qed

lemma list_eq_by_nth:
  assumes "length xs = length ys" and "\<And>i. i < length ys \<Longrightarrow> xs ! i = ys ! i"
  shows "xs = ys"
  using assms by (simp add: list_eq_iff_nth_eq)

lemma unat_of_nat_id: "n < 2 ^ LENGTH('a) \<Longrightarrow> unat (of_nat n :: 'a::len word) = n"
  by (simp add: unat_of_nat)

section \<open>The first number a set lacks\<close>

definition first_missing :: "nat set \<Rightarrow> nat" where
  "first_missing S = (LEAST n. n \<notin> S)"

lemma first_missing_eq: "{..<B} \<subseteq> S \<Longrightarrow> B \<notin> S \<Longrightarrow> first_missing S = B"
  unfolding first_missing_def by (rule Least_equality) (auto simp: subset_iff not_le [symmetric])

lemma first_missing_ge:
  assumes "finite S" "{..<n} \<subseteq> S"
  shows "n \<le> first_missing S"
proof -
  obtain k where "k \<notin> S" using ex_new_if_finite [OF infinite_UNIV_nat assms(1)] by blast
  then have "first_missing S \<notin> S" unfolding first_missing_def by (rule LeastI)
  then show ?thesis using assms(2) by (metis lessThan_iff linorder_not_less subsetD)
qed

end
