(* ===== verification/Uint24.thy ===== *)
theory Uint24
  imports Prelude
begin

text \<open>
  The 24 bit unsigned integer of \<^verbatim>\<open>types.h\<close> (\<^verbatim>\<open>struct uint24_t\<close>): a \<^verbatim>\<open>uint32_t\<close> that every
  constructor and operator masks with \<^verbatim>\<open>0x00FFFFFF\<close>.  The operators are modelled on the
  masked 32 bit value, \<open>u24\<close> reads that value as a 24 bit word, and the refinement lemmas
  show that each operator is the operator of \<open>24 word\<close>.  The rest of the development
  therefore uses \<open>u24\<close> for \<^verbatim>\<open>DatagramSequenceNumberType\<close>, \<^verbatim>\<open>MessageNumberType\<close>,
  \<^verbatim>\<open>OrderingIndexType\<close> and \<^verbatim>\<open>SplitPacketIndexType\<close>-like counters.

  The second part models the serial number comparisons built on it:
  \<^verbatim>\<open>ReliabilityLayer::IsOlderOrderedPacket\<close> and
  \<^verbatim>\<open>CCRakNetSlidingWindow::GreaterThan\<close> / \<^verbatim>\<open>LessThan\<close>.
\<close>

section \<open>The struct and its operators\<close>

record uint24_t =
  val :: u32

definition uint24_mask :: u32 where
  "uint24_mask = 0x00FFFFFF"

definition uint24_of_u32 :: "u32 \<Rightarrow> uint24_t" where
  "uint24_of_u32 a = \<lparr>val = a AND uint24_mask\<rparr>"

definition uint24_preincr :: "uint24_t \<Rightarrow> uint24_t" where
  "uint24_preincr x = x\<lparr>val := (val x + 1) AND uint24_mask\<rparr>"

definition uint24_predecr :: "uint24_t \<Rightarrow> uint24_t" where
  "uint24_predecr x = x\<lparr>val := (val x - 1) AND uint24_mask\<rparr>"

definition uint24_postincr :: "uint24_t \<Rightarrow> uint24_t \<times> uint24_t" where
  "uint24_postincr x = (uint24_of_u32 (val x), x\<lparr>val := (val x + 1) AND uint24_mask\<rparr>)"

definition uint24_postdecr :: "uint24_t \<Rightarrow> uint24_t \<times> uint24_t" where
  "uint24_postdecr x = (uint24_of_u32 (val x), x\<lparr>val := (val x - 1) AND uint24_mask\<rparr>)"

definition uint24_and :: "uint24_t \<Rightarrow> uint24_t \<Rightarrow> uint24_t" where
  "uint24_and x a = uint24_of_u32 (val x AND val a)"

definition uint24_assign :: "uint24_t \<Rightarrow> uint24_t \<Rightarrow> uint24_t" where
  "uint24_assign x a = x\<lparr>val := val a\<rparr>"

definition uint24_add_assign :: "uint24_t \<Rightarrow> uint24_t \<Rightarrow> uint24_t" where
  "uint24_add_assign x a = x\<lparr>val := (val x + val a) AND uint24_mask\<rparr>"

definition uint24_sub_assign :: "uint24_t \<Rightarrow> uint24_t \<Rightarrow> uint24_t" where
  "uint24_sub_assign x a = x\<lparr>val := (val x - val a) AND uint24_mask\<rparr>"

definition uint24_eq :: "uint24_t \<Rightarrow> uint24_t \<Rightarrow> bool" where
  "uint24_eq x right = (val x = val right)"

definition uint24_neq :: "uint24_t \<Rightarrow> uint24_t \<Rightarrow> bool" where
  "uint24_neq x right = (val x \<noteq> val right)"

definition uint24_gt :: "uint24_t \<Rightarrow> uint24_t \<Rightarrow> bool" where
  "uint24_gt x right = (val x > val right)"

definition uint24_lt :: "uint24_t \<Rightarrow> uint24_t \<Rightarrow> bool" where
  "uint24_lt x right = (val x < val right)"

definition uint24_add :: "uint24_t \<Rightarrow> uint24_t \<Rightarrow> uint24_t" where
  "uint24_add x other = uint24_of_u32 (val x + val other)"

definition uint24_sub :: "uint24_t \<Rightarrow> uint24_t \<Rightarrow> uint24_t" where
  "uint24_sub x other = uint24_of_u32 (val x - val other)"

definition uint24_div :: "uint24_t \<Rightarrow> uint24_t \<Rightarrow> uint24_t" where
  "uint24_div x other = uint24_of_u32 (val x div val other)"

definition uint24_mul :: "uint24_t \<Rightarrow> uint24_t \<Rightarrow> uint24_t" where
  "uint24_mul x other = uint24_of_u32 (val x * val other)"

text \<open>The overloads that take a \<^verbatim>\<open>uint32_t\<close> on the right.\<close>

definition uint24_and_u32 :: "uint24_t \<Rightarrow> u32 \<Rightarrow> uint24_t" where
  "uint24_and_u32 x a = uint24_of_u32 (val x AND a)"

definition uint24_assign_u32 :: "uint24_t \<Rightarrow> u32 \<Rightarrow> uint24_t" where
  "uint24_assign_u32 x a = x\<lparr>val := a AND uint24_mask\<rparr>"

definition uint24_add_assign_u32 :: "uint24_t \<Rightarrow> u32 \<Rightarrow> uint24_t" where
  "uint24_add_assign_u32 x a = x\<lparr>val := (val x + a) AND uint24_mask\<rparr>"

definition uint24_sub_assign_u32 :: "uint24_t \<Rightarrow> u32 \<Rightarrow> uint24_t" where
  "uint24_sub_assign_u32 x a = x\<lparr>val := (val x - a) AND uint24_mask\<rparr>"

definition uint24_add_u32 :: "uint24_t \<Rightarrow> u32 \<Rightarrow> uint24_t" where
  "uint24_add_u32 x other = uint24_of_u32 (val x + other)"

definition uint24_sub_u32 :: "uint24_t \<Rightarrow> u32 \<Rightarrow> uint24_t" where
  "uint24_sub_u32 x other = uint24_of_u32 (val x - other)"

definition uint24_div_u32 :: "uint24_t \<Rightarrow> u32 \<Rightarrow> uint24_t" where
  "uint24_div_u32 x other = uint24_of_u32 (val x div other)"

definition uint24_mul_u32 :: "uint24_t \<Rightarrow> u32 \<Rightarrow> uint24_t" where
  "uint24_mul_u32 x other = uint24_of_u32 (val x * other)"

definition uint24_eq_u32 :: "uint24_t \<Rightarrow> u32 \<Rightarrow> bool" where
  "uint24_eq_u32 x right = (val x = (right AND uint24_mask))"

definition uint24_neq_u32 :: "uint24_t \<Rightarrow> u32 \<Rightarrow> bool" where
  "uint24_neq_u32 x right = (val x \<noteq> (right AND uint24_mask))"

definition uint24_gt_u32 :: "uint24_t \<Rightarrow> u32 \<Rightarrow> bool" where
  "uint24_gt_u32 x right = (val x > (right AND uint24_mask))"

definition uint24_lt_u32 :: "uint24_t \<Rightarrow> u32 \<Rightarrow> bool" where
  "uint24_lt_u32 x right = (val x < (right AND uint24_mask))"

section \<open>Invariant and refinement to 24 bit words\<close>

definition uint24_ok :: "uint24_t \<Rightarrow> bool" where
  "uint24_ok x = (val x AND uint24_mask = val x)"

definition uint24_abs :: "uint24_t \<Rightarrow> u24" where
  "uint24_abs x = ucast (val x)"

lemma uint24_mask_eq: "uint24_mask = mask 24"
  by (simp add: uint24_mask_def mask_eq_exp_minus_1)

lemma uint24_and_mask_ucast: "a AND uint24_mask = (ucast (ucast a :: u24) :: u32)"
  by (rule bit_word_eqI) (auto simp: uint24_mask_eq bit_simps)

lemma ucast_and_mask24 [simp]: "(ucast (a AND uint24_mask) :: u24) = ucast a"
  by (rule bit_word_eqI) (auto simp: uint24_mask_eq bit_simps)

lemma uint24_ok_alt: "uint24_ok x \<longleftrightarrow> val x = ucast (uint24_abs x)"
  unfolding uint24_ok_def uint24_abs_def uint24_and_mask_ucast by auto

lemma uint24_ok_of_u32 [invar_intros]: "uint24_ok (uint24_of_u32 a)"
  by (simp add: uint24_ok_def uint24_of_u32_def)

lemma uint24_abs_of_u32 [refine_simps]: "uint24_abs (uint24_of_u32 a) = ucast a"
  by (simp add: uint24_abs_def uint24_of_u32_def)

lemma ucast24_arith:
  "(ucast (a + b :: u32) :: u24) = ucast a + ucast b"
  "(ucast (a - b :: u32) :: u24) = ucast a - ucast b"
  "(ucast (a * b :: u32) :: u24) = ucast a * ucast b"
  by (simp_all add: word_uint_eq_iff uint_word_ariths unsigned_ucast_eq take_bit_eq_mod
      mod_mod_cancel mod_add_eq mod_diff_eq mod_mult_eq)

lemma ucast24_and: "(ucast (a AND b :: u32) :: u24) = ucast a AND ucast b"
  by (rule bit_word_eqI) (auto simp: bit_simps)

lemma ucast24_one [simp]: "(ucast (1 :: u32) :: u24) = 1"
  by simp

lemma uint24_ok_unat: "uint24_ok x \<Longrightarrow> unat (val x) = unat (uint24_abs x)"
  using unat_u24_less [of "uint24_abs x"]
  by (simp add: uint24_ok_alt unsigned_ucast_eq take_bit_nat_eq_self_iff)

lemmas uint24_op_defs =
  uint24_preincr_def uint24_predecr_def uint24_postincr_def uint24_postdecr_def
  uint24_and_def uint24_add_assign_def uint24_sub_assign_def uint24_add_def uint24_sub_def
  uint24_mul_def uint24_add_u32_def uint24_sub_u32_def uint24_of_u32_def
  uint24_and_u32_def uint24_assign_u32_def uint24_add_assign_u32_def uint24_sub_assign_u32_def uint24_mul_u32_def

text \<open>Every operator leaves a masked value, whatever the operands hold.\<close>

lemma uint24_ops_ok [invar_intros]:
  "uint24_ok (uint24_preincr x)" "uint24_ok (uint24_predecr x)"
  "uint24_ok (snd (uint24_postincr x))" "uint24_ok (snd (uint24_postdecr x))"
  "uint24_ok (uint24_and x y)" "uint24_ok (uint24_add_assign x y)"
  "uint24_ok (uint24_sub_assign x y)" "uint24_ok (uint24_add x y)" "uint24_ok (uint24_sub x y)"
  "uint24_ok (uint24_mul x y)" "uint24_ok (uint24_add_u32 x a)" "uint24_ok (uint24_sub_u32 x a)"
  "uint24_ok (uint24_div x y)" "uint24_ok (uint24_div_u32 x a)" "uint24_ok (fst (uint24_postincr x))" "uint24_ok (fst (uint24_postdecr x))"
  "uint24_ok (uint24_and_u32 x a)" "uint24_ok (uint24_assign_u32 x a)" "uint24_ok (uint24_add_assign_u32 x a)"
  "uint24_ok (uint24_sub_assign_u32 x a)" "uint24_ok (uint24_mul_u32 x a)"
  by (simp_all add: uint24_ok_def uint24_op_defs uint24_div_def uint24_div_u32_def)

lemma uint24_arith_refine [refine_simps]:
  "uint24_abs (uint24_preincr x) = uint24_abs x + 1"
  "uint24_abs (uint24_predecr x) = uint24_abs x - 1"
  "uint24_abs (snd (uint24_postincr x)) = uint24_abs x + 1"
  "uint24_abs (fst (uint24_postincr x)) = uint24_abs x"
  "uint24_abs (snd (uint24_postdecr x)) = uint24_abs x - 1"
  "uint24_abs (fst (uint24_postdecr x)) = uint24_abs x"
  "uint24_abs (uint24_add_assign x y) = uint24_abs x + uint24_abs y"
  "uint24_abs (uint24_sub_assign x y) = uint24_abs x - uint24_abs y"
  "uint24_abs (uint24_add x y) = uint24_abs x + uint24_abs y"
  "uint24_abs (uint24_sub x y) = uint24_abs x - uint24_abs y"
  "uint24_abs (uint24_mul x y) = uint24_abs x * uint24_abs y"
  "uint24_abs (uint24_add_u32 x a) = uint24_abs x + ucast a"
  "uint24_abs (uint24_sub_u32 x a) = uint24_abs x - ucast a"
  "uint24_abs (uint24_assign_u32 x a) = ucast a"
  "uint24_abs (uint24_add_assign_u32 x a) = uint24_abs x + ucast a"
  "uint24_abs (uint24_sub_assign_u32 x a) = uint24_abs x - ucast a"
  "uint24_abs (uint24_mul_u32 x a) = uint24_abs x * ucast a"
  by (simp_all add: uint24_abs_def uint24_op_defs ucast24_arith)

lemma uint24_and_refine [refine_simps]:
  "uint24_abs (uint24_and x y) = uint24_abs x AND uint24_abs y"
  "uint24_abs (uint24_and_u32 x a) = uint24_abs x AND ucast a"
  unfolding uint24_and_def uint24_and_u32_def uint24_abs_of_u32 by (simp_all add: uint24_abs_def ucast24_and)

lemma uint24_div_refine [refine_simps]:
  assumes "uint24_ok x" "uint24_ok y"
  shows "uint24_abs (uint24_div x y) = uint24_abs x div uint24_abs y"
proof -
  have lt: "unat (uint24_abs x) div unat (uint24_abs y) < 2 ^ 24"
    using le_less_trans [OF div_le_dividend unat_u24_less] by simp
  have "unat (ucast (val x div val y) :: u24) = unat (uint24_abs x div uint24_abs y)"
    using lt assms
    by (simp add: unat_div uint24_ok_unat unsigned_ucast_eq take_bit_nat_eq_self_iff)
  then show ?thesis
    by (simp add: uint24_div_def uint24_abs_of_u32 word_unat_eq_iff)
qed

text \<open>The divisor is not masked: a divisor of \<open>2\<^sup>2\<^sup>4\<close> or more gives 0.\<close>

lemma uint24_div_u32_refine:
  assumes "uint24_ok x"
  shows "unat (uint24_abs (uint24_div_u32 x a)) = unat (uint24_abs x) div unat a"
proof -
  have "unat (uint24_abs x) div unat a < 2 ^ 24" using le_less_trans [OF div_le_dividend unat_u24_less] by simp
  then show ?thesis using assms
    by (simp add: uint24_div_u32_def uint24_abs_of_u32 unat_div uint24_ok_unat unsigned_ucast_eq take_bit_nat_eq_self_iff)
qed

lemma uint24_compare_refine [refine_simps]:
  assumes "uint24_ok x" "uint24_ok y"
  shows "uint24_eq x y \<longleftrightarrow> uint24_abs x = uint24_abs y"
    and "uint24_gt x y \<longleftrightarrow> uint24_abs x > uint24_abs y"
    and "uint24_lt x y \<longleftrightarrow> uint24_abs x < uint24_abs y"
  using assms
  by (simp_all add: uint24_eq_def uint24_gt_def uint24_lt_def word_unat_eq_iff
      word_less_nat_alt uint24_ok_unat)

lemma uint24_compare_u32_refine [refine_simps]:
  assumes "uint24_ok x"
  shows "uint24_eq_u32 x a \<longleftrightarrow> uint24_abs x = ucast a"
    and "uint24_gt_u32 x a \<longleftrightarrow> uint24_abs x > ucast a"
    and "uint24_lt_u32 x a \<longleftrightarrow> uint24_abs x < ucast a"
  using assms uint24_compare_refine [OF assms uint24_ok_of_u32 [of a]]
  by (simp_all add: uint24_eq_u32_def uint24_gt_u32_def uint24_lt_u32_def uint24_eq_def
      uint24_gt_def uint24_lt_def uint24_of_u32_def uint24_abs_def)

section \<open>Serial number comparison\<close>

definition IsOlderOrderedPacket :: "u24 \<Rightarrow> u24 \<Rightarrow> bool" where
  "IsOlderOrderedPacket newPacketOrderingIndex waitingForPacketOrderingIndex =
    (let maxRange = (ucast (- 1 :: u32) :: u24) in
     if waitingForPacketOrderingIndex > maxRange div 2 then
       newPacketOrderingIndex \<ge> waitingForPacketOrderingIndex - maxRange div 2 + 1
         \<and> newPacketOrderingIndex < waitingForPacketOrderingIndex
     else
       newPacketOrderingIndex \<ge> waitingForPacketOrderingIndex - (maxRange div 2 + 1)
         \<or> newPacketOrderingIndex < waitingForPacketOrderingIndex)"

definition CC_GreaterThan :: "u24 \<Rightarrow> u24 \<Rightarrow> bool" where
  "CC_GreaterThan a b =
    (let halfSpan = (ucast (- 1 :: u32) :: u24) div 2 in b \<noteq> a \<and> b - a > halfSpan)"

definition CC_LessThan :: "u24 \<Rightarrow> u24 \<Rightarrow> bool" where
  "CC_LessThan a b =
    (let halfSpan = (ucast (- 1 :: u32) :: u24) div 2 in b \<noteq> a \<and> b - a < halfSpan)"

lemma halfSpan_eq: "(ucast (- 1 :: u32) :: u24) div 2 = 8388607"
proof -
  have "(ucast (- 1 :: u32) :: u24) = - 1"
    by (rule bit_word_eqI) (simp add: bit_simps)
  then show ?thesis by simp
qed

lemma IsOlderOrderedPacket_distance:
  "IsOlderOrderedPacket n w \<longleftrightarrow>
    (let d = unat (w - n) in
     0 < d \<and> d \<le> (if w > 8388607 then 8388606 else 8388608))"
proof -
  have n: "unat n < 16777216" and w: "unat w < 16777216"
    by (rule unat_u24_less)+
  show ?thesis
    using n w unfolding IsOlderOrderedPacket_def halfSpan_eq Let_def
    by (auto simp: word_less_nat_alt word_le_nat_alt unat_sub_wrap unat_plus_wrap split: if_splits)
qed

lemma CC_GreaterThan_distance: "CC_GreaterThan a b \<longleftrightarrow> unat (b - a) > 8388607"
  by (auto simp: CC_GreaterThan_def halfSpan_eq Let_def word_less_nat_alt)

lemma CC_LessThan_distance: "CC_LessThan a b \<longleftrightarrow> 0 < unat (b - a) \<and> unat (b - a) < 8388607"
  by (auto simp: CC_LessThan_def halfSpan_eq Let_def word_less_nat_alt unat_gt_0)

text \<open>The comparison of datagram numbers used by congestion control is the
  intended half-window order: for two numbers less than half the number space apart
  (distance \<open>0 < d < 2\<^sup>2\<^sup>3 - 1\<close> going forward), exactly the later one is greater, across the
  wrap-around at \<open>2\<^sup>2\<^sup>4\<close>.\<close>

theorem CC_serial_order:
  assumes "0 < d" "d < 8388607"
  shows "CC_LessThan a (a + of_nat d) \<and> CC_GreaterThan (a + of_nat d) a \<and>
    \<not> CC_GreaterThan a (a + of_nat d) \<and> \<not> CC_LessThan (a + of_nat d) a"
proof -
  have d: "unat (of_nat d :: u24) = d" using assms by (simp add: unat_of_nat)
  then have "unat (- of_nat d :: u24) = 16777216 - d"
    using assms unat_sub_wrap [of 0 "of_nat d :: u24"] by (auto simp: word_le_nat_alt)
  then show ?thesis
    using d assms by (auto simp: CC_LessThan_distance CC_GreaterThan_distance)
qed

theorem CC_serial_order_witness: "CC_LessThan (16777215 :: u24) (16777215 + of_nat 3)"
  using CC_serial_order [of 3 16777215] by simp

text \<open>At distance exactly \<open>2\<^sup>2\<^sup>3 - 1\<close> neither comparison holds in either direction for
  \<open>LessThan\<close>, and at distance \<open>2\<^sup>2\<^sup>3\<close> each number is greater than the other: the two
  comparisons are not complementary at the edge of the window.\<close>

theorem CC_serial_edge:
  "\<not> CC_LessThan a (a + 8388607) \<and> \<not> CC_GreaterThan a (a + 8388607) \<and>
   CC_GreaterThan a (a + 8388608) \<and> CC_GreaterThan (a + 8388608) a"
  by (simp add: CC_LessThan_distance CC_GreaterThan_distance)

lemma IsOlderOrderedPacket_shift:
  assumes "d < 8388608"
  shows "\<not> IsOlderOrderedPacket (w + of_nat d) w"
    and "0 < d \<and> d \<le> 8388606 \<longrightarrow> IsOlderOrderedPacket (w - of_nat d) w"
proof -
  have d: "unat (of_nat d :: u24) = d" using assms by (simp add: unat_of_nat)
  then have "unat (- of_nat d :: u24) = (if d = 0 then 0 else 16777216 - d)"
    using assms unat_sub_wrap [of 0 "of_nat d :: u24"] by (auto simp: word_le_nat_alt)
  then show "\<not> IsOlderOrderedPacket (w + of_nat d) w"
    using assms by (auto simp: IsOlderOrderedPacket_distance Let_def)
  show "0 < d \<and> d \<le> 8388606 \<longrightarrow> IsOlderOrderedPacket (w - of_nat d) w"
    using d by (auto simp: IsOlderOrderedPacket_distance Let_def)
qed

text \<open>The same for unbounded numbers of which the 24 bit indices are the residues.\<close>

lemma IsOlderOrderedPacket_number:
  assumes "a < b + 8388608" "b \<le> a + 8388606"
  shows "IsOlderOrderedPacket (of_nat a) (of_nat b) \<longleftrightarrow> a < b"
proof (cases "a < b")
  case True
  have "(of_nat a :: u24) = of_nat b - of_nat (b - a)" using True by (simp add: of_nat_diff)
  then show ?thesis using IsOlderOrderedPacket_shift(2) [of "b - a" "of_nat b"] True assms by simp
next
  case False
  have "(of_nat a :: u24) = of_nat b + of_nat (a - b)" using False by (simp add: of_nat_diff)
  then show ?thesis using IsOlderOrderedPacket_shift(1) [of "a - b" "of_nat b"] False assms by simp
qed

lemma of_nat_u24_eq:
  assumes "a < b + 16777216" "b < a + 16777216"
  shows "(of_nat a :: u24) = of_nat b \<longleftrightarrow> a = b"
proof -
  have "a = b" if "(of_nat a :: u24) = of_nat b"
  proof -
    have m: "a mod 16777216 = b mod 16777216"
      using that word_of_nat_eq_iff [where 'a = 24, of a b] by (simp add: take_bit_eq_mod)
    show ?thesis
    proof (cases "a \<le> b")
      case True
      then have "16777216 dvd b - a" using m by (metis mod_eq_dvd_iff_nat)
      then show ?thesis using True assms by (cases "b - a = 0") (auto dest: dvd_imp_le)
    next
      case False
      then have "16777216 dvd a - b" using m by (metis mod_eq_dvd_iff_nat nat_le_linear)
      then show ?thesis using False assms by (cases "a - b = 0") (auto dest: dvd_imp_le)
    qed
  qed
  then show ?thesis by blast
qed

lemma unat_u24_diff:
  assumes "b \<le> a" "a < b + 16777216"
  shows "unat (of_nat a - of_nat b :: u24) = a - b"
proof -
  have "(of_nat a - of_nat b :: u24) = of_nat (a - b)" using assms(1) by (simp add: of_nat_diff)
  moreover have "unat (of_nat (a - b) :: u24) = (a - b) mod 2 ^ 24" by (simp only: unat_of_nat) simp
  ultimately show ?thesis using assms by (simp only:) simp
qed

text \<open>An ordering index is reported older than the one waited for exactly when it lies
  at most half the index space behind; an index ahead of the one waited for by less than
  \<open>2\<^sup>2\<^sup>3\<close> is never reported older, so a message of the future is never discarded.\<close>

theorem IsOlderOrderedPacket_window:
  assumes "d < 8388608"
  shows "\<not> IsOlderOrderedPacket (w + of_nat d) w \<and>
    (0 < d \<and> d \<le> 8388606 \<longrightarrow> IsOlderOrderedPacket (w - of_nat d) w)"
  using IsOlderOrderedPacket_shift [OF assms] by blast

theorem IsOlderOrderedPacket_window_witness:
  "\<not> IsOlderOrderedPacket (16777215 + of_nat 5) (16777215 :: u24)"
  using IsOlderOrderedPacket_window [of 5 16777215] by simp

text \<open>Property C31: the masked 32 bit struct is a 24 bit word: every constructor and operator of
  \<^verbatim>\<open>uint24_t\<close> keeps the upper eight bits clear if its operands do (all but the copies do so whatever the operands
  hold), the arithmetic, the compound assignments and the increments and decrements are those of 24 bit words, with
  a 32 bit right operand taken modulo \<open>2\<^sup>2\<^sup>4\<close>, and the comparisons are those of 24 bit words.  Division, by a divisor that is
  not 0, is the exception: a 32 bit divisor is not reduced.\<close>

theorem uint24_refines_word:
  assumes "uint24_ok x" "uint24_ok y"
  shows "uint24_ok (uint24_of_u32 a) \<and> uint24_abs (uint24_of_u32 a) = ucast a \<and>
     uint24_ok (uint24_assign x y) \<and> uint24_abs (uint24_assign x y) = uint24_abs y \<and>
     uint24_ok (uint24_assign_u32 x a) \<and> uint24_abs (uint24_assign_u32 x a) = ucast a \<and>
     uint24_ok (uint24_add x y) \<and> uint24_abs (uint24_add x y) = uint24_abs x + uint24_abs y \<and>
     uint24_ok (uint24_sub x y) \<and> uint24_abs (uint24_sub x y) = uint24_abs x - uint24_abs y \<and>
     uint24_ok (uint24_mul x y) \<and> uint24_abs (uint24_mul x y) = uint24_abs x * uint24_abs y \<and>
     uint24_ok (uint24_and x y) \<and> uint24_abs (uint24_and x y) = uint24_abs x AND uint24_abs y \<and>
     (val y \<noteq> 0 \<longrightarrow> uint24_ok (uint24_div x y) \<and> uint24_abs (uint24_div x y) = uint24_abs x div uint24_abs y) \<and>
     uint24_ok (uint24_add_u32 x a) \<and> uint24_abs (uint24_add_u32 x a) = uint24_abs x + ucast a \<and>
     uint24_ok (uint24_sub_u32 x a) \<and> uint24_abs (uint24_sub_u32 x a) = uint24_abs x - ucast a \<and>
     uint24_ok (uint24_mul_u32 x a) \<and> uint24_abs (uint24_mul_u32 x a) = uint24_abs x * ucast a \<and>
     uint24_ok (uint24_and_u32 x a) \<and> uint24_abs (uint24_and_u32 x a) = uint24_abs x AND ucast a \<and>
     (a \<noteq> 0 \<longrightarrow> uint24_ok (uint24_div_u32 x a) \<and> unat (uint24_abs (uint24_div_u32 x a)) = unat (uint24_abs x) div unat a) \<and>
     uint24_ok (uint24_add_assign x y) \<and> uint24_abs (uint24_add_assign x y) = uint24_abs x + uint24_abs y \<and>
     uint24_ok (uint24_sub_assign x y) \<and> uint24_abs (uint24_sub_assign x y) = uint24_abs x - uint24_abs y \<and>
     uint24_ok (uint24_add_assign_u32 x a) \<and> uint24_abs (uint24_add_assign_u32 x a) = uint24_abs x + ucast a \<and>
     uint24_ok (uint24_sub_assign_u32 x a) \<and> uint24_abs (uint24_sub_assign_u32 x a) = uint24_abs x - ucast a \<and>
     uint24_ok (uint24_preincr x) \<and> uint24_abs (uint24_preincr x) = uint24_abs x + 1 \<and>
     uint24_ok (uint24_predecr x) \<and> uint24_abs (uint24_predecr x) = uint24_abs x - 1 \<and>
     fst (uint24_postincr x) = x \<and> uint24_ok (snd (uint24_postincr x)) \<and> uint24_abs (snd (uint24_postincr x)) = uint24_abs x + 1 \<and>
     fst (uint24_postdecr x) = x \<and> uint24_ok (snd (uint24_postdecr x)) \<and> uint24_abs (snd (uint24_postdecr x)) = uint24_abs x - 1 \<and>
     (uint24_eq x y \<longleftrightarrow> uint24_abs x = uint24_abs y) \<and> (uint24_neq x y \<longleftrightarrow> uint24_abs x \<noteq> uint24_abs y) \<and>
     (uint24_gt x y \<longleftrightarrow> uint24_abs x > uint24_abs y) \<and> (uint24_lt x y \<longleftrightarrow> uint24_abs x < uint24_abs y) \<and>
     (uint24_eq_u32 x a \<longleftrightarrow> uint24_abs x = ucast a) \<and> (uint24_neq_u32 x a \<longleftrightarrow> uint24_abs x \<noteq> ucast a) \<and>
     (uint24_gt_u32 x a \<longleftrightarrow> uint24_abs x > ucast a) \<and> (uint24_lt_u32 x a \<longleftrightarrow> uint24_abs x < ucast a)"
proof -
  have neq: "uint24_neq x y \<longleftrightarrow> \<not> uint24_eq x y" "uint24_neq_u32 x a \<longleftrightarrow> \<not> uint24_eq_u32 x a"
    by (simp_all add: uint24_neq_def uint24_eq_def uint24_neq_u32_def uint24_eq_u32_def)
  have post: "fst (uint24_postincr x) = x" "fst (uint24_postdecr x) = x"
    using assms(1) by (simp_all add: uint24_postincr_def uint24_postdecr_def uint24_of_u32_def uint24_ok_def)
  have copy: "uint24_ok (uint24_assign x y)" "uint24_abs (uint24_assign x y) = uint24_abs y"
    using assms(2) by (simp_all add: uint24_assign_def uint24_ok_def uint24_abs_def)
  show ?thesis by (simp add: assms neq post copy invar_intros refine_simps uint24_div_u32_refine)
qed

theorem uint24_refines_word_witness:
  "uint24_abs (uint24_add_assign_u32 \<lparr>val = 0xFFFFFF\<rparr> 0x1000002) = 1 \<and> uint24_lt \<lparr>val = 5\<rparr> \<lparr>val = 0xFFFFFF\<rparr>"
  using uint24_refines_word [of "\<lparr>val = 0xFFFFFF\<rparr>" "\<lparr>val = 5\<rparr>" "0x1000002"] uint24_refines_word [of "\<lparr>val = 5\<rparr>" "\<lparr>val = 0xFFFFFF\<rparr>"]
  by (simp add: uint24_ok_def uint24_mask_def uint24_abs_def)

end
