(* ===== verification/DS_Queue.thy ===== *)
theory DS_Queue
  imports Prelude
begin

text \<open>
  \<^verbatim>\<open>DataStructures::Queue\<close> of \<^verbatim>\<open>ds_queue.h\<close>: a ring buffer with a read index, a write index and
  an array that is doubled when the write index catches up.  The operations are modelled on
  the array and the two indices; \<open>queue_list\<close> reads the stored sequence, \<open>queue_ok\<close> is the
  representation invariant, and every operation is shown to refine the corresponding
  operation on lists.  The contents of freshly allocated array cells are a parameter
  \<open>fresh\<close> of the operations that allocate, so every lemma holds for arbitrary
  uninitialised memory.  Allocation is assumed to succeed, and the indices are natural
  numbers: their wrap-around needs more than \<open>2\<^sup>3\<^sup>1\<close> cells.
\<close>

section \<open>Data and operations\<close>

record 'a Queue =
  q_array :: "'a list"
  q_head :: nat
  q_tail :: nat
  q_allocation_size :: nat

definition Queue_new :: "'a Queue" where
  "Queue_new = \<lparr>q_array = [], q_head = 0, q_tail = 0, q_allocation_size = 0\<rparr>"

definition Queue_Size :: "'a Queue \<Rightarrow> nat" where
  "Queue_Size q =
    (if q_head q \<le> q_tail q then q_tail q - q_head q
     else q_allocation_size q - q_head q + q_tail q)"

definition Queue_IsEmpty :: "'a Queue \<Rightarrow> bool" where
  "Queue_IsEmpty q = (q_head q = q_tail q)"

definition new_array :: "(nat \<Rightarrow> 'a) \<Rightarrow> nat \<Rightarrow> 'a list" where
  "new_array fresh n = map fresh [0..<n]"

definition Queue_Push :: "(nat \<Rightarrow> 'a) \<Rightarrow> 'a \<Rightarrow> 'a Queue \<Rightarrow> 'a Queue" where
  "Queue_Push fresh input q =
    (if q_allocation_size q = 0 then
       \<lparr>q_array = (new_array fresh 16)[0 := input], q_head = 0, q_tail = 1, q_allocation_size = 16\<rparr>
     else
       let arr = (q_array q)[q_tail q := input];
           tail1 = q_tail q + 1;
           tail2 = (if tail1 = q_allocation_size q then 0 else tail1)
       in if tail2 = q_head q then
            let n = q_allocation_size q;
                grown = new_array fresh (n * 2);
                copied = foldl (\<lambda>a counter. a[counter := arr ! ((q_head q + counter) mod n)])
                           grown [0..<n]
            in \<lparr>q_array = copied, q_head = 0, q_tail = n, q_allocation_size = n * 2\<rparr>
          else q\<lparr>q_array := arr, q_tail := tail2\<rparr>)"

definition Queue_Pop :: "'a Queue \<Rightarrow> 'a \<times> 'a Queue" where
  "Queue_Pop q =
    (let head1 = q_head q + 1;
         head2 = (if head1 = q_allocation_size q then 0 else head1);
         q' = q\<lparr>q_head := head2\<rparr>
     in if head2 = 0 then (q_array q ! (q_allocation_size q - 1), q')
        else (q_array q ! (head2 - 1), q'))"

definition Queue_PopTail :: "'a Queue \<Rightarrow> 'a \<times> 'a Queue" where
  "Queue_PopTail q =
    (if q_tail q \<noteq> 0 then (q_array q ! (q_tail q - 1), q\<lparr>q_tail := q_tail q - 1\<rparr>)
     else (q_array q ! (q_allocation_size q - 1), q\<lparr>q_tail := q_allocation_size q - 1\<rparr>))"

definition Queue_PopDeref :: "'a \<Rightarrow> 'a Queue \<Rightarrow> 'a \<times> 'a Queue" where
  "Queue_PopDeref zero q =
    (let head1 = q_head q + 1;
         head2 = (if head1 = q_allocation_size q then 0 else head1);
         i = (if head2 = 0 then q_allocation_size q - 1 else head2 - 1)
     in (q_array q ! i, q\<lparr>q_head := head2, q_array := (q_array q)[i := zero]\<rparr>))"

definition Queue_Peek :: "'a Queue \<Rightarrow> 'a" where
  "Queue_Peek q = q_array q ! q_head q"

definition Queue_PeekTail :: "'a Queue \<Rightarrow> 'a" where
  "Queue_PeekTail q =
    (if q_tail q \<noteq> 0 then q_array q ! (q_tail q - 1) else q_array q ! (q_allocation_size q - 1))"

definition Queue_index :: "'a Queue \<Rightarrow> nat \<Rightarrow> nat" where
  "Queue_index q position =
    (if q_head q + position \<ge> q_allocation_size q then q_head q + position - q_allocation_size q
     else q_head q + position)"

definition Queue_nth :: "'a Queue \<Rightarrow> nat \<Rightarrow> 'a" where
  "Queue_nth q position = q_array q ! Queue_index q position"

definition Queue_set :: "'a Queue \<Rightarrow> nat \<Rightarrow> 'a \<Rightarrow> 'a Queue" where
  "Queue_set q position x = q\<lparr>q_array := (q_array q)[Queue_index q position := x]\<rparr>"

fun PushAtHead_shift :: "'a Queue \<Rightarrow> nat \<Rightarrow> nat \<Rightarrow> 'a list \<Rightarrow> 'a list" where
  "PushAtHead_shift q index 0 arr =
    (if 0 \<ge> index then arr[Queue_index q (Suc 0) := arr ! Queue_index q 0] else arr)"
| "PushAtHead_shift q index (Suc r) arr =
    (if Suc r \<ge> index then
       PushAtHead_shift q index r (arr[Queue_index q (Suc (Suc r)) := arr ! Queue_index q (Suc r)])
     else arr)"

definition Queue_PushAtHead :: "(nat \<Rightarrow> 'a) \<Rightarrow> 'a \<Rightarrow> nat \<Rightarrow> 'a Queue \<Rightarrow> 'a Queue" where
  "Queue_PushAtHead fresh input index q =
    (let q1 = Queue_Push fresh input q
     in if Queue_Size q1 = 1 then q1
        else
          let readIndex = Queue_Size q1 - 1 - 1;
              arr = PushAtHead_shift q1 index readIndex (q_array q1)
          in q1\<lparr>q_array := arr[Queue_index q1 index := input]\<rparr>)"

definition Queue_Clear :: "'a Queue \<Rightarrow> 'a Queue" where
  "Queue_Clear q =
    (if q_allocation_size q = 0 then q
     else if q_allocation_size q > 32 then
       q\<lparr>q_array := [], q_allocation_size := 0, q_head := 0, q_tail := 0\<rparr>
     else q\<lparr>q_head := 0, q_tail := 0\<rparr>)"

function Compress_size :: "nat \<Rightarrow> nat \<Rightarrow> nat" where
  "Compress_size sz n =
    (if n = 0 then 0 else if n \<le> sz then Compress_size sz (n * 2) else n)"
  by pat_completeness auto
termination
  by (relation "measure (\<lambda>(sz, n). Suc sz - n)") auto

definition Queue_Compress :: "(nat \<Rightarrow> 'a) \<Rightarrow> 'a Queue \<Rightarrow> 'a Queue" where
  "Queue_Compress fresh q =
    (if q_allocation_size q = 0 then q
     else
       let newAllocationSize = Compress_size (Queue_Size q) 1;
           copied = foldl (\<lambda>a counter.
                       a[counter := q_array q ! ((q_head q + counter) mod q_allocation_size q)])
                     (new_array fresh newAllocationSize) [0..<Queue_Size q]
       in \<lparr>q_array = copied, q_head = 0, q_tail = Queue_Size q,
           q_allocation_size = newAllocationSize\<rparr>)"

fun Find_from :: "'a Queue \<Rightarrow> 'a \<Rightarrow> nat \<Rightarrow> nat \<Rightarrow> bool" where
  "Find_from q x counter 0 = False"
| "Find_from q x counter (Suc fuel) =
    (if counter = q_tail q then False
     else if q_array q ! counter = x then True
     else Find_from q x ((counter + 1) mod q_allocation_size q) fuel)"

definition Queue_Find :: "'a Queue \<Rightarrow> 'a \<Rightarrow> bool" where
  "Queue_Find q x =
    (if q_allocation_size q = 0 then False
     else Find_from q x (q_head q) (Suc (q_allocation_size q)))"

definition Queue_ClearAndForceAllocation :: "(nat \<Rightarrow> 'a) \<Rightarrow> nat \<Rightarrow> 'a Queue \<Rightarrow> 'a Queue" where
  "Queue_ClearAndForceAllocation fresh sz q =
    \<lparr>q_array = (if sz > 0 then new_array fresh sz else []), q_head = 0, q_tail = 0,
     q_allocation_size = sz\<rparr>"

fun RemoveAtIndex_loop :: "'a Queue \<Rightarrow> nat \<Rightarrow> nat \<Rightarrow> 'a list \<Rightarrow> nat \<Rightarrow> 'a list" where
  "RemoveAtIndex_loop q index nxt arr 0 = arr"
| "RemoveAtIndex_loop q index nxt arr (Suc fuel) =
    (if nxt = q_tail q then arr
     else RemoveAtIndex_loop q nxt (if nxt + 1 = q_allocation_size q then 0 else nxt + 1)
            (arr[index := arr ! nxt]) fuel)"

definition Queue_RemoveAtIndex :: "nat \<Rightarrow> 'a Queue \<Rightarrow> 'a Queue" where
  "Queue_RemoveAtIndex position q =
    (if q_head q = q_tail q \<or> position \<ge> Queue_Size q then q
     else
       let index = Queue_index q position;
           nxt = (if index + 1 = q_allocation_size q then 0 else index + 1)
       in q\<lparr>q_array := RemoveAtIndex_loop q index nxt (q_array q) (q_allocation_size q),
            q_tail := (if q_tail q = 0 then q_allocation_size q - 1 else q_tail q - 1)\<rparr>)"

definition Queue_copy :: "(nat \<Rightarrow> 'a) \<Rightarrow> 'a Queue \<Rightarrow> 'a Queue \<Rightarrow> 'a Queue" where
  "Queue_copy fresh this original_copy =
    (if Queue_Size original_copy = 0 then this\<lparr>q_allocation_size := 0\<rparr>
     else
       let n = Queue_Size original_copy;
           copied = foldl (\<lambda>a counter.
                       a[counter := q_array original_copy !
                          ((q_head original_copy + counter) mod q_allocation_size original_copy)])
                     (new_array fresh (n + 1)) [0..<n]
       in \<lparr>q_array = copied, q_head = 0, q_tail = n, q_allocation_size = n + 1\<rparr>)"

definition Queue_assign :: "(nat \<Rightarrow> 'a) \<Rightarrow> 'a Queue \<Rightarrow> 'a Queue \<Rightarrow> 'a Queue" where
  "Queue_assign fresh original_copy this = Queue_copy fresh (Queue_Clear this) original_copy"

section \<open>Abstraction and representation invariant\<close>

definition queue_list :: "'a Queue \<Rightarrow> 'a list" where
  "queue_list q =
    map (\<lambda>i. q_array q ! ((q_head q + i) mod q_allocation_size q)) [0..<Queue_Size q]"

definition queue_ok :: "'a Queue \<Rightarrow> bool" where
  "queue_ok q =
    (length (q_array q) = q_allocation_size q \<and>
     (if q_allocation_size q = 0 then q_head q = 0 \<and> q_tail q = 0
      else q_head q < q_allocation_size q \<and> q_tail q < q_allocation_size q))"

section \<open>Ring arithmetic\<close>

lemma foldl_copy:
  "n \<le> length xs \<Longrightarrow>
    foldl (\<lambda>a c. a[c := f c]) xs [0..<n] = map f [0..<n] @ drop n xs"
proof (induction n)
  case (Suc n)
  then show ?case
    by (simp add: list_update_append upd_conv_take_nth_drop Cons_nth_drop_Suc [symmetric])
qed simp

lemma length_new_array [simp]: "length (new_array fresh n) = n"
  by (simp add: new_array_def)

lemma ring_inj:
  assumes eq: "(h + i) mod n = (h + j) mod n" and "i < n" "j < (n::nat)"
  shows "i = j"
proof -
  have "i = j" if "(h + i) mod n = (h + j) mod n" "i \<le> j" "j < n" for i j
  proof -
    have "n dvd (h + j) - (h + i)"
      using that(1,2) by (subst mod_eq_dvd_iff_nat [symmetric]) simp_all
    then show ?thesis using that(2,3) by (auto dest: dvd_imp_le)
  qed
  from this [of i j] this [of j i] assms show ?thesis by (cases "i \<le> j") simp_all
qed

lemma Queue_Size_less: "queue_ok q \<Longrightarrow> q_allocation_size q \<noteq> 0 \<Longrightarrow> Queue_Size q < q_allocation_size q"
  by (auto simp: queue_ok_def Queue_Size_def split: if_splits)

lemma Queue_Size_alloc0: "queue_ok q \<Longrightarrow> q_allocation_size q = 0 \<Longrightarrow> Queue_Size q = 0"
  by (simp add: queue_ok_def Queue_Size_def)

lemma Queue_Size_tail:
  "queue_ok q \<Longrightarrow> q_allocation_size q \<noteq> 0 \<Longrightarrow>
    q_tail q = (q_head q + Queue_Size q) mod q_allocation_size q"
  by (auto simp: queue_ok_def Queue_Size_def mod_if split: if_splits)

lemma Queue_SizeI:
  assumes "q_tail q = (q_head q + k) mod q_allocation_size q"
    and "q_head q < q_allocation_size q" "k < q_allocation_size q"
  shows "Queue_Size q = k"
proof -
  have "queue_ok (q\<lparr>q_array := replicate (q_allocation_size q) undefined\<rparr>)"
    using assms by (simp add: queue_ok_def)
  from Queue_Size_tail [OF this] Queue_Size_less [OF this] assms
  show ?thesis by (auto simp: Queue_Size_def dest: ring_inj)
qed

lemma Queue_index_mod:
  "queue_ok q \<Longrightarrow> i < q_allocation_size q \<Longrightarrow>
    Queue_index q i = (q_head q + i) mod q_allocation_size q"
  by (auto simp: queue_ok_def Queue_index_def mod_if split: if_splits)

lemma Queue_Size_array [simp]: "Queue_Size (q\<lparr>q_array := a\<rparr>) = Queue_Size q"
  by (simp add: Queue_Size_def)

lemma length_queue_list [simp]: "length (queue_list q) = Queue_Size q"
  by (simp add: queue_list_def)

lemma nth_queue_list:
  "i < Queue_Size q \<Longrightarrow> queue_list q ! i = q_array q ! ((q_head q + i) mod q_allocation_size q)"
  by (simp add: queue_list_def)

lemma queue_list_eqI:
  assumes "queue_ok q" "Queue_Size q = length xs"
    and "\<And>i. i < length xs \<Longrightarrow> q_array q ! ((q_head q + i) mod q_allocation_size q) = xs ! i"
  shows "queue_list q = xs"
  using assms by (intro list_eq_by_nth) (simp_all add: nth_queue_list)

section \<open>The operations refine the list operations\<close>

lemma Queue_new_ok [invar_intros]: "queue_ok Queue_new"
  by (simp add: queue_ok_def Queue_new_def)

lemma Queue_new_list [refine_simps]: "queue_list Queue_new = []"
  by (simp add: queue_list_def Queue_new_def Queue_Size_def)

lemma Queue_IsEmpty_list [refine_simps]: "queue_ok q \<Longrightarrow> Queue_IsEmpty q \<longleftrightarrow> queue_list q = []"
  by (auto simp: queue_ok_def Queue_IsEmpty_def queue_list_def Queue_Size_def split: if_splits)

lemma Queue_Push_alloc0:
  assumes "queue_ok q" "q_allocation_size q = 0"
  shows "queue_ok (Queue_Push fresh x q) \<and> queue_list (Queue_Push fresh x q) = queue_list q @ [x]"
proof -
  have "queue_list q = []" using assms by (simp add: queue_list_def Queue_Size_alloc0)
  moreover have "queue_ok (Queue_Push fresh x q)"
    using assms by (simp add: Queue_Push_def queue_ok_def)
  moreover have "queue_list (Queue_Push fresh x q) = [x]"
    using assms by (simp add: Queue_Push_def queue_list_def Queue_Size_def)
  ultimately show ?thesis by simp
qed

lemma Queue_Push_room:
  assumes ok: "queue_ok q" and room: "Queue_Size q + 1 < q_allocation_size q"
  shows "queue_ok (Queue_Push fresh x q) \<and> queue_list (Queue_Push fresh x q) = queue_list q @ [x]"
proof -
  let ?n = "q_allocation_size q" and ?q = "Queue_Push fresh x q"
  let ?t = "(q_head q + (Queue_Size q + 1)) mod ?n"
  have n: "?n \<noteq> 0" using room by simp
  have h: "q_head q < ?n" "q_tail q < ?n" "length (q_array q) = ?n"
    using ok n by (auto simp: queue_ok_def)
  have t: "(if q_tail q + 1 = ?n then 0 else q_tail q + 1) = ?t"
    using Queue_Size_tail [OF ok n] h by (auto simp: mod_Suc)
  have "?t \<noteq> q_head q"
    using ring_inj [of "q_head q" "Queue_Size q + 1" ?n 0] h room by auto
  then have q: "?q = q\<lparr>q_array := (q_array q)[q_tail q := x], q_tail := ?t\<rparr>"
    using n unfolding Queue_Push_def Let_def t by (simp only: if_False)
  have ok': "queue_ok ?q" using q h by (simp add: queue_ok_def)
  have sz: "Queue_Size ?q = Queue_Size q + 1"
    by (rule Queue_SizeI) (use q h room in simp_all)
  have "queue_list ?q = queue_list q @ [x]"
  proof (rule queue_list_eqI [OF ok'])
    fix i assume i: "i < length (queue_list q @ [x])"
    show "q_array ?q ! ((q_head ?q + i) mod q_allocation_size ?q) = (queue_list q @ [x]) ! i"
    proof (cases "i < Queue_Size q")
      case True
      then have "(q_head q + i) mod ?n \<noteq> q_tail q"
        using Queue_Size_tail [OF ok n] room by (auto dest: ring_inj)
      then show ?thesis using True q by (simp add: nth_append nth_queue_list)
    next
      case False
      then have "i = Queue_Size q" using i by simp
      then show ?thesis using q h Queue_Size_tail [OF ok n] by (simp add: nth_append)
    qed
  qed (simp add: sz)
  then show ?thesis using ok' by simp
qed

lemma Queue_Push_grow:
  assumes ok: "queue_ok q" and full: "Queue_Size q + 1 = q_allocation_size q"
  shows "queue_ok (Queue_Push fresh x q) \<and> queue_list (Queue_Push fresh x q) = queue_list q @ [x]"
proof -
  let ?n = "q_allocation_size q" and ?q = "Queue_Push fresh x q"
  let ?arr = "(q_array q)[q_tail q := x]"
  let ?copied = "map (\<lambda>c. ?arr ! ((q_head q + c) mod ?n)) [0..<?n] @ drop ?n (new_array fresh (?n * 2))"
  have n: "?n \<noteq> 0" using full by simp
  have h: "q_head q < ?n" "q_tail q < ?n" "length (q_array q) = ?n"
    using ok n by (auto simp: queue_ok_def)
  have t: "(if q_tail q + 1 = ?n then 0 else q_tail q + 1) = q_head q"
    using Queue_Size_tail [OF ok n] h full [symmetric] by (auto simp: mod_if split: if_splits)
  have q: "?q = \<lparr>q_array = ?copied, q_head = 0, q_tail = ?n, q_allocation_size = ?n * 2\<rparr>"
    using n unfolding Queue_Push_def Let_def t by (simp add: foldl_copy)
  have ok': "queue_ok ?q" using q n by (simp add: queue_ok_def)
  have sz: "Queue_Size ?q = Queue_Size q + 1" using q full by (simp add: Queue_Size_def)
  have "queue_list ?q = queue_list q @ [x]"
  proof (rule queue_list_eqI [OF ok'])
    fix i assume i: "i < length (queue_list q @ [x])"
    have lhs: "q_array ?q ! ((q_head ?q + i) mod q_allocation_size ?q) = ?arr ! ((q_head q + i) mod ?n)"
      using q i full by (simp add: nth_append)
    show "q_array ?q ! ((q_head ?q + i) mod q_allocation_size ?q) = (queue_list q @ [x]) ! i"
    proof (cases "i < Queue_Size q")
      case True
      then have "(q_head q + i) mod ?n \<noteq> q_tail q"
        using Queue_Size_tail [OF ok n] full by (auto dest: ring_inj)
      then show ?thesis unfolding lhs using True by (simp add: nth_append nth_queue_list)
    next
      case False
      then have "i = Queue_Size q" using i by simp
      then show ?thesis unfolding lhs using h Queue_Size_tail [OF ok n] by (simp add: nth_append)
    qed
  qed (simp add: sz)
  then show ?thesis using ok' by simp
qed

lemma Queue_Push_refine [invar_intros, refine_simps]:
  assumes "queue_ok q"
  shows "queue_ok (Queue_Push fresh x q)"
    and "queue_list (Queue_Push fresh x q) = queue_list q @ [x]"
proof -
  consider "q_allocation_size q = 0" | "Queue_Size q + 1 < q_allocation_size q"
    | "Queue_Size q + 1 = q_allocation_size q"
    using Queue_Size_less [OF assms] by linarith
  then have "queue_ok (Queue_Push fresh x q) \<and> queue_list (Queue_Push fresh x q) = queue_list q @ [x]"
  proof cases
    case 1 then show ?thesis by (rule Queue_Push_alloc0 [OF assms])
  next
    case 2 then show ?thesis by (rule Queue_Push_room [OF assms])
  next
    case 3 then show ?thesis by (rule Queue_Push_grow [OF assms])
  qed
  then show "queue_ok (Queue_Push fresh x q)"
    and "queue_list (Queue_Push fresh x q) = queue_list q @ [x]" by simp_all
qed

lemma queue_nonempty:
  assumes "queue_ok q" "queue_list q \<noteq> []"
  shows "q_allocation_size q \<noteq> 0" "q_head q < q_allocation_size q" "q_tail q < q_allocation_size q"
    "Queue_Size q \<noteq> 0" "length (q_array q) = q_allocation_size q"
proof -
  have sz: "Queue_Size q \<noteq> 0" using assms(2) by (metis length_queue_list length_0_conv)
  then show "Queue_Size q \<noteq> 0" .
  show "q_allocation_size q \<noteq> 0" using sz Queue_Size_alloc0 [OF assms(1)] by auto
  then show "q_head q < q_allocation_size q" "q_tail q < q_allocation_size q"
    "length (q_array q) = q_allocation_size q"
    using assms(1) by (auto simp: queue_ok_def)
qed

lemma Queue_head_step:
  assumes "queue_ok q" "queue_list q \<noteq> []"
  shows "queue_ok (q\<lparr>q_head := (q_head q + 1) mod q_allocation_size q\<rparr>)"
    and "queue_list (q\<lparr>q_head := (q_head q + 1) mod q_allocation_size q\<rparr>) = tl (queue_list q)"
proof -
  let ?q = "q\<lparr>q_head := (q_head q + 1) mod q_allocation_size q\<rparr>"
  note ne = queue_nonempty [OF assms]
  show ok: "queue_ok ?q" using assms(1) ne by (simp add: queue_ok_def)
  obtain k where k: "Queue_Size q = Suc k" using ne(4) not0_implies_Suc by blast
  have sz: "Queue_Size ?q = Queue_Size q - 1"
  proof (rule Queue_SizeI)
    show "q_tail ?q = (q_head ?q + (Queue_Size q - 1)) mod q_allocation_size ?q"
      using Queue_Size_tail [OF assms(1) ne(1)] by (simp add: k mod_add_left_eq)
  qed (use ne Queue_Size_less [OF assms(1)] in simp_all)
  show "queue_list ?q = tl (queue_list q)"
    by (rule queue_list_eqI [OF ok]) (simp_all add: sz [simplified] nth_tl nth_queue_list mod_add_left_eq)
qed

lemma Queue_Pop_eq:
  assumes "queue_ok q" "queue_list q \<noteq> []"
  shows "Queue_Pop q = (q_array q ! q_head q, q\<lparr>q_head := (q_head q + 1) mod q_allocation_size q\<rparr>)"
proof -
  have "Suc (q_head q) = q_allocation_size q \<Longrightarrow> q_allocation_size q - Suc 0 = q_head q" by arith
  then show ?thesis
    using queue_nonempty [OF assms] by (auto simp: Queue_Pop_def Let_def mod_Suc)
qed

lemma Queue_front: "queue_ok q \<Longrightarrow> queue_list q \<noteq> [] \<Longrightarrow> q_array q ! q_head q = hd (queue_list q)"
  using queue_nonempty [of q] by (simp add: hd_conv_nth nth_queue_list)

lemma Queue_Pop_refine [invar_intros, refine_simps]:
  assumes "queue_ok q" "queue_list q \<noteq> []"
  shows "queue_ok (snd (Queue_Pop q))"
    and "queue_list (snd (Queue_Pop q)) = tl (queue_list q)"
    and "fst (Queue_Pop q) = hd (queue_list q)"
  using assms by (simp_all add: Queue_Pop_eq Queue_head_step Queue_front del: One_nat_def)

lemma Queue_Peek_refine [refine_simps]:
  "queue_ok q \<Longrightarrow> queue_list q \<noteq> [] \<Longrightarrow> Queue_Peek q = hd (queue_list q)"
  by (simp add: Queue_Peek_def Queue_front)

lemma Queue_tail_back:
  assumes "queue_ok q" "queue_list q \<noteq> []"
  shows "(if q_tail q \<noteq> 0 then q_tail q - 1 else q_allocation_size q - 1) =
    (q_head q + (Queue_Size q - 1)) mod q_allocation_size q"
proof -
  note ne = queue_nonempty [OF assms]
  have "q_tail q = Suc (q_head q + (Queue_Size q - 1)) mod q_allocation_size q"
    using Queue_Size_tail [OF assms(1) ne(1)] ne(4) by simp
  then show ?thesis using ne(1) by (auto simp: mod_Suc split: if_splits)
qed

lemma Queue_tail_step:
  assumes "queue_ok q" "queue_list q \<noteq> []"
  defines "t \<equiv> (if q_tail q \<noteq> 0 then q_tail q - 1 else q_allocation_size q - 1)"
  shows "queue_ok (q\<lparr>q_tail := t\<rparr>)" "queue_list (q\<lparr>q_tail := t\<rparr>) = butlast (queue_list q)"
    and "q_array q ! t = last (queue_list q)"
proof -
  note ne = queue_nonempty [OF assms(1,2)]
  have t: "t = (q_head q + (Queue_Size q - 1)) mod q_allocation_size q"
    unfolding t_def by (rule Queue_tail_back [OF assms(1,2)])
  show ok: "queue_ok (q\<lparr>q_tail := t\<rparr>)" using assms(1) ne t by (simp add: queue_ok_def)
  have sz: "Queue_Size (q\<lparr>q_tail := t\<rparr>) = Queue_Size q - 1"
    by (rule Queue_SizeI) (use ne t Queue_Size_less [OF assms(1)] in simp_all)
  show "queue_list (q\<lparr>q_tail := t\<rparr>) = butlast (queue_list q)"
    by (rule queue_list_eqI [OF ok]) (simp_all add: sz nth_butlast nth_queue_list)
  show "q_array q ! t = last (queue_list q)"
    using assms(2) ne t by (simp add: last_conv_nth nth_queue_list)
qed

lemma Queue_PopTail_refine [invar_intros, refine_simps]:
  assumes "queue_ok q" "queue_list q \<noteq> []"
  shows "queue_ok (snd (Queue_PopTail q))"
    and "queue_list (snd (Queue_PopTail q)) = butlast (queue_list q)"
    and "fst (Queue_PopTail q) = last (queue_list q)"
  using Queue_tail_step [OF assms] by (auto simp: Queue_PopTail_def split: if_splits)

lemma Queue_PeekTail_refine [refine_simps]:
  "queue_ok q \<Longrightarrow> queue_list q \<noteq> [] \<Longrightarrow> Queue_PeekTail q = last (queue_list q)"
  using Queue_tail_step(3) [of q] by (auto simp: Queue_PeekTail_def split: if_splits)

lemma Queue_nth_refine [refine_simps]:
  "queue_ok q \<Longrightarrow> i < Queue_Size q \<Longrightarrow> Queue_nth q i = queue_list q ! i"
  using Queue_Size_less [of q] Queue_Size_alloc0 [of q]
  by (cases "q_allocation_size q = 0") (simp_all add: Queue_nth_def Queue_index_mod nth_queue_list)

text \<open>Updates seen through the ring: position \<open>j\<close> changes, every other position stays.\<close>

lemma ring_update:
  assumes "i < q_allocation_size q" "j < q_allocation_size q" "length arr = q_allocation_size q"
  shows "arr[(q_head q + j) mod q_allocation_size q := v] ! ((q_head q + i) mod q_allocation_size q) =
    (if i = j then v else arr ! ((q_head q + i) mod q_allocation_size q))"
  using assms by (auto simp: nth_list_update dest: ring_inj)

lemma Queue_set_refine [invar_intros, refine_simps]:
  assumes "queue_ok q" "i < Queue_Size q"
  shows "queue_ok (Queue_set q i x)" "queue_list (Queue_set q i x) = (queue_list q)[i := x]"
proof -
  have n: "queue_list q \<noteq> []" using assms(2) by (metis length_queue_list length_0_conv not_less_zero)
  note ne = queue_nonempty [OF assms(1) n] and lt = Queue_Size_less [OF assms(1) queue_nonempty(1) [OF assms(1) n]]
  show ok: "queue_ok (Queue_set q i x)" using assms(1) by (simp add: Queue_set_def queue_ok_def)
  show "queue_list (Queue_set q i x) = (queue_list q)[i := x]"
    by (rule queue_list_eqI [OF ok])
      (use ne lt assms in \<open>auto simp: Queue_set_def Queue_index_mod ring_update nth_queue_list
         nth_list_update [of _ "queue_list q"]\<close>)
qed

text \<open>\<^verbatim>\<open>PopDeref\<close> overwrites the front before it is removed.\<close>

lemma Queue_PopDeref_refine [invar_intros, refine_simps]:
  assumes "queue_ok q" "queue_list q \<noteq> []"
  shows "queue_ok (snd (Queue_PopDeref zero q))"
    and "queue_list (snd (Queue_PopDeref zero q)) = tl (queue_list q)"
    and "fst (Queue_PopDeref zero q) = hd (queue_list q)"
proof -
  let ?q = "Queue_set q 0 zero"
  note ne = queue_nonempty [OF assms]
  have s: "queue_ok ?q" "queue_list ?q = (queue_list q)[0 := zero]" using Queue_set_refine [OF assms(1), of 0 zero] ne(4) by simp_all
  then have n: "queue_list ?q \<noteq> []" using assms(2) by (metis length_0_conv length_list_update)
  have "Suc (q_head q) = q_allocation_size q \<Longrightarrow> q_allocation_size q - Suc 0 = q_head q" by arith
  then have "Queue_PopDeref zero q = (q_array q ! q_head q, snd (Queue_Pop ?q))"
    unfolding Queue_Pop_eq [OF s(1) n] using ne by (auto simp: Queue_PopDeref_def Queue_set_def Queue_index_def Let_def mod_Suc)
  then show "queue_ok (snd (Queue_PopDeref zero q))" "queue_list (snd (Queue_PopDeref zero q)) = tl (queue_list q)"
    "fst (Queue_PopDeref zero q) = hd (queue_list q)"
    using Queue_Pop_refine(1,2) [OF s(1) n] s(2) Queue_front [OF assms] by (simp_all add: tl_def split: list.split)
qed

lemma PushAtHead_shift_length [simp]: "length (PushAtHead_shift q index r arr) = length arr"
  by (induction q index r arr rule: PushAtHead_shift.induct) simp_all

lemma PushAtHead_shift_ring:
  assumes "queue_ok q" "length arr = q_allocation_size q" "Suc r < q_allocation_size q"
    and "i < q_allocation_size q"
  shows "PushAtHead_shift q index r arr ! ((q_head q + i) mod q_allocation_size q) =
    (if index < i \<and> i \<le> Suc r then arr ! ((q_head q + (i - 1)) mod q_allocation_size q)
     else arr ! ((q_head q + i) mod q_allocation_size q))"
  using assms(2,3)
proof (induction r arbitrary: arr)
  case 0
  then show ?case
    using assms(1,4) ring_update [of i q "Suc 0" arr] by (auto simp: Queue_index_mod)
next
  case (Suc r)
  let ?n = "q_allocation_size q" and ?h = "q_head q"
  let ?arr = "arr[(?h + Suc (Suc r)) mod ?n := arr ! ((?h + Suc r) mod ?n)]"
  have upd: "?arr ! ((?h + j) mod ?n) =
      (if j = Suc (Suc r) then arr ! ((?h + Suc r) mod ?n) else arr ! ((?h + j) mod ?n))"
    if "j < ?n" for j
    using ring_update [of j q "Suc (Suc r)" arr] Suc.prems that by auto
  show ?case
  proof (cases "index \<le> Suc r")
    case True
    have "PushAtHead_shift q index (Suc r) arr = PushAtHead_shift q index r ?arr"
      using True Suc.prems assms(1) by (simp add: Queue_index_mod)
    then show ?thesis
      using Suc.IH [of ?arr] Suc.prems assms(4) upd [of i] upd [of "i - 1"] True by auto
  qed (use Suc.prems in auto)
qed

lemma Queue_PushAtHead_refine [invar_intros, refine_simps]:
  assumes ok: "queue_ok q" and index: "index \<le> Queue_Size q"
  shows "queue_ok (Queue_PushAtHead fresh x index q)"
    and "queue_list (Queue_PushAtHead fresh x index q) =
      take index (queue_list q) @ x # drop index (queue_list q)"
proof -
  let ?q = "Queue_Push fresh x q" and ?r = "Queue_PushAtHead fresh x index q"
  have ok1: "queue_ok ?q" and list1: "queue_list ?q = queue_list q @ [x]"
    using Queue_Push_refine [OF ok] by auto
  have sz1: "Queue_Size ?q = Suc (Queue_Size q)"
    by (metis length_append_singleton length_queue_list list1)
  note ne = queue_nonempty [OF ok1, unfolded list1, simplified]
  have lt: "Suc (Queue_Size q) < q_allocation_size ?q" using Queue_Size_less [OF ok1] ne sz1 by simp
  show ok2: "queue_ok ?r" using ok1 ne by (auto simp: Queue_PushAtHead_def Let_def queue_ok_def)
  show "queue_list ?r = take index (queue_list q) @ x # drop index (queue_list q)"
  proof (cases "Queue_Size q = 0")
    case True
    then have "queue_list q = []" by (metis length_queue_list length_0_conv)
    then show ?thesis using True sz1 list1 index by (simp add: Queue_PushAtHead_def)
  next
    case False
    then obtain r where r: "Queue_Size q = Suc r" using not0_implies_Suc by blast
    let ?shift = "PushAtHead_shift ?q index r (q_array ?q)"
    have rq: "?r = ?q\<lparr>q_array := ?shift[(q_head ?q + index) mod q_allocation_size ?q := x]\<rparr>"
      using sz1 r index lt ok1 by (simp add: Queue_PushAtHead_def Let_def Queue_index_mod)
    have old: "q_array ?q ! ((q_head ?q + i) mod q_allocation_size ?q) = (queue_list q @ [x]) ! i"
      if "i \<le> Queue_Size q" for i
      using nth_queue_list [of i ?q] sz1 that unfolding list1 by simp
    show ?thesis
    proof (rule queue_list_eqI)
      show ok2: "queue_ok ?r" using ok1 ne by (auto simp: Queue_PushAtHead_def Let_def queue_ok_def)
      have "Queue_Size ?r = Queue_Size ?q" unfolding rq by (simp add: Queue_Size_def)
      then show "Queue_Size ?r = length (take index (queue_list q) @ x # drop index (queue_list q))"
        using sz1 index by simp
      fix i assume "i < length (take index (queue_list q) @ x # drop index (queue_list q))"
      then have i: "i \<le> Queue_Size q" using index by simp
      show "q_array ?r ! ((q_head ?r + i) mod q_allocation_size ?r) =
          (take index (queue_list q) @ x # drop index (queue_list q)) ! i"
        unfolding rq using i lt index r ne old [of i] old [of "i - 1"]
        by (auto simp: ring_update PushAtHead_shift_ring [OF ok1] nth_append min_def nth_Cons' not_less)
    qed
  qed
qed

lemma RemoveAtIndex_loop_length [simp]:
  "length (RemoveAtIndex_loop q index nxt arr fuel) = length arr"
  by (induction q index nxt arr fuel rule: RemoveAtIndex_loop.induct) simp_all

lemma RemoveAtIndex_loop_ring:
  assumes ok: "queue_ok q" and n: "q_allocation_size q \<noteq> 0"
    and "length arr = q_allocation_size q" "p < Queue_Size q" "Queue_Size q - Suc p \<le> fuel"
    and i: "i < Queue_Size q - 1"
  shows "RemoveAtIndex_loop q ((q_head q + p) mod q_allocation_size q)
      ((q_head q + Suc p) mod q_allocation_size q) arr fuel ! ((q_head q + i) mod q_allocation_size q) =
    (if i < p then arr ! ((q_head q + i) mod q_allocation_size q)
     else arr ! ((q_head q + Suc i) mod q_allocation_size q))"
  using assms(3-5)
proof (induction fuel arbitrary: p arr)
  case 0
  then show ?case using i by simp
next
  case (Suc fuel)
  let ?n = "q_allocation_size q" and ?h = "q_head q"
  have lt: "Queue_Size q < ?n" by (rule Queue_Size_less [OF ok n])
  have tail: "q_tail q = (?h + Queue_Size q) mod ?n" by (rule Queue_Size_tail [OF ok n])
  show ?case
  proof (cases "Suc p = Queue_Size q")
    case True
    then show ?thesis using i tail by simp
  next
    case False
    then have p: "Suc p < Queue_Size q" using Suc.prems by simp
    have ne: "(?h + Suc p) mod ?n \<noteq> q_tail q"
      unfolding tail using p lt by (auto simp del: add_Suc_right dest!: ring_inj)
    let ?arr = "arr[(?h + p) mod ?n := arr ! ((?h + Suc p) mod ?n)]"
    have nx: "(if (?h + Suc p) mod ?n + 1 = ?n then 0 else (?h + Suc p) mod ?n + 1) =
        (?h + Suc (Suc p)) mod ?n"
      using n by (simp add: mod_Suc)
    have "RemoveAtIndex_loop q ((?h + p) mod ?n) ((?h + Suc p) mod ?n) arr (Suc fuel) =
        RemoveAtIndex_loop q ((?h + Suc p) mod ?n) ((?h + Suc (Suc p)) mod ?n) ?arr fuel"
      unfolding RemoveAtIndex_loop.simps nx using ne by simp
    moreover have upd: "?arr ! ((?h + j) mod ?n) =
        (if j = p then arr ! ((?h + Suc p) mod ?n) else arr ! ((?h + j) mod ?n))" if "j < Queue_Size q" for j
      using ring_update [of j q p arr] Suc.prems(1,2) that lt by auto
    ultimately show ?thesis
      using Suc.IH [of ?arr "Suc p"] Suc.prems p i upd [of i] upd [of "Suc i"]
      by (auto simp: less_Suc_eq)
  qed
qed

lemma Queue_RemoveAtIndex_refine [invar_intros, refine_simps]:
  assumes ok: "queue_ok q" and pos: "position < Queue_Size q"
  shows "queue_ok (Queue_RemoveAtIndex position q)"
    and "queue_list (Queue_RemoveAtIndex position q) =
      take position (queue_list q) @ drop (Suc position) (queue_list q)"
proof -
  let ?r = "Queue_RemoveAtIndex position q" and ?n = "q_allocation_size q"
  have nel: "queue_list q \<noteq> []" using pos by (metis length_queue_list length_0_conv not_less_zero)
  note ne = queue_nonempty [OF ok nel]
  have lt: "Queue_Size q < ?n" by (rule Queue_Size_less [OF ok ne(1)])
  let ?arr = "RemoveAtIndex_loop q ((q_head q + position) mod ?n)
      ((q_head q + Suc position) mod ?n) (q_array q) ?n"
  let ?t = "(if q_tail q \<noteq> 0 then q_tail q - 1 else ?n - 1)"
  have guard: "\<not> (q_head q = q_tail q \<or> position \<ge> Queue_Size q)"
    using ne(4) pos by (auto simp: Queue_Size_def)
  have nx: "(if (q_head q + position) mod ?n + 1 = ?n then 0 else (q_head q + position) mod ?n + 1) =
      (q_head q + Suc position) mod ?n"
    using ne(1) by (simp add: mod_Suc)
  have idx: "Queue_index q position = (q_head q + position) mod ?n"
    using pos lt ok by (simp add: Queue_index_mod)
  have r: "?r = q\<lparr>q_array := ?arr, q_tail := ?t\<rparr>"
    unfolding Queue_RemoveAtIndex_def Let_def if_not_P [OF guard] idx nx by simp
  have arr: "queue_ok (q\<lparr>q_array := ?arr\<rparr>)" "queue_list (q\<lparr>q_array := ?arr\<rparr>) \<noteq> []"
    using ok ne by (simp add: queue_ok_def) (metis Queue_Size_array length_0_conv length_queue_list ne(4))
  show "queue_ok ?r" using Queue_tail_step(1) [OF arr] r by (cases "q_tail q = 0") simp_all
  have "queue_list ?r = butlast (queue_list (q\<lparr>q_array := ?arr\<rparr>))"
    using Queue_tail_step(2) [OF arr] r by (cases "q_tail q = 0") simp_all
  also have "\<dots> = take position (queue_list q) @ drop (Suc position) (queue_list q)"
  proof (rule list_eq_by_nth)
    fix i assume "i < length (take position (queue_list q) @ drop (Suc position) (queue_list q))"
    then have i: "i < Queue_Size q - 1" using pos by simp
    then show "butlast (queue_list (q\<lparr>q_array := ?arr\<rparr>)) ! i =
        (take position (queue_list q) @ drop (Suc position) (queue_list q)) ! i"
      using RemoveAtIndex_loop_ring [OF ok ne(1) ne(5) pos _ i, of ?n] lt pos
      by (simp add: nth_butlast nth_queue_list nth_append min_def)
  qed (use pos in simp)
  finally show "queue_list ?r = take position (queue_list q) @ drop (Suc position) (queue_list q)" .
qed

lemma Queue_RemoveAtIndex_out_of_range:
  "position \<ge> Queue_Size q \<Longrightarrow> Queue_RemoveAtIndex position q = q"
  by (simp add: Queue_RemoveAtIndex_def)

lemma Queue_Clear_refine [invar_intros, refine_simps]:
  assumes "queue_ok q"
  shows "queue_ok (Queue_Clear q)" "queue_list (Queue_Clear q) = []"
  using assms by (auto simp: Queue_Clear_def queue_ok_def queue_list_def Queue_Size_def)

lemma Compress_size_gt: "n \<noteq> 0 \<Longrightarrow> Compress_size sz n > sz"
  by (induction sz n rule: Compress_size.induct) (simp add: not_le)

lemma Queue_copied:
  assumes ok: "queue_ok q" and n: "Queue_Size q < n"
    and r: "r = \<lparr>q_array = foldl (\<lambda>a counter.
        a[counter := q_array q ! ((q_head q + counter) mod q_allocation_size q)])
      (new_array fresh n) [0..<Queue_Size q], q_head = 0, q_tail = Queue_Size q, q_allocation_size = n\<rparr>"
  shows "queue_ok r" "queue_list r = queue_list q"
proof -
  show ok': "queue_ok r" using n by (simp add: r queue_ok_def foldl_copy)
  show "queue_list r = queue_list q"
    by (rule queue_list_eqI [OF ok'])
      (use n in \<open>simp_all add: r Queue_Size_def [of "Queue.make _ _ _ _"] Queue.defs foldl_copy
         nth_append nth_queue_list, simp_all add: Queue_Size_def\<close>)
qed

lemma Queue_Compress_refine [invar_intros, refine_simps]:
  assumes "queue_ok q"
  shows "queue_ok (Queue_Compress fresh q)" "queue_list (Queue_Compress fresh q) = queue_list q"
  using assms Queue_copied [OF assms Compress_size_gt [of 1 "Queue_Size q"] refl, of fresh]
  by (simp_all add: Queue_Compress_def Let_def)

text \<open>Assignment copies the sequence whatever the destination held; a copy construction
  from an empty queue leaves both indices of the new object as they were in memory.\<close>

lemma Queue_assign_refine [invar_intros, refine_simps]:
  assumes "queue_ok q" "queue_ok this"
  shows "queue_ok (Queue_assign fresh q this\<lparr>q_array := (if Queue_Size q = 0 then [] else
      q_array (Queue_assign fresh q this))\<rparr>)"
    and "queue_list (Queue_assign fresh q this) = queue_list q"
proof -
  have hd0: "q_head (Queue_Clear this) = 0" "q_tail (Queue_Clear this) = 0"
    using assms(2) by (auto simp: Queue_Clear_def queue_ok_def)
  have empty: "queue_list q = []" if "Queue_Size q = 0"
    using that by (metis length_queue_list length_0_conv)
  show "queue_list (Queue_assign fresh q this) = queue_list q"
    using Queue_copied [OF assms(1) lessI refl, of fresh] hd0 empty
    by (auto simp: Queue_assign_def Queue_copy_def Let_def queue_list_def [of "this\<lparr>q_allocation_size := 0\<rparr>"]
        queue_list_def [of "Queue_Clear this\<lparr>q_allocation_size := 0\<rparr>"] Queue_Size_def [of "Queue_Clear this\<lparr>q_allocation_size := 0\<rparr>"])
  show "queue_ok (Queue_assign fresh q this\<lparr>q_array := (if Queue_Size q = 0 then [] else
      q_array (Queue_assign fresh q this))\<rparr>)"
    using Queue_copied(1) [OF assms(1) lessI refl, of fresh] hd0
    by (auto simp: Queue_assign_def Queue_copy_def Let_def queue_ok_def)
qed

lemma Queue_copy_refine:
  assumes "queue_ok q" "queue_list q \<noteq> []"
  shows "queue_ok (Queue_copy fresh this q)" "queue_list (Queue_copy fresh this q) = queue_list q"
  using Queue_copied [OF assms(1) lessI refl, of fresh] queue_nonempty(4) [OF assms] by (simp_all add: Queue_copy_def Let_def)

lemma Queue_assign_ok:
  "queue_ok q \<Longrightarrow> queue_list q \<noteq> [] \<Longrightarrow> queue_ok (Queue_assign fresh q this)"
  by (simp add: Queue_assign_def Queue_copy_refine)

lemma Queue_copy_empty_stale:
  assumes "Queue_Size q = 0"
  shows "Queue_IsEmpty (Queue_copy fresh this q) \<longleftrightarrow> q_head this = q_tail this"
  using assms by (simp add: Queue_copy_def Queue_IsEmpty_def)

lemma Find_from_ring:
  assumes ok: "queue_ok q" and n: "q_allocation_size q \<noteq> 0"
    and "p \<le> Queue_Size q" "Queue_Size q - p < fuel"
  shows "Find_from q x ((q_head q + p) mod q_allocation_size q) fuel \<longleftrightarrow> x \<in> set (drop p (queue_list q))"
  using assms(3,4)
proof (induction fuel arbitrary: p)
  case (Suc fuel)
  note lt = Queue_Size_less [OF ok n] and tail = Queue_Size_tail [OF ok n]
  show ?case
  proof (cases "p = Queue_Size q")
    case False
    then have p: "p < Queue_Size q" using Suc.prems by simp
    have ne: "(q_head q + p) mod q_allocation_size q \<noteq> q_tail q"
      unfolding tail using p lt by (auto dest!: ring_inj)
    have "drop p (queue_list q) =
        q_array q ! ((q_head q + p) mod q_allocation_size q) # drop (Suc p) (queue_list q)"
      using p by (metis Cons_nth_drop_Suc length_queue_list nth_queue_list)
    moreover have "((q_head q + p) mod q_allocation_size q + 1) mod q_allocation_size q =
        (q_head q + Suc p) mod q_allocation_size q"
      by (simp add: mod_Suc_eq)
    ultimately show ?thesis using Suc.IH [of "Suc p"] Suc.prems p ne by auto
  qed (use tail in simp)
qed simp

lemma Queue_Find_refine [refine_simps]:
  assumes "queue_ok q"
  shows "Queue_Find q x \<longleftrightarrow> x \<in> set (queue_list q)"
proof (cases "q_allocation_size q = 0")
  case True
  then show ?thesis using Queue_Size_alloc0 [OF assms] by (simp add: Queue_Find_def queue_list_def)
next
  case False
  then show ?thesis
    using Find_from_ring [OF assms False, of 0 "Suc (q_allocation_size q)" x]
      Queue_Size_less [OF assms False] assms
    by (simp add: Queue_Find_def queue_ok_def del: Find_from.simps)
qed

lemma Queue_ClearAndForceAllocation_refine [invar_intros, refine_simps]:
  "queue_ok (Queue_ClearAndForceAllocation fresh n q)"
  "queue_list (Queue_ClearAndForceAllocation fresh n q) = []"
  by (simp_all add: Queue_ClearAndForceAllocation_def queue_ok_def queue_list_def Queue_Size_def)

section \<open>The queue interface\<close>

text \<open>What clients of the queue rely on: an abstraction to lists under which push appends,
  pop returns and removes the front, and indexed access reads and writes in place.\<close>

locale indexed_queue =
  fixes new :: 'q and push :: "'a \<Rightarrow> 'q \<Rightarrow> 'q" and pop :: "'q \<Rightarrow> 'a \<times> 'q"
    and is_empty :: "'q \<Rightarrow> bool" and size_of :: "'q \<Rightarrow> nat"
    and nth_of :: "'q \<Rightarrow> nat \<Rightarrow> 'a" and set_at :: "'q \<Rightarrow> nat \<Rightarrow> 'a \<Rightarrow> 'q"
    and invar :: "'q \<Rightarrow> bool" and contents :: "'q \<Rightarrow> 'a list"
  assumes new_law: "invar new" "contents new = []"
    and push_law: "invar q \<Longrightarrow> invar (push x q)" "invar q \<Longrightarrow> contents (push x q) = contents q @ [x]"
    and pop_law: "invar q \<Longrightarrow> contents q \<noteq> [] \<Longrightarrow> invar (snd (pop q))"
      "invar q \<Longrightarrow> contents q \<noteq> [] \<Longrightarrow> contents (snd (pop q)) = tl (contents q)"
      "invar q \<Longrightarrow> contents q \<noteq> [] \<Longrightarrow> fst (pop q) = hd (contents q)"
    and empty_law: "invar q \<Longrightarrow> is_empty q \<longleftrightarrow> contents q = []"
    and size_law: "invar q \<Longrightarrow> size_of q = length (contents q)"
    and nth_law: "invar q \<Longrightarrow> i < length (contents q) \<Longrightarrow> nth_of q i = contents q ! i"
    and set_law: "invar q \<Longrightarrow> i < length (contents q) \<Longrightarrow> invar (set_at q i x)"
      "invar q \<Longrightarrow> i < length (contents q) \<Longrightarrow> contents (set_at q i x) = (contents q)[i := x]"
begin

lemma push_all: "invar q \<Longrightarrow> invar (fold push xs q) \<and> contents (fold push xs q) = contents q @ xs"
  by (induction xs arbitrary: q) (simp_all add: push_law)

lemma pop_many:
  "invar q \<Longrightarrow> n \<le> length (contents q) \<Longrightarrow>
    invar (((\<lambda>q. snd (pop q)) ^^ n) q) \<and> contents (((\<lambda>q. snd (pop q)) ^^ n) q) = drop n (contents q)"
proof (induction n)
  case (Suc n)
  let ?q = "((\<lambda>q. snd (pop q)) ^^ n) q"
  have "invar ?q" "contents ?q = drop n (contents q)" using Suc by simp_all
  moreover have "drop n (contents q) \<noteq> []" using Suc.prems by simp
  ultimately show ?case by (simp add: pop_law tl_drop drop_Suc)
qed simp

lemma fifo_order:
  assumes "n < length xs"
  shows "fst (pop (((\<lambda>q. snd (pop q)) ^^ n) (fold push xs new))) = xs ! n"
proof -
  have "invar (fold push xs new)" "contents (fold push xs new) = xs"
    using push_all [of new xs] new_law by simp_all
  then have "invar (((\<lambda>q. snd (pop q)) ^^ n) (fold push xs new))"
      "contents (((\<lambda>q. snd (pop q)) ^^ n) (fold push xs new)) = drop n xs"
    using pop_many [of "fold push xs new" n] assms by simp_all
  then show ?thesis using assms by (simp add: pop_law hd_drop_conv_nth)
qed

end

interpretation rq: indexed_queue Queue_new "Queue_Push fresh" Queue_Pop Queue_IsEmpty Queue_Size
  Queue_nth Queue_set queue_ok queue_list for fresh :: "nat \<Rightarrow> 'a"
  by unfold_locales (simp_all add: invar_intros refine_simps)

text \<open>The ring buffer is first in, first out: after pushing a sequence into a new
  queue, the \<open>n\<close>-th pop returns its \<open>n\<close>-th element, across any number of wrap-arounds and
  reallocations and whatever fresh memory contains.\<close>

theorem Queue_fifo:
  assumes "n < length xs"
  shows "fst (Queue_Pop (((\<lambda>q. snd (Queue_Pop q)) ^^ n) (fold (Queue_Push fresh) xs Queue_new))) = xs ! n"
  using assms by (rule rq.fifo_order)

theorem Queue_fifo_witness:
  "fst (Queue_Pop (((\<lambda>q. snd (Queue_Pop q)) ^^ 17)
     (fold (Queue_Push (\<lambda>_. 99)) [0..<20] Queue_new))) = (17 :: nat)"
  using Queue_fifo [of 17 "[0..<20]" "\<lambda>_. 99"] by simp

text \<open>Property C28: the operations of the queue keep the representation invariant and commute
  with the abstraction to lists: construction, size, insertion at the end and in the middle, reading and writing by index, removal by index
  (out of range nothing happens), reading and removal at either end, clearing, compaction, search, assignment, and copy construction
  from a queue that is not empty.  After an assignment from an empty queue the sequence is empty, but the array is no longer accounted
  for; a copy constructed from an empty queue is outside, its indices are not initialised.\<close>

theorem Queue_refines_list:
  assumes "queue_ok q" "queue_ok this"
  shows "queue_ok (Queue_new :: 'a Queue) \<and> queue_list (Queue_new :: 'a Queue) = [] \<and>
    Queue_Size q = length (queue_list q) \<and> (Queue_IsEmpty q \<longleftrightarrow> queue_list q = []) \<and>
    queue_list (Queue_Push fresh x q) = queue_list q @ [x] \<and> queue_ok (Queue_Push fresh x q) \<and>
    (i \<le> Queue_Size q \<longrightarrow> queue_ok (Queue_PushAtHead fresh x i q) \<and>
       queue_list (Queue_PushAtHead fresh x i q) = take i (queue_list q) @ x # drop i (queue_list q)) \<and>
    (i < Queue_Size q \<longrightarrow> Queue_nth q i = queue_list q ! i \<and>
       queue_ok (Queue_set q i x) \<and> queue_list (Queue_set q i x) = (queue_list q)[i := x] \<and>
       queue_ok (Queue_RemoveAtIndex i q) \<and>
       queue_list (Queue_RemoveAtIndex i q) = take i (queue_list q) @ drop (Suc i) (queue_list q)) \<and>
    (i \<ge> Queue_Size q \<longrightarrow> Queue_RemoveAtIndex i q = q) \<and>
    (queue_list q \<noteq> [] \<longrightarrow>
       Queue_Peek q = hd (queue_list q) \<and> Queue_PeekTail q = last (queue_list q) \<and>
       fst (Queue_Pop q) = hd (queue_list q) \<and> queue_ok (snd (Queue_Pop q)) \<and> queue_list (snd (Queue_Pop q)) = tl (queue_list q) \<and>
       fst (Queue_PopDeref x q) = hd (queue_list q) \<and> queue_ok (snd (Queue_PopDeref x q)) \<and>
       queue_list (snd (Queue_PopDeref x q)) = tl (queue_list q) \<and>
       fst (Queue_PopTail q) = last (queue_list q) \<and> queue_ok (snd (Queue_PopTail q)) \<and>
       queue_list (snd (Queue_PopTail q)) = butlast (queue_list q) \<and>
       queue_ok (Queue_assign fresh q this) \<and>
       queue_ok (Queue_copy fresh memory q) \<and> queue_list (Queue_copy fresh memory q) = queue_list q) \<and>
    queue_list (Queue_assign fresh q this) = queue_list q \<and>
    queue_ok (Queue_Clear q) \<and> queue_list (Queue_Clear q) = [] \<and>
    queue_ok (Queue_ClearAndForceAllocation fresh n q) \<and> queue_list (Queue_ClearAndForceAllocation fresh n q) = [] \<and>
    queue_ok (Queue_Compress fresh q) \<and> queue_list (Queue_Compress fresh q) = queue_list q \<and>
    (Queue_Find q y \<longleftrightarrow> y \<in> set (queue_list q))"
  using assms by (simp add: invar_intros refine_simps Queue_copy_refine Queue_assign_ok Queue_RemoveAtIndex_out_of_range)

theorem Queue_refines_list_witness:
  "queue_list (Queue_RemoveAtIndex 1 (Queue_Push (\<lambda>_. 0) 7 (Queue_Push (\<lambda>_. 0) 5 Queue_new))) = [5 :: nat]"
proof -
  let ?q = "Queue_Push (\<lambda>_. 0) 7 (Queue_Push (\<lambda>_. 0) 5 Queue_new) :: nat Queue"
  have l: "queue_ok ?q" "queue_list ?q = [5, 7]" by (simp_all add: invar_intros refine_simps)
  have "1 < Queue_Size ?q" using arg_cong [OF l(2), of length] by simp
  then have "queue_list (Queue_RemoveAtIndex 1 ?q) = take 1 (queue_list ?q) @ drop (Suc 1) (queue_list ?q)"
    using Queue_refines_list [where fresh = "\<lambda>_. 0" and x = 0 and i = 1 and memory = ?q and n = 0 and y = 0, OF l(1) l(1)] by blast
  then show ?thesis using l(2) by simp
qed

end
