(* ===== verification/DS_List.thy ===== *)
theory DS_List
  imports DS_Queue
begin

text \<open>
  \<^verbatim>\<open>DataStructures::List\<close> of \<^verbatim>\<open>ds_list.h\<close>: a growable array.  The operations are modelled on the
  array, the element count and the allocation size; \<open>list_contents\<close> is the stored sequence
  and \<open>list_ok\<close> the representation invariant.  Each operation is shown to be the list
  operation the components above it rely on, so those components are modelled over HOL
  lists.  As for the queue, fresh array cells hold arbitrary values \<open>fresh\<close>.
\<close>

section \<open>Data and operations\<close>

record 'a List =
  listArray :: "'a list"
  list_size :: nat
  allocation_size :: nat

definition List_new :: "'a List" where
  "List_new = \<lparr>listArray = [], list_size = 0, allocation_size = 0\<rparr>"

definition List_nth :: "'a List \<Rightarrow> nat \<Rightarrow> 'a" where
  "List_nth l position = listArray l ! position"

definition List_set :: "'a List \<Rightarrow> nat \<Rightarrow> 'a \<Rightarrow> 'a List" where
  "List_set l position x = l\<lparr>listArray := (listArray l)[position := x]\<rparr>"

definition copy_cells :: "nat \<Rightarrow> 'a list \<Rightarrow> 'a list \<Rightarrow> 'a list" where
  "copy_cells n from to = foldl (\<lambda>a counter. a[counter := from ! counter]) to [0..<n]"

definition List_grow :: "(nat \<Rightarrow> 'a) \<Rightarrow> 'a List \<Rightarrow> 'a List" where
  "List_grow fresh l =
    (if list_size l = allocation_size l then
       let n = (if allocation_size l = 0 then 16 else allocation_size l * 2)
       in l\<lparr>listArray := copy_cells (list_size l) (listArray l) (new_array fresh n), allocation_size := n\<rparr>
     else l)"

fun Insert_shift :: "nat \<Rightarrow> nat \<Rightarrow> 'a list \<Rightarrow> 'a list" where
  "Insert_shift position 0 arr = arr"
| "Insert_shift position (Suc c) arr =
    (if Suc c = position then arr else Insert_shift position c (arr[Suc c := arr ! c]))"

definition List_InsertAt :: "(nat \<Rightarrow> 'a) \<Rightarrow> 'a \<Rightarrow> nat \<Rightarrow> 'a List \<Rightarrow> 'a List" where
  "List_InsertAt fresh input position l =
    (let l1 = List_grow fresh l;
         arr = Insert_shift position (list_size l1) (listArray l1)
     in l1\<lparr>listArray := arr[position := input], list_size := list_size l1 + 1\<rparr>)"

definition List_Insert :: "(nat \<Rightarrow> 'a) \<Rightarrow> 'a \<Rightarrow> 'a List \<Rightarrow> 'a List" where
  "List_Insert fresh input l =
    (let l1 = List_grow fresh l
     in l1\<lparr>listArray := (listArray l1)[list_size l1 := input], list_size := list_size l1 + 1\<rparr>)"

definition List_Push :: "(nat \<Rightarrow> 'a) \<Rightarrow> 'a \<Rightarrow> 'a List \<Rightarrow> 'a List" where
  "List_Push fresh input l = List_Insert fresh input l"

definition List_Pop :: "'a List \<Rightarrow> 'a \<times> 'a List" where
  "List_Pop l = (listArray l ! (list_size l - 1), l\<lparr>list_size := list_size l - 1\<rparr>)"

fun Replace_fill :: "'a \<Rightarrow> nat \<Rightarrow> nat \<Rightarrow> 'a list \<Rightarrow> nat \<times> 'a list" where
  "Replace_fill filler sz 0 arr = (sz, arr)"
| "Replace_fill filler sz (Suc n) arr = Replace_fill filler (Suc sz) n (arr[sz := filler])"

definition List_Replace :: "(nat \<Rightarrow> 'a) \<Rightarrow> 'a \<Rightarrow> 'a \<Rightarrow> nat \<Rightarrow> 'a List \<Rightarrow> 'a List" where
  "List_Replace fresh input filler position l =
    (if list_size l > 0 \<and> position < list_size l then List_set l position input
     else
       let l1 = (if position \<ge> allocation_size l then
                   l\<lparr>listArray := copy_cells (list_size l) (listArray l) (new_array fresh (position + 1)),
                     allocation_size := position + 1\<rparr>
                 else l);
           (sz, arr) = Replace_fill filler (list_size l1) (position - list_size l1) (listArray l1)
       in l1\<lparr>listArray := arr[sz := input], list_size := sz + 1\<rparr>)"

definition List_ReplaceLast :: "'a \<Rightarrow> 'a List \<Rightarrow> 'a List" where
  "List_ReplaceLast input l =
    (if list_size l > 0 then List_set l (list_size l - 1) input else l)"

definition List_RemoveFromEnd :: "nat \<Rightarrow> 'a List \<Rightarrow> 'a List" where
  "List_RemoveFromEnd num l = l\<lparr>list_size := list_size l - num\<rparr>"

definition List_RemoveAtIndex :: "nat \<Rightarrow> 'a List \<Rightarrow> 'a List" where
  "List_RemoveAtIndex position l =
    (if position < list_size l then
       List_RemoveFromEnd 1
         (l\<lparr>listArray := foldl (\<lambda>a counter. a[counter := a ! (counter + 1)]) (listArray l)
              [position..<list_size l - 1]\<rparr>)
     else l)"

definition List_RemoveAtIndexFast :: "nat \<Rightarrow> 'a List \<Rightarrow> 'a List" where
  "List_RemoveAtIndexFast position l =
    (let n = list_size l - 1
     in l\<lparr>list_size := n, listArray := (listArray l)[position := listArray l ! n]\<rparr>)"

definition MAX_UNSIGNED_LONG :: nat where
  "MAX_UNSIGNED_LONG = 4294967295"

fun GetIndexOf_from :: "'a List \<Rightarrow> 'a \<Rightarrow> nat \<Rightarrow> nat \<Rightarrow> nat" where
  "GetIndexOf_from l input i 0 = MAX_UNSIGNED_LONG"
| "GetIndexOf_from l input i (Suc n) =
    (if listArray l ! i = input then i else GetIndexOf_from l input (Suc i) n)"

definition List_GetIndexOf :: "'a List \<Rightarrow> 'a \<Rightarrow> nat" where
  "List_GetIndexOf l input = GetIndexOf_from l input 0 (list_size l)"

definition List_Size :: "'a List \<Rightarrow> nat" where
  "List_Size l = list_size l"

definition List_Clear :: "bool \<Rightarrow> 'a List \<Rightarrow> 'a List" where
  "List_Clear doNotDeallocateSmallBlocks l =
    (if allocation_size l = 0 then l
     else if allocation_size l > 512 \<or> \<not> doNotDeallocateSmallBlocks then
       \<lparr>listArray = [], list_size = 0, allocation_size = 0\<rparr>
     else l\<lparr>list_size := 0\<rparr>)"

definition List_Compress :: "(nat \<Rightarrow> 'a) \<Rightarrow> 'a List \<Rightarrow> 'a List" where
  "List_Compress fresh l =
    (if allocation_size l = 0 then l
     else l\<lparr>listArray := copy_cells (list_size l) (listArray l) (new_array fresh (allocation_size l))\<rparr>)"

fun Preallocate_amount :: "nat \<Rightarrow> nat \<Rightarrow> nat \<Rightarrow> nat option" where
  "Preallocate_amount fuel amount countNeeded =
    (if amount < countNeeded then
       (case fuel of 0 \<Rightarrow> None | Suc f \<Rightarrow> Preallocate_amount f (amount * 2 mod 2 ^ 32) countNeeded)
     else Some amount)"

definition List_Preallocate :: "(nat \<Rightarrow> 'a) \<Rightarrow> nat \<Rightarrow> 'a List \<Rightarrow> 'a List option" where
  "List_Preallocate fresh countNeeded l =
    (let start = (if allocation_size l = 0 then 16 else allocation_size l)
     in case Preallocate_amount 32 start countNeeded of
          None \<Rightarrow> None
        | Some amountToAllocate \<Rightarrow>
            Some (if allocation_size l < amountToAllocate then
                    l\<lparr>listArray := copy_cells (list_size l) (listArray l) (new_array fresh amountToAllocate),
                      allocation_size := amountToAllocate\<rparr>
                  else l))"

definition List_copy :: "(nat \<Rightarrow> 'a) \<Rightarrow> 'a List \<Rightarrow> 'a List" where
  "List_copy fresh original_copy =
    (if list_size original_copy = 0 then List_new
     else \<lparr>listArray = copy_cells (list_size original_copy) (listArray original_copy)
             (new_array fresh (list_size original_copy)),
           list_size = list_size original_copy, allocation_size = list_size original_copy\<rparr>)"

definition List_assign :: "(nat \<Rightarrow> 'a) \<Rightarrow> 'a List \<Rightarrow> 'a List \<Rightarrow> 'a List" where
  "List_assign fresh original_copy this =
    (let cleared = List_Clear False this
     in if list_size original_copy = 0 then cleared\<lparr>list_size := 0, allocation_size := 0\<rparr>
        else List_copy fresh original_copy)"

section \<open>Abstraction and invariant\<close>

definition list_contents :: "'a List \<Rightarrow> 'a list" where
  "list_contents l = take (list_size l) (listArray l)"

definition list_ok :: "'a List \<Rightarrow> bool" where
  "list_ok l = (length (listArray l) = allocation_size l \<and> list_size l \<le> allocation_size l)"

lemma length_list_contents: "list_ok l \<Longrightarrow> length (list_contents l) = list_size l"
  by (simp add: list_ok_def list_contents_def)

lemma copy_cells_eq:
  "n \<le> length xs \<Longrightarrow> n \<le> length ys \<Longrightarrow> copy_cells n xs ys = take n xs @ drop n ys"
  by (simp add: copy_cells_def foldl_copy) (rule nth_equalityI, auto)

lemma List_new_refine [invar_intros, refine_simps]:
  "list_ok List_new" "list_contents List_new = []"
  by (simp_all add: list_ok_def list_contents_def List_new_def)

lemma List_nth_refine [refine_simps]:
  "list_ok l \<Longrightarrow> i < list_size l \<Longrightarrow> List_nth l i = list_contents l ! i"
  by (simp add: List_nth_def list_contents_def)

lemma List_set_refine [invar_intros, refine_simps]:
  "list_ok l \<Longrightarrow> list_ok (List_set l i x)"
  "list_ok l \<Longrightarrow> i < list_size l \<Longrightarrow> list_contents (List_set l i x) = (list_contents l)[i := x]"
  by (simp_all add: List_set_def list_ok_def list_contents_def take_update_swap)

lemma List_grow_refine:
  assumes "list_ok l"
  shows "list_ok (List_grow fresh l)" "list_contents (List_grow fresh l) = list_contents l"
    "list_size (List_grow fresh l) = list_size l"
    "list_size l < allocation_size (List_grow fresh l)"
  using assms by (auto simp: List_grow_def Let_def list_ok_def list_contents_def copy_cells_eq)

lemma List_Insert_refine [invar_intros, refine_simps]:
  assumes "list_ok l"
  shows "list_ok (List_Insert fresh x l)" "list_contents (List_Insert fresh x l) = list_contents l @ [x]"
  using List_grow_refine [OF assms, of fresh] assms
  by (simp_all add: List_Insert_def Let_def list_ok_def list_contents_def take_Suc_conv_app_nth)

lemma Insert_shift_length [simp]: "length (Insert_shift p c arr) = length arr"
  by (induction p c arr rule: Insert_shift.induct) simp_all

lemma Insert_shift_nth:
  "p \<le> c \<Longrightarrow> c < length arr \<Longrightarrow> i < length arr \<Longrightarrow>
    Insert_shift p c arr ! i = (if p < i \<and> i \<le> c then arr ! (i - 1) else arr ! i)"
proof (induction p c arr rule: Insert_shift.induct)
  case (2 p c arr)
  then show ?case by (cases "Suc c = p") (auto simp: nth_list_update)
qed auto

lemma List_InsertAt_refine [invar_intros, refine_simps]:
  assumes "list_ok l" "p \<le> list_size l"
  shows "list_ok (List_InsertAt fresh x p l)"
    "list_contents (List_InsertAt fresh x p l) = take p (list_contents l) @ x # drop p (list_contents l)"
proof -
  let ?l = "List_grow fresh l"
  note g = List_grow_refine [OF assms(1), of fresh]
  have len: "length (listArray ?l) = allocation_size ?l" using g(1) by (simp add: list_ok_def)
  show "list_ok (List_InsertAt fresh x p l)"
    using g by (simp add: List_InsertAt_def Let_def list_ok_def)
  have nth: "listArray ?l ! i = list_contents l ! i" if "i < list_size l" for i
    using g(2,3) that by (simp add: list_contents_def) (metis nth_take)
  show "list_contents (List_InsertAt fresh x p l) =
      take p (list_contents l) @ x # drop p (list_contents l)"
  proof (rule list_eq_by_nth)
    note clen = length_list_contents [OF assms(1)]
    show "length (list_contents (List_InsertAt fresh x p l)) =
        length (take p (list_contents l) @ x # drop p (list_contents l))"
      using g len assms clen by (simp add: List_InsertAt_def Let_def list_contents_def)
    fix i assume "i < length (take p (list_contents l) @ x # drop p (list_contents l))"
    then have i: "i \<le> list_size l" using assms clen by simp
    have "list_contents (List_InsertAt fresh x p l) ! i =
        ((Insert_shift p (list_size l) (listArray ?l))[p := x]) ! i"
      using i g by (simp add: List_InsertAt_def Let_def list_contents_def)
    also have "\<dots> = (take p (list_contents l) @ x # drop p (list_contents l)) ! i"
      using i g(4) len assms clen nth [of i] nth [of "i - 1"]
      by (auto simp: Insert_shift_nth nth_list_update nth_append min_def nth_Cons' not_less)
    finally show "list_contents (List_InsertAt fresh x p l) ! i =
        (take p (list_contents l) @ x # drop p (list_contents l)) ! i" .
  qed
qed

lemma List_Pop_refine [invar_intros, refine_simps]:
  assumes "list_ok l" "list_contents l \<noteq> []"
  shows "list_ok (snd (List_Pop l))" "list_contents (snd (List_Pop l)) = butlast (list_contents l)"
    "fst (List_Pop l) = last (list_contents l)"
  using assms by (auto simp: List_Pop_def list_ok_def list_contents_def butlast_take last_conv_nth min_def)

lemma List_RemoveFromEnd_refine [invar_intros, refine_simps]:
  "list_ok l \<Longrightarrow> list_ok (List_RemoveFromEnd n l)"
  "list_ok l \<Longrightarrow> list_contents (List_RemoveFromEnd n l) = take (list_size l - n) (list_contents l)"
  by (auto simp: List_RemoveFromEnd_def list_ok_def list_contents_def)

lemma foldl_shift_down_length:
  "length (foldl (\<lambda>a c. a[c := a ! (c + 1)]) xs cs) = length xs"
  by (induction cs arbitrary: xs) simp_all

lemma foldl_shift_down_nth:
  "n < length xs \<Longrightarrow> i < length xs \<Longrightarrow>
    foldl (\<lambda>a c. a[c := a ! (c + 1)]) xs [m..<n] ! i = (if m \<le> i \<and> i < n then xs ! (i + 1) else xs ! i)"
proof (induction n arbitrary: i)
  case (Suc n)
  show ?case
  proof (cases "m \<le> n")
    case True
    then show ?thesis
      using Suc foldl_shift_down_length [of xs "[m..<n]"] by (auto simp: nth_list_update)
  qed auto
qed simp

lemma List_RemoveAtIndex_refine [invar_intros, refine_simps]:
  assumes "list_ok l"
  shows "list_ok (List_RemoveAtIndex p l)"
    "list_contents (List_RemoveAtIndex p l) = take p (list_contents l) @ drop (Suc p) (list_contents l)"
proof -
  show "list_ok (List_RemoveAtIndex p l)"
    using assms foldl_shift_down_length [of "listArray l" "[p..<list_size l - 1]"]
    by (auto simp: List_RemoveAtIndex_def List_RemoveFromEnd_def list_ok_def)
  show "list_contents (List_RemoveAtIndex p l) = take p (list_contents l) @ drop (Suc p) (list_contents l)"
  proof (cases "p < list_size l")
    case True
    let ?arr = "foldl (\<lambda>a c. a[c := a ! (c + 1)]) (listArray l) [p..<list_size l - 1]"
    have arr: "length ?arr = allocation_size l"
        "\<And>i. i < list_size l \<Longrightarrow> ?arr ! i =
          (if p \<le> i \<and> i < list_size l - 1 then listArray l ! (i + 1) else listArray l ! i)"
      using assms True foldl_shift_down_length [of "listArray l" "[p..<list_size l - 1]"]
        foldl_shift_down_nth [of "list_size l - 1" "listArray l" _ p]
      by (auto simp: list_ok_def)
    have eq: "list_contents (List_RemoveAtIndex p l) = take (list_size l - 1) ?arr"
      using True by (simp add: List_RemoveAtIndex_def List_RemoveFromEnd_def list_contents_def)
    show ?thesis
      unfolding eq using assms True arr
      by (intro list_eq_by_nth) (auto simp: list_ok_def list_contents_def nth_append)
  next
    case False
    then show ?thesis using assms by (simp add: List_RemoveAtIndex_def list_ok_def list_contents_def)
  qed
qed

text \<open>The unordered removal moves the last element into the gap.\<close>

lemma List_RemoveAtIndexFast_refine [invar_intros, refine_simps]:
  assumes "list_ok l" "p < list_size l"
  shows "list_ok (List_RemoveAtIndexFast p l)"
    "list_contents (List_RemoveAtIndexFast p l) =
      butlast ((list_contents l)[p := last (list_contents l)])"
proof -
  have "last (list_contents l) = listArray l ! (list_size l - 1)"
    using assms by (subst last_conv_nth) (auto simp: list_ok_def list_contents_def)
  then show "list_ok (List_RemoveAtIndexFast p l)"
    "list_contents (List_RemoveAtIndexFast p l) =
      butlast ((list_contents l)[p := last (list_contents l)])"
    using assms
    by (auto simp: List_RemoveAtIndexFast_def Let_def list_ok_def list_contents_def butlast_conv_take
        take_update_swap min_def)
qed

lemma GetIndexOf_from_correct:
  "i + n \<le> length (listArray l) \<Longrightarrow> GetIndexOf_from l x i n =
    (if x \<in> set (take n (drop i (listArray l)))
     then LEAST j. i \<le> j \<and> j < i + n \<and> listArray l ! j = x else MAX_UNSIGNED_LONG)"
proof (induction l x i n rule: GetIndexOf_from.induct)
  case (2 l x i n)
  have split: "take (Suc n) (drop i (listArray l)) = listArray l ! i # take n (drop (Suc i) (listArray l))"
    using 2 by (simp add: Cons_nth_drop_Suc [symmetric])
  show ?case
  proof (cases "listArray l ! i = x")
    case True
    then have "(LEAST j. i \<le> j \<and> j < i + Suc n \<and> listArray l ! j = x) = i"
      by (intro Least_equality) simp_all
    then show ?thesis using True split by simp
  next
    case False
    then have "(i \<le> j \<and> j < i + Suc n \<and> listArray l ! j = x) \<longleftrightarrow>
        (Suc i \<le> j \<and> j < Suc i + n \<and> listArray l ! j = x)" for j
      using le_less by (auto simp: Suc_le_eq)
    then show ?thesis using 2 False split by simp
  qed
qed simp

lemma List_Clear_refine [invar_intros, refine_simps]:
  "list_ok l \<Longrightarrow> list_ok (List_Clear b l)" "list_ok l \<Longrightarrow> list_contents (List_Clear b l) = []"
  by (auto simp: List_Clear_def list_ok_def list_contents_def)

lemma List_Compress_refine [invar_intros, refine_simps]:
  assumes "list_ok l"
  shows "list_ok (List_Compress fresh l)" "list_contents (List_Compress fresh l) = list_contents l"
  using assms by (simp_all add: List_Compress_def list_ok_def list_contents_def copy_cells_eq)

lemma Preallocate_amount_returns:
  "0 < amount \<Longrightarrow> countNeeded \<le> 2 ^ 31 \<Longrightarrow> countNeeded \<le> amount * 2 ^ fuel \<Longrightarrow>
    \<exists>a. Preallocate_amount fuel amount countNeeded = Some a \<and> countNeeded \<le> a \<and> amount \<le> a"
proof (induction fuel amount countNeeded rule: Preallocate_amount.induct)
  case (1 fuel amount countNeeded)
  show ?case
  proof (cases "amount < countNeeded")
    case True
    then obtain f where f: "fuel = Suc f" using 1(4) by (cases fuel) auto
    have m: "amount * 2 mod 2 ^ 32 = amount * 2" using True 1(3) by simp
    then show ?thesis using 1(1) [OF True f] 1(2,3,4) True f by fastforce
  qed simp
qed

lemma List_Preallocate_refine:
  assumes "list_ok l" "countNeeded \<le> 2 ^ 31"
  shows "\<exists>l'. List_Preallocate fresh countNeeded l = Some l' \<and> list_ok l' \<and>
    list_contents l' = list_contents l \<and> countNeeded \<le> allocation_size l'"
proof -
  define s where "s = (if allocation_size l = 0 then 16 else allocation_size l)"
  have s: "0 < s" "allocation_size l \<le> s" by (auto simp: s_def)
  have "countNeeded \<le> s * 2 ^ 32" using assms(2) s(1) by (cases s) simp_all
  then obtain a where a: "Preallocate_amount 32 s countNeeded = Some a" "countNeeded \<le> a" "s \<le> a"
    using Preallocate_amount_returns [OF s(1) assms(2)] by blast
  have eq: "List_Preallocate fresh countNeeded l =
      Some (if allocation_size l < a then
        l\<lparr>listArray := copy_cells (list_size l) (listArray l) (new_array fresh a), allocation_size := a\<rparr> else l)"
    unfolding List_Preallocate_def Let_def s_def [symmetric] a(1) by simp
  show ?thesis
    unfolding eq using assms(1) a(2,3) s(2)
    by (auto simp: list_ok_def list_contents_def copy_cells_eq)
qed

lemma List_copy_refine [invar_intros, refine_simps]:
  assumes "list_ok l"
  shows "list_ok (List_copy fresh l)" "list_contents (List_copy fresh l) = list_contents l"
  using assms by (auto simp: List_copy_def List_new_def list_ok_def list_contents_def copy_cells_eq)

lemma Replace_fill_nth:
  "sz + n \<le> length arr \<Longrightarrow>
    fst (Replace_fill filler sz n arr) = sz + n \<and>
    length (snd (Replace_fill filler sz n arr)) = length arr \<and>
    (\<forall>i. snd (Replace_fill filler sz n arr) ! i = (if sz \<le> i \<and> i < sz + n then filler else arr ! i))"
proof (induction filler sz n arr rule: Replace_fill.induct)
  case (2 filler sz n arr)
  then show ?case by (auto simp: nth_list_update)
qed auto

lemma List_Replace_refine [invar_intros, refine_simps]:
  assumes "list_ok l"
  shows "list_ok (List_Replace fresh x filler p l)"
    "list_contents (List_Replace fresh x filler p l) =
      (if p < list_size l then (list_contents l)[p := x]
       else list_contents l @ replicate (p - list_size l) filler @ [x])"
proof -
  define l1 where "l1 = (if p \<ge> allocation_size l then
      l\<lparr>listArray := copy_cells (list_size l) (listArray l) (new_array fresh (p + 1)),
        allocation_size := p + 1\<rparr> else l)"
  define r where "r = Replace_fill filler (list_size l1) (p - list_size l1) (listArray l1)"
  have "list_ok (List_Replace fresh x filler p l) \<and>
    list_contents (List_Replace fresh x filler p l) =
      list_contents l @ replicate (p - list_size l) filler @ [x]" if np: "\<not> p < list_size l"
  proof -
    have eq: "List_Replace fresh x filler p l =
        l1\<lparr>listArray := (snd r)[fst r := x], list_size := fst r + 1\<rparr>"
      using np by (simp add: List_Replace_def Let_def l1_def [symmetric] r_def [symmetric] split_beta)
    have l1: "list_size l1 = list_size l" "length (listArray l1) = allocation_size l1"
        "p < allocation_size l1" "take (list_size l) (listArray l1) = list_contents l"
      using assms np by (auto simp: l1_def list_ok_def list_contents_def copy_cells_eq)
    have r: "fst r = p" "length (snd r) = allocation_size l1"
        "\<And>i. snd r ! i = (if list_size l \<le> i \<and> i < p then filler else listArray l1 ! i)"
      using Replace_fill_nth [of "list_size l1" "p - list_size l1" "listArray l1" filler] l1 np
      by (simp_all add: r_def)
    have nth: "list_contents l ! i = listArray l1 ! i" if "i < list_size l" for i
      using l1(4) that by (metis nth_take)
    have "list_contents (List_Replace fresh x filler p l) =
      list_contents l @ replicate (p - list_size l) filler @ [x]"
      by (rule list_eq_by_nth)
        (use r l1 np length_list_contents [OF assms] nth in
          \<open>auto simp: eq list_contents_def [of "l1\<lparr>listArray := _, list_size := _\<rparr>"] nth_append
             nth_list_update less_Suc_eq\<close>)
    then show ?thesis using eq l1 r by (simp add: list_ok_def)
  qed
  then show "list_ok (List_Replace fresh x filler p l)"
    "list_contents (List_Replace fresh x filler p l) =
      (if p < list_size l then (list_contents l)[p := x]
       else list_contents l @ replicate (p - list_size l) filler @ [x])"
    using assms List_set_refine [OF assms, of p x] by (auto simp: List_Replace_def)
qed

section \<open>The growable array interface\<close>

text \<open>The laws on which the ordered list and the heap are built.\<close>

locale growable_array =
  fixes new :: 'l and insert_end :: "'a \<Rightarrow> 'l \<Rightarrow> 'l" and insert_at :: "'a \<Rightarrow> nat \<Rightarrow> 'l \<Rightarrow> 'l"
    and remove_at :: "nat \<Rightarrow> 'l \<Rightarrow> 'l" and nth_of :: "'l \<Rightarrow> nat \<Rightarrow> 'a" and size_of :: "'l \<Rightarrow> nat"
    and invar :: "'l \<Rightarrow> bool" and contents :: "'l \<Rightarrow> 'a list"
  assumes new_law: "invar new" "contents new = []"
    and insert_end_law: "invar l \<Longrightarrow> invar (insert_end x l)"
      "invar l \<Longrightarrow> contents (insert_end x l) = contents l @ [x]"
    and insert_at_law: "invar l \<Longrightarrow> p \<le> length (contents l) \<Longrightarrow> invar (insert_at x p l)"
      "invar l \<Longrightarrow> p \<le> length (contents l) \<Longrightarrow>
        contents (insert_at x p l) = take p (contents l) @ x # drop p (contents l)"
    and remove_at_law: "invar l \<Longrightarrow> invar (remove_at p l)"
      "invar l \<Longrightarrow> contents (remove_at p l) = take p (contents l) @ drop (Suc p) (contents l)"
    and nth_law: "invar l \<Longrightarrow> p < length (contents l) \<Longrightarrow> nth_of l p = contents l ! p"
    and size_law: "invar l \<Longrightarrow> size_of l = length (contents l)"
begin

lemma insert_then_remove:
  assumes "invar l" "p \<le> length (contents l)"
  shows "contents (remove_at p (insert_at x p l)) = contents l"
  using assms by (simp add: insert_at_law remove_at_law min_def)

lemma insert_then_nth:
  assumes "invar l" "p \<le> length (contents l)"
  shows "nth_of (insert_at x p l) p = x"
proof -
  have "p < length (contents (insert_at x p l))" using assms by (simp add: insert_at_law)
  then show ?thesis using assms by (simp add: nth_law insert_at_law nth_append)
qed

lemma build_from_new: "invar (fold insert_end xs new) \<and> contents (fold insert_end xs new) = xs"
proof -
  have "invar (fold insert_end xs l) \<and> contents (fold insert_end xs l) = contents l @ xs" if "invar l" for l
    using that by (induction xs arbitrary: l) (simp_all add: insert_end_law)
  then show ?thesis using new_law by simp
qed

end

interpretation al: growable_array List_new "List_Insert fresh" "List_InsertAt fresh" List_RemoveAtIndex
  List_nth List_Size list_ok list_contents for fresh :: "nat \<Rightarrow> 'a"
  by unfold_locales (simp_all add: invar_intros refine_simps length_list_contents List_Size_def)

text \<open>The growable array is a list: insertion at the end or at an index, removal, filling
  replacement, unordered removal, compaction and copying have the corresponding effect on
  the stored sequence and keep the representation invariant, whatever fresh memory holds.\<close>

theorem List_refines_list:
  assumes "list_ok l"
  shows "list_contents (List_Insert fresh x l) = list_contents l @ [x] \<and>
    (p \<le> list_size l \<longrightarrow> list_contents (List_InsertAt fresh x p l) =
       take p (list_contents l) @ x # drop p (list_contents l)) \<and>
    list_contents (List_RemoveAtIndex p l) = take p (list_contents l) @ drop (Suc p) (list_contents l) \<and>
    (p < list_size l \<longrightarrow> list_contents (List_RemoveAtIndexFast p l) =
       butlast ((list_contents l)[p := last (list_contents l)])) \<and>
    list_contents (List_Replace fresh x filler p l) =
      (if p < list_size l then (list_contents l)[p := x]
       else list_contents l @ replicate (p - list_size l) filler @ [x]) \<and>
    list_contents (List_Compress fresh l) = list_contents l \<and>
    list_contents (List_copy fresh l) = list_contents l \<and>
    list_ok (List_Insert fresh x l) \<and> list_ok (List_RemoveAtIndex p l) \<and>
    list_ok (List_Replace fresh x filler p l) \<and> list_ok (List_Compress fresh l) \<and>
    (p \<le> list_size l \<longrightarrow> list_ok (List_InsertAt fresh x p l))"
  using assms by (simp add: invar_intros refine_simps)

theorem List_refines_list_witness:
  "list_contents (List_InsertAt (\<lambda>_. 0) 7 1 (fold (List_Insert (\<lambda>_. 0)) [3, 4] List_new)) = [3, 7, 4 :: nat]"
proof -
  let ?l = "fold (List_Insert (\<lambda>_. 0)) [3, 4] List_new :: nat List"
  have l: "list_ok ?l" "list_contents ?l = [3, 4]" using al.build_from_new [of "\<lambda>_. 0" "[3, 4 :: nat]"] by blast+
  have "list_size ?l = 2" using length_list_contents [OF l(1)] l(2) by simp
  then show ?thesis using List_refines_list [OF l(1), of "\<lambda>_. 0" 7 1] l(2) by simp
qed

end
