(* ===== verification/DS_OrderedList.thy ===== *)
theory DS_OrderedList
  imports DS_List "HOL-Library.Signed_Division"
begin

text \<open>
  \<^verbatim>\<open>DataStructures::OrderedList\<close> of \<^verbatim>\<open>ds_ordered_list.h\<close>: a list kept in the order of a
  user-supplied comparison \<open>cf key data\<close> (negative, zero or positive), searched by bisection.
  The underlying \<^verbatim>\<open>List\<close> is used through its contents (theory \<open>DS_List\<close>).  The bisection loop
  is modelled with fuel; \<open>GetIndexFromKey_loop_correct\<close> shows that the fuel is never used up.
  The locale \<open>comparison\<close> states what the list needs of \<open>cf\<close>; it is interpreted for each
  comparison the program uses.
\<close>

section \<open>Operations\<close>

definition defaultOrderedListComparison :: "'k::linorder \<Rightarrow> 'k \<Rightarrow> int" where
  "defaultOrderedListComparison a b = (if a < b then - 1 else if a = b then 0 else 1)"

fun GetIndexFromKey_loop ::
    "nat \<Rightarrow> ('k \<Rightarrow> 'a \<Rightarrow> int) \<Rightarrow> 'k \<Rightarrow> 'a list \<Rightarrow> int \<Rightarrow> int \<Rightarrow> int \<Rightarrow> (nat \<times> bool) option" where
  "GetIndexFromKey_loop 0 cf key xs index lowerBound upperBound = None"
| "GetIndexFromKey_loop (Suc fuel) cf key xs index lowerBound upperBound =
    (let res = cf key (xs ! nat index)
     in if res = 0 then Some (nat index, True)
        else
          let upperBound' = (if res < 0 then index - 1 else upperBound);
              lowerBound' = (if res < 0 then lowerBound else index + 1);
              index' = lowerBound' + (upperBound' - lowerBound') sdiv 2
          in if lowerBound' > upperBound' then Some (nat lowerBound', False)
             else if index' < 0 \<or> index' \<ge> int (length xs) then Some (0, False)
             else GetIndexFromKey_loop fuel cf key xs index' lowerBound' upperBound')"

definition GetIndexFromKey :: "('k \<Rightarrow> 'a \<Rightarrow> int) \<Rightarrow> 'k \<Rightarrow> 'a list \<Rightarrow> nat \<times> bool" where
  "GetIndexFromKey cf key xs =
    (if length xs = 0 then (0, False)
     else case GetIndexFromKey_loop (length xs) cf key xs (int (length xs) sdiv 2) 0 (int (length xs) - 1) of
            Some r \<Rightarrow> r
          | None \<Rightarrow> (0, False))"

definition HasData :: "('k \<Rightarrow> 'a \<Rightarrow> int) \<Rightarrow> 'k \<Rightarrow> 'a list \<Rightarrow> bool" where
  "HasData cf key xs = snd (GetIndexFromKey cf key xs)"

definition GetElementFromKey :: "('k \<Rightarrow> 'a \<Rightarrow> int) \<Rightarrow> 'k \<Rightarrow> 'a list \<Rightarrow> 'a option" where
  "GetElementFromKey cf key xs =
    (let (index, objectExists) = GetIndexFromKey cf key xs
     in if objectExists then Some (xs ! index) else None)"

definition insert_at :: "'a \<Rightarrow> nat \<Rightarrow> 'a list \<Rightarrow> 'a list" where
  "insert_at x p xs = take p xs @ x # drop p xs"

definition remove_at :: "nat \<Rightarrow> 'a list \<Rightarrow> 'a list" where
  "remove_at p xs = take p xs @ drop (Suc p) xs"

text \<open>\<open>None\<close> is the returned \<^verbatim>\<open>(unsigned) -1\<close> of a duplicate insertion.\<close>

definition OrderedList_Insert :: "('k \<Rightarrow> 'a \<Rightarrow> int) \<Rightarrow> 'k \<Rightarrow> 'a \<Rightarrow> 'a list \<Rightarrow> nat option \<times> 'a list" where
  "OrderedList_Insert cf key data xs =
    (let (index, objectExists) = GetIndexFromKey cf key xs
     in if objectExists then (None, xs)
        else if index \<ge> length xs then (Some (length xs), xs @ [data])
        else (Some index, insert_at data index xs))"

definition OrderedList_Remove :: "('k \<Rightarrow> 'a \<Rightarrow> int) \<Rightarrow> 'k \<Rightarrow> 'a list \<Rightarrow> nat \<times> 'a list" where
  "OrderedList_Remove cf key xs =
    (let (index, objectExists) = GetIndexFromKey cf key xs
     in if \<not> objectExists then (0, xs) else (index, remove_at index xs))"

definition OrderedList_RemoveIfExists :: "('k \<Rightarrow> 'a \<Rightarrow> int) \<Rightarrow> 'k \<Rightarrow> 'a list \<Rightarrow> nat \<times> 'a list" where
  "OrderedList_RemoveIfExists cf key xs =
    (let (index, objectExists) = GetIndexFromKey cf key xs
     in if \<not> objectExists then (0, xs) else (index, remove_at index xs))"

section \<open>The bisection finds the key or its insertion point\<close>

definition cf_descending :: "('k \<Rightarrow> 'a \<Rightarrow> int) \<Rightarrow> 'k \<Rightarrow> 'a list \<Rightarrow> bool" where
  "cf_descending cf key xs \<longleftrightarrow>
    (\<forall>i j. i < j \<and> j < length xs \<and> cf key (xs ! j) \<ge> 0 \<longrightarrow> cf key (xs ! i) > 0)"

definition search_result :: "('k \<Rightarrow> 'a \<Rightarrow> int) \<Rightarrow> 'k \<Rightarrow> 'a list \<Rightarrow> nat \<times> bool \<Rightarrow> bool" where
  "search_result cf key xs r \<longleftrightarrow>
    (if snd r then fst r < length xs \<and> cf key (xs ! fst r) = 0
     else fst r \<le> length xs \<and> (\<forall>j < fst r. cf key (xs ! j) > 0) \<and>
       (\<forall>j. fst r \<le> j \<and> j < length xs \<longrightarrow> cf key (xs ! j) < 0))"

lemma sdiv2_nonneg: "0 \<le> a \<Longrightarrow> a sdiv 2 = (a :: int) div 2"
  by (simp add: signed_divide_int_def sgn_if)

lemma GetIndexFromKey_loop_correct:
  assumes desc: "cf_descending cf key xs"
    and "0 \<le> lo" "lo \<le> idx" "idx \<le> hi" "hi < int (length xs)" "hi - lo < int fuel"
    and "\<forall>j < nat lo. cf key (xs ! j) > 0"
    and "\<forall>j. hi < int j \<and> j < length xs \<longrightarrow> cf key (xs ! j) < 0"
  shows "\<exists>r. GetIndexFromKey_loop fuel cf key xs idx lo hi = Some r \<and> search_result cf key xs r"
  using assms(2-)
proof (induction fuel arbitrary: idx lo hi)
  case (Suc fuel)
  define i where "i = nat idx"
  have i: "i < length xs" "idx = int i" using Suc.prems by (auto simp: i_def)
  have before: "cf key (xs ! j) > 0" if "j < i" "cf key (xs ! i) \<ge> 0" for j
    using desc that i by (auto simp: cf_descending_def)
  have after: "cf key (xs ! j) < 0" if "i < j" "j < length xs" "cf key (xs ! i) \<le> 0" for j
    using desc that i by (force simp: cf_descending_def)
  consider "cf key (xs ! i) = 0" | "cf key (xs ! i) < 0" | "cf key (xs ! i) > 0" by linarith
  then show ?case
  proof cases
    case 1
    then show ?thesis using i by (simp add: i_def [symmetric] search_result_def)
  next
    case 2
    let ?hi = "idx - 1" and ?idx = "lo + (idx - 1 - lo) sdiv 2"
    have all: "\<forall>j. ?hi < int j \<and> j < length xs \<longrightarrow> cf key (xs ! j) < 0"
    proof (intro allI impI)
      fix j assume j: "?hi < int j \<and> j < length xs"
      then have "i = j \<or> i < j" using i by auto
      then show "cf key (xs ! j) < 0" using 2 after j by auto
    qed
    have step: "GetIndexFromKey_loop (Suc fuel) cf key xs idx lo hi =
        (if lo > ?hi then Some (nat lo, False)
         else if ?idx < 0 \<or> ?idx \<ge> int (length xs) then Some (0, False)
         else GetIndexFromKey_loop fuel cf key xs ?idx lo ?hi)"
      using 2 by (simp add: Let_def i_def)
    show ?thesis
    proof (cases "lo > ?hi")
      case True
      then have "nat lo = i" using Suc.prems i by simp
      then show ?thesis
        using True 2 Suc.prems(6) i all unfolding step by (auto simp: search_result_def)
    next
      case False
      then have idx: "lo \<le> ?idx" "?idx \<le> ?hi" by (auto simp: sdiv2_nonneg)
      then have "\<exists>r. GetIndexFromKey_loop fuel cf key xs ?idx lo ?hi = Some r \<and> search_result cf key xs r"
        by (intro Suc.IH) (use Suc.prems all in auto)
      then show ?thesis using False idx Suc.prems unfolding step by auto
    qed
  next
    case 3
    let ?lo = "idx + 1" and ?idx = "idx + 1 + (hi - (idx + 1)) sdiv 2"
    have all: "\<forall>j < nat ?lo. cf key (xs ! j) > 0"
      using 3 before i by (auto simp: nat_add_distrib less_Suc_eq)
    have step: "GetIndexFromKey_loop (Suc fuel) cf key xs idx lo hi =
        (if ?lo > hi then Some (nat ?lo, False)
         else if ?idx < 0 \<or> ?idx \<ge> int (length xs) then Some (0, False)
         else GetIndexFromKey_loop fuel cf key xs ?idx ?lo hi)"
      using 3 by (simp add: Let_def i_def)
    show ?thesis
    proof (cases "?lo > hi")
      case True
      then have "nat ?lo = Suc i" "hi = idx" using Suc.prems i by simp_all
      then show ?thesis
        using True 3 Suc.prems(7) i all unfolding step by (auto simp: search_result_def)
    next
      case False
      then have idx: "?lo \<le> ?idx" "?idx \<le> hi" by (auto simp: sdiv2_nonneg)
      then have "\<exists>r. GetIndexFromKey_loop fuel cf key xs ?idx ?lo hi = Some r \<and> search_result cf key xs r"
        by (intro Suc.IH) (use Suc.prems all in auto)
      then show ?thesis using False idx Suc.prems unfolding step by auto
    qed
  qed
qed simp

lemma GetIndexFromKey_correct:
  assumes "cf_descending cf key xs"
  shows "search_result cf key xs (GetIndexFromKey cf key xs)"
proof (cases "xs = []")
  case False
  define n where "n = int (length xs)"
  have n: "0 < n" using False by (simp add: n_def)
  then have half: "0 \<le> n sdiv 2" "n sdiv 2 \<le> n - 1" by (auto simp: sdiv2_nonneg)
  have "\<exists>r. GetIndexFromKey_loop (length xs) cf key xs (n sdiv 2) 0 (n - 1) = Some r \<and>
      search_result cf key xs r"
    by (rule GetIndexFromKey_loop_correct [OF assms]) (use n half in \<open>auto simp: n_def\<close>)
  then show ?thesis using False by (auto simp: GetIndexFromKey_def n_def)
qed (simp add: GetIndexFromKey_def search_result_def)

section \<open>What the list needs of its comparison\<close>

locale comparison =
  fixes cf :: "'k \<Rightarrow> 'a \<Rightarrow> int" and before :: "'a \<Rightarrow> 'a \<Rightarrow> bool" and fits :: "'k \<Rightarrow> 'a \<Rightarrow> bool"
    and valid :: "'a \<Rightarrow> bool"
  assumes cf_law: "before a b \<Longrightarrow> cf k b \<ge> 0 \<Longrightarrow> cf k a > 0"
    and above_law: "fits k d \<Longrightarrow> valid a \<Longrightarrow> cf k a > 0 \<Longrightarrow> before a d"
    and below_law: "fits k d \<Longrightarrow> valid a \<Longrightarrow> cf k a < 0 \<Longrightarrow> before d a"
begin

lemma sorted_descending: "sorted_wrt before xs \<Longrightarrow> cf_descending cf k xs"
  unfolding cf_descending_def by (auto simp: sorted_wrt_iff_nth_less intro: cf_law)

lemma search: "sorted_wrt before xs \<Longrightarrow> search_result cf k xs (GetIndexFromKey cf k xs)"
  by (rule GetIndexFromKey_correct [OF sorted_descending])

lemma HasData_iff:
  assumes "sorted_wrt before xs"
  shows "HasData cf k xs \<longleftrightarrow> (\<exists>a \<in> set xs. cf k a = 0)"
proof -
  obtain p e where r: "GetIndexFromKey cf k xs = (p, e)" by force
  have s: "search_result cf k xs (p, e)" using search [OF assms, of k] r by simp
  have "cf k (xs ! j) \<noteq> 0" if "\<not> e" "j < length xs" for j
    using s that by (cases "j < p") (fastforce simp: search_result_def not_less)+
  then show ?thesis
    using s r by (cases e) (auto simp: HasData_def search_result_def set_conv_nth)
qed

lemma GetElementFromKey_Some:
  "sorted_wrt before xs \<Longrightarrow> GetElementFromKey cf k xs = Some a \<Longrightarrow> a \<in> set xs \<and> cf k a = 0"
  using search [of xs k]
  by (cases "GetIndexFromKey cf k xs")
    (auto simp: GetElementFromKey_def search_result_def split: if_splits)

lemma GetElementFromKey_None:
  "sorted_wrt before xs \<Longrightarrow> GetElementFromKey cf k xs = None \<Longrightarrow> a \<in> set xs \<Longrightarrow> cf k a \<noteq> 0"
  using HasData_iff [of xs k]
  by (auto simp: GetElementFromKey_def HasData_def split: prod.splits if_splits)

lemma insert_sorted:
  assumes "sorted_wrt before xs" "\<forall>a \<in> set xs. valid a" "fits k d" "p \<le> length xs"
    and "\<forall>j < p. cf k (xs ! j) > 0" "\<forall>j. p \<le> j \<and> j < length xs \<longrightarrow> cf k (xs ! j) < 0"
  shows "sorted_wrt before (insert_at d p xs)"
proof -
  have "before a d" if a: "a \<in> set (take p xs)" for a
  proof -
    from a obtain j where "j < p" "j < length xs" "a = xs ! j" by (auto simp: in_set_conv_nth)
    then show ?thesis using assms by (auto intro: above_law)
  qed
  moreover have "before d a" if a: "a \<in> set (drop p xs)" for a
  proof -
    from a obtain j where "p + j < length xs" "a = xs ! (p + j)"
      using assms(4) by (auto simp: in_set_conv_nth less_diff_conv add.commute)
    then show ?thesis using assms by (auto intro!: below_law)
  qed
  moreover have "sorted_wrt before (take p xs @ drop p xs)" using assms(1) by simp
  ultimately show ?thesis
    unfolding insert_at_def sorted_wrt_append by (auto simp: sorted_wrt_append)
qed

lemma Insert_keeps_order:
  assumes "sorted_wrt before xs" "\<forall>a \<in> set xs. valid a" "fits k d"
  shows "sorted_wrt before (snd (OrderedList_Insert cf k d xs))"
    and "(\<exists>a \<in> set xs. cf k a = 0) \<Longrightarrow> OrderedList_Insert cf k d xs = (None, xs)"
    and "(\<forall>a \<in> set xs. cf k a \<noteq> 0) \<Longrightarrow>
      \<exists>p \<le> length xs. OrderedList_Insert cf k d xs = (Some p, insert_at d p xs)"
proof -
  obtain p e where r: "GetIndexFromKey cf k xs = (p, e)" by force
  have s: "search_result cf k xs (p, e)" using search [OF assms(1), of k] r by simp
  have e: "e \<longleftrightarrow> (\<exists>a \<in> set xs. cf k a = 0)" using HasData_iff [OF assms(1), of k] r by (simp add: HasData_def)
  have ins: "OrderedList_Insert cf k d xs = (Some p, insert_at d p xs)" "p \<le> length xs" if "\<not> e"
    using s r that by (auto simp: OrderedList_Insert_def search_result_def insert_at_def)
  have dup: "OrderedList_Insert cf k d xs = (None, xs)" if e
    using r that by (simp add: OrderedList_Insert_def)
  show "sorted_wrt before (snd (OrderedList_Insert cf k d xs))"
  proof (cases e)
    case False
    have "sorted_wrt before (insert_at d p xs)"
      by (rule insert_sorted [OF assms]) (use s False in \<open>auto simp: search_result_def\<close>)
    then show ?thesis using ins False by simp
  qed (use dup assms in simp)
  show "OrderedList_Insert cf k d xs = (None, xs)" if "\<exists>a \<in> set xs. cf k a = 0"
    using dup e that by blast
  show "\<exists>p \<le> length xs. OrderedList_Insert cf k d xs = (Some p, insert_at d p xs)"
    if "\<forall>a \<in> set xs. cf k a \<noteq> 0"
    using ins e that by blast
qed

lemma Remove_effect:
  assumes "sorted_wrt before xs"
  shows "sorted_wrt before (snd (OrderedList_RemoveIfExists cf k xs))"
    and "set (snd (OrderedList_RemoveIfExists cf k xs)) = {a \<in> set xs. cf k a \<noteq> 0}"
proof -
  obtain p e where r: "GetIndexFromKey cf k xs = (p, e)" by force
  have s: "search_result cf k xs (p, e)" using search [OF assms, of k] r by simp
  have sub: "sorted_wrt before (remove_at p xs)"
    unfolding remove_at_def by (rule sorted_wrt_remove_at [OF assms])
  show "sorted_wrt before (snd (OrderedList_RemoveIfExists cf k xs))"
    using sub r assms by (cases e) (simp_all add: OrderedList_RemoveIfExists_def)
  have uniq: "cf k (xs ! j) \<noteq> 0" if "e" "j < length xs" "j \<noteq> p" for j
  proof (cases "j < p")
    case True
    then show ?thesis
      using sorted_descending [OF assms, of k] s that by (force simp: search_result_def cf_descending_def)
  next
    case False
    then have "p < j" using that by simp
    then show ?thesis
      using sorted_descending [OF assms, of k] s that by (force simp: search_result_def cf_descending_def)
  qed
  have "set (remove_at p xs) = {a \<in> set xs. cf k a \<noteq> 0}" if e
    using uniq s that unfolding remove_at_def set_remove_at
    by (auto simp: search_result_def in_set_conv_nth)
  then show "set (snd (OrderedList_RemoveIfExists cf k xs)) = {a \<in> set xs. cf k a \<noteq> 0}"
    using r HasData_iff [OF assms, of k] by (cases e) (auto simp: OrderedList_RemoveIfExists_def HasData_def)
qed

end

interpretation dflt: comparison "defaultOrderedListComparison :: 'k::linorder \<Rightarrow> 'k \<Rightarrow> int" "(<)" "(=)" "\<lambda>_. True"
  by unfold_locales (auto simp: defaultOrderedListComparison_def split: if_splits)

section \<open>The ordered list is a set\<close>

lemma set_insert_at: "p \<le> length xs \<Longrightarrow> set (insert_at d p xs) = insert d (set xs)"
  unfolding insert_at_def using append_take_drop_id [of p xs] set_append [of "take p xs" "drop p xs"] by auto

text \<open>
  Under the default comparison an ordered list is a duplicate-free ascending sequence
  standing for a set: a key is found exactly if it is in the set, inserting adds the key once,
  refusing a duplicate, removing takes it out, and both keep the order.
\<close>
theorem OrderedList_is_a_set:
  fixes k :: "'k::linorder"
  assumes "sorted_wrt (<) xs"
  shows "HasData defaultOrderedListComparison k xs = (k \<in> set xs) \<and>
    sorted_wrt (<) (snd (OrderedList_Insert defaultOrderedListComparison k k xs)) \<and>
    set (snd (OrderedList_Insert defaultOrderedListComparison k k xs)) = insert k (set xs) \<and>
    (fst (OrderedList_Insert defaultOrderedListComparison k k xs) = None) = (k \<in> set xs) \<and>
    sorted_wrt (<) (snd (OrderedList_RemoveIfExists defaultOrderedListComparison k xs)) \<and>
    set (snd (OrderedList_RemoveIfExists defaultOrderedListComparison k xs)) = set xs - {k}"
proof -
  have z: "defaultOrderedListComparison k a = 0 \<longleftrightarrow> a = k" for a :: 'k
    by (auto simp: defaultOrderedListComparison_def)
  have has: "HasData defaultOrderedListComparison k xs = (k \<in> set xs)"
    using dflt.HasData_iff [OF assms, of k] by (simp add: z)
  note ins = dflt.Insert_keeps_order [OF assms, of k k, simplified z]
  have "set (snd (OrderedList_Insert defaultOrderedListComparison k k xs)) = insert k (set xs) \<and>
      (fst (OrderedList_Insert defaultOrderedListComparison k k xs) = None) = (k \<in> set xs)"
  proof (cases "k \<in> set xs")
    case True
    then show ?thesis using ins(2) by auto
  next
    case False
    then obtain p where "p \<le> length xs"
      "OrderedList_Insert defaultOrderedListComparison k k xs = (Some p, insert_at k p xs)"
      using ins(3) by blast
    then show ?thesis using False set_insert_at [of p xs k] by simp
  qed
  moreover have "set (snd (OrderedList_RemoveIfExists defaultOrderedListComparison k xs)) = set xs - {k}"
    using dflt.Remove_effect(2) [OF assms, of k] by (auto simp: z)
  ultimately show ?thesis using has ins(1) dflt.Remove_effect(1) [OF assms, of k] by simp
qed

theorem OrderedList_is_a_set_witness:
  "set (snd (OrderedList_Insert defaultOrderedListComparison (2 :: int) 2 [1, 3])) = {1, 2, 3}"
proof -
  have "sorted_wrt (<) [1, 3 :: int]" by simp
  from OrderedList_is_a_set [OF this, of 2] show ?thesis by auto
qed

end
