(* ===== verification/DS_Heap.thy ===== *)
theory DS_Heap
  imports Prelude
begin

text \<open>
  \<^verbatim>\<open>DataStructures::Heap\<close> of \<^verbatim>\<open>ds_heap.h\<close>: a binary heap in an array, ordered upwards or downwards
  by the template parameter \<^verbatim>\<open>isMaxHeap\<close>.  The reliability layer keeps its outgoing messages
  and the messages that wait for their turn in such heaps.  The operations are modelled on
  the list of nodes (the contents of the underlying \<^verbatim>\<open>List\<close>); \<open>heap_ok\<close> is the heap order, and
  the abstraction is the multiset of nodes.
\<close>

section \<open>Data and operations\<close>

record ('w, 'd) HeapNode =
  weight :: 'w
  hn_data :: 'd

record ('w, 'd) Heap =
  h_nodes :: "('w, 'd) HeapNode list"
  optimizeNextSeriesPush :: bool

definition Heap_new :: "('w, 'd) Heap" where
  "Heap_new = \<lparr>h_nodes = [], optimizeNextSeriesPush = False\<rparr>"

definition HeapNode_of :: "'w \<Rightarrow> 'd \<Rightarrow> ('w, 'd) HeapNode" where
  "HeapNode_of w d = \<lparr>weight = w, hn_data = d\<rparr>"

definition LeftChild :: "nat \<Rightarrow> nat" where
  "LeftChild i = i * 2 + 1"

definition RightChild :: "nat \<Rightarrow> nat" where
  "RightChild i = i * 2 + 2"

definition Parent :: "nat \<Rightarrow> nat" where
  "Parent i = (i - 1) div 2"

definition Swap :: "nat \<Rightarrow> nat \<Rightarrow> 'a list \<Rightarrow> 'a list" where
  "Swap i j h = (let temp = h ! i; h1 = h[i := h ! j] in h1[j := temp])"

definition out_of_order :: "bool \<Rightarrow> 'w::linorder \<Rightarrow> 'w \<Rightarrow> bool" where
  "out_of_order isMaxHeap upper lower = (if isMaxHeap then upper < lower else upper > lower)"

function Push_loop :: "bool \<Rightarrow> 'w::linorder \<Rightarrow> nat \<Rightarrow> ('w, 'd) HeapNode list \<Rightarrow> ('w, 'd) HeapNode list" where
  "Push_loop isMaxHeap w currentIndex h =
    (if currentIndex = 0 then h
     else if out_of_order isMaxHeap (weight (h ! Parent currentIndex)) w
       then Push_loop isMaxHeap w (Parent currentIndex) (Swap currentIndex (Parent currentIndex) h)
       else h)"
  by pat_completeness auto
termination
  by (relation "measure (\<lambda>(m, w, i, h). i)") (auto simp: Parent_def)

definition Heap_Push :: "bool \<Rightarrow> 'w::linorder \<Rightarrow> 'd \<Rightarrow> ('w, 'd) Heap \<Rightarrow> ('w, 'd) Heap" where
  "Heap_Push isMaxHeap w d hp =
    hp\<lparr>h_nodes := Push_loop isMaxHeap w (length (h_nodes hp)) (h_nodes hp @ [HeapNode_of w d])\<rparr>"

definition Heap_StartSeries :: "('w, 'd) Heap \<Rightarrow> ('w, 'd) Heap" where
  "Heap_StartSeries hp = hp\<lparr>optimizeNextSeriesPush := False\<rparr>"

definition Heap_PushSeries :: "bool \<Rightarrow> 'w::linorder \<Rightarrow> 'd \<Rightarrow> ('w, 'd) Heap \<Rightarrow> ('w, 'd) Heap" where
  "Heap_PushSeries isMaxHeap w d hp =
    (if \<not> optimizeNextSeriesPush hp then
       let currentIndex = length (h_nodes hp)
       in if currentIndex > 0 \<and>
             list_ex (\<lambda>parentIndex. out_of_order isMaxHeap (weight (h_nodes hp ! parentIndex)) w)
               [Parent currentIndex..<currentIndex]
          then Heap_Push isMaxHeap w d hp
          else hp\<lparr>h_nodes := h_nodes hp @ [HeapNode_of w d], optimizeNextSeriesPush := True\<rparr>
     else hp\<lparr>h_nodes := h_nodes hp @ [HeapNode_of w d]\<rparr>)"

lemma length_Swap [simp]: "length (Swap i j h) = length h"
  by (simp add: Swap_def Let_def)

function Pop_loop :: "bool \<Rightarrow> 'w::linorder \<Rightarrow> nat \<Rightarrow> ('w, 'd) HeapNode list \<Rightarrow> ('w, 'd) HeapNode list" where
  "Pop_loop isMaxHeap currentWeight currentIndex h =
    (let leftChild = LeftChild currentIndex; rightChild = RightChild currentIndex
     in if leftChild \<ge> length h then h
        else if rightChild \<ge> length h then
          (if out_of_order isMaxHeap currentWeight (weight (h ! leftChild)) then Swap leftChild currentIndex h else h)
        else if \<not> out_of_order isMaxHeap currentWeight (weight (h ! leftChild)) \<and>
                \<not> out_of_order isMaxHeap currentWeight (weight (h ! rightChild)) then h
        else if out_of_order isMaxHeap (weight (h ! rightChild)) (weight (h ! leftChild)) then
          Pop_loop isMaxHeap currentWeight leftChild (Swap leftChild currentIndex h)
        else Pop_loop isMaxHeap currentWeight rightChild (Swap rightChild currentIndex h))"
  by pat_completeness auto
termination
  by (relation "measure (\<lambda>(m, w, i, h). length h - i)") (auto simp: LeftChild_def RightChild_def)

definition Heap_Pop :: "bool \<Rightarrow> nat \<Rightarrow> ('w::linorder, 'd) Heap \<Rightarrow> 'd \<times> ('w, 'd) Heap" where
  "Heap_Pop isMaxHeap startingIndex hp =
    (let h = h_nodes hp;
         returnValue = hn_data (h ! startingIndex);
         h1 = h[startingIndex := h ! (length h - 1)];
         currentWeight = weight (h1 ! startingIndex);
         h2 = take (length h1 - 1) h1
     in (returnValue, hp\<lparr>h_nodes := Pop_loop isMaxHeap currentWeight startingIndex h2\<rparr>))"

definition Heap_Peek :: "nat \<Rightarrow> ('w, 'd) Heap \<Rightarrow> 'd" where
  "Heap_Peek startingIndex hp = hn_data (h_nodes hp ! startingIndex)"

definition Heap_PeekWeight :: "nat \<Rightarrow> ('w, 'd) Heap \<Rightarrow> 'w" where
  "Heap_PeekWeight startingIndex hp = weight (h_nodes hp ! startingIndex)"

definition Heap_Size :: "('w, 'd) Heap \<Rightarrow> nat" where
  "Heap_Size hp = length (h_nodes hp)"

definition Heap_Clear :: "('w, 'd) Heap \<Rightarrow> ('w, 'd) Heap" where
  "Heap_Clear hp = hp\<lparr>h_nodes := []\<rparr>"

section \<open>Heap order\<close>

definition hle :: "bool \<Rightarrow> 'w::linorder \<Rightarrow> 'w \<Rightarrow> bool" where
  "hle isMaxHeap a b \<longleftrightarrow> \<not> out_of_order isMaxHeap a b"

lemma hle_refl [simp]: "hle m a a"
  and hle_trans: "hle m a b \<Longrightarrow> hle m b c \<Longrightarrow> hle m a c"
  and hle_total: "hle m a b \<or> hle m b a"
  and out_of_order_hle: "out_of_order m a b \<Longrightarrow> hle m b a"
  by (auto simp: hle_def out_of_order_def split: if_splits)

definition heap_ordered :: "bool \<Rightarrow> ('w::linorder, 'd) HeapNode list \<Rightarrow> bool" where
  "heap_ordered m h \<longleftrightarrow> (\<forall>j. 0 < j \<and> j < length h \<longrightarrow> hle m (weight (h ! Parent j)) (weight (h ! j)))"

definition heap_ok :: "bool \<Rightarrow> ('w::linorder, 'd) Heap \<Rightarrow> bool" where
  "heap_ok m hp \<longleftrightarrow> heap_ordered m (h_nodes hp)"

definition heap_mset :: "('w, 'd) Heap \<Rightarrow> ('w, 'd) HeapNode multiset" where
  "heap_mset hp = mset (h_nodes hp)"

lemma Parent_less: "0 < j \<Longrightarrow> Parent j < j"
  by (auto simp: Parent_def)

lemma Parent_children: "0 < j \<Longrightarrow> Parent j = i \<longleftrightarrow> j = LeftChild i \<or> j = RightChild i"
  by (auto simp: Parent_def LeftChild_def RightChild_def)

lemma children_pos: "0 < LeftChild i" "0 < RightChild i" "i < LeftChild i" "i < RightChild i"
  by (simp_all add: LeftChild_def RightChild_def)

lemma Parent_of_children [simp]: "Parent (LeftChild i) = i" "Parent (RightChild i) = i"
  by (simp_all add: Parent_def LeftChild_def RightChild_def)

lemma Swap_nth:
  "i < length h \<Longrightarrow> j < length h \<Longrightarrow> k < length h \<Longrightarrow>
    Swap i j h ! k = (if k = j then h ! i else if k = i then h ! j else h ! k)"
  by (auto simp: Swap_def Let_def nth_list_update)

lemma mset_Swap: "i < length h \<Longrightarrow> j < length h \<Longrightarrow> mset (Swap i j h) = mset h"
  unfolding Swap_def Let_def using mset_swap [of j h i] by simp

text \<open>A heap with a possible violation between \<open>i\<close> and its parent (sifting up), or between
  \<open>i\<close> and its children (sifting down); in both cases the parent of \<open>i\<close> is in order with the
  children of \<open>i\<close>.\<close>

definition up_inv :: "bool \<Rightarrow> ('w::linorder, 'd) HeapNode list \<Rightarrow> nat \<Rightarrow> bool" where
  "up_inv m h i \<longleftrightarrow> i < length h \<and>
    (\<forall>j. 0 < j \<and> j < length h \<and> j \<noteq> i \<longrightarrow> hle m (weight (h ! Parent j)) (weight (h ! j))) \<and>
    (\<forall>j. 0 < j \<and> j < length h \<and> Parent j = i \<and> 0 < i \<longrightarrow> hle m (weight (h ! Parent i)) (weight (h ! j)))"

definition down_inv :: "bool \<Rightarrow> ('w::linorder, 'd) HeapNode list \<Rightarrow> nat \<Rightarrow> bool" where
  "down_inv m h i \<longleftrightarrow>
    (\<forall>j. 0 < j \<and> j < length h \<and> Parent j \<noteq> i \<longrightarrow> hle m (weight (h ! Parent j)) (weight (h ! j))) \<and>
    (\<forall>j. 0 < j \<and> j < length h \<and> Parent j = i \<and> 0 < i \<longrightarrow> hle m (weight (h ! Parent i)) (weight (h ! j)))"

lemma up_inv_step:
  assumes inv: "up_inv m h i" and i: "0 < i" and bad: "hle m (weight (h ! i)) (weight (h ! Parent i))"
  shows "up_inv m (Swap i (Parent i) h) (Parent i)"
proof -
  let ?p = "Parent i" and ?h = "Swap i (Parent i) h"
  have il: "i < length h" and pl: "?p < length h" and pi: "?p < i"
    using inv Parent_less [OF i] by (auto simp: up_inv_def)
  have nth: "?h ! k = (if k = ?p then h ! i else if k = i then h ! ?p else h ! k)" if "k < length h" for k
    using Swap_nth [OF il pl that] .
  have ord: "hle m (weight (h ! Parent j)) (weight (h ! j))" if "0 < j" "j < length h" "j \<noteq> i" for j
    using inv that by (simp add: up_inv_def)
  have grand: "hle m (weight (h ! ?p)) (weight (h ! j))" if "0 < j" "j < length h" "Parent j = i" for j
    using inv that i by (simp add: up_inv_def)
  have 1: "hle m (weight (?h ! Parent j)) (weight (?h ! j))" if j: "0 < j" "j < length h" "j \<noteq> ?p" for j
  proof -
    have pj: "Parent j < length h" using Parent_less [OF j(1)] j(2) by simp
    consider "j = i" | "j \<noteq> i" "Parent j = i" | "j \<noteq> i" "Parent j = ?p" | "j \<noteq> i" "Parent j \<noteq> i" "Parent j \<noteq> ?p"
      by blast
    then show ?thesis
    proof cases
      case 1 then show ?thesis using bad nth [OF j(2)] nth [OF pj] pi by simp
    next
      case 2 then show ?thesis using grand [OF j(1,2)] nth [OF j(2)] nth [OF pj] j(3) pi by simp
    next
      case 3
      then have "hle m (weight (h ! ?p)) (weight (h ! j))" using ord [OF j(1,2)] by simp
      then show ?thesis using hle_trans [OF bad] nth [OF j(2)] nth [OF pj] j(3) 3 by simp
    next
      case 4 then show ?thesis using ord [OF j(1,2)] nth [OF j(2)] nth [OF pj] j(3) by simp
    qed
  qed
  have 2: "hle m (weight (?h ! Parent ?p)) (weight (?h ! j))"
    if j: "0 < j" "j < length h" "Parent j = ?p" "0 < ?p" for j
  proof -
    have pp: "Parent ?p < ?p" by (rule Parent_less [OF j(4)])
    have top: "hle m (weight (h ! Parent ?p)) (weight (h ! ?p))" using ord [OF j(4) pl] pi by simp
    have "?h ! Parent ?p = h ! Parent ?p" using nth [of "Parent ?p"] pp pi pl by simp
    moreover have "hle m (weight (h ! ?p)) (weight (?h ! j))"
      using ord [OF j(1,2)] nth [OF j(2)] j(3) Parent_less [OF j(1)] by (cases "j = i") auto
    ultimately show ?thesis using hle_trans [OF top] by simp
  qed
  show ?thesis unfolding up_inv_def using 1 2 pl by simp
qed

lemma Push_loop_correct:
  assumes "up_inv m h i" "weight (h ! i) = w"
  shows "heap_ordered m (Push_loop m w i h) \<and> mset (Push_loop m w i h) = mset h"
  using assms
proof (induction m w i h rule: Push_loop.induct)
  case (1 m w i h)
  have il: "i < length h" using 1 by (simp add: up_inv_def)
  show ?case
  proof (cases "i = 0")
    case True
    then show ?thesis using 1 by (simp add: up_inv_def heap_ordered_def)
  next
    case False
    then have i: "0 < i" by simp
    have pl: "Parent i < length h" using Parent_less [OF i] il by simp
    show ?thesis
    proof (cases "out_of_order m (weight (h ! Parent i)) w")
      case True
      have "up_inv m (Swap i (Parent i) h) (Parent i)"
        by (rule up_inv_step) (use 1 i True out_of_order_hle in auto)
      moreover have "weight (Swap i (Parent i) h ! Parent i) = w" using 1 Swap_nth [OF il pl pl] by simp
      ultimately show ?thesis
        using 1(1) [OF False True] mset_Swap [OF il pl] False True by (simp del: Push_loop.simps)
          (simp add: Push_loop.simps [of m w i])
    next
      case nb: False
      have "heap_ordered m h"
        using 1(2,3) nb unfolding up_inv_def heap_ordered_def hle_def by metis
      then show ?thesis using False nb by simp
    qed
  qed
qed

lemma Heap_Push_correct:
  assumes "heap_ok m hp"
  shows "heap_ok m (Heap_Push m w d hp)" "heap_mset (Heap_Push m w d hp) = add_mset (HeapNode_of w d) (heap_mset hp)"
proof -
  let ?h = "h_nodes hp @ [HeapNode_of w d]" and ?n = "length (h_nodes hp)"
  have "up_inv m ?h ?n"
    unfolding up_inv_def
  proof (intro conjI allI impI)
    show "hle m (weight (?h ! Parent j)) (weight (?h ! j))" if "0 < j \<and> j < length ?h \<and> j \<noteq> ?n" for j
    proof -
      have "j < ?n" "0 < j" using that by auto
      then show ?thesis
        using assms Parent_less [of j] by (simp add: heap_ok_def heap_ordered_def nth_append)
    qed
    show "hle m (weight (?h ! Parent ?n)) (weight (?h ! j))"
      if "0 < j \<and> j < length ?h \<and> Parent j = ?n \<and> 0 < ?n" for j
      using that Parent_less [of j] by simp
  qed simp
  from Push_loop_correct [OF this, of w]
  show "heap_ok m (Heap_Push m w d hp)" "heap_mset (Heap_Push m w d hp) = add_mset (HeapNode_of w d) (heap_mset hp)"
    by (simp_all add: Heap_Push_def heap_ok_def heap_mset_def HeapNode_of_def del: Push_loop.simps)
qed

section \<open>Removing the root\<close>

lemma down_inv_step:
  assumes inv: "down_inv m h i" and c: "c < length h" "0 < c" "Parent c = i"
    and bad: "hle m (weight (h ! c)) (weight (h ! i))"
    and best: "\<And>j. 0 < j \<Longrightarrow> j < length h \<Longrightarrow> Parent j = i \<Longrightarrow> hle m (weight (h ! c)) (weight (h ! j))"
  shows "down_inv m (Swap c i h) c"
proof -
  let ?h = "Swap c i h"
  have ic: "i < c" using Parent_less [OF c(2)] c(3) by simp
  have il: "i < length h" using ic c(1) by simp
  have nth: "?h ! k = (if k = i then h ! c else if k = c then h ! i else h ! k)" if "k < length h" for k
    using Swap_nth [OF c(1) il that] .
  have ord: "hle m (weight (h ! Parent j)) (weight (h ! j))" if "0 < j" "j < length h" "Parent j \<noteq> i" for j
    using inv that by (simp add: down_inv_def)
  have grand: "hle m (weight (h ! Parent i)) (weight (h ! j))" if "0 < j" "j < length h" "Parent j = i" "0 < i" for j
    using inv that by (simp add: down_inv_def)
  have 1: "hle m (weight (?h ! Parent j)) (weight (?h ! j))" if j: "0 < j" "j < length h" "Parent j \<noteq> c" for j
  proof -
    have pj: "Parent j < length h" using Parent_less [OF j(1)] j(2) by simp
    consider "j = i" | "j \<noteq> i" "Parent j = i" | "j \<noteq> i" "Parent j \<noteq> i" by blast
    then show ?thesis
    proof cases
      case 1
      then have "hle m (weight (h ! Parent i)) (weight (h ! c))" using grand [OF c(2,1,3)] j(1) by simp
      then show ?thesis using 1 nth [OF j(2)] nth [OF pj] Parent_less [OF j(1)] j(3) by simp
    next
      case 2
      then show ?thesis using best [OF j(1,2)] bad nth [OF j(2)] nth [OF pj] by (cases "j = c") auto
    next
      case 3
      then have "j \<noteq> c" using c(3) by auto
      then show ?thesis using 3 ord [OF j(1,2)] nth [OF j(2)] nth [OF pj] j(3) by simp
    qed
  qed
  have 2: "hle m (weight (?h ! Parent c)) (weight (?h ! j))" if j: "0 < j" "j < length h" "Parent j = c" for j
  proof -
    have "j \<noteq> i" "j \<noteq> c" using Parent_less [OF j(1)] j(3) ic by auto
    moreover have "hle m (weight (h ! c)) (weight (h ! j))" using ord [OF j(1,2)] j(3) ic by simp
    ultimately show ?thesis using nth [OF j(2)] nth [OF il] c(3) by simp
  qed
  show ?thesis unfolding down_inv_def using 1 2 by simp
qed

lemma down_inv_done:
  assumes "down_inv m h i" "\<And>j. 0 < j \<Longrightarrow> j < length h \<Longrightarrow> Parent j = i \<Longrightarrow> hle m (weight (h ! i)) (weight (h ! j))"
  shows "heap_ordered m h"
  using assms unfolding down_inv_def heap_ordered_def by metis

lemma children_cases:
  assumes "0 < j" "Parent j = i"
  obtains "j = LeftChild i" | "j = RightChild i"
  using assms Parent_children [of j i] by blast

lemma Pop_loop_correct:
  assumes "down_inv m h i" "i < length h \<Longrightarrow> weight (h ! i) = w"
  shows "heap_ordered m (Pop_loop m w i h) \<and> mset (Pop_loop m w i h) = mset h"
  using assms
proof (induction m w i h rule: Pop_loop.induct)
  case (1 m w i h)
  let ?l = "LeftChild i" and ?r = "RightChild i"
  note unf = Pop_loop.simps [of m w i h, unfolded Let_def]
  have lr: "?l < ?r" "i < ?l" by (simp_all add: LeftChild_def RightChild_def)
  show ?case
  proof (cases "?l < length h")
    case False
    have "heap_ordered m h"
      by (rule down_inv_done [OF 1(3)]) (use False lr in \<open>auto elim!: children_cases\<close>)
    then show ?thesis using False by (simp add: unf del: Pop_loop.simps)
  next
    case l: True
    then have il: "i < length h" and w: "weight (h ! i) = w" using lr 1(4) by auto
    have step: "down_inv m (Swap c i h) c" "mset (Swap c i h) = mset h" "weight (Swap c i h ! c) = w"
      if c: "c < length h" "0 < c" "Parent c = i" and bad: "out_of_order m w (weight (h ! c)) \<or> hle m (weight (h ! c)) w"
        and best: "\<And>j. 0 < j \<Longrightarrow> j < length h \<Longrightarrow> Parent j = i \<Longrightarrow> hle m (weight (h ! c)) (weight (h ! j))" for c
    proof -
      have "hle m (weight (h ! c)) (weight (h ! i))" using bad w out_of_order_hle by auto
      then show "down_inv m (Swap c i h) c" using down_inv_step [OF 1(3) c] best by blast
      show "mset (Swap c i h) = mset h" by (rule mset_Swap [OF c(1) il])
      show "weight (Swap c i h ! c) = w" using Swap_nth [OF c(1) il c(1)] w by simp
    qed
    show ?thesis
    proof (cases "?r < length h")
      case r: False
      have only: "j = ?l" if "0 < j" "j < length h" "Parent j = i" for j
        using that r by (elim children_cases) auto
      show ?thesis
      proof (cases "out_of_order m w (weight (h ! ?l))")
        case True
        have s: "down_inv m (Swap ?l i h) ?l" "mset (Swap ?l i h) = mset h" "weight (Swap ?l i h ! ?l) = w"
          by (rule step; use l True only in \<open>auto simp: children_pos\<close>)+
        have "heap_ordered m (Swap ?l i h)"
          by (rule down_inv_done [OF s(1)])
            (use r in \<open>auto elim!: children_cases simp: LeftChild_def RightChild_def\<close>)
        then show ?thesis using s l r True by (simp add: unf del: Pop_loop.simps)
      next
        case False
        have "heap_ordered m h"
          by (rule down_inv_done [OF 1(3)]) (use False only w in \<open>auto simp: hle_def\<close>)
        then show ?thesis using l r False by (simp add: unf del: Pop_loop.simps)
      qed
    next
      case r: True
      let ?bl = "out_of_order m w (weight (h ! ?l))" and ?br = "out_of_order m w (weight (h ! ?r))"
      show ?thesis
      proof (cases "\<not> ?bl \<and> \<not> ?br")
        case True
        have "heap_ordered m h"
          by (rule down_inv_done [OF 1(3)]) (use True w in \<open>auto simp: hle_def elim!: children_cases\<close>)
        then show ?thesis using l r True by (simp add: unf del: Pop_loop.simps)
      next
        case bad: False
        show ?thesis
        proof (cases "out_of_order m (weight (h ! ?r)) (weight (h ! ?l))")
          case True
          have lr': "hle m (weight (h ! ?l)) (weight (h ! ?r))" using out_of_order_hle [OF True] .
          have "hle m (weight (h ! ?l)) w" using bad lr' out_of_order_hle hle_trans by metis
          then have s: "down_inv m (Swap ?l i h) ?l" "mset (Swap ?l i h) = mset h" "weight (Swap ?l i h ! ?l) = w"
            by - (rule step; use l lr' in \<open>auto simp: children_pos elim!: children_cases\<close>)+
          have "heap_ordered m (Pop_loop m w ?l (Swap ?l i h)) \<and> mset (Pop_loop m w ?l (Swap ?l i h)) = mset (Swap ?l i h)"
            by (rule 1(1) [OF refl refl _ _ bad True]) (use s l r in auto)
          then show ?thesis using s(2) l r bad True by (auto simp: unf simp del: Pop_loop.simps)
        next
          case False
          have rl': "hle m (weight (h ! ?r)) (weight (h ! ?l))" using False by (simp add: hle_def)
          have "hle m (weight (h ! ?r)) w" using bad rl' out_of_order_hle hle_trans by metis
          then have s: "down_inv m (Swap ?r i h) ?r" "mset (Swap ?r i h) = mset h" "weight (Swap ?r i h ! ?r) = w"
            by - (rule step; use r rl' in \<open>auto simp: children_pos elim!: children_cases\<close>)+
          have "heap_ordered m (Pop_loop m w ?r (Swap ?r i h)) \<and> mset (Pop_loop m w ?r (Swap ?r i h)) = mset (Swap ?r i h)"
            by (rule 1(2) [OF refl refl _ _ bad False]) (use s l r in auto)
          then show ?thesis using s(2) l r bad False by (auto simp: unf simp del: Pop_loop.simps)
        qed
      qed
    qed
  qed
qed

lemma heap_root_best: "heap_ordered m h \<Longrightarrow> j < length h \<Longrightarrow> hle m (weight (h ! 0)) (weight (h ! j))"
proof (induction j rule: less_induct)
  case (less j)
  show ?case
  proof (cases "j = 0")
    case False
    then have p: "Parent j < j" using Parent_less by simp
    have "hle m (weight (h ! 0)) (weight (h ! Parent j))" using less p by simp
    moreover have "hle m (weight (h ! Parent j)) (weight (h ! j))" using less False by (simp add: heap_ordered_def)
    ultimately show ?thesis by (rule hle_trans)
  qed simp
qed

lemma Heap_Pop_correct:
  assumes ok: "heap_ok m hp" and ne: "h_nodes hp \<noteq> []"
  shows "heap_ok m (snd (Heap_Pop m 0 hp))"
    and "heap_mset (snd (Heap_Pop m 0 hp)) = heap_mset hp - {#h_nodes hp ! 0#}"
    and "fst (Heap_Pop m 0 hp) = hn_data (h_nodes hp ! 0)"
proof -
  let ?h = "h_nodes hp"
  let ?n = "length ?h - 1"
  let ?h1 = "?h[0 := ?h ! ?n]" and ?h2 = "take ?n (?h[0 := ?h ! ?n])"
  have n: "length ?h = Suc ?n" using ne by (cases ?h) auto
  have nth: "?h2 ! j = (if j = 0 then ?h ! ?n else ?h ! j)" if "j < ?n" for j
    using that ne by (cases ?h) (auto simp: nth_list_update)
  have "down_inv m ?h2 0"
    unfolding down_inv_def
  proof (intro conjI allI impI)
    show "hle m (weight (?h2 ! Parent j)) (weight (?h2 ! j))"
      if "0 < j \<and> j < length ?h2 \<and> Parent j \<noteq> 0" for j
    proof -
      have j: "0 < j" "j < ?n" "Parent j \<noteq> 0" using that by auto
      have "Parent j < ?n" using Parent_less [OF j(1)] j(2) by simp
      then show ?thesis
        using nth j ok by (simp add: heap_ok_def heap_ordered_def)
    qed
  qed simp
  moreover have "weight (?h2 ! 0) = weight (?h1 ! 0)" if "0 < length ?h2" using that by simp
  ultimately have pl: "heap_ordered m (Pop_loop m (weight (?h1 ! 0)) 0 ?h2)"
      "mset (Pop_loop m (weight (?h1 ! 0)) 0 ?h2) = mset ?h2"
    using Pop_loop_correct [of m ?h2 0 "weight (?h1 ! 0)"] by blast+
  show "heap_ok m (snd (Heap_Pop m 0 hp))"
    using pl by (simp add: Heap_Pop_def Let_def heap_ok_def del: Pop_loop.simps)
  have "mset ?h2 = mset ?h - {#?h ! 0#}"
  proof (cases ?h rule: rev_cases)
    case Nil
    then show ?thesis using ne by simp
  next
    case (snoc ys y)
    then show ?thesis by (cases ys) (auto simp: nth_append)
  qed
  then show "heap_mset (snd (Heap_Pop m 0 hp)) = heap_mset hp - {#?h ! 0#}"
    using pl by (simp add: Heap_Pop_def Let_def heap_mset_def del: Pop_loop.simps)
  show "fst (Heap_Pop m 0 hp) = hn_data (?h ! 0)" by (simp add: Heap_Pop_def Let_def)
qed

section \<open>Pushing a series\<close>

text \<open>After \<open>StartSeries\<close>, pushes of weights that follow the heap order keep the heap, although
  the later ones are appended without looking at their parents.\<close>

definition series_ready :: "bool \<Rightarrow> 'w::linorder \<Rightarrow> ('w, 'd) Heap \<Rightarrow> bool" where
  "series_ready m w hp \<longleftrightarrow>
    (optimizeNextSeriesPush hp \<longrightarrow>
       (\<forall>j. Parent (length (h_nodes hp)) \<le> j \<and> j < length (h_nodes hp) \<longrightarrow> hle m (weight (h_nodes hp ! j)) w))"

lemma heap_ordered_append:
  assumes "heap_ordered m h" "h \<noteq> [] \<Longrightarrow> hle m (weight (h ! Parent (length h))) (weight x)"
  shows "heap_ordered m (h @ [x])"
  unfolding heap_ordered_def
proof (intro allI impI)
  fix j assume j: "0 < j \<and> j < length (h @ [x])"
  show "hle m (weight ((h @ [x]) ! Parent j)) (weight ((h @ [x]) ! j))"
  proof (cases "j = length h")
    case True
    then show ?thesis using assms(2) j Parent_less [of j] by (simp add: nth_append)
  next
    case False
    then have "j < length h" using j by simp
    then show ?thesis using assms(1) j Parent_less [of j] by (simp add: heap_ordered_def nth_append)
  qed
qed

lemma Heap_PushSeries_correct:
  assumes ok: "heap_ok m hp" and ready: "series_ready m w hp"
  shows "heap_ok m (Heap_PushSeries m w d hp)"
    and "heap_mset (Heap_PushSeries m w d hp) = add_mset (HeapNode_of w d) (heap_mset hp)"
    and "hle m w w' \<Longrightarrow> series_ready m w' (Heap_PushSeries m w d hp)"
proof -
  let ?h = "h_nodes hp" and ?n = "length (h_nodes hp)"
  let ?app = "hp\<lparr>h_nodes := ?h @ [HeapNode_of w d], optimizeNextSeriesPush := True\<rparr>"
  define blocked where "blocked \<longleftrightarrow> \<not> optimizeNextSeriesPush hp \<and> ?n > 0 \<and>
      list_ex (\<lambda>p. out_of_order m (weight (?h ! p)) w) [Parent ?n..<?n]"
  have eq: "Heap_PushSeries m w d hp = (if blocked then Heap_Push m w d hp else ?app)"
    by (cases hp) (auto simp: Heap_PushSeries_def Let_def blocked_def)
  have below: "hle m (weight (?h ! j)) w" if "\<not> blocked" "Parent ?n \<le> j" "j < ?n" for j
    using that ready by (auto simp: blocked_def series_ready_def list_ex_iff hle_def)
  have app: "heap_ok m ?app" if nb: "\<not> blocked"
    unfolding heap_ok_def
  proof (simp, rule heap_ordered_append)
    show "heap_ordered m ?h" using ok by (simp add: heap_ok_def)
    show "hle m (weight (?h ! Parent ?n)) (weight (HeapNode_of w d))" if "?h \<noteq> []"
      using below [OF nb le_refl] Parent_less [of ?n] that by (simp add: HeapNode_of_def)
  qed
  show "heap_ok m (Heap_PushSeries m w d hp)"
    "heap_mset (Heap_PushSeries m w d hp) = add_mset (HeapNode_of w d) (heap_mset hp)"
    using Heap_Push_correct [OF ok, of w d] app by (auto simp: eq heap_mset_def)
  show "series_ready m w' (Heap_PushSeries m w d hp)" if "hle m w w'"
  proof (cases blocked)
    case True
    then show ?thesis by (simp add: eq series_ready_def Heap_Push_def blocked_def)
  next
    case False
    have "hle m (weight ((?h @ [HeapNode_of w d]) ! j)) w'" if "Parent (Suc ?n) \<le> j" "j < Suc ?n" for j
    proof (cases "j = ?n")
      case True
      then show ?thesis using \<open>hle m w w'\<close> by (simp add: HeapNode_of_def)
    next
      case neq: False
      then have "j < ?n" "Parent ?n \<le> j" using that by (auto simp: Parent_def)
      then show ?thesis using hle_trans [OF below [OF False] \<open>hle m w w'\<close>] by (simp add: nth_append)
    qed
    then show ?thesis using False by (simp add: eq series_ready_def)
  qed
qed

section \<open>The priority queue interface\<close>

primrec drain :: "('q \<Rightarrow> 'w) \<Rightarrow> ('q \<Rightarrow> 'd \<times> 'q) \<Rightarrow> nat \<Rightarrow> 'q \<Rightarrow> ('w \<times> 'd) list" where
  "drain tw pop 0 q = []"
| "drain tw pop (Suc n) q = (tw q, fst (pop q)) # drain tw pop n (snd (pop q))"

locale priority_queue =
  fixes new :: 'q and push :: "'w \<Rightarrow> 'd \<Rightarrow> 'q \<Rightarrow> 'q" and tw :: "'q \<Rightarrow> 'w" and pop :: "'q \<Rightarrow> 'd \<times> 'q"
    and invar :: "'q \<Rightarrow> bool" and elems :: "'q \<Rightarrow> ('w \<times> 'd) multiset" and le :: "'w \<Rightarrow> 'w \<Rightarrow> bool"
  assumes new_law: "invar new" "elems new = {#}"
    and push_law: "invar q \<Longrightarrow> invar (push w d q)" "invar q \<Longrightarrow> elems (push w d q) = add_mset (w, d) (elems q)"
    and pop_law: "invar q \<Longrightarrow> elems q \<noteq> {#} \<Longrightarrow> invar (snd (pop q))"
      "invar q \<Longrightarrow> elems q \<noteq> {#} \<Longrightarrow> elems q = add_mset (tw q, fst (pop q)) (elems (snd (pop q)))"
    and top_law: "invar q \<Longrightarrow> x \<in># elems q \<Longrightarrow> le (tw q) (fst x)"
begin

lemma drain_correct:
  "invar q \<Longrightarrow> n = size (elems q) \<Longrightarrow>
    mset (drain tw pop n q) = elems q \<and> sorted_wrt (\<lambda>a b. le (fst a) (fst b)) (drain tw pop n q)"
proof (induction n arbitrary: q)
  case 0
  then show ?case by simp
next
  case (Suc n)
  have ne: "elems q \<noteq> {#}" using Suc.prems by auto
  let ?r = "snd (pop q)"
  have e: "elems q = add_mset (tw q, fst (pop q)) (elems ?r)" by (rule pop_law(2) [OF Suc.prems(1) ne])
  have "n = size (elems ?r)" using Suc.prems(2) arg_cong [OF e, of size] by simp
  then have IH: "mset (drain tw pop n ?r) = elems ?r"
      "sorted_wrt (\<lambda>a b. le (fst a) (fst b)) (drain tw pop n ?r)"
    using Suc.IH [OF pop_law(1) [OF Suc.prems(1) ne]] by simp_all
  have "\<forall>x \<in> set (drain tw pop n ?r). le (tw q) (fst x)"
  proof
    fix x assume "x \<in> set (drain tw pop n ?r)"
    then have "x \<in># elems ?r" using IH(1) by (metis set_mset_mset)
    then have "x \<in># elems q" using e by simp
    then show "le (tw q) (fst x)" by (rule top_law [OF Suc.prems(1)])
  qed
  then show ?case using IH e by simp
qed

lemma build: "invar (fold (\<lambda>(w, d). push w d) xs new) \<and> elems (fold (\<lambda>(w, d). push w d) xs new) = mset xs"
proof -
  have "invar (fold (\<lambda>(w, d). push w d) xs q) \<and> elems (fold (\<lambda>(w, d). push w d) xs q) = elems q + mset xs"
    if "invar q" for q
    using that by (induction xs arbitrary: q) (auto simp: push_law)
  then show ?thesis using new_law by simp
qed

lemma sort_by_queue:
  "mset (drain tw pop (length xs) (fold (\<lambda>(w, d). push w d) xs new)) = mset xs \<and>
   sorted_wrt (\<lambda>a b. le (fst a) (fst b)) (drain tw pop (length xs) (fold (\<lambda>(w, d). push w d) xs new))"
proof -
  let ?q = "fold (\<lambda>(w, d). push w d) xs new"
  have b: "invar ?q" "elems ?q = mset xs" using build [of xs] by simp_all
  have "mset (drain tw pop (length xs) ?q) = elems ?q \<and>
      sorted_wrt (\<lambda>a b. le (fst a) (fst b)) (drain tw pop (length xs) ?q)"
    by (rule drain_correct [OF b(1)]) (simp add: b(2))
  then show ?thesis by (simp only: b(2))
qed

end

definition heap_elems :: "('w, 'd) Heap \<Rightarrow> ('w \<times> 'd) multiset" where
  "heap_elems hp = image_mset (\<lambda>n. (weight n, hn_data n)) (heap_mset hp)"

lemma heap_size_elems: "Heap_Size hp = size (heap_elems hp)"
  by (simp add: Heap_Size_def heap_elems_def heap_mset_def)

interpretation hq: priority_queue Heap_new "Heap_Push m" "Heap_PeekWeight 0" "Heap_Pop m 0" "heap_ok m" heap_elems
  "hle m" for m :: bool
proof unfold_locales
  show "heap_ok m Heap_new" by (simp add: heap_ok_def Heap_new_def heap_ordered_def)
  show "heap_elems (Heap_new :: ('w::linorder, 'd) Heap) = {#}" by (simp add: heap_elems_def heap_mset_def Heap_new_def)
  fix q :: "('w::linorder, 'd) Heap" and w d x
  assume ok: "heap_ok m q"
  show "heap_ok m (Heap_Push m w d q)" by (rule Heap_Push_correct(1) [OF ok])
  show "heap_elems (Heap_Push m w d q) = add_mset (w, d) (heap_elems q)"
    by (simp add: heap_elems_def Heap_Push_correct(2) [OF ok] HeapNode_of_def)
  show "hle m (Heap_PeekWeight 0 q) (fst x)" if "x \<in># heap_elems q"
    using that heap_root_best [of m "h_nodes q"] ok
    by (auto simp: heap_elems_def heap_mset_def heap_ok_def Heap_PeekWeight_def in_set_conv_nth)
  assume "heap_elems q \<noteq> {#}"
  then have ne: "h_nodes q \<noteq> []" by (simp add: heap_elems_def heap_mset_def)
  show "heap_ok m (snd (Heap_Pop m 0 q))" by (rule Heap_Pop_correct(1) [OF ok ne])
  have "h_nodes q ! 0 \<in># heap_mset q" using ne by (simp add: heap_mset_def)
  then have e: "add_mset (h_nodes q ! 0) (heap_mset (snd (Heap_Pop m 0 q))) = heap_mset q"
    unfolding Heap_Pop_correct(2) [OF ok ne] by (rule insert_DiffM)
  show "heap_elems q = add_mset (Heap_PeekWeight 0 q, fst (Heap_Pop m 0 q)) (heap_elems (snd (Heap_Pop m 0 q)))"
    unfolding heap_elems_def Heap_PeekWeight_def Heap_Pop_correct(3) [OF ok ne] e [symmetric]
    by (simp only: image_mset_add_mset)
qed

section \<open>Properties\<close>

text \<open>The heap is a priority queue in either direction: whatever is pushed comes out again,
  each entry once, in the order of the weights.\<close>

theorem Heap_pops_in_order:
  "mset (drain (Heap_PeekWeight 0) (Heap_Pop m 0) (length xs) (fold (\<lambda>(w, d). Heap_Push m w d) xs Heap_new)) = mset xs \<and>
   sorted_wrt (\<lambda>a b. if m then fst b \<le> fst a else fst a \<le> fst b)
     (drain (Heap_PeekWeight 0) (Heap_Pop m 0) (length xs) (fold (\<lambda>(w, d). Heap_Push m w d) xs Heap_new))"
proof -
  have "hle m a b = (if m then b \<le> a else a \<le> b)" for a b :: 'a
    by (auto simp: hle_def out_of_order_def)
  then show ?thesis using hq.sort_by_queue [of m xs] by simp
qed

text \<open>Pushing a series with \<open>PushSeries\<close> after \<open>StartSeries\<close>, with weights that follow the heap
  order, keeps the heap order and adds exactly the pushed entries, although most of them
  are appended without being sifted.\<close>

theorem Heap_PushSeries_keeps_order:
  assumes "heap_ok m hp" "sorted_wrt (\<lambda>a b. hle m (fst a) (fst b)) xs"
  shows "heap_ok m (fold (\<lambda>(w, d). Heap_PushSeries m w d) xs (Heap_StartSeries hp)) \<and>
    heap_elems (fold (\<lambda>(w, d). Heap_PushSeries m w d) xs (Heap_StartSeries hp)) = heap_elems hp + mset xs"
proof -
  have "heap_ok m (fold (\<lambda>(w, d). Heap_PushSeries m w d) xs hp) \<and>
      heap_elems (fold (\<lambda>(w, d). Heap_PushSeries m w d) xs hp) = heap_elems hp + mset xs"
    if "heap_ok m hp" "xs \<noteq> [] \<longrightarrow> series_ready m (fst (hd xs)) hp" for hp :: "('a, 'b) Heap"
    using assms(2) that
  proof (induction xs arbitrary: hp)
    case (Cons x xs)
    obtain w d where x: "x = (w, d)" by force
    have r: "series_ready m w hp" using Cons.prems(3) x by simp
    note p = Heap_PushSeries_correct [OF Cons.prems(2) r, where d = d]
    have "xs \<noteq> [] \<longrightarrow> series_ready m (fst (hd xs)) (Heap_PushSeries m w d hp)"
    proof
      assume "xs \<noteq> []"
      then have "hle m w (fst (hd xs))" using Cons.prems(1) x by simp
      then show "series_ready m (fst (hd xs)) (Heap_PushSeries m w d hp)" by (rule p(3))
    qed
    then show ?case
      using Cons.IH [OF _ p(1)] Cons.prems(1) x p(2) by (simp add: heap_elems_def HeapNode_of_def)
  qed simp
  from this [of "Heap_StartSeries hp"] show ?thesis
    using assms(1) by (simp add: Heap_StartSeries_def heap_ok_def series_ready_def heap_elems_def heap_mset_def)
qed

theorem Heap_PushSeries_keeps_order_witness:
  "heap_ok False (fold (\<lambda>(w, d). Heap_PushSeries False w d) [(1, ''a''), (2, ''b''), (5 :: nat, ''c'')]
     (Heap_StartSeries Heap_new))"
  using Heap_PushSeries_keeps_order [of False Heap_new "[(1, ''a''), (2, ''b''), (5 :: nat, ''c'')]"]
  by (simp only: hq.new_law sorted_wrt.simps) (simp add: hle_def out_of_order_def)

end
