(* ===== verification/BitStream_Model.thy ===== *)
theory BitStream_Model
  imports Prelude
begin

text \<open>
  The bit stream of \<^verbatim>\<open>bit_stream.h\<close> / \<^verbatim>\<open>bit_stream.cpp\<close>, operation by operation, on its byte
  buffer.  \<open>numberOfBitsUsed\<close>, \<open>numberOfBitsAllocated\<close> and \<open>readOffset\<close> are the 32 bit counters
  of the class; \<open>w32\<close> writes their wrap-around out.  \<open>bs_data\<close> is the buffer \<^verbatim>\<open>data\<close> points to,
  \<open>bs_stack\<close> says that it is the embedded \<^verbatim>\<open>stackData\<close>, and \<open>bs_fresh\<close> gives the arbitrary
  contents of memory that \<^verbatim>\<open>rakMalloc_Ex\<close> and \<^verbatim>\<open>rakRealloc_Ex\<close> return (allocation is assumed to
  succeed).  The model is for a little-endian host without \<^verbatim>\<open>__BITSTREAM_NATIVE_END\<close>, the
  configuration \<^verbatim>\<open>defines.h\<close> ships: \<^verbatim>\<open>IsBigEndian()\<close> is false and \<^verbatim>\<open>DoEndianSwap()\<close> true.
  A read operation returns the value, if it succeeds, and the stream with its read offset.
\<close>

section \<open>The class and its buffer\<close>

record BitStream =
  numberOfBitsUsed :: nat
  numberOfBitsAllocated :: nat
  readOffset :: nat
  bs_data :: "u8 list"
  bs_stack :: bool
  copyData :: bool
  bs_fresh :: "nat \<Rightarrow> u8"

definition w32 :: "nat \<Rightarrow> nat" where
  "w32 x = x mod 4294967296"

definition BITS_TO_BYTES :: "nat \<Rightarrow> nat" where
  "BITS_TO_BYTES x = w32 (x + 7) div 8"

definition BYTES_TO_BITS :: "nat \<Rightarrow> nat" where
  "BYTES_TO_BITS x = w32 (x * 8)"

definition BITSTREAM_STACK_ALLOCATION_SIZE :: nat where
  "BITSTREAM_STACK_ALLOCATION_SIZE = 256"

definition BitStream_new :: "(nat \<Rightarrow> u8) \<Rightarrow> BitStream" where
  "BitStream_new fresh =
    \<lparr>numberOfBitsUsed = 0, numberOfBitsAllocated = BITSTREAM_STACK_ALLOCATION_SIZE * 8, readOffset = 0,
     bs_data = map fresh [0..<BITSTREAM_STACK_ALLOCATION_SIZE], bs_stack = True, copyData = True,
     bs_fresh = fresh\<rparr>"

definition BitStream_new_sized :: "(nat \<Rightarrow> u8) \<Rightarrow> nat \<Rightarrow> BitStream" where
  "BitStream_new_sized fresh initialBytesToAllocate =
    (if initialBytesToAllocate \<le> BITSTREAM_STACK_ALLOCATION_SIZE then BitStream_new fresh
     else \<lparr>numberOfBitsUsed = 0, numberOfBitsAllocated = BYTES_TO_BITS initialBytesToAllocate,
           readOffset = 0, bs_data = map fresh [0..<initialBytesToAllocate], bs_stack = False,
           copyData = True, bs_fresh = fresh\<rparr>)"

definition BitStream_of :: "(nat \<Rightarrow> u8) \<Rightarrow> u8 list \<Rightarrow> bool \<Rightarrow> BitStream" where
  "BitStream_of fresh bytes copy =
    (let lengthInBytes = length bytes;
         onStack = (copy \<and> 0 < lengthInBytes \<and> lengthInBytes < BITSTREAM_STACK_ALLOCATION_SIZE)
     in \<lparr>numberOfBitsUsed = BYTES_TO_BITS lengthInBytes,
         numberOfBitsAllocated = (if onStack then BITSTREAM_STACK_ALLOCATION_SIZE * 8
                                  else BYTES_TO_BITS lengthInBytes),
         readOffset = 0,
         bs_data = (if onStack then bytes @ map fresh [lengthInBytes..<BITSTREAM_STACK_ALLOCATION_SIZE]
                    else bytes),
         bs_stack = onStack, copyData = copy, bs_fresh = fresh\<rparr>)"

definition SetNumberOfBitsAllocated :: "nat \<Rightarrow> BitStream \<Rightarrow> BitStream" where
  "SetNumberOfBitsAllocated lengthInBits bs = bs\<lparr>numberOfBitsAllocated := lengthInBits\<rparr>"

definition BitStream_Reset :: "BitStream \<Rightarrow> BitStream" where
  "BitStream_Reset bs = bs\<lparr>numberOfBitsUsed := 0, readOffset := 0\<rparr>"

definition ResetReadPointer :: "BitStream \<Rightarrow> BitStream" where
  "ResetReadPointer bs = bs\<lparr>readOffset := 0\<rparr>"

definition ResetWritePointer :: "BitStream \<Rightarrow> BitStream" where
  "ResetWritePointer bs = bs\<lparr>numberOfBitsUsed := 0\<rparr>"

definition SetReadOffset :: "nat \<Rightarrow> BitStream \<Rightarrow> BitStream" where
  "SetReadOffset newReadOffset bs = bs\<lparr>readOffset := newReadOffset\<rparr>"

definition SetWriteOffset :: "nat \<Rightarrow> BitStream \<Rightarrow> BitStream" where
  "SetWriteOffset offset bs = bs\<lparr>numberOfBitsUsed := offset\<rparr>"

definition IgnoreBits :: "nat \<Rightarrow> BitStream \<Rightarrow> BitStream" where
  "IgnoreBits numberOfBits bs = bs\<lparr>readOffset := w32 (readOffset bs + numberOfBits)\<rparr>"

definition IgnoreBytes :: "nat \<Rightarrow> BitStream \<Rightarrow> BitStream" where
  "IgnoreBytes numberOfBytes bs = IgnoreBits (BYTES_TO_BITS numberOfBytes) bs"

definition GetNumberOfBytesUsed :: "BitStream \<Rightarrow> nat" where
  "GetNumberOfBytesUsed bs = BITS_TO_BYTES (numberOfBitsUsed bs)"

definition GetNumberOfUnreadBits :: "BitStream \<Rightarrow> nat" where
  "GetNumberOfUnreadBits bs =
    (if readOffset bs > numberOfBitsUsed bs then 0 else numberOfBitsUsed bs - readOffset bs)"

section \<open>Memory\<close>

definition resize :: "(nat \<Rightarrow> u8) \<Rightarrow> nat \<Rightarrow> u8 list \<Rightarrow> u8 list" where
  "resize fresh n xs = take n xs @ map fresh [length xs..<n]"

definition AddBitsAndReallocate :: "nat \<Rightarrow> BitStream \<Rightarrow> BitStream" where
  "AddBitsAndReallocate numberOfBitsToWrite bs =
    (let total = w32 (numberOfBitsToWrite + numberOfBitsUsed bs);
         allocated = numberOfBitsAllocated bs
     in if total > 0 \<and> w32 (allocated + 4294967295) div 8 < w32 (total + 4294967295) div 8 then
          let doubled = w32 (total * 2);
              new = (if w32 (doubled + (4294967296 - total)) > 1048576 then w32 (total + 1048576)
                     else doubled);
              amountToAllocate = BITS_TO_BYTES new;
              bs1 = (if bs_stack bs then
                       (if amountToAllocate > BITSTREAM_STACK_ALLOCATION_SIZE then
                          bs\<lparr>bs_data := resize (bs_fresh bs) amountToAllocate
                                            (take (BITS_TO_BYTES allocated) (bs_data bs)),
                             bs_stack := False\<rparr>
                        else bs)
                     else bs\<lparr>bs_data := resize (bs_fresh bs) amountToAllocate (bs_data bs)\<rparr>)
          in if new > allocated then bs1\<lparr>numberOfBitsAllocated := new\<rparr> else bs1
        else if total > allocated then bs\<lparr>numberOfBitsAllocated := total\<rparr> else bs)"

definition memcpy_at :: "nat \<Rightarrow> u8 list \<Rightarrow> u8 list \<Rightarrow> u8 list" where
  "memcpy_at off src dst = take off dst @ src @ drop (off + length src) dst"

definition AlignWriteToByteBoundary :: "BitStream \<Rightarrow> BitStream" where
  "AlignWriteToByteBoundary bs =
    bs\<lparr>numberOfBitsUsed :=
        w32 (numberOfBitsUsed bs + (8 - (w32 (numberOfBitsUsed bs + 4294967295) mod 8 + 1)))\<rparr>"

definition AlignReadToByteBoundary :: "BitStream \<Rightarrow> BitStream" where
  "AlignReadToByteBoundary bs =
    bs\<lparr>readOffset := w32 (readOffset bs + (8 - (w32 (readOffset bs + 4294967295) mod 8 + 1)))\<rparr>"

section \<open>Writing and reading bits\<close>

fun WriteBits_loop :: "nat \<Rightarrow> bool \<Rightarrow> u8 list \<Rightarrow> nat \<Rightarrow> nat \<Rightarrow> u8 list \<Rightarrow> u8 list \<times> nat" where
  "WriteBits_loop mod8 rightAlignedBits [] n used data = (data, used)"
| "WriteBits_loop mod8 rightAlignedBits (b # inputs) n used data =
    (if n = 0 then (data, used)
     else
       let dataByte = (if n < 8 \<and> rightAlignedBits then push_bit (8 - n) b else b);
           data1 = (if mod8 = 0 then data[used div 8 := dataByte]
                    else
                      let first = data[used div 8 := data ! (used div 8) OR drop_bit mod8 dataByte]
                      in if 8 - mod8 < 8 \<and> 8 - mod8 < n
                         then first[used div 8 + 1 := push_bit (8 - mod8) dataByte]
                         else first)
       in if n \<ge> 8 then WriteBits_loop mod8 rightAlignedBits inputs (n - 8) (used + 8) data1
          else (data1, used + n))"

definition WriteBits :: "u8 list \<Rightarrow> nat \<Rightarrow> bool \<Rightarrow> BitStream \<Rightarrow> BitStream" where
  "WriteBits inByteArray numberOfBitsToWrite rightAlignedBits bs0 =
    (let bs = AddBitsAndReallocate numberOfBitsToWrite bs0;
         mod8 = numberOfBitsUsed bs mod 8
     in if mod8 = 0 \<and> numberOfBitsToWrite mod 8 = 0 then
          bs\<lparr>bs_data := memcpy_at (numberOfBitsUsed bs div 8)
                          (take (numberOfBitsToWrite div 8) inByteArray) (bs_data bs),
             numberOfBitsUsed := w32 (numberOfBitsUsed bs + numberOfBitsToWrite)\<rparr>
        else
          let (data, used) = WriteBits_loop mod8 rightAlignedBits inByteArray numberOfBitsToWrite
                               (numberOfBitsUsed bs) (bs_data bs)
          in bs\<lparr>bs_data := data, numberOfBitsUsed := w32 used\<rparr>)"

fun ReadBits_loop :: "nat \<Rightarrow> bool \<Rightarrow> u8 list \<Rightarrow> nat \<Rightarrow> nat \<Rightarrow> u8 list" where
  "ReadBits_loop mod8 alignBitsToRight data n offset =
    (if n = 0 then []
     else
       let first = push_bit mod8 (data ! (offset div 8));
           b = (if mod8 > 0 \<and> n > 8 - mod8
                then first OR drop_bit (8 - mod8) (data ! (offset div 8 + 1)) else first)
       in if n \<ge> 8 then b # ReadBits_loop mod8 alignBitsToRight data (n - 8) (offset + 8)
          else [if alignBitsToRight then drop_bit (8 - n) b else b])"

definition ReadBits :: "nat \<Rightarrow> bool \<Rightarrow> BitStream \<Rightarrow> u8 list option \<times> BitStream" where
  "ReadBits numberOfBitsToRead alignBitsToRight bs =
    (if numberOfBitsToRead = 0 then (None, bs)
     else if GetNumberOfUnreadBits bs < numberOfBitsToRead then (None, bs)
     else
       let mod8 = readOffset bs mod 8;
           bs' = bs\<lparr>readOffset := w32 (readOffset bs + numberOfBitsToRead)\<rparr>
       in if mod8 = 0 \<and> numberOfBitsToRead mod 8 = 0
          then (Some (take (numberOfBitsToRead div 8) (drop (readOffset bs div 8) (bs_data bs))), bs')
          else (Some (ReadBits_loop mod8 alignBitsToRight (bs_data bs) numberOfBitsToRead (readOffset bs)), bs'))"

definition Write0 :: "BitStream \<Rightarrow> BitStream" where
  "Write0 bs0 =
    (let bs = AddBitsAndReallocate 1 bs0;
         i = numberOfBitsUsed bs div 8
     in bs\<lparr>bs_data := (if numberOfBitsUsed bs mod 8 = 0 then (bs_data bs)[i := 0] else bs_data bs),
           numberOfBitsUsed := w32 (numberOfBitsUsed bs + 1)\<rparr>)"

definition Write1 :: "BitStream \<Rightarrow> BitStream" where
  "Write1 bs0 =
    (let bs = AddBitsAndReallocate 1 bs0;
         mod8 = numberOfBitsUsed bs mod 8;
         i = numberOfBitsUsed bs div 8
     in bs\<lparr>bs_data := (if mod8 = 0 then (bs_data bs)[i := 0x80]
                       else (bs_data bs)[i := bs_data bs ! i OR drop_bit mod8 0x80]),
           numberOfBitsUsed := w32 (numberOfBitsUsed bs + 1)\<rparr>)"

definition Write_bool :: "bool \<Rightarrow> BitStream \<Rightarrow> BitStream" where
  "Write_bool b bs = (if b then Write1 bs else Write0 bs)"

definition stream_bit :: "u8 list \<Rightarrow> nat \<Rightarrow> bool" where
  "stream_bit data p = (data ! (p div 8) AND drop_bit (p mod 8) 0x80 \<noteq> 0)"

definition ReadBit :: "BitStream \<Rightarrow> bool \<times> BitStream" where
  "ReadBit bs =
    (if GetNumberOfUnreadBits bs = 0 then (False, bs)
     else (stream_bit (bs_data bs) (readOffset bs), bs\<lparr>readOffset := w32 (readOffset bs + 1)\<rparr>))"

definition Read_bool :: "BitStream \<Rightarrow> bool option \<times> BitStream" where
  "Read_bool bs =
    (if GetNumberOfUnreadBits bs = 0 then (None, bs)
     else (Some (stream_bit (bs_data bs) (readOffset bs)),
           bs\<lparr>readOffset := w32 (readOffset bs + 1)\<rparr>))"

section \<open>Byte arrays\<close>

definition Write_bytes :: "u8 list \<Rightarrow> BitStream \<Rightarrow> BitStream" where
  "Write_bytes inputByteArray bs0 =
    (let numberOfBytes = length inputByteArray
     in if numberOfBytes = 0 then bs0
        else if numberOfBitsUsed bs0 mod 8 = 0 then
          let bs = AddBitsAndReallocate (BYTES_TO_BITS numberOfBytes) bs0
          in bs\<lparr>bs_data := memcpy_at (BITS_TO_BYTES (numberOfBitsUsed bs)) inputByteArray (bs_data bs),
                numberOfBitsUsed := w32 (numberOfBitsUsed bs + BYTES_TO_BITS numberOfBytes)\<rparr>
        else WriteBits inputByteArray (w32 (numberOfBytes * 8)) True bs0)"

definition Read_bytes :: "nat \<Rightarrow> BitStream \<Rightarrow> u8 list option \<times> BitStream" where
  "Read_bytes numberOfBytes bs =
    (if numberOfBytes * 8 > GetNumberOfUnreadBits bs then (None, bs)
     else if readOffset bs mod 8 = 0 then
       (Some (take numberOfBytes (drop (readOffset bs div 8) (bs_data bs))),
        bs\<lparr>readOffset := w32 (readOffset bs + BYTES_TO_BITS numberOfBytes)\<rparr>)
     else ReadBits (w32 (numberOfBytes * 8)) True bs)"

definition WriteAlignedBytes :: "u8 list \<Rightarrow> BitStream \<Rightarrow> BitStream" where
  "WriteAlignedBytes inByteArray bs = Write_bytes inByteArray (AlignWriteToByteBoundary bs)"

definition ReadAlignedBytes :: "nat \<Rightarrow> BitStream \<Rightarrow> u8 list option \<times> BitStream" where
  "ReadAlignedBytes numberOfBytesToRead bs0 =
    (if numberOfBytesToRead = 0 then (None, bs0)
     else
       let bs = AlignReadToByteBoundary bs0
       in if numberOfBytesToRead * 8 > GetNumberOfUnreadBits bs then (None, bs)
          else (Some (take numberOfBytesToRead (drop (readOffset bs div 8) (bs_data bs))),
                bs\<lparr>readOffset := w32 (readOffset bs + BYTES_TO_BITS numberOfBytesToRead)\<rparr>))"

definition PadWithZeroToByteLength :: "nat \<Rightarrow> BitStream \<Rightarrow> BitStream" where
  "PadWithZeroToByteLength bytes bs0 =
    (if GetNumberOfBytesUsed bs0 < bytes then
       let bs1 = AlignWriteToByteBoundary bs0;
           numToWrite = bytes - GetNumberOfBytesUsed bs1;
           bs = AddBitsAndReallocate (BYTES_TO_BITS numToWrite) bs1
       in bs\<lparr>bs_data := memcpy_at (BITS_TO_BYTES (numberOfBitsUsed bs)) (replicate numToWrite 0) (bs_data bs),
             numberOfBitsUsed := w32 (numberOfBitsUsed bs + BYTES_TO_BITS numToWrite)\<rparr>
     else bs0)"

section \<open>Integers\<close>

definition ReverseBytes :: "u8 list \<Rightarrow> u8 list" where
  "ReverseBytes inByteArray =
    map (\<lambda>i. inByteArray ! (length inByteArray - i - 1)) [0..<length inByteArray]"

definition le_bytes :: "'a::len word \<Rightarrow> u8 list" where
  "le_bytes w = map (\<lambda>i. ucast (drop_bit (8 * i) w)) [0..<LENGTH('a) div 8]"

fun of_le_bytes :: "u8 list \<Rightarrow> 'a::len word" where
  "of_le_bytes [] = 0"
| "of_le_bytes (b # bs) = ucast b OR push_bit 8 (of_le_bytes bs)"

definition Write_int :: "'a::len word \<Rightarrow> BitStream \<Rightarrow> BitStream" where
  "Write_int inTemplateVar bs =
    (if LENGTH('a) div 8 = 1 then WriteBits (le_bytes inTemplateVar) (LENGTH('a) div 8 * 8) True bs
     else WriteBits (ReverseBytes (le_bytes inTemplateVar)) (LENGTH('a) div 8 * 8) True bs)"

definition Read_int :: "BitStream \<Rightarrow> 'a::len word option \<times> BitStream" where
  "Read_int bs =
    (let (r, bs') = ReadBits (LENGTH('a) div 8 * 8) True bs
     in case r of
          None \<Rightarrow> (None, bs')
        | Some output \<Rightarrow>
            (Some (of_le_bytes (if LENGTH('a) div 8 = 1 then output else ReverseBytes output)), bs'))"

definition Write_uint24 :: "u24 \<Rightarrow> BitStream \<Rightarrow> BitStream" where
  "Write_uint24 v bs0 =
    (let bs = AddBitsAndReallocate 24 (AlignWriteToByteBoundary bs0);
         i = numberOfBitsUsed bs div 8;
         val = le_bytes (ucast v :: u32)
     in bs\<lparr>bs_data := (bs_data bs)[i := val ! 0, i + 1 := val ! 1, i + 2 := val ! 2],
           numberOfBitsUsed := w32 (numberOfBitsUsed bs + 24)\<rparr>)"

definition Read_uint24 :: "BitStream \<Rightarrow> u24 option \<times> BitStream" where
  "Read_uint24 bs0 =
    (let bs = AlignReadToByteBoundary bs0;
         i = readOffset bs div 8
     in if GetNumberOfUnreadBits bs < 24 then (None, bs)
        else (Some (ucast (of_le_bytes [bs_data bs ! i, bs_data bs ! (i + 1), bs_data bs ! (i + 2), 0] :: u32)),
              bs\<lparr>readOffset := w32 (readOffset bs + 24)\<rparr>))"

section \<open>Writing one stream into another\<close>

fun Write_stream_bits :: "nat \<Rightarrow> u8 list \<Rightarrow> nat \<Rightarrow> nat \<Rightarrow> u8 list \<Rightarrow> nat \<times> nat \<times> u8 list" where
  "Write_stream_bits 0 src ro used data = (ro, used, data)"
| "Write_stream_bits (Suc n) src ro used data =
    (let mod8 = used mod 8;
         b = stream_bit src ro;
         data' = (if mod8 = 0 then data[used div 8 := (if b then 0x80 else 0)]
                  else if b then data[used div 8 := data ! (used div 8) OR drop_bit mod8 0x80]
                  else data)
     in Write_stream_bits n src (ro + 1) (used + 1) data')"

definition Write_stream :: "BitStream \<Rightarrow> nat \<Rightarrow> BitStream \<Rightarrow> BitStream \<times> BitStream" where
  "Write_stream src0 numberOfBits0 bs0 =
    (if numberOfBits0 > GetNumberOfUnreadBits src0 then (src0, bs0)
     else
       let bs1 = AddBitsAndReallocate numberOfBits0 bs0;
           (numberOfBits, src, bs) =
             (if readOffset src0 mod 8 = 0 \<and> numberOfBitsUsed bs1 mod 8 = 0 then
                let readOffsetBytes = readOffset src0 div 8;
                    numBytes = numberOfBits0 div 8
                in (numberOfBits0 - numBytes * 8,
                    SetReadOffset ((numBytes + readOffsetBytes) * 8) src0,
                    bs1\<lparr>bs_data := memcpy_at (numberOfBitsUsed bs1 div 8)
                                    (take numBytes (drop readOffsetBytes (bs_data src0))) (bs_data bs1),
                        numberOfBitsUsed := numberOfBitsUsed bs1 + numBytes * 8\<rparr>)
              else (numberOfBits0, src0, bs1));
           (ro, used, data) =
             Write_stream_bits numberOfBits (bs_data src) (readOffset src) (numberOfBitsUsed bs) (bs_data bs)
       in (src\<lparr>readOffset := ro\<rparr>, bs\<lparr>numberOfBitsUsed := used, bs_data := data\<rparr>))"

end
