(* ===== verification/BitStream_Laws.thy ===== *)
theory BitStream_Laws
  imports BitStream_Model
begin

text \<open>
  What the bit stream does, in terms of the sequence of bits it holds.  \<open>bs_bits\<close> reads the
  written bits off the buffer, most significant bit of a byte first; \<open>bs_ok\<close> is the memory
  invariant (every bit in use lies in allocated memory) and \<open>bs_clean\<close> says that the unused
  low bits of the last byte are zero, which the writers that \<^verbatim>\<open>|=\<close> into that byte rely on.
  Writers append bits, readers return the bits at the read offset, and the round-trip lemmas
  follow.  All lemmas hold for arbitrary contents of fresh memory; streams are bounded by
  \<open>bs_limit\<close> bits, half of what the 32 bit counters can address, which the doubling of the
  buffer needs.
\<close>

section \<open>Bits of a byte buffer\<close>

definition dbit :: "u8 list \<Rightarrow> nat \<Rightarrow> bool" where
  "dbit data p = bit (data ! (p div 8)) (7 - p mod 8)"

definition bs_bits :: "BitStream \<Rightarrow> bool list" where
  "bs_bits bs = map (dbit (bs_data bs)) [0..<numberOfBitsUsed bs]"

definition bs_limit :: nat where
  "bs_limit = 1073741824"

definition bs_ok :: "BitStream \<Rightarrow> bool" where
  "bs_ok bs \<longleftrightarrow>
    0 < numberOfBitsAllocated bs \<and> numberOfBitsAllocated bs < 2147483648 \<and>
    (numberOfBitsUsed bs + 7) div 8 \<le> (numberOfBitsAllocated bs + 7) div 8 \<and>
    (numberOfBitsAllocated bs + 7) div 8 \<le> length (bs_data bs) \<and>
    (bs_stack bs \<longrightarrow> length (bs_data bs) = 256)"

definition pad_clean :: "u8 list \<Rightarrow> nat \<Rightarrow> bool" where
  "pad_clean data used \<longleftrightarrow> (\<forall>p. used \<le> p \<and> p < (used + 7) div 8 * 8 \<longrightarrow> \<not> dbit data p)"

definition bs_clean :: "BitStream \<Rightarrow> bool" where
  "bs_clean bs \<longleftrightarrow> pad_clean (bs_data bs) (numberOfBitsUsed bs)"

definition bs_inv :: "BitStream \<Rightarrow> bool" where
  "bs_inv bs \<longleftrightarrow> bs_ok bs \<and> bs_clean bs"

lemma length_bs_bits [simp]: "length (bs_bits bs) = numberOfBitsUsed bs"
  by (simp add: bs_bits_def)

lemma w32_id [simp]: "x < 4294967296 \<Longrightarrow> w32 x = x"
  by (simp add: w32_def)

lemma bit_0x80: "bit (0x80 :: u8) n \<longleftrightarrow> n = 7"
proof -
  have "(0x80 :: u8) = 2 ^ 7" by simp
  then show ?thesis by (simp only: bit_exp_iff) auto
qed

lemma bit_and_0x80:
  assumes "k < 8"
  shows "(x AND drop_bit k 0x80 \<noteq> 0) = bit (x :: u8) (7 - k)"
proof -
  have "drop_bit k (0x80 :: u8) = push_bit (7 - k) 1"
  proof (rule bit_eqI)
    fix n
    show "bit (drop_bit k (0x80 :: u8)) n \<longleftrightarrow> bit (push_bit (7 - k) (1 :: u8)) n"
      unfolding bit_drop_bit_eq o_apply bit_0x80 bit_push_bit_iff bit_1_iff using assms by auto
  qed
  then show ?thesis by (simp only: bit_iff_and_push_bit_not_eq_0)
qed

lemma stream_bit_dbit: "stream_bit data p = dbit data p"
  by (simp add: stream_bit_def dbit_def bit_and_0x80)

lemma ceil_div8: "0 < x \<Longrightarrow> (x + 7) div 8 = Suc ((x - 1) div 8)"
  by (cases x) simp_all

section \<open>Allocation\<close>

lemma length_resize [simp]: "length (resize fresh n xs) = n"
  by (simp add: resize_def)

lemma nth_resize: "j < length xs \<Longrightarrow> j < n \<Longrightarrow> resize fresh n xs ! j = xs ! j"
  by (simp add: resize_def nth_append)

lemma AddBits_frame [simp]:
  "numberOfBitsUsed (AddBitsAndReallocate n bs) = numberOfBitsUsed bs"
  "readOffset (AddBitsAndReallocate n bs) = readOffset bs"
  "bs_fresh (AddBitsAndReallocate n bs) = bs_fresh bs"
  by (simp_all add: AddBitsAndReallocate_def Let_def)

lemma AddBits_no_alloc:
  assumes "bs_ok bs" "n + numberOfBitsUsed bs \<le> bs_limit"
    and "(n + numberOfBitsUsed bs + 7) div 8 \<le> (numberOfBitsAllocated bs + 7) div 8"
  shows "AddBitsAndReallocate n bs =
    bs\<lparr>numberOfBitsAllocated := max (n + numberOfBitsUsed bs) (numberOfBitsAllocated bs)\<rparr>"
proof -
  define tot where "tot = n + numberOfBitsUsed bs"
  let ?a = "numberOfBitsAllocated bs"
  have a: "0 < ?a" "?a < 2147483648" "tot \<le> 1073741824"
    using assms by (simp_all add: bs_ok_def tot_def bs_limit_def)
  have w: "w32 (?a + 4294967295) = ?a - 1" "w32 tot = tot"
    using a by (simp_all add: w32_def mod_if)
  have guard: "\<not> (tot > 0 \<and> w32 (?a + 4294967295) div 8 < w32 (tot + 4294967295) div 8)"
  proof (cases "tot = 0")
    case False
    then have "w32 (tot + 4294967295) = tot - 1" using a by (simp add: w32_def mod_if)
    moreover have "(tot + 7) div 8 \<le> (?a + 7) div 8" using assms(3) by (simp add: tot_def)
    ultimately show ?thesis using w ceil_div8 [OF a(1)] ceil_div8 [of tot] False by simp
  qed simp
  show ?thesis
    unfolding AddBitsAndReallocate_def Let_def tot_def [symmetric] w(2) if_not_P [OF guard]
    by (simp add: max_def)
qed

lemma AddBits_alloc:
  assumes ok: "bs_ok bs" and lim: "n + numberOfBitsUsed bs \<le> bs_limit"
    and need: "(numberOfBitsAllocated bs + 7) div 8 < (n + numberOfBitsUsed bs + 7) div 8"
  defines "tot \<equiv> n + numberOfBitsUsed bs"
  defines "new \<equiv> (if tot > 1048576 then tot + 1048576 else tot * 2)"
  shows "numberOfBitsAllocated (AddBitsAndReallocate n bs) = new"
    and "bs_ok (AddBitsAndReallocate n bs)"
    and "j < (numberOfBitsAllocated bs + 7) div 8 \<Longrightarrow>
      bs_data (AddBitsAndReallocate n bs) ! j = bs_data bs ! j"
proof -
  let ?a = "numberOfBitsAllocated bs"
  have a: "0 < ?a" "?a < tot" and t: "tot \<le> 1073741824" and len: "(?a + 7) div 8 \<le> length (bs_data bs)"
    using ok need lim by (auto simp: bs_ok_def tot_def bs_limit_def) 
  have 1: "w32 (?a + 4294967295) = ?a - 1" "w32 (tot + 4294967295) = tot - 1" "w32 tot = tot"
    "w32 (tot * 2) = tot * 2" "w32 (tot * 2 + (4294967296 - tot)) = tot"
    "w32 (tot + 1048576) = tot + 1048576"
    using a t by (auto simp: w32_def mod_if)
  have "(?a + 7) div 8 < (tot + 7) div 8" using need by (simp add: tot_def)
  moreover have "0 < tot" using a by simp
  ultimately have lt: "(?a - 1) div 8 < (tot - 1) div 8" using ceil_div8 [OF a(1)] ceil_div8 [of tot] by simp
  have new: "tot \<le> new" "new < 2147483648" "?a < new" "w32 (new + 7) = new + 7"
    using a t by (auto simp: new_def)
  let ?amount = "(new + 7) div 8"
  have guard: "tot > 0 \<and> w32 (?a + 4294967295) div 8 < w32 (tot + 4294967295) div 8"
    unfolding 1 using lt a by simp
  have new_eq: "(if w32 (w32 (tot * 2) + (4294967296 - tot)) > 1048576 then w32 (tot + 1048576)
      else w32 (tot * 2)) = new"
    unfolding 1 new_def by (rule refl)
  have wa: "w32 (?a + 7) = ?a + 7" using a t by simp
  have stack: "bs_stack bs \<Longrightarrow> \<not> ?amount > 256 \<Longrightarrow> length (bs_data bs) = 256"
    using ok by (simp add: bs_ok_def)
  have eq: "AddBitsAndReallocate n bs =
      (if bs_stack bs then
         (if ?amount > 256 then
            bs\<lparr>bs_data := resize (bs_fresh bs) ?amount (take ((?a + 7) div 8) (bs_data bs)), bs_stack := False\<rparr>
          else bs)
       else bs\<lparr>bs_data := resize (bs_fresh bs) ?amount (bs_data bs)\<rparr>)\<lparr>numberOfBitsAllocated := new\<rparr>"
    unfolding AddBitsAndReallocate_def Let_def tot_def [symmetric] 1(3) if_P [OF guard] new_eq
      if_P [OF new(3)] BITS_TO_BYTES_def new(4) wa BITSTREAM_STACK_ALLOCATION_SIZE_def by (rule refl)
  have amount: "(?a + 7) div 8 \<le> ?amount" using new(3) by (intro div_le_mono) simp
  show "numberOfBitsAllocated (AddBitsAndReallocate n bs) = new" by (simp add: eq)
  show "bs_ok (AddBitsAndReallocate n bs)"
  proof -
    have "(numberOfBitsUsed bs + 7) div 8 \<le> ?amount" using new(1) by (intro div_le_mono) (simp add: tot_def)
    then show ?thesis unfolding eq using new a stack by (auto simp: bs_ok_def)
  qed
  show "j < (?a + 7) div 8 \<Longrightarrow> bs_data (AddBitsAndReallocate n bs) ! j = bs_data bs ! j"
    unfolding eq using len amount by (auto simp: nth_resize)
qed

lemma AddBits_ok:
  assumes "bs_ok bs" "n + numberOfBitsUsed bs \<le> bs_limit"
  shows "bs_ok (AddBitsAndReallocate n bs)"
    and "numberOfBitsUsed bs + n \<le> numberOfBitsAllocated (AddBitsAndReallocate n bs)"
    and "\<And>j. j < (numberOfBitsUsed bs + 7) div 8 \<Longrightarrow>
      bs_data (AddBitsAndReallocate n bs) ! j = bs_data bs ! j"
proof -
  have mono: "(numberOfBitsUsed bs + 7) div 8 \<le> (numberOfBitsAllocated bs + 7) div 8"
    using assms(1) by (simp add: bs_ok_def)
  have "bs_ok (AddBitsAndReallocate n bs) \<and>
    numberOfBitsUsed bs + n \<le> numberOfBitsAllocated (AddBitsAndReallocate n bs) \<and>
    (\<forall>j. j < (numberOfBitsUsed bs + 7) div 8 \<longrightarrow>
      bs_data (AddBitsAndReallocate n bs) ! j = bs_data bs ! j)"
  proof (cases "(n + numberOfBitsUsed bs + 7) div 8 \<le> (numberOfBitsAllocated bs + 7) div 8")
    case True
    have "bs_ok (bs\<lparr>numberOfBitsAllocated := max (n + numberOfBitsUsed bs) (numberOfBitsAllocated bs)\<rparr>)"
      using assms True by (auto simp: bs_ok_def bs_limit_def max_def intro!: div_le_mono)
    then show ?thesis unfolding AddBits_no_alloc [OF assms True] by auto
  next
    case False
    then show ?thesis
      using AddBits_alloc [OF assms] mono assms by (auto simp: bs_limit_def)
  qed
  then show "bs_ok (AddBitsAndReallocate n bs)"
    and "numberOfBitsUsed bs + n \<le> numberOfBitsAllocated (AddBitsAndReallocate n bs)"
    and "\<And>j. j < (numberOfBitsUsed bs + 7) div 8 \<Longrightarrow>
      bs_data (AddBitsAndReallocate n bs) ! j = bs_data bs ! j" by blast+
qed

lemma dbit_prefix:
  "(\<And>j. j < (used + 7) div 8 \<Longrightarrow> xs ! j = ys ! j) \<Longrightarrow> p < (used + 7) div 8 * 8 \<Longrightarrow> dbit xs p = dbit ys p"
  by (simp add: dbit_def less_mult_imp_div_less)

lemma AddBits_bits:
  assumes "bs_ok bs" "n + numberOfBitsUsed bs \<le> bs_limit"
  shows "bs_bits (AddBitsAndReallocate n bs) = bs_bits bs"
    and "pad_clean (bs_data (AddBitsAndReallocate n bs)) (numberOfBitsUsed bs) =
      pad_clean (bs_data bs) (numberOfBitsUsed bs)"
    and "p < numberOfBitsUsed bs \<Longrightarrow> dbit (bs_data (AddBitsAndReallocate n bs)) p = dbit (bs_data bs) p"
proof -
  have d: "dbit (bs_data (AddBitsAndReallocate n bs)) p = dbit (bs_data bs) p"
    if "p < (numberOfBitsUsed bs + 7) div 8 * 8" for p
    by (rule dbit_prefix [OF AddBits_ok(3) [OF assms] that])
  then show "bs_bits (AddBitsAndReallocate n bs) = bs_bits bs"
    by (auto simp: bs_bits_def)
  show "pad_clean (bs_data (AddBitsAndReallocate n bs)) (numberOfBitsUsed bs) =
      pad_clean (bs_data bs) (numberOfBitsUsed bs)"
    using d by (simp add: pad_clean_def)
  show "p < numberOfBitsUsed bs \<Longrightarrow> dbit (bs_data (AddBitsAndReallocate n bs)) p = dbit (bs_data bs) p"
    using d by simp
qed

section \<open>Writing bits\<close>

definition inbit :: "u8 list \<Rightarrow> nat \<Rightarrow> bool \<Rightarrow> nat \<Rightarrow> bool" where
  "inbit bytes n rightAligned i =
    (if rightAligned \<and> i div 8 = n div 8 then bit (bytes ! (i div 8)) (n mod 8 - 1 - i mod 8)
     else bit (bytes ! (i div 8)) (7 - i mod 8))"

definition input_bits :: "u8 list \<Rightarrow> nat \<Rightarrow> bool \<Rightarrow> bool list" where
  "input_bits bytes n rightAligned = map (inbit bytes n rightAligned) [0..<n]"

definition tail_zero :: "u8 list \<Rightarrow> nat \<Rightarrow> bool \<Rightarrow> bool" where
  "tail_zero bytes n rightAligned \<longleftrightarrow>
    rightAligned \<or> n mod 8 = 0 \<or> (\<forall>i. n mod 8 \<le> i \<and> i < 8 \<longrightarrow> \<not> bit (bytes ! (n div 8)) (7 - i))"

definition put_byte :: "nat \<Rightarrow> nat \<Rightarrow> u8 \<Rightarrow> nat \<Rightarrow> u8 list \<Rightarrow> u8 list" where
  "put_byte mod8 n dataByte used data =
    (if mod8 = 0 then data[used div 8 := dataByte]
     else
       let first = data[used div 8 := data ! (used div 8) OR drop_bit mod8 dataByte]
       in if 8 - mod8 < 8 \<and> 8 - mod8 < n then first[used div 8 + 1 := push_bit (8 - mod8) dataByte]
          else first)"

lemma length_put_byte [simp]: "length (put_byte m n b used data) = length data"
  by (simp add: put_byte_def Let_def)

lemma dbit_at: "t < 8 \<Longrightarrow> dbit data (8 * q + t) = bit (data ! q) (7 - t)"
  by (simp add: dbit_def)

lemma nat_byte_cases: obtains q t where "p = 8 * q + t" "t < (8 :: nat)"
  using that [of "p div 8" "p mod 8"] by simp

lemma bit_u8_high: "bit (b :: u8) i \<Longrightarrow> i < 8"
  using bit_imp_le_length [of b i] by simp

lemma put_byte_aligned:
  assumes "q < length data" "t < 8"
  shows "dbit (put_byte 0 n b (8 * q) data) (8 * q' + t) =
    (if q' = q then bit b (7 - t) else dbit data (8 * q' + t))"
  using assms by (simp add: put_byte_def dbit_at)

lemma put_byte_shifted:
  assumes m: "0 < m" "m < 8" and q: "q < length data" and t: "t < 8"
    and clean: "\<And>s. m \<le> s \<Longrightarrow> s < 8 \<Longrightarrow> \<not> bit (data ! q) (7 - s)"
    and second: "8 - m < n \<Longrightarrow> Suc q < length data"
  shows "dbit (put_byte m n b (8 * q + m) data) (8 * q' + t) =
    (if q' = q then (if t < m then bit (data ! q) (7 - t) else bit b (7 - (t - m)))
     else if q' = Suc q \<and> 8 - m < n then t < m \<and> bit b (m - 1 - t)
     else dbit data (8 * q' + t))"
proof -
  let ?first = "data[q := data ! q OR drop_bit m b]"
  have used: "(8 * q + m) div 8 = q" using m by simp
  have first: "bit (data ! q OR drop_bit m b) (7 - t) =
      (if t < m then bit (data ! q) (7 - t) else bit b (7 - (t - m)))"
  proof (cases "t < m")
    case True
    then have "\<not> bit b (m + (7 - t))" using bit_u8_high [of b "m + (7 - t)"] t by auto
    then show ?thesis using True by (simp add: bit_or_iff bit_drop_bit_eq)
  next
    case False
    then have "m + (7 - t) = 7 - (t - m)" using t m by simp
    then show ?thesis using False clean [of t] t by (simp add: bit_or_iff bit_drop_bit_eq)
  qed
  have snd: "bit (push_bit (8 - m) b) (7 - t) = (t < m \<and> bit b (m - 1 - t))"
  proof (cases "t < m")
    case True
    then have "8 - m \<le> 7 - t" "7 - t - (8 - m) = m - 1 - t" using m t by auto
    then show ?thesis using True by (auto simp: bit_push_bit_iff)
  next
    case False
    then have "\<not> 8 - m \<le> 7 - t" using m t by arith
    then show ?thesis using False by (simp add: bit_push_bit_iff)
  qed
  show ?thesis
    unfolding put_byte_def used Let_def using m q t first snd second
    by (auto simp: dbit_at nth_list_update)
qed

lemma put_byte_spec:
  fixes n :: nat and b :: u8
  assumes len: "(used + min n 8 + 7) div 8 \<le> length data" and clean: "pad_clean data used" and n: "0 < n"
  defines "d \<equiv> put_byte (used mod 8) n b used data"
  shows "\<And>p. p < used \<Longrightarrow> dbit d p = dbit data p"
    and "\<And>i. i < min n 8 \<Longrightarrow> dbit d (used + i) = bit b (7 - i)"
    and "(\<And>i. n \<le> i \<Longrightarrow> i < 8 \<Longrightarrow> \<not> bit b (7 - i)) \<Longrightarrow> pad_clean d (used + min n 8)"
proof -
  obtain q m where u: "used = 8 * q + m" "m < 8" by (rule nat_byte_cases)
  have q: "q < length data" using len n u by linarith
  have second: "Suc q < length data" if "0 < m" "8 - m < n"
  proof -
    have "8 * q + 9 + 7 \<le> used + min n 8 + 7" using that u by auto
    then show ?thesis using len by linarith
  qed
  have cl: "\<not> bit (data ! q) (7 - s)" if "0 < m" "m \<le> s" "s < 8" for s
  proof -
    have "(used + 7) div 8 = Suc q" using u that by auto
    then have "\<not> dbit data (8 * q + s)" using clean that u by (auto simp: pad_clean_def)
    then show ?thesis using that by (simp add: dbit_at)
  qed
  have D: "dbit d (8 * q' + t) =
      (if q' = q then (if t < m then bit (data ! q) (7 - t) else bit b (7 - (t - m)))
       else if q' = Suc q \<and> 0 < m \<and> 8 - m < n then t < m \<and> bit b (m - 1 - t)
       else dbit data (8 * q' + t))" if "t < 8" for q' t
  proof (cases "m = 0")
    case True
    then show ?thesis using put_byte_aligned [OF q that, of n b q'] u by (simp add: d_def)
  next
    case False
    then have m: "0 < m" by simp
    show ?thesis
      using put_byte_shifted [OF m u(2) q that cl [OF m] second [OF m], of n b q'] u m by (simp add: d_def)
  qed
  show "dbit d p = dbit data p" if p: "p < used" for p
  proof -
    obtain q' t where p': "p = 8 * q' + t" "t < 8" by (rule nat_byte_cases)
    then have "q' < q \<or> q' = q \<and> t < m" using p u by auto
    then show ?thesis using D [OF p'(2)] p' by (auto simp: dbit_at)
  qed
  show "dbit d (used + i) = bit b (7 - i)" if i: "i < min n 8" for i
  proof (cases "m + i < 8")
    case True
    have e: "used + i = 8 * q + (m + i)" using u by simp
    show ?thesis unfolding e using D [OF True, of q] by simp
  next
    case False
    then have e: "used + i = 8 * Suc q + (m + i - 8)" and "m + i - 8 < 8" "m - 1 - (m + i - 8) = 7 - i"
      "m + i - 8 < m" "0 < m" "8 - m < n" using u i by auto
    then show ?thesis unfolding e using D [of "m + i - 8" "Suc q"] by simp
  qed
  show "pad_clean d (used + min n 8)" if tail: "\<And>i. n \<le> i \<Longrightarrow> i < 8 \<Longrightarrow> \<not> bit b (7 - i)"
    unfolding pad_clean_def
  proof (intro allI impI)
    fix p assume p: "used + min n 8 \<le> p \<and> p < (used + min n 8 + 7) div 8 * 8"
    obtain q' t where p': "p = 8 * q' + t" "t < 8" by (rule nat_byte_cases)
    have q': "q' < (used + min n 8 + 7) div 8" using p p' by linarith
    show "\<not> dbit d p"
    proof (cases "q' = q")
      case True
      then have "m \<le> t" "n \<le> t - m" "t - m < 8" using p p' u by auto
      then show ?thesis using D [OF p'(2), of q'] True tail [of "t - m"] p' by simp
    next
      case False
      have "q < q'" using False p p' u by linarith
      moreover have "q' \<le> Suc q" using q' u by linarith
      ultimately have sq: "q' = Suc q" by simp
      have m: "0 < m" "8 - m < n" using q' sq u by linarith+
      have "\<not> (t < m \<and> bit b (m - 1 - t))"
      proof
        assume h: "t < m \<and> bit b (m - 1 - t)"
        have "n \<le> 8 + t - m" using p p' u sq h by auto
        moreover have "7 - (8 + t - m) = m - 1 - t" "8 + t - m < 8" using h u by auto
        ultimately show False using tail [of "8 + t - m"] h by simp
      qed
      then show ?thesis using D [OF p'(2), of q'] sq m p' by simp
    qed
  qed
qed

lemma WriteBits_loop_unfold:
  "WriteBits_loop mod8 right (b # inputs) n used data =
    (if n = 0 then (data, used)
     else
       let dataByte = (if n < 8 \<and> right then push_bit (8 - n) b else b);
           data1 = put_byte mod8 n dataByte used data
       in if n \<ge> 8 then WriteBits_loop mod8 right inputs (n - 8) (used + 8) data1 else (data1, used + n))"
  by (simp add: put_byte_def Let_def)

lemma inbit_Cons:
  assumes "i < n"
  shows "inbit (b # bytes) n right i =
    (if i < 8 then (if n < 8 \<and> right then bit b (n - 1 - i) else bit b (7 - i))
     else inbit bytes (n - 8) right (i - 8))"
proof (cases "i < 8")
  case True
  then show ?thesis using assms by (auto simp: inbit_def)
next
  case False
  then have "i div 8 = Suc ((i - 8) div 8)" "n div 8 = Suc ((n - 8) div 8)" "i mod 8 = (i - 8) mod 8"
    "n mod 8 = (n - 8) mod 8"
    using assms by (simp_all add: div_if mod_if)
  then show ?thesis using False by (simp add: inbit_def)
qed

lemma tail_zero_Cons: "8 \<le> n \<Longrightarrow> tail_zero (b # bytes) n right = tail_zero bytes (n - 8) right"
proof -
  assume "8 \<le> n"
  then have "n div 8 = Suc ((n - 8) div 8)" "n mod 8 = (n - 8) mod 8"
    by (simp_all add: div_if mod_if)
  then show ?thesis by (simp add: tail_zero_def)
qed

lemma WriteBits_loop_spec:
  assumes "n \<le> 8 * length inputs" "(used + n + 7) div 8 \<le> length data" "pad_clean data used"
  shows "\<exists>d. WriteBits_loop (used mod 8) right inputs n used data = (d, used + n) \<and>
    length d = length data \<and> (\<forall>p < used. dbit d p = dbit data p) \<and>
    (\<forall>i < n. dbit d (used + i) = inbit inputs n right i) \<and>
    (tail_zero inputs n right \<longrightarrow> pad_clean d (used + n))"
  using assms
proof (induction inputs arbitrary: n used data)
  case Nil
  then show ?case by simp
next
  case (Cons b inputs)
  show ?case
  proof (cases "n = 0")
    case True
    then show ?thesis using Cons.prems by simp
  next
    case False
    define db where "db = (if n < 8 \<and> right then push_bit (8 - n) b else b)"
    define d1 where "d1 = put_byte (used mod 8) n db used data"
    have "(used + min n 8 + 7) div 8 \<le> (used + n + 7) div 8" by (intro div_le_mono) simp
    then have len: "(used + min n 8 + 7) div 8 \<le> length data" using Cons.prems by simp
    have "0 < n" using False by simp
    note pb = put_byte_spec [OF len Cons.prems(3) this, where b = db, folded d1_def]
    have loop: "WriteBits_loop (used mod 8) right (b # inputs) n used data =
        (if n \<ge> 8 then WriteBits_loop (used mod 8) right inputs (n - 8) (used + 8) d1 else (d1, used + n))"
      using False by (simp only: WriteBits_loop_unfold db_def [symmetric] d1_def [symmetric] Let_def if_False)
    show ?thesis
    proof (cases "n \<ge> 8")
      case True
      have db: "db = b" using True by (simp add: db_def)
      have "\<exists>d. WriteBits_loop ((used + 8) mod 8) right inputs (n - 8) (used + 8) d1 = (d, used + 8 + (n - 8)) \<and>
        length d = length d1 \<and> (\<forall>p < used + 8. dbit d p = dbit d1 p) \<and>
        (\<forall>i < n - 8. dbit d (used + 8 + i) = inbit inputs (n - 8) right i) \<and>
        (tail_zero inputs (n - 8) right \<longrightarrow> pad_clean d (used + 8 + (n - 8)))"
        by (rule Cons.IH) (use True Cons.prems pb(3) in \<open>auto simp: d1_def\<close>)
      then obtain d where d: "WriteBits_loop (used mod 8) right inputs (n - 8) (used + 8) d1 = (d, used + n)"
        "length d = length data" "\<And>p. p < used + 8 \<Longrightarrow> dbit d p = dbit d1 p"
        "\<And>i. i < n - 8 \<Longrightarrow> dbit d (used + 8 + i) = inbit inputs (n - 8) right i"
        "tail_zero inputs (n - 8) right \<Longrightarrow> pad_clean d (used + n)"
        using True by (auto simp: d1_def)
      have "dbit d (used + i) = inbit (b # inputs) n right i" if "i < n" for i
        using that d(3) [of "used + i"] pb(2) [of i] d(4) [of "i - 8"] True db
        by (auto simp: inbit_Cons)
      then show ?thesis
        using loop True d pb(1) tail_zero_Cons [OF True] by auto
    next
      case nlt: False
      have bits: "bit db (7 - i) = inbit (b # inputs) n right i" if "i < n" for i
      proof -
        have "7 - i - (8 - n) = n - 1 - i" "8 - n \<le> 7 - i" using that nlt by auto
        then show ?thesis using that nlt by (auto simp: inbit_Cons db_def bit_push_bit_iff)
      qed
      have tail: "\<not> bit db (7 - i)" if "tail_zero (b # inputs) n right" "n \<le> i" "i < 8" for i
      proof -
        have "\<not> 8 - n \<le> 7 - i" using that False by arith
        then show ?thesis using that nlt False by (auto simp: tail_zero_def db_def bit_push_bit_iff)
      qed
      show ?thesis
        using loop nlt pb False bits tail by (auto simp: d1_def min_def)
    qed
  qed
qed

lemma memcpy_at_length: "off + length src \<le> length dst \<Longrightarrow> length (memcpy_at off src dst) = length dst"
  by (simp add: memcpy_at_def)

lemma memcpy_at_nth:
  "off + length src \<le> length dst \<Longrightarrow> j < length dst \<Longrightarrow>
    memcpy_at off src dst ! j = (if j < off then dst ! j
      else if j < off + length src then src ! (j - off) else dst ! j)"
  by (auto simp: memcpy_at_def nth_append min_def)

lemma memcpy_at_dbit:
  assumes "q + length src \<le> length dst"
  shows "\<And>p. p < 8 * q \<Longrightarrow> dbit (memcpy_at q src dst) p = dbit dst p"
    and "\<And>i. i < 8 * length src \<Longrightarrow> dbit (memcpy_at q src dst) (8 * q + i) = dbit src i"
proof -
  show "dbit (memcpy_at q src dst) p = dbit dst p" if "p < 8 * q" for p
  proof -
    have "p div 8 < q" using that by (simp add: less_mult_imp_div_less)
    then show ?thesis using assms by (simp add: dbit_def memcpy_at_nth)
  qed
  show "dbit (memcpy_at q src dst) (8 * q + i) = dbit src i" if "i < 8 * length src" for i
  proof -
    have "i div 8 < length src" using that by (simp add: less_mult_imp_div_less)
    then show ?thesis using assms by (simp add: dbit_def memcpy_at_nth)
  qed
qed

text \<open>The stream after a write: same read offset, \<open>extra\<close> appended, invariants kept.\<close>

definition appends :: "BitStream \<Rightarrow> BitStream \<Rightarrow> bool list \<Rightarrow> bool" where
  "appends bs bs' extra \<longleftrightarrow>
    bs_inv bs' \<and> bs_bits bs' = bs_bits bs @ extra \<and> readOffset bs' = readOffset bs \<and>
    numberOfBitsUsed bs' = numberOfBitsUsed bs + length extra"

lemma appendsI:
  assumes "bs_ok bs" "(numberOfBitsUsed bs + n + 7) div 8 \<le> (numberOfBitsAllocated bs + 7) div 8"
    and "length d = length (bs_data bs)"
    and "\<forall>p < numberOfBitsUsed bs. dbit d p = dbit (bs_data bs) p"
    and "\<forall>i < n. dbit d (numberOfBitsUsed bs + i) = xs ! i" "n = length xs"
    and "pad_clean d (numberOfBitsUsed bs + n)" "bs_bits bs = bs_bits bs0"
    and "readOffset bs = readOffset bs0" "numberOfBitsUsed bs = numberOfBitsUsed bs0"
    and "bs' = bs\<lparr>bs_data := d, numberOfBitsUsed := numberOfBitsUsed bs + n\<rparr>"
  shows "appends bs0 bs' xs"
proof -
  have "bs_bits bs' = bs_bits bs @ xs"
  proof -
    let ?u = "numberOfBitsUsed bs"
    have "map (dbit d) [?u..<?u + n] = xs" using assms(5,6) by (intro list_eq_by_nth) auto
    moreover have "map (dbit d) [0..<?u] = map (dbit (bs_data bs)) [0..<?u]" using assms(4) by auto
    ultimately show ?thesis using assms(11) by (simp add: bs_bits_def upt_add_eq_append [of 0])
  qed
  moreover have "bs_ok bs'" using assms by (simp add: bs_ok_def)
  ultimately show ?thesis using assms by (simp add: appends_def bs_inv_def bs_clean_def)
qed

lemma WriteBits_appends:
  assumes inv: "bs_inv bs" and lim: "n + numberOfBitsUsed bs \<le> bs_limit"
    and inp: "n \<le> 8 * length bytes" and tail: "tail_zero bytes n right"
  shows "appends bs (WriteBits bytes n right bs) (input_bits bytes n right)"
proof -
  let ?bs = "AddBitsAndReallocate n bs" and ?u = "numberOfBitsUsed bs"
  have ok: "bs_ok bs" and clean: "pad_clean (bs_data bs) ?u" using inv by (simp_all add: bs_inv_def bs_clean_def)
  note a = AddBits_ok [OF ok lim] and ab = AddBits_bits [OF ok lim]
  have clean': "pad_clean (bs_data ?bs) ?u" using ab(2) clean by simp
  have "(?u + n + 7) div 8 \<le> (numberOfBitsAllocated ?bs + 7) div 8"
    using a(2) by (intro div_le_mono) simp
  then have len: "(?u + n + 7) div 8 \<le> length (bs_data ?bs)" using a(1) by (simp add: bs_ok_def)
  have w: "w32 (?u + n) = ?u + n" using lim by (simp add: bs_limit_def)
  show ?thesis
  proof (cases "?u mod 8 = 0 \<and> n mod 8 = 0")
    case True
    then obtain q k where u: "?u = 8 * q" "n = 8 * k" by (auto elim!: dvdE simp: mod_0_imp_dvd)
    let ?src = "take k bytes"
    have src: "length ?src = k" using inp u by simp
    have qk: "q + length ?src \<le> length (bs_data ?bs)" using len u src by simp
    show ?thesis
    proof (rule appendsI [OF a(1), where n = n])
      show "WriteBits bytes n right bs =
          ?bs\<lparr>bs_data := memcpy_at q ?src (bs_data ?bs), numberOfBitsUsed := numberOfBitsUsed ?bs + n\<rparr>"
        using True u w by (simp add: WriteBits_def Let_def)
      show "\<forall>i < n. dbit (memcpy_at q ?src (bs_data ?bs)) (numberOfBitsUsed ?bs + i) = input_bits bytes n right ! i"
        using memcpy_at_dbit(2) [OF qk] src u
        by (auto simp: input_bits_def inbit_def dbit_def less_mult_imp_div_less)
      show "pad_clean (memcpy_at q ?src (bs_data ?bs)) (numberOfBitsUsed ?bs + n)"
      proof -
        have "(8 * (q + k) + 7) div 8 = q + k" by simp
        then show ?thesis using u by (auto simp: pad_clean_def distrib_left)
      qed
    qed (use a ab memcpy_at_length [OF qk] memcpy_at_dbit(1) [OF qk] u in
        \<open>auto simp: input_bits_def intro!: div_le_mono\<close>)
  next
    case False
    obtain d where d: "WriteBits_loop (?u mod 8) right bytes n ?u (bs_data ?bs) = (d, ?u + n)"
      "length d = length (bs_data ?bs)" "\<forall>p < ?u. dbit d p = dbit (bs_data ?bs) p"
      "\<forall>i < n. dbit d (?u + i) = inbit bytes n right i" "pad_clean d (?u + n)"
      using WriteBits_loop_spec [OF inp len clean', of right] tail by blast
    show ?thesis
    proof (rule appendsI [OF a(1), where n = n and d = d])
      show "WriteBits bytes n right bs = ?bs\<lparr>bs_data := d, numberOfBitsUsed := numberOfBitsUsed ?bs + n\<rparr>"
        using False w d(1) unfolding WriteBits_def Let_def AddBits_frame if_not_P [OF False] by simp
    qed (use a ab d in \<open>auto simp: input_bits_def intro!: div_le_mono\<close>)
  qed
qed

section \<open>The other writers\<close>

definition put_bit :: "bool \<Rightarrow> nat \<Rightarrow> u8 list \<Rightarrow> u8 list" where
  "put_bit b used data =
    (if used mod 8 = 0 then data[used div 8 := (if b then 0x80 else 0)]
     else if b then data[used div 8 := data ! (used div 8) OR drop_bit (used mod 8) 0x80] else data)"

lemma put_bit_put_byte: "put_bit b used data = put_byte (used mod 8) 1 (if b then 0x80 else 0) used data"
proof -
  have "\<not> 8 - used mod 8 < 1" by (simp add: not_less)
  then show ?thesis by (simp add: put_bit_def put_byte_def Let_def)
qed

lemma put_bit_spec:
  assumes "(used + 8) div 8 \<le> length data" "pad_clean data used"
  shows "\<forall>p < used. dbit (put_bit b used data) p = dbit data p"
    and "dbit (put_bit b used data) used = b" and "pad_clean (put_bit b used data) (used + 1)"
    and "length (put_bit b used data) = length data"
proof -
  let ?b = "(if b then 0x80 else 0) :: u8"
  have bit: "bit ?b (7 - i) \<longleftrightarrow> b \<and> i = 0" if "i < 8" for i
    using that by (cases b) (simp_all only: if_True if_False bit_0x80 bit_0_eq bot_apply, auto)
  have len: "(used + min 1 8 + 7) div 8 \<le> length data" using assms(1) by simp
  note pb = put_byte_spec [OF len assms(2) zero_less_one, where b = ?b]
  show "\<forall>p < used. dbit (put_bit b used data) p = dbit data p"
    using pb(1) unfolding put_bit_put_byte by blast
  show "dbit (put_bit b used data) used = b"
    using pb(2) [of 0] bit [of 0] unfolding put_bit_put_byte by simp
  show "pad_clean (put_bit b used data) (used + 1)"
    using pb(3) bit unfolding put_bit_put_byte by simp
  show "length (put_bit b used data) = length data" by (simp add: put_bit_def)
qed

lemma AddBits_room:
  assumes "bs_inv bs" "n + numberOfBitsUsed bs \<le> bs_limit"
  shows "(numberOfBitsUsed bs + n + 7) div 8 \<le> length (bs_data (AddBitsAndReallocate n bs))"
    and "pad_clean (bs_data (AddBitsAndReallocate n bs)) (numberOfBitsUsed bs)"
proof -
  have ok: "bs_ok bs" using assms(1) by (simp add: bs_inv_def)
  have "(numberOfBitsUsed bs + n + 7) div 8 \<le> (numberOfBitsAllocated (AddBitsAndReallocate n bs) + 7) div 8"
    using AddBits_ok(2) [OF ok assms(2)] by (intro div_le_mono) simp
  then show "(numberOfBitsUsed bs + n + 7) div 8 \<le> length (bs_data (AddBitsAndReallocate n bs))"
    using AddBits_ok(1) [OF ok assms(2)] by (simp add: bs_ok_def)
  show "pad_clean (bs_data (AddBitsAndReallocate n bs)) (numberOfBitsUsed bs)"
    using AddBits_bits(2) [OF ok assms(2)] assms(1) by (simp add: bs_inv_def bs_clean_def)
qed

lemma Write_bool_appends:
  assumes inv: "bs_inv bs" and lim: "1 + numberOfBitsUsed bs \<le> bs_limit"
  shows "appends bs (Write_bool b bs) [b]"
proof -
  let ?bs = "AddBitsAndReallocate 1 bs" and ?u = "numberOfBitsUsed bs"
  have ok: "bs_ok bs" using inv by (simp add: bs_inv_def)
  note a = AddBits_ok [OF ok lim] and ab = AddBits_bits [OF ok lim] and r = AddBits_room [OF inv lim]
  have "(?u + 8) div 8 \<le> length (bs_data ?bs)" using r(1) by simp
  note pb = put_bit_spec [OF this r(2), of b]
  show ?thesis
  proof (rule appendsI [OF a(1), where n = 1 and d = "put_bit b ?u (bs_data ?bs)"])
    show "Write_bool b bs =
        ?bs\<lparr>bs_data := put_bit b ?u (bs_data ?bs), numberOfBitsUsed := numberOfBitsUsed ?bs + 1\<rparr>"
      using lim by (simp add: Write_bool_def Write0_def Write1_def put_bit_def Let_def bs_limit_def)
  qed (use a ab pb in \<open>auto intro!: div_le_mono\<close>)
qed

lemma align_amount: "0 < x \<Longrightarrow> x < 4294967296 \<Longrightarrow> w32 (x + 4294967295) = x - 1"
  by (simp add: w32_def mod_if)

definition align_up :: "nat \<Rightarrow> nat" where
  "align_up x = (x + 7) div 8 * 8"

lemma align_up_bounds: "x \<le> align_up x" "align_up x < x + 8" "align_up x mod 8 = 0"
  unfolding align_up_def by presburger+

lemma align_up_mod: "x mod 8 = 0 \<Longrightarrow> align_up x = x"
  unfolding align_up_def by presburger

lemma align_up_Suc: "align_up (Suc y) = Suc y + (8 - (y mod 8 + 1))"
proof -
  have "(Suc y + 7) div 8 = Suc (y div 8)" by linarith
  then have "align_up (Suc y) = (y div 8) * 8 + 8" by (simp only: align_up_def) simp
  moreover have "y = y div 8 * 8 + y mod 8" "y mod 8 < 8" by simp_all
  ultimately show ?thesis by linarith
qed

lemma align_step:
  assumes "x < 4294967288"
  shows "w32 (x + (8 - (w32 (x + 4294967295) mod 8 + 1))) = align_up x"
proof (cases x)
  case 0
  then show ?thesis by (simp add: w32_def align_up_def)
next
  case (Suc y)
  have "w32 (x + 4294967295) = y" using align_amount [of x] assms Suc by simp
  moreover have "align_up x < 4294967296" using align_up_bounds(2) [of x] assms by linarith
  ultimately show ?thesis using align_up_Suc [of y] Suc by (simp only: w32_id)
qed

lemma AlignWrite_appends:
  assumes inv: "bs_inv bs" and lim: "numberOfBitsUsed bs + 8 \<le> bs_limit"
  shows "appends bs (AlignWriteToByteBoundary bs)
    (replicate (align_up (numberOfBitsUsed bs) - numberOfBitsUsed bs) False)"
proof -
  let ?u = "numberOfBitsUsed bs"
  have clean: "pad_clean (bs_data bs) ?u" using inv by (simp add: bs_inv_def bs_clean_def)
  show ?thesis
  proof (rule appendsI [where bs = bs and n = "align_up ?u - ?u" and d = "bs_data bs"])
    show "AlignWriteToByteBoundary bs =
        bs\<lparr>bs_data := bs_data bs, numberOfBitsUsed := ?u + (align_up ?u - ?u)\<rparr>"
      using lim align_up_bounds [of ?u] align_step [of ?u]
      by (simp add: AlignWriteToByteBoundary_def bs_limit_def)
    show "\<forall>i < align_up ?u - ?u. dbit (bs_data bs) (?u + i) = replicate (align_up ?u - ?u) False ! i"
      using clean by (auto simp: pad_clean_def align_up_def)
    show "pad_clean (bs_data bs) (?u + (align_up ?u - ?u))"
      using align_up_bounds [of ?u] align_up_mod [of "align_up ?u"]
      by (auto simp: pad_clean_def align_up_def)
    have "(align_up ?u + 7) div 8 = (?u + 7) div 8" unfolding align_up_def by simp
    then show "(?u + (align_up ?u - ?u) + 7) div 8 \<le> (numberOfBitsAllocated bs + 7) div 8"
      using inv align_up_bounds [of ?u] by (simp add: bs_inv_def bs_ok_def)
  qed (use inv in \<open>auto simp: bs_inv_def\<close>)
qed

lemma dbit_bytes_input: "n = 8 * length bytes \<Longrightarrow> map (dbit bytes) [0..<n] = input_bits bytes n right"
  by (auto simp: input_bits_def inbit_def dbit_def)

lemma tail_zero_bytes [simp]: "tail_zero bytes (8 * k) right" "tail_zero bytes n True"
  by (simp_all add: tail_zero_def)

lemma Write_bytes_appends:
  assumes inv: "bs_inv bs" and lim: "8 * length bytes + numberOfBitsUsed bs \<le> bs_limit"
  shows "appends bs (Write_bytes bytes bs) (input_bits bytes (8 * length bytes) True)"
proof -
  let ?n = "8 * length bytes" and ?u = "numberOfBitsUsed bs"
  have w: "w32 (length bytes * 8) = ?n" "BYTES_TO_BITS (length bytes) = ?n"
    using lim by (simp_all add: bs_limit_def BYTES_TO_BITS_def)
  note wa = WriteBits_appends [OF inv lim, of bytes True]
  consider "bytes = []" | "bytes \<noteq> []" "?u mod 8 \<noteq> 0" | "bytes \<noteq> []" "?u mod 8 = 0" by blast
  then show ?thesis
  proof cases
    case 1
    then show ?thesis using inv by (simp add: Write_bytes_def appends_def input_bits_def)
  next
    case 2
    then show ?thesis using wa w by (simp add: Write_bytes_def)
  next
    case 3
    obtain q where q: "?u = 8 * q" using 3(2) by (auto simp: mod_0_imp_dvd elim: dvdE)
    have "w32 (?u + 7) = ?u + 7" using lim by (simp add: bs_limit_def)
    then have ub: "BITS_TO_BYTES ?u = ?u div 8" using q by (simp add: BITS_TO_BYTES_def)
    have wu: "w32 (?u + ?n) = ?u + ?n" using lim by (simp add: bs_limit_def)
    have "Write_bytes bytes bs = WriteBits bytes ?n True bs"
      unfolding Write_bytes_def WriteBits_def Let_def w AddBits_frame ub wu using 3 by simp
    then show ?thesis using wa by simp
  qed
qed

lemma appends_trans:
  "appends a b xs \<Longrightarrow> appends b c ys \<Longrightarrow> appends a c (xs @ ys)"
  by (simp add: appends_def)

lemma appends_inv: "appends a b xs \<Longrightarrow> bs_inv b"
  and appends_used: "appends a b xs \<Longrightarrow> numberOfBitsUsed b = numberOfBitsUsed a + length xs"
  and appends_bits: "appends a b xs \<Longrightarrow> bs_bits b = bs_bits a @ xs"
  by (simp_all add: appends_def)

definition align_pad :: "nat \<Rightarrow> bool list" where
  "align_pad u = replicate (align_up u - u) False"

lemma length_align_pad [simp]: "length (align_pad u) = align_up u - u"
  by (simp add: align_pad_def)

lemma WriteAlignedBytes_appends:
  assumes inv: "bs_inv bs" and lim: "8 * length bytes + numberOfBitsUsed bs + 8 \<le> bs_limit"
  shows "appends bs (WriteAlignedBytes bytes bs)
    (align_pad (numberOfBitsUsed bs) @ input_bits bytes (8 * length bytes) True)"
proof -
  have a: "appends bs (AlignWriteToByteBoundary bs) (align_pad (numberOfBitsUsed bs))"
    unfolding align_pad_def by (rule AlignWrite_appends [OF inv]) (use lim in simp)
  have "8 * length bytes + numberOfBitsUsed (AlignWriteToByteBoundary bs) \<le> bs_limit"
    using appends_used [OF a] align_up_bounds(2) [of "numberOfBitsUsed bs"] lim by simp
  from appends_trans [OF a Write_bytes_appends [OF appends_inv [OF a] this]]
  show ?thesis by (simp add: WriteAlignedBytes_def)
qed

lemma length_le_bytes [simp]: "length (le_bytes (w :: 'a::len word)) = LENGTH('a) div 8"
  by (simp add: le_bytes_def)

lemma ReverseBytes_rev: "ReverseBytes xs = rev xs"
  by (rule list_eq_by_nth) (simp_all add: ReverseBytes_def rev_nth)

definition wire_bytes :: "'a::len word \<Rightarrow> u8 list" where
  "wire_bytes w = rev (le_bytes w)"

lemma length_wire_bytes [simp]: "length (wire_bytes (w :: 'a::len word)) = LENGTH('a) div 8"
  by (simp add: wire_bytes_def)

lemma Write_int_wire:
  "Write_int (w :: 'a::len word) bs = WriteBits (wire_bytes w) (8 * (LENGTH('a) div 8)) True bs"
proof (cases "LENGTH('a) div 8 = 1")
  case True
  then have "rev (le_bytes w) = le_bytes w" by (simp add: le_bytes_def)
  then show ?thesis using True by (simp add: Write_int_def wire_bytes_def)
next
  case False
  then show ?thesis by (simp add: Write_int_def wire_bytes_def ReverseBytes_rev mult.commute)
qed

definition int_bits :: "'a::len word \<Rightarrow> bool list" where
  "int_bits w = input_bits (wire_bytes w) (8 * (LENGTH('a) div 8)) True"

lemma length_int_bits [simp]: "length (int_bits (w :: 'a::len word)) = 8 * (LENGTH('a) div 8)"
  by (simp add: int_bits_def input_bits_def)

lemma Write_int_appends:
  fixes w :: "'a::len word"
  assumes "bs_inv bs" "LENGTH('a) + numberOfBitsUsed bs \<le> bs_limit"
  shows "appends bs (Write_int w bs) (int_bits w)"
  unfolding Write_int_wire int_bits_def
  by (rule WriteBits_appends [OF assms(1)]) (use assms(2) in auto)

definition uint24_bits :: "u24 \<Rightarrow> bool list" where
  "uint24_bits v = input_bits (take 3 (le_bytes (ucast v :: u32))) 24 True"

lemma length_uint24_bits [simp]: "length (uint24_bits v) = 24"
  by (simp add: uint24_bits_def input_bits_def)

lemma memcpy_at_3:
  assumes "q + 3 \<le> length d"
  shows "memcpy_at q [a, b, c] d = d[q := a, q + 1 := b, q + 2 := c]"
proof (rule list_eq_by_nth)
  show "length (memcpy_at q [a, b, c] d) = length (d[q := a, q + 1 := b, q + 2 := c])"
    using assms by (simp add: memcpy_at_length)
  fix i assume "i < length (d[q := a, q + 1 := b, q + 2 := c])"
  moreover have "i < q \<or> i = q \<or> i = q + 1 \<or> i = q + 2 \<or> i \<ge> q + 3" by arith
  ultimately show "memcpy_at q [a, b, c] d ! i = d[q := a, q + 1 := b, q + 2 := c] ! i"
    using assms by (elim disjE) (simp_all add: memcpy_at_nth)
qed

lemma Write_uint24_appends:
  assumes inv: "bs_inv bs" and lim: "32 + numberOfBitsUsed bs \<le> bs_limit"
  shows "appends bs (Write_uint24 v bs) (align_pad (numberOfBitsUsed bs) @ uint24_bits v)"
proof -
  let ?b = "AlignWriteToByteBoundary bs" and ?val = "le_bytes (ucast v :: u32)"
  have a: "appends bs ?b (align_pad (numberOfBitsUsed bs))"
    unfolding align_pad_def by (rule AlignWrite_appends [OF inv]) (use lim in simp)
  have u: "numberOfBitsUsed ?b = align_up (numberOfBitsUsed bs)"
    using appends_used [OF a] align_up_bounds(1) [of "numberOfBitsUsed bs"] by simp
  then have lim': "24 + numberOfBitsUsed ?b \<le> bs_limit"
    using align_up_bounds(2) [of "numberOfBitsUsed bs"] lim by simp
  have m: "numberOfBitsUsed ?b mod 8 = 0" using u align_up_bounds(3) by simp
  let ?c = "AddBitsAndReallocate 24 ?b" and ?q = "numberOfBitsUsed ?b div 8"
  have val: "take 3 ?val = [?val ! 0, ?val ! 1, ?val ! 2]"
    by (simp add: le_bytes_def upt_rec)
  have len: "?q + 3 \<le> length (bs_data ?c)"
  proof -
    obtain q where "numberOfBitsUsed ?b = 8 * q" using m by (auto simp: mod_0_imp_dvd elim: dvdE)
    then show ?thesis using AddBits_room(1) [OF appends_inv [OF a] lim'] by simp
  qed
  have "memcpy_at ?q (take 3 ?val) (bs_data ?c) =
      (bs_data ?c)[?q := ?val ! 0, ?q + 1 := ?val ! 1, ?q + 2 := ?val ! 2]"
    unfolding val by (rule memcpy_at_3 [OF len])
  then have "Write_uint24 v bs = WriteBits (take 3 ?val) 24 True ?b"
    unfolding Write_uint24_def WriteBits_def Let_def AddBits_frame using m by simp
  then have "appends ?b (Write_uint24 v bs) (uint24_bits v)"
    unfolding uint24_bits_def using WriteBits_appends [OF appends_inv [OF a] lim', of "take 3 ?val" True]
    by simp
  from appends_trans [OF a this] show ?thesis .
qed

end
