(* ===== verification/BitStream_Reads.thy ===== *)
theory BitStream_Reads
  imports BitStream_Laws
begin

text \<open>
  Reading from the bit stream.  A reader looks at the written bits from the read offset on
  and changes nothing but that offset.  The lemmas of the shape \<open>..._at\<close> say: if the written
  bits are \<open>pre @ encoding of v @ post\<close> and the read offset stands at the end of \<open>pre\<close>, the
  read returns \<open>v\<close> and moves the offset behind the encoding.  Together with the writers'
  \<open>appends\<close> lemmas they give the round trips of the formats built on the stream.
\<close>

definition rd_ok :: "BitStream \<Rightarrow> bool" where
  "rd_ok bs \<longleftrightarrow> numberOfBitsUsed bs \<le> 8 * length (bs_data bs) \<and> numberOfBitsUsed bs \<le> bs_limit"

definition padded :: "u8 list \<Rightarrow> nat \<Rightarrow> bool" where
  "padded bytes n \<longleftrightarrow> length bytes = (n + 7) div 8 \<and>
    (n mod 8 \<noteq> 0 \<longrightarrow> (\<forall>k \<ge> n mod 8. \<not> bit (bytes ! (n div 8)) k))"

lemma padded_bytes: "n = 8 * length bytes \<Longrightarrow> padded bytes n"
  by (simp add: padded_def)

section \<open>The read loop\<close>

declare ReadBits_loop.simps [simp del]

definition get_byte :: "nat \<Rightarrow> nat \<Rightarrow> u8 list \<Rightarrow> nat \<Rightarrow> u8" where
  "get_byte mod8 n data offset =
    (let first = push_bit mod8 (data ! (offset div 8))
     in if mod8 > 0 \<and> n > 8 - mod8 then first OR drop_bit (8 - mod8) (data ! (offset div 8 + 1)) else first)"

lemma ReadBits_loop_unfold:
  "ReadBits_loop mod8 right data n offset =
    (if n = 0 then []
     else if n \<ge> 8 then get_byte mod8 n data offset # ReadBits_loop mod8 right data (n - 8) (offset + 8)
     else [if right then drop_bit (8 - n) (get_byte mod8 n data offset) else get_byte mod8 n data offset])"
  by (subst ReadBits_loop.simps) (simp add: get_byte_def Let_def)

lemma get_byte_bit:
  assumes "i < min n 8" "offset mod 8 = m"
  shows "bit (get_byte m n data offset) (7 - i) = dbit data (offset + i)"
proof -
  obtain q where o: "offset = 8 * q + m" "m < 8"
    using assms(2) by (metis mod_less_divisor mult_div_mod_eq zero_less_numeral)
  have q: "offset div 8 = q" using o by simp
  have i: "i < n" "i < 8" using assms(1) by auto
  show ?thesis
  proof (cases "m + i < 8")
    case True
    have e: "offset + i = 8 * q + (m + i)" using o by simp
    have "7 - i - m = 7 - (m + i)" "m \<le> 7 - i" using True by auto
    moreover have "\<not> bit (drop_bit (8 - m) (data ! (q + 1))) (7 - i)"
      using bit_u8_high [of "data ! (q + 1)" "8 - m + (7 - i)"] True by (auto simp: bit_drop_bit_eq)
    ultimately show ?thesis
      unfolding e dbit_at [OF True] get_byte_def q Let_def
      by (auto simp: bit_or_iff bit_push_bit_iff)
  next
    case False
    have e: "offset + i = 8 * (q + 1) + (m + i - 8)" using o False by simp
    have m: "0 < m" "n > 8 - m" using False i by auto
    have "\<not> m \<le> 7 - i" using False i by auto
    moreover have "8 - m + (7 - i) = 7 - (m + i - 8)" using False i o by auto
    moreover have t: "m + i - 8 < 8" using o i by auto
    ultimately show ?thesis
      unfolding e dbit_at [OF t] get_byte_def q Let_def
      using m by (simp add: bit_or_iff bit_push_bit_iff bit_drop_bit_eq)
  qed
qed

lemma ReadBits_loop_spec:
  assumes "offset mod 8 = m"
  shows "length (ReadBits_loop m right data n offset) = (n + 7) div 8 \<and>
    (\<forall>i < n. inbit (ReadBits_loop m right data n offset) n right i = dbit data (offset + i)) \<and>
    (right \<longrightarrow> padded (ReadBits_loop m right data n offset) n)"
  using assms
proof (induction n arbitrary: offset rule: less_induct)
  case (less n)
  let ?b = "get_byte m n data offset"
  consider "n = 0" | "8 \<le> n" | "0 < n" "n < 8" by linarith
  then show ?case
  proof cases
    case 1
    then show ?thesis by (subst (1 2 3) ReadBits_loop_unfold) (simp add: padded_def)
  next
    case 2
    let ?r = "ReadBits_loop m right data (n - 8) (offset + 8)"
    have eq: "ReadBits_loop m right data n offset = ?b # ?r"
      using 2 by (subst ReadBits_loop_unfold) simp
    have IH: "length ?r = (n - 8 + 7) div 8"
        "\<And>i. i < n - 8 \<Longrightarrow> inbit ?r (n - 8) right i = dbit data (offset + 8 + i)"
        "right \<Longrightarrow> padded ?r (n - 8)"
      using less.IH [of "n - 8" "offset + 8"] less.prems 2 by auto
    have "inbit (?b # ?r) n right i = dbit data (offset + i)" if i: "i < n" for i
    proof (cases "i < 8")
      case True
      then show ?thesis using get_byte_bit [of i n offset m data] i 2 less.prems by (simp add: inbit_Cons)
    next
      case False
      then show ?thesis using IH(2) [of "i - 8"] i by (simp add: inbit_Cons)
    qed
    moreover have dv: "n div 8 = Suc ((n - 8) div 8)" "n mod 8 = (n - 8) mod 8" "(n + 7) div 8 = Suc ((n - 8 + 7) div 8)"
      using 2 by (simp_all add: div_if mod_if)
    ultimately show ?thesis unfolding eq padded_def dv using IH by (simp add: padded_def)
  next
    case 3
    let ?r = "if right then drop_bit (8 - n) ?b else ?b"
    have eq: "ReadBits_loop m right data n offset = [?r]"
      using 3 by (subst ReadBits_loop_unfold) simp
    have "inbit [?r] n right i = dbit data (offset + i)" if i: "i < n" for i
    proof -
      have "8 - n + (n - 1 - i) = 7 - i" using i 3 by simp
      then show ?thesis
        using get_byte_bit [of i n offset m data] i 3 less.prems by (auto simp: inbit_Cons bit_drop_bit_eq)
    qed
    moreover have "\<not> bit (drop_bit (8 - n) ?b) k" if "n \<le> k" for k
      using bit_u8_high [of ?b "8 - n + k"] that 3 by (auto simp: bit_drop_bit_eq)
    ultimately show ?thesis unfolding eq using 3 by (auto simp: padded_def)
  qed
qed

section \<open>Bytes are determined by their bits\<close>

lemma input_bits_inj:
  assumes a: "padded a n" and b: "padded b n" and eq: "input_bits a n True = input_bits b n True"
  shows "a = b"
proof (rule list_eq_by_nth)
  show "length a = length b" using a b by (simp add: padded_def)
  have E: "inbit a n True i = inbit b n True i" if "i < n" for i
    using arg_cong [OF eq, of "\<lambda>xs. xs ! i"] that by (simp add: input_bits_def)
  fix j assume "j < length b"
  then have j: "j < (n + 7) div 8" using b by (simp add: padded_def)
  show "a ! j = b ! j"
  proof (rule bit_word_eqI)
    fix k assume "k < LENGTH(8)"
    then have k: "k < 8" by simp
    show "bit (a ! j) k = bit (b ! j) k"
    proof (cases "j < n div 8")
      case True
      then have i: "8 * j + (7 - k) < n" by linarith
      define t where "t = 7 - k"
      have t: "t < 8" "7 - t = k" using k by (auto simp: t_def)
      then have "(8 * j + t) div 8 = j" "(8 * j + t) mod 8 = t" by auto
      then show ?thesis using E [OF i, folded t_def] True t by (simp add: inbit_def)
    next
      case False
      then have jn: "j = n div 8" "n mod 8 \<noteq> 0"
        using j div_mult_mod_eq [of n 8] by linarith+
      show ?thesis
      proof (cases "k < n mod 8")
        case True
        define r where "r = n mod 8"
        have r: "r < 8" "k < r" "n = 8 * j + r" using True jn by (simp_all add: r_def)
        define t where "t = r - 1 - k"
        have t: "t < 8" "t < r" "r - 1 - t = k" using r by (auto simp: t_def)
        then have "(8 * j + t) div 8 = j" "(8 * j + t) mod 8 = t" "8 * j + t < n" using r by auto
        then show ?thesis using E [of "8 * j + t"] jn t by (simp add: inbit_def r_def)
      next
        case False
        then show ?thesis using a b jn by (simp add: padded_def)
      qed
    qed
  qed
qed

section \<open>Reads at an offset\<close>

text \<open>\<open>at bs pre x post\<close>: the written bits of \<open>bs\<close> are \<open>pre @ x @ post\<close> and the read offset
  stands in front of \<open>x\<close>.\<close>

definition at :: "BitStream \<Rightarrow> bool list \<Rightarrow> bool list \<Rightarrow> bool list \<Rightarrow> bool" where
  "at bs pre x post \<longleftrightarrow> rd_ok bs \<and> bs_bits bs = pre @ x @ post \<and> readOffset bs = length pre"

definition skip_to :: "nat \<Rightarrow> BitStream \<Rightarrow> BitStream" where
  "skip_to off bs = bs\<lparr>readOffset := off\<rparr>"

lemma at_unread: "at bs pre x post \<Longrightarrow> GetNumberOfUnreadBits bs = length x + length post"
  unfolding at_def GetNumberOfUnreadBits_def using length_bs_bits [of bs] by auto

lemma at_bit: "at bs pre x post \<Longrightarrow> i < length x \<Longrightarrow> dbit (bs_data bs) (length pre + i) = x ! i"
proof -
  assume a: "at bs pre x post" and i: "i < length x"
  have "length pre + i < numberOfBitsUsed bs"
    using a i length_bs_bits [of bs] by (simp add: at_def)
  then have "dbit (bs_data bs) (length pre + i) = bs_bits bs ! (length pre + i)" by (simp add: bs_bits_def)
  also have "\<dots> = x ! i" using a i by (simp add: at_def nth_append)
  finally show ?thesis .
qed

lemma at_bounds:
  "at bs pre x post \<Longrightarrow> length pre + length x \<le> numberOfBitsUsed bs \<and> numberOfBitsUsed bs \<le> bs_limit \<and>
    length pre + length x \<le> 8 * length (bs_data bs)"
  using length_bs_bits [of bs] by (auto simp: at_def rd_ok_def)

lemma at_skip: "at bs pre (x @ y) post \<Longrightarrow> at (skip_to (length pre + length x) bs) (pre @ x) y post"
  by (simp add: at_def skip_to_def rd_ok_def bs_bits_def)

lemma at_split: "at bs pre (x @ y) post \<longleftrightarrow> at bs pre x (y @ post)"
  by (simp add: at_def)

lemma ReadBits_at:
  assumes a: "at bs pre (input_bits bytes n True) post" and n: "0 < n" and p: "padded bytes n"
  shows "ReadBits n True bs = (Some bytes, skip_to (length pre + n) bs)"
proof -
  let ?o = "readOffset bs"
  have o: "?o = length pre" using a by (simp add: at_def)
  have len: "length (input_bits bytes n True) = n" by (simp add: input_bits_def)
  note bnd = at_bounds [OF a, unfolded len]
  have w: "w32 (?o + n) = ?o + n" using bnd o by (simp add: bs_limit_def)
  have unread: "\<not> GetNumberOfUnreadBits bs < n" using at_unread [OF a] len by simp
  have bits: "dbit (bs_data bs) (?o + i) = inbit bytes n True i" if "i < n" for i
    using at_bit [OF a, of i] that len o by (simp add: input_bits_def)
  define out where "out = (if ?o mod 8 = 0 \<and> n mod 8 = 0
      then take (n div 8) (drop (?o div 8) (bs_data bs))
      else ReadBits_loop (?o mod 8) True (bs_data bs) n ?o)"
  have "ReadBits n True bs = (Some out, bs\<lparr>readOffset := ?o + n\<rparr>)"
    using n unread w by (simp add: ReadBits_def Let_def out_def)
  moreover have "out = bytes"
  proof (rule input_bits_inj [OF _ p])
    have "padded out n \<and> (\<forall>i < n. inbit out n True i = dbit (bs_data bs) (?o + i))"
    proof (cases "?o mod 8 = 0 \<and> n mod 8 = 0")
      case True
      then obtain q k where qk: "?o = 8 * q" "n = 8 * k" by (auto simp: mod_0_imp_dvd elim!: dvdE)
      have out: "out = take k (drop q (bs_data bs))" using True qk by (simp add: out_def)
      have len': "q + k \<le> length (bs_data bs)" using bnd o qk by simp
      have "inbit out n True i = dbit (bs_data bs) (?o + i)" if i: "i < n" for i
      proof -
        have "i div 8 < k" using i qk by (simp add: less_mult_imp_div_less)
        then show ?thesis using len' qk by (simp add: out inbit_def dbit_def add.commute)
      qed
      then show ?thesis using out qk len' by (simp add: padded_def)
    next
      case False
      then show ?thesis
        unfolding out_def if_not_P [OF False] using ReadBits_loop_spec [OF refl, of ?o True "bs_data bs" n]
        by simp
    qed
    then show "padded out n" "input_bits out n True = input_bits bytes n True"
      using bits by (auto simp: input_bits_def)
  qed
  ultimately show ?thesis using o by (simp add: skip_to_def)
qed

lemma ReadBits_short:
  "GetNumberOfUnreadBits bs < n \<Longrightarrow> ReadBits n right bs = (None, bs)"
  by (simp add: ReadBits_def)

lemma Read_bool_at:
  assumes "at bs pre [b] post"
  shows "Read_bool bs = (Some b, skip_to (length pre + 1) bs)"
  using at_unread [OF assms] at_bit [OF assms, of 0] at_bounds [OF assms] assms
  by (simp add: Read_bool_def at_def stream_bit_dbit skip_to_def bs_limit_def)

lemma AlignRead_skip:
  "readOffset bs \<le> bs_limit \<Longrightarrow> AlignReadToByteBoundary bs = skip_to (align_up (readOffset bs)) bs"
  using align_step [of "readOffset bs"] by (simp add: AlignReadToByteBoundary_def skip_to_def bs_limit_def)

section \<open>Integers and byte arrays\<close>

lemma bit_of_le_bytes:
  "n < LENGTH('a) \<Longrightarrow> bit (of_le_bytes bytes :: 'a::len word) n \<longleftrightarrow>
    n div 8 < length bytes \<and> bit (bytes ! (n div 8)) (n mod 8)"
proof (induction bytes arbitrary: n)
  case (Cons b bytes)
  show ?case
  proof (cases "n < 8")
    case True
    then show ?thesis using Cons.prems by (simp add: bit_or_iff bit_push_bit_iff bit_ucast_iff)
  next
    case False
    then have d: "n div 8 = Suc ((n - 8) div 8)" "n mod 8 = (n - 8) mod 8" by (simp_all add: div_if mod_if)
    have nb: "\<not> bit b n" using bit_u8_high [of b n] False by auto
    have "bit (of_le_bytes (b # bytes) :: 'a word) n \<longleftrightarrow> bit (of_le_bytes bytes :: 'a word) (n - 8)"
      using False Cons.prems nb by (simp add: bit_or_iff bit_push_bit_iff bit_ucast_iff)
    then show ?thesis using Cons.IH [of "n - 8"] Cons.prems d by simp
  qed
qed simp

lemma of_le_bytes_le_bytes:
  fixes w :: "'a::len word"
  assumes "8 dvd LENGTH('a)"
  shows "of_le_bytes (le_bytes w) = w"
proof (rule bit_word_eqI)
  fix n assume n: "n < LENGTH('a)"
  obtain k where k: "LENGTH('a) = 8 * k" using assms by (auto elim: dvdE)
  have "n div 8 < k" using n k by (simp add: less_mult_imp_div_less)
  then show "bit (of_le_bytes (le_bytes w) :: 'a word) n = bit w n"
    using n k by (simp add: bit_of_le_bytes le_bytes_def bit_ucast_iff bit_drop_bit_eq)
qed

lemma Read_int_at:
  fixes w :: "'a::len word"
  assumes a: "at bs pre (int_bits w) post" and l: "8 dvd LENGTH('a)"
  shows "Read_int bs = (Some w, skip_to (length pre + LENGTH('a)) bs)"
proof -
  have n: "8 * (LENGTH('a) div 8) = LENGTH('a)" using l by simp
  have "ReadBits (LENGTH('a)) True bs = (Some (wire_bytes w), skip_to (length pre + LENGTH('a)) bs)"
    using ReadBits_at [OF a [unfolded int_bits_def n]] n by (simp add: padded_bytes)
  moreover have "rev (wire_bytes w) = le_bytes w" by (simp add: wire_bytes_def)
  moreover have "LENGTH('a) div 8 = 1 \<Longrightarrow> wire_bytes w = le_bytes w" by (simp add: wire_bytes_def le_bytes_def)
  ultimately show ?thesis
    using n by (simp add: Read_int_def ReverseBytes_rev of_le_bytes_le_bytes [OF l] mult.commute)
qed

lemma Read_bytes_at:
  assumes a: "at bs pre (input_bits bytes (8 * length bytes) True) post" and ne: "bytes \<noteq> []"
  shows "Read_bytes (length bytes) bs = (Some bytes, skip_to (length pre + 8 * length bytes) bs)"
proof -
  let ?n = "8 * length bytes"
  have len: "length (input_bits bytes ?n True) = ?n" by (simp add: input_bits_def)
  note b = at_bounds [OF a, unfolded len]
  have w: "w32 (length bytes * 8) = ?n" "BYTES_TO_BITS (length bytes) = ?n"
    using b by (simp_all add: BYTES_TO_BITS_def bs_limit_def)
  have r: "ReadBits ?n True bs = (Some bytes, skip_to (length pre + ?n) bs)"
    by (rule ReadBits_at [OF a]) (use ne in \<open>auto simp: padded_bytes\<close>)
  have unread: "\<not> length bytes * 8 > GetNumberOfUnreadBits bs" using at_unread [OF a] len by simp
  show ?thesis
  proof (cases "readOffset bs mod 8 = 0")
    case True
    have "ReadBits ?n True bs = (Some (take (length bytes) (drop (readOffset bs div 8) (bs_data bs))),
        bs\<lparr>readOffset := w32 (readOffset bs + ?n)\<rparr>)"
      using True ne unread by (simp add: ReadBits_def Let_def)
    then show ?thesis using r True unread w by (simp add: Read_bytes_def)
  next
    case False
    then show ?thesis using r unread w by (simp add: Read_bytes_def)
  qed
qed

lemma at_align:
  assumes "at bs pre (align_pad (length pre) @ x) post"
  shows "AlignReadToByteBoundary bs = skip_to (align_up (length pre)) bs"
    and "at (AlignReadToByteBoundary bs) (pre @ align_pad (length pre)) x post"
    and "length (pre @ align_pad (length pre)) = align_up (length pre)"
proof -
  have "readOffset bs \<le> bs_limit" using at_bounds [OF assms] assms by (simp add: at_def)
  then show e: "AlignReadToByteBoundary bs = skip_to (align_up (length pre)) bs"
    using AlignRead_skip assms by (simp add: at_def)
  show "length (pre @ align_pad (length pre)) = align_up (length pre)"
    using align_up_bounds(1) [of "length pre"] by simp
  then show "at (AlignReadToByteBoundary bs) (pre @ align_pad (length pre)) x post"
    using at_skip [OF assms] by (simp add: e)
qed

lemma skip_to_skip_to [simp]: "skip_to a (skip_to b bs) = skip_to a bs"
  by (simp add: skip_to_def)

lemma Read_uint24_at:
  assumes a: "at bs pre (align_pad (length pre) @ uint24_bits v) post"
  shows "Read_uint24 bs = (Some v, skip_to (align_up (length pre) + 24) bs)"
proof -
  let ?bs = "AlignReadToByteBoundary bs" and ?p = "pre @ align_pad (length pre)"
  let ?val = "le_bytes (ucast v :: u32)"
  note al = at_align [OF a]
  have r: "ReadBits 24 True ?bs = (Some (take 3 ?val), skip_to (length ?p + 24) ?bs)"
    by (rule ReadBits_at [OF al(2) [unfolded uint24_bits_def]]) (simp_all add: padded_bytes)
  obtain q where q: "length ?p = 8 * q" using al(3) align_up_bounds(3) by (metis mod_0_imp_dvd dvdE)
  have ro: "readOffset ?bs = 8 * q" using al(2) q by (simp add: at_def)
  have q8: "align_up (length pre) div 8 = q" using q al(3) by simp
  have unread: "\<not> GetNumberOfUnreadBits ?bs < 24" using at_unread [OF al(2)] by simp
  have len: "q + 3 \<le> length (bs_data ?bs)" using at_bounds [OF al(2)] q by simp
  have "take 3 (drop q (bs_data ?bs)) = take 3 ?val"
    using r ro unread by (simp add: ReadBits_def Let_def)
  moreover have "take 3 (drop q (bs_data ?bs)) = [bs_data ?bs ! q, bs_data ?bs ! (q + 1), bs_data ?bs ! (q + 2)]"
    using len by (simp add: numeral_3_eq_3 take_Suc_conv_app_nth)
  moreover have "take 3 ?val @ [0] = ?val"
  proof -
    have "(ucast (drop_bit 24 (ucast v :: u32)) :: u8) = 0"
      by (rule bit_word_eqI) (auto simp: bit_simps dest: bit_imp_le_length)
    then show ?thesis by (simp add: le_bytes_def upt_rec)
  qed
  ultimately have "[bs_data ?bs ! q, bs_data ?bs ! (q + 1), bs_data ?bs ! (q + 2), 0] = ?val"
    by (metis append_Cons append_Nil)
  moreover have "(ucast (ucast v :: u32) :: u24) = v" by (rule bit_word_eqI) (simp add: bit_simps)
  moreover have "w32 (8 * q + 24) = 8 * q + 24" using at_bounds [OF al(2)] q by (simp add: bs_limit_def)
  ultimately show ?thesis
    using unread ro q q8 al(1,3) of_le_bytes_le_bytes [of "ucast v :: u32"]
    by (simp add: Read_uint24_def Let_def skip_to_def del: of_le_bytes.simps)
qed

end
