(* ===== verification/BitStream_Codec.thy ===== *)
theory BitStream_Codec
  imports BitStream_Reads
begin

text \<open>
  The interface on which the message formats are built.  The locale \<open>bit_codec\<close> couples a
  writer and a reader of the bit stream through the bits that encode a value; the encoding
  may depend on the position, as \<^verbatim>\<open>uint24_t\<close> values are aligned to a byte boundary, and the reader
  may return an image \<open>img v\<close> of the value written (a message loses its sender-side fields).  Inside
  it the round trips are proved once, for one value and for a sequence; it is interpreted
  for every primitive of the bit stream.  The second part treats the copying of one stream
  into another.
\<close>

lemma inv_rd_ok: "bs_inv bs \<Longrightarrow> numberOfBitsUsed bs \<le> bs_limit \<Longrightarrow> rd_ok bs"
  by (auto simp: bs_inv_def bs_ok_def rd_ok_def)

primrec read_many :: "(BitStream \<Rightarrow> 'v option \<times> BitStream) \<Rightarrow> nat \<Rightarrow> BitStream \<Rightarrow> 'v list option \<times> BitStream" where
  "read_many rd 0 bs = (Some [], bs)"
| "read_many rd (Suc n) bs =
    (case rd bs of
       (None, bs1) \<Rightarrow> (None, bs1)
     | (Some v, bs1) \<Rightarrow>
         (case read_many rd n bs1 of (None, bs2) \<Rightarrow> (None, bs2) | (Some vs, bs2) \<Rightarrow> (Some (v # vs), bs2)))"

locale bit_codec =
  fixes wr :: "'v \<Rightarrow> BitStream \<Rightarrow> BitStream" and rd :: "BitStream \<Rightarrow> 'w option \<times> BitStream"
    and img :: "'v \<Rightarrow> 'w"
    and enc :: "nat \<Rightarrow> 'v \<Rightarrow> bool list" and bound :: nat and valid :: "'v \<Rightarrow> bool"
  assumes enc_bound: "valid v \<Longrightarrow> length (enc p v) \<le> bound"
    and wr_law: "valid v \<Longrightarrow> bs_inv bs \<Longrightarrow> bound + numberOfBitsUsed bs \<le> bs_limit \<Longrightarrow>
      appends bs (wr v bs) (enc (numberOfBitsUsed bs) v)"
    and rd_law: "valid v \<Longrightarrow> at bs pre (enc (length pre) v) post \<Longrightarrow>
      rd bs = (Some (img v), skip_to (length pre + length (enc (length pre) v)) bs)"
begin

primrec enc_list :: "nat \<Rightarrow> 'v list \<Rightarrow> bool list" where
  "enc_list p [] = []"
| "enc_list p (v # vs) = enc p v @ enc_list (p + length (enc p v)) vs"

lemma enc_list_bound: "\<forall>v \<in> set vs. valid v \<Longrightarrow> length (enc_list p vs) \<le> bound * length vs"
proof (induction vs arbitrary: p)
  case (Cons v vs)
  have "length (enc p v) \<le> bound" using Cons.prems enc_bound by simp
  then show ?case using Cons.IH [of "p + length (enc p v)"] Cons.prems by simp
qed simp

lemma wr_list:
  "\<forall>v \<in> set vs. valid v \<Longrightarrow> bs_inv bs \<Longrightarrow> bound * length vs + numberOfBitsUsed bs \<le> bs_limit \<Longrightarrow>
    appends bs (fold wr vs bs) (enc_list (numberOfBitsUsed bs) vs)"
proof (induction vs arbitrary: bs)
  case (Cons v vs)
  have a: "appends bs (wr v bs) (enc (numberOfBitsUsed bs) v)"
    by (rule wr_law) (use Cons.prems in auto)
  have u: "numberOfBitsUsed (wr v bs) = numberOfBitsUsed bs + length (enc (numberOfBitsUsed bs) v)"
    by (rule appends_used [OF a])
  have "length (enc (numberOfBitsUsed bs) v) \<le> bound" using Cons.prems enc_bound by simp
  then have "appends (wr v bs) (fold wr vs (wr v bs)) (enc_list (numberOfBitsUsed (wr v bs)) vs)"
    by (intro Cons.IH) (use Cons.prems u appends_inv [OF a] in auto)
  from appends_trans [OF a this] show ?case by (simp add: u)
qed (simp add: appends_def)

lemma rd_list:
  "\<forall>v \<in> set vs. valid v \<Longrightarrow> at bs pre (enc_list (length pre) vs) post \<Longrightarrow>
    read_many rd (length vs) bs = (Some (map img vs), skip_to (length pre + length (enc_list (length pre) vs)) bs)"
proof (induction vs arbitrary: bs pre)
  case Nil
  then show ?case by (simp add: at_def skip_to_def)
next
  case (Cons v vs)
  let ?e = "enc (length pre) v"
  have a: "at bs pre (?e @ enc_list (length (pre @ ?e)) vs) post" using Cons.prems by simp
  have r: "rd bs = (Some (img v), skip_to (length pre + length ?e) bs)"
    by (rule rd_law) (use Cons.prems a in \<open>auto simp: at_split\<close>)
  show ?case using Cons.IH [OF _ at_skip [OF a]] Cons.prems r by (simp add: add.assoc)
qed

lemma round_trip_list:
  assumes "\<forall>v \<in> set vs. valid v" "bs_inv bs" "bound * length vs + numberOfBitsUsed bs \<le> bs_limit"
    and "readOffset bs = numberOfBitsUsed bs"
  shows "fst (read_many rd (length vs) (fold wr vs bs)) = Some (map img vs)"
    and "readOffset (snd (read_many rd (length vs) (fold wr vs bs))) = numberOfBitsUsed (fold wr vs bs)"
proof -
  note a = wr_list [OF assms(1-3)]
  let ?e = "enc_list (numberOfBitsUsed bs) vs"
  have "numberOfBitsUsed (fold wr vs bs) \<le> bs_limit"
    using appends_used [OF a] enc_list_bound [OF assms(1), of "numberOfBitsUsed bs"] assms(3) by simp
  then have "at (fold wr vs bs) (bs_bits bs) ?e []"
    using a assms(4) inv_rd_ok by (simp add: at_def appends_def)
  from rd_list [OF assms(1), of _ "bs_bits bs", simplified, OF this]
  show "fst (read_many rd (length vs) (fold wr vs bs)) = Some (map img vs)"
    "readOffset (snd (read_many rd (length vs) (fold wr vs bs))) = numberOfBitsUsed (fold wr vs bs)"
    using appends_used [OF a] by (simp_all add: skip_to_def)
qed

lemma round_trip:
  assumes "valid v" "bs_inv bs" "bound + numberOfBitsUsed bs \<le> bs_limit"
    and "readOffset bs = numberOfBitsUsed bs"
  shows "rd (wr v bs) = (Some (img v), skip_to (numberOfBitsUsed (wr v bs)) (wr v bs))"
proof -
  note a = wr_law [OF assms(1-3)]
  have "numberOfBitsUsed (wr v bs) \<le> bs_limit"
    using appends_used [OF a] enc_bound [OF assms(1), of "numberOfBitsUsed bs"] assms(3) by simp
  then have "at (wr v bs) (bs_bits bs) (enc (length (bs_bits bs)) v) []"
    using a assms(4) inv_rd_ok by (simp add: at_def appends_def)
  from rd_law [OF assms(1) this] show ?thesis using appends_used [OF a] by simp
qed

end

interpretation bool_codec: bit_codec Write_bool Read_bool id "\<lambda>p b. [b]" 1 "\<lambda>_. True"
  by unfold_locales (simp_all add: Write_bool_appends Read_bool_at)

interpretation u8_codec: bit_codec "Write_int :: u8 \<Rightarrow> _" Read_int id "\<lambda>p. int_bits" 8 "\<lambda>_. True"
  by unfold_locales (simp_all add: Write_int_appends Read_int_at)

interpretation u16_codec: bit_codec "Write_int :: u16 \<Rightarrow> _" Read_int id "\<lambda>p. int_bits" 16 "\<lambda>_. True"
  by unfold_locales (simp_all add: Write_int_appends Read_int_at)

interpretation u32_codec: bit_codec "Write_int :: u32 \<Rightarrow> _" Read_int id "\<lambda>p. int_bits" 32 "\<lambda>_. True"
  by unfold_locales (simp_all add: Write_int_appends Read_int_at)

interpretation u64_codec: bit_codec "Write_int :: u64 \<Rightarrow> _" Read_int id "\<lambda>p. int_bits" 64 "\<lambda>_. True"
  by unfold_locales (simp_all add: Write_int_appends Read_int_at)

definition uint24_enc :: "nat \<Rightarrow> u24 \<Rightarrow> bool list" where
  "uint24_enc p v = align_pad p @ uint24_bits v"

lemma length_uint24_enc: "length (uint24_enc p v) = align_up p - p + 24"
  by (simp add: uint24_enc_def)

interpretation u24_codec: bit_codec Write_uint24 Read_uint24 id uint24_enc 32 "\<lambda>_. True"
proof unfold_locales
  show "length (uint24_enc p v) \<le> 32" for p v
    using align_up_bounds [of p] by (simp add: length_uint24_enc)
  show "appends bs (Write_uint24 v bs) (uint24_enc (numberOfBitsUsed bs) v)"
    if "bs_inv bs" "32 + numberOfBitsUsed bs \<le> bs_limit" for v bs
    unfolding uint24_enc_def by (rule Write_uint24_appends [OF that])
  show "Read_uint24 bs = (Some (id v), skip_to (length pre + length (uint24_enc (length pre) v)) bs)"
    if "at bs pre (uint24_enc (length pre) v) post" for v bs pre post
    using Read_uint24_at [OF that [unfolded uint24_enc_def]] align_up_bounds(1) [of "length pre"]
    by (simp add: length_uint24_enc)
qed

interpretation bytes_codec: bit_codec Write_bytes "Read_bytes k" id
  "\<lambda>p bytes. input_bits bytes (8 * k) True" "8 * k" "\<lambda>bytes. length bytes = k \<and> 0 < k" for k
proof unfold_locales
  show "Read_bytes k bs = (Some (id v), skip_to (length pre + length (input_bits v (8 * k) True)) bs)"
    if "length v = k \<and> 0 < k" "at bs pre (input_bits v (8 * k) True) post" for v bs pre post
    using Read_bytes_at [of bs pre v post] that by (auto simp: input_bits_def)
qed (use Write_bytes_appends in \<open>auto simp: input_bits_def\<close>)

section \<open>Copying one stream into another\<close>

lemma Write_stream_bits_spec:
  assumes "(used + n + 7) div 8 \<le> length data" "pad_clean data used"
  shows "\<exists>d. Write_stream_bits n src ro used data = (ro + n, used + n, d) \<and> length d = length data \<and>
    (\<forall>p < used. dbit d p = dbit data p) \<and> (\<forall>i < n. dbit d (used + i) = dbit src (ro + i)) \<and>
    pad_clean d (used + n)"
  using assms
proof (induction n arbitrary: ro used data)
  case 0
  then show ?case by simp
next
  case (Suc n)
  let ?d = "put_bit (stream_bit src ro) used data"
  have "(used + 8) div 8 \<le> (used + Suc n + 7) div 8" by (intro div_le_mono) simp
  then have "(used + 8) div 8 \<le> length data" using Suc.prems by simp
  note pb = put_bit_spec [OF this Suc.prems(2), of "stream_bit src ro"]
  have eq: "Write_stream_bits (Suc n) src ro used data = Write_stream_bits n src (ro + 1) (used + 1) ?d"
    by (simp add: put_bit_def Let_def)
  obtain d where d: "Write_stream_bits n src (ro + 1) (used + 1) ?d = (ro + 1 + n, used + 1 + n, d)"
    "length d = length ?d" "\<forall>p < used + 1. dbit d p = dbit ?d p"
    "\<forall>i < n. dbit d (used + 1 + i) = dbit src (ro + 1 + i)" "pad_clean d (used + 1 + n)"
    using Suc.IH [of "used + 1" ?d "ro + 1"] Suc.prems pb by auto
  have "dbit d (used + i) = dbit src (ro + i)" if "i < Suc n" for i
    using that d(3,4) pb(2) stream_bit_dbit [of src ro] by (cases i) auto
  then show ?case using eq d pb by auto
qed

lemma dbit_take_drop:
  "i < 8 * k \<Longrightarrow> q + k \<le> length data \<Longrightarrow> dbit (take k (drop q data)) i = dbit data (8 * q + i)"
  by (simp add: dbit_def less_mult_imp_div_less add.commute)

lemma Write_stream_data:
  assumes len: "(u + n + 7) div 8 \<le> length data" and clean: "pad_clean data u"
    and src: "ro + n \<le> 8 * length src" and al: "u mod 8 = 0" "ro mod 8 = 0"
  defines "k \<equiv> n div 8"
  defines "d1 \<equiv> memcpy_at (u div 8) (take k (drop (ro div 8) src)) data"
  shows "\<exists>d. Write_stream_bits (n - k * 8) src ((k + ro div 8) * 8) (u + k * 8) d1 = (ro + n, u + n, d) \<and>
    length d = length data \<and> (\<forall>p < u. dbit d p = dbit data p) \<and>
    (\<forall>i < n. dbit d (u + i) = dbit src (ro + i)) \<and> pad_clean d (u + n)"
proof -
  obtain q r where qr: "u = 8 * q" "ro = 8 * r" using al by (auto simp: mod_0_imp_dvd elim!: dvdE)
  have kn: "k * 8 \<le> n" by (simp add: k_def)
  have rk: "r + k \<le> length src" using src qr kn by linarith
  have qk: "q + k \<le> length data" using len qr kn by linarith
  let ?c = "take k (drop r src)"
  have c: "length ?c = k" using rk by simp
  have d1: "d1 = memcpy_at q ?c data" by (simp add: d1_def qr)
  have l1: "length d1 = length data" using memcpy_at_length [of q ?c data] qk c d1 by simp
  note md = memcpy_at_dbit [of q ?c data, unfolded c, OF qk, folded d1]
  have "pad_clean d1 (u + k * 8)"
  proof -
    have e: "u + k * 8 = 8 * (q + k)" using qr by simp
    have "(8 * (q + k) + 7) div 8 * 8 = 8 * (q + k)" using align_up_mod [of "8 * (q + k)"] by (simp only: align_up_def) simp
    then show ?thesis unfolding e pad_clean_def by (metis leD)
  qed
  moreover have "(u + k * 8 + (n - k * 8) + 7) div 8 \<le> length d1" using len l1 kn by simp
  ultimately obtain d where d: "Write_stream_bits (n - k * 8) src ((k + r) * 8) (u + k * 8) d1 =
      ((k + r) * 8 + (n - k * 8), u + k * 8 + (n - k * 8), d)" "length d = length d1"
    "\<forall>p < u + k * 8. dbit d p = dbit d1 p"
    "\<forall>i < n - k * 8. dbit d (u + k * 8 + i) = dbit src ((k + r) * 8 + i)"
    "pad_clean d (u + k * 8 + (n - k * 8))"
    using Write_stream_bits_spec by blast
  have "dbit d (u + i) = dbit src (ro + i)" if i: "i < n" for i
  proof (cases "i < 8 * k")
    case True
    then have "dbit d (u + i) = dbit ?c i" using d(3) md(2) [of i] qr by simp
    then show ?thesis using dbit_take_drop [OF True rk] qr by simp
  next
    case False
    then have e: "u + i = u + k * 8 + (i - k * 8)" "ro + i = (k + r) * 8 + (i - k * 8)" using qr by auto
    have "i - k * 8 < n - k * 8" using i False by simp
    then show ?thesis unfolding e using d(4) by blast
  qed
  moreover have "\<forall>p < u. dbit d p = dbit data p" using d(3) md(1) qr by simp
  ultimately show ?thesis using d l1 kn qr by auto
qed

lemma Write_stream_appends:
  assumes inv: "bs_inv bs" and lim: "n + numberOfBitsUsed bs \<le> bs_limit"
    and src: "rd_ok src" "readOffset src + n \<le> numberOfBitsUsed src"
  shows "fst (Write_stream src n bs) = src\<lparr>readOffset := readOffset src + n\<rparr>"
    and "appends bs (snd (Write_stream src n bs)) (take n (drop (readOffset src) (bs_bits src)))"
proof -
  let ?bs = "AddBitsAndReallocate n bs" and ?u = "numberOfBitsUsed bs" and ?ro = "readOffset src"
  have ok: "bs_ok bs" using inv by (simp add: bs_inv_def)
  note a = AddBits_ok [OF ok lim] and ab = AddBits_bits [OF ok lim] and r = AddBits_room [OF inv lim]
  have guard: "\<not> n > GetNumberOfUnreadBits src" using src(2) by (simp add: GetNumberOfUnreadBits_def)
  have sl: "?ro + n \<le> 8 * length (bs_data src)" using src by (simp add: rd_ok_def)
  have "\<exists>d. fst (Write_stream src n bs) = src\<lparr>readOffset := ?ro + n\<rparr> \<and>
      snd (Write_stream src n bs) = ?bs\<lparr>bs_data := d, numberOfBitsUsed := ?u + n\<rparr> \<and>
      length d = length (bs_data ?bs) \<and> (\<forall>p < ?u. dbit d p = dbit (bs_data ?bs) p) \<and>
      (\<forall>i < n. dbit d (?u + i) = dbit (bs_data src) (?ro + i)) \<and> pad_clean d (?u + n)"
  proof (cases "?ro mod 8 = 0 \<and> ?u mod 8 = 0")
    case True
    then have al: "?u mod 8 = 0" "?ro mod 8 = 0" by simp_all
    obtain d where d: "Write_stream_bits (n - n div 8 * 8) (bs_data src) ((n div 8 + ?ro div 8) * 8)
        (?u + n div 8 * 8) (memcpy_at (?u div 8) (take (n div 8) (drop (?ro div 8) (bs_data src))) (bs_data ?bs)) =
        (?ro + n, ?u + n, d)" "length d = length (bs_data ?bs)" "\<forall>p < ?u. dbit d p = dbit (bs_data ?bs) p"
      "\<forall>i < n. dbit d (?u + i) = dbit (bs_data src) (?ro + i)" "pad_clean d (?u + n)"
      using Write_stream_data [OF r(1) r(2) sl al] by blast
    have "Write_stream src n bs =
        (src\<lparr>readOffset := ?ro + n\<rparr>, ?bs\<lparr>bs_data := d, numberOfBitsUsed := ?u + n\<rparr>)"
      unfolding Write_stream_def if_not_P [OF guard] Let_def AddBits_frame if_P [OF True] prod.case
      using d(1) by (simp add: SetReadOffset_def)
    then show ?thesis using d by auto
  next
    case False
    obtain d where d: "Write_stream_bits n (bs_data src) ?ro ?u (bs_data ?bs) = (?ro + n, ?u + n, d)"
      "length d = length (bs_data ?bs)" "\<forall>p < ?u. dbit d p = dbit (bs_data ?bs) p"
      "\<forall>i < n. dbit d (?u + i) = dbit (bs_data src) (?ro + i)" "pad_clean d (?u + n)"
      using Write_stream_bits_spec [OF r(1) r(2)] by blast
    have "Write_stream src n bs =
        (src\<lparr>readOffset := ?ro + n\<rparr>, ?bs\<lparr>bs_data := d, numberOfBitsUsed := ?u + n\<rparr>)"
      unfolding Write_stream_def if_not_P [OF guard] Let_def AddBits_frame if_not_P [OF False] prod.case
      using d(1) by simp
    then show ?thesis using d by auto
  qed
  then obtain d where d: "fst (Write_stream src n bs) = src\<lparr>readOffset := ?ro + n\<rparr>"
      "snd (Write_stream src n bs) = ?bs\<lparr>bs_data := d, numberOfBitsUsed := ?u + n\<rparr>"
      "length d = length (bs_data ?bs)" "\<forall>p < ?u. dbit d p = dbit (bs_data ?bs) p"
      "\<forall>i < n. dbit d (?u + i) = dbit (bs_data src) (?ro + i)" "pad_clean d (?u + n)"
    by blast
  show "fst (Write_stream src n bs) = src\<lparr>readOffset := ?ro + n\<rparr>" by (rule d(1))
  show "appends bs (snd (Write_stream src n bs)) (take n (drop ?ro (bs_bits src)))"
    by (rule appendsI [OF a(1), where n = n and d = d])
      (use a ab d src in \<open>auto simp: bs_bits_def intro!: div_le_mono\<close>)
qed

text \<open>A stream that has not enough unread bits leaves both streams unchanged.\<close>

lemma Write_stream_short:
  "n > GetNumberOfUnreadBits src \<Longrightarrow> Write_stream src n bs = (src, bs)"
  by (simp add: Write_stream_def)

lemma BitStream_new_inv: "bs_inv (BitStream_new fresh)"
  by (simp add: bs_inv_def bs_ok_def bs_clean_def pad_clean_def BitStream_new_def
      BITSTREAM_STACK_ALLOCATION_SIZE_def)

lemma BitStream_new_bits [simp]:
  "bs_bits (BitStream_new fresh) = []" "numberOfBitsUsed (BitStream_new fresh) = 0"
  "readOffset (BitStream_new fresh) = 0"
  by (simp_all add: bs_bits_def BitStream_new_def)

section \<open>Properties\<close>

text \<open>Writing \<open>n\<close> bits appends exactly these bits to the stream, at any bit position, across
  any reallocation, for right-aligned input and for left-aligned input whose unused bits
  are zero, and keeps the memory invariant of the buffer.\<close>

theorem WriteBits_appends_bits:
  assumes "bs_inv bs" "n + numberOfBitsUsed bs \<le> bs_limit" "n \<le> 8 * length bytes" "tail_zero bytes n right"
  shows "bs_bits (WriteBits bytes n right bs) = bs_bits bs @ input_bits bytes n right \<and>
    bs_inv (WriteBits bytes n right bs) \<and> readOffset (WriteBits bytes n right bs) = readOffset bs"
  using WriteBits_appends [OF assms] by (simp add: appends_def)

theorem WriteBits_appends_bits_witness:
  "bs_bits (WriteBits [5] 3 True (BitStream_new (\<lambda>_. 255))) = [True, False, True]"
  using WriteBits_appends_bits [OF BitStream_new_inv, of 3 "\<lambda>_. 255" "[5]" True]
  by (simp add: bs_limit_def input_bits_def inbit_def upt_rec)

text \<open>Reading back: a sequence of 24 bit numbers written to a stream is returned by the
  same number of reads, although each value is aligned to a byte boundary, and the reader
  ends where the writer stopped.\<close>

theorem uint24_round_trip:
  assumes "bs_inv bs" "32 * length vs + numberOfBitsUsed bs \<le> bs_limit" "readOffset bs = numberOfBitsUsed bs"
  shows "fst (read_many Read_uint24 (length vs) (fold Write_uint24 vs bs)) = Some vs \<and>
    readOffset (snd (read_many Read_uint24 (length vs) (fold Write_uint24 vs bs))) =
      numberOfBitsUsed (fold Write_uint24 vs bs)"
  using u24_codec.round_trip_list [OF _ assms] by simp

theorem uint24_round_trip_witness:
  "fst (read_many Read_uint24 (length [1, 16777215]) (fold Write_uint24 [1, 16777215] (BitStream_new (\<lambda>_. 7)))) =
    Some [1, 16777215]"
  using uint24_round_trip [OF BitStream_new_inv, of "[1, 16777215]" "\<lambda>_. 7"]
  by (simp only: bs_limit_def BitStream_new_bits) simp

text \<open>Copying \<open>n\<close> unread bits of one stream into another appends exactly these bits,
  whatever the alignment of either stream, and advances the source by \<open>n\<close>.\<close>

theorem Write_stream_copies:
  assumes "bs_inv bs" "n + numberOfBitsUsed bs \<le> bs_limit" "rd_ok src" "readOffset src + n \<le> numberOfBitsUsed src"
  shows "bs_bits (snd (Write_stream src n bs)) = bs_bits bs @ take n (drop (readOffset src) (bs_bits src)) \<and>
    bs_inv (snd (Write_stream src n bs)) \<and>
    fst (Write_stream src n bs) = src\<lparr>readOffset := readOffset src + n\<rparr>"
  using Write_stream_appends [OF assms] by (simp add: appends_def)

theorem Write_stream_copies_witness:
  "bs_bits (snd (Write_stream (BitStream_of (\<lambda>_. 0) [160] False) 3 (BitStream_new (\<lambda>_. 255)))) =
    [True, False, True]"
proof -
  let ?src = "BitStream_of (\<lambda>_. 0) [160] False"
  have src: "rd_ok ?src" "readOffset ?src + 3 \<le> numberOfBitsUsed ?src"
    by (simp_all add: rd_ok_def BitStream_of_def BYTES_TO_BITS_def bs_limit_def)
  have "take 3 (bs_bits ?src) = [True, False, True]"
    by (simp add: bs_bits_def dbit_def BitStream_of_def BYTES_TO_BITS_def upt_rec)
  moreover have "readOffset ?src = 0" by (simp add: BitStream_of_def)
  ultimately show ?thesis
    using Write_stream_copies [OF BitStream_new_inv _ src, of "\<lambda>_. 255"] by (simp add: bs_limit_def)
qed

text \<open>A stream constructed as a copy of zero bytes has no buffer, and a later write does
  not allocate one: the allocation check subtracts one from zero allocated bits, so the
  counter of allocated bits grows while the buffer stays empty.\<close>

theorem BitStream_of_empty_never_allocates:
  assumes "0 < n" "n \<le> bs_limit"
  shows "bs_data (AddBitsAndReallocate n (BitStream_of fresh [] True)) = [] \<and>
    numberOfBitsAllocated (AddBitsAndReallocate n (BitStream_of fresh [] True)) = n"
proof -
  have "w32 (0 + 4294967295) div 8 = 536870911" by (simp add: w32_def)
  moreover have "w32 (n + 4294967295) = n - 1" using assms align_amount [of n] by (simp add: bs_limit_def)
  moreover have "\<not> 536870911 < (n - 1) div 8" using assms by (simp add: bs_limit_def)
  ultimately show ?thesis
    using assms by (simp add: AddBitsAndReallocate_def BitStream_of_def BYTES_TO_BITS_def Let_def bs_limit_def)
qed

theorem BitStream_of_empty_never_allocates_witness:
  "bs_data (AddBitsAndReallocate 8 (BitStream_of (\<lambda>_. 0) [] True)) = []"
  using BitStream_of_empty_never_allocates [of 8 "\<lambda>_. 0"] by (simp add: bs_limit_def)

end
