(* ===== verification/DS_RangeList.thy ===== *)
theory DS_RangeList
  imports DS_OrderedList BitStream_Codec
begin

text \<open>
  \<^verbatim>\<open>DataStructures::RangeList\<close> of \<^verbatim>\<open>ds_range_list.h\<close>, the set of datagram numbers that the
  reliability layer acknowledges or reports missing, kept as an ordered list of closed
  intervals and sent as such.  \<open>range_set\<close> is the set of numbers represented and \<open>range_wf\<close>
  the invariant (non-empty, disjoint, ascending intervals).  Insertion adds one number to
  the set; serialisation and deserialisation are inverse on well-formed lists.
\<close>

section \<open>Data and insertion\<close>

record RangeNode =
  minIndex :: u24
  maxIndex :: u24

definition RangeNode_of :: "u24 \<Rightarrow> u24 \<Rightarrow> RangeNode" where
  "RangeNode_of mn mx = \<lparr>minIndex = mn, maxIndex = mx\<rparr>"

definition RangeNodeComp :: "u24 \<Rightarrow> RangeNode \<Rightarrow> int" where
  "RangeNodeComp a b = (if a < minIndex b then - 1 else if a > maxIndex b then 1 else 0)"

definition RangeList_Insert :: "u24 \<Rightarrow> RangeNode list \<Rightarrow> RangeNode list" where
  "RangeList_Insert index ranges =
    (if length ranges = 0 then snd (OrderedList_Insert RangeNodeComp index (RangeNode_of index index) ranges)
     else
       let (insertionIndex, objectExists) = GetIndexFromKey RangeNodeComp index ranges
       in if objectExists then ranges
          else if insertionIndex = length ranges then
            let prev = ranges ! (insertionIndex - 1)
            in if index = maxIndex prev + 1 then
                 ranges[insertionIndex - 1 := prev\<lparr>maxIndex := maxIndex prev + 1\<rparr>]
               else if index > maxIndex prev + 1 then
                 snd (OrderedList_Insert RangeNodeComp index (RangeNode_of index index) ranges)
               else ranges
          else
            let cur = ranges ! insertionIndex
            in if index < minIndex cur - 1 then insert_at (RangeNode_of index index) insertionIndex ranges
               else if index = minIndex cur - 1 then
                 let cur' = cur\<lparr>minIndex := minIndex cur - 1\<rparr>;
                     ranges1 = ranges[insertionIndex := cur'];
                     prev = ranges1 ! (insertionIndex - 1)
                 in if insertionIndex > 0 \<and> maxIndex prev + 1 = minIndex cur'
                    then remove_at insertionIndex
                           (ranges1[insertionIndex - 1 := prev\<lparr>maxIndex := maxIndex cur'\<rparr>])
                    else ranges1
               else if index = maxIndex cur + 1 then
                 let cur' = cur\<lparr>maxIndex := maxIndex cur + 1\<rparr>;
                     ranges1 = ranges[insertionIndex := cur'];
                     nxt = ranges1 ! (insertionIndex + 1)
                 in if insertionIndex < length ranges1 - 1 \<and> minIndex nxt = maxIndex cur' + 1
                    then remove_at insertionIndex
                           (ranges1[insertionIndex + 1 := nxt\<lparr>minIndex := minIndex cur'\<rparr>])
                    else ranges1
               else ranges)"

definition RangeList_IsWithinRange :: "u24 \<Rightarrow> RangeNode list \<Rightarrow> bool" where
  "RangeList_IsWithinRange v ranges = snd (GetIndexFromKey RangeNodeComp v ranges)"

definition RangeList_Size :: "RangeNode list \<Rightarrow> nat" where
  "RangeList_Size ranges = length ranges"

definition RangeList_Clear :: "RangeNode list \<Rightarrow> RangeNode list" where
  "RangeList_Clear ranges = []"

section \<open>Serialisation\<close>

fun Serialize_ranges :: "nat \<Rightarrow> RangeNode list \<Rightarrow> nat \<Rightarrow> nat \<Rightarrow> BitStream \<Rightarrow> nat \<times> nat \<times> BitStream" where
  "Serialize_ranges maxBits [] bitsWritten countWritten tempBS = (bitsWritten, countWritten, tempBS)"
| "Serialize_ranges maxBits (r # rs) bitsWritten countWritten tempBS =
    (if 16 + bitsWritten + 32 * 2 + 1 > maxBits then (bitsWritten, countWritten, tempBS)
     else
       let minEqualsMax = (if minIndex r = maxIndex r then 1 else 0) :: u8;
           bs1 = Write_uint24 (minIndex r) (Write_int minEqualsMax tempBS);
           bitsWritten1 = bitsWritten + 32 + 8;
           (bs2, bitsWritten2) =
             (if minIndex r \<noteq> maxIndex r then (Write_uint24 (maxIndex r) bs1, bitsWritten1 + 32)
              else (bs1, bitsWritten1))
       in Serialize_ranges maxBits rs bitsWritten2 ((countWritten + 1) mod 65536) bs2)"

definition RangeList_Serialize ::
    "(nat \<Rightarrow> u8) \<Rightarrow> BitStream \<Rightarrow> nat \<Rightarrow> bool \<Rightarrow> RangeNode list \<Rightarrow> nat \<times> BitStream \<times> RangeNode list" where
  "RangeList_Serialize fresh in0 maxBits clearSerialized ranges =
    (let (bitsWritten, countWritten, tempBS) = Serialize_ranges maxBits ranges 0 0 (BitStream_new fresh);
         in1 = AlignWriteToByteBoundary in0;
         before = numberOfBitsUsed in1;
         in2 = Write_int (of_nat countWritten :: u16) in1;
         bitsWritten' = bitsWritten + (numberOfBitsUsed in2 - before);
         (_, in3) = Write_stream tempBS (numberOfBitsUsed tempBS) in2;
         ranges' = (if clearSerialized \<and> countWritten \<noteq> 0 then drop countWritten ranges else ranges)
     in (bitsWritten', in3, ranges'))"

definition DeserializeSingleRange :: "BitStream \<Rightarrow> (u24 \<times> u24) option \<times> BitStream" where
  "DeserializeSingleRange out0 =
    (case Read_int out0 of
       (None, out1) \<Rightarrow> (None, out1)
     | (Some (maxEqualToMin :: u8), out1) \<Rightarrow>
         (case Read_uint24 out1 of
            (None, out2) \<Rightarrow> (None, out2)
          | (Some mn, out2) \<Rightarrow>
              if maxEqualToMin = 0 then
                (case Read_uint24 out2 of
                   (None, out3) \<Rightarrow> (None, out3)
                 | (Some mx, out3) \<Rightarrow> if mx \<le> mn then (None, out3) else (Some (mn, mx), out3))
              else (Some (mn, mn), out2)))"

fun Deserialize_loop :: "nat \<Rightarrow> u24 \<Rightarrow> RangeNode list \<Rightarrow> BitStream \<Rightarrow> bool \<times> RangeNode list \<times> BitStream" where
  "Deserialize_loop 0 absMin ranges out0 = (True, ranges, out0)"
| "Deserialize_loop (Suc n) absMin ranges out0 =
    (case DeserializeSingleRange out0 of
       (None, out1) \<Rightarrow> (False, ranges, out1)
     | (Some (mn, mx), out1) \<Rightarrow>
         if mn \<le> absMin then (False, ranges, out1)
         else Deserialize_loop n mx (ranges @ [RangeNode_of mn mx]) out1)"

definition RangeList_Deserialize :: "BitStream \<Rightarrow> bool \<times> RangeNode list \<times> BitStream" where
  "RangeList_Deserialize out0 =
    (case Read_int (AlignReadToByteBoundary out0) of
       (None, out1) \<Rightarrow> (False, [], out1)
     | (Some (cnt :: u16), out1) \<Rightarrow>
         if cnt = 0 then (True, [], out1)
         else
           (case DeserializeSingleRange out1 of
              (None, out2) \<Rightarrow> (False, [], out2)
            | (Some (mn, mx), out2) \<Rightarrow> Deserialize_loop (unat cnt - 1) mx [RangeNode_of mn mx] out2))"

section \<open>The represented set\<close>

definition range_valid :: "RangeNode \<Rightarrow> bool" where
  "range_valid r \<longleftrightarrow> minIndex r \<le> maxIndex r"

definition range_before :: "RangeNode \<Rightarrow> RangeNode \<Rightarrow> bool" where
  "range_before a b \<longleftrightarrow> minIndex a \<le> maxIndex a \<and> maxIndex a < minIndex b \<and> minIndex b \<le> maxIndex b"

definition range_wf :: "RangeNode list \<Rightarrow> bool" where
  "range_wf rs \<longleftrightarrow> (\<forall>r \<in> set rs. range_valid r) \<and> sorted_wrt range_before rs"

definition range_set :: "RangeNode list \<Rightarrow> u24 set" where
  "range_set rs = {x. \<exists>r \<in> set rs. minIndex r \<le> x \<and> x \<le> maxIndex r}"

lemma RangeNodeComp_sign:
  "RangeNodeComp x r = 0 \<longleftrightarrow> minIndex r \<le> x \<and> x \<le> maxIndex r"
  "RangeNodeComp x r < 0 \<longleftrightarrow> x < minIndex r"
  "RangeNodeComp x r \<ge> 0 \<longleftrightarrow> minIndex r \<le> x"
  "RangeNodeComp x r > 0 \<longleftrightarrow> minIndex r \<le> x \<and> maxIndex r < x"
  unfolding RangeNodeComp_def not_le [symmetric] by (simp_all del: not_le)

lemma RangeNode_of_sel [simp]: "minIndex (RangeNode_of a b) = a" "maxIndex (RangeNode_of a b) = b"
  by (simp_all add: RangeNode_of_def)

lemma RangeNode_of_eta [simp]: "RangeNode_of (minIndex r) (maxIndex r) = r"
  by (simp add: RangeNode_of_def)

interpretation rangecmp: comparison RangeNodeComp range_before "\<lambda>k d. d = RangeNode_of k k" range_valid
proof unfold_locales
  show "RangeNodeComp k a > 0" if "range_before a b" "RangeNodeComp k b \<ge> 0" for a b k
    using that unfolding RangeNodeComp_sign range_before_def by (elim conjE, intro conjI) order+
qed (simp_all add: RangeNodeComp_sign range_before_def range_valid_def)

lemma RangeList_IsWithinRange_iff:
  "range_wf rs \<Longrightarrow> RangeList_IsWithinRange x rs \<longleftrightarrow> x \<in> range_set rs"
  using rangecmp.HasData_iff [of rs x]
  by (auto simp: RangeList_IsWithinRange_def HasData_def range_wf_def range_set_def RangeNodeComp_sign)

lemma unat_Suc_word: "m < i \<Longrightarrow> unat (m + 1) = unat m + 1" for m i :: u24
  using unat_u24_less [of i] by (simp add: word_less_nat_alt unat_plus_wrap)

lemma unat_pred_word: "i < m \<Longrightarrow> unat (m - 1) = unat m - 1" for m i :: u24
  by (simp add: word_less_nat_alt unat_sub_wrap word_le_nat_alt)

lemma word_up: "m < i \<Longrightarrow> i = m + 1 \<Longrightarrow> x \<le> i \<longleftrightarrow> x = i \<or> x \<le> m" for i m x :: u24
  using unat_Suc_word [of m i] unfolding word_le_nat_alt word_unat_eq_iff by auto

lemma word_down: "i < m \<Longrightarrow> i = m - 1 \<Longrightarrow> i \<le> x \<longleftrightarrow> x = i \<or> m \<le> x" for i m x :: u24
  using unat_pred_word [of i m] unfolding word_le_nat_alt word_less_nat_alt word_unat_eq_iff by auto

lemma word_gap_up: "m < i \<Longrightarrow> i \<noteq> m + 1 \<Longrightarrow> m + 1 < i" for i m :: u24
  using unat_Suc_word [of m i] unfolding word_less_nat_alt word_unat_eq_iff by auto

lemma word_gap_down: "i < m \<Longrightarrow> i \<noteq> m - 1 \<Longrightarrow> i < m - 1" for i m :: u24
  using unat_pred_word [of i m] unfolding word_less_nat_alt word_unat_eq_iff by auto

section \<open>Insertion adds one number\<close>

lemma range_set_simps [simp]:
  "range_set [] = {}" "range_set (r # rs) = {x. minIndex r \<le> x \<and> x \<le> maxIndex r} \<union> range_set rs"
  "range_set (rs @ ss) = range_set rs \<union> range_set ss"
  by (auto simp: range_set_def)

lemma range_wf_append:
  "range_wf (A @ B) \<longleftrightarrow> range_wf A \<and> range_wf B \<and> (\<forall>a \<in> set A. \<forall>b \<in> set B. range_before a b)"
  by (auto simp: range_wf_def sorted_wrt_append)

lemma range_wf_single: "range_wf [r] \<longleftrightarrow> range_valid r"
  by (simp add: range_wf_def)

lemma range_wf_Cons: "range_wf (r # rs) \<longleftrightarrow> range_valid r \<and> range_wf rs \<and> (\<forall>b \<in> set rs. range_before r b)"
  using range_wf_append [of "[r]" rs] by (simp add: range_wf_single)

text \<open>The shape of the list around the insertion point: everything to the left lies below the
  new number, everything to the right above it.\<close>

lemma RangeList_Insert_at_end:
  assumes "GetIndexFromKey RangeNodeComp i (A @ [p]) = (length (A @ [p]), False)" "maxIndex p < i"
  shows "RangeList_Insert i (A @ [p]) =
    (if i = maxIndex p + 1 then A @ [p\<lparr>maxIndex := i\<rparr>] else A @ [p, RangeNode_of i i])"
  using assms word_gap_up [OF assms(2)]
  by (simp add: RangeList_Insert_def OrderedList_Insert_def Let_def nth_append)

lemma RangeList_Insert_middle:
  assumes "GetIndexFromKey RangeNodeComp i (A @ c # B) = (length A, False)" "i < minIndex c"
  shows "RangeList_Insert i (A @ c # B) =
    (if i \<noteq> minIndex c - 1 then A @ RangeNode_of i i # c # B
     else if A \<noteq> [] \<and> maxIndex (last A) + 1 = i then
       butlast A @ (last A)\<lparr>maxIndex := maxIndex c\<rparr> # B
     else A @ c\<lparr>minIndex := i\<rparr> # B)"
proof (cases "i = minIndex c - 1")
  case False
  then show ?thesis
    using assms word_gap_down [OF assms(2)]
    by (simp add: RangeList_Insert_def insert_at_def Let_def nth_append)
next
  case True
  show ?thesis
  proof (cases "A = []")
    case True
    then show ?thesis
      using assms \<open>i = minIndex c - 1\<close> by (simp add: RangeList_Insert_def Let_def)
  next
    case False
    then obtain A' p where A: "A = A' @ [p]" by (metis append_butlast_last_id)
    show ?thesis
      using assms True A
      by (simp add: RangeList_Insert_def Let_def nth_append remove_at_def list_update_append)
  qed
qed

lemma range_before_trans_low: "range_before a p \<Longrightarrow> minIndex p \<le> maxIndex q \<Longrightarrow> minIndex q = minIndex p \<Longrightarrow> range_before a q"
  by (simp add: range_before_def)

lemma range_extend_up:
  assumes wf: "range_wf (A @ [p])" and i: "maxIndex p < i" "i = maxIndex p + 1"
  shows "range_wf (A @ [p\<lparr>maxIndex := i\<rparr>])" "range_set (A @ [p\<lparr>maxIndex := i\<rparr>]) = insert i (range_set (A @ [p]))"
proof -
  have v: "minIndex p \<le> maxIndex p" using wf by (simp add: range_wf_append range_wf_single range_valid_def)
  then have "minIndex p \<le> i" using i(1) by order
  then show "range_wf (A @ [p\<lparr>maxIndex := i\<rparr>])"
    using wf by (auto simp: range_wf_append range_wf_single range_valid_def range_before_def)
  show "range_set (A @ [p\<lparr>maxIndex := i\<rparr>]) = insert i (range_set (A @ [p]))"
    using word_up [OF i] \<open>minIndex p \<le> i\<close> by auto
qed

lemma range_insert_between:
  assumes wf: "range_wf (A @ B)" and i: "\<forall>a \<in> set A. maxIndex a < i" "\<forall>b \<in> set B. i < minIndex b"
  shows "range_wf (A @ RangeNode_of i i # B)" "range_set (A @ RangeNode_of i i # B) = insert i (range_set (A @ B))"
proof -
  have v: "\<forall>a \<in> set A. minIndex a \<le> maxIndex a" "\<forall>b \<in> set B. minIndex b \<le> maxIndex b"
    using wf by (simp_all add: range_wf_def range_valid_def)
  then have "range_wf [RangeNode_of i i]" "\<forall>b \<in> set B. range_before (RangeNode_of i i) b"
    "\<forall>a \<in> set A. range_before a (RangeNode_of i i)"
    using i by (simp_all add: range_wf_single range_valid_def range_before_def)
  then show "range_wf (A @ RangeNode_of i i # B)"
    using wf by (simp add: range_wf_append range_wf_Cons range_wf_single)
  show "range_set (A @ RangeNode_of i i # B) = insert i (range_set (A @ B))" by auto
qed

lemma range_extend_down:
  assumes wf: "range_wf (A @ c # B)" and i: "i < minIndex c" "i = minIndex c - 1" "\<forall>a \<in> set A. maxIndex a < i"
  shows "range_wf (A @ c\<lparr>minIndex := i\<rparr> # B)"
    "range_set (A @ c\<lparr>minIndex := i\<rparr> # B) = insert i (range_set (A @ c # B))"
proof -
  have v: "i \<le> maxIndex c"
    using wf i(1) unfolding range_wf_append range_wf_Cons range_valid_def by (elim conjE) order
  then show "range_wf (A @ c\<lparr>minIndex := i\<rparr> # B)"
    using wf i by (auto simp: range_wf_append range_wf_Cons range_valid_def range_before_def)
  show "range_set (A @ c\<lparr>minIndex := i\<rparr> # B) = insert i (range_set (A @ c # B))"
    using word_down [OF i(1,2)] v by auto
qed

lemma range_join:
  assumes wf: "range_wf (A @ p # c # B)" and i: "i < minIndex c" "i = minIndex c - 1" "maxIndex p < i" "i = maxIndex p + 1"
  shows "range_wf (A @ p\<lparr>maxIndex := maxIndex c\<rparr> # B)"
    "range_set (A @ p\<lparr>maxIndex := maxIndex c\<rparr> # B) = insert i (range_set (A @ p # c # B))"
proof -
  have v: "minIndex p \<le> maxIndex p" "minIndex c \<le> maxIndex c"
    using wf by (simp_all add: range_wf_append range_wf_Cons range_valid_def)
  then have v': "minIndex p \<le> maxIndex c" "minIndex p \<le> i" using i by order+
  then show "range_wf (A @ p\<lparr>maxIndex := maxIndex c\<rparr> # B)"
    using wf by (auto simp: range_wf_append range_wf_Cons range_valid_def range_before_def)
  have "minIndex p \<le> x \<and> x \<le> maxIndex c \<longleftrightarrow>
      x = i \<or> (minIndex p \<le> x \<and> x \<le> maxIndex p) \<or> (minIndex c \<le> x \<and> x \<le> maxIndex c)" for x
  proof -
    have "unat i = unat (minIndex c) - 1" using unat_pred_word [OF i(1)] i(2) by metis
    moreover have "unat i = unat (maxIndex p) + 1" using unat_Suc_word [OF i(3)] i(4) by metis
    moreover have "unat i < unat (minIndex c)" using i(1) by (simp only: word_less_nat_alt)
    ultimately show ?thesis using v unfolding word_le_nat_alt word_unat_eq_iff by linarith
  qed
  then show "range_set (A @ p\<lparr>maxIndex := maxIndex c\<rparr> # B) = insert i (range_set (A @ p # c # B))"
    by auto
qed

lemma RangeList_Insert_correct:
  assumes wf: "range_wf rs"
  shows "range_wf (RangeList_Insert i rs) \<and> range_set (RangeList_Insert i rs) = insert i (range_set rs)"
proof (cases "rs = []")
  case True
  then show ?thesis
    by (auto simp: RangeList_Insert_def OrderedList_Insert_def GetIndexFromKey_def range_wf_single range_valid_def)
next
  case ne: False
  obtain k e where r: "GetIndexFromKey RangeNodeComp i rs = (k, e)" by force
  have s: "search_result RangeNodeComp i rs (k, e)"
    using rangecmp.search [of rs i] wf r by (simp add: range_wf_def)
  show ?thesis
  proof (cases e)
    case True
    then have "i \<in> range_set rs" using RangeList_IsWithinRange_iff [OF wf, of i] r
      by (simp add: RangeList_IsWithinRange_def)
    moreover have "RangeList_Insert i rs = rs" using ne r True by (simp add: RangeList_Insert_def)
    ultimately show ?thesis using wf by (simp add: insert_absorb)
  next
    case False
    define A where "A = take k rs"
    have k: "k \<le> length rs" using s False by (simp add: search_result_def)
    have lo': "\<And>j. j < k \<Longrightarrow> maxIndex (rs ! j) < i"
        and hi': "\<And>j. k \<le> j \<Longrightarrow> j < length rs \<Longrightarrow> i < minIndex (rs ! j)"
      using s False by (simp_all add: search_result_def RangeNodeComp_sign)
    have lo: "\<forall>a \<in> set A. maxIndex a < i"
      using lo' by (force simp: A_def in_set_conv_nth)
    have hi: "\<forall>b \<in> set (drop k rs). i < minIndex b"
    proof
      fix b assume "b \<in> set (drop k rs)"
      then obtain j where "j < length (drop k rs)" "b = drop k rs ! j" by (auto simp: in_set_conv_nth)
      then show "i < minIndex b" using hi' [of "k + j"] k by simp
    qed
    have lenA: "length A = k" using k by (simp add: A_def)
    show ?thesis
    proof (cases "drop k rs")
      case Nil
      then have rs: "rs = A" "A \<noteq> []" using ne k by (auto simp: A_def)
      then obtain A' p where A: "A = A' @ [p]" by (metis append_butlast_last_id)
      have "RangeList_Insert i rs =
          (if i = maxIndex p + 1 then A' @ [p\<lparr>maxIndex := i\<rparr>] else A' @ [p, RangeNode_of i i])"
        unfolding rs A by (rule RangeList_Insert_at_end) (use r False Nil k lo rs A in auto)
      moreover have p: "maxIndex p < i" using lo A by simp
      moreover have wf': "range_wf (A' @ [p])" using wf rs A by simp
      moreover have "range_wf (A' @ [p, RangeNode_of i i]) \<and>
          range_set (A' @ [p, RangeNode_of i i]) = insert i (range_set (A' @ [p]))"
        using range_insert_between [of "A' @ [p]" "[]" i] wf' lo A by simp
      ultimately show ?thesis
        using range_extend_up [OF wf' p] rs A by (cases "i = maxIndex p + 1") simp_all
    next
      case (Cons c B)
      then have rs: "rs = A @ c # B" by (metis A_def append_take_drop_id)
      have c: "i < minIndex c" using hi Cons by simp
      have g: "GetIndexFromKey RangeNodeComp i (A @ c # B) = (length A, False)"
        using r False lenA unfolding rs by simp
      note eq = RangeList_Insert_middle [OF g c]
      have wf': "range_wf (A @ c # B)" using wf unfolding rs .
      have 1: ?thesis if h: "i \<noteq> minIndex c - 1"
      proof -
        have hi': "\<forall>b \<in> set (c # B). i < minIndex b" using hi unfolding Cons .
        show ?thesis unfolding rs eq if_P [OF h] using range_insert_between [OF wf' lo hi'] by (rule conjI)
      qed
      have 2: ?thesis if h: "\<not> i \<noteq> minIndex c - 1" "A \<noteq> [] \<and> maxIndex (last A) + 1 = i"
      proof -
        obtain A' p where A: "A = A' @ [p]" using h(2) by (metis append_butlast_last_id)
        have p: "maxIndex p < i" "i = maxIndex p + 1" "i = minIndex c - 1" using lo h A by auto
        have "range_wf (A' @ p # c # B)" using wf' A by simp
        note j = range_join [OF this c p(3,1,2)]
        show ?thesis unfolding rs eq if_not_P [OF h(1)] if_P [OF h(2)] using j A by simp
      qed
      have 3: ?thesis if h: "\<not> i \<noteq> minIndex c - 1" "\<not> (A \<noteq> [] \<and> maxIndex (last A) + 1 = i)"
      proof -
        have "i = minIndex c - 1" using h by simp
        from range_extend_down [OF wf' c this lo] show ?thesis
          unfolding rs eq if_not_P [OF h(1)] if_not_P [OF h(2)] by (rule conjI)
      qed
      from 1 2 3 show ?thesis by blast
    qed
  qed
qed

text \<open>The branch of the insertion that would extend the range to the left of the insertion
  point upwards is never reached: the range found there always starts above the number.\<close>

lemma RangeList_Insert_no_join_right:
  assumes "range_wf (A @ p # c # B)" "i = maxIndex p + 1" "maxIndex p < i" "i < minIndex c" "i \<noteq> minIndex c - 1"
  shows "RangeList_Insert i (A @ p # c # B) = A @ p # RangeNode_of i i # c # B"
proof -
  let ?rs = "A @ p # c # B"
  obtain k e where r: "GetIndexFromKey RangeNodeComp i ?rs = (k, e)" by force
  have s: "search_result RangeNodeComp i ?rs (k, e)"
    using rangecmp.search [of ?rs i] assms(1) r by (simp add: range_wf_def)
  have notin: "i \<notin> range_set ?rs"
  proof -
    have "\<forall>a \<in> set A. maxIndex a < i" "\<forall>b \<in> set B. i < minIndex b"
    proof -
      have pc: "minIndex p \<le> maxIndex p" "minIndex c \<le> maxIndex c"
        using assms(1) by (simp_all add: range_wf_append range_wf_Cons range_valid_def)
      have "\<forall>a \<in> set A. maxIndex a < minIndex p" "\<forall>b \<in> set B. maxIndex c < minIndex b"
        using assms(1) by (simp_all add: range_wf_append range_wf_Cons range_before_def)
      then show "\<forall>a \<in> set A. maxIndex a < i" "\<forall>b \<in> set B. i < minIndex b"
        using pc assms(3,4) by (meson le_less_trans less_trans less_le_trans)+
    qed
    then show ?thesis using assms(3,4) by (auto simp: range_set_def not_le)
  qed
  then have e: "\<not> e" using RangeList_IsWithinRange_iff [OF assms(1), of i] r
    by (simp add: RangeList_IsWithinRange_def)
  have k: "k \<le> length ?rs" "\<And>j. j < k \<Longrightarrow> maxIndex (?rs ! j) < i"
      "\<And>j. k \<le> j \<Longrightarrow> j < length ?rs \<Longrightarrow> i < minIndex (?rs ! j)"
    using s e by (simp_all add: search_result_def RangeNodeComp_sign)
  have "k = Suc (length A)"
  proof (rule ccontr)
    assume "k \<noteq> Suc (length A)"
    then consider "k \<le> length A" | "Suc (length A) < k" by linarith
    then show False
    proof cases
      case 1
      then have "i < minIndex p" using k(3) [of "length A"] by simp
      moreover have "minIndex p \<le> maxIndex p"
        using assms(1) by (simp add: range_wf_append range_wf_Cons range_valid_def)
      ultimately show False using assms(3) by order
    next
      case 2
      then have "maxIndex c < i" using k(2) [of "Suc (length A)"] by (simp add: nth_append)
      moreover have "minIndex c \<le> maxIndex c"
        using assms(1) by (simp add: range_wf_append range_wf_Cons range_valid_def)
      ultimately show False using assms(4) by order
    qed
  qed
  then have "GetIndexFromKey RangeNodeComp i ((A @ [p]) @ c # B) = (length (A @ [p]), False)" using r e by simp
  from RangeList_Insert_middle [OF this assms(4)] show ?thesis using assms(5) by simp
qed

end
