(* ===== verification/RangeList_Wire.thy ===== *)
theory RangeList_Wire
  imports DS_RangeList
begin

text \<open>
  The wire format of acknowledgement and NAK lists: \<^verbatim>\<open>RangeList::Serialize\<close> and
  \<^verbatim>\<open>RangeList::Deserialize\<close>.  A range is a flag byte, the lower bound and, unless both bounds
  agree, the upper bound, each bound three bytes on a byte boundary.  The lemmas show that
  what is written is read back as a well-formed list, that the part that did not fit stays
  in the sender's list, and that the size budget is respected.
\<close>

definition range_flag :: "RangeNode \<Rightarrow> u8" where
  "range_flag r = (if minIndex r = maxIndex r then 1 else 0)"

definition range_enc :: "RangeNode \<Rightarrow> bool list" where
  "range_enc r = int_bits (range_flag r) @ uint24_bits (minIndex r) @
    (if minIndex r \<noteq> maxIndex r then uint24_bits (maxIndex r) else [])"

lemma length_range_enc: "length (range_enc r) = (if minIndex r = maxIndex r then 32 else 56)"
  by (simp add: range_enc_def)

lemma length_range_enc_bounds: "32 \<le> length (range_enc r)" "length (range_enc r) \<le> 56"
  by (simp_all add: length_range_enc)

lemma length_range_enc_mod: "length (range_enc r) mod 8 = 0"
  by (simp add: length_range_enc)

lemma align_pad_aligned: "p mod 8 = 0 \<Longrightarrow> align_pad p = []"
  by (simp add: align_pad_def align_up_mod)

lemma Write_uint24_aligned:
  "bs_inv bs \<Longrightarrow> 32 + numberOfBitsUsed bs \<le> bs_limit \<Longrightarrow> numberOfBitsUsed bs mod 8 = 0 \<Longrightarrow>
    appends bs (Write_uint24 v bs) (uint24_bits v)"
  using Write_uint24_appends [of bs v] by (simp add: align_pad_aligned)

definition write_range :: "RangeNode \<Rightarrow> BitStream \<Rightarrow> BitStream" where
  "write_range r bs =
    (let bs1 = Write_uint24 (minIndex r) (Write_int (range_flag r) bs)
     in if minIndex r \<noteq> maxIndex r then Write_uint24 (maxIndex r) bs1 else bs1)"

lemma write_range_appends:
  assumes inv: "bs_inv bs" and lim: "72 + numberOfBitsUsed bs \<le> bs_limit" and al: "numberOfBitsUsed bs mod 8 = 0"
  shows "appends bs (write_range r bs) (range_enc r)"
proof -
  let ?b1 = "Write_int (range_flag r) bs"
  have a1: "appends bs ?b1 (int_bits (range_flag r))" by (rule Write_int_appends [OF inv]) (use lim in simp)
  have u1: "numberOfBitsUsed ?b1 = numberOfBitsUsed bs + 8" using appends_used [OF a1] by simp
  let ?b2 = "Write_uint24 (minIndex r) ?b1"
  have a2: "appends ?b1 ?b2 (uint24_bits (minIndex r))"
    by (rule Write_uint24_aligned [OF appends_inv [OF a1]]) (use u1 lim al in auto)
  have u2: "numberOfBitsUsed ?b2 = numberOfBitsUsed bs + 32" using appends_used [OF a2] u1 by simp
  have a3: "appends ?b2 (Write_uint24 (maxIndex r) ?b2) (uint24_bits (maxIndex r))"
    by (rule Write_uint24_aligned [OF appends_inv [OF a2]]) (use u2 lim al in auto)
  show ?thesis
    using appends_trans [OF a1 a2] appends_trans [OF a1 appends_trans [OF a2 a3]]
    by (cases "minIndex r = maxIndex r") (simp_all add: write_range_def range_enc_def Let_def)
qed

lemma Serialize_ranges_Cons:
  "Serialize_ranges maxBits (r # rs) bw cnt bs =
    (if 16 + bw + 65 > maxBits then (bw, cnt, bs)
     else Serialize_ranges maxBits rs (bw + (if minIndex r = maxIndex r then 40 else 72))
            ((cnt + 1) mod 65536) (write_range r bs))"
  by (simp add: write_range_def range_flag_def Let_def add.assoc)

definition ranges_enc :: "RangeNode list \<Rightarrow> bool list" where
  "ranges_enc rs = concat (map range_enc rs)"

lemma ranges_enc_simps [simp]:
  "ranges_enc [] = []" "ranges_enc (r # rs) = range_enc r @ ranges_enc rs"
  by (simp_all add: ranges_enc_def)

lemma length_ranges_enc: "length (ranges_enc rs) \<le> 56 * length rs" "length (ranges_enc rs) mod 8 = 0"
proof -
  show "length (ranges_enc rs) \<le> 56 * length rs"
    by (induction rs) (auto simp: length_range_enc)
  show "length (ranges_enc rs) mod 8 = 0"
    by (induction rs) (auto simp: length_range_enc mod_add_eq [symmetric, of "length _"])
qed

lemma Serialize_ranges_spec:
  assumes "bs_inv bs" "numberOfBitsUsed bs mod 8 = 0" "56 * length rs + 72 + numberOfBitsUsed bs \<le> bs_limit"
    and "cnt + length rs < 65536" "numberOfBitsUsed bs \<le> bw" "16 + numberOfBitsUsed bs \<le> maxBits"
  shows "\<exists>c bw' bs'. c \<le> length rs \<and> Serialize_ranges maxBits rs bw cnt bs = (bw', cnt + c, bs') \<and>
    appends bs bs' (ranges_enc (take c rs)) \<and> 16 + numberOfBitsUsed bs' \<le> maxBits \<and>
    (16 + bw + 65 + 72 * length rs \<le> maxBits \<longrightarrow> c = length rs) \<and> (16 + bw + 65 \<le> maxBits \<and> rs \<noteq> [] \<longrightarrow> 0 < c)"
  using assms
proof (induction rs arbitrary: bw cnt bs)
  case Nil
  then show ?case by (simp add: appends_def)
next
  case (Cons r rs)
  show ?case
  proof (cases "16 + bw + 65 > maxBits")
    case True
    then show ?thesis
      using Cons.prems by (intro exI [of _ 0] exI [of _ bw] exI [of _ bs]) (simp add: Serialize_ranges_Cons appends_def del: Serialize_ranges.simps)
  next
    case False
    let ?b = "write_range r bs" and ?bw = "bw + (if minIndex r = maxIndex r then 40 else 72)"
    have a: "appends bs ?b (range_enc r)"
      by (rule write_range_appends) (use Cons.prems in auto)
    have u: "numberOfBitsUsed ?b = numberOfBitsUsed bs + length (range_enc r)" by (rule appends_used [OF a])
    have "\<exists>c bw' bs'. c \<le> length rs \<and>
      Serialize_ranges maxBits rs ?bw (cnt + 1) ?b = (bw', cnt + 1 + c, bs') \<and>
      appends ?b bs' (ranges_enc (take c rs)) \<and> 16 + numberOfBitsUsed bs' \<le> maxBits \<and>
      (16 + ?bw + 65 + 72 * length rs \<le> maxBits \<longrightarrow> c = length rs) \<and> (16 + ?bw + 65 \<le> maxBits \<and> rs \<noteq> [] \<longrightarrow> 0 < c)"
    proof (rule Cons.IH)
      show "bs_inv ?b" by (rule appends_inv [OF a])
      show "numberOfBitsUsed ?b mod 8 = 0" using u Cons.prems(2) length_range_enc_mod [of r] by presburger
      show "56 * length rs + 72 + numberOfBitsUsed ?b \<le> bs_limit"
        using u Cons.prems(3) length_range_enc_bounds(2) [of r] by simp
      show "cnt + 1 + length rs < 65536" using Cons.prems(4) by simp
      show "numberOfBitsUsed ?b \<le> ?bw" using u Cons.prems(5) by (simp add: length_range_enc)
      show "16 + numberOfBitsUsed ?b \<le> maxBits"
        using u False Cons.prems(5) length_range_enc_bounds(2) [of r] by simp
    qed
    then obtain c bw' bs' where c: "c \<le> length rs"
      "Serialize_ranges maxBits rs ?bw (cnt + 1) ?b = (bw', cnt + 1 + c, bs')"
      "appends ?b bs' (ranges_enc (take c rs))" "16 + numberOfBitsUsed bs' \<le> maxBits"
      "16 + ?bw + 65 + 72 * length rs \<le> maxBits \<longrightarrow> c = length rs" by blast
    have "Serialize_ranges maxBits (r # rs) bw cnt bs = (bw', cnt + Suc c, bs')"
      unfolding Serialize_ranges_Cons if_not_P [OF False] using c(2) Cons.prems(4) by simp
    moreover have "appends bs bs' (ranges_enc (take (Suc c) (r # rs)))"
      using appends_trans [OF a c(3)] by simp
    moreover have "16 + bw + 65 + 72 * length (r # rs) \<le> maxBits \<longrightarrow> Suc c = length (r # rs)"
      using c(5) by auto
    ultimately show ?thesis
      using c(1,4) by (intro exI [of _ "Suc c"] exI [of _ bw'] exI [of _ bs']) (auto simp del: Serialize_ranges.simps)
  qed
qed

section \<open>Reading it back\<close>

lemma Read_uint24_aligned:
  "at bs pre (uint24_bits v) post \<Longrightarrow> length pre mod 8 = 0 \<Longrightarrow>
    Read_uint24 bs = (Some v, skip_to (length pre + 24) bs)"
  using Read_uint24_at [of bs pre v post] by (simp add: align_pad_aligned align_up_mod)

lemma DeserializeSingleRange_at:
  assumes a: "at bs pre (range_enc r) post" and al: "length pre mod 8 = 0" and v: "range_valid r"
  shows "DeserializeSingleRange bs = (Some (minIndex r, maxIndex r), skip_to (length pre + length (range_enc r)) bs)"
proof -
  let ?e1 = "int_bits (range_flag r)" and ?e2 = "uint24_bits (minIndex r)"
  let ?e3 = "if minIndex r \<noteq> maxIndex r then uint24_bits (maxIndex r) else []"
  have a1: "at bs pre (?e1 @ (?e2 @ ?e3)) post" using a by (simp add: range_enc_def)
  have r1: "Read_int bs = (Some (range_flag r), skip_to (length pre + 8) bs)"
    using Read_int_at [of bs pre "range_flag r"] a1 by (simp add: at_split)
  have a2: "at (skip_to (length pre + 8) bs) (pre @ ?e1) (?e2 @ ?e3) post" using at_skip [OF a1] by simp
  have r2: "Read_uint24 (skip_to (length pre + 8) bs) = (Some (minIndex r), skip_to (length pre + 32) bs)"
    using Read_uint24_aligned [of _ "pre @ ?e1" "minIndex r" "?e3 @ post"] a2 al by (simp add: at_split add.commute)
  have a3: "at (skip_to (length pre + 32) bs) (pre @ ?e1 @ ?e2) ?e3 post"
    using at_skip [OF a2] by (simp only: skip_to_skip_to length_append length_int_bits length_uint24_bits append.assoc)
      (simp add: add.assoc)
  show ?thesis
  proof (cases "minIndex r = maxIndex r")
    case True
    then show ?thesis using r1 r2 by (simp add: DeserializeSingleRange_def range_flag_def length_range_enc)
  next
    case False
    have "(length pre + 32) mod 8 = 0" using al by presburger
    then have "Read_uint24 (skip_to (length pre + 32) bs) = (Some (maxIndex r), skip_to (length pre + 56) bs)"
      using Read_uint24_aligned [of _ "pre @ ?e1 @ ?e2" "maxIndex r" post] a3 False by (simp add: add.commute)
    moreover have "\<not> maxIndex r \<le> minIndex r" using v False by (simp add: range_valid_def)
    ultimately show ?thesis
      using False r1 r2 by (simp add: DeserializeSingleRange_def range_flag_def length_range_enc)
  qed
qed

lemma Deserialize_loop_at:
  assumes "at bs pre (ranges_enc rs) post" "length pre mod 8 = 0" "range_wf rs" "\<forall>r \<in> set rs. absMin < minIndex r"
  shows "Deserialize_loop (length rs) absMin acc bs =
    (True, acc @ rs, skip_to (length pre + length (ranges_enc rs)) bs)"
  using assms
proof (induction rs arbitrary: bs pre absMin acc)
  case Nil
  then show ?case by (simp add: at_def skip_to_def)
next
  case (Cons r rs)
  have a: "at bs pre (range_enc r @ ranges_enc rs) post" using Cons.prems(1) by simp
  have wf: "range_valid r" "range_wf rs" "\<forall>b \<in> set rs. maxIndex r < minIndex b"
    using Cons.prems(3) by (auto simp: range_wf_Cons range_before_def)
  have s: "DeserializeSingleRange bs = (Some (minIndex r, maxIndex r), skip_to (length pre + length (range_enc r)) bs)"
    by (rule DeserializeSingleRange_at) (use a Cons.prems wf in \<open>auto simp: at_split\<close>)
  have "\<not> minIndex r \<le> absMin" using Cons.prems(4) by (simp add: not_le)
  moreover have "length (pre @ range_enc r) mod 8 = 0"
    using Cons.prems(2) length_range_enc_mod [of r] by (simp add: mod_add_eq [symmetric, of "length pre"])
  ultimately show ?case
    using s Cons.IH [OF at_skip [OF a] _ wf(2,3)] by (simp add: add.assoc)
qed

lemma RangeList_Deserialize_at:
  assumes a: "at bs pre (align_pad (length pre) @ int_bits (of_nat (length rs) :: u16) @ ranges_enc rs) post"
    and "length rs < 65536" "range_wf rs"
  shows "RangeList_Deserialize bs =
    (True, rs, skip_to (align_up (length pre) + 16 + length (ranges_enc rs)) bs)"
proof -
  let ?bs = "AlignReadToByteBoundary bs" and ?p = "pre @ align_pad (length pre)"
  let ?n = "of_nat (length rs) :: u16"
  note al = at_align [OF a]
  have p: "length ?p = align_up (length pre)" by (rule al(3))
  have n: "unat ?n = length rs" using assms(2) by (simp add: unat_of_nat)
  have r: "Read_int ?bs = (Some ?n, skip_to (align_up (length pre) + 16) bs)"
    using Read_int_at [of ?bs ?p ?n "ranges_enc rs @ post"] al(1,2) p by (simp add: at_split)
  have a2: "at (skip_to (align_up (length pre) + 16) bs) (?p @ int_bits ?n) (ranges_enc rs) post"
    using at_skip [OF al(2)] p al(1) by simp
  have m: "length (?p @ int_bits ?n) mod 8 = 0"
    using p align_up_bounds(3) [of "length pre"] by (simp add: mod_add_eq [symmetric, of "align_up _"])
  show ?thesis
  proof (cases rs)
    case Nil
    then show ?thesis using r by (simp add: RangeList_Deserialize_def)
  next
    case (Cons q qs)
    have ne: "?n \<noteq> 0" using n Cons by auto
    have "Deserialize_loop (length rs) absMin [] (skip_to (align_up (length pre) + 16) bs) =
        (True, rs, skip_to (align_up (length pre) + 16 + length (ranges_enc rs)) bs)"
      if "\<forall>r \<in> set rs. absMin < minIndex r" for absMin
      using Deserialize_loop_at [OF a2 m assms(3) that, of "[]"] p by simp
    have wf: "range_valid q" "range_wf qs" "\<forall>b \<in> set qs. maxIndex q < minIndex b"
      using assms(3) Cons by (auto simp: range_wf_Cons range_before_def)
    have a3: "at (skip_to (align_up (length pre) + 16) bs) (?p @ int_bits ?n) (range_enc q @ ranges_enc qs) post"
      using a2 Cons by simp
    have s: "DeserializeSingleRange (skip_to (align_up (length pre) + 16) bs) =
        (Some (minIndex q, maxIndex q), skip_to (align_up (length pre) + 16 + length (range_enc q)) bs)"
      using DeserializeSingleRange_at [of _ "?p @ int_bits ?n" q "ranges_enc qs @ post"] a3 m wf(1) p
      by (simp add: at_split)
    have "length ((?p @ int_bits ?n) @ range_enc q) mod 8 = 0"
      using m length_range_enc_mod [of q] by (metis length_append mod_add_eq mod_0 add_0)
    from Deserialize_loop_at [OF at_skip [OF a3] this wf(2,3), of "[q]"]
    have "Deserialize_loop (length qs) (maxIndex q) [q] (skip_to (align_up (length pre) + 16 + length (range_enc q)) bs) =
        (True, q # qs, skip_to (align_up (length pre) + 16 + length (range_enc q) + length (ranges_enc qs)) bs)"
      using p by (simp add: add.assoc)
    then show ?thesis
      using r s n ne Cons by (simp add: RangeList_Deserialize_def add.assoc)
  qed
qed

lemma RangeList_Serialize_appends:
  assumes "bs_inv bs" "length rs < 65536"
    and "56 * length rs + 200 + numberOfBitsUsed bs \<le> bs_limit" "16 \<le> maxBits"
  shows "\<exists>c bits bs'. c \<le> length rs \<and>
    RangeList_Serialize fresh bs maxBits True rs = (bits, bs', drop c rs) \<and>
    appends bs bs' (align_pad (numberOfBitsUsed bs) @ int_bits (of_nat c :: u16) @ ranges_enc (take c rs)) \<and>
    numberOfBitsUsed bs' = align_up (numberOfBitsUsed bs) + 16 + length (ranges_enc (take c rs)) \<and>
    numberOfBitsUsed bs' \<le> align_up (numberOfBitsUsed bs) + maxBits \<and> numberOfBitsUsed bs' \<le> bs_limit \<and>
    (81 + 72 * length rs \<le> maxBits \<longrightarrow> c = length rs) \<and> (81 \<le> maxBits \<and> rs \<noteq> [] \<longrightarrow> 0 < c)"
proof -
  let ?t0 = "BitStream_new fresh"
  obtain c bw t where c: "c \<le> length rs" "Serialize_ranges maxBits rs 0 0 ?t0 = (bw, 0 + c, t)"
    "appends ?t0 t (ranges_enc (take c rs))" "16 + numberOfBitsUsed t \<le> maxBits"
    "16 + 0 + 65 + 72 * length rs \<le> maxBits \<longrightarrow> c = length rs" "16 + 0 + 65 \<le> maxBits \<and> rs \<noteq> [] \<longrightarrow> 0 < c"
    using Serialize_ranges_spec [of ?t0 rs 0 0 maxBits] BitStream_new_inv [of fresh] assms(2-4) by auto
  let ?e = "ranges_enc (take c rs)" and ?n = "of_nat c :: u16"
  have t: "numberOfBitsUsed t = length ?e" "bs_bits t = ?e" "readOffset t = 0" "bs_inv t"
    using c(3) by (simp_all add: appends_def)
  have le: "length ?e \<le> 56 * length rs" using length_ranges_enc(1) [of "take c rs"] c(1) by simp
  let ?b1 = "AlignWriteToByteBoundary bs" and ?b2 = "Write_int ?n (AlignWriteToByteBoundary bs)"
  have a1: "appends bs ?b1 (align_pad (numberOfBitsUsed bs))"
    unfolding align_pad_def by (rule AlignWrite_appends [OF assms(1)]) (use assms(3) in simp)
  have u1: "numberOfBitsUsed ?b1 = align_up (numberOfBitsUsed bs)"
    using appends_used [OF a1] align_up_bounds(1) [of "numberOfBitsUsed bs"] by simp
  have a2: "appends ?b1 ?b2 (int_bits ?n)"
    by (rule Write_int_appends [OF appends_inv [OF a1]])
      (use u1 align_up_bounds(2) [of "numberOfBitsUsed bs"] assms(3) in simp)
  have u2: "numberOfBitsUsed ?b2 = align_up (numberOfBitsUsed bs) + 16" using appends_used [OF a2] u1 by simp
  let ?b3 = "snd (Write_stream t (numberOfBitsUsed t) ?b2)"
  have lim: "numberOfBitsUsed t + numberOfBitsUsed ?b2 \<le> bs_limit"
    using u2 t(1) le align_up_bounds(2) [of "numberOfBitsUsed bs"] assms(3) by simp
  have "rd_ok t" by (rule inv_rd_ok [OF t(4)]) (use lim in simp)
  then have a3: "appends ?b2 ?b3 ?e"
    using Write_stream_appends(2) [OF appends_inv [OF a2] lim, of t] t by simp
  have all: "appends bs ?b3 (align_pad (numberOfBitsUsed bs) @ int_bits ?n @ ?e)"
    by (rule appends_trans [OF a1 appends_trans [OF a2 a3]])
  have ser: "RangeList_Serialize fresh bs maxBits True rs = (bw + 16, ?b3, drop c rs)"
    using c(1,2) u1 u2 by (auto simp: RangeList_Serialize_def Let_def split_beta)
  have u3: "numberOfBitsUsed ?b3 = align_up (numberOfBitsUsed bs) + 16 + length ?e"
    using appends_used [OF a3] u2 by simp
  show ?thesis
    using ser c(1,4,5,6) u3 t(1) all lim u2 by (intro exI [of _ c] exI [of _ "bw + 16"] exI [of _ ?b3]) simp
qed

lemma Serialize_Deserialize:
  assumes "bs_inv bs" "readOffset bs = numberOfBitsUsed bs" "range_wf rs" "length rs < 65536"
    and "56 * length rs + 200 + numberOfBitsUsed bs \<le> bs_limit" "16 \<le> maxBits"
  shows "\<exists>c bits bs'. c \<le> length rs \<and>
    RangeList_Serialize fresh bs maxBits True rs = (bits, bs', drop c rs) \<and>
    RangeList_Deserialize bs' = (True, take c rs, skip_to (numberOfBitsUsed bs') bs') \<and>
    numberOfBitsUsed bs' \<le> align_up (numberOfBitsUsed bs) + maxBits \<and> bs_inv bs' \<and>
    (81 + 72 * length rs \<le> maxBits \<longrightarrow> c = length rs)"
proof -
  obtain c bits b where c: "c \<le> length rs" "RangeList_Serialize fresh bs maxBits True rs = (bits, b, drop c rs)"
    and a: "appends bs b (align_pad (numberOfBitsUsed bs) @ int_bits (of_nat c :: u16) @ ranges_enc (take c rs))"
    and u: "numberOfBitsUsed b = align_up (numberOfBitsUsed bs) + 16 + length (ranges_enc (take c rs))"
      "numberOfBitsUsed b \<le> align_up (numberOfBitsUsed bs) + maxBits" "numberOfBitsUsed b \<le> bs_limit"
    and all: "81 + 72 * length rs \<le> maxBits \<longrightarrow> c = length rs"
    using RangeList_Serialize_appends [OF assms(1,4-6)] by metis
  have "rd_ok b" by (rule inv_rd_ok [OF appends_inv [OF a]]) (use u in simp)
  then have "at b (bs_bits bs) (align_pad (length (bs_bits bs)) @ int_bits (of_nat (length (take c rs)) :: u16) @ ranges_enc (take c rs)) []"
    using a assms(2) c(1) by (simp add: at_def appends_def min_def)
  moreover have "range_wf (take c rs)" using assms(3) range_wf_append [of "take c rs" "drop c rs"] by simp
  ultimately have "RangeList_Deserialize b = (True, take c rs, skip_to (numberOfBitsUsed b) b)"
    using RangeList_Deserialize_at [of b "bs_bits bs" "take c rs" "[]"] assms(4) c(1) u(1) by simp
  then show ?thesis using c u(2) all appends_inv [OF a] by auto
qed

section \<open>Properties\<close>

text \<open>Inserting a datagram number into a well-formed range list adds exactly this number to
  the represented set and keeps the list well-formed; the membership test answers for the
  represented set.\<close>

theorem RangeList_Insert_adds:
  assumes "range_wf rs"
  shows "range_wf (RangeList_Insert i rs) \<and> range_set (RangeList_Insert i rs) = insert i (range_set rs) \<and>
    (RangeList_IsWithinRange x rs \<longleftrightarrow> x \<in> range_set rs)"
  using RangeList_Insert_correct [OF assms] RangeList_IsWithinRange_iff [OF assms] by blast

theorem RangeList_Insert_adds_witness:
  "range_set (RangeList_Insert 4 [RangeNode_of 1 3, RangeNode_of 5 9]) =
    insert 4 (range_set [RangeNode_of 1 3, RangeNode_of 5 9])"
  using RangeList_Insert_adds [of "[RangeNode_of 1 3, RangeNode_of 5 9]" 4 4]
  by (simp add: range_wf_def range_valid_def range_before_def)

text \<open>A number just above a range and below the next one is stored as a range of its own:
  the insertion never joins it to the range on its left, so adjacent ranges can remain in
  the list and in the acknowledgement that is sent.\<close>

theorem RangeList_Insert_never_joins_upwards:
  assumes "range_wf (A @ p # c # B)" "maxIndex p < i" "i = maxIndex p + 1" "i < minIndex c" "i \<noteq> minIndex c - 1"
  shows "RangeList_Insert i (A @ p # c # B) = A @ p # RangeNode_of i i # c # B"
  using RangeList_Insert_no_join_right assms by blast

theorem RangeList_Insert_never_joins_upwards_witness:
  "RangeList_Insert 4 ([] @ RangeNode_of 1 3 # RangeNode_of 10 12 # []) =
    [] @ RangeNode_of 1 3 # RangeNode_of 4 4 # RangeNode_of 10 12 # []"
  by (rule RangeList_Insert_never_joins_upwards) (simp_all add: range_wf_def range_valid_def range_before_def)

text \<open>Property C29: what \<open>Serialize\<close> writes, \<open>Deserialize\<close> reads back: the receiver obtains the first \<open>c\<close>
  ranges and stops behind them, the sender keeps exactly the others, all ranges are sent
  when the budget allows for them, and the bits written after alignment stay within the
  budget.\<close>

theorem RangeList_wire_round_trip:
  assumes "bs_inv bs" "readOffset bs = numberOfBitsUsed bs" "range_wf rs" "length rs < 65536"
    and "56 * length rs + 200 + numberOfBitsUsed bs \<le> bs_limit" "16 \<le> maxBits"
  shows "\<exists>c bits bs'. c \<le> length rs \<and>
    RangeList_Serialize fresh bs maxBits True rs = (bits, bs', drop c rs) \<and>
    RangeList_Deserialize bs' = (True, take c rs, skip_to (numberOfBitsUsed bs') bs') \<and>
    numberOfBitsUsed bs' \<le> align_up (numberOfBitsUsed bs) + maxBits \<and> bs_inv bs' \<and>
    (81 + 72 * length rs \<le> maxBits \<longrightarrow> c = length rs)"
  by (rule Serialize_Deserialize [OF assms])

theorem RangeList_wire_round_trip_witness:
  "\<exists>bits bs'. RangeList_Serialize (\<lambda>_. 0) (BitStream_new (\<lambda>_. 9)) 1000 True [RangeNode_of 1 3, RangeNode_of 7 7] =
      (bits, bs', []) \<and>
    RangeList_Deserialize bs' = (True, [RangeNode_of 1 3, RangeNode_of 7 7], skip_to (numberOfBitsUsed bs') bs')"
proof -
  let ?rs = "[RangeNode_of 1 3, RangeNode_of 7 7]"
  have wf: "range_wf ?rs" by (simp add: range_wf_def range_valid_def range_before_def)
  have lim: "56 * length ?rs + 200 + numberOfBitsUsed (BitStream_new (\<lambda>_. 9)) \<le> bs_limit"
    by (simp add: bs_limit_def)
  obtain c bits bs' where c: "81 + 72 * length ?rs \<le> 1000 \<longrightarrow> c = length ?rs"
    "RangeList_Serialize (\<lambda>_. 0) (BitStream_new (\<lambda>_. 9)) 1000 True ?rs = (bits, bs', drop c ?rs)"
    "RangeList_Deserialize bs' = (True, take c ?rs, skip_to (numberOfBitsUsed bs') bs')"
    using RangeList_wire_round_trip [OF BitStream_new_inv _ wf _ lim, of 1000 "\<lambda>_. 0"] by auto
  then have "c = 2" by simp
  then show ?thesis using c(2,3) by (intro exI [of _ bits] exI [of _ bs']) simp
qed

end
