(* ===== verification/BitStream_Aligned.thy ===== *)
theory BitStream_Aligned
  imports BitStream_Codec
begin

text \<open>
  The byte-aligned fast paths of the bit stream, \<^verbatim>\<open>WriteAlignedVar8/16/32\<close> and their readers,
  which store the bytes of an integer directly into the buffer.  At a byte boundary they are
  shown equal to the generic integer routines.  The second part is the algebra with which the
  message formats are assembled: \<open>aligned_writer\<close> and \<open>aligned_reader\<close> say which bits an
  operation appends to, or consumes from, a stream that stands at a byte boundary, and both
  compose.
\<close>

section \<open>The operations\<close>

definition WriteAlignedVar8 :: "u8 \<Rightarrow> BitStream \<Rightarrow> BitStream" where
  "WriteAlignedVar8 v bs0 =
    (let inByteArray = le_bytes v;
         bs = AddBitsAndReallocate (1 * 8) bs0;
         i = numberOfBitsUsed bs div 8
     in bs\<lparr>bs_data := (bs_data bs)[i := inByteArray ! 0],
           numberOfBitsUsed := w32 (numberOfBitsUsed bs + 1 * 8)\<rparr>)"

definition ReadAlignedVar8 :: "BitStream \<Rightarrow> u8 option \<times> BitStream" where
  "ReadAlignedVar8 bs =
    (let i = readOffset bs div 8
     in if GetNumberOfUnreadBits bs < 1 * 8 then (None, bs)
        else (Some (of_le_bytes [bs_data bs ! i]), bs\<lparr>readOffset := w32 (readOffset bs + 1 * 8)\<rparr>))"

definition WriteAlignedVar16 :: "u16 \<Rightarrow> BitStream \<Rightarrow> BitStream" where
  "WriteAlignedVar16 v bs0 =
    (let inByteArray = le_bytes v;
         bs = AddBitsAndReallocate (2 * 8) bs0;
         i = numberOfBitsUsed bs div 8
     in bs\<lparr>bs_data := (bs_data bs)[i := inByteArray ! 1, i + 1 := inByteArray ! 0],
           numberOfBitsUsed := w32 (numberOfBitsUsed bs + 2 * 8)\<rparr>)"

definition ReadAlignedVar16 :: "BitStream \<Rightarrow> u16 option \<times> BitStream" where
  "ReadAlignedVar16 bs =
    (let i = readOffset bs div 8
     in if GetNumberOfUnreadBits bs < 2 * 8 then (None, bs)
        else (Some (of_le_bytes [bs_data bs ! (i + 1), bs_data bs ! i]),
              bs\<lparr>readOffset := w32 (readOffset bs + 2 * 8)\<rparr>))"

definition WriteAlignedVar32 :: "u32 \<Rightarrow> BitStream \<Rightarrow> BitStream" where
  "WriteAlignedVar32 v bs0 =
    (let inByteArray = le_bytes v;
         bs = AddBitsAndReallocate (4 * 8) bs0;
         i = numberOfBitsUsed bs div 8
     in bs\<lparr>bs_data := (bs_data bs)[i := inByteArray ! 3, i + 1 := inByteArray ! 2,
                                     i + 2 := inByteArray ! 1, i + 3 := inByteArray ! 0],
           numberOfBitsUsed := w32 (numberOfBitsUsed bs + 4 * 8)\<rparr>)"

definition ReadAlignedVar32 :: "BitStream \<Rightarrow> u32 option \<times> BitStream" where
  "ReadAlignedVar32 bs =
    (let i = readOffset bs div 8
     in if GetNumberOfUnreadBits bs < 4 * 8 then (None, bs)
        else (Some (of_le_bytes [bs_data bs ! (i + 3), bs_data bs ! (i + 2), bs_data bs ! (i + 1), bs_data bs ! i]),
              bs\<lparr>readOffset := w32 (readOffset bs + 4 * 8)\<rparr>))"

section \<open>At a byte boundary they are the generic routines\<close>

primrec poke :: "nat \<Rightarrow> 'a list \<Rightarrow> 'a list \<Rightarrow> 'a list" where
  "poke i [] d = d"
| "poke i (x # xs) d = poke (i + 1) xs (d[i := x])"

lemma poke_memcpy: "q + length xs \<le> length d \<Longrightarrow> poke q xs d = memcpy_at q xs d"
proof (induction xs arbitrary: q d)
  case Nil
  then show ?case by (simp add: memcpy_at_def)
next
  case (Cons x xs)
  have "poke (q + 1) xs (d[q := x]) = memcpy_at (q + 1) xs (d[q := x])"
    by (rule Cons.IH) (use Cons.prems in simp)
  also have "\<dots> = memcpy_at q (x # xs) d"
    using Cons.prems by (simp add: memcpy_at_def take_Suc_conv_app_nth)
  finally show ?case by simp
qed

lemma aligned_room:
  assumes "bs_inv bs" "8 * k + numberOfBitsUsed bs \<le> bs_limit" "numberOfBitsUsed bs mod 8 = 0"
  shows "numberOfBitsUsed bs div 8 + k \<le> length (bs_data (AddBitsAndReallocate (8 * k) bs))"
proof -
  obtain q where "numberOfBitsUsed bs = 8 * q" using assms(3) by (auto simp: mod_0_imp_dvd elim: dvdE)
  then show ?thesis using AddBits_room(1) [OF assms(1,2)] by simp
qed

lemma Write_int_aligned:
  fixes v :: "'a::len word"
  assumes "bs_inv bs" "8 * k + numberOfBitsUsed bs \<le> bs_limit" "numberOfBitsUsed bs mod 8 = 0"
    and "LENGTH('a) = 8 * k"
  shows "Write_int v bs = (AddBitsAndReallocate (8 * k) bs)
    \<lparr>bs_data := poke (numberOfBitsUsed bs div 8) (wire_bytes v) (bs_data (AddBitsAndReallocate (8 * k) bs)),
     numberOfBitsUsed := w32 (numberOfBitsUsed bs + 8 * k)\<rparr>"
  using assms aligned_room [OF assms(1-3)] poke_memcpy [of "numberOfBitsUsed bs div 8" "wire_bytes v"]
  unfolding Write_int_wire WriteBits_def by (simp add: Let_def)

lemma wire_bytes_nth:
  "wire_bytes (a :: u8) = [le_bytes a ! 0]"
  "wire_bytes (b :: u16) = [le_bytes b ! 1, le_bytes b ! 0]"
  "wire_bytes (c :: u32) = [le_bytes c ! 3, le_bytes c ! 2, le_bytes c ! 1, le_bytes c ! 0]"
  by (simp_all add: wire_bytes_def le_bytes_def upt_rec)

lemma WriteAlignedVar_eq:
  assumes "bs_inv bs" "32 + numberOfBitsUsed bs \<le> bs_limit" "numberOfBitsUsed bs mod 8 = 0"
  shows "WriteAlignedVar8 a bs = Write_int a bs" "WriteAlignedVar16 b bs = Write_int b bs"
    "WriteAlignedVar32 c bs = Write_int c bs"
proof -
  have l: "8 * k + numberOfBitsUsed bs \<le> bs_limit" if "k \<le> 4" for k using assms(2) that by linarith
  have n: "numberOfBitsUsed bs div 8 + 1 + 1 = numberOfBitsUsed bs div 8 + 2"
    "numberOfBitsUsed bs div 8 + 2 + 1 = numberOfBitsUsed bs div 8 + 3" by simp_all
  show "WriteAlignedVar8 a bs = Write_int a bs"
    using Write_int_aligned [OF assms(1) l assms(3), of 1 a]
    by (simp only: WriteAlignedVar8_def Let_def wire_bytes_nth AddBits_frame poke.simps n) simp
  show "WriteAlignedVar16 b bs = Write_int b bs"
    using Write_int_aligned [OF assms(1) l assms(3), of 2 b]
    by (simp only: WriteAlignedVar16_def Let_def wire_bytes_nth AddBits_frame poke.simps n) simp
  show "WriteAlignedVar32 c bs = Write_int c bs"
    using Write_int_aligned [OF assms(1) l assms(3), of 4 c]
    by (simp only: WriteAlignedVar32_def Let_def wire_bytes_nth AddBits_frame poke.simps n) simp
qed

lemma Read_int_aligned:
  assumes "rd_ok bs" "readOffset bs mod 8 = 0" "readOffset bs + 8 * k \<le> numberOfBitsUsed bs"
    and "LENGTH('a) = 8 * k"
  shows "(Read_int bs :: 'a::len word option \<times> BitStream) =
    (Some (of_le_bytes (rev (map (\<lambda>j. bs_data bs ! (readOffset bs div 8 + j)) [0..<k]))),
     bs\<lparr>readOffset := w32 (readOffset bs + 8 * k)\<rparr>)"
proof -
  have k: "0 < k" using assms(4) len_gt_0 [where 'a='a] by (cases k) auto
  obtain q where q: "readOffset bs = 8 * q" using assms(2) by (auto simp: mod_0_imp_dvd elim: dvdE)
  have "q + k \<le> length (bs_data bs)" using assms(1,3) q by (simp add: rd_ok_def)
  then have t: "take k (drop q (bs_data bs)) = map (\<lambda>j. bs_data bs ! (q + j)) [0..<k]"
    by (intro list_eq_by_nth) simp_all
  have "\<not> GetNumberOfUnreadBits bs < 8 * k" using assms(3) by (simp add: GetNumberOfUnreadBits_def)
  then have r: "ReadBits (8 * k) True bs =
      (Some (map (\<lambda>j. bs_data bs ! (q + j)) [0..<k]), bs\<lparr>readOffset := w32 (readOffset bs + 8 * k)\<rparr>)"
    using k q t by (simp add: ReadBits_def Let_def)
  have "k = 1 \<Longrightarrow> rev (map (\<lambda>j. bs_data bs ! (q + j)) [0..<k]) = map (\<lambda>j. bs_data bs ! (q + j)) [0..<k]"
    by simp
  then show ?thesis
    using r assms(4) q by (cases "k = 1") (simp_all add: Read_int_def ReverseBytes_rev mult.commute)
qed

lemma ReadAlignedVar_eq:
  assumes "rd_ok bs" "readOffset bs mod 8 = 0"
  shows "readOffset bs + 8 \<le> numberOfBitsUsed bs \<Longrightarrow> ReadAlignedVar8 bs = Read_int bs"
    and "readOffset bs + 16 \<le> numberOfBitsUsed bs \<Longrightarrow> ReadAlignedVar16 bs = Read_int bs"
    and "readOffset bs + 32 \<le> numberOfBitsUsed bs \<Longrightarrow> ReadAlignedVar32 bs = Read_int bs"
proof -
  have u: "\<not> GetNumberOfUnreadBits bs < k" if "readOffset bs + k \<le> numberOfBitsUsed bs" for k
    using that by (simp add: GetNumberOfUnreadBits_def)
  have "[0..<2] = [0, 1 :: nat]" "[0..<4] = [0, 1, 2, 3 :: nat]" by (simp_all add: upt_rec)
  note l = this
  show "ReadAlignedVar8 bs = Read_int bs" if "readOffset bs + 8 \<le> numberOfBitsUsed bs"
    using Read_int_aligned [OF assms, of 1, where 'a=8] that u [OF that] by (simp add: ReadAlignedVar8_def)
  show "ReadAlignedVar16 bs = Read_int bs" if "readOffset bs + 16 \<le> numberOfBitsUsed bs"
    using Read_int_aligned [OF assms, of 2, where 'a=16] that u [OF that] by (simp add: ReadAlignedVar16_def Let_def l)
  show "ReadAlignedVar32 bs = Read_int bs" if "readOffset bs + 32 \<le> numberOfBitsUsed bs"
    using Read_int_aligned [OF assms, of 4, where 'a=32] that u [OF that] by (simp add: ReadAlignedVar32_def Let_def l)
qed

lemma ReadAlignedVar_short:
  "numberOfBitsUsed bs < readOffset bs + 8 \<Longrightarrow> ReadAlignedVar8 bs = (None, bs) \<and> ReadAlignedVar8 bs = Read_int bs"
  "numberOfBitsUsed bs < readOffset bs + 16 \<Longrightarrow> ReadAlignedVar16 bs = (None, bs) \<and> ReadAlignedVar16 bs = Read_int bs"
  "numberOfBitsUsed bs < readOffset bs + 32 \<Longrightarrow> ReadAlignedVar32 bs = (None, bs) \<and> ReadAlignedVar32 bs = Read_int bs"
  by (auto simp: ReadAlignedVar8_def ReadAlignedVar16_def ReadAlignedVar32_def Read_int_def ReadBits_def GetNumberOfUnreadBits_def Let_def)

section \<open>Composing aligned writers and readers\<close>

definition aligned_writer :: "(BitStream \<Rightarrow> BitStream) \<Rightarrow> bool list \<Rightarrow> bool" where
  "aligned_writer f bits \<longleftrightarrow> 8 dvd length bits \<and>
    (\<forall>bs. bs_inv bs \<and> numberOfBitsUsed bs mod 8 = 0 \<and> numberOfBitsUsed bs + length bits + 32 \<le> bs_limit \<longrightarrow>
       appends bs (f bs) bits)"

named_theorems aligned_writers "which bits an operation appends at a byte boundary"

lemma aligned_writer_comp:
  assumes "aligned_writer f xs" "aligned_writer g ys"
  shows "aligned_writer (\<lambda>bs. g (f bs)) (xs @ ys)"
  unfolding aligned_writer_def
proof (intro conjI allI impI)
  show "8 dvd length (xs @ ys)" using assms by (simp add: aligned_writer_def)
  fix bs assume bs: "bs_inv bs \<and> numberOfBitsUsed bs mod 8 = 0 \<and>
    numberOfBitsUsed bs + length (xs @ ys) + 32 \<le> bs_limit"
  then have a: "appends bs (f bs) xs" using assms(1) by (simp add: aligned_writer_def)
  have "(numberOfBitsUsed bs + length xs) mod 8 = 0"
    using bs assms(1) by (simp add: aligned_writer_def mod_add_eq dvd_eq_mod_eq_0 [symmetric])
  then have "appends (f bs) (g (f bs)) ys"
    using assms(2) bs appends_inv [OF a] appends_used [OF a] by (simp add: aligned_writer_def)
  then show "appends bs (g (f bs)) (xs @ ys)" by (rule appends_trans [OF a])
qed

lemma aligned_writer_if:
  "(c \<Longrightarrow> aligned_writer f xs) \<Longrightarrow> (\<not> c \<Longrightarrow> aligned_writer g ys) \<Longrightarrow>
    aligned_writer (\<lambda>bs. if c then f bs else g bs) (if c then xs else ys)"
  by (cases c) simp_all

lemma aligned_writer_id [aligned_writers]: "aligned_writer (\<lambda>bs. bs) []"
  by (simp add: aligned_writer_def appends_def)

lemma aligned_writer_align [aligned_writers]: "aligned_writer AlignWriteToByteBoundary []"
  unfolding aligned_writer_def
proof (intro conjI allI impI)
  fix bs assume "bs_inv bs \<and> numberOfBitsUsed bs mod 8 = 0 \<and> numberOfBitsUsed bs + length [] + 32 \<le> bs_limit"
  then show "appends bs (AlignWriteToByteBoundary bs) []"
    using AlignWrite_appends [of bs] align_up_mod [of "numberOfBitsUsed bs"] by simp
qed simp

lemma aligned_writer_uint24 [aligned_writers]: "aligned_writer (Write_uint24 v) (uint24_bits v)"
  unfolding aligned_writer_def
proof (intro conjI allI impI)
  fix bs assume "bs_inv bs \<and> numberOfBitsUsed bs mod 8 = 0 \<and>
    numberOfBitsUsed bs + length (uint24_bits v) + 32 \<le> bs_limit"
  then show "appends bs (Write_uint24 v bs) (uint24_bits v)"
    using Write_uint24_appends [of bs v] align_up_mod [of "numberOfBitsUsed bs"] by (simp add: align_pad_def)
qed simp

lemma aligned_writer_int [aligned_writers]:
  fixes w :: "'a::len word"
  assumes "8 dvd LENGTH('a)"
  shows "aligned_writer (Write_int w) (int_bits w)"
  using assms Write_int_appends [of _ w] by (auto simp: aligned_writer_def)

lemma aligned_writer_var [aligned_writers]:
  "aligned_writer (WriteAlignedVar8 a) (int_bits a)"
  "aligned_writer (WriteAlignedVar16 b) (int_bits b)"
  "aligned_writer (WriteAlignedVar32 c) (int_bits c)"
  using aligned_writer_int [of a] aligned_writer_int [of b] aligned_writer_int [of c]
  by (simp_all add: aligned_writer_def WriteAlignedVar_eq)

lemma aligned_writer_bytes [aligned_writers]:
  "aligned_writer (WriteAlignedBytes bytes) (input_bits bytes (8 * length bytes) True)"
  unfolding aligned_writer_def
proof (intro conjI allI impI)
  fix bs assume "bs_inv bs \<and> numberOfBitsUsed bs mod 8 = 0 \<and>
    numberOfBitsUsed bs + length (input_bits bytes (8 * length bytes) True) + 32 \<le> bs_limit"
  then show "appends bs (WriteAlignedBytes bytes bs) (input_bits bytes (8 * length bytes) True)"
    using WriteAlignedBytes_appends [of bs bytes] align_up_mod [of "numberOfBitsUsed bs"]
    by (simp add: align_pad_def input_bits_def)
qed (simp add: input_bits_def)

text \<open>What a reader returns, and where it leaves the stream, at a byte boundary.\<close>

definition aligned_reader :: "(BitStream \<Rightarrow> 'v option \<times> BitStream) \<Rightarrow> 'v \<Rightarrow> bool list \<Rightarrow> bool" where
  "aligned_reader r v bits \<longleftrightarrow> 8 dvd length bits \<and>
    (\<forall>bs pre post. length pre mod 8 = 0 \<and> at bs pre bits post \<longrightarrow>
       r bs = (Some v, skip_to (length pre + length bits) bs))"

lemma aligned_reader_step:
  assumes "aligned_reader r v bits" "at bs pre (bits @ rest) post" "length pre mod 8 = 0"
  shows "r bs = (Some v, skip_to (length pre + length bits) bs)"
    and "at (skip_to (length pre + length bits) bs) (pre @ bits) rest post"
    and "length (pre @ bits) mod 8 = 0"
  using assms at_skip [OF assms(2)]
  by (auto simp: aligned_reader_def at_split mod_add_eq dvd_eq_mod_eq_0 [symmetric])

lemma aligned_reader_uint24: "aligned_reader Read_uint24 v (uint24_bits v)"
  unfolding aligned_reader_def
proof (intro conjI allI impI)
  fix bs pre post assume a: "length pre mod 8 = 0 \<and> at bs pre (uint24_bits v) post"
  then have "align_pad (length pre) = []" by (simp add: align_pad_def align_up_mod)
  then show "Read_uint24 bs = (Some v, skip_to (length pre + length (uint24_bits v)) bs)"
    using Read_uint24_at [of bs pre v post] a align_up_mod [of "length pre"] by simp
qed simp

lemma aligned_reader_int:
  fixes w :: "'a::len word"
  assumes "8 dvd LENGTH('a)"
  shows "aligned_reader Read_int w (int_bits w)"
  using assms Read_int_at by (auto simp: aligned_reader_def)

lemma aligned_reader_var:
  "aligned_reader ReadAlignedVar8 a (int_bits a)"
  "aligned_reader ReadAlignedVar16 b (int_bits b)"
  "aligned_reader ReadAlignedVar32 c (int_bits c)"
proof -
  have x: "rd_ok bs" "readOffset bs mod 8 = 0" "readOffset bs + length bits \<le> numberOfBitsUsed bs"
    if "length pre mod 8 = 0 \<and> at bs pre bits post" for bs pre bits post
    using that at_bounds [of bs pre bits post] by (auto simp: at_def)
  have var: "aligned_reader r w (int_bits w)"
    if "8 dvd LENGTH('a)" and "\<And>bs. rd_ok bs \<Longrightarrow> readOffset bs mod 8 = 0 \<Longrightarrow>
      readOffset bs + LENGTH('a) \<le> numberOfBitsUsed bs \<Longrightarrow> r bs = Read_int bs" for r and w :: "'a::len word"
    unfolding aligned_reader_def
  proof (intro conjI allI impI)
    fix bs pre post assume a: "length pre mod 8 = 0 \<and> at bs pre (int_bits w) post"
    have "r bs = Read_int bs" by (rule that(2)) (use x [OF a] that(1) in simp_all)
    then show "r bs = (Some w, skip_to (length pre + length (int_bits w)) bs)"
      using Read_int_at [OF conjunct2 [OF a] that(1)] that(1) by simp
  qed (use that(1) in simp)
  show "aligned_reader ReadAlignedVar8 a (int_bits a)" by (rule var) (simp_all add: ReadAlignedVar_eq)
  show "aligned_reader ReadAlignedVar16 b (int_bits b)" by (rule var) (simp_all add: ReadAlignedVar_eq)
  show "aligned_reader ReadAlignedVar32 c (int_bits c)" by (rule var) (simp_all add: ReadAlignedVar_eq)
qed

lemma AlignRead_aligned:
  "at bs pre x post \<Longrightarrow> length pre mod 8 = 0 \<Longrightarrow> AlignReadToByteBoundary bs = bs"
proof -
  assume a: "at bs pre x post" "length pre mod 8 = 0"
  then have "align_pad (length pre) = []" by (simp add: align_pad_def align_up_mod)
  then have "AlignReadToByteBoundary bs = skip_to (align_up (length pre)) bs"
    using at_align(1) [of bs pre x post] a by simp
  then show ?thesis using a by (simp add: align_up_mod at_def skip_to_def)
qed

lemma aligned_reader_bytes:
  assumes "bytes \<noteq> []"
  shows "aligned_reader (ReadAlignedBytes (length bytes)) bytes (input_bits bytes (8 * length bytes) True)"
  unfolding aligned_reader_def
proof (intro conjI allI impI)
  fix bs pre post
  assume a: "length pre mod 8 = 0 \<and> at bs pre (input_bits bytes (8 * length bytes) True) post"
  then have m: "readOffset bs mod 8 = 0" by (simp add: at_def)
  have r: "Read_bytes (length bytes) bs = (Some bytes, skip_to (length pre + 8 * length bytes) bs)"
    using Read_bytes_at [of bs pre bytes post] a assms by blast
  have al: "AlignReadToByteBoundary bs = bs" by (rule AlignRead_aligned [OF conjunct2 [OF a] conjunct1 [OF a]])
  have "\<not> length bytes * 8 > GetNumberOfUnreadBits bs"
    using r by (auto simp: Read_bytes_def)
  then have "ReadAlignedBytes (length bytes) bs = Read_bytes (length bytes) bs"
    using al m assms by (simp add: ReadAlignedBytes_def Read_bytes_def)
  then show "ReadAlignedBytes (length bytes) bs =
      (Some bytes, skip_to (length pre + length (input_bits bytes (8 * length bytes) True)) bs)"
    using r by (simp add: input_bits_def)
qed (simp add: input_bits_def)

section \<open>Properties\<close>

text \<open>
  Property C30.  The fast paths of the message headers are equivalent to the general ones: at a byte boundary \<^verbatim>\<open>WriteAlignedVar8\<close>, \<^verbatim>\<open>16\<close> and \<^verbatim>\<open>32\<close>
  leave the stream exactly as the bitwise \<^verbatim>\<open>Write\<close> does, and \<^verbatim>\<open>ReadAlignedVar8\<close>, \<^verbatim>\<open>16\<close> and \<^verbatim>\<open>32\<close> return the value and the position of the
  bitwise \<^verbatim>\<open>Read\<close>, also on a stream that is too short, where they fail and do not move.  Streams are at most \<open>2\<^sup>3\<^sup>0\<close> bits long.
\<close>

theorem aligned_access_is_generic:
  "(bs_inv bs \<and> numberOfBitsUsed bs mod 8 = 0 \<and> 32 + numberOfBitsUsed bs \<le> bs_limit \<longrightarrow>
      WriteAlignedVar8 a bs = Write_int a bs \<and> WriteAlignedVar16 b bs = Write_int b bs \<and> WriteAlignedVar32 c bs = Write_int c bs) \<and>
   (rd_ok rs \<and> readOffset rs mod 8 = 0 \<longrightarrow>
      ReadAlignedVar8 rs = Read_int rs \<and> ReadAlignedVar16 rs = Read_int rs \<and> ReadAlignedVar32 rs = Read_int rs) \<and>
   (numberOfBitsUsed rs < readOffset rs + 8 \<longrightarrow> ReadAlignedVar8 rs = (None, rs)) \<and>
   (numberOfBitsUsed rs < readOffset rs + 16 \<longrightarrow> ReadAlignedVar16 rs = (None, rs)) \<and>
   (numberOfBitsUsed rs < readOffset rs + 32 \<longrightarrow> ReadAlignedVar32 rs = (None, rs))"
  using WriteAlignedVar_eq [of bs] ReadAlignedVar_eq [of rs] ReadAlignedVar_short [of rs] by (meson not_le)

theorem aligned_access_is_generic_witness:
  "\<exists>bs. WriteAlignedVar16 258 bs = Write_int (258 :: u16) bs \<and> ReadAlignedVar32 bs = Read_int bs \<and>
     ReadAlignedVar8 (bs\<lparr>readOffset := 32\<rparr>) = (None, bs\<lparr>readOffset := 32\<rparr>)"
proof -
  let ?bs = "Write_int (7 :: u32) (BitStream_new (\<lambda>_. 9))"
  have a: "appends (BitStream_new (\<lambda>_. 9)) ?bs (int_bits (7 :: u32))"
    by (rule Write_int_appends) (use BitStream_new_inv in \<open>simp_all add: bs_limit_def\<close>)
  then have f: "bs_inv ?bs" "numberOfBitsUsed ?bs = 32" "readOffset ?bs = 0" by (auto simp: appends_def)
  have r: "rd_ok ?bs" by (rule inv_rd_ok) (use f in \<open>simp_all add: bs_limit_def\<close>)
  have "WriteAlignedVar16 258 ?bs = Write_int (258 :: u16) ?bs \<and> ReadAlignedVar32 ?bs = Read_int ?bs \<and>
      ReadAlignedVar8 (?bs\<lparr>readOffset := 32\<rparr>) = (None, ?bs\<lparr>readOffset := 32\<rparr>)"
    using aligned_access_is_generic [where bs = ?bs and b = 258 and rs = ?bs] aligned_access_is_generic [where rs = "?bs\<lparr>readOffset := 32\<rparr>"] f r by (simp add: bs_limit_def)
  then show ?thesis by blast
qed

end
