(* ===== verification/Internal_Packet.thy ===== *)
theory Internal_Packet
  imports Uint24
begin

text \<open>
  The messages of the reliability layer: \<^verbatim>\<open>struct InternalPacket\<close> of \<^verbatim>\<open>internal_packet.h\<close> with the
  enumerations of \<^verbatim>\<open>packet_priority.h\<close>.  The three 24 bit counters are \<open>u24\<close> (theory \<open>Uint24\<close>),
  \<open>ip_data\<close> is the buffer \<^verbatim>\<open>data\<close> points to, and \<open>sharedDataBlock\<close> the reference counted block all
  fragments of a split message share.  The list links \<^verbatim>\<open>resendPrev/resendNext\<close> are modelled with
  the resend list, not here.
\<close>

datatype Priority = Immediate | High | Medium | Low

datatype Reliability = Unreliable | UnreliableSequenced | Reliable | ReliableOrdered | ReliableSequenced
  | UnreliableWithAckReceipt | ReliableWithAckReceipt | ReliableOrderedWithAckReceipt

datatype AllocationScheme = NORMAL | REF_COUNTED | STACK

definition NUMBER_OF_RELIABILITIES :: nat where
  "NUMBER_OF_RELIABILITIES = 8"

definition MAXIMUM_MTU_SIZE :: nat where
  "MAXIMUM_MTU_SIZE = 1400"

record InternalPacket =
  reliableMessageNumber :: u24
  orderingIndex :: u24
  sequencingIndex :: u24
  orderingChannel :: u8
  splitPacketId :: u16
  splitPacketIndex :: u32
  splitPacketCount :: u32
  dataBitLength :: nat
  reliability :: Reliability
  messageInternalOrder :: u24
  messageNumberAssigned :: bool
  creationTime :: u64
  nextActionTime :: u64
  retransmissionTime :: u64
  headerLength :: nat
  ip_data :: "u8 list"
  allocationScheme :: AllocationScheme
  sharedDataBlock :: "u8 list option"
  timesSent :: u8
  priority :: Priority
  sendReceiptSerial :: u32
  splitOriginalBitLength :: nat

text \<open>The pool hands out a packet with the stale contents \<open>ip\<close> and resets these fields of it.\<close>

definition AllocateFromInternalPacketPool :: "InternalPacket \<Rightarrow> InternalPacket" where
  "AllocateFromInternalPacketPool ip =
    ip\<lparr>reliableMessageNumber := - 1, messageNumberAssigned := False, nextActionTime := 0,
       splitPacketCount := 0, splitPacketIndex := 0, splitPacketId := 0,
       allocationScheme := NORMAL, ip_data := [], timesSent := 0, splitOriginalBitLength := 0\<rparr>"

section \<open>The reliability classes the layer tests for\<close>

definition is_reliable :: "Reliability \<Rightarrow> bool" where
  "is_reliable r \<longleftrightarrow> r = Reliable \<or> r = ReliableSequenced \<or> r = ReliableOrdered \<or>
    r = ReliableWithAckReceipt \<or> r = ReliableOrderedWithAckReceipt"

definition is_sequenced :: "Reliability \<Rightarrow> bool" where
  "is_sequenced r \<longleftrightarrow> r = UnreliableSequenced \<or> r = ReliableSequenced"

definition is_ordered :: "Reliability \<Rightarrow> bool" where
  "is_ordered r \<longleftrightarrow> r = UnreliableSequenced \<or> r = ReliableSequenced \<or> r = ReliableOrdered \<or>
    r = ReliableOrderedWithAckReceipt"

fun reliability_code :: "Reliability \<Rightarrow> u8" where
  "reliability_code Unreliable = 0"
| "reliability_code UnreliableSequenced = 1"
| "reliability_code Reliable = 2"
| "reliability_code ReliableOrdered = 3"
| "reliability_code ReliableSequenced = 4"
| "reliability_code UnreliableWithAckReceipt = 5"
| "reliability_code ReliableWithAckReceipt = 6"
| "reliability_code ReliableOrderedWithAckReceipt = 7"

definition reliability_of :: "u8 \<Rightarrow> Reliability" where
  "reliability_of c =
    (if c = 0 then Unreliable else if c = 1 then UnreliableSequenced else if c = 2 then Reliable
     else if c = 3 then ReliableOrdered else if c = 4 then ReliableSequenced
     else if c = 5 then UnreliableWithAckReceipt else if c = 6 then ReliableWithAckReceipt
     else ReliableOrderedWithAckReceipt)"

lemma reliability_of_code [simp]: "reliability_of (reliability_code r) = r"
  by (cases r) (simp_all add: reliability_of_def)

lemma reliability_code_bound: "unat (reliability_code r) < NUMBER_OF_RELIABILITIES"
  by (cases r) (simp_all add: NUMBER_OF_RELIABILITIES_def)

text \<open>A receipt is the sender's business: on the wire the message has the plain reliability.\<close>

fun wire_reliability :: "Reliability \<Rightarrow> Reliability" where
  "wire_reliability UnreliableWithAckReceipt = Unreliable"
| "wire_reliability ReliableWithAckReceipt = Reliable"
| "wire_reliability ReliableOrderedWithAckReceipt = ReliableOrdered"
| "wire_reliability r = r"

lemma wire_reliability_classes [simp]:
  "is_reliable (wire_reliability r) = is_reliable r"
  "is_sequenced (wire_reliability r) = is_sequenced r"
  "is_ordered (wire_reliability r) = is_ordered r"
  "wire_reliability (wire_reliability r) = wire_reliability r"
  by (cases r; simp add: is_reliable_def is_sequenced_def is_ordered_def)+

text \<open>The messages that tell the application what became of one it asked a receipt for.\<close>

definition ID_SND_RECEIPT_ACKED :: u8 where
  "ID_SND_RECEIPT_ACKED = 14"

definition ID_SND_RECEIPT_LOSS :: u8 where
  "ID_SND_RECEIPT_LOSS = 15"

text \<open>A concrete message, for the evaluation of the properties.\<close>

definition demo_packet :: InternalPacket where
  "demo_packet =
    \<lparr>reliableMessageNumber = 5, orderingIndex = 9, sequencingIndex = 0, orderingChannel = 3,
     splitPacketId = 0, splitPacketIndex = 0, splitPacketCount = 0, dataBitLength = 12,
     reliability = ReliableOrderedWithAckReceipt, messageInternalOrder = 0, messageNumberAssigned = True,
     creationTime = 0, nextActionTime = 0, retransmissionTime = 0, headerLength = 0, ip_data = [200, 16],
     allocationScheme = NORMAL, sharedDataBlock = None, timesSent = 0, priority = High,
     sendReceiptSerial = 0, splitOriginalBitLength = 0\<rparr>"

end
