(* ===== verification/Message_Format.thy ===== *)
theory Message_Format
  imports BitStream_Aligned Internal_Packet
begin

text \<open>
  The wire formats of the reliability layer (\<^verbatim>\<open>reliability_layer.cpp\<close>): the header of a datagram
  (\<^verbatim>\<open>DatagramHeaderFormat\<close>) and the header and body of a message
  (\<^verbatim>\<open>WriteToBitStreamFromInternalPacket\<close>, \<^verbatim>\<open>CreateInternalPacketFromBitStream\<close>), for the shipped
  configuration \<^verbatim>\<open>INCLUDE_TIMESTAMP_WITH_DATAGRAMS == 0\<close>.  The data arrival rate \<^verbatim>\<open>float AS\<close> is kept
  as its 32 bit representation.  A read that fails leaves its target unchanged, as in the code;
  uninitialised locals and the stale packet of the pool are parameters.
\<close>

definition read_or :: "'v \<Rightarrow> 'v option \<times> BitStream \<Rightarrow> 'v" where
  "read_or old r = (case fst r of None \<Rightarrow> old | Some v \<Rightarrow> v)"

section \<open>The datagram header\<close>

record DatagramHeaderFormat =
  datagramNumber :: u24
  AS :: u32
  isACK :: bool
  isNAK :: bool
  isPacketPair :: bool
  hasBAndAS :: bool
  isContinuousSend :: bool
  needsBAndAs :: bool
  isValid :: bool

definition GetDataHeaderByteLength :: nat where
  "GetDataHeaderByteLength = 2 + 3 + 4"

definition GetDataHeaderBitLength :: nat where
  "GetDataHeaderBitLength = BYTES_TO_BITS GetDataHeaderByteLength"

definition DatagramHeader_Serialize :: "DatagramHeaderFormat \<Rightarrow> BitStream \<Rightarrow> BitStream" where
  "DatagramHeader_Serialize h b0 =
    (let b = Write_bool True b0
     in if isACK h then
          let b1 = AlignWriteToByteBoundary (Write_bool (hasBAndAS h) (Write_bool True b))
          in if hasBAndAS h then Write_int (AS h) b1 else b1
        else if isNAK h then Write_bool True (Write_bool False b)
        else
          let b1 = Write_bool False (Write_bool False b);
              b2 = Write_bool (needsBAndAs h) (Write_bool (isContinuousSend h) (Write_bool (isPacketPair h) b1))
          in Write_uint24 (datagramNumber h) (AlignWriteToByteBoundary b2))"

definition DatagramHeader_Deserialize :: "DatagramHeaderFormat \<Rightarrow> BitStream \<Rightarrow> DatagramHeaderFormat \<times> BitStream" where
  "DatagramHeader_Deserialize h0 b0 =
    (let r1 = Read_bool b0;
         h1 = h0\<lparr>isValid := read_or (isValid h0) r1\<rparr>;
         r2 = Read_bool (snd r1);
         h2 = h1\<lparr>isACK := read_or (isACK h1) r2\<rparr>
     in if isACK h2 then
          let r3 = Read_bool (snd r2);
              h3 = h2\<lparr>isNAK := False, isPacketPair := False, hasBAndAS := read_or (hasBAndAS h2) r3\<rparr>;
              b3 = AlignReadToByteBoundary (snd r3)
          in if hasBAndAS h3 then
               let r4 = Read_int b3 in (h3\<lparr>AS := read_or (AS h3) r4\<rparr>, snd r4)
             else (h3, b3)
        else
          let r3 = Read_bool (snd r2);
              h3 = h2\<lparr>isNAK := read_or (isNAK h2) r3\<rparr>
          in if isNAK h3 then (h3\<lparr>isPacketPair := False\<rparr>, snd r3)
             else
               let r4 = Read_bool (snd r3);
                   r5 = Read_bool (snd r4);
                   r6 = Read_bool (snd r5);
                   h4 = h3\<lparr>isPacketPair := read_or (isPacketPair h3) r4,
                            isContinuousSend := read_or (isContinuousSend h3) r5,
                            needsBAndAs := read_or (needsBAndAs h3) r6\<rparr>;
                   r7 = Read_uint24 (AlignReadToByteBoundary (snd r6))
               in (h4\<lparr>datagramNumber := read_or (datagramNumber h4) r7\<rparr>, snd r7))"

section \<open>The message header\<close>

definition GetMessageHeaderLengthBits :: "InternalPacket \<Rightarrow> nat" where
  "GetMessageHeaderLengthBits ip =
    8 * 1 + 8 * 2 +
    (if is_reliable (reliability ip) then 8 * 3 else 0) +
    (if is_sequenced (reliability ip) then 8 * 3 else 0) +
    (if is_ordered (reliability ip) then 8 * 3 + 8 * 1 else 0) +
    (if splitPacketCount ip > 0 then 8 * 4 + 8 * 2 + 8 * 4 else 0)"

definition GetMaxMessageHeaderLengthBits :: "InternalPacket \<Rightarrow> nat" where
  "GetMaxMessageHeaderLengthBits ip =
    GetMessageHeaderLengthBits (ip\<lparr>reliability := ReliableSequenced, splitPacketCount := 1\<rparr>)"

definition message_writer :: "InternalPacket \<Rightarrow> BitStream \<Rightarrow> BitStream" where
  "message_writer ip bs0 =
    (let bs1 = AlignWriteToByteBoundary bs0;
         tempChar =
           (if reliability ip = UnreliableWithAckReceipt then reliability_code Unreliable
            else if reliability ip = ReliableWithAckReceipt then reliability_code Reliable
            else if reliability ip = ReliableOrderedWithAckReceipt then reliability_code ReliableOrdered
            else reliability_code (reliability ip));
         bs2 = WriteBits [tempChar] 3 True bs1;
         hasSplitPacket = splitPacketCount ip > 0;
         bs3 = AlignWriteToByteBoundary (Write_bool hasSplitPacket bs2);
         bs4 = WriteAlignedVar16 (of_nat (dataBitLength ip)) bs3;
         bs5 = (if is_reliable (reliability ip) then Write_uint24 (reliableMessageNumber ip) bs4 else bs4);
         bs6 = AlignWriteToByteBoundary bs5;
         bs7 = (if is_sequenced (reliability ip) then Write_uint24 (sequencingIndex ip) bs6 else bs6);
         bs8 = (if is_ordered (reliability ip)
                then WriteAlignedVar8 (orderingChannel ip) (Write_uint24 (orderingIndex ip) bs7) else bs7);
         bs9 = (if splitPacketCount ip > 0
                then WriteAlignedVar32 (splitPacketIndex ip)
                       (WriteAlignedVar16 (splitPacketId ip) (WriteAlignedVar32 (splitPacketCount ip) bs8))
                else bs8)
     in WriteAlignedBytes (take (BITS_TO_BYTES (dataBitLength ip)) (ip_data ip)) bs9)"

definition WriteToBitStreamFromInternalPacket :: "InternalPacket \<Rightarrow> BitStream \<Rightarrow> nat \<times> BitStream" where
  "WriteToBitStreamFromInternalPacket ip bitStream =
    (let start = numberOfBitsUsed bitStream;
         bs = message_writer ip bitStream
     in (w32 (numberOfBitsUsed bs + 4294967296 - start), bs))"

text \<open>The reader in three parts: the reliable number, the ordering fields and the split fields.\<close>

definition read_reliable :: "InternalPacket \<Rightarrow> BitStream \<Rightarrow> InternalPacket \<times> BitStream" where
  "read_reliable ip bs =
    (if reliability ip = Reliable \<or> reliability ip = ReliableSequenced \<or> reliability ip = ReliableOrdered then
       let r = Read_uint24 bs
       in (ip\<lparr>reliableMessageNumber := read_or (reliableMessageNumber ip) r\<rparr>, AlignReadToByteBoundary (snd r))
     else (ip\<lparr>reliableMessageNumber := - 1\<rparr>, AlignReadToByteBoundary bs))"

definition read_ordering :: "InternalPacket \<Rightarrow> bool \<Rightarrow> BitStream \<Rightarrow> InternalPacket \<times> bool \<times> BitStream" where
  "read_ordering ip readSuccess bs =
    (let (ip1, bs1) =
           (if is_sequenced (reliability ip) then
              let r = Read_uint24 bs in (ip\<lparr>sequencingIndex := read_or (sequencingIndex ip) r\<rparr>, snd r)
            else (ip, bs))
     in if is_ordered (reliability ip) then
          let r = Read_uint24 bs1;
              c = ReadAlignedVar8 (snd r)
          in (ip1\<lparr>orderingIndex := read_or (orderingIndex ip1) r,
                 orderingChannel := read_or (orderingChannel ip1) c\<rparr>, fst c \<noteq> None, snd c)
        else (ip1\<lparr>orderingChannel := 0\<rparr>, readSuccess, bs1))"

definition read_split :: "InternalPacket \<Rightarrow> bool \<Rightarrow> bool \<Rightarrow> BitStream \<Rightarrow> InternalPacket \<times> bool \<times> BitStream" where
  "read_split ip hasSplitPacket readSuccess bs =
    (if hasSplitPacket then
       let r1 = ReadAlignedVar32 bs;
           r2 = ReadAlignedVar16 (snd r1);
           r3 = ReadAlignedVar32 (snd r2)
       in (ip\<lparr>splitPacketCount := read_or (splitPacketCount ip) r1,
              splitPacketId := read_or (splitPacketId ip) r2,
              splitPacketIndex := read_or (splitPacketIndex ip) r3\<rparr>, fst r3 \<noteq> None, snd r3)
     else (ip\<lparr>splitPacketCount := 0\<rparr>, readSuccess, bs))"

definition malformed :: "InternalPacket \<Rightarrow> u8 \<Rightarrow> bool \<Rightarrow> bool \<Rightarrow> bool" where
  "malformed ip tempChar hasSplitPacket readSuccess \<longleftrightarrow>
    readSuccess = False \<or> dataBitLength ip = 0 \<or> unat tempChar \<ge> NUMBER_OF_RELIABILITIES \<or>
    orderingChannel ip \<ge> 32 \<or> (hasSplitPacket \<and> splitPacketIndex ip \<ge> splitPacketCount ip) \<or>
    BITS_TO_BYTES (dataBitLength ip) \<ge> MAXIMUM_MTU_SIZE"

definition CreateInternalPacketFromBitStream ::
  "u8 \<Rightarrow> u16 \<Rightarrow> InternalPacket \<Rightarrow> u64 \<Rightarrow> BitStream \<Rightarrow> InternalPacket option \<times> BitStream" where
  "CreateInternalPacketFromBitStream tempChar0 s0 pool time bs0 =
    (if GetNumberOfUnreadBits bs0 < 4 * 8 then (None, bs0)
     else
       let ip0 = (AllocateFromInternalPacketPool pool)\<lparr>creationTime := time\<rparr>;
           r1 = ReadBits 3 True (AlignReadToByteBoundary bs0);
           tempChar = (case fst r1 of None \<Rightarrow> tempChar0 | Some bytes \<Rightarrow> bytes ! 0);
           r2 = Read_bool (snd r1);
           hasSplitPacket = read_or False r2;
           r3 = ReadAlignedVar16 (AlignReadToByteBoundary (snd r2));
           ip1 = ip0\<lparr>reliability := reliability_of tempChar, dataBitLength := unat (read_or s0 r3)\<rparr>;
           (ip2, bs2) = read_reliable ip1 (snd r3);
           (ip3, ok3, bs3) = read_ordering ip2 (fst r2 \<noteq> None) bs2;
           (ip4, readSuccess, bs4) = read_split ip3 hasSplitPacket ok3 bs3
       in if malformed ip4 tempChar hasSplitPacket readSuccess then (None, bs4)
          else
            let d = ReadAlignedBytes (BITS_TO_BYTES (dataBitLength ip4)) bs4
            in case fst d of
                 None \<Rightarrow> (None, snd d)
               | Some bytes \<Rightarrow> (Some (ip4\<lparr>ip_data := bytes\<rparr>), snd d))"

end
