(* ===== verification/Message_Wire.thy ===== *)
theory Message_Wire
  imports Message_Format
begin

text \<open>
  What the message format of theory \<open>Message_Format\<close> puts on the wire, bit by bit, and that the
  receiver decodes it: a message written at any position is read back with all its transmitted
  fields, the header length the sender budgets with is the one it writes, and several messages
  in one datagram are separated again.
\<close>

section \<open>The bits of a message\<close>

definition head_bits :: "InternalPacket \<Rightarrow> bool list" where
  "head_bits ip = input_bits [reliability_code (wire_reliability (reliability ip))] 3 True @
    [splitPacketCount ip > 0] @ replicate 4 False"

definition reliable_bits :: "InternalPacket \<Rightarrow> bool list" where
  "reliable_bits ip = (if is_reliable (reliability ip) then uint24_bits (reliableMessageNumber ip) else [])"

definition sequenced_bits :: "InternalPacket \<Rightarrow> bool list" where
  "sequenced_bits ip = (if is_sequenced (reliability ip) then uint24_bits (sequencingIndex ip) else [])"

definition ordered_bits :: "InternalPacket \<Rightarrow> bool list" where
  "ordered_bits ip =
    (if is_ordered (reliability ip) then uint24_bits (orderingIndex ip) @ int_bits (orderingChannel ip) else [])"

definition split_bits :: "InternalPacket \<Rightarrow> bool list" where
  "split_bits ip =
    (if splitPacketCount ip > 0
     then (int_bits (splitPacketCount ip) @ int_bits (splitPacketId ip)) @ int_bits (splitPacketIndex ip) else [])"

definition body_bytes :: "InternalPacket \<Rightarrow> u8 list" where
  "body_bytes ip = take (BITS_TO_BYTES (dataBitLength ip)) (ip_data ip)"

definition body_bits :: "InternalPacket \<Rightarrow> bool list" where
  "body_bits ip = input_bits (body_bytes ip) (8 * length (body_bytes ip)) True"

definition message_bits :: "InternalPacket \<Rightarrow> bool list" where
  "message_bits ip = head_bits ip @ int_bits (of_nat (dataBitLength ip) :: u16) @
    reliable_bits ip @ sequenced_bits ip @ ordered_bits ip @ split_bits ip @ body_bits ip"

lemma length_input_bits [simp]: "length (input_bits bytes n right) = n"
  by (simp add: input_bits_def)

lemma length_header_bits:
  "length (head_bits ip) + 16 + length (reliable_bits ip) + length (sequenced_bits ip) +
    length (ordered_bits ip) + length (split_bits ip) = GetMessageHeaderLengthBits ip"
  by (simp add: head_bits_def reliable_bits_def sequenced_bits_def ordered_bits_def split_bits_def
      GetMessageHeaderLengthBits_def)

lemma length_message_bits:
  "length (message_bits ip) = GetMessageHeaderLengthBits ip + 8 * length (body_bytes ip)"
  using length_header_bits [of ip] by (simp add: message_bits_def body_bits_def)

section \<open>Writing\<close>

lemma align_up_within: "8 dvd u \<Longrightarrow> 0 < k \<Longrightarrow> k \<le> 8 \<Longrightarrow> align_up (u + k) = u + 8"
proof -
  assume "8 dvd u" "0 < k" "k \<le> 8"
  then obtain q where "u = 8 * q" by (auto elim: dvdE)
  moreover have "(k + 7) div 8 = 1" using \<open>0 < k\<close> \<open>k \<le> 8\<close> by linarith
  moreover have "(8 * q + k + 7) div 8 = q + (k + 7) div 8" by (simp add: add.assoc)
  ultimately show ?thesis by (simp add: align_up_def)
qed

text \<open>Up to eight bits followed by an alignment fill one byte.\<close>

lemma aligned_writer_byte:
  assumes "\<And>bs. bs_inv bs \<Longrightarrow> numberOfBitsUsed bs + 8 \<le> bs_limit \<Longrightarrow> appends bs (f bs) xs"
    and "0 < length xs" "length xs \<le> 8"
  shows "aligned_writer (\<lambda>bs. AlignWriteToByteBoundary (f bs)) (xs @ replicate (8 - length xs) False)"
  unfolding aligned_writer_def
proof (intro conjI allI impI)
  show "8 dvd length (xs @ replicate (8 - length xs) False)" using assms(3) by simp
  fix bs
  assume "bs_inv bs \<and> numberOfBitsUsed bs mod 8 = 0 \<and>
    numberOfBitsUsed bs + length (xs @ replicate (8 - length xs) False) + 32 \<le> bs_limit"
  then have bs: "bs_inv bs" "8 dvd numberOfBitsUsed bs" "numberOfBitsUsed bs + 40 \<le> bs_limit"
    using assms(3) by auto
  have a: "appends bs (f bs) xs" using assms(1) bs by simp
  have u: "numberOfBitsUsed (f bs) = numberOfBitsUsed bs + length xs" by (rule appends_used [OF a])
  have up: "align_up (numberOfBitsUsed (f bs)) - numberOfBitsUsed (f bs) = 8 - length xs"
    unfolding u align_up_within [OF bs(2) assms(2,3)] by simp
  have "appends (f bs) (AlignWriteToByteBoundary (f bs))
      (replicate (align_up (numberOfBitsUsed (f bs)) - numberOfBitsUsed (f bs)) False)"
    by (rule AlignWrite_appends [OF appends_inv [OF a]]) (use u bs assms(3) in linarith)
  from appends_trans [OF a this]
  show "appends bs (AlignWriteToByteBoundary (f bs)) (xs @ replicate (8 - length xs) False)"
    unfolding up .
qed

lemma write_head:
  "aligned_writer (\<lambda>bs. AlignWriteToByteBoundary (Write_bool b (WriteBits [c] 3 True bs)))
    (input_bits [c] 3 True @ [b] @ replicate 4 False)"
proof -
  have "appends bs (Write_bool b (WriteBits [c] 3 True bs)) (input_bits [c] 3 True @ [b])"
    if "bs_inv bs" "numberOfBitsUsed bs + 8 \<le> bs_limit" for bs
  proof -
    have a: "appends bs (WriteBits [c] 3 True bs) (input_bits [c] 3 True)"
      by (rule WriteBits_appends) (use that in auto)
    have "appends (WriteBits [c] 3 True bs) (Write_bool b (WriteBits [c] 3 True bs)) [b]"
      by (rule Write_bool_appends) (use appends_inv [OF a] appends_used [OF a] that in auto)
    from appends_trans [OF a this] show ?thesis .
  qed
  from aligned_writer_byte [of _ "input_bits [c] 3 True @ [b]", OF this] show ?thesis by simp
qed

lemma wire_code_cases:
  "(if r = UnreliableWithAckReceipt then reliability_code Unreliable
    else if r = ReliableWithAckReceipt then reliability_code Reliable
    else if r = ReliableOrderedWithAckReceipt then reliability_code ReliableOrdered
    else reliability_code r) = reliability_code (wire_reliability r)"
  by (cases r) simp_all

lemma message_writer_aligned: "aligned_writer (message_writer ip) (message_bits ip)"
proof -
  let ?r = "reliability ip" and ?c = "reliability_code (wire_reliability (reliability ip))"
  note comp = aligned_writer_comp and cond = aligned_writer_if [OF _ aligned_writer_id]
  have h: "aligned_writer (\<lambda>bs. AlignWriteToByteBoundary
      (Write_bool (splitPacketCount ip > 0) (WriteBits [?c] 3 True (AlignWriteToByteBoundary bs)))) (head_bits ip)"
    using comp [OF aligned_writer_align write_head [of "splitPacketCount ip > 0" ?c]] by (simp add: head_bits_def)
  have l: "aligned_writer (WriteAlignedVar16 (of_nat (dataBitLength ip))) (int_bits (of_nat (dataBitLength ip) :: u16))"
    by (rule aligned_writers)
  have rel: "aligned_writer (\<lambda>bs. AlignWriteToByteBoundary
      (if is_reliable ?r then Write_uint24 (reliableMessageNumber ip) bs else bs)) (reliable_bits ip)"
    using comp [OF cond [OF aligned_writer_uint24, where c = "is_reliable ?r"] aligned_writer_align]
    by (simp add: reliable_bits_def)
  have seq: "aligned_writer (\<lambda>bs. if is_sequenced ?r then Write_uint24 (sequencingIndex ip) bs else bs) (sequenced_bits ip)"
    unfolding sequenced_bits_def by (rule cond [OF aligned_writer_uint24])
  have ord: "aligned_writer (\<lambda>bs. if is_ordered ?r
      then WriteAlignedVar8 (orderingChannel ip) (Write_uint24 (orderingIndex ip) bs) else bs) (ordered_bits ip)"
    unfolding ordered_bits_def by (rule cond [OF comp [OF aligned_writer_uint24 aligned_writer_var(1)]])
  have spl: "aligned_writer (\<lambda>bs. if splitPacketCount ip > 0
      then WriteAlignedVar32 (splitPacketIndex ip)
        (WriteAlignedVar16 (splitPacketId ip) (WriteAlignedVar32 (splitPacketCount ip) bs)) else bs) (split_bits ip)"
    unfolding split_bits_def
    by (rule cond [OF comp [OF comp [OF aligned_writer_var(3) aligned_writer_var(2)] aligned_writer_var(3)]])
  have body: "aligned_writer (WriteAlignedBytes (body_bytes ip)) (body_bits ip)"
    unfolding body_bits_def by (rule aligned_writers)
  note all = comp [OF h comp [OF l comp [OF rel comp [OF seq comp [OF ord comp [OF spl body]]]]]]
  have "message_writer ip = (\<lambda>bs. WriteAlignedBytes (body_bytes ip)
      ((\<lambda>bs. if splitPacketCount ip > 0 then WriteAlignedVar32 (splitPacketIndex ip)
        (WriteAlignedVar16 (splitPacketId ip) (WriteAlignedVar32 (splitPacketCount ip) bs)) else bs)
      ((\<lambda>bs. if is_ordered ?r then WriteAlignedVar8 (orderingChannel ip) (Write_uint24 (orderingIndex ip) bs) else bs)
      ((\<lambda>bs. if is_sequenced ?r then Write_uint24 (sequencingIndex ip) bs else bs)
      ((\<lambda>bs. AlignWriteToByteBoundary (if is_reliable ?r then Write_uint24 (reliableMessageNumber ip) bs else bs))
      (WriteAlignedVar16 (of_nat (dataBitLength ip)) (AlignWriteToByteBoundary
      (Write_bool (splitPacketCount ip > 0) (WriteBits [?c] 3 True (AlignWriteToByteBoundary bs))))))))))"
    unfolding message_writer_def [abs_def] Let_def wire_code_cases body_bytes_def ..
  then show ?thesis using all by (simp only: message_bits_def append_assoc)
qed

lemma message_writer_align:
  assumes "bs_inv bs" "numberOfBitsUsed bs + 8 \<le> bs_limit"
  shows "message_writer ip bs = message_writer ip (AlignWriteToByteBoundary bs)"
proof -
  note a = AlignWrite_appends [OF assms]
  have u: "numberOfBitsUsed (AlignWriteToByteBoundary bs) = align_up (numberOfBitsUsed bs)"
    using appends_used [OF a] align_up_bounds(1) [of "numberOfBitsUsed bs"] by simp
  have lim: "align_up (numberOfBitsUsed bs) < 4294967288"
    using align_up_bounds(2) [of "numberOfBitsUsed bs"] assms(2) by (simp add: bs_limit_def)
  have "AlignWriteToByteBoundary (AlignWriteToByteBoundary bs) = AlignWriteToByteBoundary bs"
    using align_step [OF lim] align_up_mod [OF align_up_bounds(3)] u
    by (simp add: AlignWriteToByteBoundary_def)
  then show ?thesis unfolding message_writer_def by (simp only:)
qed

lemma message_writer_appends:
  assumes "bs_inv bs" "numberOfBitsUsed bs + length (message_bits ip) + 40 \<le> bs_limit"
  shows "appends bs (message_writer ip bs) (align_pad (numberOfBitsUsed bs) @ message_bits ip)"
proof -
  have a: "appends bs (AlignWriteToByteBoundary bs) (align_pad (numberOfBitsUsed bs))"
    unfolding align_pad_def by (rule AlignWrite_appends) (use assms in simp_all)
  have u: "numberOfBitsUsed (AlignWriteToByteBoundary bs) = align_up (numberOfBitsUsed bs)"
    using appends_used [OF a] align_up_bounds(1) [of "numberOfBitsUsed bs"] by simp
  have "appends (AlignWriteToByteBoundary bs) (message_writer ip (AlignWriteToByteBoundary bs)) (message_bits ip)"
    using message_writer_aligned [of ip] appends_inv [OF a] u align_up_bounds [of "numberOfBitsUsed bs"] assms(2)
    by (simp add: aligned_writer_def)
  from appends_trans [OF a this] show ?thesis using message_writer_align [OF assms(1)] assms(2) by simp
qed

section \<open>Reading\<close>

text \<open>What the receiver reconstructs: the transmitted fields, the others from the pool.\<close>

definition received :: "InternalPacket \<Rightarrow> u64 \<Rightarrow> InternalPacket \<Rightarrow> InternalPacket" where
  "received pool time ip =
    (AllocateFromInternalPacketPool pool)
      \<lparr>creationTime := time,
       reliability := wire_reliability (reliability ip),
       dataBitLength := dataBitLength ip,
       reliableMessageNumber := (if is_reliable (reliability ip) then reliableMessageNumber ip else - 1),
       sequencingIndex := (if is_sequenced (reliability ip) then sequencingIndex ip else sequencingIndex pool),
       orderingIndex := (if is_ordered (reliability ip) then orderingIndex ip else orderingIndex pool),
       orderingChannel := (if is_ordered (reliability ip) then orderingChannel ip else 0),
       splitPacketCount := splitPacketCount ip,
       splitPacketId := (if splitPacketCount ip > 0 then splitPacketId ip else 0),
       splitPacketIndex := (if splitPacketCount ip > 0 then splitPacketIndex ip else 0),
       ip_data := ip_data ip\<rparr>"

definition sendable :: "InternalPacket \<Rightarrow> bool" where
  "sendable ip \<longleftrightarrow>
    0 < dataBitLength ip \<and> dataBitLength ip < 65535 \<and> BITS_TO_BYTES (dataBitLength ip) < MAXIMUM_MTU_SIZE \<and>
    length (ip_data ip) = BITS_TO_BYTES (dataBitLength ip) \<and>
    (is_ordered (reliability ip) \<longrightarrow> orderingChannel ip < 32) \<and>
    (splitPacketCount ip > 0 \<longrightarrow> splitPacketIndex ip < splitPacketCount ip)"

lemma sendable_facts:
  assumes "sendable ip"
  shows "dataBitLength ip < 65536" "body_bytes ip = ip_data ip" "ip_data ip \<noteq> []"
proof -
  have l: "0 < dataBitLength ip" "dataBitLength ip < 65535" "length (ip_data ip) = BITS_TO_BYTES (dataBitLength ip)"
    using assms by (simp_all add: sendable_def)
  then have "length (ip_data ip) = (dataBitLength ip + 7) div 8" by (simp add: BITS_TO_BYTES_def)
  then have "0 < length (ip_data ip)" using l(1) by linarith
  then show "dataBitLength ip < 65536" "body_bytes ip = ip_data ip" "ip_data ip \<noteq> []"
    using l by (auto simp: body_bytes_def)
qed

lemma read_reliable_at:
  assumes "at bs pre (reliable_bits ip @ rest) post" "length pre mod 8 = 0"
    and "reliability p = wire_reliability (reliability ip)"
  shows "read_reliable p bs =
    (p\<lparr>reliableMessageNumber := if is_reliable (reliability ip) then reliableMessageNumber ip else - 1\<rparr>,
     skip_to (length pre + length (reliable_bits ip)) bs)"
proof -
  have c: "(reliability p = Reliable \<or> reliability p = ReliableSequenced \<or> reliability p = ReliableOrdered) =
      is_reliable (reliability ip)"
    using assms(3) by (cases "reliability ip") (simp_all add: is_reliable_def)
  show ?thesis
  proof (cases "is_reliable (reliability ip)")
    case True
    then have a: "at bs pre (uint24_bits (reliableMessageNumber ip) @ rest) post"
      using assms(1) by (simp add: reliable_bits_def)
    note st = aligned_reader_step [OF aligned_reader_uint24 a assms(2)]
    show ?thesis using c True st(1) AlignRead_aligned [OF st(2,3)]
      by (simp add: read_reliable_def read_or_def reliable_bits_def)
  next
    case False
    then show ?thesis using c AlignRead_aligned [OF assms(1,2)] assms(1)
      by (simp add: read_reliable_def reliable_bits_def skip_to_def at_def)
  qed
qed

lemma read_sequenced_at:
  assumes "at bs pre (sequenced_bits ip @ rest) post" "length pre mod 8 = 0"
  shows "(if is_sequenced (reliability ip)
      then let r = Read_uint24 bs in (p\<lparr>sequencingIndex := read_or (sequencingIndex p) r\<rparr>, snd r) else (p, bs)) =
    (p\<lparr>sequencingIndex := if is_sequenced (reliability ip) then sequencingIndex ip else sequencingIndex p\<rparr>,
     skip_to (length pre + length (sequenced_bits ip)) bs)"
proof (cases "is_sequenced (reliability ip)")
  case True
  then have "at bs pre (uint24_bits (sequencingIndex ip) @ rest) post"
    using assms(1) by (simp add: sequenced_bits_def)
  from aligned_reader_step(1) [OF aligned_reader_uint24 this assms(2)]
  show ?thesis using True by (simp add: read_or_def sequenced_bits_def)
next
  case False
  then show ?thesis using assms(1) by (simp add: sequenced_bits_def skip_to_def at_def)
qed

lemma read_ordering_at:
  assumes a: "at bs pre (sequenced_bits ip @ ordered_bits ip @ rest) post" and al: "length pre mod 8 = 0"
    and "reliability p = wire_reliability (reliability ip)"
  shows "read_ordering p True bs =
    (p\<lparr>sequencingIndex := if is_sequenced (reliability ip) then sequencingIndex ip else sequencingIndex p,
       orderingIndex := if is_ordered (reliability ip) then orderingIndex ip else orderingIndex p,
       orderingChannel := if is_ordered (reliability ip) then orderingChannel ip else 0\<rparr>, True,
     skip_to (length pre + length (sequenced_bits ip) + length (ordered_bits ip)) bs)"
proof -
  let ?bs = "skip_to (length pre + length (sequenced_bits ip)) bs" and ?pre = "pre @ sequenced_bits ip"
  have a1: "at ?bs ?pre (ordered_bits ip @ rest) post" by (rule at_skip [OF a])
  have m1: "length ?pre mod 8 = 0"
    using al by (simp add: sequenced_bits_def mod_add_eq dvd_eq_mod_eq_0 [symmetric])
  show ?thesis
  proof (cases "is_ordered (reliability ip)")
    case True
    then have a2: "at ?bs ?pre (uint24_bits (orderingIndex ip) @ int_bits (orderingChannel ip) @ rest) post"
      using a1 by (simp add: ordered_bits_def)
    note s1 = aligned_reader_step [OF aligned_reader_uint24 a2 m1]
    note s2 = aligned_reader_step [OF aligned_reader_var(1) s1(2,3)]
    show ?thesis
      using read_sequenced_at [OF a al, of p] assms(3) True s1(1) s2(1)
      by (simp add: read_ordering_def read_or_def ordered_bits_def add.assoc)
  next
    case False
    then show ?thesis using read_sequenced_at [OF a al, of p] assms(3)
      by (simp add: read_ordering_def ordered_bits_def)
  qed
qed

lemma read_split_at:
  assumes a: "at bs pre (split_bits ip @ rest) post" and al: "length pre mod 8 = 0"
    and z: "splitPacketId p = 0" "splitPacketIndex p = 0"
  shows "read_split p (splitPacketCount ip > 0) True bs =
    (p\<lparr>splitPacketCount := splitPacketCount ip,
       splitPacketId := if splitPacketCount ip > 0 then splitPacketId ip else 0,
       splitPacketIndex := if splitPacketCount ip > 0 then splitPacketIndex ip else 0\<rparr>, True,
     skip_to (length pre + length (split_bits ip)) bs)"
proof (cases "splitPacketCount ip > 0")
  case True
  then have a1: "at bs pre (int_bits (splitPacketCount ip) @ int_bits (splitPacketId ip) @
      int_bits (splitPacketIndex ip) @ rest) post"
    using a by (simp add: split_bits_def)
  note s1 = aligned_reader_step [OF aligned_reader_var(3) a1 al]
  note s2 = aligned_reader_step [OF aligned_reader_var(2) s1(2,3)]
  note s3 = aligned_reader_step [OF aligned_reader_var(3) s2(2,3)]
  show ?thesis using True s1(1) s2(1) s3(1)
    by (simp add: read_split_def read_or_def split_bits_def add.assoc)
next
  case False
  then have "splitPacketCount ip = 0" by (simp add: word_gt_0)
  then show ?thesis using a z by (simp add: read_split_def split_bits_def skip_to_def at_def)
qed

lemma read_head_at:
  assumes a: "at bs pre (head_bits ip @ rest) post" and al: "length pre mod 8 = 0"
  defines "r1 \<equiv> ReadBits 3 True (AlignReadToByteBoundary bs)"
  defines "r2 \<equiv> Read_bool (snd r1)"
  shows "fst r1 = Some [reliability_code (wire_reliability (reliability ip))]"
    and "fst r2 = Some (splitPacketCount ip > 0)"
    and "AlignReadToByteBoundary (snd r2) = skip_to (length pre + 8) bs"
proof -
  let ?c = "[reliability_code (wire_reliability (reliability ip))]" and ?b = "splitPacketCount ip > 0"
  have a1: "at bs pre (input_bits ?c 3 True @ [?b] @ replicate 4 False @ rest) post"
    using a by (simp add: head_bits_def)
  have pad: "padded ?c 3"
  proof -
    have t: "take_bit 3 (reliability_code r) = reliability_code r" for r by (cases r) simp_all
    have "\<not> bit (reliability_code r) k" if "k \<ge> 3" for r k
      using that bit_take_bit_iff [of 3 "reliability_code r" k] by (simp add: t)
    then show ?thesis by (simp add: padded_def)
  qed
  have r1: "r1 = (Some ?c, skip_to (length pre + 3) bs)"
    unfolding r1_def AlignRead_aligned [OF a al]
    by (rule ReadBits_at [OF a1 [unfolded at_split [of bs pre "input_bits ?c 3 True"]] _ pad]) simp
  have a2: "at (snd r1) (pre @ input_bits ?c 3 True) ([?b] @ replicate 4 False @ rest) post"
    using at_skip [OF a1] r1 by simp
  then have a2': "at (snd r1) (pre @ input_bits ?c 3 True) [?b] (replicate 4 False @ rest @ post)"
    by (simp add: at_def)
  have r2: "r2 = (Some ?b, skip_to (length pre + 4) bs)"
    unfolding r2_def Read_bool_at [OF a2'] using r1 by (simp add: add.commute)
  have a3: "at (snd r2) (pre @ input_bits ?c 3 True @ [?b]) (replicate 4 False @ rest) post"
    using at_skip [OF a2] r1 r2 by (simp add: add.commute)
  have "8 dvd length pre" using al by presburger
  then have up: "align_up (length pre + 4) = length pre + 8" by (intro align_up_within) simp_all
  have "AlignReadToByteBoundary (snd r2) = skip_to (align_up (readOffset (snd r2))) (snd r2)"
    using a3 at_bounds [OF a3] by (intro AlignRead_skip) (simp add: at_def)
  then show "AlignReadToByteBoundary (snd r2) = skip_to (length pre + 8) bs"
    using a3 r2 up by (simp add: at_def)
  show "fst r1 = Some ?c" "fst r2 = Some ?b" using r1 r2 by simp_all
qed

lemma message_bits_min: "sendable ip \<Longrightarrow> 32 \<le> length (message_bits ip)"
  using length_message_bits [of ip] sendable_facts(2,3) [of ip]
  by (cases "ip_data ip") (auto simp: GetMessageHeaderLengthBits_def)

text \<open>A cursor is a read position at a byte boundary with the bits that follow it.\<close>

definition cursor :: "BitStream \<Rightarrow> nat \<Rightarrow> bool list \<Rightarrow> bool" where
  "cursor bs off bits \<longleftrightarrow>
    off mod 8 = 0 \<and> (\<exists>pre post. length pre = off \<and> at (skip_to off bs) pre bits post)"

lemma cursor_advance:
  assumes "cursor bs off (x @ rest)" "8 dvd length x"
  shows "cursor bs (off + length x) rest"
proof -
  obtain pre post where p: "length pre = off" "at (skip_to off bs) pre (x @ rest) post" "off mod 8 = 0"
    using assms(1) by (auto simp: cursor_def)
  have "at (skip_to (off + length x) bs) (pre @ x) rest post" using at_skip [OF p(2)] p(1) by simp
  moreover have "(off + length x) mod 8 = 0" using p(3) assms(2) by presburger
  ultimately show ?thesis unfolding cursor_def using p(1) by (intro conjI exI [of _ "pre @ x"] exI [of _ post]) auto
qed

lemma dvd_header_bits [simp]:
  "8 dvd length (head_bits ip)" "8 dvd length (reliable_bits ip)" "8 dvd length (sequenced_bits ip)"
  "8 dvd length (ordered_bits ip)" "8 dvd length (split_bits ip)" "8 dvd length (int_bits w)"
  "8 dvd length (body_bits ip)"
  by (simp_all add: head_bits_def reliable_bits_def sequenced_bits_def ordered_bits_def split_bits_def
      body_bits_def)

lemma cursor_reader:
  assumes "cursor bs off (bits @ rest)" "aligned_reader r v bits"
  shows "r (skip_to off bs) = (Some v, skip_to (off + length bits) bs)"
  using assms aligned_reader_step(1) [OF assms(2)] by (fastforce simp: cursor_def)

lemma cursorE:
  assumes "cursor bs off bits"
  obtains pre post where "off = length pre" "at (skip_to off bs) pre bits post" "length pre mod 8 = 0"
  using assms by (auto simp: cursor_def)

lemma at_cursor: "at bs pre bits post \<Longrightarrow> length pre mod 8 = 0 \<Longrightarrow> cursor bs (length pre) bits"
proof -
  assume a: "at bs pre bits post" "length pre mod 8 = 0"
  then have "skip_to (length pre) bs = bs" by (simp add: skip_to_def at_def)
  then show ?thesis unfolding cursor_def using a by metis
qed

lemma cursor_reliable:
  assumes "cursor bs off (reliable_bits ip @ rest)" "reliability p = wire_reliability (reliability ip)"
  shows "read_reliable p (skip_to off bs) =
    (p\<lparr>reliableMessageNumber := if is_reliable (reliability ip) then reliableMessageNumber ip else - 1\<rparr>,
     skip_to (off + length (reliable_bits ip)) bs)"
  using assms(1) by (rule cursorE) (use read_reliable_at [OF _ _ assms(2)] in fastforce)

lemma cursor_ordering:
  assumes "cursor bs off (sequenced_bits ip @ ordered_bits ip @ rest)"
    and "reliability p = wire_reliability (reliability ip)"
  shows "read_ordering p True (skip_to off bs) =
    (p\<lparr>sequencingIndex := if is_sequenced (reliability ip) then sequencingIndex ip else sequencingIndex p,
       orderingIndex := if is_ordered (reliability ip) then orderingIndex ip else orderingIndex p,
       orderingChannel := if is_ordered (reliability ip) then orderingChannel ip else 0\<rparr>, True,
     skip_to (off + length (sequenced_bits ip) + length (ordered_bits ip)) bs)"
  using assms(1) by (rule cursorE) (use read_ordering_at [OF _ _ assms(2)] in fastforce)

lemma cursor_split:
  assumes "cursor bs off (split_bits ip @ rest)" "splitPacketId p = 0" "splitPacketIndex p = 0"
  shows "read_split p (splitPacketCount ip > 0) True (skip_to off bs) =
    (p\<lparr>splitPacketCount := splitPacketCount ip,
       splitPacketId := if splitPacketCount ip > 0 then splitPacketId ip else 0,
       splitPacketIndex := if splitPacketCount ip > 0 then splitPacketIndex ip else 0\<rparr>, True,
     skip_to (off + length (split_bits ip)) bs)"
  using assms(1) by (rule cursorE) (use read_split_at [OF _ _ assms(2,3)] in fastforce)

lemma CreateInternalPacket_aligned:
  assumes ok: "sendable ip" and a: "at bs pre (message_bits ip) post" and al: "length pre mod 8 = 0"
  shows "CreateInternalPacketFromBitStream tempChar0 s0 pool time bs =
    (Some (received pool time ip), skip_to (length pre + length (message_bits ip)) bs)"
proof -
  let ?n = "of_nat (dataBitLength ip) :: u16" and ?o = "length pre + 8"
  let ?o2 = "?o + 16 + length (reliable_bits ip)"
  let ?o3 = "?o2 + length (sequenced_bits ip) + length (ordered_bits ip)"
  note len = length_message_bits [of ip] length_header_bits [of ip] and sf = sendable_facts [OF ok]
  have nb: "unat ?n = dataBitLength ip" using sf(1) by (simp add: unat_of_nat)
  have h8: "length (head_bits ip) = 8" by (simp add: head_bits_def)
  have a0: "at bs pre (head_bits ip @ int_bits ?n @ reliable_bits ip @
      sequenced_bits ip @ ordered_bits ip @ split_bits ip @ body_bits ip) post"
    using a by (simp add: message_bits_def)
  note hd = read_head_at [OF a0 al]
  have "cursor bs (length pre) (head_bits ip @ int_bits ?n @ reliable_bits ip @
      sequenced_bits ip @ ordered_bits ip @ split_bits ip @ body_bits ip)"
    by (rule at_cursor [OF a0 al])
  from cursor_advance [OF this]
  have c1: "cursor bs ?o (int_bits ?n @ reliable_bits ip @
      sequenced_bits ip @ ordered_bits ip @ split_bits ip @ body_bits ip)" by (simp add: h8)
  from cursor_advance [OF c1]
  have c2: "cursor bs (?o + 16) (reliable_bits ip @
      sequenced_bits ip @ ordered_bits ip @ split_bits ip @ body_bits ip)" by simp
  from cursor_advance [OF c2]
  have c3: "cursor bs ?o2 (sequenced_bits ip @ ordered_bits ip @ split_bits ip @ body_bits ip)" by simp
  from cursor_advance [OF cursor_advance [OF c3]] have c4: "cursor bs ?o3 (split_bits ip @ body_bits ip)" by simp
  from cursor_advance [OF c4] have c5: "cursor bs (?o3 + length (split_bits ip)) (body_bits ip @ [])" by simp
  have num: "ReadAlignedVar16 (skip_to ?o bs) = (Some ?n, skip_to (?o + 16) bs)"
    using cursor_reader [OF c1 aligned_reader_var(2)] by simp
  have off: "?o3 + length (split_bits ip) + 8 * length (ip_data ip) = length pre + length (message_bits ip)"
    using len h8 by (simp add: sf(2))
  have body: "ReadAlignedBytes (BITS_TO_BYTES (dataBitLength ip)) (skip_to (?o3 + length (split_bits ip)) bs) =
      (Some (ip_data ip), skip_to (length pre + length (message_bits ip)) bs)"
    using cursor_reader [OF c5 [unfolded body_bits_def sf(2)] aligned_reader_bytes [OF sf(3)]] ok
    by (simp only: sendable_def length_input_bits off)
  have guard: "\<not> GetNumberOfUnreadBits bs < 32"
    using at_unread [OF a] message_bits_min [OF ok] by simp
  define p1 where "p1 = (AllocateFromInternalPacketPool pool)
    \<lparr>creationTime := time, reliability := wire_reliability (reliability ip), dataBitLength := dataBitLength ip\<rparr>"
  define p2 where "p2 = p1\<lparr>reliableMessageNumber :=
    if is_reliable (reliability ip) then reliableMessageNumber ip else - 1\<rparr>"
  define p3 where "p3 = p2\<lparr>sequencingIndex := if is_sequenced (reliability ip) then sequencingIndex ip else sequencingIndex p2,
       orderingIndex := if is_ordered (reliability ip) then orderingIndex ip else orderingIndex p2,
       orderingChannel := if is_ordered (reliability ip) then orderingChannel ip else 0\<rparr>"
  define p4 where "p4 = p3\<lparr>splitPacketCount := splitPacketCount ip,
       splitPacketId := if splitPacketCount ip > 0 then splitPacketId ip else 0,
       splitPacketIndex := if splitPacketCount ip > 0 then splitPacketIndex ip else 0\<rparr>"
  have rels: "reliability p1 = wire_reliability (reliability ip)" "reliability p2 = wire_reliability (reliability ip)"
    and zero: "splitPacketId p3 = 0" "splitPacketIndex p3 = 0"
    by (simp_all add: p3_def p2_def p1_def AllocateFromInternalPacketPool_def)
  note steps = cursor_reliable [OF c2 rels(1), folded p2_def] cursor_ordering [OF c3 rels(2), folded p3_def]
    cursor_split [OF c4 zero, folded p4_def]
  have p4: "p4\<lparr>ip_data := ip_data ip\<rparr> = received pool time ip" "dataBitLength p4 = dataBitLength ip"
    by (simp_all add: p4_def p3_def p2_def p1_def received_def AllocateFromInternalPacketPool_def)
  have fine: "\<not> malformed p4 (reliability_code (wire_reliability (reliability ip))) (splitPacketCount ip > 0) True"
    using ok reliability_code_bound [of "wire_reliability (reliability ip)"]
    by (auto simp: malformed_def p4_def p3_def p2_def p1_def sendable_def)
  show ?thesis
    unfolding CreateInternalPacketFromBitStream_def
    using guard hd num steps fine body p4
    by (simp add: Let_def read_or_def nb p1_def [symmetric])
qed

section \<open>Messages as a codec of the bit stream\<close>

definition message_enc :: "nat \<Rightarrow> InternalPacket \<Rightarrow> bool list" where
  "message_enc p ip = align_pad p @ message_bits ip"

lemma GetMessageHeaderLengthBits_max:
  "GetMessageHeaderLengthBits ip \<le> GetMaxMessageHeaderLengthBits q"
  by (auto simp: GetMaxMessageHeaderLengthBits_def GetMessageHeaderLengthBits_def is_reliable_def
      is_sequenced_def is_ordered_def)

lemma message_bits_bound: "sendable ip \<Longrightarrow> length (message_bits ip) \<le> 11376"
  using GetMessageHeaderLengthBits_max [of ip ip] sendable_facts(2) [of ip]
  by (auto simp: length_message_bits sendable_def MAXIMUM_MTU_SIZE_def GetMaxMessageHeaderLengthBits_def
      GetMessageHeaderLengthBits_def is_reliable_def is_sequenced_def is_ordered_def)

lemma CreateInternalPacket_at:
  assumes ok: "sendable ip" and a: "at bs pre (message_enc (length pre) ip) post"
  shows "CreateInternalPacketFromBitStream tempChar0 s0 pool time bs =
    (Some (received pool time ip), skip_to (length pre + length (message_enc (length pre) ip)) bs)"
proof -
  let ?bs = "AlignReadToByteBoundary bs" and ?pre = "pre @ align_pad (length pre)"
  note al = at_align [OF a [unfolded message_enc_def]]
  have m: "length ?pre mod 8 = 0" unfolding al(3) by (rule align_up_bounds(3))
  note c = CreateInternalPacket_aligned [OF ok al(2) m]
  have "\<not> GetNumberOfUnreadBits bs < 32" "\<not> GetNumberOfUnreadBits ?bs < 32"
    using at_unread [OF a] at_unread [OF al(2)] message_bits_min [OF ok] by (simp_all add: message_enc_def)
  then have "CreateInternalPacketFromBitStream tempChar0 s0 pool time bs =
      CreateInternalPacketFromBitStream tempChar0 s0 pool time ?bs"
    using AlignRead_aligned [OF al(2) m] by (simp add: CreateInternalPacketFromBitStream_def)
  then show ?thesis unfolding c using al(1,3) align_up_bounds(1) [of "length pre"]
    by (simp add: message_enc_def)
qed

interpretation message_codec: bit_codec message_writer "CreateInternalPacketFromBitStream tempChar0 s0 pool time"
  "received pool time" message_enc 11500 sendable for tempChar0 s0 pool time
proof unfold_locales
  show b: "length (message_enc p ip) \<le> 11500" if "sendable ip" for p ip
    using message_bits_bound [OF that] align_up_bounds [of p] by (simp add: message_enc_def)
  show "appends bs (message_writer ip bs) (message_enc (numberOfBitsUsed bs) ip)"
    if "sendable ip" "bs_inv bs" "11500 + numberOfBitsUsed bs \<le> bs_limit" for ip bs
    unfolding message_enc_def
    by (rule message_writer_appends) (use that message_bits_bound [OF that(1)] in simp_all)
qed (rule CreateInternalPacket_at)

section \<open>Properties\<close>

text \<open>Property C26: a datagram body carries any sequence of messages: what
  \<open>WriteToBitStreamFromInternalPacket\<close> wrote for each of them, the same number of calls of
  \<open>CreateInternalPacketFromBitStream\<close> returns, in order, with every transmitted field and the
  data intact and acknowledgement receipts turned into the plain reliability, whatever the
  receiver's uninitialised locals and pool packets hold.\<close>

theorem messages_round_trip:
  assumes "\<forall>ip \<in> set ips. sendable ip" "bs_inv bs" "11500 * length ips + numberOfBitsUsed bs \<le> bs_limit"
    and "readOffset bs = numberOfBitsUsed bs"
  shows "fst (read_many (CreateInternalPacketFromBitStream tempChar0 s0 pool time) (length ips)
      (fold (\<lambda>ip b. snd (WriteToBitStreamFromInternalPacket ip b)) ips bs)) =
    Some (map (received pool time) ips)"
  using message_codec.round_trip_list(1) [OF assms, of tempChar0 s0 pool time]
  by (simp add: WriteToBitStreamFromInternalPacket_def Let_def)

lemma demo_packet_sendable: "sendable demo_packet"
  by (simp add: sendable_def demo_packet_def BITS_TO_BYTES_def MAXIMUM_MTU_SIZE_def)

theorem messages_round_trip_witness:
  "fst (read_many (CreateInternalPacketFromBitStream 77 88 demo_packet 1) (length [demo_packet, demo_packet])
      (fold (\<lambda>ip b. snd (WriteToBitStreamFromInternalPacket ip b)) [demo_packet, demo_packet]
        (BitStream_new (\<lambda>_. 3)))) = Some (map (received demo_packet 1) [demo_packet, demo_packet])"
  by (rule messages_round_trip)
    (use demo_packet_sendable BitStream_new_inv in \<open>simp_all add: bs_limit_def\<close>)

text \<open>The header length the sender budgets with is exact: on a byte boundary
  \<open>WriteToBitStreamFromInternalPacket\<close> reports, and writes, the bits that
  \<open>GetMessageHeaderLengthBits\<close> announces plus the bytes of the data; no header is longer than
  \<open>GetMaxMessageHeaderLengthBits\<close>.\<close>

theorem message_header_length_exact:
  assumes "bs_inv bs" "numberOfBitsUsed bs mod 8 = 0" "length (ip_data ip) = BITS_TO_BYTES (dataBitLength ip)"
    and "numberOfBitsUsed bs + GetMessageHeaderLengthBits ip + 8 * BITS_TO_BYTES (dataBitLength ip) + 40 \<le> bs_limit"
  shows "fst (WriteToBitStreamFromInternalPacket ip bs) =
      GetMessageHeaderLengthBits ip + 8 * BITS_TO_BYTES (dataBitLength ip) \<and>
    numberOfBitsUsed (snd (WriteToBitStreamFromInternalPacket ip bs)) =
      numberOfBitsUsed bs + GetMessageHeaderLengthBits ip + 8 * BITS_TO_BYTES (dataBitLength ip) \<and>
    GetMessageHeaderLengthBits ip \<le> GetMaxMessageHeaderLengthBits ip"
proof -
  have body: "body_bytes ip = ip_data ip" using assms(3) by (simp add: body_bytes_def)
  have len: "length (message_bits ip) = GetMessageHeaderLengthBits ip + 8 * BITS_TO_BYTES (dataBitLength ip)"
    using length_message_bits [of ip] assms(3) by (simp add: body)
  have "appends bs (message_writer ip bs) (align_pad (numberOfBitsUsed bs) @ message_bits ip)"
    by (rule message_writer_appends [OF assms(1)]) (use assms(4) len in simp)
  from appends_used [OF this]
  have u: "numberOfBitsUsed (message_writer ip bs) = numberOfBitsUsed bs + length (message_bits ip)"
    using assms(2) by (simp add: align_up_mod)
  have "fst (WriteToBitStreamFromInternalPacket ip bs) =
      w32 (numberOfBitsUsed (message_writer ip bs) + 4294967296 - numberOfBitsUsed bs)"
    by (simp add: WriteToBitStreamFromInternalPacket_def Let_def)
  also have "\<dots> = length (message_bits ip)"
  proof -
    have "length (message_bits ip) < 4294967296" using assms(4) len by (simp add: bs_limit_def)
    then have "(length (message_bits ip) + 4294967296) mod 4294967296 = length (message_bits ip)" by simp
    then show ?thesis unfolding u w32_def by (simp only: add.assoc add_diff_cancel_left')
  qed
  finally show ?thesis
    using u len GetMessageHeaderLengthBits_max [of ip ip]
    by (simp add: WriteToBitStreamFromInternalPacket_def Let_def)
qed

theorem message_header_length_exact_witness:
  "fst (WriteToBitStreamFromInternalPacket demo_packet (BitStream_new (\<lambda>_. 3))) = 96"
  using message_header_length_exact [OF BitStream_new_inv, of "\<lambda>_. 3" demo_packet]
  by (simp add: demo_packet_def BITS_TO_BYTES_def bs_limit_def GetMessageHeaderLengthBits_def
      is_reliable_def is_sequenced_def is_ordered_def)

end
