(* ===== verification/Datagram_Wire.thy ===== *)
theory Datagram_Wire
  imports Message_Wire
begin

text \<open>
  The datagram header of theory \<open>Message_Format\<close> on the wire: all three kinds of datagram
  (acknowledgement, negative acknowledgement, data) are decoded to what was sent, and the space
  the sender reserves for a header suffices.  The second part is about input the receiver cannot
  trust: whatever bytes arrive, an accepted message satisfies the bounds the rest of the layer
  relies on, and no uninitialised local is ever read.
\<close>

section \<open>Read positions\<close>

definition pos :: "BitStream \<Rightarrow> nat \<Rightarrow> bool list \<Rightarrow> bool" where
  "pos bs off bits \<longleftrightarrow> (\<exists>pre post. length pre = off \<and> at (skip_to off bs) pre bits post)"

lemma pos_advance:
  assumes "pos bs off (x @ rest)"
  shows "pos bs (off + length x) rest"
proof -
  obtain pre post where p: "length pre = off" "at (skip_to off bs) pre (x @ rest) post"
    using assms by (auto simp: pos_def)
  have "at (skip_to (off + length x) bs) (pre @ x) rest post" using at_skip [OF p(2)] p(1) by simp
  then show ?thesis unfolding pos_def using p(1) by (intro exI [of _ "pre @ x"] exI [of _ post]) simp
qed

lemma pos_bool:
  assumes "pos bs off (b # rest)"
  shows "Read_bool (skip_to off bs) = (Some b, skip_to (off + 1) bs)" and "pos bs (off + 1) rest"
proof -
  obtain pre post where p: "length pre = off" "at (skip_to off bs) pre (b # rest) post"
    using assms by (auto simp: pos_def)
  then have "at (skip_to off bs) pre [b] (rest @ post)" by (simp add: at_def)
  from Read_bool_at [OF this] p(1) show "Read_bool (skip_to off bs) = (Some b, skip_to (off + 1) bs)" by simp
  show "pos bs (off + 1) rest" using pos_advance [of bs off "[b]" rest] assms by simp
qed

lemma pos_align:
  assumes "pos bs off x" "align_up off = off + k"
  shows "AlignReadToByteBoundary (skip_to off bs) = skip_to (off + k) bs"
proof -
  obtain pre post where p: "length pre = off" "at (skip_to off bs) pre x post"
    using assms(1) by (auto simp: pos_def)
  have "readOffset (skip_to off bs) \<le> bs_limit" using at_bounds [OF p(2)] p by (simp add: skip_to_def)
  from AlignRead_skip [OF this] show ?thesis using assms(2) by (simp add: skip_to_def)
qed

lemma pos_reader:
  assumes "pos bs off (bits @ rest)" "off mod 8 = 0" "aligned_reader r v bits"
  shows "r (skip_to off bs) = (Some v, skip_to (off + length bits) bs)"
  using assms aligned_reader_step(1) [OF assms(3)] by (fastforce simp: pos_def)

section \<open>The datagram header\<close>

definition header_bits :: "DatagramHeaderFormat \<Rightarrow> bool list" where
  "header_bits h =
    (if isACK h then [True, True, hasBAndAS h] @ replicate 5 False @ (if hasBAndAS h then int_bits (AS h) else [])
     else if isNAK h then [True, False, True]
     else [True, False, False, isPacketPair h, isContinuousSend h, needsBAndAs h] @ replicate 2 False @
       uint24_bits (datagramNumber h))"

definition header_image :: "DatagramHeaderFormat \<Rightarrow> DatagramHeaderFormat \<Rightarrow> DatagramHeaderFormat" where
  "header_image h0 h =
    (if isACK h then
       h0\<lparr>isValid := True, isACK := True, isNAK := False, isPacketPair := False, hasBAndAS := hasBAndAS h,
          AS := if hasBAndAS h then AS h else AS h0\<rparr>
     else if isNAK h then h0\<lparr>isValid := True, isACK := False, isNAK := True, isPacketPair := False\<rparr>
     else h0\<lparr>isValid := True, isACK := False, isNAK := False, isPacketPair := isPacketPair h,
             isContinuousSend := isContinuousSend h, needsBAndAs := needsBAndAs h,
             datagramNumber := datagramNumber h\<rparr>)"

lemma appends_bools:
  assumes "bs_inv bs" "numberOfBitsUsed bs + length xs \<le> bs_limit"
  shows "appends bs (fold Write_bool xs bs) xs"
  using assms
proof (induction xs arbitrary: bs)
  case (Cons x xs)
  have a: "appends bs (Write_bool x bs) [x]" by (rule Write_bool_appends) (use Cons.prems in auto)
  have "appends (Write_bool x bs) (fold Write_bool xs (Write_bool x bs)) xs"
    by (rule Cons.IH) (use appends_inv [OF a] appends_used [OF a] Cons.prems in auto)
  from appends_trans [OF a this] show ?case by simp
qed (simp add: appends_def)

lemma write_flags:
  assumes "0 < length xs" "length xs \<le> 8"
  shows "aligned_writer (\<lambda>bs. AlignWriteToByteBoundary (fold Write_bool xs bs)) (xs @ replicate (8 - length xs) False)"
  by (rule aligned_writer_byte) (use assms in \<open>auto intro!: appends_bools\<close>)

lemma DatagramHeader_Serialize_appends:
  assumes "bs_inv bs" "numberOfBitsUsed bs mod 8 = 0" "numberOfBitsUsed bs + 80 \<le> bs_limit"
  shows "appends bs (DatagramHeader_Serialize h bs) (header_bits h)"
proof (cases "isACK h")
  case True
  have f: "aligned_writer (\<lambda>bs. AlignWriteToByteBoundary (fold Write_bool [True, True, hasBAndAS h] bs))
      ([True, True, hasBAndAS h] @ replicate 5 False)"
    using write_flags [of "[True, True, hasBAndAS h]"] by simp
  have w: "aligned_writer (\<lambda>bs. if hasBAndAS h then Write_int (AS h) bs else bs) (if hasBAndAS h then int_bits (AS h) else [])"
    by (rule aligned_writer_if [OF aligned_writer_int aligned_writer_id]) simp
  show ?thesis
    using aligned_writer_comp [OF f w] assms True
    by (cases "hasBAndAS h") (simp_all add: aligned_writer_def DatagramHeader_Serialize_def header_bits_def)
next
  case notACK: False
  show ?thesis
  proof (cases "isNAK h")
    case True
    then show ?thesis using appends_bools [of bs "[True, False, True]"] assms notACK
      by (simp add: DatagramHeader_Serialize_def header_bits_def)
  next
    case False
    let ?xs = "[True, False, False, isPacketPair h, isContinuousSend h, needsBAndAs h]"
    have f: "aligned_writer (\<lambda>bs. AlignWriteToByteBoundary (fold Write_bool ?xs bs)) (?xs @ replicate 2 False)"
      using write_flags [of ?xs] by simp
    show ?thesis
      using aligned_writer_comp [OF f aligned_writer_uint24 [of "datagramNumber h"]] assms notACK False
      by (simp add: aligned_writer_def DatagramHeader_Serialize_def header_bits_def Let_def)
  qed
qed

lemma DatagramHeader_Deserialize_pos:
  assumes p: "pos bs off (header_bits h)" and al: "off mod 8 = 0"
  shows "DatagramHeader_Deserialize h0 (skip_to off bs) =
    (header_image h0 h, skip_to (off + length (header_bits h)) bs)"
proof -
  have d: "8 dvd off" using al by presburger
  have up: "align_up (off + k) = off + k + (8 - k)" if "0 < k" "k \<le> 8" for k
    using align_up_within [OF d that] that by simp
  have n: "off + 1 + 1 = off + 2" "off + 2 + 1 = off + 3" "off + 3 + 1 = off + 4" "off + 4 + 1 = off + 5"
    "off + 5 + 1 = off + 6" by simp_all
  show ?thesis
  proof (cases "isACK h")
    case True
    let ?rest = "if hasBAndAS h then int_bits (AS h) else []"
    have p0: "pos bs off (True # True # hasBAndAS h # replicate 5 False @ ?rest)"
      using p True by (simp add: header_bits_def)
    note s1 = pos_bool [OF p0] note s2 = pos_bool [OF s1(2), unfolded n] note s3 = pos_bool [OF s2(2), unfolded n]
    have a: "AlignReadToByteBoundary (skip_to (off + 3) bs) = skip_to (off + 8) bs"
      using pos_align [OF s3(2), of 5] up [of 3] by (simp add: add.commute)
    have p8: "pos bs (off + 8) (?rest @ [])" using pos_advance [OF s3(2)] by (simp add: add.commute)
    have r: "Read_int (skip_to (off + 8) bs) = (Some (AS h), skip_to (off + 8 + 32) bs)" if "hasBAndAS h"
      using pos_reader [of bs "off + 8" "int_bits (AS h)" "[]", OF _ _ aligned_reader_int] p8 that d by simp
    show ?thesis using True s1(1) s2(1) s3(1) a r
      by (simp add: add.commute [of 40] DatagramHeader_Deserialize_def read_or_def Let_def header_image_def header_bits_def)
  next
    case notACK: False
    show ?thesis
    proof (cases "isNAK h")
      case True
      have p0: "pos bs off (True # False # True # [])" using p True notACK by (simp add: header_bits_def)
      note s1 = pos_bool [OF p0] note s2 = pos_bool [OF s1(2), unfolded n] note s3 = pos_bool [OF s2(2), unfolded n]
      show ?thesis using True notACK s1(1) s2(1) s3(1)
        by (simp add: DatagramHeader_Deserialize_def read_or_def Let_def header_image_def header_bits_def eval_nat_numeral)
    next
      case False
      have p0: "pos bs off (True # False # False # isPacketPair h # isContinuousSend h # needsBAndAs h #
          replicate 2 False @ uint24_bits (datagramNumber h) @ [])"
        using p False notACK by (simp add: header_bits_def)
      note s1 = pos_bool [OF p0] note s2 = pos_bool [OF s1(2), unfolded n] note s3 = pos_bool [OF s2(2), unfolded n]
      note s4 = pos_bool [OF s3(2), unfolded n] note s5 = pos_bool [OF s4(2), unfolded n] note s6 = pos_bool [OF s5(2), unfolded n]
      have a: "AlignReadToByteBoundary (skip_to (off + 6) bs) = skip_to (off + 8) bs"
        using pos_align [OF s6(2), of 2] up [of 6] by (simp add: add.commute)
      have "pos bs (off + 8) (uint24_bits (datagramNumber h) @ [])"
        using pos_advance [OF s6(2)] by (simp add: add.commute)
      then have r: "Read_uint24 (skip_to (off + 8) bs) = (Some (datagramNumber h), skip_to (off + 8 + 24) bs)"
        using pos_reader [OF _ _ aligned_reader_uint24] d by fastforce
      show ?thesis using False notACK s1(1) s2(1) s3(1) s4(1) s5(1) s6(1) a r
        by (simp add: add.commute [of 32] DatagramHeader_Deserialize_def read_or_def Let_def header_image_def header_bits_def)
    qed
  qed
qed

section \<open>Untrusted input\<close>

lemma unread_skip:
  "off \<le> numberOfBitsUsed bs \<Longrightarrow> GetNumberOfUnreadBits (skip_to off bs) = numberOfBitsUsed bs - off"
  by (simp add: GetNumberOfUnreadBits_def skip_to_def)

lemma ReadBits_3:
  assumes "rd_ok bs" "off + 3 \<le> numberOfBitsUsed bs"
  shows "\<exists>c. ReadBits 3 True (skip_to off bs) = (Some [c], skip_to (off + 3) bs) \<and> unat c < 8"
proof -
  have "\<not> GetNumberOfUnreadBits (skip_to off bs) < 3" using assms(2) by (simp add: unread_skip)
  moreover have "off + 3 < 4294967296" using assms by (simp add: rd_ok_def bs_limit_def)
  moreover have "unat (drop_bit 5 (b :: u8)) < 8" for b
  proof -
    have "unat (drop_bit 5 b) = unat b div 2 ^ 5" by (simp only: drop_bit_eq_div unat_div) simp
    then show ?thesis using unat_less_2p [of b] by simp
  qed
  ultimately show ?thesis by (simp add: ReadBits_def Let_def ReadBits_loop_unfold skip_to_def)
qed

lemma read_head_unread:
  assumes ok: "rd_ok bs" and g: "\<not> GetNumberOfUnreadBits bs < 32"
  defines "r1 \<equiv> ReadBits 3 True (AlignReadToByteBoundary bs)"
  defines "r2 \<equiv> Read_bool (snd r1)"
  defines "r3 \<equiv> ReadAlignedVar16 (AlignReadToByteBoundary (snd r2))"
  shows "\<exists>c b n. fst r1 = Some [c] \<and> unat c < 8 \<and> fst r2 = Some b \<and> fst r3 = Some n"
proof -
  let ?o = "align_up (readOffset bs)"
  have room: "readOffset bs + 32 \<le> numberOfBitsUsed bs"
    using g by (auto simp: GetNumberOfUnreadBits_def split: if_splits)
  have lim: "numberOfBitsUsed bs \<le> bs_limit" using ok by (simp add: rd_ok_def)
  note ab = align_up_bounds [of "readOffset bs"]
  have a0: "AlignReadToByteBoundary bs = skip_to ?o bs" by (rule AlignRead_skip) (use room lim in linarith)
  have o3: "?o + 3 \<le> numberOfBitsUsed bs" using room ab(2) by linarith
  obtain c where c: "r1 = (Some [c], skip_to (?o + 3) bs)" "unat c < 8"
    using ReadBits_3 [OF ok o3] unfolding r1_def a0 by blast
  have r2: "fst r2 \<noteq> None" "snd r2 = skip_to (?o + 4) bs"
  proof -
    have "0 < GetNumberOfUnreadBits (skip_to (?o + 3) bs)" using unread_skip [OF o3] room ab by simp
    then show "fst r2 \<noteq> None" "snd r2 = skip_to (?o + 4) bs"
      using c room ab lim by (simp_all add: r2_def Read_bool_def skip_to_def bs_limit_def)
  qed
  have up: "align_up (?o + 4) = ?o + 8" by (rule align_up_within) (use ab(3) in auto)
  have a2: "AlignReadToByteBoundary (snd r2) = skip_to (?o + 8) bs"
    using AlignRead_skip [of "skip_to (?o + 4) bs"] room ab lim up unfolding r2(2) by (simp add: skip_to_def)
  have "fst r3 \<noteq> None" using room ab unfolding r3_def a2 by (simp add: ReadAlignedVar16_def Let_def unread_skip)
  then show ?thesis using c r2 by auto
qed

lemma ReadAlignedBytes_length:
  assumes "rd_ok bs" "ReadAlignedBytes k bs = (Some bytes, bs')"
  shows "length bytes = k"
proof -
  let ?b = "AlignReadToByteBoundary bs"
  have fr: "numberOfBitsUsed ?b = numberOfBitsUsed bs" "bs_data ?b = bs_data bs"
    by (simp_all add: AlignReadToByteBoundary_def)
  have c: "\<not> k * 8 > GetNumberOfUnreadBits ?b" "0 < k"
    and e: "bytes = take k (drop (readOffset ?b div 8) (bs_data ?b))"
    using assms(2) by (auto simp: ReadAlignedBytes_def Let_def split: if_splits)
  have "readOffset ?b + k * 8 \<le> 8 * length (bs_data bs)"
    using c assms(1) fr by (auto simp: GetNumberOfUnreadBits_def rd_ok_def split: if_splits)
  then have "readOffset ?b div 8 + k \<le> length (bs_data bs)" by linarith
  then show ?thesis by (simp add: e fr)
qed

lemma read_frames:
  "numberOfBitsUsed (snd (ReadBits n right bs)) = numberOfBitsUsed bs" "bs_data (snd (ReadBits n right bs)) = bs_data bs"
  "numberOfBitsUsed (snd (Read_bool bs)) = numberOfBitsUsed bs" "bs_data (snd (Read_bool bs)) = bs_data bs"
  "numberOfBitsUsed (AlignReadToByteBoundary bs) = numberOfBitsUsed bs" "bs_data (AlignReadToByteBoundary bs) = bs_data bs"
  "numberOfBitsUsed (snd (Read_uint24 bs)) = numberOfBitsUsed bs" "bs_data (snd (Read_uint24 bs)) = bs_data bs"
  "numberOfBitsUsed (snd (ReadAlignedVar8 bs)) = numberOfBitsUsed bs" "bs_data (snd (ReadAlignedVar8 bs)) = bs_data bs"
  "numberOfBitsUsed (snd (ReadAlignedVar16 bs)) = numberOfBitsUsed bs" "bs_data (snd (ReadAlignedVar16 bs)) = bs_data bs"
  "numberOfBitsUsed (snd (ReadAlignedVar32 bs)) = numberOfBitsUsed bs" "bs_data (snd (ReadAlignedVar32 bs)) = bs_data bs"
  by (simp_all add: ReadBits_def Read_bool_def AlignReadToByteBoundary_def Read_uint24_def ReadAlignedVar8_def
      ReadAlignedVar16_def ReadAlignedVar32_def Let_def)

lemma read_reliable_frame:
  "rd_ok (snd (read_reliable ip bs)) = rd_ok bs" "reliability (fst (read_reliable ip bs)) = reliability ip"
  by (simp_all add: read_reliable_def Let_def read_frames rd_ok_def)

lemma read_ordering_frame:
  "rd_ok (snd (snd (read_ordering ip b bs))) = rd_ok bs"
  "reliability (fst (read_ordering ip b bs)) = reliability ip"
  by (cases "is_sequenced (reliability ip)"; cases "is_ordered (reliability ip)";
      simp add: read_ordering_def Let_def read_frames rd_ok_def)+

lemma read_split_frame:
  "rd_ok (snd (snd (read_split ip c b bs))) = rd_ok bs"
  "reliability (fst (read_split ip c b bs)) = reliability ip"
  "\<not> c \<Longrightarrow> splitPacketCount (fst (read_split ip c b bs)) = 0"
  by (simp_all add: read_split_def Let_def read_frames rd_ok_def)

lemma Create_cases:
  assumes ok: "rd_ok bs" and cr: "CreateInternalPacketFromBitStream tempChar0 s0 pool time bs = (Some ip, bs')"
  obtains c b p bs4 bytes where "unat c < 8" "\<not> malformed p c b True" "reliability p = reliability_of c" "rd_ok bs4"
    "ReadAlignedBytes (BITS_TO_BYTES (dataBitLength p)) bs4 = (Some bytes, bs')" "ip = p\<lparr>ip_data := bytes\<rparr>"
    "b \<or> splitPacketCount p = 0"
proof -
  have g: "\<not> GetNumberOfUnreadBits bs < 32"
    using cr by (rule contrapos_pn) (simp add: CreateInternalPacketFromBitStream_def)
  define r1 where "r1 = ReadBits 3 True (AlignReadToByteBoundary bs)"
  define r2 where "r2 = Read_bool (snd r1)"
  define r3 where "r3 = ReadAlignedVar16 (AlignReadToByteBoundary (snd r2))"
  obtain c b n where h: "fst r1 = Some [c]" "unat c < 8" "fst r2 = Some b" "fst r3 = Some n"
    using read_head_unread [OF ok g] unfolding r1_def r2_def r3_def by blast
  define ip1 where "ip1 = ((AllocateFromInternalPacketPool pool)\<lparr>creationTime := time\<rparr>)
    \<lparr>reliability := reliability_of c, dataBitLength := unat n\<rparr>"
  obtain ip2 bs2 where e2: "read_reliable ip1 (snd r3) = (ip2, bs2)" by fastforce
  obtain ip3 ok3 bs3 where e3: "read_ordering ip2 True bs2 = (ip3, ok3, bs3)" by (metis prod_cases3)
  obtain ip4 ok4 bs4 where e4: "read_split ip3 b ok3 bs3 = (ip4, ok4, bs4)" by (metis prod_cases3)
  define d where "d = ReadAlignedBytes (BITS_TO_BYTES (dataBitLength ip4)) bs4"
  have "CreateInternalPacketFromBitStream tempChar0 s0 pool time bs =
      (if malformed ip4 c b ok4 then (None, bs4)
       else case fst d of None \<Rightarrow> (None, snd d) | Some bytes \<Rightarrow> (Some (ip4\<lparr>ip_data := bytes\<rparr>), snd d))"
    unfolding CreateInternalPacketFromBitStream_def d_def
    using g h e2 e3 e4
    by (simp add: Let_def read_or_def r1_def [symmetric] r2_def [symmetric] r3_def [symmetric] ip1_def [symmetric])
  then obtain bytes where m: "\<not> malformed ip4 c b ok4" "fst d = Some bytes" "ip = ip4\<lparr>ip_data := bytes\<rparr>" "bs' = snd d"
    using cr by (auto split: if_splits option.splits)
  have okb: "rd_ok (snd r3)" using ok by (simp add: r3_def r2_def r1_def read_frames rd_ok_def)
  have "rd_ok bs4" "reliability ip4 = reliability_of c"
    using okb e2 e3 e4 read_reliable_frame [of ip1 "snd r3"] read_ordering_frame [of ip2 True bs2]
      read_split_frame(1,2) [where ip = ip3 and c = b and b = ok3 and bs = bs3] by (simp_all add: ip1_def)
  moreover have "b \<or> splitPacketCount ip4 = 0"
    using read_split_frame(3) [where ip = ip3 and c = b and b = ok3 and bs = bs3] e4 by (cases b) simp_all
  moreover have "\<not> malformed ip4 c b True" using m(1) by (auto simp: malformed_def)
  ultimately show ?thesis using that [of c ip4 b bs4 bytes] h(2) m d_def by (metis prod.collapse)
qed

section \<open>Properties\<close>

text \<open>A datagram header of any kind is decoded to what was sent: the flags and, for a data
  datagram, its number, for an acknowledgement its data arrival rate; the reader stops behind
  the header, and a data header fits into the space \<open>GetDataHeaderBitLength\<close> reserves for it.\<close>

theorem datagram_header_round_trip:
  assumes "bs_inv bs" "numberOfBitsUsed bs mod 8 = 0" "readOffset bs = numberOfBitsUsed bs"
    and "numberOfBitsUsed bs + 80 \<le> bs_limit"
  shows "DatagramHeader_Deserialize h0 (DatagramHeader_Serialize h bs) =
      (header_image h0 h, skip_to (numberOfBitsUsed (DatagramHeader_Serialize h bs)) (DatagramHeader_Serialize h bs)) \<and>
    numberOfBitsUsed (DatagramHeader_Serialize h bs) \<le> numberOfBitsUsed bs + GetDataHeaderBitLength"
proof -
  let ?b = "DatagramHeader_Serialize h bs" and ?u = "numberOfBitsUsed bs"
  note a = DatagramHeader_Serialize_appends [OF assms(1,2,4), of h]
  have len: "length (header_bits h) \<le> 72" by (simp add: header_bits_def)
  have u: "numberOfBitsUsed ?b = ?u + length (header_bits h)" by (rule appends_used [OF a])
  have "numberOfBitsUsed ?b \<le> bs_limit" using u len assms(4) by simp
  then have "at ?b (bs_bits bs) (header_bits h) []"
    using a assms(3) inv_rd_ok by (simp add: at_def appends_def)
  moreover have s: "skip_to ?u ?b = ?b" using a assms(3) by (simp add: skip_to_def appends_def)
  ultimately have "pos ?b ?u (header_bits h)"
    unfolding pos_def by (intro exI [of _ "bs_bits bs"] exI [of _ "[]"]) simp
  from DatagramHeader_Deserialize_pos [OF this assms(2), of h0] s u len
  show ?thesis by (simp add: GetDataHeaderBitLength_def GetDataHeaderByteLength_def BYTES_TO_BITS_def)
qed

definition demo_header :: DatagramHeaderFormat where
  "demo_header = \<lparr>datagramNumber = 70000, AS = 0, isACK = False, isNAK = False, isPacketPair = True,
    hasBAndAS = False, isContinuousSend = False, needsBAndAs = True, isValid = True\<rparr>"

theorem datagram_header_round_trip_witness:
  "fst (DatagramHeader_Deserialize demo_header (DatagramHeader_Serialize demo_header (BitStream_new (\<lambda>_. 9)))) =
    demo_header"
  using datagram_header_round_trip [OF BitStream_new_inv, of "\<lambda>_. 9" demo_header demo_header]
  by (simp add: header_image_def demo_header_def bs_limit_def)

text \<open>Property C27: whatever bytes a peer sends, a message that \<open>CreateInternalPacketFromBitStream\<close>
  accepts has a positive length below the MTU, exactly the data bytes its bit length needs, an
  ordering channel below 32 and, if it is a fragment, an index below its fragment count.\<close>

theorem accepted_message_sane:
  assumes "rd_ok bs" "CreateInternalPacketFromBitStream tempChar0 s0 pool time bs = (Some ip, bs')"
  shows "0 < dataBitLength ip \<and> length (ip_data ip) = BITS_TO_BYTES (dataBitLength ip) \<and>
    length (ip_data ip) < MAXIMUM_MTU_SIZE \<and> orderingChannel ip < 32 \<and>
    (splitPacketCount ip = 0 \<or> splitPacketIndex ip < splitPacketCount ip)"
  using assms(1,2)
proof (rule Create_cases)
  fix c b p bs4 bytes
  assume m: "\<not> malformed p c b True" and ok: "rd_ok bs4" and ip: "ip = p\<lparr>ip_data := bytes\<rparr>"
    and rd: "ReadAlignedBytes (BITS_TO_BYTES (dataBitLength p)) bs4 = (Some bytes, bs')"
    and b: "b \<or> splitPacketCount p = 0"
  show ?thesis using m b ReadAlignedBytes_length [OF ok rd] by (auto simp: malformed_def ip)
qed

theorem accepted_message_sane_witness:
  "length (ip_data (the (fst (CreateInternalPacketFromBitStream 0 0 demo_packet 0
    (message_writer demo_packet (BitStream_new (\<lambda>_. 3))))))) = BITS_TO_BYTES 12"
proof -
  let ?b = "message_writer demo_packet (BitStream_new (\<lambda>_. 3))"
  have r: "CreateInternalPacketFromBitStream 0 0 demo_packet 0 ?b =
      (Some (received demo_packet 0 demo_packet), skip_to (numberOfBitsUsed ?b) ?b)"
    by (rule message_codec.round_trip) (use demo_packet_sendable BitStream_new_inv in \<open>simp_all add: bs_limit_def\<close>)
  have a: "appends (BitStream_new (\<lambda>_. 3)) ?b (message_enc 0 demo_packet)"
    using message_codec.wr_law [OF demo_packet_sendable BitStream_new_inv, of "\<lambda>_. 3"] by (simp add: bs_limit_def)
  have "rd_ok ?b"
    using inv_rd_ok [OF appends_inv [OF a]] appends_used [OF a] message_codec.enc_bound [OF demo_packet_sendable, of 0]
    by (simp add: bs_limit_def)
  from accepted_message_sane [OF this r] r show ?thesis by (simp add: received_def demo_packet_def)
qed

text \<open>No uninitialised local of the reader is ever used: the result of
  \<open>CreateInternalPacketFromBitStream\<close> on any input is the same for all initial values of
  \<^verbatim>\<open>tempChar\<close> and \<^verbatim>\<open>s\<close>, because the guard on the unread bits covers the fields read into them.\<close>

theorem no_uninitialised_read:
  assumes "rd_ok bs"
  shows "CreateInternalPacketFromBitStream t1 s1 pool time bs = CreateInternalPacketFromBitStream t2 s2 pool time bs"
proof (cases "GetNumberOfUnreadBits bs < 32")
  case False
  define r1 where "r1 = ReadBits 3 True (AlignReadToByteBoundary bs)"
  define r2 where "r2 = Read_bool (snd r1)"
  define r3 where "r3 = ReadAlignedVar16 (AlignReadToByteBoundary (snd r2))"
  obtain c b n where h: "fst r1 = Some [c]" "fst r2 = Some b" "fst r3 = Some n"
    using read_head_unread [OF assms False] unfolding r1_def r2_def r3_def by blast
  show ?thesis
    unfolding CreateInternalPacketFromBitStream_def r1_def [symmetric] r2_def [symmetric] r3_def [symmetric]
    using h by (simp only: Let_def r1_def [symmetric] r2_def [symmetric] r3_def [symmetric] read_or_def option.case)
qed (simp add: CreateInternalPacketFromBitStream_def)

theorem no_uninitialised_read_witness:
  "CreateInternalPacketFromBitStream 1 2 demo_packet 0 (BitStream_of (\<lambda>_. 0) [8, 0, 9, 1, 2] False) =
    CreateInternalPacketFromBitStream 3 4 demo_packet 0 (BitStream_of (\<lambda>_. 0) [8, 0, 9, 1, 2] False)"
  by (rule no_uninitialised_read) (simp add: rd_ok_def BitStream_of_def BYTES_TO_BITS_def bs_limit_def)

end
