(* ===== verification/Receive_Window.thy ===== *)
theory Receive_Window
  imports DS_Queue Internal_Packet
begin

text \<open>
  The receive window of \<^verbatim>\<open>HandleSocketReceiveFromConnectedPlayer\<close>: it admits every reliable message
  once.  \<open>receivedPacketsBaseIndex\<close> is the next message number without a gap before it,
  \<open>hasReceivedPacketQueue\<close> holds one flag per number from there on, true for a number that is
  still missing.  Message numbers are 24 bit and wrap.  The specification is a set of unbounded
  message numbers; the window is shown to implement it as long as a message is not further than
  half the number space behind or a million ahead.
\<close>

section \<open>State and operations\<close>

record ReceiveWindow =
  receivedPacketsBaseIndex :: u24
  hasReceivedPacketQueue :: "bool Queue"
  resetReceivedPackets :: bool

definition DEFAULT_HAS_RECEIVED_PACKET_QUEUE_SIZE :: nat where
  "DEFAULT_HAS_RECEIVED_PACKET_QUEUE_SIZE = 512"

primrec push_holes :: "(nat \<Rightarrow> bool) \<Rightarrow> nat \<Rightarrow> nat \<Rightarrow> bool Queue \<Rightarrow> bool Queue" where
  "push_holes fresh holeCount 0 q = q"
| "push_holes fresh holeCount (Suc fuel) q =
    (if holeCount > Queue_Size q then push_holes fresh holeCount fuel (Queue_Push fresh True q) else q)"

primrec pop_received :: "nat \<Rightarrow> u24 \<times> bool Queue \<Rightarrow> u24 \<times> bool Queue" where
  "pop_received 0 w = w"
| "pop_received (Suc fuel) w =
    (let (base, q) = w
     in if Queue_Size q > 0 \<and> \<not> Queue_Peek q then pop_received fuel (base + 1, snd (Queue_Pop q)) else w)"

definition apply_reset :: "(nat \<Rightarrow> bool) \<Rightarrow> ReceiveWindow \<Rightarrow> ReceiveWindow" where
  "apply_reset fresh w =
    (if resetReceivedPackets w then
       w\<lparr>hasReceivedPacketQueue :=
           Queue_ClearAndForceAllocation fresh DEFAULT_HAS_RECEIVED_PACKET_QUEUE_SIZE (hasReceivedPacketQueue w),
         receivedPacketsBaseIndex := 0, resetReceivedPackets := False\<rparr>
     else w)"

text \<open>The admission of a reliable message; \<^verbatim>\<open>goto CONTINUE_SOCKET_DATA_PARSE_LOOP\<close> is the result None.\<close>

definition mark_received :: "(nat \<Rightarrow> bool) \<Rightarrow> u24 \<Rightarrow> u24 \<Rightarrow> bool Queue \<Rightarrow> (u24 \<times> bool Queue) option" where
  "mark_received fresh messageNumber base q =
    (let holeCount = messageNumber - base;
         typeRange = (- 1 :: u24)
     in if holeCount = 0 then
          Some (base + 1, if Queue_Size q \<noteq> 0 then snd (Queue_Pop q) else q)
        else if holeCount > typeRange div 2 then None
        else if unat holeCount < Queue_Size q then
          if Queue_nth q (unat holeCount) \<noteq> False then Some (base, Queue_set q (unat holeCount) False)
          else None
        else if holeCount > 1000000 then None
        else Some (base, Queue_Push fresh False (push_holes fresh (unat holeCount) (unat holeCount) q)))"

definition receive_reliable :: "(nat \<Rightarrow> bool) \<Rightarrow> u24 \<Rightarrow> ReceiveWindow \<Rightarrow> ReceiveWindow option" where
  "receive_reliable fresh n w =
    (case mark_received fresh n (receivedPacketsBaseIndex w) (hasReceivedPacketQueue w) of
       None \<Rightarrow> None
     | Some (base, q) \<Rightarrow>
         let (base', q') = pop_received (Queue_Size q) (base, q)
         in Some (w\<lparr>receivedPacketsBaseIndex := base', hasReceivedPacketQueue := q'\<rparr>))"

definition compress_window :: "(nat \<Rightarrow> bool) \<Rightarrow> ReceiveWindow \<Rightarrow> ReceiveWindow" where
  "compress_window fresh w =
    (let q = hasReceivedPacketQueue w
     in if q_allocation_size q > DEFAULT_HAS_RECEIVED_PACKET_QUEUE_SIZE \<and>
           q_allocation_size q > Queue_Size q * 3
        then w\<lparr>hasReceivedPacketQueue := Queue_Compress fresh q\<rparr> else w)"

definition NUMBER_OF_ORDERED_STREAMS :: nat where
  "NUMBER_OF_ORDERED_STREAMS = 32"

definition corrupt_channel :: "InternalPacket \<Rightarrow> bool" where
  "corrupt_channel ip \<longleftrightarrow>
    (reliability ip = ReliableSequenced \<or> reliability ip = UnreliableSequenced \<or> reliability ip = ReliableOrdered) \<and>
    unat (orderingChannel ip) \<ge> NUMBER_OF_ORDERED_STREAMS"

definition admit :: "(nat \<Rightarrow> bool) \<Rightarrow> InternalPacket \<Rightarrow> ReceiveWindow \<Rightarrow> bool \<times> ReceiveWindow" where
  "admit fresh ip w0 =
    (let w = apply_reset fresh w0
     in if corrupt_channel ip then (False, w)
        else if reliability ip = Reliable \<or> reliability ip = ReliableSequenced \<or> reliability ip = ReliableOrdered then
          case receive_reliable fresh (reliableMessageNumber ip) w of
            None \<Rightarrow> (False, w)
          | Some w' \<Rightarrow> (True, compress_window fresh w')
        else (True, compress_window fresh w))"

section \<open>Specification: the set of message numbers received\<close>

definition window_rep :: "ReceiveWindow \<Rightarrow> nat \<Rightarrow> nat set \<Rightarrow> bool" where
  "window_rep w B S \<longleftrightarrow>
    queue_ok (hasReceivedPacketQueue w) \<and> receivedPacketsBaseIndex w = of_nat B \<and> {..<B} \<subseteq> S \<and> B \<notin> S \<and>
    (\<forall>i < length (queue_list (hasReceivedPacketQueue w)).
       queue_list (hasReceivedPacketQueue w) ! i \<longleftrightarrow> B + i \<notin> S) \<and>
    (\<forall>n \<in> S. n < B + length (queue_list (hasReceivedPacketQueue w)))"

text \<open>The same with the base possibly received already, as it is between marking and popping.\<close>

definition flags_rep :: "u24 \<Rightarrow> bool Queue \<Rightarrow> nat \<Rightarrow> nat set \<Rightarrow> bool" where
  "flags_rep base q B S \<longleftrightarrow>
    queue_ok q \<and> base = of_nat B \<and> {..<B} \<subseteq> S \<and>
    (\<forall>i < length (queue_list q). queue_list q ! i \<longleftrightarrow> B + i \<notin> S) \<and>
    (\<forall>n \<in> S. n < B + length (queue_list q))"

lemma window_flags:
  "window_rep w B S \<longleftrightarrow> flags_rep (receivedPacketsBaseIndex w) (hasReceivedPacketQueue w) B S \<and> B \<notin> S"
  by (auto simp: window_rep_def flags_rep_def)

lemma pop_received_rep:
  assumes "flags_rep base q B S" "length (queue_list q) \<le> fuel"
  shows "\<exists>base' q' B'. pop_received fuel (base, q) = (base', q') \<and> flags_rep base' q' B' S \<and> B' \<notin> S \<and> B \<le> B'"
  using assms
proof (induction fuel arbitrary: base q B)
  case 0
  then have "B \<notin> S" by (auto simp: flags_rep_def)
  then show ?case using "0.prems" by auto
next
  case (Suc fuel)
  have ok: "queue_ok q" and base: "base = of_nat B" and low: "{..<B} \<subseteq> S"
    and fl: "\<And>i. i < length (queue_list q) \<Longrightarrow> queue_list q ! i \<longleftrightarrow> B + i \<notin> S"
    and hi: "\<And>n. n \<in> S \<Longrightarrow> n < B + length (queue_list q)"
    using Suc.prems by (auto simp: flags_rep_def)
  show ?case
  proof (cases "queue_list q")
    case Nil
    then have "B \<notin> S" using hi [of B] by auto
    then show ?thesis using Nil Suc.prems ok rq.size_law [of q] by auto
  next
    case (Cons x xs)
    have len: "Queue_Size q = length (queue_list q)" using ok by (rule rq.size_law)
    have pk: "Queue_Peek q = x" using Queue_Peek_refine [OF ok] Cons by simp
    have x: "x \<longleftrightarrow> B \<notin> S" using fl [of 0] Cons by simp
    show ?thesis
    proof (cases x)
      case True
      then show ?thesis using Suc.prems len pk x Cons by auto
    next
      case False
      let ?q = "snd (Queue_Pop q)"
      have q: "queue_ok ?q" "queue_list ?q = xs" using rq.pop_law [OF ok] Cons by simp_all
      have "flags_rep (base + 1) ?q (Suc B) S"
        unfolding flags_rep_def
      proof (intro conjI allI impI ballI)
        show "base + 1 = of_nat (Suc B)" using base by simp
        show "{..<Suc B} \<subseteq> S" using low x False by (auto simp: less_Suc_eq)
        show "queue_list ?q ! i \<longleftrightarrow> Suc B + i \<notin> S" if "i < length (queue_list ?q)" for i
          using fl [of "Suc i"] that q Cons by simp
        show "n < Suc B + length (queue_list ?q)" if "n \<in> S" for n using hi [OF that] q Cons by simp
      qed (rule q(1))
      from Suc.IH [OF this] obtain base' q' B' where
        "pop_received fuel (base + 1, ?q) = (base', q')" "flags_rep base' q' B' S" "B' \<notin> S" "Suc B \<le> B'"
        using q Suc.prems(2) Cons by auto
      then show ?thesis using len pk False Cons by (intro exI [of _ base'] exI [of _ q'] exI [of _ B']) auto
    qed
  qed
qed

lemma push_holes_list:
  "queue_ok q \<Longrightarrow> hole - length (queue_list q) \<le> fuel \<Longrightarrow>
    queue_ok (push_holes fresh hole fuel q) \<and>
    queue_list (push_holes fresh hole fuel q) = queue_list q @ replicate (hole - length (queue_list q)) True"
proof (induction fuel arbitrary: q)
  case (Suc fuel)
  show ?case
  proof (cases "hole > Queue_Size q")
    case True
    have q: "queue_ok (Queue_Push fresh True q)" "queue_list (Queue_Push fresh True q) = queue_list q @ [True]"
      using rq.push_law [OF Suc.prems(1)] by simp_all
    have r: "replicate (hole - Queue_Size q) True = True # replicate (hole - Suc (Queue_Size q)) True"
      using True by (metis Suc_diff_Suc replicate_Suc)
    have "Queue_Size (Queue_Push fresh True q) = Suc (Queue_Size q)"
      using q(2) length_queue_list [of "Queue_Push fresh True q"] by simp
    then show ?thesis using Suc.IH [OF q(1)] Suc.prems(2) q(2) True r by simp
  qed (use Suc.prems in simp)
qed simp

section \<open>Serial numbers of the window\<close>

lemma type_range_half: "(- 1 :: u24) div 2 = 8388607"
  by simp

lemma hole_behind:
  assumes "N < B" "B \<le> N + 8388608"
  shows "unat (of_nat N - of_nat B :: u24) > 8388607"
proof -
  define x :: u24 where "x = of_nat (B - N)"
  have "(of_nat B :: u24) = of_nat (N + (B - N))" using assms(1) by simp
  then have e: "(of_nat B :: u24) = of_nat N + x" by (simp only: of_nat_add x_def)
  have "unat x = (B - N) mod 2 ^ 24" unfolding x_def by (simp only: unat_of_nat) simp
  moreover have "(B - N) mod 2 ^ 24 = B - N" using assms by simp
  ultimately have d: "unat x = B - N" by simp
  then have nz: "\<not> x \<le> 0" using assms(1) by (simp add: word_le_nat_alt)
  have "unat (0 - x) = 16777216 - (B - N)" unfolding unat_sub_wrap if_not_P [OF nz] d by simp
  moreover have "(of_nat N - of_nat B :: u24) = 0 - x" unfolding e by simp
  ultimately show ?thesis using assms by simp
qed

lemma u24_gt: "n < 16777216 \<Longrightarrow> (x :: u24) > of_nat n \<longleftrightarrow> unat x > n"
  by (simp add: word_less_nat_alt unat_of_nat)

section \<open>Every message number is admitted once\<close>

lemma mark_received_new:
  assumes w: "window_rep w B S" and N: "B \<le> N" "N \<le> B + 1000000" "N \<notin> S"
  shows "\<exists>base' q' B'. mark_received fresh (of_nat N) (receivedPacketsBaseIndex w) (hasReceivedPacketQueue w) =
    Some (base', q') \<and> flags_rep base' q' B' (insert N S)"
proof -
  let ?q = "hasReceivedPacketQueue w" and ?b = "receivedPacketsBaseIndex w"
  let ?h = "of_nat N - ?b :: u24"
  have ok: "queue_ok ?q" and b: "?b = of_nat B" and low: "{..<B} \<subseteq> S" and B: "B \<notin> S"
    and fl: "\<And>i. i < Queue_Size ?q \<Longrightarrow> queue_list ?q ! i \<longleftrightarrow> B + i \<notin> S"
    and hi: "\<And>n. n \<in> S \<Longrightarrow> n < B + Queue_Size ?q"
    using w by (auto simp: window_rep_def)
  have h: "unat ?h = N - B" using unat_u24_diff [of B N] N by (simp add: b)
  have h0: "?h = 0 \<longleftrightarrow> N = B" using h N(1) unat_eq_zero [of ?h] by auto
  have half: "\<not> ?h > (- 1) div 2" using u24_gt [of 8388607 ?h] h N(2) by (simp add: type_range_half)
  have mil: "\<not> ?h > 1000000" using u24_gt [of 1000000 ?h] h N(2) by simp
  consider (base) "N = B" | (hole) "N \<noteq> B" "N - B < Queue_Size ?q" | (beyond) "N \<noteq> B" "Queue_Size ?q \<le> N - B"
    by linarith
  then show ?thesis
  proof cases
    case base
    have "mark_received fresh (of_nat N) ?b ?q = Some (?b + 1, if Queue_Size ?q \<noteq> 0 then snd (Queue_Pop ?q) else ?q)"
      using h0 base by (simp add: mark_received_def Let_def)
    moreover have "flags_rep (?b + 1) (if Queue_Size ?q \<noteq> 0 then snd (Queue_Pop ?q) else ?q) (Suc B) (insert N S)"
    proof (cases "Queue_Size ?q = 0")
      case True
      then show ?thesis using ok b low base hi by (auto simp: flags_rep_def less_Suc_eq)
    next
      case False
      then have ne: "queue_list ?q \<noteq> []" by (metis length_queue_list list.size(3))
      let ?q' = "snd (Queue_Pop ?q)"
      note pl = rq.pop_law [OF ok ne]
      have sz: "Queue_Size ?q' = Queue_Size ?q - 1" using length_queue_list [of ?q'] pl(2) by simp
      have n: "queue_list ?q' ! i \<longleftrightarrow> Suc B + i \<notin> insert N S" if "i < Queue_Size ?q'" for i
        using fl [of "Suc i"] that sz pl(2) base by (simp add: nth_tl)
      have u: "m < Suc B + Queue_Size ?q'" if "m \<in> insert N S" for m
        using that hi [of m] sz False base by auto
      show ?thesis using False pl(1) b low base n u by (auto simp: flags_rep_def less_Suc_eq)
    qed
    ultimately show ?thesis by blast
  next
    case hole
    have nth: "Queue_nth ?q (N - B) = True" using rq.nth_law [OF ok] fl [of "N - B"] hole N by simp
    have "mark_received fresh (of_nat N) ?b ?q = Some (?b, Queue_set ?q (N - B) False)"
      using h h0 half hole nth by (simp add: mark_received_def Let_def)
    moreover have "flags_rep ?b (Queue_set ?q (N - B) False) B (insert N S)"
    proof -
      have l: "queue_ok (Queue_set ?q (N - B) False)" "queue_list (Queue_set ?q (N - B) False) = (queue_list ?q)[N - B := False]"
        using rq.set_law [OF ok, of "N - B" False] hole by simp_all
      have sz: "Queue_Size (Queue_set ?q (N - B) False) = Queue_Size ?q"
        using length_queue_list [of "Queue_set ?q (N - B) False"] l(2) by simp
      have n: "(queue_list ?q)[N - B := False] ! i \<longleftrightarrow> B + i \<notin> insert N S" if "i < Queue_Size ?q" for i
        using fl [OF that] that hole N(1) by (auto simp: nth_list_update)
      show ?thesis unfolding flags_rep_def using l sz b low n hi hole N by auto
    qed
    ultimately show ?thesis by blast
  next
    case beyond
    let ?p = "push_holes fresh (N - B) (N - B) ?q" and ?k = "N - B - Queue_Size ?q"
    have p: "queue_ok ?p" "queue_list ?p = queue_list ?q @ replicate ?k True"
      using push_holes_list [OF ok, of "N - B" "N - B" fresh] by simp_all
    let ?r = "Queue_Push fresh False ?p"
    have r: "queue_ok ?r" "queue_list ?r = queue_list ?q @ replicate ?k True @ [False]"
      using rq.push_law [OF p(1)] p(2) by simp_all
    have sz: "Queue_Size ?r = Suc (N - B)" using length_queue_list [of ?r] r(2) beyond by simp
    have "\<not> unat ?h < Queue_Size ?q" using h beyond by simp
    then have "mark_received fresh (of_nat N) ?b ?q = Some (?b, ?r)"
      using h h0 half mil beyond by (simp add: mark_received_def Let_def)
    moreover have "flags_rep ?b ?r B (insert N S)"
    proof -
      have n: "queue_list ?r ! i \<longleftrightarrow> B + i \<notin> insert N S" if i: "i < Suc (N - B)" for i
      proof (cases "i < Queue_Size ?q")
        case True
        then show ?thesis using fl [OF True] r(2) beyond by (auto simp: nth_append)
      next
        case False
        then have "B + i \<notin> S" using hi [of "B + i"] by auto
        then show ?thesis using False i r(2) beyond N(1) by (auto simp: nth_append less_Suc_eq)
      qed
      have u: "m < B + Suc (N - B)" if "m \<in> insert N S" for m using that hi [of m] beyond N(1) by auto
      show ?thesis unfolding flags_rep_def using r(1) b low n u sz by auto
    qed
    ultimately show ?thesis by blast
  qed
qed

lemma mark_received_old:
  assumes w: "window_rep w B S" and N: "B \<le> N + 8388608" "N \<in> S" "N \<le> B + 1000000"
  shows "mark_received fresh (of_nat N) (receivedPacketsBaseIndex w) (hasReceivedPacketQueue w) = None"
proof -
  let ?q = "hasReceivedPacketQueue w" and ?b = "receivedPacketsBaseIndex w"
  let ?h = "of_nat N - ?b :: u24"
  have ok: "queue_ok ?q" and b: "?b = of_nat B" and B: "B \<notin> S"
    and fl: "\<And>i. i < Queue_Size ?q \<Longrightarrow> queue_list ?q ! i \<longleftrightarrow> B + i \<notin> S"
    and hi: "N < B + Queue_Size ?q"
    using w N(2) by (auto simp: window_rep_def)
  show ?thesis
  proof (cases "N < B")
    case True
    have "unat ?h > 8388607" using hole_behind [OF True N(1)] by (simp add: b)
    then have "?h > (- 1) div 2" "?h \<noteq> 0" using u24_gt [of 8388607 ?h] by (auto simp: type_range_half)
    then show ?thesis by (simp add: mark_received_def Let_def)
  next
    case False
    then have NB: "B < N" using B N(2) by (metis linorder_neqE_nat)
    then have h: "unat ?h = N - B" using unat_u24_diff [of B N] N(3) by (simp add: b)
    have "\<not> ?h > (- 1) div 2" using u24_gt [of 8388607 ?h] h N(3) by (simp add: type_range_half)
    moreover have "?h \<noteq> 0" using h NB by auto
    moreover have "N - B < Queue_Size ?q" using hi NB by linarith
    moreover have "Queue_nth ?q (N - B) = False"
      using rq.nth_law [OF ok] fl [of "N - B"] \<open>N - B < Queue_Size ?q\<close> NB N(2) by simp
    ultimately show ?thesis using h by (simp add: mark_received_def Let_def)
  qed
qed

lemma compress_window_rep: "window_rep w B S \<Longrightarrow> window_rep (compress_window fresh w) B S"
  using Queue_Compress_refine [of "hasReceivedPacketQueue w" fresh]
    length_queue_list [of "Queue_Compress fresh (hasReceivedPacketQueue w)"]
  by (auto simp: compress_window_def Let_def window_rep_def)

lemma apply_reset_rep:
  "resetReceivedPackets w \<Longrightarrow> window_rep (apply_reset fresh w) 0 {} \<and> \<not> resetReceivedPackets (apply_reset fresh w)"
  "\<not> resetReceivedPackets w \<Longrightarrow> apply_reset fresh w = w"
  using Queue_ClearAndForceAllocation_refine [of fresh 512 "hasReceivedPacketQueue w"]
    length_queue_list [of "Queue_ClearAndForceAllocation fresh 512 (hasReceivedPacketQueue w)"]
  by (simp_all add: apply_reset_def window_rep_def DEFAULT_HAS_RECEIVED_PACKET_QUEUE_SIZE_def)

lemma reset_frame [simp]:
  "resetReceivedPackets (compress_window fresh w) = resetReceivedPackets w"
  "receive_reliable fresh n w = Some w' \<Longrightarrow> resetReceivedPackets w' = resetReceivedPackets w"
  by (auto simp: compress_window_def receive_reliable_def Let_def split: option.splits prod.splits)

definition checked :: "InternalPacket \<Rightarrow> bool" where
  "checked ip \<longleftrightarrow> \<not> corrupt_channel ip \<and>
    (reliability ip = Reliable \<or> reliability ip = ReliableSequenced \<or> reliability ip = ReliableOrdered)"

lemma receive_reliable_rep:
  assumes w: "window_rep w B S" and N: "B \<le> N + 8388608" "N \<le> B + 1000000"
  shows "if N \<in> S then receive_reliable fresh (of_nat N) w = None
    else \<exists>w' B'. receive_reliable fresh (of_nat N) w = Some w' \<and> window_rep w' B' (insert N S)"
proof (cases "N \<in> S")
  case True
  then show ?thesis using mark_received_old [OF w N(1) True N(2)] by (simp add: receive_reliable_def)
next
  case False
  have "{..<B} \<subseteq> S" using w by (simp add: window_rep_def)
  then have BN: "B \<le> N" using False by (metis lessThan_iff not_le subsetD)
  obtain base' q' B1 where m: "mark_received fresh (of_nat N) (receivedPacketsBaseIndex w) (hasReceivedPacketQueue w) =
      Some (base', q')" "flags_rep base' q' B1 (insert N S)"
    using mark_received_new [OF w BN N(2) False] by blast
  obtain b2 q2 B2 where p: "pop_received (Queue_Size q') (base', q') = (b2, q2)" "flags_rep b2 q2 B2 (insert N S)"
      "B2 \<notin> insert N S"
    using pop_received_rep [OF m(2), of "Queue_Size q'"] by auto
  show ?thesis using m(1) p False by (simp add: receive_reliable_def window_flags exI [of _ B2])
qed

lemma admit_rep:
  assumes "window_rep w B S" "\<not> resetReceivedPackets w" "checked ip" "reliableMessageNumber ip = of_nat N"
    and "B \<le> N + 8388608" "N \<le> B + 1000000"
  shows "fst (admit fresh ip w) = (N \<notin> S)"
    and "\<exists>B'. window_rep (snd (admit fresh ip w)) B' (insert N S)"
    and "\<not> resetReceivedPackets (snd (admit fresh ip w))"
proof -
  note r = receive_reliable_rep [OF assms(1,5,6), of fresh] and f = apply_reset_rep(2) [OF assms(2)]
  have c: "reliability ip = Reliable \<or> reliability ip = ReliableSequenced \<or> reliability ip = ReliableOrdered"
    and cc: "\<not> corrupt_channel ip"
    using assms(3) by (simp_all add: checked_def)
  have "fst (admit fresh ip w) = (N \<notin> S) \<and> (\<exists>B'. window_rep (snd (admit fresh ip w)) B' (insert N S)) \<and>
      \<not> resetReceivedPackets (snd (admit fresh ip w))"
  proof (cases "N \<in> S")
    case True
    then have "admit fresh ip w = (False, w)"
      unfolding admit_def Let_def f if_not_P [OF cc] if_P [OF c] using r assms(4) by simp
    then show ?thesis using True assms(1,2) by (auto simp: insert_absorb)
  next
    case False
    then obtain w' B' where w': "receive_reliable fresh (of_nat N) w = Some w'" "window_rep w' B' (insert N S)"
      using r by auto
    then have "admit fresh ip w = (True, compress_window fresh w')"
      unfolding admit_def Let_def f if_not_P [OF cc] if_P [OF c] using assms(4) by simp
    then show ?thesis using False compress_window_rep [OF w'(2)] w'(1) assms(2) by auto
  qed
  then show "fst (admit fresh ip w) = (N \<notin> S)" "\<exists>B'. window_rep (snd (admit fresh ip w)) B' (insert N S)"
    "\<not> resetReceivedPackets (snd (admit fresh ip w))" by simp_all
qed

section \<open>A whole connection\<close>

primrec admit_all :: "(nat \<Rightarrow> bool) \<Rightarrow> InternalPacket list \<Rightarrow> ReceiveWindow \<Rightarrow> bool list" where
  "admit_all fresh [] w = []"
| "admit_all fresh (ip # ips) w = (let (ok, w') = admit fresh ip w in ok # admit_all fresh ips w')"

definition in_window :: "nat \<Rightarrow> nat set \<Rightarrow> bool" where
  "in_window N S \<longleftrightarrow> first_missing S \<le> N + 8388608 \<and> N \<le> first_missing S + 1000000"

lemma first_missing_rep: "window_rep w B S \<Longrightarrow> first_missing S = B"
  by (intro first_missing_eq) (simp_all add: window_rep_def)

lemma admit_all_first_occurrences:
  assumes "window_rep w B S" "\<not> resetReceivedPackets w" "\<forall>ip \<in> set ips. checked ip"
    and "map reliableMessageNumber ips = map of_nat Ns"
    and "\<And>i. i < length Ns \<Longrightarrow> in_window (Ns ! i) (S \<union> set (take i Ns))"
  shows "admit_all fresh ips w = map (\<lambda>i. Ns ! i \<notin> S \<union> set (take i Ns)) [0..<length Ns]"
  using assms
proof (induction Ns arbitrary: ips w B S)
  case (Cons N Ns)
  obtain ip ips' where ips: "ips = ip # ips'" "reliableMessageNumber ip = of_nat N"
      "map reliableMessageNumber ips' = map of_nat Ns"
    using Cons.prems(4) by auto
  have win: "B \<le> N + 8388608" "N \<le> B + 1000000"
    using Cons.prems(5) [of 0] first_missing_rep [OF Cons.prems(1)] by (simp_all add: in_window_def)
  note st = admit_rep [OF Cons.prems(1,2) _ ips(2) win, of fresh]
  have ch: "checked ip" using Cons.prems(3) ips by simp
  obtain B' where B': "window_rep (snd (admit fresh ip w)) B' (insert N S)" using st(2) [OF ch] by blast
  have "admit_all fresh ips' (snd (admit fresh ip w)) =
      map (\<lambda>i. Ns ! i \<notin> insert N S \<union> set (take i Ns)) [0..<length Ns]"
  proof (rule Cons.IH [OF B' st(3) [OF ch] _ ips(3)])
    show "\<forall>ip \<in> set ips'. checked ip" using Cons.prems(3) ips by simp
    show "in_window (Ns ! i) (insert N S \<union> set (take i Ns))" if "i < length Ns" for i
      using Cons.prems(5) [of "Suc i"] that by simp
  qed
  moreover have "map (\<lambda>i. (N # Ns) ! i \<notin> S \<union> set (take i (N # Ns))) [0..<length (N # Ns)] =
      (N \<notin> S) # map (\<lambda>i. Ns ! i \<notin> insert N S \<union> set (take i Ns)) [0..<length Ns]"
    by (simp add: upt_conv_Cons map_Suc_upt [symmetric] del: upt_Suc) auto
  ultimately show ?case using st(1) [OF ch] by (simp add: ips(1) split_beta)
qed simp

section \<open>The queue of flags stays bounded\<close>

definition window_bounded :: "ReceiveWindow \<Rightarrow> bool" where
  "window_bounded w \<longleftrightarrow> queue_ok (hasReceivedPacketQueue w) \<and> Queue_Size (hasReceivedPacketQueue w) \<le> 1000001"

lemma pop_size:
  "queue_ok q \<Longrightarrow> Queue_Size q \<noteq> 0 \<Longrightarrow> queue_ok (snd (Queue_Pop q)) \<and> Queue_Size (snd (Queue_Pop q)) = Queue_Size q - 1"
  using rq.pop_law [of q] length_queue_list [of q] length_queue_list [of "snd (Queue_Pop q)"]
  by (metis length_tl list.size(3))

lemma pop_received_bounded:
  "queue_ok (snd w) \<Longrightarrow> queue_ok (snd (pop_received fuel w)) \<and> Queue_Size (snd (pop_received fuel w)) \<le> Queue_Size (snd w)"
proof (induction fuel arbitrary: w)
  case (Suc fuel)
  obtain b q where w: "w = (b, q)" by fastforce
  show ?case
    using Suc.IH [of "(b + 1, snd (Queue_Pop q))"] pop_size [of q] Suc.prems by (auto simp: w Let_def)
qed simp

lemma mark_received_bounded:
  assumes ok: "queue_ok q" and sz: "Queue_Size q \<le> 1000001" and m: "mark_received fresh n base q = Some (base', q')"
  shows "queue_ok q' \<and> Queue_Size q' \<le> 1000001"
proof -
  let ?h = "n - base"
  consider (base) "?h = 0" | (hole) "?h \<noteq> 0" "unat ?h < Queue_Size q" "q' = Queue_set q (unat ?h) False"
    | (beyond) "?h \<noteq> 0" "\<not> unat ?h < Queue_Size q" "\<not> ?h > 1000000"
        "q' = Queue_Push fresh False (push_holes fresh (unat ?h) (unat ?h) q)"
    using m by (auto simp: mark_received_def Let_def split: if_splits)
  then show ?thesis
  proof cases
    case base
    then have "q' = (if Queue_Size q \<noteq> 0 then snd (Queue_Pop q) else q)"
      using m by (simp add: mark_received_def Let_def)
    then show ?thesis using ok sz pop_size [OF ok] by (cases "Queue_Size q = 0") auto
  next
    case hole
    then show ?thesis using rq.set_law [OF ok, of "unat ?h" False] sz length_queue_list [of q']
      by (metis length_list_update length_queue_list)
  next
    case beyond
    have h: "unat ?h \<le> 1000000" using beyond(3) u24_gt [of 1000000 ?h] by simp
    let ?p = "push_holes fresh (unat ?h) (unat ?h) q"
    have p: "queue_ok ?p" "queue_list ?p = queue_list q @ replicate (unat ?h - Queue_Size q) True"
      using push_holes_list [OF ok, of "unat ?h" "unat ?h" fresh] by simp_all
    have "queue_ok q'" "queue_list q' = queue_list ?p @ [False]" using rq.push_law [OF p(1)] beyond(4) by simp_all
    then show ?thesis using p(2) beyond(2) h length_queue_list [of q'] by simp
  qed
qed

lemma receive_reliable_bounded:
  assumes "window_bounded w" "receive_reliable fresh n w = Some w'"
  shows "window_bounded w'"
proof -
  obtain base q where m: "mark_received fresh n (receivedPacketsBaseIndex w) (hasReceivedPacketQueue w) = Some (base, q)"
    using assms(2) by (auto simp: receive_reliable_def split: option.splits)
  have q: "queue_ok q" "Queue_Size q \<le> 1000001"
    using mark_received_bounded [OF _ _ m] assms(1) by (auto simp: window_bounded_def)
  show ?thesis using assms(2) m pop_received_bounded [of "(base, q)" "Queue_Size q"] q
    by (auto simp: receive_reliable_def window_bounded_def split: prod.splits)
qed

lemma compress_window_bounded: "window_bounded w \<Longrightarrow> window_bounded (compress_window fresh w)"
  using Queue_Compress_refine [of "hasReceivedPacketQueue w" fresh]
    length_queue_list [of "Queue_Compress fresh (hasReceivedPacketQueue w)"]
  by (auto simp: compress_window_def Let_def window_bounded_def)

lemma apply_reset_bounded: "window_bounded w \<Longrightarrow> window_bounded (apply_reset fresh w)"
  using Queue_ClearAndForceAllocation_refine [of fresh 512 "hasReceivedPacketQueue w"]
    length_queue_list [of "Queue_ClearAndForceAllocation fresh 512 (hasReceivedPacketQueue w)"]
  by (auto simp: apply_reset_def window_bounded_def DEFAULT_HAS_RECEIVED_PACKET_QUEUE_SIZE_def)

lemma admit_bounded:
  assumes "window_bounded w"
  shows "window_bounded (snd (admit fresh ip w))"
proof (cases "receive_reliable fresh (reliableMessageNumber ip) (apply_reset fresh w)")
  case None
  then show ?thesis
    using apply_reset_bounded [OF assms] compress_window_bounded by (simp add: admit_def Let_def)
next
  case (Some w')
  have "window_bounded w'" by (rule receive_reliable_bounded [OF apply_reset_bounded [OF assms] Some])
  then show ?thesis
    using Some apply_reset_bounded [OF assms] compress_window_bounded by (simp add: admit_def Let_def)
qed

text \<open>A number too far ahead of the base is refused.\<close>

lemma receive_reliable_far:
  assumes w: "window_rep w B S" and b: "window_bounded w" and N: "B + 1000000 < N" "N < B + 16777216"
  shows "receive_reliable fresh (of_nat N) w = None"
proof -
  have base: "of_nat N - receivedPacketsBaseIndex w = of_nat (N - B)" using w N(1) by (simp add: window_rep_def of_nat_diff)
  have u: "unat (of_nat (N - B) :: u24) = N - B" by (rule unat_of_nat_id) (use N in simp)
  have "(of_nat (N - B) :: u24) \<noteq> 0" using u N by auto
  moreover have "of_nat (N - B) > (1000000 :: u24)" using u N by (simp add: word_less_nat_alt)
  moreover have "\<not> unat (of_nat (N - B) :: u24) < Queue_Size (hasReceivedPacketQueue w)" using u N b unfolding window_bounded_def by linarith
  ultimately show ?thesis by (simp add: receive_reliable_def mark_received_def base Let_def)
qed

lemma admit_far:
  assumes "window_rep w B S" "window_bounded w" "\<not> resetReceivedPackets w" "B + 1000000 < N" "N < B + 16777216"
    and "checked ip" "reliableMessageNumber ip = of_nat N"
  shows "admit fresh ip w = (False, w)"
  using receive_reliable_far [OF assms(1,2,4,5)] assms(3,6,7) by (auto simp: admit_def checked_def apply_reset_def Let_def)

lemma stalled:
  assumes "window_rep w B S" "window_bounded w" "\<not> resetReceivedPackets w" "h \<notin> S" "\<forall>ip \<in> set ips. checked ip"
    and "map reliableMessageNumber ips = map of_nat Ns" "\<forall>N \<in> set Ns. N \<noteq> h \<and> h \<le> N + 8388608 \<and> N < 16777216"
    and "i < length Ns" "h + 1000000 < Ns ! i"
  shows "\<not> admit_all fresh ips w ! i"
  using assms
proof (induction Ns arbitrary: ips w B S i)
  case (Cons N Ns)
  obtain ip ips' where ips: "ips = ip # ips'" "reliableMessageNumber ip = of_nat N" "map reliableMessageNumber ips' = map of_nat Ns"
    using Cons.prems(6) by auto
  have ch: "checked ip" using Cons.prems(5) ips by simp
  have B: "B \<le> h" using Cons.prems(1,4) by (auto simp: window_rep_def not_le)
  have N: "N \<noteq> h" "h \<le> N + 8388608" "N < 16777216" using Cons.prems(7) by simp_all
  have step: "\<exists>B' S'. window_rep (snd (admit fresh ip w)) B' S' \<and> h \<notin> S' \<and> \<not> resetReceivedPackets (snd (admit fresh ip w)) \<and>
      (h + 1000000 < N \<longrightarrow> \<not> fst (admit fresh ip w))"
  proof (cases "N \<le> B + 1000000")
    case True
    have win: "B \<le> N + 8388608" using B N(2) by simp
    note st = admit_rep [OF Cons.prems(1,3) ch ips(2) win True, of fresh]
    obtain B' where "window_rep (snd (admit fresh ip w)) B' (insert N S)" using st(2) by blast
    then show ?thesis using st(3) Cons.prems(4) N(1) True B by (intro exI [of _ B'] exI [of _ "insert N S"]) auto
  next
    case False
    then have "admit fresh ip w = (False, w)" using admit_far [OF Cons.prems(1-3) _ _ ch ips(2)] N(3) by simp
    then show ?thesis using Cons.prems(1,3,4) by auto
  qed
  then obtain B' S' where s: "window_rep (snd (admit fresh ip w)) B' S'" "h \<notin> S'" "\<not> resetReceivedPackets (snd (admit fresh ip w))"
    "h + 1000000 < N \<longrightarrow> \<not> fst (admit fresh ip w)" by blast
  show ?case
  proof (cases i)
    case 0
    then show ?thesis using s(4) Cons.prems(9) by (simp add: ips(1) split_beta)
  next
    case (Suc j)
    have "\<not> admit_all fresh ips' (snd (admit fresh ip w)) ! j"
      by (rule Cons.IH [OF s(1) admit_bounded [OF Cons.prems(2)] s(3,2) _ ips(3)]) (use Cons.prems Suc ips(1) in auto)
    then show ?thesis by (simp add: Suc ips(1) split_beta)
  qed
qed simp

lemma admit_all_reset:
  assumes "resetReceivedPackets w" "ips \<noteq> []"
  shows "admit_all fresh ips w = admit_all fresh ips (apply_reset fresh w)"
proof -
  obtain ip ips' where ips: "ips = ip # ips'" using assms(2) by (cases ips) auto
  have "admit fresh ip w = admit fresh ip (apply_reset fresh w)"
    unfolding admit_def apply_reset_rep(2) [OF conjunct2 [OF apply_reset_rep(1) [OF assms(1), of fresh]]] by simp
  then show ?thesis by (simp add: ips)
qed

section \<open>Properties\<close>

text \<open>Property C15: over a connection every reliable message number is admitted exactly once: of any sequence of
  arrivals, duplicated and reordered, precisely the first arrival of each number passes, across
  the wrap-around of the 24 bit numbers, provided no arrival is more than \<open>2\<^sup>2\<^sup>3\<close> behind or a
  million ahead of the first missing number.\<close>

theorem window_exactly_once:
  assumes "resetReceivedPackets w" "ips \<noteq> []" "\<forall>ip \<in> set ips. checked ip"
    and "map reliableMessageNumber ips = map of_nat Ns"
    and "\<And>i. i < length Ns \<Longrightarrow> in_window (Ns ! i) (set (take i Ns))"
  shows "admit_all fresh ips w = map (\<lambda>i. Ns ! i \<notin> set (take i Ns)) [0..<length Ns]"
proof -
  note r = apply_reset_rep(1) [OF assms(1), of fresh]
  show ?thesis
    unfolding admit_all_reset [OF assms(1,2)]
    using admit_all_first_occurrences [OF conjunct1 [OF r] conjunct2 [OF r] assms(3,4), of fresh] assms(5) by simp
qed

definition reliable_number :: "nat \<Rightarrow> InternalPacket" where
  "reliable_number n = demo_packet\<lparr>reliability := Reliable, reliableMessageNumber := of_nat n\<rparr>"

definition new_window :: ReceiveWindow where
  "new_window = \<lparr>receivedPacketsBaseIndex = 0, hasReceivedPacketQueue = Queue_new, resetReceivedPackets = True\<rparr>"

theorem window_exactly_once_witness:
  "admit_all (\<lambda>_. True) (map reliable_number [1, 0, 1]) new_window = [True, True, False]"
proof -
  have f: "first_missing {} = 0" "first_missing {1} = 0" "first_missing {0, 1} = 2"
    unfolding first_missing_def by (rule Least_equality; auto)+
  have "in_window ([1, 0, 1] ! i) (set (take i [1, 0, 1]))" if "i < length [1, 0, 1 :: nat]" for i
  proof -
    from that consider "i = 0" | "i = 1" | "i = 2" by fastforce
    then show ?thesis using f by cases (auto simp: in_window_def insert_commute)
  qed
  from window_exactly_once [where w = new_window and ips = "map reliable_number [1, 0, 1]" and Ns = "[1, 0, 1]", OF _ _ _ _ this]
  show ?thesis by (simp add: new_window_def reliable_number_def checked_def corrupt_channel_def upt_rec)
qed

text \<open>No peer can make the window grow without bound: whatever messages arrive, the queue of
  missing numbers stays well-formed and holds at most 1000001 flags.\<close>

theorem window_stays_bounded:
  assumes "window_bounded w"
  shows "window_bounded (snd (admit fresh ip w))"
  by (rule admit_bounded [OF assms])

theorem window_stays_bounded_witness:
  "window_bounded (snd (admit (\<lambda>_. True) (reliable_number 900000) new_window))"
  by (rule window_stays_bounded) (simp add: window_bounded_def new_window_def Queue_Size_def Queue_new_def queue_ok_def)

text \<open>
  Property C39: a message number that never arrives ends reception: as long as the numbers have not wrapped (all below \<open>2\<^sup>2\<^sup>4\<close>) and no arrival is more than
  \<open>2\<^sup>2\<^sup>3\<close> below it, the receiver refuses every message numbered more than a million above it, whatever else arrives and however often these messages are
  sent again.
\<close>

theorem skipped_number_ends_reception:
  assumes "resetReceivedPackets w" "\<forall>ip \<in> set ips. checked ip" "window_bounded w"
    and "map reliableMessageNumber ips = map of_nat Ns" "\<forall>N \<in> set Ns. N \<noteq> h \<and> h \<le> N + 8388608 \<and> N < 16777216"
    and "i < length Ns" "h + 1000000 < Ns ! i"
  shows "\<not> admit_all fresh ips w ! i"
proof -
  note r = apply_reset_rep(1) [OF assms(1), of fresh]
  have "ips \<noteq> []" using assms(4,6) by auto
  note e = admit_all_reset [OF assms(1) this]
  show ?thesis
    unfolding e
    by (rule stalled [OF conjunct1 [OF r] apply_reset_bounded [OF assms(3)] conjunct2 [OF r] _ assms(2,4,5,6,7)]) simp
qed

theorem skipped_number_ends_reception_witness:
  "admit_all (\<lambda>_. True) (map reliable_number [1, 1000001]) new_window ! 1 = False"
  using skipped_number_ends_reception [of new_window "map reliable_number [1, 1000001]" "[1, 1000001]" 0 1 "\<lambda>_. True"]
  by (simp add: new_window_def reliable_number_def checked_def corrupt_channel_def window_bounded_def Queue_Size_def Queue_new_def queue_ok_def)

end
