(* ===== verification/Ordered_Channels.thy ===== *)
theory Ordered_Channels
  imports DS_Heap Internal_Packet
begin

text \<open>
  Delivery on an ordering channel (\<^verbatim>\<open>HandleSocketReceiveFromConnectedPlayer\<close>, from the comment
  ``Has current ordering index'' on): an ordered message is passed on when it is the next one, a
  sequenced message when it is not older than what was passed on, and messages of the future wait
  in a heap.  The weight in the heap is the distance of the ordering index from
  \<^verbatim>\<open>heapIndexOffsets\<close> and, below it, the sequencing index; an ordered message has the largest
  sequencing part.  Specification: a message has an unbounded ordering number \<open>g\<close>; with the
  sequencing index it forms the key that says where in the stream it was sent.
\<close>

section \<open>State and operations\<close>

record Channel =
  orderedReadIndex :: u24
  highestSequencedReadIndex :: u24
  heapIndexOffset :: u24
  orderingHeap :: "(u64, InternalPacket) Heap"

definition Channel_new :: Channel where
  "Channel_new = \<lparr>orderedReadIndex = 0, highestSequencedReadIndex = 0, heapIndexOffset = 0, orderingHeap = Heap_new\<rparr>"

definition sequenced_packet :: "InternalPacket \<Rightarrow> bool" where
  "sequenced_packet ip \<longleftrightarrow> reliability ip = ReliableSequenced \<or> reliability ip = UnreliableSequenced"

definition ordering_weight :: "u24 \<Rightarrow> InternalPacket \<Rightarrow> u64" where
  "ordering_weight offset ip =
    (let orderedHoleCount = (ucast (orderingIndex ip - offset) :: u64);
         w = orderedHoleCount * 1048576
     in if sequenced_packet ip then w + ucast (sequencingIndex ip) else w + (1048576 - 1))"

primrec pop_ordered :: "nat \<Rightarrow> Channel \<Rightarrow> InternalPacket list \<times> Channel" where
  "pop_ordered 0 ch = ([], ch)"
| "pop_ordered (Suc fuel) ch =
    (if Heap_Size (orderingHeap ch) > 0 \<and> orderingIndex (Heap_Peek 0 (orderingHeap ch)) = orderedReadIndex ch then
       let (ip, hp) = Heap_Pop False 0 (orderingHeap ch);
           ch1 = ch\<lparr>orderingHeap := hp\<rparr>;
           ch2 = (if reliability ip = ReliableOrdered then ch1\<lparr>orderedReadIndex := orderedReadIndex ch1 + 1\<rparr>
                  else ch1\<lparr>highestSequencedReadIndex := sequencingIndex ip\<rparr>);
           (out, ch3) = pop_ordered fuel ch2
       in (ip # out, ch3)
     else ([], ch))"

definition deliver_ordered :: "InternalPacket \<Rightarrow> Channel \<Rightarrow> InternalPacket list \<times> Channel" where
  "deliver_ordered ip ch =
    (if orderingIndex ip = orderedReadIndex ch then
       if sequenced_packet ip then
         if \<not> IsOlderOrderedPacket (sequencingIndex ip) (highestSequencedReadIndex ch)
         then ([ip], ch\<lparr>highestSequencedReadIndex := sequencingIndex ip + 1\<rparr>)
         else ([], ch)
       else
         let ch1 = ch\<lparr>orderedReadIndex := orderedReadIndex ch + 1, highestSequencedReadIndex := 0\<rparr>;
             (out, ch2) = pop_ordered (Heap_Size (orderingHeap ch1)) ch1
         in (ip # out, ch2)
     else if \<not> IsOlderOrderedPacket (orderingIndex ip) (orderedReadIndex ch) then
       let ch1 = (if Heap_Size (orderingHeap ch) = 0 then ch\<lparr>heapIndexOffset := orderedReadIndex ch\<rparr> else ch)
       in ([], ch1\<lparr>orderingHeap := Heap_Push False (ordering_weight (heapIndexOffset ch1) ip) ip (orderingHeap ch1)\<rparr>)
     else ([], ch))"

section \<open>Unbounded ordering numbers\<close>

text \<open>The place of a message in the stream, for the ordering number \<open>g ip\<close>.\<close>

definition send_key :: "(InternalPacket \<Rightarrow> nat) \<Rightarrow> InternalPacket \<Rightarrow> nat" where
  "send_key g ip = g ip * 1048576 + (if sequenced_packet ip then unat (sequencingIndex ip) else 1048575)"

definition numbered :: "(InternalPacket \<Rightarrow> nat) \<Rightarrow> InternalPacket \<Rightarrow> bool" where
  "numbered g ip \<longleftrightarrow> orderingIndex ip = of_nat (g ip) \<and>
    (if sequenced_packet ip then unat (sequencingIndex ip) < 1048575 else reliability ip = ReliableOrdered)"

lemma send_key_bounds: "numbered g ip \<Longrightarrow> g ip * 1048576 \<le> send_key g ip \<and> send_key g ip < (g ip + 1) * 1048576"
  by (auto simp: send_key_def numbered_def split: if_splits)

lemma send_key_less: "numbered g a \<Longrightarrow> numbered g b \<Longrightarrow> g a < g b \<Longrightarrow> send_key g a < send_key g b"
proof -
  assume "numbered g a" "numbered g b" "g a < g b"
  then have "send_key g a < (g a + 1) * 1048576" "(g a + 1) * 1048576 \<le> g b * 1048576" "g b * 1048576 \<le> send_key g b"
    using send_key_bounds by (simp_all del: One_nat_def)
  then show ?thesis by linarith
qed

lemma ordering_weight_key:
  assumes "numbered g ip" "F \<le> g ip" "g ip < F + 16777216"
  shows "unat (ordering_weight (of_nat F) ip) = send_key g ip - F * 1048576"
proof -
  define k where "k = g ip - F"
  have k: "k < 16777216" "g ip = F + k" using assms(2,3) by (auto simp: k_def)
  have d: "unat (orderingIndex ip - of_nat F) = k"
    using assms(1) unat_u24_diff [OF assms(2,3)] by (simp add: numbered_def k_def)
  define s where "s = (if sequenced_packet ip then unat (sequencingIndex ip) else 1048575)"
  have s: "s \<le> 1048575" using assms(1) by (auto simp: s_def numbered_def)
  have w: "ordering_weight (of_nat F) ip = of_nat (k * 1048576 + s)"
  proof -
    have "(ucast (orderingIndex ip - of_nat F) :: u64) = of_nat k" unfolding d [symmetric] by simp
    moreover have "(ucast (sequencingIndex ip) :: u64) = of_nat (unat (sequencingIndex ip))" by simp
    ultimately show ?thesis by (simp add: ordering_weight_def Let_def s_def)
  qed
  have "k * 1048576 + s < 2 ^ 64" using k s by simp
  then have "unat (ordering_weight (of_nat F) ip) = k * 1048576 + s" unfolding w by (intro unat_of_nat_id) simp
  then show ?thesis by (simp add: send_key_def s_def [symmetric] k(2) add_mult_distrib)
qed

section \<open>The invariant of a channel\<close>

definition waiting :: "Channel \<Rightarrow> (u64 \<times> InternalPacket) multiset" where
  "waiting ch = heap_elems (orderingHeap ch)"

definition waiting_ordered :: "(InternalPacket \<Rightarrow> nat) \<Rightarrow> (u64 \<times> InternalPacket) multiset \<Rightarrow> nat multiset" where
  "waiting_ordered g M = image_mset (\<lambda>x. g (snd x)) (filter_mset (\<lambda>x. \<not> sequenced_packet (snd x)) M)"

text \<open>An entry of the heap: numbered at least \<open>lo\<close> and within the reach of the offset \<open>F\<close>.\<close>

definition entry_ok :: "(InternalPacket \<Rightarrow> nat) \<Rightarrow> nat \<Rightarrow> nat \<Rightarrow> nat \<Rightarrow> u64 \<times> InternalPacket \<Rightarrow> bool" where
  "entry_ok g lo R F x \<longleftrightarrow>
    numbered g (snd x) \<and> lo \<le> g (snd x) \<and> g (snd x) \<le> R + 8388608 \<and> F \<le> g (snd x) \<and>
    g (snd x) < F + 16777216 \<and> fst x = ordering_weight (of_nat F) (snd x)"

definition chan_inv ::
  "(InternalPacket \<Rightarrow> nat) \<Rightarrow> nat \<Rightarrow> nat \<Rightarrow> nat \<Rightarrow> InternalPacket list \<Rightarrow> nat set \<Rightarrow> Channel \<Rightarrow> bool" where
  "chan_inv g lo R F outs S ch \<longleftrightarrow>
    heap_ok False (orderingHeap ch) \<and> orderedReadIndex ch = of_nat R \<and>
    (waiting ch \<noteq> {#} \<longrightarrow> heapIndexOffset ch = of_nat F \<and> F \<le> R) \<and>
    unat (highestSequencedReadIndex ch) \<le> 1048575 \<and>
    (\<forall>x \<in># waiting ch. entry_ok g lo R F x) \<and>
    finite S \<and> {..<R} \<subseteq> S \<and> waiting_ordered g (waiting ch) = mset_set (S - {..<R}) \<and>
    sorted (map (send_key g) outs) \<and>
    (\<forall>d \<in> set outs. send_key g d \<le> R * 1048576 + unat (highestSequencedReadIndex ch)) \<and>
    (\<forall>d \<in> set outs. \<forall>x \<in># waiting ch. send_key g d \<le> send_key g (snd x)) \<and>
    map g (filter (\<lambda>d. \<not> sequenced_packet d) outs) = [0..<R]"

lemma entry_weight:
  assumes "entry_ok g lo R F x" "entry_ok g lo R F y"
  shows "fst x \<le> fst y \<longleftrightarrow> send_key g (snd x) \<le> send_key g (snd y)"
proof -
  have "unat (fst x) = send_key g (snd x) - F * 1048576" "F * 1048576 \<le> send_key g (snd x)"
    "unat (fst y) = send_key g (snd y) - F * 1048576" "F * 1048576 \<le> send_key g (snd y)"
    using assms ordering_weight_key [of g "snd x" F] ordering_weight_key [of g "snd y" F]
    by (auto simp: entry_ok_def send_key_def)
  then show ?thesis by (simp add: word_le_nat_alt) linarith
qed

text \<open>The entry at the top of the heap, as a pair, and what remains.\<close>

definition first_entry :: "Channel \<Rightarrow> u64 \<times> InternalPacket" where
  "first_entry ch = (Heap_PeekWeight 0 (orderingHeap ch), fst (Heap_Pop False 0 (orderingHeap ch)))"

definition pop_entry :: "Channel \<Rightarrow> Channel" where
  "pop_entry ch = ch\<lparr>orderingHeap := snd (Heap_Pop False 0 (orderingHeap ch))\<rparr>"

lemma waiting_size: "Heap_Size (orderingHeap ch) = size (waiting ch)"
  by (simp add: Heap_Size_def waiting_def heap_elems_def heap_mset_def)

lemma first_entry_laws:
  assumes "heap_ok False (orderingHeap ch)" "waiting ch \<noteq> {#}"
  shows "waiting ch = add_mset (first_entry ch) (waiting (pop_entry ch))"
    and "heap_ok False (orderingHeap (pop_entry ch))"
    and "\<And>x. x \<in># waiting ch \<Longrightarrow> fst (first_entry ch) \<le> fst x"
    and "Heap_Peek 0 (orderingHeap ch) = snd (first_entry ch)"
proof -
  have ne: "h_nodes (orderingHeap ch) \<noteq> []"
    using assms(2) by (simp add: waiting_def heap_elems_def heap_mset_def)
  show "waiting ch = add_mset (first_entry ch) (waiting (pop_entry ch))"
    using hq.pop_law(2) [OF assms(1)] assms(2) by (simp add: waiting_def first_entry_def pop_entry_def)
  show "heap_ok False (orderingHeap (pop_entry ch))"
    using hq.pop_law(1) [OF assms(1)] assms(2) by (simp add: waiting_def pop_entry_def)
  show "fst (first_entry ch) \<le> fst x" if "x \<in># waiting ch" for x
    using hq.top_law [OF assms(1)] that by (simp add: waiting_def first_entry_def hle_def out_of_order_def not_less)
  show "Heap_Peek 0 (orderingHeap ch) = snd (first_entry ch)"
    using Heap_Pop_correct(3) [OF assms(1) ne] by (simp add: first_entry_def Heap_Peek_def)
qed

section \<open>Returning messages off the heap\<close>

lemma pop_common:
  assumes inv: "chan_inv g R R F outs S ch" and ne: "waiting ch \<noteq> {#}"
    and top: "g (snd (first_entry ch)) = R"
  shows "entry_ok g R R F (first_entry ch)"
    and "\<And>x. x \<in># waiting (pop_entry ch) \<Longrightarrow> entry_ok g R R F x \<and> send_key g (snd (first_entry ch)) \<le> send_key g (snd x)"
    and "\<And>d. d \<in> set outs \<Longrightarrow> send_key g d \<le> send_key g (snd (first_entry ch))"
    and "R * 1048576 \<le> send_key g (snd (first_entry ch))"
proof -
  have ok: "heap_ok False (orderingHeap ch)" using inv by (simp add: chan_inv_def)
  note fl = first_entry_laws [OF ok ne]
  have all: "entry_ok g R R F x" if "x \<in># waiting ch" for x using inv that by (simp add: chan_inv_def)
  show e: "entry_ok g R R F (first_entry ch)" using all fl(1) by simp
  show "entry_ok g R R F x \<and> send_key g (snd (first_entry ch)) \<le> send_key g (snd x)" if "x \<in># waiting (pop_entry ch)" for x
  proof -
    have x: "x \<in># waiting ch" using that fl(1) by simp
    show ?thesis using all [OF x] fl(3) [OF x] entry_weight [OF e all [OF x]] by simp
  qed
  show "send_key g d \<le> send_key g (snd (first_entry ch))" if "d \<in> set outs" for d
    using inv that fl(1) by (simp add: chan_inv_def)
  show "R * 1048576 \<le> send_key g (snd (first_entry ch))" using top by (simp add: send_key_def)
qed

lemma pop_sequenced:
  assumes inv: "chan_inv g R R F outs S ch" and ne: "waiting ch \<noteq> {#}"
    and top: "g (snd (first_entry ch)) = R" and sq: "sequenced_packet (snd (first_entry ch))"
  shows "chan_inv g R R F (outs @ [snd (first_entry ch)]) S
    ((pop_entry ch)\<lparr>highestSequencedReadIndex := sequencingIndex (snd (first_entry ch))\<rparr>)"
proof -
  let ?d = "snd (first_entry ch)" and ?ch = "(pop_entry ch)\<lparr>highestSequencedReadIndex := sequencingIndex (snd (first_entry ch))\<rparr>"
  have ok: "heap_ok False (orderingHeap ch)" using inv by (simp add: chan_inv_def)
  note fl = first_entry_laws [OF ok ne] and pc = pop_common [OF inv ne top]
  have w: "waiting ?ch = waiting (pop_entry ch)" by (simp add: waiting_def)
  have key: "send_key g ?d = R * 1048576 + unat (sequencingIndex ?d)" using top sq by (simp add: send_key_def)
  have "waiting_ordered g (waiting ?ch) = waiting_ordered g (waiting ch)"
    unfolding w fl(1) using sq by (simp add: waiting_ordered_def)
  moreover have "unat (sequencingIndex ?d) \<le> 1048575"
    using pc(1) sq by (simp add: entry_ok_def numbered_def)
  moreover have "sorted (map (send_key g) (outs @ [?d]))" using inv pc(3) by (simp add: chan_inv_def sorted_append)
  ultimately show ?thesis
    using inv ne fl(2) pc sq w key unfolding chan_inv_def
    by (auto simp: pop_entry_def intro: order_trans)
qed

lemma pop_in_order:
  assumes inv: "chan_inv g R R F outs S ch" and ne: "waiting ch \<noteq> {#}"
    and top: "g (snd (first_entry ch)) = R" and sq: "\<not> sequenced_packet (snd (first_entry ch))"
  shows "chan_inv g (Suc R) (Suc R) F (outs @ [snd (first_entry ch)]) S
    ((pop_entry ch)\<lparr>orderedReadIndex := orderedReadIndex (pop_entry ch) + 1\<rparr>)"
proof -
  let ?d = "snd (first_entry ch)" and ?ch = "(pop_entry ch)\<lparr>orderedReadIndex := orderedReadIndex (pop_entry ch) + 1\<rparr>"
  have ok: "heap_ok False (orderingHeap ch)" using inv by (simp add: chan_inv_def)
  note fl = first_entry_laws [OF ok ne] and pc = pop_common [OF inv ne top]
  have w: "waiting ?ch = waiting (pop_entry ch)" by (simp add: waiting_def)
  have key: "send_key g ?d = R * 1048576 + 1048575" using top sq by (simp add: send_key_def)
  have fin: "finite S" and sub: "{..<R} \<subseteq> S" and wo: "waiting_ordered g (waiting ch) = mset_set (S - {..<R})"
    using inv by (simp_all add: chan_inv_def)
  have add: "waiting_ordered g (waiting ch) = add_mset R (waiting_ordered g (waiting (pop_entry ch)))"
    unfolding fl(1) using sq top by (simp add: waiting_ordered_def)
  have R: "R \<in> S - {..<R}" using add wo fin by (metis finite_Diff finite_set_mset_mset_set union_single_eq_member)
  have D: "S - {..<Suc R} = S - {..<R} - {R}" by auto
  have wo': "waiting_ordered g (waiting (pop_entry ch)) = mset_set (S - {..<Suc R})"
    unfolding D using add wo mset_set.remove [OF _ R] fin by (simp add: mset_set_Diff)
  have up: "Suc R \<le> g (snd x)" if x: "x \<in># waiting (pop_entry ch)" for x
  proof (rule ccontr)
    assume "\<not> Suc R \<le> g (snd x)"
    then have gx: "g (snd x) = R" using pc(2) [OF x] by (simp add: entry_ok_def)
    have nx: "numbered g (snd x)" using pc(2) [OF x] by (simp add: entry_ok_def)
    show False
    proof (cases "sequenced_packet (snd x)")
      case True
      then show False using pc(2) [OF x] nx key gx by (simp add: send_key_def numbered_def)
    next
      case False
      then have "R \<in># waiting_ordered g (waiting (pop_entry ch))" using x gx by (force simp: waiting_ordered_def)
      then show False using wo' fin by simp
    qed
  qed
  have ent: "entry_ok g (Suc R) (Suc R) F x" if "x \<in># waiting (pop_entry ch)" for x
    using pc(2) [OF that] up [OF that] by (simp add: entry_ok_def)
  have outs: "send_key g d \<le> Suc R * 1048576 + n" if "d \<in> set (outs @ [?d])" for d n
  proof -
    have "send_key g d \<le> send_key g ?d" using that pc(3) by auto
    then show ?thesis using key by simp
  qed
  have "sorted (map (send_key g) (outs @ [?d]))" using inv pc(3) by (simp add: chan_inv_def sorted_append)
  moreover have "{..<Suc R} \<subseteq> S" using sub R by (auto simp: less_Suc_eq)
  moreover have "map g (filter (\<lambda>d. \<not> sequenced_packet d) (outs @ [?d])) = [0..<Suc R]"
    using inv sq top by (simp add: chan_inv_def)
  moreover have "orderedReadIndex ?ch = of_nat (Suc R)" using inv by (simp add: chan_inv_def pop_entry_def)
  moreover have "\<forall>d \<in> set (outs @ [?d]). \<forall>x \<in># waiting ?ch. send_key g d \<le> send_key g (snd x)"
    using pc(2,3) w by (fastforce intro: order_trans)
  ultimately show ?thesis
    unfolding chan_inv_def using inv ne fl(2) w wo' ent outs fin
    by (auto simp: chan_inv_def pop_entry_def)
qed

lemma top_number:
  assumes "chan_inv g R R F outs S ch" "waiting ch \<noteq> {#}"
  shows "orderingIndex (Heap_Peek 0 (orderingHeap ch)) = orderedReadIndex ch \<longleftrightarrow> g (snd (first_entry ch)) = R"
proof -
  have ok: "heap_ok False (orderingHeap ch)" using assms(1) by (simp add: chan_inv_def)
  note fl = first_entry_laws [OF ok assms(2)]
  have "entry_ok g R R F (first_entry ch)" using assms(1) fl(1) by (simp add: chan_inv_def)
  then have "orderingIndex (snd (first_entry ch)) = of_nat (g (snd (first_entry ch)))"
    "R \<le> g (snd (first_entry ch))" "g (snd (first_entry ch)) \<le> R + 8388608"
    by (simp_all add: entry_ok_def numbered_def)
  then show ?thesis using assms(1) fl(4) of_nat_u24_eq [of "g (snd (first_entry ch))" R] by (simp add: chan_inv_def)
qed

text \<open>When the top of the heap is not due, nothing in the heap is.\<close>

lemma nothing_due:
  assumes inv: "chan_inv g R R F outs S ch" and top: "waiting ch \<noteq> {#} \<longrightarrow> g (snd (first_entry ch)) \<noteq> R"
  shows "chan_inv g (Suc R) R F outs S ch"
proof -
  have "Suc R \<le> g (snd x)" if x: "x \<in># waiting ch" for x
  proof -
    have ne: "waiting ch \<noteq> {#}" using x by auto
    have ok: "heap_ok False (orderingHeap ch)" using inv by (simp add: chan_inv_def)
    note fl = first_entry_laws [OF ok ne]
    have e: "entry_ok g R R F (first_entry ch)" "entry_ok g R R F x"
      using inv fl(1) x unfolding chan_inv_def by (metis union_single_eq_member)+
    have "send_key g (snd (first_entry ch)) \<le> send_key g (snd x)" using fl(3) [OF x] entry_weight [OF e] by simp
    then have "g (snd (first_entry ch)) \<le> g (snd x)"
      using send_key_less [of g "snd x" "snd (first_entry ch)"] e by (auto simp: entry_ok_def not_less [symmetric])
    moreover have "R < g (snd (first_entry ch))" using top ne e(1) by (auto simp: entry_ok_def le_less)
    ultimately show ?thesis by simp
  qed
  then show ?thesis using inv by (auto simp: chan_inv_def entry_ok_def)
qed

lemma pop_ordered_inv:
  "chan_inv g R R F outs S ch \<Longrightarrow> size (waiting ch) \<le> fuel \<Longrightarrow>
    \<exists>R'. chan_inv g (Suc R') R' F (outs @ fst (pop_ordered fuel ch)) S (snd (pop_ordered fuel ch))"
proof (induction fuel arbitrary: R outs ch)
  case 0
  then show ?case using nothing_due [OF "0.prems"(1)] by (auto intro!: exI [of _ R])
next
  case (Suc fuel)
  show ?case
  proof (cases "waiting ch \<noteq> {#} \<and> g (snd (first_entry ch)) = R")
    case False
    have "\<not> (Heap_Size (orderingHeap ch) > 0 \<and> orderingIndex (Heap_Peek 0 (orderingHeap ch)) = orderedReadIndex ch)"
      using False top_number [OF Suc.prems(1)] by (auto simp: waiting_size)
    then have "pop_ordered (Suc fuel) ch = ([], ch)" unfolding pop_ordered.simps by (rule if_not_P)
    then show ?thesis using nothing_due [OF Suc.prems(1)] False by auto
  next
    case True
    then have ne: "waiting ch \<noteq> {#}" and top: "g (snd (first_entry ch)) = R" by simp_all
    have ok: "heap_ok False (orderingHeap ch)" using Suc.prems(1) by (simp add: chan_inv_def)
    note fl = first_entry_laws [OF ok ne]
    let ?d = "snd (first_entry ch)"
    let ?c = "if reliability ?d = ReliableOrdered then (pop_entry ch)\<lparr>orderedReadIndex := orderedReadIndex (pop_entry ch) + 1\<rparr>
      else (pop_entry ch)\<lparr>highestSequencedReadIndex := sequencingIndex ?d\<rparr>"
    have g: "Heap_Size (orderingHeap ch) > 0 \<and> orderingIndex (Heap_Peek 0 (orderingHeap ch)) = orderedReadIndex ch"
      using top_number [OF Suc.prems(1) ne] top ne by (simp add: waiting_size nonempty_has_size [symmetric])
    have st: "pop_ordered (Suc fuel) ch = (?d # fst (pop_ordered fuel ?c), snd (pop_ordered fuel ?c))"
      using g by (simp add: Let_def split_beta pop_entry_def first_entry_def)
    have num: "numbered g ?d" using Suc.prems(1) fl(1) by (simp add: chan_inv_def entry_ok_def)
    obtain R1 where c: "chan_inv g R1 R1 F (outs @ [?d]) S ?c"
    proof (cases "sequenced_packet ?d")
      case True
      then show ?thesis using that [of R] pop_sequenced [OF Suc.prems(1) ne top True]
        by (auto simp: sequenced_packet_def)
    next
      case False
      then show ?thesis using that [of "Suc R"] pop_in_order [OF Suc.prems(1) ne top False] num
        by (simp add: numbered_def)
    qed
    have "waiting ?c = waiting (pop_entry ch)" by (simp add: waiting_def)
    then have "size (waiting ?c) \<le> fuel" using Suc.prems(2) arg_cong [OF fl(1), of size] by simp
    from Suc.IH [OF c this] show ?thesis unfolding st by simp
  qed
qed

section \<open>Arrivals\<close>

lemma chan_inv_weaken: "chan_inv g (Suc R) R F outs S ch \<Longrightarrow> chan_inv g R R F outs S ch"
  by (auto simp: chan_inv_def entry_ok_def)

text \<open>An arrival the channel can place: not too far from the read index and within the heap's reach.\<close>

definition placeable :: "(InternalPacket \<Rightarrow> nat) \<Rightarrow> nat \<Rightarrow> nat \<Rightarrow> InternalPacket \<Rightarrow> bool" where
  "placeable g R F ip \<longleftrightarrow> numbered g ip \<and> R \<le> g ip + 8388606 \<and> g ip < R + 8388608 \<and> g ip < F + 16777216"

definition arrived :: "(InternalPacket \<Rightarrow> nat) \<Rightarrow> InternalPacket \<Rightarrow> nat set \<Rightarrow> nat set" where
  "arrived g ip S = (if sequenced_packet ip then S else insert (g ip) S)"

lemma deliver_current_sequenced:
  assumes inv: "chan_inv g (Suc R) R F outs S ch" and p: "numbered g ip" "g ip = R" and sq: "sequenced_packet ip"
  shows "chan_inv g (Suc R) R F (outs @ fst (deliver_ordered ip ch)) S (snd (deliver_ordered ip ch))"
proof -
  let ?h = "highestSequencedReadIndex ch" and ?s = "sequencingIndex ip"
  have idx: "orderingIndex ip = orderedReadIndex ch" using inv p by (simp add: chan_inv_def numbered_def)
  have s: "unat ?s < 1048575" using p sq by (simp add: numbered_def)
  have h: "unat ?h \<le> 1048575" using inv by (simp add: chan_inv_def)
  have old: "IsOlderOrderedPacket ?s ?h \<longleftrightarrow> unat ?s < unat ?h"
    using IsOlderOrderedPacket_number [of "unat ?s" "unat ?h"] s h by simp
  show ?thesis
  proof (cases "unat ?s < unat ?h")
    case True
    then show ?thesis using idx sq old inv by (simp add: deliver_ordered_def)
  next
    case False
    let ?ch = "ch\<lparr>highestSequencedReadIndex := ?s + 1\<rparr>"
    have d: "deliver_ordered ip ch = ([ip], ?ch)" using False idx sq old by (simp add: deliver_ordered_def)
    have s1: "unat (?s + 1) = unat ?s + 1" using s by (simp add: unat_plus_wrap)
    have w: "waiting ?ch = waiting ch" by (simp add: waiting_def)
    have key: "send_key g ip = R * 1048576 + unat ?s" using p sq by (simp add: send_key_def)
    have below: "send_key g ip \<le> send_key g (snd x)" if "x \<in># waiting ch" for x
    proof -
      have "entry_ok g (Suc R) R F x" using inv that by (simp add: chan_inv_def)
      then show ?thesis using send_key_less [of g ip "snd x"] p by (simp add: entry_ok_def)
    qed
    have le: "send_key g d \<le> send_key g ip" if "d \<in> set outs" for d
      using inv that False key by (fastforce simp: chan_inv_def)
    then have "sorted (map (send_key g) (outs @ [ip]))" using inv by (simp add: chan_inv_def sorted_append)
    moreover have "\<forall>d \<in> set (outs @ [ip]). send_key g d \<le> R * 1048576 + unat (?s + 1)"
      using le key s1 by fastforce
    moreover have "map g (filter (\<lambda>d. \<not> sequenced_packet d) (outs @ [ip])) = [0..<R]"
      using inv sq by (simp add: chan_inv_def)
    ultimately show ?thesis unfolding d using inv s s1 w below by (auto simp: chan_inv_def)
  qed
qed

lemma deliver_current_ordered:
  assumes inv: "chan_inv g (Suc R) R F outs S ch" and p: "numbered g ip" "g ip = R" and sq: "\<not> sequenced_packet ip"
    and new: "R \<notin> S"
  shows "\<exists>R'. chan_inv g (Suc R') R' F (outs @ fst (deliver_ordered ip ch)) (insert R S) (snd (deliver_ordered ip ch))"
proof -
  let ?ch = "ch\<lparr>orderedReadIndex := orderedReadIndex ch + 1, highestSequencedReadIndex := 0\<rparr>"
  have idx: "orderingIndex ip = orderedReadIndex ch" using inv p by (simp add: chan_inv_def numbered_def)
  have w: "waiting ?ch = waiting ch" by (simp add: waiting_def)
  have key: "send_key g ip = R * 1048576 + 1048575" using p sq by (simp add: send_key_def)
  have D: "insert R S - {..<Suc R} = S - {..<R}" using new by (auto simp: less_Suc_eq)
  have ent: "entry_ok g (Suc R) (Suc R) F x" if "x \<in># waiting ch" for x
    using inv that by (auto simp: chan_inv_def entry_ok_def)
  have below: "send_key g ip \<le> send_key g (snd x)" if "x \<in># waiting ch" for x
    using ent [OF that] send_key_less [of g ip "snd x"] p by (simp add: entry_ok_def)
  have le: "send_key g d \<le> send_key g ip" if "d \<in> set outs" for d
    using inv that key by (fastforce simp: chan_inv_def)
  have "chan_inv g (Suc R) (Suc R) F (outs @ [ip]) (insert R S) ?ch"
    unfolding chan_inv_def w
  proof (intro conjI)
    show "sorted (map (send_key g) (outs @ [ip]))" using inv le by (simp add: chan_inv_def sorted_append)
    show "\<forall>d \<in> set (outs @ [ip]). send_key g d \<le> Suc R * 1048576 + unat (highestSequencedReadIndex ?ch)"
      using le key by fastforce
    show "\<forall>d \<in> set (outs @ [ip]). \<forall>x \<in># waiting ch. send_key g d \<le> send_key g (snd x)"
      using le below by (fastforce intro: order_trans)
    show "map g (filter (\<lambda>d. \<not> sequenced_packet d) (outs @ [ip])) = [0..<Suc R]"
      using inv sq p by (simp add: chan_inv_def)
    show "waiting_ordered g (waiting ch) = mset_set (insert R S - {..<Suc R})"
      unfolding D using inv by (simp add: chan_inv_def)
    show "{..<Suc R} \<subseteq> insert R S" using inv by (auto simp: chan_inv_def less_Suc_eq)
  qed (use inv ent in \<open>auto simp: chan_inv_def\<close>)
  from pop_ordered_inv [OF this, of "Heap_Size (orderingHeap ?ch)"]
  show ?thesis using idx sq w
    by (simp add: deliver_ordered_def Let_def split_beta waiting_size [of ?ch, simplified])
qed

lemma deliver_future:
  assumes inv: "chan_inv g (Suc R) R F outs S ch" and p: "placeable g R F ip" "R < g ip"
    and new: "sequenced_packet ip \<or> g ip \<notin> S"
  shows "\<exists>F'. chan_inv g (Suc R) R F' (outs @ fst (deliver_ordered ip ch)) (arrived g ip S) (snd (deliver_ordered ip ch))"
proof -
  define F' where "F' = (if waiting ch = {#} then R else F)"
  let ?ch1 = "if Heap_Size (orderingHeap ch) = 0 then ch\<lparr>heapIndexOffset := orderedReadIndex ch\<rparr> else ch"
  have num: "numbered g ip" and reach: "g ip < R + 8388608" "g ip < F + 16777216" using p by (simp_all add: placeable_def)
  have ri: "orderedReadIndex ch = of_nat R" "heap_ok False (orderingHeap ch)" using inv by (simp_all add: chan_inv_def)
  have ne: "orderingIndex ip \<noteq> orderedReadIndex ch"
    using of_nat_u24_eq [of "g ip" R] num p(2) reach(1) ri by (simp add: numbered_def)
  have nold: "\<not> IsOlderOrderedPacket (orderingIndex ip) (orderedReadIndex ch)"
    using IsOlderOrderedPacket_number [of "g ip" R] num p ri by (simp add: numbered_def placeable_def)
  have off: "heapIndexOffset ?ch1 = of_nat F'" "F' \<le> R" "orderingHeap ?ch1 = orderingHeap ch"
    using inv ri by (auto simp: F'_def waiting_size chan_inv_def)
  let ?w = "ordering_weight (of_nat F') ip" and ?hp = "Heap_Push False (ordering_weight (of_nat F') ip) ip (orderingHeap ch)"
  define ch2 where "ch2 = ?ch1\<lparr>orderingHeap := ?hp\<rparr>"
  have d: "deliver_ordered ip ch = ([], ch2)"
    using ne nold off by (simp add: deliver_ordered_def Let_def ch2_def)
  have w: "waiting ch2 = add_mset (?w, ip) (waiting ch)"
    using hq.push_law(2) [OF ri(2)] by (simp add: ch2_def waiting_def)
  have fields: "orderedReadIndex ch2 = of_nat R" "highestSequencedReadIndex ch2 = highestSequencedReadIndex ch"
    "heapIndexOffset ch2 = of_nat F'" "heap_ok False (orderingHeap ch2)"
    using ri off(1) hq.push_law(1) [OF ri(2)] by (auto simp: ch2_def)
  have ent: "entry_ok g (Suc R) R F' x" if "x \<in># waiting ch2" for x
  proof (cases "x = (?w, ip)")
    case True
    then show ?thesis using num p(2) reach off(2) by (auto simp: entry_ok_def F'_def)
  next
    case False
    then have "x \<in># waiting ch" using that w by simp
    then show ?thesis using inv by (auto simp: chan_inv_def F'_def)
  qed
  have below: "send_key g e \<le> send_key g ip" if "e \<in> set outs" for e
  proof -
    have "send_key g e \<le> R * 1048576 + 1048575" using inv that by (fastforce simp: chan_inv_def)
    moreover have "Suc R * 1048576 \<le> g ip * 1048576" using p(2) by (intro mult_le_mono1) simp
    moreover have "g ip * 1048576 \<le> send_key g ip" by (simp add: send_key_def)
    ultimately show ?thesis by simp
  qed
  have fin: "finite S" and sub: "{..<R} \<subseteq> S" and wo: "waiting_ordered g (waiting ch) = mset_set (S - {..<R})"
    using inv by (simp_all add: chan_inv_def)
  have "waiting_ordered g (waiting ch2) = mset_set (arrived g ip S - {..<R})"
  proof (cases "sequenced_packet ip")
    case True
    then show ?thesis using w wo by (simp add: waiting_ordered_def arrived_def)
  next
    case False
    have "insert (g ip) S - {..<R} = insert (g ip) (S - {..<R})" using p(2) by auto
    then show ?thesis using False w wo new fin by (simp add: waiting_ordered_def arrived_def)
  qed
  then have "chan_inv g (Suc R) R F' outs (arrived g ip S) ch2"
    using inv fields off(2) ent below fin sub w unfolding chan_inv_def by (auto simp: arrived_def)
  then show ?thesis unfolding d by (intro exI [of _ F']) simp
qed

lemma deliver_past:
  assumes inv: "chan_inv g (Suc R) R F outs S ch" and p: "placeable g R F ip" "g ip < R"
  shows "deliver_ordered ip ch = ([], ch)"
proof -
  have ri: "orderedReadIndex ch = of_nat R" and num: "orderingIndex ip = of_nat (g ip)"
    using inv p(1) by (simp_all add: chan_inv_def placeable_def numbered_def)
  have "orderingIndex ip \<noteq> orderedReadIndex ch"
    using of_nat_u24_eq [of "g ip" R] p by (simp add: ri num placeable_def)
  moreover have "IsOlderOrderedPacket (orderingIndex ip) (orderedReadIndex ch)"
    using IsOlderOrderedPacket_number [of "g ip" R] p by (simp add: ri num placeable_def)
  ultimately show ?thesis by (simp add: deliver_ordered_def)
qed

lemma deliver_ordered_inv:
  assumes inv: "chan_inv g (Suc R) R F outs S ch" and p: "placeable g R F ip"
    and new: "sequenced_packet ip \<or> g ip \<notin> S"
  shows "\<exists>R' F'. chan_inv g (Suc R') R' F' (outs @ fst (deliver_ordered ip ch)) (arrived g ip S)
    (snd (deliver_ordered ip ch))"
proof -
  have num: "numbered g ip" using p by (simp add: placeable_def)
  consider (past) "g ip < R" | (now) "g ip = R" | (future) "R < g ip" by linarith
  then show ?thesis
  proof cases
    case past
    have "sequenced_packet ip" using new past inv by (auto simp: chan_inv_def)
    then show ?thesis using deliver_past [OF inv p past] inv by (auto simp: arrived_def)
  next
    case now
    then show ?thesis
      using deliver_current_sequenced [OF inv num now] deliver_current_ordered [OF inv num now] new
      by (cases "sequenced_packet ip") (auto simp: arrived_def)
  next
    case future
    then show ?thesis using deliver_future [OF inv p future new] by blast
  qed
qed

section \<open>A whole connection\<close>

primrec deliver_all :: "InternalPacket list \<Rightarrow> Channel \<Rightarrow> InternalPacket list" where
  "deliver_all [] ch = []"
| "deliver_all (ip # ips) ch = (let (out, ch') = deliver_ordered ip ch in out @ deliver_all ips ch')"

definition ordered_numbers :: "(InternalPacket \<Rightarrow> nat) \<Rightarrow> InternalPacket list \<Rightarrow> nat set" where
  "ordered_numbers g ips = g ` {ip \<in> set ips. \<not> sequenced_packet ip}"

lemma ordered_numbers_simps:
  "ordered_numbers g [] = {}"
  "ordered_numbers g (ip # ips) = (if sequenced_packet ip then ordered_numbers g ips else insert (g ip) (ordered_numbers g ips))"
  by (auto simp: ordered_numbers_def)

lemma chan_inv_first_missing:
  assumes "chan_inv g (Suc R) R F outs S ch"
  shows "first_missing S = R"
proof -
  have "R \<notin> S"
  proof
    assume "R \<in> S"
    then have "R \<in># waiting_ordered g (waiting ch)" using assms by (simp add: chan_inv_def)
    then obtain x where "x \<in># waiting ch" "g (snd x) = R" by (auto simp: waiting_ordered_def)
    then show False using assms by (auto simp: chan_inv_def entry_ok_def)
  qed
  then show ?thesis using assms by (intro first_missing_eq) (simp_all add: chan_inv_def)
qed

lemma deliver_all_inv:
  assumes "chan_inv g (Suc R) R F outs S ch"
    and "\<forall>ip \<in> set ips. numbered g ip \<and> g ip < 16777216"
    and "distinct (map g (filter (\<lambda>ip. \<not> sequenced_packet ip) ips))" "ordered_numbers g ips \<inter> S = {}"
    and "\<And>i. i < length ips \<Longrightarrow>
      first_missing (S \<union> ordered_numbers g (take i ips)) \<le> g (ips ! i) + 8388606 \<and>
      g (ips ! i) < first_missing (S \<union> ordered_numbers g (take i ips)) + 8388608"
  shows "\<exists>R' F' ch'. chan_inv g (Suc R') R' F' (outs @ deliver_all ips ch) (S \<union> ordered_numbers g ips) ch'"
  using assms
proof (induction ips arbitrary: R F outs S ch)
  case Nil
  then show ?case by (auto simp: ordered_numbers_def)
next
  case (Cons ip ips)
  have R: "first_missing S = R" by (rule chan_inv_first_missing [OF Cons.prems(1)])
  have p: "placeable g R F ip"
    using Cons.prems(2) Cons.prems(5) [of 0] by (simp add: placeable_def ordered_numbers_def R)
  have new: "sequenced_packet ip \<or> g ip \<notin> S" using Cons.prems(4) by (auto simp: ordered_numbers_def)
  obtain R' F' where inv': "chan_inv g (Suc R') R' F' (outs @ fst (deliver_ordered ip ch)) (arrived g ip S)
      (snd (deliver_ordered ip ch))"
    using deliver_ordered_inv [OF Cons.prems(1) p new] by blast
  have split: "S \<union> ordered_numbers g (take (Suc i) (ip # ips)) = arrived g ip S \<union> ordered_numbers g (take i ips)" for i
    by (auto simp: ordered_numbers_def arrived_def)
  have "ordered_numbers g ips \<inter> arrived g ip S = {}"
    using Cons.prems(3,4) by (auto simp: ordered_numbers_def arrived_def split: if_splits)
  moreover have "first_missing (arrived g ip S \<union> ordered_numbers g (take i ips)) \<le> g (ips ! i) + 8388606 \<and>
      g (ips ! i) < first_missing (arrived g ip S \<union> ordered_numbers g (take i ips)) + 8388608" if "i < length ips" for i
    using Cons.prems(5) [of "Suc i"] that split [of i] by simp
  ultimately have "\<exists>R' F' ch'. chan_inv g (Suc R') R' F' ((outs @ fst (deliver_ordered ip ch)) @
      deliver_all ips (snd (deliver_ordered ip ch))) (arrived g ip S \<union> ordered_numbers g ips) ch'"
    by (intro Cons.IH [OF inv']) (use Cons.prems(2,3) in \<open>auto split: if_splits\<close>)
  then show ?case using split [of "length ips"] by (simp add: split_beta)
qed

lemma Channel_new_inv: "chan_inv g (Suc 0) 0 0 [] {} Channel_new"
proof -
  have "heap_ok False (Heap_new :: (u64, InternalPacket) Heap)" "heap_elems (Heap_new :: (u64, InternalPacket) Heap) = {#}"
    by (rule hq.new_law)+
  then show ?thesis by (simp add: chan_inv_def Channel_new_def waiting_def waiting_ordered_def)
qed

section \<open>Properties\<close>

text \<open>
  Property C14: on an ordering channel messages come out in the order in which they were sent: for any
  arrival order of ordered and sequenced messages, what is passed on is sorted by the place in
  the stream, and the ordered messages among it are exactly those without a gap before them, none
  lost, none repeated.  The stream has less than \<open>2\<^sup>2\<^sup>4\<close> ordered messages, sequencing indices below \<open>2\<^sup>2\<^sup>0 - 1\<close> and no arrival half
  the index space away from the read index; each ordered message arrives once, which is what
  the receive window provides.
\<close>

theorem channel_delivers_in_order:
  assumes "\<forall>ip \<in> set ips. numbered g ip \<and> g ip < 16777216"
    and "distinct (map g (filter (\<lambda>ip. \<not> sequenced_packet ip) ips))"
    and "\<And>i. i < length ips \<Longrightarrow>
      first_missing (ordered_numbers g (take i ips)) \<le> g (ips ! i) + 8388606 \<and>
      g (ips ! i) < first_missing (ordered_numbers g (take i ips)) + 8388608"
  shows "sorted (map (send_key g) (deliver_all ips Channel_new)) \<and>
    map g (filter (\<lambda>ip. \<not> sequenced_packet ip) (deliver_all ips Channel_new)) =
      [0..<first_missing (ordered_numbers g ips)]"
proof -
  obtain R F ch where i: "chan_inv g (Suc R) R F ([] @ deliver_all ips Channel_new) ({} \<union> ordered_numbers g ips) ch"
    using deliver_all_inv [OF Channel_new_inv assms(1,2)] assms(3) by auto
  then show ?thesis using chan_inv_first_missing [OF i] by (simp add: chan_inv_def)
qed

definition on_channel :: "Reliability \<Rightarrow> nat \<Rightarrow> nat \<Rightarrow> InternalPacket" where
  "on_channel r oi si = demo_packet\<lparr>reliability := r, orderingIndex := of_nat oi, sequencingIndex := of_nat si\<rparr>"

theorem channel_delivers_in_order_witness:
  "map (\<lambda>ip. unat (orderingIndex ip))
     (filter (\<lambda>ip. \<not> sequenced_packet ip)
       (deliver_all [on_channel ReliableOrdered 1 0, on_channel ReliableOrdered 0 0] Channel_new)) = [0, 1]"
proof -
  let ?g = "\<lambda>ip. unat (orderingIndex ip)" and ?ips = "[on_channel ReliableOrdered 1 0, on_channel ReliableOrdered 0 0]"
  have f: "first_missing {} = 0" "first_missing {1} = 0" "first_missing {0, 1} = 2"
    by (rule first_missing_eq; auto simp: lessThan_Suc eval_nat_numeral)+
  have n: "ordered_numbers ?g (take 0 ?ips) = {}" "ordered_numbers ?g (take 1 ?ips) = {1}" "ordered_numbers ?g ?ips = {0, 1}"
    by (simp_all add: ordered_numbers_simps on_channel_def sequenced_packet_def insert_commute)
  have "first_missing (ordered_numbers ?g (take i ?ips)) \<le> ?g (?ips ! i) + 8388606 \<and>
      ?g (?ips ! i) < first_missing (ordered_numbers ?g (take i ?ips)) + 8388608" if "i < length ?ips" for i
  proof -
    from that consider "i = 0" | "i = 1" by fastforce
    then show ?thesis
    proof cases
      case 1
      then show ?thesis unfolding 1 n(1) f(1) by (simp add: on_channel_def)
    next
      case 2
      then show ?thesis unfolding 2 n(2) f(2) by (simp add: on_channel_def)
    qed
  qed
  from channel_delivers_in_order [of ?ips ?g, OF _ _ this]
  show ?thesis unfolding n(3) f(3)
    by (simp add: on_channel_def numbered_def sequenced_packet_def upt_rec)
qed

text \<open>A sequenced message that was returned off the heap is returned again when the network
  duplicates it: \<open>pop_ordered\<close> records its sequencing index without the increment that the direct
  path has.\<close>

theorem sequenced_duplicate_off_heap:
  "map (\<lambda>ip. (reliability ip, orderingIndex ip, sequencingIndex ip))
     (deliver_all [on_channel UnreliableSequenced 1 0, on_channel ReliableOrdered 0 0, on_channel UnreliableSequenced 1 0]
       Channel_new) =
   [(ReliableOrdered, 0, 0), (UnreliableSequenced, 1, 0), (UnreliableSequenced, 1, 0)]"
  by code_simp

text \<open>After a burst off the heap in-sequence messages are lost: the highest sequencing index of the
  previous ordering index stays in place when an ordered message is returned off the heap, so the
  first sequenced messages behind it, although the newest of the stream, are discarded.\<close>

theorem sequenced_lost_after_burst:
  "map (\<lambda>ip. (reliability ip, orderingIndex ip, sequencingIndex ip))
     (deliver_all [on_channel ReliableSequenced 1 7, on_channel ReliableOrdered 1 0, on_channel ReliableOrdered 0 0,
        on_channel ReliableSequenced 2 0] Channel_new) =
   [(ReliableOrdered, 0, 0), (ReliableSequenced, 1, 7), (ReliableOrdered, 1, 0)]"
  by code_simp

end
