(* ===== verification/Split_Packets.thy ===== *)
theory Split_Packets
  imports DS_OrderedList Message_Format
begin

text \<open>
  Fragmentation and reassembly of messages: \<^verbatim>\<open>SplitPacket\<close> cuts a message into fragments,
  \<^verbatim>\<open>SplitPacketSort\<close> collects the fragments of one message in a \<^verbatim>\<open>std::map\<close> keyed by the fragment index,
  \<^verbatim>\<open>splitPacketChannelList\<close> holds one \<^verbatim>\<open>SplitPacketChannel\<close> per message in flight, ordered by message
  id, and \<^verbatim>\<open>BuildPacketFromSplitPacketList\<close> copies a complete set into one buffer.  A copy outside
  the buffer is the fault \<open>BufferOverrun\<close>.  The variants with \<^verbatim>\<open>PREALLOCATE_LARGE_MESSAGES\<close> set are not
  compiled and not modelled.
\<close>

section \<open>The fragments of one message\<close>

text \<open>A \<^verbatim>\<open>std::map\<close> is the list of its entries in key order; \<open>map_emplace\<close> inserts unless the key is present.\<close>

primrec map_emplace :: "'k::linorder \<Rightarrow> 'v \<Rightarrow> ('k \<times> 'v) list \<Rightarrow> bool \<times> ('k \<times> 'v) list" where
  "map_emplace k v [] = (True, [(k, v)])"
| "map_emplace k v (e # es) =
    (if k < fst e then (True, (k, v) # e # es)
     else if k = fst e then (False, e # es)
     else (fst (map_emplace k v es), e # snd (map_emplace k v es)))"

record SplitPacketSort =
  m_fragments :: "(u32 \<times> InternalPacket) list"
  m_count :: u32
  m_packetId :: u16

definition SplitPacketSort_new :: SplitPacketSort where
  "SplitPacketSort_new = \<lparr>m_fragments = [], m_count = 0, m_packetId = 0\<rparr>"

definition SplitPacketSort_Init :: "InternalPacket \<Rightarrow> SplitPacketSort \<Rightarrow> SplitPacketSort" where
  "SplitPacketSort_Init firstFragment s =
    s\<lparr>m_count := splitPacketCount firstFragment, m_packetId := splitPacketId firstFragment\<rparr>"

definition AllPacketsAdded :: "SplitPacketSort \<Rightarrow> bool" where
  "AllPacketsAdded s \<longleftrightarrow> m_count s > 0 \<and> length (m_fragments s) = unat (m_count s)"

definition GetNumAddedPackets :: "SplitPacketSort \<Rightarrow> nat" where
  "GetNumAddedPackets s = w32 (length (m_fragments s))"

definition GetPacketId :: "SplitPacketSort \<Rightarrow> u16" where
  "GetPacketId s = m_packetId s"

definition SplitPacketSort_Add :: "InternalPacket \<Rightarrow> SplitPacketSort \<Rightarrow> bool \<times> SplitPacketSort" where
  "SplitPacketSort_Add ip s =
    (let index = splitPacketIndex ip
     in if splitPacketId ip \<noteq> m_packetId s \<or> splitPacketCount ip \<noteq> m_count s \<or> index \<ge> m_count s then (False, s)
        else if index + 1 < m_count s \<and> dataBitLength ip mod 8 \<noteq> 0 then (False, s)
        else let (inserted, fs) = map_emplace index ip (m_fragments s)
             in (inserted, s\<lparr>m_fragments := fs\<rparr>))"

section \<open>The channels\<close>

record SplitPacketChannel =
  lastUpdateTime :: u64
  splitPacketList :: SplitPacketSort
  firstPacket :: "InternalPacket option"

definition SplitPacketChannelComp :: "u16 \<Rightarrow> SplitPacketChannel \<Rightarrow> int" where
  "SplitPacketChannelComp key data =
    (if key < GetPacketId (splitPacketList data) then - 1
     else if key = GetPacketId (splitPacketList data) then 0
     else 1)"

text \<open>The channel \<^verbatim>\<open>OP_NEW\<close> returns: \<open>stale\<close> is the uninitialised \<^verbatim>\<open>lastUpdateTime\<close>.\<close>

definition new_channel :: "u64 \<Rightarrow> InternalPacket \<Rightarrow> SplitPacketChannel" where
  "new_channel stale ip =
    \<lparr>lastUpdateTime = stale, splitPacketList = SplitPacketSort_Init ip SplitPacketSort_new, firstPacket = None\<rparr>"

definition ID_DOWNLOAD_PROGRESS :: u8 where
  "ID_DOWNLOAD_PROGRESS = 30"

definition progress_indicator :: "InternalPacket \<Rightarrow> SplitPacketChannel \<Rightarrow> InternalPacket \<Rightarrow> InternalPacket \<Rightarrow> InternalPacket" where
  "progress_indicator pool c first internalPacket =
    (let n = BITS_TO_BYTES (dataBitLength first);
         len = 1 + 4 * 2 + 4 + n
     in (AllocateFromInternalPacketPool pool)\<lparr>
          allocationScheme := NORMAL, dataBitLength := BYTES_TO_BITS len,
          ip_data := ID_DOWNLOAD_PROGRESS # le_bytes (of_nat (GetNumAddedPackets (splitPacketList c)) :: u32) @
            le_bytes (splitPacketCount internalPacket) @ le_bytes (of_nat n :: u32) @ take n (ip_data first)\<rparr>)"

definition progress_due :: "u32 \<Rightarrow> SplitPacketChannel \<Rightarrow> bool" where
  "progress_due splitMessageProgressInterval c \<longleftrightarrow>
    splitMessageProgressInterval \<noteq> 0 \<and>
    (case firstPacket c of
       None \<Rightarrow> False
     | Some first \<Rightarrow>
         GetNumAddedPackets (splitPacketList c) \<noteq> unat (splitPacketCount first) \<and>
         GetNumAddedPackets (splitPacketList c) mod unat splitMessageProgressInterval = 0)"

text \<open>The first component is what is pushed to \<^verbatim>\<open>outputQueue\<close>.\<close>

definition InsertIntoSplitPacketList ::
    "u32 \<Rightarrow> InternalPacket \<Rightarrow> u64 \<Rightarrow> InternalPacket \<Rightarrow> u64 \<Rightarrow> SplitPacketChannel list \<Rightarrow>
     InternalPacket list \<times> SplitPacketChannel list" where
  "InsertIntoSplitPacketList splitMessageProgressInterval pool stale internalPacket time chans0 =
    (let (index0, objectExists) = GetIndexFromKey SplitPacketChannelComp (splitPacketId internalPacket) chans0;
         (index, chans) =
           (if objectExists then (index0, chans0)
            else case OrderedList_Insert SplitPacketChannelComp (splitPacketId internalPacket)
                        (new_channel stale internalPacket) chans0 of
                   (Some i, l) \<Rightarrow> (i, l)
                 | (None, l) \<Rightarrow> (index0, l));
         c = chans ! index;
         (added, s) = SplitPacketSort_Add internalPacket (splitPacketList c)
     in if \<not> added then
          ([], if GetNumAddedPackets (splitPacketList c) = 0 then remove_at index chans else chans)
        else
          let c' = c\<lparr>splitPacketList := s, lastUpdateTime := time,
                     firstPacket := (if splitPacketIndex internalPacket = 0 then Some internalPacket else firstPacket c)\<rparr>
          in (if progress_due splitMessageProgressInterval c'
              then [progress_indicator pool c' (the (firstPacket c')) internalPacket] else [],
              chans[index := c']))"

section \<open>Reassembly\<close>

datatype SplitFault = BufferOverrun

definition CreateInternalPacketCopy ::
    "InternalPacket \<Rightarrow> (nat \<Rightarrow> u8) \<Rightarrow> InternalPacket \<Rightarrow> nat \<Rightarrow> nat \<Rightarrow> u64 \<Rightarrow> SplitFault + InternalPacket" where
  "CreateInternalPacketCopy pool fresh original dataByteOffset dataByteLength time =
    (let copy = AllocateFromInternalPacketPool pool;
         finish = (\<lambda>bytes. copy\<lparr>ip_data := bytes, dataBitLength := w32 (dataByteLength * 8), creationTime := time,
           nextActionTime := 0, orderingIndex := orderingIndex original, sequencingIndex := sequencingIndex original,
           orderingChannel := orderingChannel original, reliableMessageNumber := reliableMessageNumber original,
           priority := priority original, reliability := reliability original\<rparr>)
     in if dataByteLength > 0 then
          if dataByteLength \<le> BITS_TO_BYTES dataByteLength \<and>
             dataByteOffset + dataByteLength \<le> length (ip_data original)
          then Inr (finish (take dataByteLength (drop dataByteOffset (ip_data original)) @
                 map fresh [dataByteLength..<BITS_TO_BYTES dataByteLength]))
          else Inl BufferOverrun
        else Inr (finish []))"

definition total_bits :: "(u32 \<times> InternalPacket) list \<Rightarrow> nat" where
  "total_bits fragments = fold (\<lambda>f totalBits. (totalBits + dataBitLength (snd f)) mod 2 ^ 64) fragments 0"

primrec copy_fragments :: "(u32 \<times> InternalPacket) list \<Rightarrow> nat \<Rightarrow> u8 list \<Rightarrow> u8 list option" where
  "copy_fragments [] offset buf = Some buf"
| "copy_fragments (f # fs) offset buf =
    (let splitPacket = snd f;
         n = BITS_TO_BYTES (dataBitLength splitPacket);
         p = BITS_TO_BYTES offset
     in if p + n \<le> length buf \<and> n \<le> length (ip_data splitPacket)
        then copy_fragments fs (w32 (offset + dataBitLength splitPacket))
               (memcpy_at p (take n (ip_data splitPacket)) buf)
        else None)"

text \<open>\<open>Inr None\<close> is the null pointer returned for a message that is too long.\<close>

definition BuildPacket ::
    "InternalPacket \<Rightarrow> (nat \<Rightarrow> u8) \<Rightarrow> SplitPacketChannel \<Rightarrow> u64 \<Rightarrow> SplitFault + InternalPacket option" where
  "BuildPacket pool fresh splitPacketChannel time =
    (let fragments = m_fragments (splitPacketList splitPacketChannel);
         totalBits = total_bits fragments
     in if totalBits \<le> 4294967295 then
          case CreateInternalPacketCopy pool fresh (snd (hd fragments)) 0 0 time of
            Inl e \<Rightarrow> Inl e
          | Inr internalPacket \<Rightarrow>
              (case copy_fragments fragments 0 (map fresh [0..<BITS_TO_BYTES totalBits]) of
                 None \<Rightarrow> Inl BufferOverrun
               | Some buf \<Rightarrow>
                   Inr (Some (internalPacket\<lparr>dataBitLength := totalBits, ip_data := buf, allocationScheme := NORMAL\<rparr>)))
        else Inr None)"

text \<open>The flag says whether the pending acknowledgements were sent (\<^verbatim>\<open>SendACKs\<close>).\<close>

definition BuildPacketFromSplitPacketList ::
    "InternalPacket \<Rightarrow> (nat \<Rightarrow> u8) \<Rightarrow> u16 \<Rightarrow> u64 \<Rightarrow> SplitPacketChannel list \<Rightarrow>
     (SplitFault + InternalPacket option) \<times> bool \<times> SplitPacketChannel list" where
  "BuildPacketFromSplitPacketList pool fresh inSplitPacketId time chans =
    (let (i, objectExists) = GetIndexFromKey SplitPacketChannelComp inSplitPacketId chans
     in if \<not> objectExists then (Inr None, False, chans)
        else if AllPacketsAdded (splitPacketList (chans ! i)) then
          (BuildPacket pool fresh (chans ! i) time, True, remove_at i chans)
        else (Inr None, False, chans))"

section \<open>Splitting\<close>

definition GetMaxDatagramSizeExcludingMessageHeaderBytes :: "nat \<Rightarrow> nat" where
  "GetMaxDatagramSizeExcludingMessageHeaderBytes mtu = mtu - GetDataHeaderByteLength"

definition GetMaxDatagramSizeExcludingMessageHeaderBits :: "nat \<Rightarrow> nat" where
  "GetMaxDatagramSizeExcludingMessageHeaderBits mtu = BYTES_TO_BITS (GetMaxDatagramSizeExcludingMessageHeaderBytes mtu)"

definition maximumSendBlockBytes :: "InternalPacket \<Rightarrow> nat \<Rightarrow> nat" where
  "maximumSendBlockBytes pool mtu =
    GetMaxDatagramSizeExcludingMessageHeaderBytes mtu - BITS_TO_BYTES (GetMaxMessageHeaderLengthBits pool)"

definition split_count :: "nat \<Rightarrow> nat \<Rightarrow> nat" where
  "split_count block dataByteLength = w32 (dataByteLength + 4294967295) div block + 1"

text \<open>\<open>bytesToSend\<close> at a byte offset, and the fragment made there; \<^verbatim>\<open>data\<close> points into the block of the
  whole message, which all fragments share.\<close>

definition split_fragment :: "nat \<Rightarrow> u16 \<Rightarrow> InternalPacket \<Rightarrow> nat \<Rightarrow> InternalPacket" where
  "split_fragment block nextSplitPacketId ip i =
    (let byteOffset = i * block;
         rest = BITS_TO_BYTES (dataBitLength ip) - byteOffset;
         bytesToSend = (if rest > block then block else rest)
     in ip\<lparr>messageNumberAssigned := False,
           allocationScheme := REF_COUNTED, ip_data := drop byteOffset (ip_data ip), sharedDataBlock := Some (ip_data ip),
           dataBitLength := (if bytesToSend \<noteq> block then dataBitLength ip - i * (block * 8) else bytesToSend * 8),
           splitPacketIndex := of_nat i, splitPacketId := nextSplitPacketId,
           splitOriginalBitLength := dataBitLength ip\<rparr>)"

text \<open>The loop that copies the message advances \<^verbatim>\<open>messageInternalOrder\<close> of the original, after the copy
  was taken: the second fragment repeats the number of the first.\<close>

definition split_fragments :: "InternalPacket \<Rightarrow> nat \<Rightarrow> u16 \<Rightarrow> u24 \<Rightarrow> InternalPacket \<Rightarrow> InternalPacket list" where
  "split_fragments pool mtu nextSplitPacketId internalOrderIndex ip0 =
    (let ip1 = ip0\<lparr>splitPacketCount := 1\<rparr>;
         header = BITS_TO_BYTES (GetMessageHeaderLengthBits ip1);
         block = maximumSendBlockBytes pool mtu;
         count = split_count block (BITS_TO_BYTES (dataBitLength ip1));
         ip2 = ip1\<lparr>splitPacketCount := of_nat count\<rparr>
     in map (\<lambda>i. (split_fragment block nextSplitPacketId ip2 i)\<lparr>
                 messageInternalOrder := (if i < 2 then messageInternalOrder ip2 else internalOrderIndex + of_nat (i - 2)),
                 headerLength := header\<rparr>) [0..<count])"

section \<open>The sorted list of fragments\<close>

definition keys_sorted :: "('k::linorder \<times> 'v) list \<Rightarrow> bool" where
  "keys_sorted es \<longleftrightarrow> sorted_wrt (<) (map fst es)"

lemma map_emplace_set:
  "set (snd (map_emplace k v es)) = (if fst (map_emplace k v es) then insert (k, v) (set es) else set es)"
  by (induction es) auto

lemma map_emplace_inserted: "keys_sorted es \<Longrightarrow> fst (map_emplace k v es) \<longleftrightarrow> k \<notin> fst ` set es"
  by (induction es) (auto simp: keys_sorted_def)

lemma map_emplace_sorted: "keys_sorted es \<Longrightarrow> keys_sorted (snd (map_emplace k v es))"
proof (induction es)
  case (Cons e es)
  have "a = k \<or> (\<exists>x \<in> set es. a = fst x)" if "(a, b) \<in> set (snd (map_emplace k v es))" for a b
    using that by (force simp: map_emplace_set split: if_splits)
  then show ?case using Cons by (fastforce simp: keys_sorted_def)
qed (simp add: keys_sorted_def)

lemma map_emplace_not_inserted: "\<not> fst (map_emplace k v es) \<Longrightarrow> snd (map_emplace k v es) = es"
  by (induction es) (auto split: if_splits)

lemma keys_sorted_unique:
  assumes "keys_sorted es" "keys_sorted fs" "set es = set fs"
  shows "es = fs"
proof -
  have f: "map fst es = map fst fs"
    using assms strict_sorted_equal [of "map fst es" "map fst fs"] by (simp add: keys_sorted_def)
  have d: "distinct (map fst fs)" using assms(2) strict_sorted_iff by (auto simp: keys_sorted_def)
  have "es ! i = fs ! i" if "i < length es" for i
  proof -
    have l: "length es = length fs" using f map_eq_imp_length_eq by blast
    have "es ! i \<in> set fs" using assms(3) that nth_mem by blast
    moreover have "fs ! i \<in> set fs" using that l by simp
    moreover have "fst (es ! i) = fst (fs ! i)" using f that l by (metis nth_map)
    ultimately show ?thesis using d by (metis eq_key_imp_eq_value prod.collapse)
  qed
  then show ?thesis using f by (metis list_eq_iff_nth_eq map_eq_imp_length_eq)
qed

lemma keys_sorted_distinct: "keys_sorted es \<Longrightarrow> distinct es"
  using strict_sorted_iff [of "map fst es"] by (simp add: keys_sorted_def distinct_map)

section \<open>The invariant of the channels\<close>

definition fragment_ok :: "InternalPacket \<Rightarrow> bool" where
  "fragment_ok ip \<longleftrightarrow> dataBitLength ip < 4294967289 \<and> BITS_TO_BYTES (dataBitLength ip) \<le> length (ip_data ip)"

definition sort_ok :: "SplitPacketSort \<Rightarrow> bool" where
  "sort_ok s \<longleftrightarrow> keys_sorted (m_fragments s) \<and>
    (\<forall>(i, ip) \<in> set (m_fragments s).
       splitPacketIndex ip = i \<and> i < m_count s \<and> splitPacketCount ip = m_count s \<and> splitPacketId ip = m_packetId s \<and>
       (i + 1 < m_count s \<longrightarrow> dataBitLength ip mod 8 = 0) \<and> fragment_ok ip)"

definition chan_ok :: "SplitPacketChannel \<Rightarrow> bool" where
  "chan_ok c \<longleftrightarrow> sort_ok (splitPacketList c) \<and> m_fragments (splitPacketList c) \<noteq> [] \<and>
    \<not> AllPacketsAdded (splitPacketList c)"

definition chan_id :: "SplitPacketChannel \<Rightarrow> u16" where
  "chan_id c = m_packetId (splitPacketList c)"

definition ids_sorted :: "SplitPacketChannel list \<Rightarrow> bool" where
  "ids_sorted chans \<longleftrightarrow> sorted_wrt (\<lambda>a b. chan_id a < chan_id b) chans"

definition chans_ok :: "SplitPacketChannel list \<Rightarrow> bool" where
  "chans_ok chans \<longleftrightarrow> ids_sorted chans \<and> (\<forall>c \<in> set chans. chan_ok c)"

interpretation spc: comparison SplitPacketChannelComp "\<lambda>a b. chan_id a < chan_id b"
    "\<lambda>k d. k = chan_id d" "\<lambda>_. True"
  by unfold_locales (auto simp: SplitPacketChannelComp_def GetPacketId_def chan_id_def split: if_splits)

lemma SplitPacketChannelComp_0 [simp]: "SplitPacketChannelComp k c = 0 \<longleftrightarrow> chan_id c = k"
  by (auto simp: SplitPacketChannelComp_def GetPacketId_def chan_id_def)

text \<open>The channel of a message id, the abstraction of the ordered list.\<close>

definition chan_of :: "SplitPacketChannel list \<Rightarrow> u16 \<Rightarrow> SplitPacketChannel option" where
  "chan_of chans = map_of (map (\<lambda>c. (chan_id c, c)) chans)"

lemma ids_sorted_distinct: "ids_sorted chans \<Longrightarrow> distinct (map chan_id chans)"
  by (induction chans) (auto simp: ids_sorted_def)

lemma chan_of_iff:
  assumes "ids_sorted chans"
  shows "chan_of chans k = Some c \<longleftrightarrow> c \<in> set chans \<and> chan_id c = k"
proof -
  have "distinct (map fst (map (\<lambda>c. (chan_id c, c)) chans))"
    using ids_sorted_distinct [OF assms] by (simp add: comp_def)
  then show ?thesis unfolding chan_of_def by (subst map_of_eq_Some_iff) auto
qed

lemma chan_of_eqI:
  assumes "ids_sorted chans" "\<And>c. c \<in> set chans \<longleftrightarrow> m (chan_id c) = Some c" "\<And>k c. m k = Some c \<Longrightarrow> chan_id c = k"
  shows "chan_of chans = m"
proof (rule ext)
  fix k
  have "chan_of chans k = Some c \<longleftrightarrow> m k = Some c" for c
    using chan_of_iff [OF assms(1), of k c] assms(2) [of c] assms(3) [of k c] by auto
  then show "chan_of chans k = m k" by (cases "m k"; cases "chan_of chans k") auto
qed

lemma search_channel:
  assumes "ids_sorted chans"
  obtains (found) i where "GetIndexFromKey SplitPacketChannelComp k chans = (i, True)" "i < length chans"
      "chan_id (chans ! i) = k" "chan_of chans k = Some (chans ! i)"
    | (absent) i where "GetIndexFromKey SplitPacketChannelComp k chans = (i, False)" "chan_of chans k = None"
proof -
  obtain i e where r: "GetIndexFromKey SplitPacketChannelComp k chans = (i, e)" by force
  have s: "search_result SplitPacketChannelComp k chans (i, e)"
    using spc.search [of chans k] assms r by (simp add: ids_sorted_def)
  show thesis
  proof (cases e)
    case True
    then have "i < length chans" "chan_id (chans ! i) = k" using s by (auto simp: search_result_def)
    then show ?thesis using found r True chan_of_iff [OF assms] by simp
  next
    case False
    have "\<not> HasData SplitPacketChannelComp k chans" using r False by (simp add: HasData_def)
    then have "\<forall>c \<in> set chans. chan_id c \<noteq> k"
      using spc.HasData_iff [of chans k] assms by (simp add: ids_sorted_def)
    then have "chan_of chans k = None" using chan_of_iff [OF assms, of k] by (cases "chan_of chans k") auto
    then show ?thesis using absent r False by simp
  qed
qed

section \<open>One fragment, on the channel it belongs to\<close>

definition chan_add :: "u64 \<Rightarrow> InternalPacket \<Rightarrow> SplitPacketChannel \<Rightarrow> SplitPacketChannel" where
  "chan_add time ip c =
    c\<lparr>splitPacketList := snd (SplitPacketSort_Add ip (splitPacketList c)), lastUpdateTime := time,
      firstPacket := (if splitPacketIndex ip = 0 then Some ip else firstPacket c)\<rparr>"

text \<open>The channel after an arrival, as a function of the channel before; \<open>None\<close> is no channel.\<close>

definition chan_step :: "u64 \<Rightarrow> u64 \<Rightarrow> InternalPacket \<Rightarrow> SplitPacketChannel option \<Rightarrow> SplitPacketChannel option" where
  "chan_step stale time ip oc =
    (let c = (case oc of Some c \<Rightarrow> c | None \<Rightarrow> new_channel stale ip)
     in if fst (SplitPacketSort_Add ip (splitPacketList c)) then Some (chan_add time ip c) else oc)"

lemma new_channel_id [simp]: "chan_id (new_channel stale ip) = splitPacketId ip"
  by (simp add: chan_id_def new_channel_def SplitPacketSort_Init_def)

lemma new_channel_empty [simp]: "m_fragments (splitPacketList (new_channel stale ip)) = []"
  by (simp add: new_channel_def SplitPacketSort_Init_def SplitPacketSort_new_def)

lemma Add_frame [simp]:
  "m_packetId (snd (SplitPacketSort_Add ip s)) = m_packetId s"
  "m_count (snd (SplitPacketSort_Add ip s)) = m_count s"
  by (auto simp: SplitPacketSort_Add_def Let_def split: prod.splits)

lemma chan_add_id [simp]: "chan_id (chan_add time ip c) = chan_id c"
  by (simp add: chan_add_def chan_id_def)

lemma Add_accepts:
  assumes "fst (SplitPacketSort_Add ip s)"
  shows "splitPacketId ip = m_packetId s" "splitPacketCount ip = m_count s" "splitPacketIndex ip < m_count s"
    "splitPacketIndex ip + 1 < m_count s \<longrightarrow> dataBitLength ip mod 8 = 0"
    "fst (map_emplace (splitPacketIndex ip) ip (m_fragments s))"
    "m_fragments (snd (SplitPacketSort_Add ip s)) = snd (map_emplace (splitPacketIndex ip) ip (m_fragments s))"
  using assms by (auto simp: SplitPacketSort_Add_def Let_def split: if_splits prod.splits)

lemma Add_ok:
  assumes "sort_ok s" "fragment_ok ip"
  shows "sort_ok (snd (SplitPacketSort_Add ip s))"
proof (cases "fst (SplitPacketSort_Add ip s)")
  case True
  note a = Add_accepts [OF True]
  show ?thesis
    using assms a(1-4) map_emplace_sorted [of "m_fragments s"]
    unfolding sort_ok_def Add_frame a(6) by (auto simp: map_emplace_set split: if_splits)
next
  case False
  then have "snd (SplitPacketSort_Add ip s) = s"
    using map_emplace_not_inserted [of "splitPacketIndex ip" ip "m_fragments s"]
    by (auto simp: SplitPacketSort_Add_def Let_def split: prod.splits if_splits)
  then show ?thesis using assms by simp
qed

lemma Add_nonempty: "fst (SplitPacketSort_Add ip s) \<Longrightarrow> m_fragments (snd (SplitPacketSort_Add ip s)) \<noteq> []"
  using Add_accepts(5,6) [of ip s] map_emplace_set [of "splitPacketIndex ip" ip "m_fragments s"] by force

text \<open>Between the two calls the channel just extended may be complete.\<close>

definition chan_inv :: "SplitPacketChannel \<Rightarrow> bool" where
  "chan_inv c \<longleftrightarrow> sort_ok (splitPacketList c) \<and> m_fragments (splitPacketList c) \<noteq> []"

lemma new_channel_sort_ok [simp]: "sort_ok (splitPacketList (new_channel stale ip))"
  by (simp add: sort_ok_def keys_sorted_def)

lemma chan_step_inv:
  assumes "fragment_ok ip" "\<And>c. oc = Some c \<Longrightarrow> chan_inv c" "chan_step stale time ip oc = Some c"
  shows "chan_inv c"
  using assms Add_ok [of "splitPacketList (the oc)" ip] Add_ok [of "splitPacketList (new_channel stale ip)" ip] Add_nonempty
  by (cases oc) (auto simp: chan_step_def chan_add_def chan_inv_def Let_def split: if_splits)

lemma ids_sorted_update:
  "ids_sorted chans \<Longrightarrow> i < length chans \<Longrightarrow> chan_id c = chan_id (chans ! i) \<Longrightarrow> ids_sorted (chans[i := c])"
  by (auto simp: ids_sorted_def sorted_wrt_iff_nth_less nth_list_update)

lemma chan_of_update:
  assumes "ids_sorted chans" "i < length chans" "chan_id c = chan_id (chans ! i)"
  shows "chan_of (chans[i := c]) = (chan_of chans)(chan_id c \<mapsto> c)"
proof (rule chan_of_eqI [OF ids_sorted_update [OF assms]])
  have d: "distinct (map chan_id chans)" by (rule ids_sorted_distinct [OF assms(1)])
  show "x \<in> set (chans[i := c]) \<longleftrightarrow> ((chan_of chans)(chan_id c \<mapsto> c)) (chan_id x) = Some x" for x
  proof (cases "chan_id x = chan_id c")
    case True
    have "x = c" if "x \<in> set (chans[i := c])"
    proof -
      from that obtain j where j: "j < length chans" "x = chans[i := c] ! j" by (auto simp: in_set_conv_nth)
      have "j = i" using j True assms(2,3) nth_eq_iff_index_eq [OF d, of i j] by (cases "j = i") auto
      then show ?thesis using j assms(2) by simp
    qed
    then show ?thesis using True assms(2) by (auto intro: set_update_memI)
  next
    case False
    then have "x \<noteq> chans ! i" "x \<noteq> c" using assms(3) by auto
    then have "x \<in> set (chans[i := c]) \<longleftrightarrow> x \<in> set chans"
      by (metis in_set_conv_nth length_list_update nth_list_update_neq nth_list_update_eq)
    then show ?thesis using False chan_of_iff [OF assms(1)] by simp
  qed
  show "chan_id x = k" if "((chan_of chans)(chan_id c \<mapsto> c)) k = Some x" for k x
    using that chan_of_iff [OF assms(1)] by (auto split: if_splits)
qed

lemma remove_channel:
  assumes "ids_sorted chans" "i < length chans"
  shows "ids_sorted (remove_at i chans)" "chan_of (remove_at i chans) = (chan_of chans)(chan_id (chans ! i) := None)"
    "set (remove_at i chans) \<subseteq> set chans"
proof -
  show s: "ids_sorted (remove_at i chans)"
    using sorted_wrt_remove_at assms(1) unfolding ids_sorted_def remove_at_def by blast
  have d: "distinct (map chan_id chans)" by (rule ids_sorted_distinct [OF assms(1)])
  have m: "x \<in> set (remove_at i chans) \<longleftrightarrow> x \<in> set chans \<and> chan_id x \<noteq> chan_id (chans ! i)" for x
  proof -
    have "chan_id (chans ! j) = chan_id (chans ! i) \<longleftrightarrow> j = i" if "j < length chans" for j
      using nth_eq_iff_index_eq [OF d, of j i] that assms(2) by simp
    then show ?thesis unfolding remove_at_def set_remove_at by (auto simp: in_set_conv_nth)
  qed
  then show "set (remove_at i chans) \<subseteq> set chans" by auto
  show "chan_of (remove_at i chans) = (chan_of chans)(chan_id (chans ! i) := None)"
    by (rule chan_of_eqI [OF s]) (use m chan_of_iff [OF assms(1)] in \<open>auto split: if_splits\<close>)
qed

lemma insert_channel:
  assumes "ids_sorted chans" "chan_of chans (chan_id d) = None"
  obtains p where "OrderedList_Insert SplitPacketChannelComp (chan_id d) d chans = (Some p, insert_at d p chans)"
    "p \<le> length chans" "ids_sorted (insert_at d p chans)"
proof -
  have "\<forall>a \<in> set chans. SplitPacketChannelComp (chan_id d) a \<noteq> 0"
  proof
    fix a assume "a \<in> set chans"
    then show "SplitPacketChannelComp (chan_id d) a \<noteq> 0" using chan_of_iff [OF assms(1), of "chan_id d" a] assms(2) by auto
  qed
  then show thesis
    using spc.Insert_keeps_order [of chans "chan_id d" d] assms(1) that unfolding ids_sorted_def by fastforce
qed

lemma chan_of_insert_at:
  assumes "ids_sorted (insert_at d p chans)" "p \<le> length chans" "ids_sorted chans" "chan_of chans (chan_id d) = None"
  shows "chan_of (insert_at d p chans) = (chan_of chans)(chan_id d \<mapsto> d)"
proof (rule chan_of_eqI [OF assms(1)])
  have n: "chan_id c \<noteq> chan_id d" if "c \<in> set chans" for c
    using that chan_of_iff [OF assms(3), of "chan_id d" c] assms(4) by auto
  show "c \<in> set (insert_at d p chans) \<longleftrightarrow> ((chan_of chans)(chan_id d \<mapsto> d)) (chan_id c) = Some c" for c
    using n [of c] chan_of_iff [OF assms(3)] set_insert_at [OF assms(2), of d] by auto
  show "chan_id c = k" if "((chan_of chans)(chan_id d \<mapsto> d)) k = Some c" for k c
    using that chan_of_iff [OF assms(3)] by (auto split: if_splits)
qed

lemma remove_insert_at: "p \<le> length xs \<Longrightarrow> remove_at p (insert_at d p xs) = xs"
  by (simp add: remove_at_def insert_at_def)

lemma nth_insert_at: "p \<le> length xs \<Longrightarrow> insert_at d p xs ! p = d"
  by (simp add: insert_at_def nth_append)

text \<open>Fewer than \<open>2\<^sup>3\<^sup>2\<close> fragments are stored, so that the count read back is exact.\<close>

lemma sort_ok_length: "sort_ok s \<Longrightarrow> length (m_fragments s) \<le> unat (m_count s)"
proof -
  assume s: "sort_ok s"
  let ?K = "map fst (m_fragments s)"
  have "distinct ?K" using s strict_sorted_iff [of ?K] by (simp add: sort_ok_def keys_sorted_def)
  moreover have "inj_on unat (set ?K)" by (simp add: inj_on_def word_unat_eq_iff)
  ultimately have "distinct (map unat ?K)" using distinct_map [of unat ?K] by simp
  moreover have "set (map unat ?K) \<subseteq> {..<unat (m_count s)}"
    using s by (auto simp: sort_ok_def word_less_nat_alt)
  ultimately show ?thesis
    by (metis card_lessThan card_mono distinct_card finite_lessThan length_map)
qed

lemma GetNumAddedPackets_exact: "sort_ok s \<Longrightarrow> GetNumAddedPackets s = length (m_fragments s)"
  using sort_ok_length [of s] unat_u32_less [of "m_count s"] by (simp add: GetNumAddedPackets_def w32_def)

lemma Insert_refines:
  assumes "ids_sorted chans" "\<forall>c \<in> set chans. chan_inv c"
  shows "ids_sorted (snd (InsertIntoSplitPacketList interval pool stale ip time chans))"
    and "chan_of (snd (InsertIntoSplitPacketList interval pool stale ip time chans)) =
      (chan_of chans)(splitPacketId ip := chan_step stale time ip (chan_of chans (splitPacketId ip)))"
proof -
  let ?I = "InsertIntoSplitPacketList interval pool stale ip time chans" and ?k = "splitPacketId ip"
  have "ids_sorted (snd ?I) \<and> chan_of (snd ?I) = (chan_of chans)(?k := chan_step stale time ip (chan_of chans ?k))"
  proof (cases rule: search_channel [OF assms(1), of ?k, case_names found absent])
    case (found i)
    let ?c = "chans ! i"
    have "chan_inv ?c" using assms(2) found(2) by simp
    then have n: "GetNumAddedPackets (splitPacketList ?c) \<noteq> 0"
      by (auto simp: chan_inv_def GetNumAddedPackets_exact)
    have I: "snd ?I = (if fst (SplitPacketSort_Add ip (splitPacketList ?c)) then chans[i := chan_add time ip ?c] else chans)"
      using n by (simp add: InsertIntoSplitPacketList_def found(1) Let_def split_beta chan_add_def)
    show ?thesis
    proof (cases "fst (SplitPacketSort_Add ip (splitPacketList ?c))")
      case True
      then have "snd ?I = chans[i := chan_add time ip ?c]" using I by simp
      then show ?thesis
        using ids_sorted_update [OF assms(1) found(2), of "chan_add time ip ?c"]
          chan_of_update [OF assms(1) found(2), of "chan_add time ip ?c"] True found(3,4)
        by (simp add: chan_step_def Let_def)
    qed (use I found(4) assms(1) in \<open>simp add: chan_step_def Let_def fun_upd_idem\<close>)
  next
    case (absent i)
    let ?d = "new_channel stale ip"
    obtain p where p: "OrderedList_Insert SplitPacketChannelComp ?k ?d chans = (Some p, insert_at ?d p chans)"
        "p \<le> length chans" "ids_sorted (insert_at ?d p chans)"
      using insert_channel [OF assms(1), of ?d] absent(2) by auto
    have len: "p < length (insert_at ?d p chans)" using p(2) by (simp add: insert_at_def)
    have I: "snd ?I = (if fst (SplitPacketSort_Add ip (splitPacketList ?d))
        then (insert_at ?d p chans)[p := chan_add time ip ?d] else chans)"
      using p(2) by (simp add: InsertIntoSplitPacketList_def absent(1) p(1) Let_def split_beta chan_add_def
          nth_insert_at remove_insert_at GetNumAddedPackets_def w32_def)
    show ?thesis
    proof (cases "fst (SplitPacketSort_Add ip (splitPacketList ?d))")
      case True
      then have "snd ?I = (insert_at ?d p chans)[p := chan_add time ip ?d]" using I by simp
      then show ?thesis
        using ids_sorted_update [OF p(3) len, of "chan_add time ip ?d"] chan_of_update [OF p(3) len, of "chan_add time ip ?d"]
          chan_of_insert_at [OF p(3,2) assms(1)] True absent(2) nth_insert_at [OF p(2), of ?d]
        by (simp add: chan_step_def Let_def)
    qed (use I absent(2) assms(1) in \<open>simp add: chan_step_def Let_def fun_upd_idem\<close>)
  qed
  then show "ids_sorted (snd ?I)" "chan_of (snd ?I) = (chan_of chans)(?k := chan_step stale time ip (chan_of chans ?k))"
    by simp_all
qed

lemma Build_refines:
  assumes "ids_sorted chans" "BuildPacketFromSplitPacketList pool fresh k time chans = (r, ack, chans')"
  shows "ids_sorted chans'"
    "(r, ack, chan_of chans') =
      (case chan_of chans k of
         None \<Rightarrow> (Inr None, False, chan_of chans)
       | Some c \<Rightarrow> if AllPacketsAdded (splitPacketList c)
                   then (BuildPacket pool fresh c time, True, (chan_of chans)(k := None))
                   else (Inr None, False, chan_of chans))"
proof -
  have "ids_sorted chans' \<and> (r, ack, chan_of chans') =
      (case chan_of chans k of
         None \<Rightarrow> (Inr None, False, chan_of chans)
       | Some c \<Rightarrow> if AllPacketsAdded (splitPacketList c)
                   then (BuildPacket pool fresh c time, True, (chan_of chans)(k := None))
                   else (Inr None, False, chan_of chans))"
  proof (cases rule: search_channel [OF assms(1), of k, case_names found absent])
    case (found i)
    then show ?thesis
      using assms remove_channel [OF assms(1) found(2)]
      by (auto simp: BuildPacketFromSplitPacketList_def split: if_splits)
  next
    case (absent i)
    then show ?thesis using assms by (auto simp: BuildPacketFromSplitPacketList_def)
  qed
  then show "ids_sorted chans'"
    "(r, ack, chan_of chans') =
      (case chan_of chans k of
         None \<Rightarrow> (Inr None, False, chan_of chans)
       | Some c \<Rightarrow> if AllPacketsAdded (splitPacketList c)
                   then (BuildPacket pool fresh c time, True, (chan_of chans)(k := None))
                   else (Inr None, False, chan_of chans))"
    by simp_all
qed

section \<open>Reassembly copies every fragment to its place\<close>

definition payload :: "InternalPacket \<Rightarrow> u8 list" where
  "payload ip = take (BITS_TO_BYTES (dataBitLength ip)) (ip_data ip)"

definition bit_sum :: "(u32 \<times> InternalPacket) list \<Rightarrow> nat" where
  "bit_sum fs = (\<Sum>f \<leftarrow> fs. dataBitLength (snd f))"

definition whole_bytes :: "(u32 \<times> InternalPacket) list \<Rightarrow> bool" where
  "whole_bytes fs \<longleftrightarrow> (\<forall>f \<in> set (butlast fs). dataBitLength (snd f) mod 8 = 0)"

definition fragment_bytes :: "(u32 \<times> InternalPacket) list \<Rightarrow> u8 list" where
  "fragment_bytes fs = concat (map (payload \<circ> snd) fs)"

lemma fragment_bytes_simps [simp]:
  "fragment_bytes [] = []" "fragment_bytes (f # fs) = payload (snd f) @ fragment_bytes fs"
  by (simp_all add: fragment_bytes_def)

lemma bit_sum_simps [simp]: "bit_sum [] = 0" "bit_sum (f # fs) = dataBitLength (snd f) + bit_sum fs"
  by (simp_all add: bit_sum_def)

lemma BITS_TO_BYTES_small: "n < 4294967289 \<Longrightarrow> BITS_TO_BYTES n = (n + 7) div 8"
  by (simp add: BITS_TO_BYTES_def w32_def)

lemma length_payload: "fragment_ok ip \<Longrightarrow> length (payload ip) = (dataBitLength ip + 7) div 8"
  using BITS_TO_BYTES_small [of "dataBitLength ip"] by (simp add: payload_def fragment_ok_def min_absorb2)

lemma whole_bytes_Cons: "whole_bytes (f # fs) \<longleftrightarrow> (fs \<noteq> [] \<longrightarrow> dataBitLength (snd f) mod 8 = 0) \<and> whole_bytes fs"
  by (auto simp: whole_bytes_def)

lemma length_fragment_bytes:
  "whole_bytes fs \<Longrightarrow> \<forall>f \<in> set fs. fragment_ok (snd f) \<Longrightarrow> length (fragment_bytes fs) = (bit_sum fs + 7) div 8"
proof (induction fs)
  case (Cons f fs)
  then have "length (fragment_bytes fs) = (bit_sum fs + 7) div 8" by (simp add: whole_bytes_Cons)
  moreover have "length (payload (snd f)) = (dataBitLength (snd f) + 7) div 8" using Cons.prems length_payload by simp
  moreover have "dataBitLength (snd f) mod 8 = 0" if "fs \<noteq> []" using Cons.prems that by (simp add: whole_bytes_Cons)
  ultimately show ?case by (cases "fs = []") (auto elim!: dvdE simp: mod_eq_0_iff_dvd)
qed simp

lemma memcpy_at_append:
  "p + length a + length b \<le> length buf \<Longrightarrow>
    memcpy_at (p + length a) b (memcpy_at p a buf) = memcpy_at p (a @ b) buf"
  by (simp add: memcpy_at_def ac_simps)

lemma copy_fragments_correct:
  assumes "whole_bytes fs" "\<forall>f \<in> set fs. fragment_ok (snd f)" "8 * p + bit_sum fs < 4294967289"
    and "p + length (fragment_bytes fs) \<le> length buf"
  shows "copy_fragments fs (8 * p) buf = Some (memcpy_at p (fragment_bytes fs) buf)"
  using assms
proof (induction fs arbitrary: p buf)
  case (Cons f fs)
  define n where "n = length (payload (snd f))"
  have fok: "fragment_ok (snd f)" using Cons.prems by simp
  have n: "n = BITS_TO_BYTES (dataBitLength (snd f))" "n = (dataBitLength (snd f) + 7) div 8"
    using fok length_payload [OF fok] by (simp_all add: n_def fragment_ok_def BITS_TO_BYTES_small)
  have p: "BITS_TO_BYTES (8 * p) = p" using Cons.prems(3) by (simp add: BITS_TO_BYTES_small)
  have step: "copy_fragments (f # fs) (8 * p) buf =
      copy_fragments fs (w32 (8 * p + dataBitLength (snd f))) (memcpy_at p (payload (snd f)) buf)"
    using Cons.prems(4) fok n(1) p
    by (simp add: n_def [symmetric] Let_def payload_def [symmetric] fragment_ok_def)
  show ?case
  proof (cases "fs = []")
    case False
    then have m: "dataBitLength (snd f) = 8 * n" using Cons.prems(1) n(2)
      by (auto simp: whole_bytes_Cons mod_eq_0_iff_dvd elim!: dvdE)
    have len: "length (memcpy_at p (payload (snd f)) buf) = length buf"
      using Cons.prems(4) by (simp add: memcpy_at_def n_def [symmetric])
    have "copy_fragments fs (8 * (p + n)) (memcpy_at p (payload (snd f)) buf) =
        Some (memcpy_at (p + n) (fragment_bytes fs) (memcpy_at p (payload (snd f)) buf))"
      by (rule Cons.IH) (use Cons.prems m len in \<open>simp_all add: whole_bytes_Cons n_def [symmetric]\<close>)
    moreover have "w32 (8 * p + dataBitLength (snd f)) = 8 * (p + n)" using m Cons.prems(3) by (simp add: w32_def)
    ultimately show ?thesis
      unfolding step using memcpy_at_append [of p "payload (snd f)" "fragment_bytes fs" buf] Cons.prems(4)
      by (simp add: n_def)
  next
    case True
    then show ?thesis unfolding step by simp
  qed
qed (simp add: memcpy_at_def)

lemma total_bits_sum: "total_bits fs = bit_sum fs mod 2 ^ 64"
proof -
  have "fold (\<lambda>f t. (t + dataBitLength (snd f)) mod 2 ^ 64) fs (a mod 2 ^ 64) = (a + bit_sum fs) mod 2 ^ 64" for a
    by (induction fs arbitrary: a) (simp_all add: mod_simps add.assoc)
  from this [of 0] show ?thesis by (simp add: total_bits_def)
qed

lemma sort_ok_whole_bytes:
  assumes "sort_ok s"
  shows "whole_bytes (m_fragments s)"
  unfolding whole_bytes_def
proof
  fix f assume f: "f \<in> set (butlast (m_fragments s))"
  let ?l = "last (m_fragments s)"
  have ne: "m_fragments s \<noteq> []" using f by auto
  then have "sorted_wrt (<) (map fst (butlast (m_fragments s) @ [?l]))"
    using assms by (simp add: sort_ok_def keys_sorted_def)
  then have "fst f < fst ?l" using f by (auto simp: sorted_wrt_append)
  moreover have "fst ?l < m_count s" using assms ne last_in_set by (fastforce simp: sort_ok_def)
  ultimately have "fst f + 1 < m_count s" using inc_le order_le_less_trans by blast
  moreover have "f \<in> set (m_fragments s)" using f in_set_butlastD by fast
  ultimately show "dataBitLength (snd f) mod 8 = 0" using assms by (auto simp: sort_ok_def)
qed

lemma sort_ok_fragments: "sort_ok s \<Longrightarrow> f \<in> set (m_fragments s) \<Longrightarrow> fragment_ok (snd f)"
  by (auto simp: sort_ok_def)

lemma copy_whole [simp]: "length src = length buf \<Longrightarrow> memcpy_at 0 src buf = src"
  by (simp add: memcpy_at_def)

lemma BuildPacket_correct:
  assumes "sort_ok (splitPacketList c)" "bit_sum (m_fragments (splitPacketList c)) < 4294967289"
  shows "\<exists>ip. BuildPacket pool fresh c time = Inr (Some ip) \<and>
      dataBitLength ip = bit_sum (m_fragments (splitPacketList c)) \<and>
      ip_data ip = fragment_bytes (m_fragments (splitPacketList c)) \<and>
      reliability ip = reliability (snd (hd (m_fragments (splitPacketList c)))) \<and>
      orderingChannel ip = orderingChannel (snd (hd (m_fragments (splitPacketList c)))) \<and>
      orderingIndex ip = orderingIndex (snd (hd (m_fragments (splitPacketList c)))) \<and>
      sequencingIndex ip = sequencingIndex (snd (hd (m_fragments (splitPacketList c)))) \<and> splitPacketCount ip = 0"
proof -
  let ?fs = "m_fragments (splitPacketList c)"
  have w: "whole_bytes ?fs" and fo: "\<forall>f \<in> set ?fs. fragment_ok (snd f)"
    using sort_ok_whole_bytes [OF assms(1)] sort_ok_fragments [OF assms(1)] by blast+
  have t: "total_bits ?fs = bit_sum ?fs" using assms(2) by (simp add: total_bits_sum)
  have len: "length (fragment_bytes ?fs) = BITS_TO_BYTES (bit_sum ?fs)"
    using length_fragment_bytes [OF w fo] assms(2) by (simp add: BITS_TO_BYTES_small)
  have "copy_fragments ?fs 0 (map fresh [0..<BITS_TO_BYTES (bit_sum ?fs)]) = Some (fragment_bytes ?fs)"
    using copy_fragments_correct [OF w fo, of 0 "map fresh [0..<BITS_TO_BYTES (bit_sum ?fs)]"] assms(2) len by simp
  then show ?thesis
    using assms(2) t by (simp add: BuildPacket_def CreateInternalPacketCopy_def Let_def AllocateFromInternalPacketPool_def)
qed

end
