(* ===== verification/Split_Reassembly.thy ===== *)
theory Split_Reassembly
  imports Split_Packets
begin

text \<open>
  A message cut into fragments by the sender is put together again by the receiver, whatever the
  order in which the fragments arrive and whatever other fragments, hostile ones included, arrive
  in between; and no fragment makes the receiver write outside its buffer as long as less than
  \<open>2\<^sup>3\<^sup>2\<close> bits are in flight.
\<close>

section \<open>The arrival of a fragment\<close>

definition unordered_channel :: "InternalPacket \<Rightarrow> InternalPacket" where
  "unordered_channel ip =
    (if reliability ip \<noteq> ReliableOrdered \<and> reliability ip \<noteq> ReliableSequenced \<and> reliability ip \<noteq> UnreliableSequenced
     then ip\<lparr>orderingChannel := 255\<rparr> else ip)"

record FragmentResult =
  fr_output :: "InternalPacket list"
  fr_packet :: "SplitFault + InternalPacket option"
  fr_acked :: bool
  fr_channels :: "SplitPacketChannel list"

definition receive_fragment ::
    "u32 \<Rightarrow> InternalPacket \<Rightarrow> u64 \<Rightarrow> (nat \<Rightarrow> u8) \<Rightarrow> u64 \<Rightarrow> InternalPacket \<Rightarrow> SplitPacketChannel list \<Rightarrow> FragmentResult" where
  "receive_fragment interval pool stale fresh time ip chans =
    (let internalPacket = unordered_channel ip;
         fragmentMessageId = splitPacketId internalPacket;
         (out, chans1) = InsertIntoSplitPacketList interval pool stale internalPacket time chans;
         (r, ack, chans2) = BuildPacketFromSplitPacketList pool fresh fragmentMessageId time chans1
     in \<lparr>fr_output = out, fr_packet = r, fr_acked = ack, fr_channels = chans2\<rparr>)"

lemma unordered_channel_fields [simp]:
  "splitPacketId (unordered_channel ip) = splitPacketId ip" "splitPacketIndex (unordered_channel ip) = splitPacketIndex ip"
  "splitPacketCount (unordered_channel ip) = splitPacketCount ip" "dataBitLength (unordered_channel ip) = dataBitLength ip"
  "ip_data (unordered_channel ip) = ip_data ip" "reliability (unordered_channel ip) = reliability ip"
  "fragment_ok (unordered_channel ip) = fragment_ok ip" "payload (unordered_channel ip) = payload ip"
  by (simp_all add: unordered_channel_def fragment_ok_def payload_def)

text \<open>The effect on the channel of the message, and on no other.\<close>

lemma receive_fragment_effect:
  fixes interval pool stale fresh time
  assumes ok: "chans_ok chans" and f: "fragment_ok ip"
  defines "k \<equiv> splitPacketId ip"
  defines "r \<equiv> receive_fragment interval pool stale fresh time ip chans"
  defines "oc \<equiv> chan_step stale time (unordered_channel ip) (chan_of chans k)"
  shows "chans_ok (fr_channels r)"
    and "k' \<noteq> k \<Longrightarrow> chan_of (fr_channels r) k' = chan_of chans k'"
    and "(\<And>c. oc = Some c \<Longrightarrow> \<not> AllPacketsAdded (splitPacketList c)) \<Longrightarrow>
      fr_packet r = Inr None \<and> chan_of (fr_channels r) k = oc"
    and "oc = Some c \<Longrightarrow> AllPacketsAdded (splitPacketList c) \<Longrightarrow>
      fr_packet r = BuildPacket pool fresh c time \<and> chan_of (fr_channels r) k = None"
    and "oc = Some c \<Longrightarrow> sort_ok (splitPacketList c)"
proof -
  let ?I = "InsertIntoSplitPacketList interval pool stale (unordered_channel ip) time chans"
  have s: "ids_sorted chans" and inv: "\<forall>c \<in> set chans. chan_inv c"
    using ok by (auto simp: chans_ok_def chan_ok_def chan_inv_def)
  have I: "ids_sorted (snd ?I)" "chan_of (snd ?I) = (chan_of chans)(k := oc)"
    using Insert_refines [OF s inv, of interval pool stale "unordered_channel ip" time] by (simp_all add: k_def oc_def)
  obtain p ack chans2 where B: "BuildPacketFromSplitPacketList pool fresh k time (snd ?I) = (p, ack, chans2)"
    by (metis prod.exhaust)
  have r: "fr_packet r = p" "fr_channels r = chans2"
    using B by (simp_all add: r_def receive_fragment_def k_def Let_def split_beta)
  note b = Build_refines [OF I(1) B]
  have oc_inv: "chan_inv c" if "oc = Some c" for c
    by (rule chan_step_inv [of "unordered_channel ip" "chan_of chans k" stale time])
      (use f that inv chan_of_iff [OF s] in \<open>auto simp: oc_def\<close>)
  then show "oc = Some c \<Longrightarrow> sort_ok (splitPacketList c)" by (simp add: chan_inv_def)
  show incomplete: "fr_packet r = Inr None \<and> chan_of (fr_channels r) k = oc"
    if "\<And>c. oc = Some c \<Longrightarrow> \<not> AllPacketsAdded (splitPacketList c)"
    using b(2) that I(2) by (auto simp: r split: option.splits)
  show complete: "fr_packet r = BuildPacket pool fresh c time \<and> chan_of (fr_channels r) k = None"
    if "oc = Some c" "AllPacketsAdded (splitPacketList c)" for c
    using b(2) that I(2) by (auto simp: r)
  show other: "chan_of (fr_channels r) k' = chan_of chans k'" if "k' \<noteq> k" for k'
    using b(2) that I(2) by (auto simp: r split: option.splits if_splits)
  show "chans_ok (fr_channels r)"
    unfolding chans_ok_def
  proof (intro conjI ballI)
    show s2: "ids_sorted (fr_channels r)" using b(1) by (simp add: r)
    fix c assume c: "c \<in> set (fr_channels r)"
    then have cc: "chan_of (fr_channels r) (chan_id c) = Some c" using chan_of_iff [OF s2] by simp
    show "chan_ok c"
    proof (cases "chan_id c = k")
      case False
      then have "c \<in> set chans" using cc other chan_of_iff [OF s] by simp
      then show ?thesis using ok by (simp add: chans_ok_def)
    next
      case True
      have "\<not> AllPacketsAdded (splitPacketList d)" if "oc = Some d" for d
        using complete [OF that] cc True by auto
      moreover from this have "oc = Some c" using incomplete cc True by auto
      ultimately show ?thesis using oc_inv by (auto simp: chan_ok_def chan_inv_def)
    qed
  qed
qed

section \<open>Collecting the fragments of one message\<close>

definition message_fragments :: "u16 \<Rightarrow> nat \<Rightarrow> (nat \<Rightarrow> InternalPacket) \<Rightarrow> bool" where
  "message_fragments k n G \<longleftrightarrow> 0 < n \<and> n < 4294967296 \<and>
    (\<forall>i < n. splitPacketId (G i) = k \<and> splitPacketIndex (G i) = of_nat i \<and> splitPacketCount (G i) = of_nat n \<and>
       fragment_ok (G i) \<and> (i + 1 < n \<longrightarrow> dataBitLength (G i) mod 8 = 0))"

definition entry :: "(nat \<Rightarrow> InternalPacket) \<Rightarrow> nat \<Rightarrow> u32 \<times> InternalPacket" where
  "entry G i = (of_nat i, unordered_channel (G i))"

definition sort_has :: "SplitPacketSort \<Rightarrow> u16 \<Rightarrow> nat \<Rightarrow> (nat \<Rightarrow> InternalPacket) \<Rightarrow> nat set \<Rightarrow> bool" where
  "sort_has s k n G A \<longleftrightarrow> sort_ok s \<and> m_count s = of_nat n \<and> m_packetId s = k \<and> set (m_fragments s) = entry G ` A"

definition collected :: "SplitPacketChannel list \<Rightarrow> u16 \<Rightarrow> nat \<Rightarrow> (nat \<Rightarrow> InternalPacket) \<Rightarrow> nat set \<Rightarrow> bool" where
  "collected chans k n G A \<longleftrightarrow>
    (case chan_of chans k of None \<Rightarrow> A = {} | Some c \<Rightarrow> sort_has (splitPacketList c) k n G A)"

lemma unat_index: "i < n \<Longrightarrow> n < 4294967296 \<Longrightarrow> unat (of_nat i :: u32) = i"
  by (rule unat_of_nat_id) simp

lemma entry_inj: "n < 4294967296 \<Longrightarrow> A \<subseteq> {..<n} \<Longrightarrow> inj_on (fst \<circ> entry G) A"
proof (rule inj_onI)
  fix i j assume "n < 4294967296" "A \<subseteq> {..<n}" "i \<in> A" "j \<in> A" "(fst \<circ> entry G) i = (fst \<circ> entry G) j"
  then show "i = j" using unat_index [of i n] unat_index [of j n] by (auto simp: entry_def)
qed

lemma sort_has_complete:
  assumes "sort_has s k n G A" "A \<subseteq> {..<n}" "0 < n" "n < 4294967296"
  shows "AllPacketsAdded s \<longleftrightarrow> A = {..<n}"
proof -
  have "inj_on (entry G) A" using entry_inj [OF assms(4,2), of G] by (rule inj_on_imageI2)
  then have "length (m_fragments s) = card A"
    using assms(1) keys_sorted_distinct [of "m_fragments s"] distinct_card [of "m_fragments s"] card_image [of "entry G" A]
    by (simp add: sort_has_def sort_ok_def)
  moreover have "unat (of_nat n :: u32) = n" using assms(4) by (intro unat_of_nat_id) simp
  moreover have "card A = n \<longleftrightarrow> A = {..<n}" using assms(2) card_subset_eq [of "{..<n}" A] by auto
  ultimately show ?thesis
    using assms(1,3) by (simp add: AllPacketsAdded_def sort_has_def word_less_nat_alt)
qed

lemma sort_has_Add:
  assumes h: "sort_has s k n G A" "message_fragments k n G" "A \<subseteq> {..<n}" "i < n" "i \<notin> A"
  shows "fst (SplitPacketSort_Add (unordered_channel (G i)) s)"
    "sort_has (snd (SplitPacketSort_Add (unordered_channel (G i)) s)) k n G (insert i A)"
proof -
  let ?ip = "unordered_channel (G i)"
  have m: "splitPacketId ?ip = k" "splitPacketIndex ?ip = of_nat i" "splitPacketCount ?ip = of_nat n" "fragment_ok ?ip"
      "i + 1 < n \<longrightarrow> dataBitLength ?ip mod 8 = 0" and n: "n < 4294967296"
    using h(2,4) by (auto simp: message_fragments_def)
  have u: "unat (of_nat i :: u32) = i" "unat (of_nat n :: u32) = n"
    using n h(4) by (auto intro!: unat_of_nat_id)
  have "unat (of_nat (Suc i) :: u32) = Suc i" by (rule unat_of_nat_id) (use n h(4) in simp)
  then have u1: "unat (of_nat i + 1 :: u32) = Suc i" by (simp add: ac_simps)
  have lt: "(of_nat i :: u32) < of_nat n" "(of_nat i + 1 :: u32) < of_nat n \<Longrightarrow> i + 1 < n"
    using u u1 h(4) by (simp_all add: word_less_nat_alt)
  have "of_nat i \<notin> fst ` entry G ` A"
  proof
    assume "of_nat i \<in> fst ` entry G ` A"
    then obtain j where j: "j \<in> A" "(fst \<circ> entry G) i = (fst \<circ> entry G) j" by (auto simp: entry_def)
    then have "i = j" using entry_inj [OF n, of "insert i A" G] h(3,4) by (auto simp: inj_on_def)
    then show False using j h(5) by simp
  qed
  then have e: "fst (map_emplace (of_nat i) ?ip (m_fragments s))"
    using map_emplace_inserted [of "m_fragments s"] h(1) by (simp add: sort_has_def sort_ok_def)
  show add: "fst (SplitPacketSort_Add ?ip s)"
    using h(1) m lt e by (auto simp: SplitPacketSort_Add_def sort_has_def Let_def split_beta)
  have "set (m_fragments (snd (SplitPacketSort_Add ?ip s))) = insert (entry G i) (entry G ` A)"
    unfolding Add_accepts(6) [OF add] map_emplace_set using e h(1) m(2) by (simp add: sort_has_def entry_def)
  then show "sort_has (snd (SplitPacketSort_Add ?ip s)) k n G (insert i A)"
    using h(1) Add_ok [OF _ m(4)] by (simp add: sort_has_def)
qed

lemma collect_step:
  fixes interval pool stale fresh time
  assumes ok: "chans_ok chans" and g: "message_fragments k n G" and A: "A \<subseteq> {..<n}" "i < n" "i \<notin> A"
    and c: "collected chans k n G A"
  defines "r \<equiv> receive_fragment interval pool stale fresh time (G i) chans"
  shows "insert i A \<noteq> {..<n} \<Longrightarrow> fr_packet r = Inr None \<and> collected (fr_channels r) k n G (insert i A)"
    and "insert i A = {..<n} \<Longrightarrow>
      \<exists>ch. fr_packet r = BuildPacket pool fresh ch time \<and> sort_has (splitPacketList ch) k n G {..<n}"
proof -
  have f: "fragment_ok (G i)" and id: "splitPacketId (G i) = k" and n: "0 < n" "n < 4294967296"
      and cnt: "splitPacketCount (G i) = of_nat n"
    using g A by (auto simp: message_fragments_def)
  define c0 where "c0 = (case chan_of chans k of Some c \<Rightarrow> c | None \<Rightarrow> new_channel stale (unordered_channel (G i)))"
  have c0: "sort_has (splitPacketList c0) k n G A"
  proof (cases "chan_of chans k")
    case None
    then have "A = {}" using c by (simp add: collected_def)
    then show ?thesis using None id cnt new_channel_sort_ok [of stale "unordered_channel (G i)"]
      by (simp add: c0_def sort_has_def new_channel_def SplitPacketSort_Init_def SplitPacketSort_new_def)
  qed (use c in \<open>simp add: c0_def collected_def\<close>)
  note add = sort_has_Add [OF c0 g A]
  let ?c = "chan_add time (unordered_channel (G i)) c0"
  have oc: "chan_step stale time (unordered_channel (G i)) (chan_of chans (splitPacketId (G i))) = Some ?c"
    using add(1) by (simp add: chan_step_def c0_def [symmetric] id Let_def)
  have h: "sort_has (splitPacketList ?c) k n G (insert i A)" using add(2) by (simp add: chan_add_def)
  have done_iff: "AllPacketsAdded (splitPacketList ?c) \<longleftrightarrow> insert i A = {..<n}"
    by (rule sort_has_complete [OF h]) (use A n in auto)
  note e = receive_fragment_effect(3,4) [OF ok f, where stale = stale and time = time and interval = interval
      and pool = pool and fresh = fresh, unfolded oc, folded r_def]
  show "fr_packet r = Inr None \<and> collected (fr_channels r) k n G (insert i A)" if "insert i A \<noteq> {..<n}"
    using e(1) that done_iff h by (auto simp: id collected_def)
  show "\<exists>ch. fr_packet r = BuildPacket pool fresh ch time \<and> sort_has (splitPacketList ch) k n G {..<n}"
    if "insert i A = {..<n}"
    using e(2) [OF refl] that done_iff h by auto
qed

lemma other_step:
  assumes "chans_ok chans" "fragment_ok ip" "splitPacketId ip \<noteq> k" "collected chans k n G A"
  shows "collected (fr_channels (receive_fragment interval pool stale fresh time ip chans)) k n G A"
  using receive_fragment_effect(2) [OF assms(1,2), of k] assms(3,4) by (auto simp: collected_def)

lemma entries_sorted: "n < 4294967296 \<Longrightarrow> keys_sorted (map (entry G) [0..<n])"
  using unat_index [of _ n] by (auto simp: keys_sorted_def sorted_wrt_iff_nth_less entry_def word_less_nat_alt)

lemma sort_has_all:
  assumes "sort_has s k n G {..<n}" "n < 4294967296"
  shows "m_fragments s = map (entry G) [0..<n]"
proof (rule keys_sorted_unique)
  show "keys_sorted (m_fragments s)" using assms(1) by (simp add: sort_has_def sort_ok_def)
  show "keys_sorted (map (entry G) [0..<n])" by (rule entries_sorted [OF assms(2)])
  show "set (m_fragments s) = set (map (entry G) [0..<n])" using assms(1) by (auto simp: sort_has_def)
qed

section \<open>What the sender cuts\<close>

lemma concat_blocks: "concat (map (\<lambda>i. take b (drop (i * b) xs)) [0..<n]) = take (n * b) xs"
  by (induction n) (simp_all add: take_add [symmetric] add.commute)

text \<open>The bits the receiver ends up with: the length is rounded up to whole bytes if the last block is full.\<close>

definition resent_bits :: "nat \<Rightarrow> nat \<Rightarrow> nat" where
  "resent_bits block bits = (if block dvd (bits + 7) div 8 then 8 * ((bits + 7) div 8) else bits)"

lemma split_count_eq:
  "0 < L \<Longrightarrow> L < 4294967296 \<Longrightarrow> split_count b L = (L - 1) div b + 1"
proof -
  assume L: "0 < L" "L < 4294967296"
  then obtain m where m: "L = Suc m" by (cases L) auto
  have "w32 (m + 4294967296) = m" using L m by (simp add: w32_def)
  then have "w32 (L + 4294967295) = L - 1" using m by (simp add: add.commute)
  then show ?thesis by (simp add: split_count_def)
qed

text \<open>Fragment \<open>i\<close> is block \<open>i\<close> of the data; every fragment but the last has full blocks.\<close>

definition block_bits :: "nat \<Rightarrow> nat \<Rightarrow> nat \<Rightarrow> nat" where
  "block_bits b bits i = (let rest = (bits + 7) div 8 - i * b in if rest \<ge> b then 8 * b else bits - i * (b * 8))"

lemma block_bits_inner:
  assumes "0 < b" "i < ((bits + 7) div 8 - 1) div b"
  shows "block_bits b bits i = 8 * b"
proof -
  have "(i + 1) * b \<le> (bits + 7) div 8 - 1"
    using assms less_eq_div_iff_mult_less_eq [of b "i + 1" "(bits + 7) div 8 - 1"] by simp
  then show ?thesis by (simp add: block_bits_def)
qed

lemma block_bits_sum:
  assumes "0 < b" "0 < bits"
  defines "n \<equiv> ((bits + 7) div 8 - 1) div b"
  shows "(\<Sum>i \<leftarrow> [0..<Suc n]. block_bits b bits i) = resent_bits b bits"
proof -
  let ?L = "(bits + 7) div 8"
  have L: "0 < ?L" "bits \<le> 8 * ?L" "8 * ?L \<le> bits + 7" using assms(2) by simp_all
  have nb: "n * b \<le> ?L - 1" "?L - 1 < n * b + b"
    using assms(1) by (simp_all add: n_def) (metis add.commute dividend_less_div_times mult.commute)
  have inner: "(\<Sum>i \<leftarrow> [0..<n]. block_bits b bits i) = n * (8 * b)"
  proof -
    have "map (block_bits b bits) [0..<n] = replicate n (8 * b)"
      by (rule nth_equalityI) (use block_bits_inner [OF assms(1)] in \<open>simp_all add: n_def\<close>)
    then show ?thesis by (simp add: sum_list_replicate)
  qed
  have "b dvd ?L \<longleftrightarrow> ?L = n * b + b"
  proof
    assume "b dvd ?L"
    then obtain q where q: "?L = b * q" by (elim dvdE)
    have "b * n < b * q" "b * q \<le> b * n + b" using nb L(1) unfolding q mult.commute [of n b] by linarith+
    then have "b * n < b * q" "b * q \<le> b * Suc n" by simp_all
    then have "n < q" "q \<le> Suc n" using assms(1) by (simp_all only: nat_mult_less_cancel1 nat_mult_le_cancel1)
    then have "q = Suc n" by simp
    then show "?L = n * b + b" using q by simp
  qed simp
  moreover have "block_bits b bits n = (if ?L = n * b + b then 8 * b else bits - n * (b * 8))"
    using nb L(1) by (auto simp: block_bits_def Let_def)
  moreover have "n * (b * 8) \<le> bits"
  proof -
    have "8 * (n * b) \<le> 8 * (?L - 1)" using nb(1) by simp
    then show ?thesis using L by (simp add: mult.assoc)
  qed
  ultimately show ?thesis using inner by (auto simp: resent_bits_def algebra_simps)
qed

lemma split_fragment_fields:
  fixes b k ip i
  assumes "0 < b" "dataBitLength ip < 4294967289" "i * b < (dataBitLength ip + 7) div 8"
  defines "f \<equiv> split_fragment b k ip i"
  shows "dataBitLength f = block_bits b (dataBitLength ip) i" "ip_data f = drop (i * b) (ip_data ip)"
    "splitPacketIndex f = of_nat i" "splitPacketId f = k" "splitPacketCount f = splitPacketCount ip"
    "BITS_TO_BYTES (dataBitLength f) = min b ((dataBitLength ip + 7) div 8 - i * b)"
proof -
  let ?L = "(dataBitLength ip + 7) div 8"
  have L: "BITS_TO_BYTES (dataBitLength ip) = ?L" using assms(2) by (rule BITS_TO_BYTES_small)
  show d: "dataBitLength f = block_bits b (dataBitLength ip) i"
    using assms(1,3) by (auto simp: f_def split_fragment_def Let_def L block_bits_def)
  have "?L \<le> 4294967295 div 8" using assms(2) by (intro div_le_mono) simp
  then have "block_bits b (dataBitLength ip) i < 4294967289"
    using assms(2) by (auto simp: block_bits_def Let_def)
  then show "BITS_TO_BYTES (dataBitLength f) = min b (?L - i * b)"
    using assms(1,3) unfolding d by (auto simp: BITS_TO_BYTES_small block_bits_def Let_def)
qed (simp_all add: f_def split_fragment_def Let_def)

lemma concat_block_payloads:
  assumes "0 < b" "dataBitLength ip < 4294967289" "0 < dataBitLength ip"
  defines "L \<equiv> (dataBitLength ip + 7) div 8"
  shows "concat (map (\<lambda>i. payload (split_fragment b k ip i)) [0..<(L - 1) div b + 1]) = take L (ip_data ip)"
proof -
  let ?n = "(L - 1) div b + 1" and ?D = "take L (ip_data ip)"
  have L: "0 < L" using assms(3) by (simp add: L_def)
  have "payload (split_fragment b k ip i) = take b (drop (i * b) ?D)" if "i < ?n" for i
  proof -
    have "i * b \<le> L - 1" using that assms(1) less_eq_div_iff_mult_less_eq [of b i "L - 1"] by simp
    then have "i * b < L" using L by simp
    note f = split_fragment_fields [OF assms(1,2) this [unfolded L_def], of k]
    show ?thesis unfolding payload_def f(2,6) L_def by (simp add: drop_take min.commute)
  qed
  then have "concat (map (\<lambda>i. payload (split_fragment b k ip i)) [0..<?n]) =
      concat (map (\<lambda>i. take b (drop (i * b) ?D)) [0..<?n])"
    by (intro arg_cong [of _ _ concat] map_cong) auto
  also have "\<dots> = take (?n * b) ?D" by (rule concat_blocks)
  also have "\<dots> = ?D"
  proof -
    have "L - 1 < (L - 1) div b * b + b" using assms(1) by (metis add.commute dividend_less_div_times)
    then have "L \<le> ?n * b" using L by simp
    then show ?thesis by simp
  qed
  finally show ?thesis .
qed

text \<open>\<open>carries\<close>: what a received packet must have in common with the fragment that was sent.\<close>

definition carries :: "InternalPacket \<Rightarrow> InternalPacket \<Rightarrow> bool" where
  "carries ip f \<longleftrightarrow> splitPacketId ip = splitPacketId f \<and> splitPacketIndex ip = splitPacketIndex f \<and>
    splitPacketCount ip = splitPacketCount f \<and> dataBitLength ip = dataBitLength f \<and> payload ip = payload f \<and> fragment_ok ip"

definition splittable :: "nat \<Rightarrow> InternalPacket \<Rightarrow> InternalPacket \<Rightarrow> bool" where
  "splittable mtu pool ip \<longleftrightarrow> 0 < maximumSendBlockBytes pool mtu \<and> 0 < dataBitLength ip \<and> dataBitLength ip < 4294967289 \<and>
    length (ip_data ip) = BITS_TO_BYTES (dataBitLength ip)"

lemma splittable_bytes:
  assumes "splittable mtu pool ip"
  shows "BITS_TO_BYTES (dataBitLength ip) = (dataBitLength ip + 7) div 8" "0 < (dataBitLength ip + 7) div 8"
    "(dataBitLength ip + 7) div 8 \<le> 536870911"
proof -
  have b: "0 < dataBitLength ip" "dataBitLength ip < 4294967289" using assms by (simp_all add: splittable_def)
  show "BITS_TO_BYTES (dataBitLength ip) = (dataBitLength ip + 7) div 8" by (rule BITS_TO_BYTES_small [OF b(2)])
  show "0 < (dataBitLength ip + 7) div 8" "(dataBitLength ip + 7) div 8 \<le> 536870911" using b by linarith+
qed

lemma split_fragments_nth:
  assumes "splittable mtu pool ip"
  defines "L \<equiv> (dataBitLength ip + 7) div 8" and "b \<equiv> maximumSendBlockBytes pool mtu"
  shows "length (split_fragments pool mtu k order ip) = (L - 1) div b + 1"
    "i \<le> (L - 1) div b \<Longrightarrow> \<exists>h o'. split_fragments pool mtu k order ip ! i =
      (split_fragment b k (ip\<lparr>splitPacketCount := of_nat ((L - 1) div b + 1)\<rparr>) i)\<lparr>messageInternalOrder := o', headerLength := h\<rparr>"
proof -
  have L: "BITS_TO_BYTES (dataBitLength ip) = L" "0 < L" "L \<le> 536870911"
    using splittable_bytes [OF assms(1)] by (simp_all add: L_def)
  have c: "split_count b L = (L - 1) div b + 1" using split_count_eq [of L b] L by simp
  show "length (split_fragments pool mtu k order ip) = (L - 1) div b + 1"
    using c L by (simp add: split_fragments_def Let_def b_def)
  show "\<exists>h o'. split_fragments pool mtu k order ip ! i =
      (split_fragment b k (ip\<lparr>splitPacketCount := of_nat ((L - 1) div b + 1)\<rparr>) i)\<lparr>messageInternalOrder := o', headerLength := h\<rparr>"
    if "i \<le> (L - 1) div b"
  proof -
    have "i < split_count b L" using that c by simp
    then have "\<exists>h o'. split_fragments pool mtu k order ip ! i =
      (split_fragment b k (ip\<lparr>splitPacketCount := of_nat (split_count b L)\<rparr>) i)\<lparr>messageInternalOrder := o', headerLength := h\<rparr>"
      by (auto simp: split_fragments_def Let_def b_def L(1))
    then show ?thesis unfolding c .
  qed
qed

lemma payload_header [simp]: "payload (f\<lparr>messageInternalOrder := x, headerLength := h\<rparr>) = payload f"
  by (simp add: payload_def)

lemma split_carried:
  assumes sp: "splittable mtu pool ip" and fs: "fs = split_fragments pool mtu k order ip"
    and G: "\<And>i. i < length fs \<Longrightarrow> carries (G i) (fs ! i)"
  shows "message_fragments k (length fs) G"
    and "concat (map (\<lambda>i. payload (G i)) [0..<length fs]) = ip_data ip"
    and "(\<Sum>i \<leftarrow> [0..<length fs]. dataBitLength (G i)) = resent_bits (maximumSendBlockBytes pool mtu) (dataBitLength ip)"
proof -
  let ?b = "maximumSendBlockBytes pool mtu" and ?L = "(dataBitLength ip + 7) div 8"
  let ?m = "(?L - 1) div ?b"
  let ?ip = "ip\<lparr>splitPacketCount := of_nat (?m + 1)\<rparr>"
  have b: "0 < ?b" "0 < dataBitLength ip" "dataBitLength ip < 4294967289" "length (ip_data ip) = ?L" "0 < ?L"
    using sp splittable_bytes [OF sp] by (auto simp: splittable_def)
  have n: "length fs = ?m + 1" using split_fragments_nth(1) [OF sp] fs by simp
  have lt: "i * ?b < ?L" if "i < length fs" for i
  proof -
    have "i * ?b \<le> ?L - 1" using that n b(1) less_eq_div_iff_mult_less_eq [of ?b i "?L - 1"] by simp
    then show ?thesis using b(5) by linarith
  qed
  have nth: "splitPacketId (fs ! i) = k \<and> splitPacketIndex (fs ! i) = of_nat i \<and> splitPacketCount (fs ! i) = of_nat (?m + 1) \<and>
      dataBitLength (fs ! i) = block_bits ?b (dataBitLength ip) i \<and> payload (fs ! i) = payload (split_fragment ?b k ?ip i)"
    if "i < length fs" for i
  proof -
    have "i \<le> ?m" using that n by simp
    from split_fragments_nth(2) [OF sp this, of k order] obtain h ord
      where "fs ! i = (split_fragment ?b k ?ip i)\<lparr>messageInternalOrder := ord, headerLength := h\<rparr>" unfolding fs by blast
    then show ?thesis using split_fragment_fields [of ?b ?ip i k] b lt [OF that] by simp
  qed
  have "?m \<le> ?L - 1" by simp
  then have n32: "length fs < 4294967296" using n splittable_bytes(3) [OF sp] by linarith
  show "message_fragments k (length fs) G"
    unfolding message_fragments_def
  proof (intro conjI allI impI)
    show "0 < length fs" using n by simp
    fix i assume i: "i < length fs"
    show "splitPacketId (G i) = k" "splitPacketIndex (G i) = of_nat i" "splitPacketCount (G i) = of_nat (length fs)"
      "fragment_ok (G i)"
      using G [OF i] nth [OF i] n by (simp_all add: carries_def)
    show "dataBitLength (G i) mod 8 = 0" if "i + 1 < length fs"
      using G [OF i] nth [OF i] n that block_bits_inner [OF b(1), of i "dataBitLength ip"] by (simp add: carries_def)
  qed (rule n32)
  have "concat (map (\<lambda>i. payload (G i)) [0..<length fs]) = concat (map (\<lambda>i. payload (split_fragment ?b k ?ip i)) [0..<?m + 1])"
    using G nth n by (intro arg_cong [of _ _ concat] map_cong) (auto simp: carries_def)
  also have "\<dots> = ip_data ip" using concat_block_payloads [of ?b ?ip k] b by simp
  finally show "concat (map (\<lambda>i. payload (G i)) [0..<length fs]) = ip_data ip" .
  have "map (\<lambda>i. dataBitLength (G i)) [0..<length fs] = map (block_bits ?b (dataBitLength ip)) [0..<Suc ?m]"
    using G nth n by (intro map_cong) (auto simp: carries_def)
  then show "(\<Sum>i \<leftarrow> [0..<length fs]. dataBitLength (G i)) = resent_bits ?b (dataBitLength ip)"
    using block_bits_sum [OF b(1,2)] by (simp del: upt_Suc)
qed

section \<open>A sequence of arrivals\<close>

primrec fragment_results ::
    "u32 \<Rightarrow> InternalPacket \<Rightarrow> u64 \<Rightarrow> (nat \<Rightarrow> u8) \<Rightarrow> (u64 \<times> InternalPacket) list \<Rightarrow> SplitPacketChannel list \<Rightarrow>
     (SplitFault + InternalPacket option) list" where
  "fragment_results interval pool stale fresh [] chans = []"
| "fragment_results interval pool stale fresh (a # as) chans =
    (let r = receive_fragment interval pool stale fresh (fst a) (snd a) chans
     in fr_packet r # fragment_results interval pool stale fresh as (fr_channels r))"

definition of_message :: "u16 \<Rightarrow> (u64 \<times> InternalPacket) list \<Rightarrow> InternalPacket list" where
  "of_message k as = filter (\<lambda>ip. splitPacketId ip = k) (map snd as)"

lemma fragment_results_collect:
  assumes "chans_ok chans" "message_fragments k n G" "collected chans k n G A" "\<forall>a \<in> set as. fragment_ok (snd a)"
    and "of_message k as = map G js" "distinct js" "i \<notin> set js" "i \<notin> A" "set js \<inter> A = {}" "insert i (A \<union> set js) = {..<n}"
  shows "(\<forall>j < length as. splitPacketId (snd (as ! j)) = k \<longrightarrow>
        fragment_results interval pool stale fresh (as @ [(time, G i)]) chans ! j = Inr None) \<and>
    (\<exists>ch. fragment_results interval pool stale fresh (as @ [(time, G i)]) chans ! length as = BuildPacket pool fresh ch time \<and>
      sort_has (splitPacketList ch) k n G {..<n})"
  using assms
proof (induction as arbitrary: chans A js)
  case Nil
  then have A: "insert i A = {..<n}" "A \<subseteq> {..<n}" "i < n" by (auto simp: of_message_def)
  show ?case using collect_step(2) [OF Nil.prems(1,2) A(2,3) Nil.prems(8,3) A(1)] by simp
next
  case (Cons a as)
  define r where "r = receive_fragment interval pool stale fresh (fst a) (snd a) chans"
  have f: "fragment_ok (snd a)" using Cons.prems(4) by simp
  have ok: "chans_ok (fr_channels r)" unfolding r_def by (rule receive_fragment_effect(1) [OF Cons.prems(1) f])
  have res: "fragment_results interval pool stale fresh ((a # as) @ [(time, G i)]) chans =
      fr_packet r # fragment_results interval pool stale fresh (as @ [(time, G i)]) (fr_channels r)"
    by (simp add: r_def Let_def)
  show ?case
  proof (cases "splitPacketId (snd a) = k")
    case True
    then obtain j js' where js: "js = j # js'" "snd a = G j" "of_message k as = map G js'"
      using Cons.prems(5) by (auto simp: of_message_def)
    have j: "j < n" "j \<notin> A" "A \<subseteq> {..<n}" "i \<noteq> j" using Cons.prems(7,9,10) js(1) by auto
    have ne: "insert j A \<noteq> {..<n}" using Cons.prems(7,8,10) js(1) j(4) by blast
    have c: "fr_packet r = Inr None" "collected (fr_channels r) k n G (insert j A)"
      using collect_step(1) [OF Cons.prems(1,2) j(3,1,2) Cons.prems(3) ne] by (simp_all add: r_def js(2))
    have "insert i (insert j A \<union> set js') = {..<n}" using Cons.prems(10) js(1) by auto
    from Cons.IH [OF ok Cons.prems(2) c(2) _ js(3) _ _ _ _ this]
    show ?thesis using Cons.prems(4,6-9) js(1) c(1) unfolding res by (auto simp: less_Suc_eq_0_disj)
  next
    case False
    have c: "collected (fr_channels r) k n G A"
      unfolding r_def by (rule other_step [OF Cons.prems(1) f False Cons.prems(3)])
    have "of_message k as = map G js" using Cons.prems(5) False by (simp add: of_message_def)
    from Cons.IH [OF ok Cons.prems(2) c _ this Cons.prems(6-10)]
    show ?thesis using Cons.prems(4) False unfolding res by (auto simp: less_Suc_eq_0_disj)
  qed
qed

lemma fragment_bytes_entries: "fragment_bytes (map (entry G) [0..<n]) = concat (map (\<lambda>i. payload (G i)) [0..<n])"
  by (simp add: fragment_bytes_def entry_def comp_def)

lemma bit_sum_entries: "bit_sum (map (entry G) [0..<n]) = (\<Sum>i \<leftarrow> [0..<n]. dataBitLength (G i))"
  by (simp add: bit_sum_def entry_def comp_def)

lemma resent_bits_bound: "bits < 4294967289 \<Longrightarrow> resent_bits b bits < 4294967289"
proof -
  assume "bits < 4294967289"
  then have "(bits + 7) div 8 \<le> 536870911" by linarith
  then have "8 * ((bits + 7) div 8) < 4294967289" by simp
  then show ?thesis using \<open>bits < 4294967289\<close> by (simp add: resent_bits_def)
qed

lemma bit_sum_emplace: "bit_sum (snd (map_emplace k v es)) \<le> bit_sum es + dataBitLength v"
  by (induction es) auto

lemma chan_step_bits:
  assumes "chan_step stale time ip oc = Some c" "\<And>c. oc = Some c \<Longrightarrow> bit_sum (m_fragments (splitPacketList c)) \<le> n"
  shows "bit_sum (m_fragments (splitPacketList c)) \<le> n + dataBitLength ip"
proof (cases "oc = Some c")
  case True
  then show ?thesis using assms(2) by fastforce
next
  case False
  define c0 where "c0 = (case oc of Some c \<Rightarrow> c | None \<Rightarrow> new_channel stale ip)"
  have "bit_sum (m_fragments (splitPacketList c0)) \<le> n" using assms(2) by (cases oc) (simp_all add: c0_def)
  moreover have "fst (SplitPacketSort_Add ip (splitPacketList c0))" "c = chan_add time ip c0"
    using assms(1) False by (auto simp: chan_step_def c0_def [symmetric] Let_def split: if_splits)
  ultimately show ?thesis
    using Add_accepts(6) bit_sum_emplace [of "splitPacketIndex ip" ip "m_fragments (splitPacketList c0)"]
    by (simp add: chan_add_def)
qed

lemma fragment_results_safe:
  assumes "chans_ok chans" "\<forall>a \<in> set as. fragment_ok (snd a)" "n + (\<Sum>a \<leftarrow> as. dataBitLength (snd a)) < 4294967289"
    and "\<And>k c. chan_of chans k = Some c \<Longrightarrow> bit_sum (m_fragments (splitPacketList c)) \<le> n"
    and "r \<in> set (fragment_results interval pool stale fresh as chans)"
  shows "\<exists>m. r = Inr m"
  using assms
proof (induction as arbitrary: chans n)
  case (Cons a as)
  let ?k = "splitPacketId (snd a)"
  define q where "q = receive_fragment interval pool stale fresh (fst a) (snd a) chans"
  define oc where "oc = chan_step stale (fst a) (unordered_channel (snd a)) (chan_of chans ?k)"
  have f: "fragment_ok (snd a)" using Cons.prems(2) by simp
  note e = receive_fragment_effect [OF Cons.prems(1) f, where stale = stale and time = "fst a", folded oc_def]
  have oc: "bit_sum (m_fragments (splitPacketList c)) \<le> n + dataBitLength (snd a)" if "oc = Some c" for c
    using chan_step_bits [of stale "fst a" "unordered_channel (snd a)" "chan_of chans ?k" c n] that Cons.prems(4)
    by (simp add: oc_def)
  have q: "(\<exists>m. fr_packet q = Inr m) \<and> (chan_of (fr_channels q) ?k = oc \<or> chan_of (fr_channels q) ?k = None)"
  proof (cases "\<exists>c. oc = Some c \<and> AllPacketsAdded (splitPacketList c)")
    case True
    then obtain c where c: "oc = Some c" "AllPacketsAdded (splitPacketList c)" by blast
    have "bit_sum (m_fragments (splitPacketList c)) < 4294967289" using oc [OF c(1)] Cons.prems(3) by simp
    then show ?thesis
      using e(4) [OF c] BuildPacket_correct [OF e(5) [OF c(1)], of pool fresh "fst a"] by (auto simp: q_def)
  next
    case False
    then show ?thesis using e(3) by (auto simp: q_def)
  qed
  have bits: "bit_sum (m_fragments (splitPacketList c)) \<le> n + dataBitLength (snd a)" if "chan_of (fr_channels q) k = Some c" for k c
  proof (cases "k = ?k")
    case True
    then have "oc = Some c" using q that by auto
    then show ?thesis by (rule oc)
  next
    case False
    then have "bit_sum (m_fragments (splitPacketList c)) \<le> n"
      using e(2) [OF False, of interval pool fresh] that Cons.prems(4) by (auto simp: q_def)
    then show ?thesis by simp
  qed
  have ok: "chans_ok (fr_channels q)" unfolding q_def by (rule e(1))
  have "\<exists>m. r = Inr m" if "r \<in> set (fragment_results interval pool stale fresh as (fr_channels q))"
    by (rule Cons.IH [OF ok _ _ bits that]) (use Cons.prems(2,3) in simp_all)
  then show ?case using Cons.prems(5) q by (auto simp: q_def [symmetric] Let_def)
qed simp

section \<open>Properties\<close>

text \<open>
  Property C16: a message the sender cuts with \<^verbatim>\<open>SplitPacket\<close> is reassembled from its fragments in whatever
  order they arrive, with fragments of other messages, well-formed or hostile, in between: no
  fragment before the last one to arrive produces a message, and the last one produces a message
  with exactly the data that was sent.  Its length in bits is the one sent, except that it is
  rounded up to whole bytes when the bytes of the message are a multiple of the fragment size.
\<close>

theorem split_message_reassembled:
  assumes "splittable mtu pool ip" "chans_ok chans" "chan_of chans k = None"
    and "\<forall>a \<in> set as. fragment_ok (snd a)"
    and "of_message k as @ [f] = map G order" "distinct order" "set order = {..<length (split_fragments pool mtu k n0 ip)}"
    and "\<And>i. i < length (split_fragments pool mtu k n0 ip) \<Longrightarrow> carries (G i) (split_fragments pool mtu k n0 ip ! i)"
  shows "(\<forall>j < length as. splitPacketId (snd (as ! j)) = k \<longrightarrow>
        fragment_results interval pool2 stale fresh (as @ [(time, f)]) chans ! j = Inr None) \<and>
    (\<exists>m. fragment_results interval pool2 stale fresh (as @ [(time, f)]) chans ! length as = Inr (Some m) \<and>
      ip_data m = ip_data ip \<and>
      dataBitLength m = resent_bits (maximumSendBlockBytes pool mtu) (dataBitLength ip) \<and>
      splitPacketCount m = 0 \<and> reliability m = reliability (G 0))"
proof -
  let ?fs = "split_fragments pool mtu k n0 ip"
  let ?n = "length ?fs"
  note s = split_carried [OF assms(1) refl, of k n0 G, OF assms(8)]
  obtain js i where order: "order = js @ [i]" "of_message k as = map G js" "f = G i"
    using assms(5) by (cases order rule: rev_cases) auto
  have n: "0 < ?n" "?n < 4294967296" using s(1) by (auto simp: message_fragments_def)
  have c: "collected chans k ?n G {}" using assms(3) by (simp add: collected_def)
  have "insert i ({} \<union> set js) = {..<?n}" using assms(7) order(1) by auto
  from fragment_results_collect [OF assms(2) s(1) c assms(4) order(2) _ _ _ _ this, of interval pool2 stale fresh time]
  obtain ch where res: "\<forall>j < length as. splitPacketId (snd (as ! j)) = k \<longrightarrow>
        fragment_results interval pool2 stale fresh (as @ [(time, f)]) chans ! j = Inr None"
      "fragment_results interval pool2 stale fresh (as @ [(time, f)]) chans ! length as = BuildPacket pool2 fresh ch time"
      "sort_has (splitPacketList ch) k ?n G {..<?n}"
    using assms(6) order by auto
  note all = sort_has_all [OF res(3) n(2)]
  have bits: "bit_sum (m_fragments (splitPacketList ch)) = resent_bits (maximumSendBlockBytes pool mtu) (dataBitLength ip)"
    unfolding all bit_sum_entries by (rule s(3))
  have "resent_bits (maximumSendBlockBytes pool mtu) (dataBitLength ip) < 4294967289"
    using assms(1) by (intro resent_bits_bound) (simp add: splittable_def)
  then obtain m where m: "BuildPacket pool2 fresh ch time = Inr (Some m)" "dataBitLength m = bit_sum (m_fragments (splitPacketList ch))"
      "ip_data m = fragment_bytes (m_fragments (splitPacketList ch))"
      "reliability m = reliability (snd (hd (m_fragments (splitPacketList ch))))" "splitPacketCount m = 0"
    using BuildPacket_correct [of ch pool2 fresh time] res(3) bits by (auto simp: sort_has_def)
  have "hd (m_fragments (splitPacketList ch)) = entry G 0" unfolding all using n(1) by (simp add: hd_map upt_rec)
  then show ?thesis using res(1,2) m bits s(2) unfolding all fragment_bytes_entries by (auto simp: entry_def)
qed

text \<open>A message of three bytes sent with an MTU that leaves two bytes per fragment.\<close>

definition three_bytes :: InternalPacket where
  "three_bytes = demo_packet\<lparr>ip_data := [1, 2, 3], dataBitLength := 20\<rparr>"

theorem split_message_reassembled_witness:
  "\<exists>m. fragment_results 1 demo_packet 0 (\<lambda>_. 7) (map (\<lambda>i. (0, split_fragments demo_packet 34 9 4 three_bytes ! i)) [1, 0]) [] ! 1 =
      Inr (Some m) \<and> ip_data m = [1, 2, 3] \<and> dataBitLength m = 20"
proof -
  define fs where "fs = split_fragments demo_packet 34 9 4 three_bytes"
  have b: "maximumSendBlockBytes demo_packet 34 = 2"
    by (simp add: maximumSendBlockBytes_def GetMaxDatagramSizeExcludingMessageHeaderBytes_def GetDataHeaderByteLength_def
        GetMaxMessageHeaderLengthBits_def GetMessageHeaderLengthBits_def BITS_TO_BYTES_def w32_def
        is_reliable_def is_sequenced_def is_ordered_def)
  have sp: "splittable 34 demo_packet three_bytes"
    by (simp add: splittable_def b three_bytes_def BITS_TO_BYTES_def w32_def)
  have cnt: "split_count 2 3 = 2" by (simp add: split_count_eq)
  have len: "length fs = 2"
    unfolding fs_def by (simp add: split_fragments_def b three_bytes_def BITS_TO_BYTES_small Let_def cnt upt_rec)
  have f: "fragment_ok (fs ! 0)" "fragment_ok (fs ! 1)" "splitPacketId (fs ! 0) = 9" "splitPacketId (fs ! 1) = 9"
    unfolding fs_def
    by (simp_all add: split_fragments_def b three_bytes_def BITS_TO_BYTES_small Let_def cnt upt_rec split_fragment_def fragment_ok_def)
  have c: "carries (fs ! i) (fs ! i)" if "i < length fs" for i
    using that f less_2_cases [of i] by (auto simp: len carries_def)
  have e: "chans_ok []" "chan_of [] 9 = None" by (simp_all add: chans_ok_def ids_sorted_def chan_of_def)
  have o: "of_message 9 [(0, fs ! 1)] @ [fs ! 0] = map ((!) fs) [1, 0]" using f by (simp add: of_message_def)
  have "\<exists>m. fragment_results 1 demo_packet 0 (\<lambda>_. 7) ([(0, fs ! 1)] @ [(0, fs ! 0)]) [] ! length [(0 :: u64, fs ! 1)] =
      Inr (Some m) \<and> ip_data m = ip_data three_bytes \<and>
      dataBitLength m = resent_bits (maximumSendBlockBytes demo_packet 34) (dataBitLength three_bytes)"
    using split_message_reassembled [OF sp e, of "[(0, fs ! 1)]" "fs ! 0" "(!) fs" "[1, 0]" 4 1 demo_packet 0 "\<lambda>_. 7" 0,
      folded fs_def, OF _ o _ _ c] f(2) len
    by (simp del: fragment_results.simps add: lessThan_Suc numeral_2_eq_2 insert_commute) blast
  then show ?thesis
    unfolding fs_def [symmetric] by (simp add: three_bytes_def resent_bits_def b del: fragment_results.simps)
qed

text \<open>
  Property C17: no sequence of fragments, whatever counts, indices and lengths they claim, makes the
  reassembly write outside the buffer it allocated, as long as the fragments received add up to
  less than \<open>2\<^sup>3\<^sup>2 - 7\<close> bits.
\<close>

theorem reassembly_never_overruns:
  assumes "\<forall>a \<in> set as. fragment_ok (snd a)" "(\<Sum>a \<leftarrow> as. dataBitLength (snd a)) < 4294967289"
    and "r \<in> set (fragment_results interval pool stale fresh as [])"
  shows "r \<noteq> Inl BufferOverrun"
  using fragment_results_safe [of "[]" as 0 r interval pool stale fresh] assms
  by (auto simp: chans_ok_def ids_sorted_def chan_of_def)

theorem reassembly_never_overruns_witness:
  "hd (fragment_results 1 demo_packet 0 (\<lambda>_. 7) [(0, demo_packet\<lparr>splitPacketCount := 1\<rparr>)] []) \<noteq> Inl BufferOverrun"
  by (rule reassembly_never_overruns [of "[(0, demo_packet\<lparr>splitPacketCount := 1\<rparr>)]"])
    (simp_all add: fragment_ok_def demo_packet_def BITS_TO_BYTES_def w32_def Let_def)

text \<open>
  Property C38: the guard of \<^verbatim>\<open>BuildPacketFromSplitPacketList\<close> is not tight: it refuses sums that do not fit
  32 bits, but a complete set of fragments with a sum of \<open>2\<^sup>3\<^sup>2 - 7\<close> to \<open>2\<^sup>3\<^sup>2 - 1\<close> bits passes it, the size
  of the buffer in bytes wraps to zero, and the first copy is outside the buffer.
\<close>

theorem reassembly_overrun_at_wrap:
  assumes "sort_ok (splitPacketList c)" "m_fragments (splitPacketList c) = f # fs" "0 < dataBitLength (snd f)"
    and "4294967289 \<le> bit_sum (f # fs)" "bit_sum (f # fs) < 4294967296"
  shows "BuildPacket pool fresh c time = Inl BufferOverrun"
proof -
  have t: "total_bits (f # fs) = bit_sum (f # fs)" using assms(5) by (simp add: total_bits_sum)
  define d where "d = bit_sum (f # fs) - 4294967289"
  then have d: "bit_sum (f # fs) = 4294967289 + d" "d < 7" using assms(4,5) by linarith+
  have "BITS_TO_BYTES (bit_sum (f # fs)) = 0" using d by (simp add: BITS_TO_BYTES_def w32_def)
  moreover have "0 < BITS_TO_BYTES (dataBitLength (snd f))"
    using sort_ok_fragments [OF assms(1), of f] assms(2,3) by (simp add: fragment_ok_def BITS_TO_BYTES_small)
  ultimately have "copy_fragments (f # fs) 0 (map fresh [0..<BITS_TO_BYTES (bit_sum (f # fs))]) = None"
    by (simp add: Let_def)
  then show ?thesis
    using assms(2,5) t by (simp add: BuildPacket_def CreateInternalPacketCopy_def Let_def)
qed

text \<open>383754 fragments of at most 1399 bytes, each small enough for a datagram, are such a set.\<close>

definition huge_fragment :: "nat \<Rightarrow> InternalPacket" where
  "huge_fragment i = demo_packet\<lparr>splitPacketIndex := of_nat i, splitPacketCount := 383754,
    dataBitLength := (if i < 383753 then 11192 else 3719), ip_data := replicate 1399 0\<rparr>"

definition huge_channel :: SplitPacketChannel where
  "huge_channel = \<lparr>lastUpdateTime = 0, splitPacketList = \<lparr>m_fragments = map (entry huge_fragment) [0..<383754],
    m_count = 383754, m_packetId = 0\<rparr>, firstPacket = None\<rparr>"

lemma huge_bits: "bit_sum (map (entry huge_fragment) [0..<383754]) = 4294967295"
proof -
  have "[0..<383754 :: nat] = [0..<383753] @ [383753]" by (simp add: upt_Suc_append [of 0 383753, simplified])
  moreover have "map (\<lambda>i. dataBitLength (huge_fragment i)) [0..<383753] = replicate 383753 11192"
    by (rule nth_equalityI) (simp_all add: huge_fragment_def)
  ultimately show ?thesis unfolding bit_sum_entries by (simp add: sum_list_replicate huge_fragment_def)
qed

theorem reassembly_overrun_at_wrap_witness:
  "BuildPacket demo_packet (\<lambda>_. 0) huge_channel 0 = Inl BufferOverrun"
proof -
  let ?fs = "map (entry huge_fragment) [0..<383754]"
  have fs: "?fs = entry huge_fragment 0 # map (entry huge_fragment) [1..<383754]" by (subst upt_conv_Cons) simp_all
  have "sort_ok (splitPacketList huge_channel)"
    unfolding sort_ok_def
  proof (intro conjI ballI)
    show "keys_sorted (m_fragments (splitPacketList huge_channel))"
      using entries_sorted [of 383754 huge_fragment] by (simp add: huge_channel_def del: upt_Suc)
    fix f assume "f \<in> set (m_fragments (splitPacketList huge_channel))"
    then obtain i where i: "i < 383754" "f = entry huge_fragment i" by (auto simp: huge_channel_def)
    have u: "unat (of_nat i :: u32) = i" "unat (of_nat (Suc i) :: u32) = Suc i"
      using i(1) by (auto intro!: unat_of_nat_id simp del: of_nat_Suc)
    have n: "unat (383754 :: u32) = 383754" using unat_of_nat_id [of 383754, where 'a = 32] by simp
    have lt: "(of_nat i :: u32) < 383754" "(of_nat i + 1 :: u32) < 383754 \<Longrightarrow> i < 383753"
      using i(1) u by (simp_all only: word_less_nat_alt n) (simp add: add.commute)
    show "case f of (i, ip) \<Rightarrow> splitPacketIndex ip = i \<and> i < m_count (splitPacketList huge_channel) \<and>
        splitPacketCount ip = m_count (splitPacketList huge_channel) \<and>
        splitPacketId ip = m_packetId (splitPacketList huge_channel) \<and>
        (i + 1 < m_count (splitPacketList huge_channel) \<longrightarrow> dataBitLength ip mod 8 = 0) \<and> fragment_ok ip"
      using i lt by (simp add: entry_def huge_fragment_def huge_channel_def fragment_ok_def BITS_TO_BYTES_small demo_packet_def)
  qed
  then show ?thesis
    by (rule reassembly_overrun_at_wrap [where f = "entry huge_fragment 0" and fs = "map (entry huge_fragment) [1..<383754]"])
      (use huge_bits in \<open>simp_all only: fs [symmetric], simp_all add: huge_channel_def entry_def huge_fragment_def\<close>)
qed

end
