(* ===== verification/Packet_Ring.thy ===== *)
theory Packet_Ring
  imports Internal_Packet
begin

text \<open>
  The intrusive circular lists of \<^verbatim>\<open>ReliabilityLayer\<close>: the resend list (\<^verbatim>\<open>resendLinkedListHead\<close> with
  \<^verbatim>\<open>resendNext\<close> and \<^verbatim>\<open>resendPrev\<close>) and the list of unreliable messages (\<^verbatim>\<open>unreliableLinkedListHead\<close>).  A
  packet is an address; the links are two maps from addresses to addresses, updated one assignment
  after the other as in the code.  The abstraction is the list of packets from the head on.
\<close>

section \<open>Operations on the links\<close>

type_synonym ptr = nat

record Ring =
  ring_head :: "ptr option"
  ring_next :: "ptr \<Rightarrow> ptr"
  ring_prev :: "ptr \<Rightarrow> ptr"

definition set_next :: "ptr \<Rightarrow> ptr \<Rightarrow> Ring \<Rightarrow> Ring" where
  "set_next a b r = r\<lparr>ring_next := (ring_next r)(a := b)\<rparr>"

definition set_prev :: "ptr \<Rightarrow> ptr \<Rightarrow> Ring \<Rightarrow> Ring" where
  "set_prev a b r = r\<lparr>ring_prev := (ring_prev r)(a := b)\<rparr>"

definition ring_singleton :: "ptr \<Rightarrow> Ring \<Rightarrow> Ring" where
  "ring_singleton p r = (set_prev p p (set_next p p r))\<lparr>ring_head := Some p\<rparr>"

definition AddToListTail_links :: "ptr \<Rightarrow> Ring \<Rightarrow> Ring" where
  "AddToListTail_links p r =
    (case ring_head r of
       None \<Rightarrow> ring_singleton p r
     | Some h \<Rightarrow>
         let r1 = set_next p h r;
             r2 = set_prev p (ring_prev r1 h) r1;
             r3 = set_next (ring_prev r2 p) p r2
         in set_prev h p r3)"

definition unlink :: "ptr \<Rightarrow> Ring \<Rightarrow> Ring" where
  "unlink p r =
    (let r1 = set_next (ring_prev r p) (ring_next r p) r
     in set_prev (ring_next r1 p) (ring_prev r1 p) r1)"

definition RemoveFromList_links :: "ptr \<Rightarrow> Ring \<Rightarrow> Ring" where
  "RemoveFromList_links p r =
    (let r1 = unlink p r;
         newPosition = ring_next r1 p;
         r2 = (if ring_head r1 = Some p then r1\<lparr>ring_head := Some newPosition\<rparr> else r1)
     in if ring_head r2 = Some p then r2\<lparr>ring_head := None\<rparr> else r2)"

definition MoveToListHead :: "ptr \<Rightarrow> Ring \<Rightarrow> Ring" where
  "MoveToListHead p r =
    (case ring_head r of
       None \<Rightarrow> ring_singleton p r
     | Some h \<Rightarrow>
         if p = h then r
         else
           let r1 = unlink p r;
               r2 = set_next p h r1;
               r3 = set_prev p (ring_prev r2 h) r2;
               r4 = set_next (ring_prev r3 p) p r3
           in (set_prev h p r4)\<lparr>ring_head := Some p\<rparr>)"

definition unreliable_class :: "Reliability \<Rightarrow> bool" where
  "unreliable_class r \<longleftrightarrow> r = Unreliable \<or> r = UnreliableSequenced \<or> r = UnreliableWithAckReceipt"

definition AddToUnreliableLinkedList :: "Reliability \<Rightarrow> ptr \<Rightarrow> Ring \<Rightarrow> Ring" where
  "AddToUnreliableLinkedList rel p r = (if unreliable_class rel then AddToListTail_links p r else r)"

definition RemoveFromUnreliableLinkedList :: "Reliability \<Rightarrow> ptr \<Rightarrow> Ring \<Rightarrow> Ring" where
  "RemoveFromUnreliableLinkedList rel p r = (if unreliable_class rel then RemoveFromList_links p r else r)"

section \<open>The list a ring stands for\<close>

fun chain :: "(ptr \<Rightarrow> ptr) \<Rightarrow> (ptr \<Rightarrow> ptr) \<Rightarrow> ptr list \<Rightarrow> bool" where
  "chain nx pv (a # b # xs) \<longleftrightarrow> nx a = b \<and> pv b = a \<and> chain nx pv (b # xs)"
| "chain nx pv _ \<longleftrightarrow> True"

definition ring_rep :: "Ring \<Rightarrow> ptr list \<Rightarrow> bool" where
  "ring_rep r xs \<longleftrightarrow> distinct xs \<and>
    (if xs = [] then ring_head r = None
     else ring_head r = Some (hd xs) \<and> chain (ring_next r) (ring_prev r) (xs @ [hd xs]))"

lemma chain_append: "chain nx pv (xs @ a # ys) \<longleftrightarrow> chain nx pv (xs @ [a]) \<and> chain nx pv (a # ys)"
  by (induction nx pv xs rule: chain.induct) (cases ys; simp)+

lemma chain_append2: "xs \<noteq> [] \<Longrightarrow> ys \<noteq> [] \<Longrightarrow>
    chain nx pv (xs @ ys) \<longleftrightarrow> chain nx pv xs \<and> nx (last xs) = hd ys \<and> pv (hd ys) = last xs \<and> chain nx pv ys"
proof (induction xs rule: list_nonempty_induct)
  case (single a)
  then show ?case by (cases ys) auto
next
  case (cons a xs)
  then show ?case by (cases xs) auto
qed

text \<open>The links used by a chain: the next links of all but its last, the previous links of all but its first element.\<close>

lemma chain_cong:
  "(\<And>a. a \<in> set (butlast xs) \<Longrightarrow> nx' a = nx a) \<Longrightarrow> (\<And>a. a \<in> set (tl xs) \<Longrightarrow> pv' a = pv a) \<Longrightarrow>
    chain nx' pv' xs = chain nx pv xs"
  by (induction nx pv xs rule: chain.induct) auto

lemma ring_rep_links:
  assumes "ring_rep r xs" "xs \<noteq> []"
  shows "chain (ring_next r) (ring_prev r) xs" "ring_next r (last xs) = hd xs" "ring_prev r (hd xs) = last xs"
    "ring_head r = Some (hd xs)" "distinct xs"
  using assms chain_append2 [of xs "[hd xs]"] by (auto simp: ring_rep_def)

lemma ring_repI:
  assumes "distinct xs" "xs \<noteq> []" "ring_head r = Some (hd xs)" "chain (ring_next r) (ring_prev r) xs"
    "ring_next r (last xs) = hd xs" "ring_prev r (hd xs) = last xs"
  shows "ring_rep r xs"
  using assms chain_append2 [of xs "[hd xs]"] by (auto simp: ring_rep_def)

lemma distinct_butlast_last: "distinct xs \<Longrightarrow> a \<in> set (butlast xs) \<Longrightarrow> a \<noteq> last xs"
  by (cases xs rule: rev_cases) auto

lemma distinct_tl_hd: "distinct xs \<Longrightarrow> a \<in> set (tl xs) \<Longrightarrow> a \<noteq> hd xs"
  by (cases xs) auto

text \<open>The links of a list between a new packet and the end of the ring.\<close>

lemma insert_before_head:
  assumes rep: "ring_rep r xs" and ne: "xs \<noteq> []" and p: "p \<notin> set xs"
    and nx: "ring_next r' = (ring_next r)(p := hd xs, last xs := p)"
    and pv: "ring_prev r' = (ring_prev r)(p := last xs, hd xs := p)"
  shows "chain (ring_next r') (ring_prev r') (xs @ [p, hd xs])" "chain (ring_next r') (ring_prev r') (p # xs @ [p])"
proof -
  note l = ring_rep_links [OF rep ne]
  have hl: "hd xs \<noteq> p" "last xs \<noteq> p" using p ne by auto
  have "ring_next r' a = ring_next r a" if "a \<in> set (butlast xs)" for a
    using that p distinct_butlast_last [OF l(5) that] in_set_butlastD [OF that] by (auto simp: nx)
  moreover have "ring_prev r' a = ring_prev r a" if "a \<in> set (tl xs)" for a
    using that p distinct_tl_hd [OF l(5) that] list.set_sel(2) [OF ne that] by (auto simp: pv)
  ultimately have "chain (ring_next r') (ring_prev r') xs" using chain_cong l(1) by blast
  moreover have "ring_next r' (last xs) = p" "ring_prev r' (hd xs) = p" "ring_next r' p = hd xs" "ring_prev r' p = last xs"
    using hl by (simp_all add: nx pv)
  ultimately show "chain (ring_next r') (ring_prev r') (xs @ [p, hd xs])" "chain (ring_next r') (ring_prev r') (p # xs @ [p])"
    using ne chain_append2 [of xs "[p, hd xs]" "ring_next r'" "ring_prev r'"] chain_append2 [of xs "[p]" "ring_next r'" "ring_prev r'"]
    by (auto simp: neq_Nil_conv)
qed

lemma ring_singleton_rep: "ring_rep (ring_singleton p r) [p]"
  by (simp add: ring_rep_def ring_singleton_def set_next_def set_prev_def)

lemma AddToListTail_links_rep:
  assumes rep: "ring_rep r xs" and p: "p \<notin> set xs"
  shows "ring_rep (AddToListTail_links p r) (xs @ [p])"
proof (cases "xs = []")
  case True
  then show ?thesis using rep ring_singleton_rep by (simp add: ring_rep_def AddToListTail_links_def)
next
  case False
  note l = ring_rep_links [OF rep False]
  have hl: "hd xs \<noteq> p" "last xs \<noteq> p" using p False by auto
  let ?r = "AddToListTail_links p r"
  have r: "ring_next ?r = (ring_next r)(p := hd xs, last xs := p)" "ring_prev ?r = (ring_prev r)(p := last xs, hd xs := p)"
      "ring_head ?r = Some (hd xs)"
    using l hl by (simp_all add: AddToListTail_links_def set_next_def set_prev_def Let_def)
  show ?thesis
    using insert_before_head(1) [OF rep False p r(1,2)] l p r(3) False by (simp add: ring_rep_def)
qed

text \<open>Closing the gap that a packet leaves.\<close>

lemma unlink_rep:
  assumes rep: "ring_rep r (ys @ p # zs)" and ne: "ys @ zs \<noteq> []"
  shows "ring_rep ((unlink p r)\<lparr>ring_head := Some (hd (ys @ zs))\<rparr>) (ys @ zs)"
    "ring_next (unlink p r) p = hd (zs @ ys)" "ring_head (unlink p r) = ring_head r"
proof -
  let ?nx = "ring_next r" and ?pv = "ring_prev r" and ?xs = "ys @ p # zs"
  note l = ring_rep_links [OF rep, simplified]
  have d: "distinct ys" "distinct zs" "p \<notin> set ys" "p \<notin> set zs" "set ys \<inter> set zs = {}" using l(5) by auto
  have links: "?nx p = hd (zs @ ys)" "?pv p = last (zs @ ys)"
  proof -
    have "chain ?nx ?pv (?xs @ [hd ?xs])" using rep by (simp add: ring_rep_def)
    then have c: "chain ?nx ?pv (p # zs @ [hd ?xs])" and c': "chain ?nx ?pv (ys @ [p])"
      using chain_append [of ?nx ?pv ys p "zs @ [hd ?xs]"] by simp_all
    show "?nx p = hd (zs @ ys)" using c ne by (cases zs; cases ys) auto
    show "?pv p = last (zs @ ys)"
    proof (cases "ys = []")
      case True
      then show ?thesis using l(3) ne by simp
    next
      case False
      then show ?thesis using c' chain_append2 [of ys "[p]" ?nx ?pv] by simp
    qed
  qed
  let ?a = "last (zs @ ys)" and ?b = "hd (zs @ ys)"
  have ab: "?a \<noteq> p" "?b \<noteq> p" using ne d last_in_set [of "zs @ ys"] hd_in_set [of "zs @ ys"] by auto
  have u: "ring_next (unlink p r) = ?nx(?a := ?b)" "ring_prev (unlink p r) = ?pv(?b := ?a)"
    using ab by (simp_all add: unlink_def set_next_def set_prev_def Let_def links)
  show "ring_next (unlink p r) p = hd (zs @ ys)" using ab by (simp add: u links)
  show "ring_head (unlink p r) = ring_head r" by (simp add: unlink_def set_next_def set_prev_def Let_def)
  have cz: "chain ?nx ?pv zs" and cy: "chain ?nx ?pv ys"
    using l(1) chain_append2 [of ys "p # zs" ?nx ?pv] chain_append2 [of "[p]" zs ?nx ?pv] by (cases "ys = []"; cases "zs = []"; simp)+
  have cy': "chain (?nx(?a := ?b)) (?pv(?b := ?a)) ys"
  proof (rule iffD2 [OF chain_cong cy])
    show "(?nx(?a := ?b)) x = ?nx x" if "x \<in> set (butlast ys)" for x
      using that distinct_butlast_last [OF d(1) that] by (cases "ys = []") auto
    show "(?pv(?b := ?a)) x = ?pv x" if "x \<in> set (tl ys)" for x
      using that distinct_tl_hd [OF d(1) that] d(5) list.set_sel(2) [of ys x] hd_in_set [of zs] by (cases "zs = []"; cases "ys = []") auto
  qed
  have cz': "chain (?nx(?a := ?b)) (?pv(?b := ?a)) zs"
  proof (rule iffD2 [OF chain_cong cz])
    show "(?nx(?a := ?b)) x = ?nx x" if "x \<in> set (butlast zs)" for x
    proof -
      have "x \<in> set zs" "x \<noteq> last zs" using that distinct_butlast_last [OF d(2) that] in_set_butlastD by metis+
      moreover have "ys \<noteq> [] \<Longrightarrow> last ys \<notin> set zs" using d(5) last_in_set by blast
      ultimately show ?thesis by (cases "ys = []") auto
    qed
    show "(?pv(?b := ?a)) x = ?pv x" if "x \<in> set (tl zs)" for x
      using that distinct_tl_hd [OF d(2) that] by (cases "zs = []") auto
  qed
  have whole: "chain (?nx(?a := ?b)) (?pv(?b := ?a)) (ys @ zs)"
  proof (cases "ys = [] \<or> zs = []")
    case False
    then show ?thesis using cy' cz' chain_append2 [of ys zs "?nx(?a := ?b)" "?pv(?b := ?a)"] by simp
  qed (use cy' cz' in auto)
  have close: "(?nx(?a := ?b)) (last (ys @ zs)) = hd (ys @ zs) \<and> (?pv(?b := ?a)) (hd (ys @ zs)) = last (ys @ zs)"
  proof (cases "ys = [] \<or> zs = []")
    case False
    then have "hd ys \<noteq> hd zs" "last ys \<noteq> last zs" using d(5) hd_in_set [of ys] hd_in_set [of zs] last_in_set by fastforce+
    then show ?thesis using False l(2,3) by simp
  qed auto
  show "ring_rep ((unlink p r)\<lparr>ring_head := Some (hd (ys @ zs))\<rparr>) (ys @ zs)"
    by (rule ring_repI) (use ne d whole close in \<open>auto simp: u\<close>)
qed

lemma RemoveFromList_links_rep:
  assumes rep: "ring_rep r xs" and p: "p \<in> set xs"
  shows "ring_rep (RemoveFromList_links p r) (remove1 p xs)"
proof -
  obtain ys zs where xs: "xs = ys @ p # zs" "p \<notin> set ys" using p by (metis split_list_first)
  have pz: "p \<notin> set zs" using rep xs by (auto simp: ring_rep_def)
  have rm: "remove1 p xs = ys @ zs" using xs by (simp add: remove1_append)
  have h: "ring_head r = Some (hd xs)" using rep xs by (auto simp: ring_rep_def)
  show ?thesis
  proof (cases "ys @ zs = []")
    case True
    then have "ring_next r p = p" "ring_prev r p = p" "ring_head r = Some p" using rep xs by (auto simp: ring_rep_def)
    then have "ring_head (RemoveFromList_links p r) = None"
      by (simp add: RemoveFromList_links_def unlink_def set_next_def set_prev_def Let_def)
    then show ?thesis using True rm by (simp add: ring_rep_def)
  next
    case False
    note u = unlink_rep [OF rep [unfolded xs(1)] False]
    have "ring_next (unlink p r) p \<noteq> p" using u(2) False xs(2) pz hd_in_set [of "zs @ ys"] by auto
    then have "RemoveFromList_links p r = (unlink p r)\<lparr>ring_head := Some (hd (ys @ zs))\<rparr>"
      using u(2,3) h xs False by (cases ys) (auto simp: RemoveFromList_links_def Let_def)
    then show ?thesis using u(1) rm by simp
  qed
qed

lemma MoveToListHead_rep:
  assumes rep: "ring_rep r xs" and p: "p \<in> set xs"
  shows "ring_rep (MoveToListHead p r) (p # remove1 p xs)"
proof -
  obtain ys zs where xs: "xs = ys @ p # zs" "p \<notin> set ys" using p by (metis split_list_first)
  have pz: "p \<notin> set zs" using rep xs by (auto simp: ring_rep_def)
  have rm: "remove1 p xs = ys @ zs" using xs by (simp add: remove1_append)
  have h: "ring_head r = Some (hd xs)" using rep xs by (auto simp: ring_rep_def)
  show ?thesis
  proof (cases "ys = []")
    case True
    then show ?thesis using h xs rep by (simp add: MoveToListHead_def)
  next
    case False
    let ?r = "(unlink p r)\<lparr>ring_head := Some (hd (ys @ zs))\<rparr>" and ?m = "MoveToListHead p r"
    have ne: "ys @ zs \<noteq> []" using False by simp
    note u = unlink_rep [OF rep [unfolded xs(1)] ne]
    note l = ring_rep_links [OF u(1) ne]
    have np: "p \<notin> set (ys @ zs)" using xs(2) pz by simp
    have hl: "hd (ys @ zs) \<noteq> p" "last (ys @ zs) \<noteq> p" using np ne hd_in_set last_in_set by metis+
    have hx: "hd xs = hd (ys @ zs)" using xs False by simp
    have m: "ring_next ?m = (ring_next ?r)(p := hd (ys @ zs), last (ys @ zs) := p)"
        "ring_prev ?m = (ring_prev ?r)(p := last (ys @ zs), hd (ys @ zs) := p)" "ring_head ?m = Some p"
      using l(3) hl h hx by (simp_all add: MoveToListHead_def set_next_def set_prev_def Let_def)
    show ?thesis
      using insert_before_head(2) [OF u(1) ne np m(1,2)] m(3) rm np l(5) by (simp add: ring_rep_def)
  qed
qed

text \<open>
  Property C23: the intrusive circular lists are sequences of packets: adding at the tail appends, removing
  any packet of the list takes out exactly that packet, and moving to the head puts it first; the
  link structure stays a ring in both directions, down to the empty and the one element list.
\<close>

theorem ring_refines_sequence:
  assumes "ring_rep r xs"
  shows "(p \<notin> set xs \<longrightarrow> ring_rep (AddToListTail_links p r) (xs @ [p])) \<and>
    (p \<in> set xs \<longrightarrow> ring_rep (RemoveFromList_links p r) (remove1 p xs) \<and>
      ring_rep (MoveToListHead p r) (p # remove1 p xs))"
  using AddToListTail_links_rep RemoveFromList_links_rep MoveToListHead_rep assms by blast

theorem ring_refines_sequence_witness:
  "ring_rep (RemoveFromList_links 3 (AddToListTail_links 4 (ring_singleton 3 \<lparr>ring_head = None, ring_next = id, ring_prev = id\<rparr>))) [4]"
proof -
  let ?r = "ring_singleton 3 \<lparr>ring_head = None, ring_next = id, ring_prev = id\<rparr>"
  have "ring_rep (AddToListTail_links 4 ?r) [3, 4]"
    using ring_refines_sequence [OF ring_singleton_rep [of 3], of 4] by simp
  from ring_refines_sequence [OF this, of 3] show ?thesis by simp
qed

end
