(* ===== verification/Resend_List.thy ===== *)
theory Resend_List
  imports Packet_Ring Message_Format "HOL-Library.Multiset"
begin

text \<open>
  Messages waiting for an acknowledgement: the resend list (a ring of packets in the order in which
  they are due), the array \<^verbatim>\<open>resendBuffer\<close> that finds a packet by its message number, and the counters
  kept beside them.  Operations: a message is sent for the first time (part of \<^verbatim>\<open>UpdateInternal\<close>), sent
  again, acknowledged (\<^verbatim>\<open>RemovePacketFromResendListAndDeleteOlderReliableSequenced\<close>) or reported missing.
  \<open>rs_mem\<close> is the memory the packets live in.
\<close>

section \<open>State and operations\<close>

definition RESEND_BUFFER_ARRAY_LENGTH :: nat where
  "RESEND_BUFFER_ARRAY_LENGTH = 512"

definition RESEND_BUFFER_ARRAY_MASK :: u24 where
  "RESEND_BUFFER_ARRAY_MASK = 0x1FF"

record ResendState =
  rs_mem :: "ptr \<Rightarrow> InternalPacket"
  rs_ring :: Ring
  resendBuffer :: "ptr option list"
  unacknowledgedBytes :: u32
  messagesInResendBuffer :: u32
  bytesInResendBuffer :: u64
  sendReliableMessageNumberIndex :: u24

definition ResendState_new :: "(ptr \<Rightarrow> InternalPacket) \<Rightarrow> Ring \<Rightarrow> ResendState" where
  "ResendState_new mem ring =
    \<lparr>rs_mem = mem, rs_ring = ring\<lparr>ring_head := None\<rparr>, resendBuffer = replicate RESEND_BUFFER_ARRAY_LENGTH None,
     unacknowledgedBytes = 0, messagesInResendBuffer = 0, bytesInResendBuffer = 0, sendReliableMessageNumberIndex = 0\<rparr>"

definition buffer_index :: "u24 \<Rightarrow> nat" where
  "buffer_index messageNumber = unat (and messageNumber RESEND_BUFFER_ARRAY_MASK)"

definition packet_bytes :: "InternalPacket \<Rightarrow> nat" where
  "packet_bytes ip = BITS_TO_BYTES (w32 (headerLength ip + dataBitLength ip))"

definition RemoveFromList :: "ptr \<Rightarrow> bool \<Rightarrow> ResendState \<Rightarrow> ResendState" where
  "RemoveFromList p modifyUnacknowledgedBytes st =
    (let st1 = st\<lparr>rs_ring := RemoveFromList_links p (rs_ring st)\<rparr>
     in if modifyUnacknowledgedBytes
        then st1\<lparr>unacknowledgedBytes := unacknowledgedBytes st1 - of_nat (packet_bytes (rs_mem st1 p))\<rparr> else st1)"

definition AddToListTail :: "ptr \<Rightarrow> bool \<Rightarrow> ResendState \<Rightarrow> ResendState" where
  "AddToListTail p modifyUnacknowledgedBytes st =
    (let st1 = (if modifyUnacknowledgedBytes
                then st\<lparr>unacknowledgedBytes := unacknowledgedBytes st + of_nat (packet_bytes (rs_mem st p))\<rparr> else st)
     in st1\<lparr>rs_ring := AddToListTail_links p (rs_ring st1)\<rparr>)"

definition PopListHead :: "bool \<Rightarrow> ResendState \<Rightarrow> ResendState" where
  "PopListHead modifyUnacknowledgedBytes st =
    (case ring_head (rs_ring st) of
       None \<Rightarrow> st
     | Some p \<Rightarrow> RemoveFromList p modifyUnacknowledgedBytes st)"

definition IsResendQueueEmpty :: "ResendState \<Rightarrow> bool" where
  "IsResendQueueEmpty st \<longleftrightarrow> ring_head (rs_ring st) = None"

definition InsertPacketIntoResendList :: "ptr \<Rightarrow> bool \<Rightarrow> ResendState \<Rightarrow> ResendState" where
  "InsertPacketIntoResendList p modifyUnacknowledgedBytes st = AddToListTail p modifyUnacknowledgedBytes st"

definition ResendBufferOverflow :: "ResendState \<Rightarrow> bool" where
  "ResendBufferOverflow st \<longleftrightarrow> resendBuffer st ! buffer_index (sendReliableMessageNumberIndex st) \<noteq> None"

text \<open>The first transmission of a reliable message; \<open>rto\<close> is \<^verbatim>\<open>GetRTOForRetransmission\<close> of the congestion manager.\<close>

definition first_transmission :: "(u8 \<Rightarrow> u64) \<Rightarrow> u64 \<Rightarrow> ptr \<Rightarrow> ResendState \<Rightarrow> ResendState" where
  "first_transmission rto time p st =
    (let ip = rs_mem st p;
         ip1 = ip\<lparr>messageNumberAssigned := True, reliableMessageNumber := sendReliableMessageNumberIndex st,
                  retransmissionTime := rto (timesSent ip + 1), nextActionTime := rto (timesSent ip + 1) + time\<rparr>;
         st1 = st\<lparr>rs_mem := (rs_mem st)(p := ip1),
                  resendBuffer := (resendBuffer st)[buffer_index (reliableMessageNumber ip1) := Some p],
                  messagesInResendBuffer := messagesInResendBuffer st + 1,
                  bytesInResendBuffer := bytesInResendBuffer st + of_nat (BITS_TO_BYTES (dataBitLength ip1))\<rparr>;
         st2 = InsertPacketIntoResendList p True st1
     in st2\<lparr>sendReliableMessageNumberIndex := sendReliableMessageNumberIndex st2 + 1\<rparr>)"

text \<open>The head of the resend list is sent once more and put back at the tail.\<close>

definition retransmission :: "(u8 \<Rightarrow> u64) \<Rightarrow> u64 \<Rightarrow> ResendState \<Rightarrow> ResendState" where
  "retransmission rto time st =
    (case ring_head (rs_ring st) of
       None \<Rightarrow> st
     | Some p \<Rightarrow>
         let st1 = PopListHead False st;
             ip = rs_mem st1 p;
             n = timesSent ip + 1;
             ip1 = ip\<lparr>timesSent := n, retransmissionTime := rto n, nextActionTime := rto n + time\<rparr>
         in InsertPacketIntoResendList p False (st1\<lparr>rs_mem := (rs_mem st1)(p := ip1)\<rparr>))"

definition receipt :: "u8 \<Rightarrow> InternalPacket \<Rightarrow> u32 \<Rightarrow> InternalPacket" where
  "receipt messageId pool serial =
    (AllocateFromInternalPacketPool pool)\<lparr>allocationScheme := NORMAL, dataBitLength := BYTES_TO_BITS 5,
       ip_data := messageId # le_bytes serial\<rparr>"

definition wants_receipt :: "InternalPacket \<Rightarrow> bool" where
  "wants_receipt ip \<longleftrightarrow> reliability_code (reliability ip) \<ge> reliability_code ReliableWithAckReceipt \<and>
    (splitPacketCount ip = 0 \<or> splitPacketIndex ip + 1 = splitPacketCount ip)"

text \<open>The first component is what is pushed to \<^verbatim>\<open>outputQueue\<close>.\<close>

definition RemovePacketFromResendList :: "InternalPacket \<Rightarrow> u24 \<Rightarrow> ResendState \<Rightarrow> InternalPacket list \<times> ResendState" where
  "RemovePacketFromResendList pool messageNumber st =
    (case resendBuffer st ! buffer_index messageNumber of
       None \<Rightarrow> ([], st)
     | Some p \<Rightarrow>
         let ip = rs_mem st p
         in if reliableMessageNumber ip = messageNumber then
              (if wants_receipt ip then [receipt ID_SND_RECEIPT_ACKED pool (sendReceiptSerial ip)] else [],
               RemoveFromList p (is_reliable (reliability ip))
                 (st\<lparr>resendBuffer := (resendBuffer st)[buffer_index messageNumber := None],
                     messagesInResendBuffer := messagesInResendBuffer st - 1,
                     bytesInResendBuffer := bytesInResendBuffer st - of_nat (BITS_TO_BYTES (dataBitLength ip))\<rparr>))
            else ([], st))"

text \<open>A message of a datagram reported missing is due at once.\<close>

definition nak_message :: "u64 \<Rightarrow> u24 \<Rightarrow> ResendState \<Rightarrow> ResendState" where
  "nak_message timeRead messageNumber st =
    (case resendBuffer st ! buffer_index messageNumber of
       None \<Rightarrow> st
     | Some p \<Rightarrow>
         if nextActionTime (rs_mem st p) \<noteq> 0
         then st\<lparr>rs_mem := (rs_mem st)(p := (rs_mem st p)\<lparr>nextActionTime := timeRead\<rparr>)\<rparr> else st)"

section \<open>Invariant\<close>

definition slot :: "ResendState \<Rightarrow> ptr \<Rightarrow> nat" where
  "slot st p = buffer_index (reliableMessageNumber (rs_mem st p))"

definition resend_inv :: "ResendState \<Rightarrow> ptr list \<Rightarrow> bool" where
  "resend_inv st xs \<longleftrightarrow> ring_rep (rs_ring st) xs \<and> length (resendBuffer st) = RESEND_BUFFER_ARRAY_LENGTH \<and>
    (\<forall>i < RESEND_BUFFER_ARRAY_LENGTH. \<forall>p. resendBuffer st ! i = Some p \<longleftrightarrow> p \<in> set xs \<and> slot st p = i) \<and>
    (\<forall>p \<in> set xs. is_reliable (reliability (rs_mem st p))) \<and>
    messagesInResendBuffer st = of_nat (length xs) \<and>
    bytesInResendBuffer st = of_nat (\<Sum>p \<leftarrow> xs. BITS_TO_BYTES (dataBitLength (rs_mem st p))) \<and>
    unacknowledgedBytes st = of_nat (\<Sum>p \<leftarrow> xs. packet_bytes (rs_mem st p))"

lemma buffer_index_mod: "buffer_index n = unat n mod 512"
proof -
  have "and n 0x1FF = take_bit 9 n" by (simp add: take_bit_eq_mask mask_eq_exp_minus_1)
  then show ?thesis
    by (simp add: buffer_index_def RESEND_BUFFER_ARRAY_MASK_def take_bit_eq_mod unat_mod_distrib)
qed

lemma buffer_index_less: "buffer_index n < RESEND_BUFFER_ARRAY_LENGTH"
  by (simp add: buffer_index_mod RESEND_BUFFER_ARRAY_LENGTH_def)

lemma sum_list_remove1:
  "p \<in> set xs \<Longrightarrow> (\<Sum>x \<leftarrow> remove1 p xs. f x) + f p = (\<Sum>x \<leftarrow> xs. f x :: nat)"
  by (induction xs) auto

lemma of_nat_sum_remove1:
  "p \<in> set xs \<Longrightarrow> of_nat (\<Sum>x \<leftarrow> remove1 p xs. f x) = (of_nat (\<Sum>x \<leftarrow> xs. f x) :: 'a::len word) - of_nat (f p)"
  using sum_list_remove1 [of p xs f] by (metis add_diff_cancel_right' of_nat_add)

lemma resend_inv_slot:
  "resend_inv st xs \<Longrightarrow> p \<in> set xs \<Longrightarrow> resendBuffer st ! slot st p = Some p"
  using buffer_index_less by (auto simp: resend_inv_def slot_def)

lemma resend_inv_lookup:
  "resend_inv st xs \<Longrightarrow> resendBuffer st ! buffer_index n = Some p \<longleftrightarrow> p \<in> set xs \<and> slot st p = buffer_index n"
  using buffer_index_less by (auto simp: resend_inv_def)

section \<open>The operations keep the invariant\<close>

lemma resend_inv_new: "resend_inv (ResendState_new mem ring) []"
  by (simp add: resend_inv_def ResendState_new_def ring_rep_def)

lemma resend_inv_bound:
  assumes "resend_inv st xs"
  shows "length xs \<le> RESEND_BUFFER_ARRAY_LENGTH"
proof -
  have d: "distinct xs" using assms by (auto simp: resend_inv_def ring_rep_def)
  have "inj_on (slot st) (set xs)" using resend_inv_slot [OF assms] by (metis inj_onI option.inject)
  moreover have "slot st ` set xs \<subseteq> {..<RESEND_BUFFER_ARRAY_LENGTH}" using buffer_index_less by (auto simp: slot_def)
  ultimately have "card (set xs) \<le> RESEND_BUFFER_ARRAY_LENGTH"
    by (metis card_image card_lessThan card_mono finite_lessThan)
  then show ?thesis using d by (simp add: distinct_card)
qed

lemma map_fun_upd_other: "p \<notin> set xs \<Longrightarrow> map (\<lambda>x. f ((m(p := v)) x)) xs = map (\<lambda>x. f (m x)) xs"
  by (induction xs) auto

lemma first_transmission_inv:
  assumes inv: "resend_inv st xs" and p: "p \<notin> set xs" and rel: "is_reliable (reliability (rs_mem st p))"
    and room: "\<not> ResendBufferOverflow st"
  shows "resend_inv (first_transmission rto time p st) (xs @ [p])"
proof -
  let ?n = "sendReliableMessageNumberIndex st" and ?st = "first_transmission rto time p st"
  let ?b = "buffer_index ?n"
  have fields: "rs_ring ?st = AddToListTail_links p (rs_ring st)"
      "resendBuffer ?st = (resendBuffer st)[?b := Some p]" "messagesInResendBuffer ?st = messagesInResendBuffer st + 1"
      "bytesInResendBuffer ?st = bytesInResendBuffer st + of_nat (BITS_TO_BYTES (dataBitLength (rs_mem st p)))"
      "unacknowledgedBytes ?st = unacknowledgedBytes st + of_nat (packet_bytes (rs_mem st p))"
    by (simp_all add: first_transmission_def InsertPacketIntoResendList_def AddToListTail_def Let_def packet_bytes_def)
  have mem: "rs_mem ?st q = rs_mem st q" if "q \<noteq> p" for q
    using that by (simp add: first_transmission_def InsertPacketIntoResendList_def AddToListTail_def Let_def)
  have memp: "reliableMessageNumber (rs_mem ?st p) = ?n" "reliability (rs_mem ?st p) = reliability (rs_mem st p)"
      "dataBitLength (rs_mem ?st p) = dataBitLength (rs_mem st p)" "packet_bytes (rs_mem ?st p) = packet_bytes (rs_mem st p)"
    by (simp_all add: first_transmission_def InsertPacketIntoResendList_def AddToListTail_def Let_def packet_bytes_def)
  have len: "?b < length (resendBuffer st)" using inv buffer_index_less by (simp add: resend_inv_def)
  have free: "resendBuffer st ! ?b = None" using room by (simp add: ResendBufferOverflow_def)
  have xs: "(\<Sum>q \<leftarrow> xs. f (rs_mem ?st q)) = (\<Sum>q \<leftarrow> xs. f (rs_mem st q))" for f :: "InternalPacket \<Rightarrow> nat"
    by (rule arg_cong [of _ _ sum_list], rule map_cong [OF refl]) (metis mem p)
  have sl: "slot ?st q = (if q = p then ?b else slot st q)" for q using mem memp(1) by (simp add: slot_def)
  show ?thesis
    unfolding resend_inv_def
  proof (intro conjI allI impI ballI)
    show "ring_rep (rs_ring ?st) (xs @ [p])"
      unfolding fields by (rule AddToListTail_links_rep) (use inv p in \<open>simp_all add: resend_inv_def\<close>)
    show "length (resendBuffer ?st) = RESEND_BUFFER_ARRAY_LENGTH" using inv by (simp add: fields resend_inv_def)
    show "resendBuffer ?st ! i = Some q \<longleftrightarrow> q \<in> set (xs @ [p]) \<and> slot ?st q = i" if "i < RESEND_BUFFER_ARRAY_LENGTH" for i q
    proof -
      have "resendBuffer st ! i = Some q \<longleftrightarrow> q \<in> set xs \<and> slot st q = i" using inv that by (simp add: resend_inv_def)
      then show ?thesis using len p free sl [of q] unfolding fields(2) by (auto simp: nth_list_update)
    qed
    show "is_reliable (reliability (rs_mem ?st q))" if "q \<in> set (xs @ [p])" for q
      using that inv rel mem memp by (cases "q = p") (auto simp: resend_inv_def)
    show "messagesInResendBuffer ?st = of_nat (length (xs @ [p]))" using inv by (simp add: fields resend_inv_def)
    show "bytesInResendBuffer ?st = of_nat (\<Sum>q \<leftarrow> xs @ [p]. BITS_TO_BYTES (dataBitLength (rs_mem ?st q)))"
      using inv xs [of "\<lambda>ip. BITS_TO_BYTES (dataBitLength ip)"] memp(3) by (simp add: fields(4) resend_inv_def)
    show "unacknowledgedBytes ?st = of_nat (\<Sum>q \<leftarrow> xs @ [p]. packet_bytes (rs_mem ?st q))"
      using inv xs [of packet_bytes] memp(4) by (simp add: fields(5) resend_inv_def)
  qed
qed

text \<open>An update of fields that neither the array nor the counters depend on.\<close>

definition same_accounts :: "ResendState \<Rightarrow> ResendState \<Rightarrow> bool" where
  "same_accounts st st' \<longleftrightarrow> resendBuffer st' = resendBuffer st \<and> messagesInResendBuffer st' = messagesInResendBuffer st \<and>
    bytesInResendBuffer st' = bytesInResendBuffer st \<and> unacknowledgedBytes st' = unacknowledgedBytes st \<and>
    (\<forall>p. reliableMessageNumber (rs_mem st' p) = reliableMessageNumber (rs_mem st p) \<and>
      reliability (rs_mem st' p) = reliability (rs_mem st p) \<and> dataBitLength (rs_mem st' p) = dataBitLength (rs_mem st p) \<and>
      headerLength (rs_mem st' p) = headerLength (rs_mem st p))"

lemma resend_inv_same:
  assumes "resend_inv st xs" "same_accounts st st'" "ring_rep (rs_ring st') ys" "mset ys = mset xs"
  shows "resend_inv st' ys"
proof -
  have s: "set ys = set xs" "length ys = length xs" using assms(4) by (metis set_mset_mset, metis size_mset)
  have "sum_list (map f ys) = sum_list (map f xs)" for f :: "ptr \<Rightarrow> nat"
    using assms(4) by (metis mset_map sum_mset_sum_list)
  then show ?thesis
    using assms(1-3) s by (simp add: resend_inv_def same_accounts_def slot_def packet_bytes_def)
qed

lemma nak_message_inv: "resend_inv st xs \<Longrightarrow> resend_inv (nak_message time n st) xs"
  by (rule resend_inv_same) (auto simp: same_accounts_def nak_message_def resend_inv_def split: option.splits)

lemma retransmission_inv:
  assumes inv: "resend_inv st (p # xs)"
  shows "resend_inv (retransmission rto time st) (xs @ [p])"
proof (rule resend_inv_same [OF inv])
  have rep: "ring_rep (rs_ring st) (p # xs)" using inv by (simp add: resend_inv_def)
  then have h: "ring_head (rs_ring st) = Some p" by (simp add: ring_rep_def)
  have r: "rs_ring (retransmission rto time st) = AddToListTail_links p (RemoveFromList_links p (rs_ring st))"
    by (simp add: retransmission_def h PopListHead_def RemoveFromList_def InsertPacketIntoResendList_def AddToListTail_def Let_def)
  have "ring_rep (RemoveFromList_links p (rs_ring st)) xs" using RemoveFromList_links_rep [OF rep, of p] by simp
  then show "ring_rep (rs_ring (retransmission rto time st)) (xs @ [p])"
    unfolding r by (rule AddToListTail_links_rep) (use rep in \<open>simp add: ring_rep_def\<close>)
  show "same_accounts st (retransmission rto time st)"
    by (simp add: same_accounts_def retransmission_def h PopListHead_def RemoveFromList_def
        InsertPacketIntoResendList_def AddToListTail_def Let_def)
qed simp

lemma RemovePacketFromResendList_inv:
  assumes inv: "resend_inv st xs"
  shows "resend_inv (snd (RemovePacketFromResendList pool n st))
    (filter (\<lambda>p. reliableMessageNumber (rs_mem st p) \<noteq> n) xs)"
    and "rs_mem (snd (RemovePacketFromResendList pool n st)) = rs_mem st"
    and "fst (RemovePacketFromResendList pool n st) =
      (case filter (\<lambda>p. reliableMessageNumber (rs_mem st p) = n) xs of
         [] \<Rightarrow> []
       | p # _ \<Rightarrow> if wants_receipt (rs_mem st p) then [receipt ID_SND_RECEIPT_ACKED pool (sendReceiptSerial (rs_mem st p))] else [])"
proof -
  let ?b = "buffer_index n" and ?R = "RemovePacketFromResendList pool n st"
  let ?num = "\<lambda>p. reliableMessageNumber (rs_mem st p)"
  have d: "distinct xs" using inv by (auto simp: resend_inv_def ring_rep_def)
  have look: "resendBuffer st ! ?b = Some p \<longleftrightarrow> p \<in> set xs \<and> slot st p = ?b" for p by (rule resend_inv_lookup [OF inv])
  show "rs_mem (snd ?R) = rs_mem st"
    by (cases "resendBuffer st ! ?b") (simp_all add: RemovePacketFromResendList_def RemoveFromList_def Let_def)
  have "resend_inv (snd ?R) (filter (\<lambda>p. ?num p \<noteq> n) xs) \<and> fst ?R =
      (case filter (\<lambda>p. ?num p = n) xs of [] \<Rightarrow> []
       | p # _ \<Rightarrow> if wants_receipt (rs_mem st p) then [receipt ID_SND_RECEIPT_ACKED pool (sendReceiptSerial (rs_mem st p))] else [])"
  proof (cases "\<exists>p \<in> set xs. ?num p = n")
    case False
    then have f: "filter (\<lambda>p. ?num p \<noteq> n) xs = xs" "filter (\<lambda>p. ?num p = n) xs = []" by (auto simp: filter_id_conv filter_empty_conv)
    have "?R = ([], st)"
      using False look by (auto simp: RemovePacketFromResendList_def Let_def split: option.split)
    then show ?thesis using inv f by simp
  next
    case True
    then obtain p where p: "p \<in> set xs" "?num p = n" by blast
    have sp: "slot st p = ?b" using p(2) by (simp add: slot_def)
    have uniq: "q = p" if "q \<in> set xs" "?num q = n" for q
      using look [of q] look [of p] that p by (simp add: slot_def)
    have rm: "filter (\<lambda>q. ?num q \<noteq> n) xs = remove1 p xs"
      unfolding distinct_remove1_removeAll [OF d] removeAll_filter_not_eq
      by (rule filter_cong [OF refl]) (metis uniq p(2))
    have one: "filter (\<lambda>q. ?num q = n) xs = [p]"
    proof -
      have "filter (\<lambda>q. ?num q = n) xs = filter (\<lambda>q. q = p) xs" by (rule filter_cong [OF refl]) (metis uniq p(2))
      also have "\<dots> = [p]" using d p(1) by (induction xs) (auto simp: filter_empty_conv)
      finally show ?thesis .
    qed
    let ?st1 = "st\<lparr>resendBuffer := (resendBuffer st)[?b := None], messagesInResendBuffer := messagesInResendBuffer st - 1,
       bytesInResendBuffer := bytesInResendBuffer st - of_nat (BITS_TO_BYTES (dataBitLength (rs_mem st p)))\<rparr>"
    have rel: "is_reliable (reliability (rs_mem st p))" using inv p by (simp add: resend_inv_def)
    have R: "?R = (if wants_receipt (rs_mem st p) then [receipt ID_SND_RECEIPT_ACKED pool (sendReceiptSerial (rs_mem st p))] else [],
        RemoveFromList p True ?st1)"
      using look [of p] p sp rel by (simp add: RemovePacketFromResendList_def Let_def)
    have len: "length (resendBuffer st) = RESEND_BUFFER_ARRAY_LENGTH" using inv by (simp add: resend_inv_def)
    have "resend_inv (RemoveFromList p True ?st1) (remove1 p xs)"
      unfolding resend_inv_def
    proof (intro conjI allI impI ballI)
      show "ring_rep (rs_ring (RemoveFromList p True ?st1)) (remove1 p xs)"
        using RemoveFromList_links_rep [of "rs_ring st" xs p] inv p by (simp add: RemoveFromList_def resend_inv_def)
      show "length (resendBuffer (RemoveFromList p True ?st1)) = RESEND_BUFFER_ARRAY_LENGTH"
        using len by (simp add: RemoveFromList_def)
      show "resendBuffer (RemoveFromList p True ?st1) ! i = Some q \<longleftrightarrow>
          q \<in> set (remove1 p xs) \<and> slot (RemoveFromList p True ?st1) q = i" if "i < RESEND_BUFFER_ARRAY_LENGTH" for i q
      proof -
        have "resendBuffer st ! i = Some q \<longleftrightarrow> q \<in> set xs \<and> slot st q = i" using inv that by (simp add: resend_inv_def)
        moreover have "q \<in> set (remove1 p xs) \<longleftrightarrow> q \<in> set xs \<and> q \<noteq> p" using d by simp
        moreover have "slot (RemoveFromList p True ?st1) q = slot st q" by (simp add: slot_def RemoveFromList_def)
        moreover have "resendBuffer (RemoveFromList p True ?st1) = (resendBuffer st)[?b := None]" by (simp add: RemoveFromList_def)
        moreover have "q = p" if "q \<in> set xs" "slot st q = ?b" using look [of q] look [of p] that p(1) sp by simp
        ultimately show ?thesis using len that sp by (cases "i = ?b") auto
      qed
      show "is_reliable (reliability (rs_mem (RemoveFromList p True ?st1) q))" if "q \<in> set (remove1 p xs)" for q
        using that inv notin_set_remove1 [of q xs p] by (auto simp: RemoveFromList_def resend_inv_def)
      show "messagesInResendBuffer (RemoveFromList p True ?st1) = of_nat (length (remove1 p xs))"
      proof -
        obtain m where "length xs = Suc m" using p(1) by (cases xs) auto
        then show ?thesis using inv p(1) by (simp add: RemoveFromList_def resend_inv_def length_remove1)
      qed
      show "bytesInResendBuffer (RemoveFromList p True ?st1) =
          of_nat (\<Sum>q \<leftarrow> remove1 p xs. BITS_TO_BYTES (dataBitLength (rs_mem (RemoveFromList p True ?st1) q)))"
        using inv of_nat_sum_remove1 [where 'a = 64, OF p(1), of "\<lambda>q. BITS_TO_BYTES (dataBitLength (rs_mem st q))"]
        by (simp add: RemoveFromList_def resend_inv_def)
      show "unacknowledgedBytes (RemoveFromList p True ?st1) =
          of_nat (\<Sum>q \<leftarrow> remove1 p xs. packet_bytes (rs_mem (RemoveFromList p True ?st1) q))"
        using inv of_nat_sum_remove1 [where 'a = 32, OF p(1), of "\<lambda>q. packet_bytes (rs_mem st q)"]
        by (simp add: RemoveFromList_def resend_inv_def)
    qed
    then show ?thesis using R rm one by simp
  qed
  then show "resend_inv (snd ?R) (filter (\<lambda>p. ?num p \<noteq> n) xs)"
    "fst ?R = (case filter (\<lambda>p. ?num p = n) xs of [] \<Rightarrow> []
       | p # _ \<Rightarrow> if wants_receipt (rs_mem st p) then [receipt ID_SND_RECEIPT_ACKED pool (sendReceiptSerial (rs_mem st p))] else [])"
    by simp_all
qed

section \<open>Runs\<close>

text \<open>Any interleaving of transmissions, retransmissions, acknowledgements and reports of loss.  A message sent for the
  first time has just been written to memory that no waiting message uses.\<close>

inductive resend_run :: "(u8 \<Rightarrow> u64) \<Rightarrow> ResendState \<Rightarrow> bool" for rto :: "u8 \<Rightarrow> u64" where
  init: "resend_run rto (ResendState_new mem ring)"
| send: "resend_run rto st \<Longrightarrow> \<not> ResendBufferOverflow st \<Longrightarrow> Some p \<notin> set (resendBuffer st) \<Longrightarrow>
    is_reliable (reliability ip) \<Longrightarrow>
    resend_run rto (first_transmission rto time p (st\<lparr>rs_mem := (rs_mem st)(p := ip)\<rparr>))"
| again: "resend_run rto st \<Longrightarrow> resend_run rto (retransmission rto time st)"
| ack: "resend_run rto st \<Longrightarrow> resend_run rto (snd (RemovePacketFromResendList pool n st))"
| nak: "resend_run rto st \<Longrightarrow> resend_run rto (nak_message time n st)"

lemma resend_inv_mem:
  assumes inv: "resend_inv st xs" and p: "p \<notin> set xs"
  shows "resend_inv (st\<lparr>rs_mem := (rs_mem st)(p := ip)\<rparr>) xs" (is "resend_inv ?st xs")
proof -
  have eq: "rs_mem ?st q = rs_mem st q" if "q \<in> set xs" for q using that p by auto
  have sum: "(\<Sum>q \<leftarrow> xs. f (rs_mem ?st q)) = (\<Sum>q \<leftarrow> xs. f (rs_mem st q))" for f :: "InternalPacket \<Rightarrow> nat"
    by (rule arg_cong [of _ _ sum_list], rule map_cong [OF refl]) (simp only: eq)
  have sl: "q \<in> set xs \<and> slot ?st q = i \<longleftrightarrow> q \<in> set xs \<and> slot st q = i" for q i using eq [of q] unfolding slot_def by metis
  show ?thesis
    unfolding resend_inv_def sl sum [of "\<lambda>ip. BITS_TO_BYTES (dataBitLength ip)"] sum [of packet_bytes]
    using inv p by (auto simp: resend_inv_def)
qed

lemma resend_run_inv: "resend_run rto st \<Longrightarrow> \<exists>xs. resend_inv st xs"
proof (induction rule: resend_run.induct)
  case (init mem ring)
  then show ?case using resend_inv_new by blast
next
  case (send st p ip time)
  then obtain xs where xs: "resend_inv st xs" by blast
  have "slot st p < length (resendBuffer st)" using xs buffer_index_less by (simp add: resend_inv_def slot_def)
  then have p: "p \<notin> set xs" using send.hyps(3) resend_inv_slot [OF xs, of p] nth_mem by metis
  have "resend_inv (first_transmission rto time p (st\<lparr>rs_mem := (rs_mem st)(p := ip)\<rparr>)) (xs @ [p])"
    by (rule first_transmission_inv [OF resend_inv_mem [OF xs p] p])
      (use send.hyps in \<open>simp_all add: ResendBufferOverflow_def\<close>)
  then show ?case by blast
next
  case (again st time)
  then obtain xs where xs: "resend_inv st xs" by blast
  show ?case
  proof (cases xs)
    case Nil
    then show ?thesis using xs by (auto simp: retransmission_def resend_inv_def ring_rep_def intro!: exI [of _ "[]"])
  next
    case (Cons p ys)
    then show ?thesis using retransmission_inv xs by blast
  qed
next
  case (ack st pool n)
  then show ?case using RemovePacketFromResendList_inv(1) by blast
next
  case (nak st time n)
  then show ?case using nak_message_inv by blast
qed

text \<open>
  Property C20: in every run of transmissions, retransmissions, acknowledgements (duplicate and bogus ones
  included) and loss reports the resend list, the resend buffer and the counters agree: the packets
  of the ring are exactly the entries of the array, each at the slot of its message number, there
  are at most 512 of them, and the counters of messages, bytes and unacknowledged bytes are the
  length and the sums over the list.
\<close>

theorem resend_accounting:
  assumes "resend_run rto st"
  shows "\<exists>xs. ring_rep (rs_ring st) xs \<and> length xs \<le> RESEND_BUFFER_ARRAY_LENGTH \<and>
    (\<forall>i < RESEND_BUFFER_ARRAY_LENGTH. \<forall>p. resendBuffer st ! i = Some p \<longleftrightarrow>
       p \<in> set xs \<and> buffer_index (reliableMessageNumber (rs_mem st p)) = i) \<and>
    messagesInResendBuffer st = of_nat (length xs) \<and>
    bytesInResendBuffer st = of_nat (\<Sum>p \<leftarrow> xs. BITS_TO_BYTES (dataBitLength (rs_mem st p))) \<and>
    unacknowledgedBytes st = of_nat (\<Sum>p \<leftarrow> xs. packet_bytes (rs_mem st p))"
proof -
  obtain xs where "resend_inv st xs" using resend_run_inv [OF assms] by blast
  then show ?thesis using resend_inv_bound by (intro exI [of _ xs]) (auto simp: resend_inv_def slot_def)
qed

definition empty_ring :: Ring where
  "empty_ring = \<lparr>ring_head = None, ring_next = id, ring_prev = id\<rparr>"

theorem resend_accounting_witness:
  "\<exists>xs. ring_rep (rs_ring (nak_message 5 0 (ResendState_new (\<lambda>_. demo_packet) empty_ring))) xs"
proof -
  have "resend_run (\<lambda>_. 100) (nak_message 5 0 (ResendState_new (\<lambda>_. demo_packet) empty_ring))"
    by (intro resend_run.nak resend_run.init)
  from resend_accounting [OF this] show ?thesis by blast
qed

end
