(* ===== verification/Ack_Handling.thy ===== *)
theory Ack_Handling
  imports Resend_List DS_Queue RangeList_Wire
begin

text \<open>
  What was sent in which datagram, and what happens when the other side reports it: the datagram
  history (a queue with one entry per datagram sent, holding the message numbers in it and the time
  it was sent) and the acknowledgement and loss branches of \<^verbatim>\<open>HandleSocketReceiveFromConnectedPlayer\<close>.  The
  linked list of \<^verbatim>\<open>MessageNumberNode\<close>s of an entry is the list of its message numbers, the null pointer
  being the empty list.  Calls to the congestion manager are recorded in order as events.
\<close>

section \<open>The datagram history\<close>

definition DATAGRAM_MESSAGE_ID_ARRAY_LENGTH :: nat where
  "DATAGRAM_MESSAGE_ID_ARRAY_LENGTH = 512"

record DatagramHistoryNode =
  node_messages :: "u24 list"
  timeSent :: u64

record DatagramHistory =
  datagramHistory :: "DatagramHistoryNode Queue"
  datagramHistoryPopCount :: u24

definition GetMessageNumberNodeByDatagramIndex :: "u24 \<Rightarrow> DatagramHistory \<Rightarrow> (u24 list \<times> u64) option" where
  "GetMessageNumberNodeByDatagramIndex index h =
    (if Queue_IsEmpty (datagramHistory h) then None
     else if CC_LessThan index (datagramHistoryPopCount h) then None
     else
       let offsetIntoList = index - datagramHistoryPopCount h
       in if unat offsetIntoList \<ge> Queue_Size (datagramHistory h) then None
          else
            let node = Queue_nth (datagramHistory h) (unat offsetIntoList)
            in if node_messages node = [] then None else Some (node_messages node, timeSent node))"

definition RemoveFromDatagramHistory :: "u24 \<Rightarrow> DatagramHistory \<Rightarrow> DatagramHistory" where
  "RemoveFromDatagramHistory index h =
    (let offsetIntoList = unat (index - datagramHistoryPopCount h);
         node = Queue_nth (datagramHistory h) offsetIntoList
     in h\<lparr>datagramHistory := Queue_set (datagramHistory h) offsetIntoList (node\<lparr>node_messages := []\<rparr>)\<rparr>)"

text \<open>The common start of both \<^verbatim>\<open>AddFirstToDatagramHistory\<close>.\<close>

definition trim_history :: "DatagramHistory \<Rightarrow> DatagramHistory" where
  "trim_history h =
    (if Queue_Size (datagramHistory h) > DATAGRAM_MESSAGE_ID_ARRAY_LENGTH then
       let h1 = RemoveFromDatagramHistory (datagramHistoryPopCount h) h
       in h1\<lparr>datagramHistory := snd (Queue_Pop (datagramHistory h1)),
             datagramHistoryPopCount := datagramHistoryPopCount h1 + 1\<rparr>
     else h)"

definition AddFirstToDatagramHistory_empty ::
    "(nat \<Rightarrow> DatagramHistoryNode) \<Rightarrow> u64 \<Rightarrow> DatagramHistory \<Rightarrow> DatagramHistory" where
  "AddFirstToDatagramHistory_empty fresh time h =
    (let h1 = trim_history h
     in h1\<lparr>datagramHistory := Queue_Push fresh \<lparr>node_messages = [], timeSent = time\<rparr> (datagramHistory h1)\<rparr>)"

definition AddFirstToDatagramHistory ::
    "(nat \<Rightarrow> DatagramHistoryNode) \<Rightarrow> u24 \<Rightarrow> u64 \<Rightarrow> DatagramHistory \<Rightarrow> DatagramHistory" where
  "AddFirstToDatagramHistory fresh messageNumber time h =
    (let h1 = trim_history h
     in h1\<lparr>datagramHistory := Queue_Push fresh \<lparr>node_messages = [messageNumber], timeSent = time\<rparr> (datagramHistory h1)\<rparr>)"

text \<open>The node passed to \<^verbatim>\<open>AddSubsequentToDatagramHistory\<close> is the last one of the newest entry.\<close>

definition AddSubsequentToDatagramHistory :: "u24 \<Rightarrow> DatagramHistory \<Rightarrow> DatagramHistory" where
  "AddSubsequentToDatagramHistory messageNumber h =
    (let i = Queue_Size (datagramHistory h) - 1;
         node = Queue_nth (datagramHistory h) i
     in h\<lparr>datagramHistory := Queue_set (datagramHistory h) i (node\<lparr>node_messages := node_messages node @ [messageNumber]\<rparr>)\<rparr>)"

text \<open>The history entry of one datagram of \<^verbatim>\<open>UpdateInternal\<close>: the messages in it that need an acknowledgement.\<close>

definition record_datagram ::
    "(nat \<Rightarrow> DatagramHistoryNode) \<Rightarrow> u64 \<Rightarrow> InternalPacket list \<Rightarrow> DatagramHistory \<Rightarrow> DatagramHistory" where
  "record_datagram fresh time packets h =
    (case filter (\<lambda>ip. reliability ip \<noteq> Unreliable \<and> reliability ip \<noteq> UnreliableSequenced) packets of
       [] \<Rightarrow> AddFirstToDatagramHistory_empty fresh time h
     | ip # ips \<Rightarrow>
         fold (\<lambda>q. AddSubsequentToDatagramHistory (reliableMessageNumber q)) ips
           (AddFirstToDatagramHistory fresh (reliableMessageNumber ip) time h))"

section \<open>Acknowledgements\<close>

datatype CCEvent = CC_OnAck u64 u24 | CC_OnNAK u24

record UnreliableWithAckReceiptNode =
  un_datagramNumber :: u24
  un_sendReceiptSerial :: u32
  un_nextActionTime :: u64

record SendWindow =
  sw_resend :: ResendState
  sw_history :: DatagramHistory
  unreliableWithAckReceiptHistory :: "UnreliableWithAckReceiptNode list"
  receivePacketCount :: u32
  sw_output :: "InternalPacket list"
  sw_events :: "CCEvent list"

text \<open>The loop over the receipts of unreliable messages, from index \<open>k\<close> on.\<close>

function receipt_loop ::
    "InternalPacket \<Rightarrow> RangeNode list \<Rightarrow> nat \<Rightarrow> UnreliableWithAckReceiptNode list \<Rightarrow>
     InternalPacket list \<times> UnreliableWithAckReceiptNode list" where
  "receipt_loop pool acks k xs =
    (if k < length xs then
       if RangeList_IsWithinRange (un_datagramNumber (xs ! k)) acks then
         let (out, xs') = receipt_loop pool acks k (remove_at k xs)
         in (receipt ID_SND_RECEIPT_ACKED pool (un_sendReceiptSerial (xs ! k)) # out, xs')
       else receipt_loop pool acks (Suc k) xs
     else ([], xs))"
  by pat_completeness auto
termination
  by (relation "measure (\<lambda>(pool, acks, k, xs). length xs - k)") (auto simp: remove_at_def)

text \<open>The messages of an acknowledged datagram.\<close>

fun ack_messages :: "InternalPacket \<Rightarrow> u24 list \<Rightarrow> ResendState \<Rightarrow> InternalPacket list \<times> ResendState" where
  "ack_messages pool [] st = ([], st)"
| "ack_messages pool (n # ns) st =
    (let (out, st1) = RemovePacketFromResendList pool n st;
         (out', st2) = ack_messages pool ns st1
     in (out @ out', st2))"

definition ack_datagram :: "InternalPacket \<Rightarrow> u64 \<Rightarrow> u24 \<Rightarrow> SendWindow \<Rightarrow> SendWindow" where
  "ack_datagram pool timeRead number w =
    (case GetMessageNumberNodeByDatagramIndex number (sw_history w) of
       None \<Rightarrow> w
     | Some (messages, whenSent) \<Rightarrow>
         let ping = (if timeRead > whenSent then timeRead - whenSent else 0);
             (out, st) = ack_messages pool messages (sw_resend w)
         in w\<lparr>sw_events := sw_events w @ [CC_OnAck ping number], sw_resend := st,
              sw_output := sw_output w @ out,
              sw_history := RemoveFromDatagramHistory number (sw_history w)\<rparr>)"

text \<open>The datagram numbers of one range; the result says whether the handler returned, and None is a loop that did not end
  within the given number of iterations.\<close>

fun ack_range :: "nat \<Rightarrow> InternalPacket \<Rightarrow> u64 \<Rightarrow> u24 \<Rightarrow> u24 \<Rightarrow> SendWindow \<Rightarrow> (bool \<times> SendWindow) option" where
  "ack_range 0 pool timeRead n mx w = None"
| "ack_range (Suc fuel) pool timeRead n mx w =
    (if n \<le> mx then
       if unat (n - datagramHistoryPopCount (sw_history w)) \<ge> Queue_Size (datagramHistory (sw_history w))
       then Some (True, w\<lparr>receivePacketCount := receivePacketCount w + 1\<rparr>)
       else ack_range fuel pool timeRead (n + 1) mx (ack_datagram pool timeRead n w)
     else Some (False, w))"

text \<open>The ranges in turn; the first component is the value the handler returns.\<close>

fun ack_ranges :: "InternalPacket \<Rightarrow> u64 \<Rightarrow> RangeNode list \<Rightarrow> SendWindow \<Rightarrow> (bool \<times> SendWindow) option" where
  "ack_ranges pool timeRead [] w = Some (True, w\<lparr>receivePacketCount := receivePacketCount w + 1\<rparr>)"
| "ack_ranges pool timeRead (r # rs) w =
    (if maxIndex r = - 1 then Some (False, w)
     else
       case ack_range (Queue_Size (datagramHistory (sw_history w)) + 2) pool timeRead (minIndex r) (maxIndex r) w of
         None \<Rightarrow> None
       | Some (True, w1) \<Rightarrow> Some (True, w1)
       | Some (False, w1) \<Rightarrow> ack_ranges pool timeRead rs w1)"

definition handle_ack :: "InternalPacket \<Rightarrow> u64 \<Rightarrow> BitStream \<Rightarrow> SendWindow \<Rightarrow> (bool \<times> SendWindow) option" where
  "handle_ack pool timeRead socketData w =
    (let (ok, incomingAcks, bs) = RangeList_Deserialize socketData
     in if \<not> ok then Some (False, w)
        else
          let (out, xs) = receipt_loop pool incomingAcks 0 (unreliableWithAckReceiptHistory w);
              w1 = w\<lparr>sw_output := sw_output w @ out, unreliableWithAckReceiptHistory := xs\<rparr>
          in if Queue_IsEmpty (datagramHistory (sw_history w1))
             then Some (True, w1\<lparr>receivePacketCount := receivePacketCount w1 + 1\<rparr>)
             else ack_ranges pool timeRead incomingAcks w1)"

section \<open>Loss reports\<close>

definition nak_datagram :: "u64 \<Rightarrow> u24 \<Rightarrow> SendWindow \<Rightarrow> SendWindow" where
  "nak_datagram timeRead n w =
    (case GetMessageNumberNodeByDatagramIndex n (sw_history w) of
       None \<Rightarrow> w
     | Some (messages, _) \<Rightarrow> w\<lparr>sw_resend := fold (nak_message timeRead) messages (sw_resend w)\<rparr>)"

fun nak_range :: "nat \<Rightarrow> u64 \<Rightarrow> u24 \<Rightarrow> u24 \<Rightarrow> SendWindow \<Rightarrow> (bool \<times> SendWindow) option" where
  "nak_range 0 timeRead n mx w = None"
| "nak_range (Suc fuel) timeRead n mx w =
    (if n \<le> mx then
       let w1 = w\<lparr>sw_events := sw_events w @ [CC_OnNAK n]\<rparr>
       in if unat (n - datagramHistoryPopCount (sw_history w1)) \<ge> Queue_Size (datagramHistory (sw_history w1))
          then Some (True, w1\<lparr>receivePacketCount := receivePacketCount w1 + 1\<rparr>)
          else nak_range fuel timeRead (n + 1) mx (nak_datagram timeRead n w1)
     else Some (False, w))"

fun nak_ranges :: "u64 \<Rightarrow> RangeNode list \<Rightarrow> SendWindow \<Rightarrow> (bool \<times> SendWindow) option" where
  "nak_ranges timeRead [] w = Some (True, w\<lparr>receivePacketCount := receivePacketCount w + 1\<rparr>)"
| "nak_ranges timeRead (r # rs) w =
    (if maxIndex r = - 1 then Some (False, w)
     else
       case nak_range (Queue_Size (datagramHistory (sw_history w)) + 2) timeRead (minIndex r) (maxIndex r) w of
         None \<Rightarrow> None
       | Some (True, w1) \<Rightarrow> Some (True, w1)
       | Some (False, w1) \<Rightarrow> nak_ranges timeRead rs w1)"

definition handle_nak :: "u64 \<Rightarrow> BitStream \<Rightarrow> SendWindow \<Rightarrow> (bool \<times> SendWindow) option" where
  "handle_nak timeRead socketData w =
    (if Queue_IsEmpty (datagramHistory (sw_history w))
     then Some (True, w\<lparr>receivePacketCount := receivePacketCount w + 1\<rparr>)
     else
       let (ok, incomingNAKs, bs) = RangeList_Deserialize socketData
       in if \<not> ok then Some (False, w) else nak_ranges timeRead incomingNAKs w)"

end
