(* ===== verification/Ack_Laws.thy ===== *)
theory Ack_Laws
  imports Ack_Handling
begin

text \<open>
  What acknowledgements and loss reports do: the loops over the reported ranges end after at most as
  many steps as the history is long, whatever the ranges are; an acknowledgement of datagrams that
  are still in the history takes exactly their messages off the resend list; and an acknowledgement
  that starts with a forgotten datagram is dropped as a whole.
\<close>

section \<open>The history as a function of the datagram number\<close>

definition in_history :: "DatagramHistory \<Rightarrow> u24 \<Rightarrow> bool" where
  "in_history h n \<longleftrightarrow> unat (n - datagramHistoryPopCount h) < Queue_Size (datagramHistory h)"

definition messages_of :: "DatagramHistory \<Rightarrow> u24 \<Rightarrow> u24 list" where
  "messages_of h n =
    (if in_history h n then node_messages (queue_list (datagramHistory h) ! unat (n - datagramHistoryPopCount h)) else [])"

definition history_ok :: "DatagramHistory \<Rightarrow> bool" where
  "history_ok h \<longleftrightarrow> queue_ok (datagramHistory h) \<and> Queue_Size (datagramHistory h) \<le> 513"

lemma in_history_not_older:
  assumes "history_ok h" "in_history h n"
  shows "\<not> CC_LessThan n (datagramHistoryPopCount h)"
proof -
  let ?d = "n - datagramHistoryPopCount h"
  have d: "unat ?d < 513" using assms by (simp add: history_ok_def in_history_def)
  have e: "datagramHistoryPopCount h - n = - ?d" by simp
  have "?d = 0 \<or> unat (- ?d) = 16777216 - unat ?d"
  proof (cases "?d = 0")
    case False
    then have "0 < unat ?d" by (simp add: unat_gt_0)
    then show ?thesis using unat_sub_wrap [of 0 ?d] by (simp add: word_le_nat_alt)
  qed simp
  then show ?thesis using d unfolding CC_LessThan_distance e by auto
qed

lemma GetMessageNumberNode_messages:
  assumes "history_ok h"
  shows "GetMessageNumberNodeByDatagramIndex n h = None \<longleftrightarrow> messages_of h n = []"
    and "GetMessageNumberNodeByDatagramIndex n h = Some (ms, t) \<Longrightarrow> ms = messages_of h n \<and> in_history h n"
proof -
  have q: "queue_ok (datagramHistory h)" using assms by (simp add: history_ok_def)
  have "GetMessageNumberNodeByDatagramIndex n h =
      (if messages_of h n = [] then None
       else Some (messages_of h n, timeSent (queue_list (datagramHistory h) ! unat (n - datagramHistoryPopCount h))))"
  proof (cases "in_history h n")
    case True
    then have "\<not> Queue_IsEmpty (datagramHistory h)"
      using Queue_IsEmpty_list [OF q] by (metis in_history_def length_queue_list list.size(3) not_less_zero)
    then show ?thesis
      using True in_history_not_older [OF assms True] Queue_nth_refine [OF q]
      by (auto simp: GetMessageNumberNodeByDatagramIndex_def messages_of_def in_history_def Let_def)
  next
    case False
    then show ?thesis by (auto simp: GetMessageNumberNodeByDatagramIndex_def messages_of_def in_history_def Let_def)
  qed
  then show "GetMessageNumberNodeByDatagramIndex n h = None \<longleftrightarrow> messages_of h n = []"
    "GetMessageNumberNodeByDatagramIndex n h = Some (ms, t) \<Longrightarrow> ms = messages_of h n \<and> in_history h n"
    by (auto simp: messages_of_def split: if_splits)
qed

lemma RemoveFromDatagramHistory_effect:
  assumes ok: "history_ok h" and n: "in_history h n"
  defines "h' \<equiv> RemoveFromDatagramHistory n h"
  shows "history_ok h'" "in_history h' m = in_history h m" "messages_of h' m = (if m = n then [] else messages_of h m)"
    "datagramHistoryPopCount h' = datagramHistoryPopCount h"
    "Queue_Size (datagramHistory h') = Queue_Size (datagramHistory h)"
proof -
  let ?o = "unat (n - datagramHistoryPopCount h)" and ?q = "datagramHistory h"
  have q: "queue_ok ?q" using ok by (simp add: history_ok_def)
  let ?node = "(Queue_nth ?q ?o)\<lparr>node_messages := []\<rparr>"
  note s = Queue_set_refine [OF q, of ?o ?node]
  have h': "datagramHistory h' = Queue_set ?q ?o ?node" "datagramHistoryPopCount h' = datagramHistoryPopCount h"
    by (simp_all add: h'_def RemoveFromDatagramHistory_def Let_def)
  have size: "Queue_Size (datagramHistory h') = Queue_Size ?q"
    using s(2) n unfolding h' by (metis in_history_def length_list_update length_queue_list)
  show "Queue_Size (datagramHistory h') = Queue_Size ?q" by (rule size)
  show "datagramHistoryPopCount h' = datagramHistoryPopCount h" by (rule h')
  show "history_ok h'" using ok s(1) n size by (simp add: history_ok_def h'(1) in_history_def)
  show ih: "in_history h' m = in_history h m" by (simp add: in_history_def size h'(2))
  show "messages_of h' m = (if m = n then [] else messages_of h m)"
  proof (cases "in_history h m")
    case True
    have "unat (m - datagramHistoryPopCount h) = ?o \<longleftrightarrow> m = n" by (auto simp: word_unat_eq_iff [symmetric])
    then show ?thesis
      using True n s(2) ih by (auto simp: messages_of_def h' in_history_def nth_list_update)
  qed (use n ih in \<open>auto simp: messages_of_def\<close>)
qed

section \<open>One acknowledged datagram\<close>

lemma ack_messages_effect:
  assumes "resend_inv st xs"
  shows "resend_inv (snd (ack_messages pool ns st)) (filter (\<lambda>p. reliableMessageNumber (rs_mem st p) \<notin> set ns) xs)"
    and "rs_mem (snd (ack_messages pool ns st)) = rs_mem st"
proof -
  have "resend_inv (snd (ack_messages pool ns st)) (filter (\<lambda>p. reliableMessageNumber (rs_mem st p) \<notin> set ns) xs) \<and>
      rs_mem (snd (ack_messages pool ns st)) = rs_mem st"
    using assms
  proof (induction ns arbitrary: st xs)
    case (Cons n ns)
    let ?st = "snd (RemovePacketFromResendList pool n st)"
    note r = RemovePacketFromResendList_inv [OF Cons.prems, of pool n]
    from Cons.IH [OF r(1)] show ?case using r(2) by (simp add: split_beta conj_commute)
  qed simp
  then show "resend_inv (snd (ack_messages pool ns st)) (filter (\<lambda>p. reliableMessageNumber (rs_mem st p) \<notin> set ns) xs)"
    "rs_mem (snd (ack_messages pool ns st)) = rs_mem st" by simp_all
qed

lemma ack_datagram_effect:
  fixes pool t n
  assumes inv: "resend_inv (sw_resend w) xs" and ok: "history_ok (sw_history w)"
  defines "w' \<equiv> ack_datagram pool t n w"
  shows "resend_inv (sw_resend w')
      (filter (\<lambda>p. reliableMessageNumber (rs_mem (sw_resend w) p) \<notin> set (messages_of (sw_history w) n)) xs)"
    and "rs_mem (sw_resend w') = rs_mem (sw_resend w)" "history_ok (sw_history w')"
    "in_history (sw_history w') m = in_history (sw_history w) m"
    "messages_of (sw_history w') m = (if m = n then [] else messages_of (sw_history w) m)"
    "datagramHistoryPopCount (sw_history w') = datagramHistoryPopCount (sw_history w)"
    "Queue_Size (datagramHistory (sw_history w')) = Queue_Size (datagramHistory (sw_history w))"
proof -
  have "resend_inv (sw_resend w')
      (filter (\<lambda>p. reliableMessageNumber (rs_mem (sw_resend w) p) \<notin> set (messages_of (sw_history w) n)) xs) \<and>
    rs_mem (sw_resend w') = rs_mem (sw_resend w) \<and> history_ok (sw_history w') \<and>
    in_history (sw_history w') m = in_history (sw_history w) m \<and>
    messages_of (sw_history w') m = (if m = n then [] else messages_of (sw_history w) m) \<and>
    datagramHistoryPopCount (sw_history w') = datagramHistoryPopCount (sw_history w) \<and>
    Queue_Size (datagramHistory (sw_history w')) = Queue_Size (datagramHistory (sw_history w))"
  proof (cases "GetMessageNumberNodeByDatagramIndex n (sw_history w)")
    case None
    then have "w' = w" by (simp add: w'_def ack_datagram_def)
    moreover have "messages_of (sw_history w) n = []" using GetMessageNumberNode_messages(1) [OF ok, of n] None by simp
    ultimately show ?thesis using inv ok by simp
  next
    case (Some a)
    obtain ms time where a: "a = (ms, time)" by fastforce
    have ms: "ms = messages_of (sw_history w) n" "in_history (sw_history w) n"
      using GetMessageNumberNode_messages(2) [OF ok] Some a by auto
    have w': "sw_resend w' = snd (ack_messages pool ms (sw_resend w))"
        "sw_history w' = RemoveFromDatagramHistory n (sw_history w)"
      by (simp_all add: w'_def ack_datagram_def Some a split_beta Let_def)
    show ?thesis
      unfolding w' using ack_messages_effect [OF inv, of pool ms] RemoveFromDatagramHistory_effect [OF ok ms(2)]
      by (simp add: ms(1))
  qed
  then show "resend_inv (sw_resend w')
      (filter (\<lambda>p. reliableMessageNumber (rs_mem (sw_resend w) p) \<notin> set (messages_of (sw_history w) n)) xs)"
    "rs_mem (sw_resend w') = rs_mem (sw_resend w)" "history_ok (sw_history w')"
    "in_history (sw_history w') m = in_history (sw_history w) m"
    "messages_of (sw_history w') m = (if m = n then [] else messages_of (sw_history w) m)"
    "datagramHistoryPopCount (sw_history w') = datagramHistoryPopCount (sw_history w)"
    "Queue_Size (datagramHistory (sw_history w')) = Queue_Size (datagramHistory (sw_history w))"
    by simp_all
qed

section \<open>The loops end\<close>

lemma fuel_step: "S - d < Suc fuel \<Longrightarrow> d < S \<Longrightarrow> S - Suc d < fuel"
  by linarith

lemma offset_Suc:
  fixes n c :: u24
  assumes "unat (n - c) < 16777215"
  shows "unat (n + 1 - c) = unat (n - c) + 1"
proof -
  have "n + 1 - c = (n - c) + 1" by (simp add: algebra_simps)
  moreover have "unat ((n - c) + 1) = unat (n - c) + 1"
    using assms unat_plus_wrap [of "n - c" 1] by (simp split: if_splits)
  ultimately show ?thesis by (simp only:)
qed

lemma nak_datagram_frame [simp]: "sw_history (nak_datagram t n w) = sw_history w"
  by (simp add: nak_datagram_def split: option.split prod.split)

lemma ack_datagram_frame:
  assumes "history_ok (sw_history w)"
  shows "datagramHistoryPopCount (sw_history (ack_datagram pool t n w)) = datagramHistoryPopCount (sw_history w)"
    "Queue_Size (datagramHistory (sw_history (ack_datagram pool t n w))) = Queue_Size (datagramHistory (sw_history w))"
    "history_ok (sw_history (ack_datagram pool t n w))"
proof -
  let ?w = "ack_datagram pool t n w"
  have "sw_history ?w = sw_history w \<or> in_history (sw_history w) n \<and> sw_history ?w = RemoveFromDatagramHistory n (sw_history w)"
    using GetMessageNumberNode_messages(2) [OF assms, of n]
    by (cases "GetMessageNumberNodeByDatagramIndex n (sw_history w)") (auto simp: ack_datagram_def split_beta Let_def)
  then show "datagramHistoryPopCount (sw_history ?w) = datagramHistoryPopCount (sw_history w)"
    "Queue_Size (datagramHistory (sw_history ?w)) = Queue_Size (datagramHistory (sw_history w))" "history_ok (sw_history ?w)"
    using RemoveFromDatagramHistory_effect [OF assms, of n] assms by auto
qed

lemma ack_range_returns:
  assumes "history_ok (sw_history w)"
    and "Queue_Size (datagramHistory (sw_history w)) - unat (n - datagramHistoryPopCount (sw_history w)) < fuel"
  shows "\<exists>b w'. ack_range fuel pool t n mx w = Some (b, w') \<and> history_ok (sw_history w')"
  using assms
proof (induction fuel arbitrary: n w)
  case (Suc fuel)
  let ?h = "sw_history w"
  have sz: "Queue_Size (datagramHistory ?h) \<le> 513" using Suc.prems(1) by (simp add: history_ok_def)
  show ?case
  proof (cases "n \<le> mx \<and> unat (n - datagramHistoryPopCount ?h) < Queue_Size (datagramHistory ?h)")
    case True
    then have o: "unat (n + 1 - datagramHistoryPopCount ?h) = unat (n - datagramHistoryPopCount ?h) + 1"
      using sz by (intro offset_Suc) simp
    note f = ack_datagram_frame [OF Suc.prems(1), of pool t n]
    have "\<exists>b w'. ack_range fuel pool t (n + 1) mx (ack_datagram pool t n w) = Some (b, w') \<and> history_ok (sw_history w')"
      by (rule Suc.IH [OF f(3)]) (use fuel_step [OF Suc.prems(2)] True o f in simp)
    then show ?thesis using True by simp
  qed (use Suc.prems(1) in auto)
qed simp

lemma ack_ranges_return: "history_ok (sw_history w) \<Longrightarrow> \<exists>b w'. ack_ranges pool t rs w = Some (b, w') \<and> history_ok (sw_history w')"
proof (induction rs arbitrary: w)
  case (Cons r rs)
  show ?case
  proof (cases "maxIndex r = - 1")
    case False
    obtain b w' where "ack_range (Queue_Size (datagramHistory (sw_history w)) + 2) pool t (minIndex r) (maxIndex r) w = Some (b, w')"
        "history_ok (sw_history w')"
      using ack_range_returns [OF Cons.prems, of "minIndex r" "Queue_Size (datagramHistory (sw_history w)) + 2" pool t "maxIndex r"]
      by fastforce
    then show ?thesis using Cons.IH [of w'] False by (cases b) (auto simp del: ack_range.simps)
  qed (use Cons.prems in auto)
qed auto

lemma nak_range_returns:
  assumes "Queue_Size (datagramHistory (sw_history w)) - unat (n - datagramHistoryPopCount (sw_history w)) < fuel"
    and "Queue_Size (datagramHistory (sw_history w)) \<le> 513"
  shows "\<exists>b w'. nak_range fuel t n mx w = Some (b, w') \<and> sw_history w' = sw_history w"
  using assms
proof (induction fuel arbitrary: n w)
  case (Suc fuel)
  let ?h = "sw_history w" and ?w = "nak_datagram t n (w\<lparr>sw_events := sw_events w @ [CC_OnNAK n]\<rparr>)"
  show ?case
  proof (cases "n \<le> mx \<and> unat (n - datagramHistoryPopCount ?h) < Queue_Size (datagramHistory ?h)")
    case True
    then have o: "unat (n + 1 - datagramHistoryPopCount ?h) = unat (n - datagramHistoryPopCount ?h) + 1"
      using Suc.prems(2) by (intro offset_Suc) simp
    have "\<exists>b w'. nak_range fuel t (n + 1) mx ?w = Some (b, w') \<and> sw_history w' = sw_history ?w"
      by (rule Suc.IH) (use fuel_step [OF Suc.prems(1)] Suc.prems(2) True o in simp_all)
    then show ?thesis using True by (simp add: Let_def)
  qed (auto simp: Let_def)
qed simp

lemma nak_ranges_return:
  "Queue_Size (datagramHistory (sw_history w)) \<le> 513 \<Longrightarrow> \<exists>b w'. nak_ranges t rs w = Some (b, w') \<and> sw_history w' = sw_history w"
proof (induction rs arbitrary: w)
  case (Cons r rs)
  show ?case
  proof (cases "maxIndex r = - 1")
    case False
    obtain b w' where "nak_range (Queue_Size (datagramHistory (sw_history w)) + 2) t (minIndex r) (maxIndex r) w = Some (b, w')"
        "sw_history w' = sw_history w"
      using nak_range_returns [of w "minIndex r" "Queue_Size (datagramHistory (sw_history w)) + 2" t "maxIndex r"] Cons.prems
      by fastforce
    then show ?thesis using Cons.IH [of w'] Cons.prems False by (cases b) (auto simp del: nak_range.simps)
  qed auto
qed auto

section \<open>Acknowledging datagrams of the history\<close>

definition acked :: "DatagramHistory \<Rightarrow> u24 set \<Rightarrow> u24 set" where
  "acked h A = (\<Union>m \<in> A. set (messages_of h m))"

definition waiting_after :: "SendWindow \<Rightarrow> u24 set \<Rightarrow> ptr list \<Rightarrow> ptr list" where
  "waiting_after w A xs = filter (\<lambda>p. reliableMessageNumber (rs_mem (sw_resend w) p) \<notin> acked (sw_history w) A) xs"

text \<open>The effect of acknowledging the datagrams \<open>A\<close>.\<close>

definition acks :: "u24 set \<Rightarrow> SendWindow \<Rightarrow> ptr list \<Rightarrow> SendWindow \<Rightarrow> bool" where
  "acks A w xs w' \<longleftrightarrow> resend_inv (sw_resend w') (waiting_after w A xs) \<and> rs_mem (sw_resend w') = rs_mem (sw_resend w) \<and>
    history_ok (sw_history w') \<and> (\<forall>m. in_history (sw_history w') m = in_history (sw_history w) m) \<and>
    (\<forall>m. messages_of (sw_history w') m = (if m \<in> A then [] else messages_of (sw_history w) m))"

lemma acks_empty: "resend_inv (sw_resend w) xs \<Longrightarrow> history_ok (sw_history w) \<Longrightarrow> acks {} w xs w"
  by (simp add: acks_def waiting_after_def acked_def)

lemma acks_trans:
  assumes "acks A w xs w1" "acks B w1 (waiting_after w A xs) w2"
  shows "acks (A \<union> B) w xs w2"
proof -
  have "acked (sw_history w1) B = acked (sw_history w) (B - A)"
    using assms(1) by (auto simp: acks_def acked_def split: if_splits)
  moreover have "acked (sw_history w) A \<union> acked (sw_history w) (B - A) = acked (sw_history w) (A \<union> B)"
    by (auto simp: acked_def)
  ultimately have "waiting_after w1 B (waiting_after w A xs) = waiting_after w (A \<union> B) xs"
    using assms(1) by (auto simp: waiting_after_def acks_def intro!: filter_cong)
  then show ?thesis using assms by (auto simp: acks_def)
qed

lemma acks_datagram:
  "resend_inv (sw_resend w) xs \<Longrightarrow> history_ok (sw_history w) \<Longrightarrow> acks {n} w xs (ack_datagram pool t n w)"
  using ack_datagram_effect [of w xs pool t n] by (simp add: acks_def waiting_after_def acked_def)

lemma acks_inv: "acks A w xs w' \<Longrightarrow> resend_inv (sw_resend w') (waiting_after w A xs) \<and> history_ok (sw_history w')"
  by (simp add: acks_def)

lemma ack_range_effect:
  assumes "ack_range fuel pool t n mx w = Some (b, w')" "resend_inv (sw_resend w) xs" "history_ok (sw_history w)" "mx \<noteq> - 1"
    and "\<And>m. n \<le> m \<Longrightarrow> m \<le> mx \<Longrightarrow> in_history (sw_history w) m"
  shows "\<not> b \<and> acks {m. n \<le> m \<and> m \<le> mx} w xs w'"
  using assms
proof (induction fuel arbitrary: n w xs)
  case (Suc fuel)
  show ?case
  proof (cases "n \<le> mx")
    case True
    let ?w = "ack_datagram pool t n w"
    have n1: "n + 1 \<le> m \<longleftrightarrow> n < m" for m
    proof -
      have "mx < - 1" using Suc.prems(4) word_order.not_eq_extremum by blast
      then have "n < - 1" using True by (rule order_le_less_trans [rotated])
      then have "unat (n + 1) = unat n + 1" by (rule unat_Suc_word)
      then show ?thesis by (simp add: word_le_nat_alt word_less_nat_alt Suc_le_eq)
    qed
    have ih: "in_history (sw_history w) n" using Suc.prems(5) True by simp
    have rec: "ack_range fuel pool t (n + 1) mx ?w = Some (b, w')"
      using Suc.prems(1) True ih by (simp add: in_history_def not_le)
    note a = acks_datagram [OF Suc.prems(2,3), of n pool t]
    have "in_history (sw_history ?w) m" if "n + 1 \<le> m" "m \<le> mx" for m
      using a Suc.prems(5) [of m] n1 [of m] that by (simp add: acks_def)
    from Suc.IH [OF rec conjunct1 [OF acks_inv [OF a]] conjunct2 [OF acks_inv [OF a]] Suc.prems(4) this]
    have e: "\<not> b" "acks {m. n + 1 \<le> m \<and> m \<le> mx} ?w (waiting_after w {n} xs) w'" by blast+
    have "{n} \<union> {m. n + 1 \<le> m \<and> m \<le> mx} = {m. n \<le> m \<and> m \<le> mx}" unfolding n1 using True by auto
    then show ?thesis using acks_trans [OF a e(2)] e(1) by simp
  next
    case False
    then have "b = False" "w' = w" using Suc.prems(1) by auto
    moreover have "{m. n \<le> m \<and> m \<le> mx} = {}" using False by auto
    ultimately show ?thesis using acks_empty [OF Suc.prems(2,3)] by (simp only:) simp
  qed
qed simp

lemma ack_ranges_effect:
  assumes "resend_inv (sw_resend w) xs" "history_ok (sw_history w)" "\<forall>r \<in> set rs. maxIndex r \<noteq> - 1"
    and "\<And>m. m \<in> range_set rs \<Longrightarrow> in_history (sw_history w) m"
  shows "\<exists>w'. ack_ranges pool t rs w = Some (True, w') \<and> acks (range_set rs) w xs w'"
  using assms
proof (induction rs arbitrary: w xs)
  case Nil
  then show ?case using acks_empty [of w xs] by (auto simp: acks_def waiting_after_def)
next
  case (Cons r rs)
  let ?A = "{m. minIndex r \<le> m \<and> m \<le> maxIndex r}" and ?f = "Queue_Size (datagramHistory (sw_history w)) + 2"
  obtain b w1 where r1: "ack_range ?f pool t (minIndex r) (maxIndex r) w = Some (b, w1)"
    using ack_range_returns [OF Cons.prems(2), of "minIndex r" ?f pool t "maxIndex r"] by fastforce
  have e: "\<not> b" "acks ?A w xs w1"
    using ack_range_effect [OF r1 Cons.prems(1,2)] Cons.prems(3,4) by simp_all
  have "\<exists>w'. ack_ranges pool t rs w1 = Some (True, w') \<and> acks (range_set rs) w1 (waiting_after w ?A xs) w'"
    by (rule Cons.IH) (use acks_inv [OF e(2)] e(2) Cons.prems(3,4) in \<open>auto simp: acks_def\<close>)
  then show ?case
    using acks_trans [OF e(2)] r1 e(1) Cons.prems(3) by (auto simp del: ack_range.simps)
qed

lemma handlers_return:
  assumes "history_ok (sw_history w)"
  shows "\<exists>b w'. handle_ack pool t socketData w = Some (b, w') \<and> history_ok (sw_history w')"
    and "\<exists>b w'. handle_nak t socketData w = Some (b, w') \<and> history_ok (sw_history w')"
proof -
  obtain ok rs bs where d: "RangeList_Deserialize socketData = (ok, rs, bs)" by (metis prod.exhaust)
  obtain out xs where l: "receipt_loop pool rs 0 (unreliableWithAckReceiptHistory w) = (out, xs)" by fastforce
  let ?w = "w\<lparr>sw_output := sw_output w @ out, unreliableWithAckReceiptHistory := xs\<rparr>"
  have "\<exists>b w'. ack_ranges pool t rs ?w = Some (b, w') \<and> history_ok (sw_history w')" by (rule ack_ranges_return) (use assms in simp)
  then show "\<exists>b w'. handle_ack pool t socketData w = Some (b, w') \<and> history_ok (sw_history w')"
    using d l assms by (auto simp: handle_ack_def Let_def simp del: receipt_loop.simps)
  have "\<exists>b w'. nak_ranges t rs w = Some (b, w') \<and> sw_history w' = sw_history w" by (rule nak_ranges_return) (use assms in \<open>simp add: history_ok_def\<close>)
  then show "\<exists>b w'. handle_nak t socketData w = Some (b, w') \<and> history_ok (sw_history w')"
    using d assms by (auto simp: handle_nak_def Let_def)
qed

section \<open>Properties\<close>

text \<open>
  Property C22: the handlers of acknowledgements and loss reports return for every datagram, whatever ranges
  it claims: a range makes at most as many iterations as there are datagrams in the history, so
  that a report of sixteen million datagrams costs no more than the 513 that are remembered.
\<close>

theorem ack_and_nak_return:
  assumes "history_ok (sw_history w)"
  shows "(\<exists>r. handle_ack pool t socketData w = Some r) \<and> (\<exists>r. handle_nak t socketData w = Some r)"
  using handlers_return [OF assms] by blast

definition new_send_window :: SendWindow where
  "new_send_window =
    \<lparr>sw_resend = ResendState_new (\<lambda>_. demo_packet) empty_ring,
     sw_history = \<lparr>datagramHistory = Queue_new, datagramHistoryPopCount = 0\<rparr>,
     unreliableWithAckReceiptHistory = [], receivePacketCount = 0, sw_output = [], sw_events = []\<rparr>"

lemma new_send_window_ok: "history_ok (sw_history new_send_window)" "resend_inv (sw_resend new_send_window) []"
  using resend_inv_new Queue_new_ok by (simp_all add: new_send_window_def history_ok_def Queue_Size_def Queue_new_def)

theorem ack_and_nak_return_witness:
  "\<exists>r. handle_nak 7 (BitStream_new (\<lambda>_. 3)) new_send_window = Some r"
  using ack_and_nak_return [OF new_send_window_ok(1), of demo_packet 7 "BitStream_new (\<lambda>_. 3)"] by blast

text \<open>
  Property C21: an acknowledgement whose ranges decode, do not end at \<open>2\<^sup>2\<^sup>4 - 1\<close> and name only datagrams that are still in the history takes off the resend list
  precisely the messages that were sent in them, keeps every other message waiting in its place,
  keeps the resend list, the buffer and the counters consistent, and leaves the entries of the acknowledged datagrams empty.
\<close>

theorem ack_removes_exactly:
  assumes "resend_inv (sw_resend w) xs" "history_ok (sw_history w)" "RangeList_Deserialize socketData = (True, rs, bs)"
    and "\<forall>r \<in> set rs. maxIndex r \<noteq> - 1" "\<forall>m \<in> range_set rs. in_history (sw_history w) m"
  shows "\<exists>w'. handle_ack pool t socketData w = Some (True, w') \<and>
    resend_inv (sw_resend w')
      (filter (\<lambda>p. \<forall>m \<in> range_set rs. reliableMessageNumber (rs_mem (sw_resend w) p) \<notin> set (messages_of (sw_history w) m)) xs) \<and>
    rs_mem (sw_resend w') = rs_mem (sw_resend w) \<and>
    (\<forall>m. messages_of (sw_history w') m = (if m \<in> range_set rs then [] else messages_of (sw_history w) m))"
proof -
  obtain out us where l: "receipt_loop pool rs 0 (unreliableWithAckReceiptHistory w) = (out, us)" by fastforce
  let ?w = "w\<lparr>sw_output := sw_output w @ out, unreliableWithAckReceiptHistory := us\<rparr>"
  have eq: "waiting_after ?w (range_set rs) xs =
      filter (\<lambda>p. \<forall>m \<in> range_set rs. reliableMessageNumber (rs_mem (sw_resend w) p) \<notin> set (messages_of (sw_history w) m)) xs"
    by (simp add: waiting_after_def acked_def)
  have "\<exists>w'. (if Queue_IsEmpty (datagramHistory (sw_history ?w))
      then Some (True, ?w\<lparr>receivePacketCount := receivePacketCount ?w + 1\<rparr>) else ack_ranges pool t rs ?w) = Some (True, w') \<and>
      acks (range_set rs) ?w xs w'"
  proof (cases "Queue_IsEmpty (datagramHistory (sw_history ?w))")
    case True
    then have z: "Queue_Size (datagramHistory (sw_history w)) = 0"
      using Queue_IsEmpty_list [of "datagramHistory (sw_history w)"] assms(2) unfolding history_ok_def
      by (metis length_queue_list list.size(3) True select_convs(2) surjective update_convs(3,5))
    then have "range_set rs = {}" using assms(5) by (auto simp: in_history_def)
    then show ?thesis using True acks_empty [of ?w xs] assms(1,2) by (auto simp: acks_def waiting_after_def)
  next
    case False
    then show ?thesis using ack_ranges_effect [of ?w xs rs pool t] assms(1,2,4,5) by auto
  qed
  then show ?thesis
    using l assms(3) unfolding acks_def eq by (auto simp: handle_ack_def Let_def simp del: receipt_loop.simps)
qed

text \<open>One message of one datagram waits; the other side acknowledges datagram 0.\<close>

definition one_datagram_sent :: SendWindow where
  "one_datagram_sent = new_send_window\<lparr>
     sw_resend := first_transmission (\<lambda>_. 100) 1 7 (sw_resend new_send_window),
     sw_history := record_datagram (\<lambda>_. \<lparr>node_messages = [], timeSent = 0\<rparr>) 1 [demo_packet\<lparr>reliableMessageNumber := 0\<rparr>]
       (sw_history new_send_window)\<rparr>"

definition ack_stream :: "RangeNode list \<Rightarrow> BitStream" where
  "ack_stream rs = fst (snd (RangeList_Serialize (\<lambda>_. 0) (BitStream_new (\<lambda>_. 3)) 1000 True rs))"

lemma ack_stream_read:
  assumes "range_wf rs" "length rs \<le> 12"
  shows "\<exists>bs. RangeList_Deserialize (ack_stream rs) = (True, rs, bs)"
  using Serialize_Deserialize [OF BitStream_new_inv, of "\<lambda>_. 3" rs 1000 "\<lambda>_. 0"] assms
  by (auto simp: ack_stream_def bs_limit_def)

lemma one_datagram_sent_facts:
  "resend_inv (sw_resend one_datagram_sent) [7]" "history_ok (sw_history one_datagram_sent)"
  "in_history (sw_history one_datagram_sent) 0" "messages_of (sw_history one_datagram_sent) 0 = [0]"
  "reliableMessageNumber (rs_mem (sw_resend one_datagram_sent) 7) = 0"
proof -
  have "resend_inv (first_transmission (\<lambda>_. 100) 1 7 (sw_resend new_send_window)) ([] @ [7])"
    by (rule first_transmission_inv [OF new_send_window_ok(2)])
      (simp_all add: new_send_window_def ResendState_new_def demo_packet_def is_reliable_def ResendBufferOverflow_def
        buffer_index_def RESEND_BUFFER_ARRAY_LENGTH_def)
  then show "resend_inv (sw_resend one_datagram_sent) [7]" by (simp add: one_datagram_sent_def)
  let ?f = "\<lambda>_. \<lparr>node_messages = [], timeSent = 0\<rparr>" and ?n = "\<lparr>node_messages = [0], timeSent = 1\<rparr>"
  let ?q = "Queue_Push ?f ?n Queue_new"
  have h: "sw_history one_datagram_sent = \<lparr>datagramHistory = ?q, datagramHistoryPopCount = 0\<rparr>"
    by (simp add: one_datagram_sent_def record_datagram_def AddFirstToDatagramHistory_def trim_history_def new_send_window_def
        demo_packet_def Queue_Size_def Queue_new_def DATAGRAM_MESSAGE_ID_ARRAY_LENGTH_def Let_def)
  have q: "queue_ok ?q" "queue_list ?q = [?n]" by (simp_all add: rq.push_law [OF Queue_new_ok] Queue_new_list)
  then have "Queue_Size ?q = 1" using length_queue_list [of ?q] by (simp del: length_queue_list)
  then show "history_ok (sw_history one_datagram_sent)" "in_history (sw_history one_datagram_sent) 0"
    "messages_of (sw_history one_datagram_sent) 0 = [0]"
    using q by (simp_all add: h history_ok_def in_history_def messages_of_def)
  show "reliableMessageNumber (rs_mem (sw_resend one_datagram_sent) 7) = 0"
    by (simp add: one_datagram_sent_def first_transmission_def InsertPacketIntoResendList_def AddToListTail_def
        new_send_window_def ResendState_new_def Let_def)
qed

theorem ack_removes_exactly_witness:
  "\<exists>w'. handle_ack demo_packet 9 (ack_stream [RangeNode_of 0 0]) one_datagram_sent = Some (True, w') \<and>
    resend_inv (sw_resend w') []"
proof -
  have "range_wf [RangeNode_of 0 0]" by (simp add: range_wf_def range_valid_def)
  then obtain bs where "RangeList_Deserialize (ack_stream [RangeNode_of 0 0]) = (True, [RangeNode_of 0 0], bs)"
    using ack_stream_read by fastforce
  from ack_removes_exactly [OF one_datagram_sent_facts(1,2) this, of demo_packet 9]
  show ?thesis using one_datagram_sent_facts(3-5) by auto
qed

text \<open>
  An acknowledgement whose first range starts with a datagram that has already left the
  history (or was never sent) is dropped as a whole, although the ranges may name datagrams that
  are in the history: no message is taken off the resend list and nothing is forgotten, so that all
  of them are sent again.
\<close>

theorem stale_ack_dropped:
  assumes "RangeList_Deserialize socketData = (True, r # rs, bs)" "maxIndex r \<noteq> - 1" "minIndex r \<le> maxIndex r"
    and "\<not> in_history (sw_history w) (minIndex r)"
  shows "\<exists>w'. handle_ack pool t socketData w = Some (True, w') \<and> sw_resend w' = sw_resend w \<and> sw_history w' = sw_history w"
proof -
  obtain out us where l: "receipt_loop pool (r # rs) 0 (unreliableWithAckReceiptHistory w) = (out, us)" by fastforce
  let ?w = "w\<lparr>sw_output := sw_output w @ out, unreliableWithAckReceiptHistory := us\<rparr>"
  have "ack_ranges pool t (r # rs) ?w = Some (True, ?w\<lparr>receivePacketCount := receivePacketCount ?w + 1\<rparr>)"
    using assms(2-4) by (simp add: in_history_def)
  then show ?thesis using assms(1) l by (simp add: handle_ack_def Let_def del: receipt_loop.simps ack_ranges.simps)
qed

theorem stale_ack_dropped_witness:
  "\<exists>w'. handle_ack demo_packet 9 (ack_stream [RangeNode_of 3 4])
      (one_datagram_sent\<lparr>sw_history := (sw_history one_datagram_sent)\<lparr>datagramHistoryPopCount := 4\<rparr>\<rparr>) = Some (True, w') \<and>
    sw_resend w' = sw_resend one_datagram_sent"
proof -
  let ?w = "one_datagram_sent\<lparr>sw_history := (sw_history one_datagram_sent)\<lparr>datagramHistoryPopCount := 4\<rparr>\<rparr>"
  have "range_wf [RangeNode_of 3 4]" by (simp add: range_wf_def range_valid_def)
  then obtain bs where r: "RangeList_Deserialize (ack_stream [RangeNode_of 3 4]) = (True, [RangeNode_of 3 4], bs)"
    using ack_stream_read by fastforce
  have "Queue_Size (datagramHistory (sw_history ?w)) \<le> 513"
    using one_datagram_sent_facts(2) by (simp add: history_ok_def)
  moreover have "unat (3 - 4 :: u24) = 16777215" using unat_sub_wrap [of 3 "4 :: u24"] by (simp add: word_le_nat_alt)
  ultimately have "\<not> in_history (sw_history ?w) (minIndex (RangeNode_of 3 4))" by (simp add: in_history_def del: diff_numeral_simps)
  from stale_ack_dropped [OF r _ _ this, of demo_packet 9] show ?thesis by auto
qed

section \<open>What the history remembers\<close>

definition numbers_of :: "InternalPacket list \<Rightarrow> u24 list" where
  "numbers_of packets =
    map reliableMessageNumber (filter (\<lambda>ip. reliability ip \<noteq> Unreliable \<and> reliability ip \<noteq> UnreliableSequenced) packets)"

definition node_of :: "u64 \<times> InternalPacket list \<Rightarrow> DatagramHistoryNode" where
  "node_of d = \<lparr>node_messages = numbers_of (snd d), timeSent = fst d\<rparr>"

text \<open>After the datagrams \<open>ds\<close> were sent, the history holds the last 513 of them.\<close>

definition history_of :: "DatagramHistory \<Rightarrow> (u64 \<times> InternalPacket list) list \<Rightarrow> bool" where
  "history_of h ds \<longleftrightarrow> queue_ok (datagramHistory h) \<and> datagramHistoryPopCount h = of_nat (length ds - 513) \<and>
    queue_list (datagramHistory h) = map node_of (drop (length ds - 513) ds)"

lemma trim_history_of:
  assumes "history_of h ds"
  shows "queue_ok (datagramHistory (trim_history h))"
    "datagramHistoryPopCount (trim_history h) = of_nat (Suc (length ds) - 513)"
    "queue_list (datagramHistory (trim_history h)) = map node_of (drop (Suc (length ds) - 513) ds)"
proof -
  let ?k = "length ds - 513" and ?q = "datagramHistory h"
  have q: "queue_ok ?q" and l: "queue_list ?q = map node_of (drop ?k ds)" and c: "datagramHistoryPopCount h = of_nat ?k"
    using assms by (simp_all add: history_of_def)
  have sz: "Queue_Size ?q = length ds - ?k" using length_queue_list [of ?q] unfolding l by (simp del: length_queue_list)
  have "queue_ok (datagramHistory (trim_history h)) \<and> datagramHistoryPopCount (trim_history h) = of_nat (Suc (length ds) - 513) \<and>
      queue_list (datagramHistory (trim_history h)) = map node_of (drop (Suc (length ds) - 513) ds)"
  proof (cases "Queue_Size ?q > 512")
    case False
    then have "length ds \<le> 512" using sz by linarith
    then show ?thesis using False q l c by (simp add: trim_history_def DATAGRAM_MESSAGE_ID_ARRAY_LENGTH_def)
  next
    case True
    then have len: "513 \<le> length ds" "Suc (length ds) - 513 = Suc ?k" "?k < length ds" using sz by linarith+
    let ?n = "(Queue_nth ?q (unat (0 :: u24)))\<lparr>node_messages := []\<rparr>"
    let ?q1 = "Queue_set ?q 0 ?n"
    have q1: "queue_ok ?q1" "queue_list ?q1 = (queue_list ?q)[0 := ?n]" using Queue_set_refine [OF q, of 0 ?n] True by simp_all
    have ne: "queue_list ?q1 \<noteq> []" using q1(2) l len by simp
    have t: "trim_history h = h\<lparr>datagramHistory := snd (Queue_Pop ?q1), datagramHistoryPopCount := datagramHistoryPopCount h + 1\<rparr>"
      using True by (simp add: trim_history_def RemoveFromDatagramHistory_def DATAGRAM_MESSAGE_ID_ARRAY_LENGTH_def Let_def)
    have "tl (queue_list ?q1) = map node_of (drop (Suc ?k) ds)"
      unfolding q1(2) l using len(3) by (simp add: Cons_nth_drop_Suc [symmetric])
    then show ?thesis
      using rq.pop_law [OF q1(1) ne] c len(2) by (simp add: t)
  qed
  then show "queue_ok (datagramHistory (trim_history h))"
    "datagramHistoryPopCount (trim_history h) = of_nat (Suc (length ds) - 513)"
    "queue_list (datagramHistory (trim_history h)) = map node_of (drop (Suc (length ds) - 513) ds)" by simp_all
qed

lemma AddSubsequent_many:
  fixes ips
  assumes "queue_ok (datagramHistory h)" "queue_list (datagramHistory h) = ns @ [\<lparr>node_messages = ms, timeSent = t\<rparr>]"
  defines "h' \<equiv> fold (\<lambda>q. AddSubsequentToDatagramHistory (reliableMessageNumber q)) ips h"
  shows "queue_ok (datagramHistory h') \<and> datagramHistoryPopCount h' = datagramHistoryPopCount h \<and>
    queue_list (datagramHistory h') = ns @ [\<lparr>node_messages = ms @ map reliableMessageNumber ips, timeSent = t\<rparr>]"
  using assms(1,2) unfolding h'_def
proof (induction ips arbitrary: h ms)
  case (Cons ip ips)
  let ?q = "datagramHistory h" and ?n = "\<lparr>node_messages = ms @ [reliableMessageNumber ip], timeSent = t\<rparr>"
  have sz: "Queue_Size ?q = Suc (length ns)" using length_queue_list [of ?q] unfolding Cons.prems(2) by (simp del: length_queue_list)
  have "Queue_nth ?q (length ns) = \<lparr>node_messages = ms, timeSent = t\<rparr>"
    using Queue_nth_refine [OF Cons.prems(1), of "length ns"] sz Cons.prems(2) by simp
  then have h: "AddSubsequentToDatagramHistory (reliableMessageNumber ip) h = h\<lparr>datagramHistory := Queue_set ?q (length ns) ?n\<rparr>"
    using sz by (simp add: AddSubsequentToDatagramHistory_def Let_def)
  have "queue_ok (Queue_set ?q (length ns) ?n)" "queue_list (Queue_set ?q (length ns) ?n) = ns @ [?n]"
    using Queue_set_refine [OF Cons.prems(1), of "length ns" ?n] sz Cons.prems(2) by simp_all
  from Cons.IH [of "h\<lparr>datagramHistory := Queue_set ?q (length ns) ?n\<rparr>", simplified, OF this]
  show ?case unfolding fold_Cons comp_def h by simp
qed simp

lemma record_datagram_history_of:
  assumes "history_of h ds"
  shows "history_of (record_datagram fresh time packets h) (ds @ [(time, packets)])"
proof -
  note t = trim_history_of [OF assms]
  let ?k = "Suc (length ds) - 513"
  have drop: "map node_of (drop ?k (ds @ [(time, packets)])) = map node_of (drop ?k ds) @ [node_of (time, packets)]" by simp
  let ?f = "filter (\<lambda>ip. reliability ip \<noteq> Unreliable \<and> reliability ip \<noteq> UnreliableSequenced) packets"
  show ?thesis
  proof (cases ?f)
    case Nil
    then have "node_of (time, packets) = \<lparr>node_messages = [], timeSent = time\<rparr>" by (simp add: node_of_def numbers_of_def)
    then show ?thesis
      using Nil t rq.push_law [OF t(1)] drop
      by (simp add: history_of_def record_datagram_def AddFirstToDatagramHistory_empty_def Let_def)
  next
    case (Cons ip ips)
    let ?h = "AddFirstToDatagramHistory fresh (reliableMessageNumber ip) time h"
    have "queue_ok (datagramHistory ?h)"
        "queue_list (datagramHistory ?h) = map node_of (drop ?k ds) @ [\<lparr>node_messages = [reliableMessageNumber ip], timeSent = time\<rparr>]"
      using t rq.push_law [OF t(1)] by (simp_all add: AddFirstToDatagramHistory_def Let_def)
    from AddSubsequent_many [OF this, of ips]
    show ?thesis
      using Cons t(2) drop
      by (simp add: history_of_def record_datagram_def node_of_def numbers_of_def AddFirstToDatagramHistory_def Let_def)
  qed
qed

lemma record_all_history_of:
  "history_of (fold (\<lambda>d. record_datagram fresh (fst d) (snd d)) ds \<lparr>datagramHistory = Queue_new, datagramHistoryPopCount = 0\<rparr>) ds"
proof (induction ds rule: rev_induct)
  case Nil
  then show ?case using Queue_new_ok Queue_new_list by (simp add: history_of_def)
next
  case (snoc d ds)
  from record_datagram_history_of [OF this, of fresh "fst d" "snd d"] show ?case by simp
qed

text \<open>
  The history answers for the last 513 datagrams: after any sequence of datagrams has been
  sent, numbered consecutively from zero with wrap-around at 24 bits, looking up one of the last
  513 numbers gives the time it was sent and the numbers of exactly those of its messages that
  need an acknowledgement, in order.
\<close>

theorem history_remembers:
  assumes "i < length ds" "length ds \<le> i + 513" "numbers_of (snd (ds ! i)) \<noteq> []"
  shows "GetMessageNumberNodeByDatagramIndex (of_nat i)
      (fold (\<lambda>d. record_datagram fresh (fst d) (snd d)) ds \<lparr>datagramHistory = Queue_new, datagramHistoryPopCount = 0\<rparr>) =
    Some (numbers_of (snd (ds ! i)), fst (ds ! i))"
proof -
  let ?h = "fold (\<lambda>d. record_datagram fresh (fst d) (snd d)) ds \<lparr>datagramHistory = Queue_new, datagramHistoryPopCount = 0\<rparr>"
  let ?k = "length ds - 513"
  have h: "queue_ok (datagramHistory ?h)" "datagramHistoryPopCount ?h = of_nat ?k"
      "queue_list (datagramHistory ?h) = map node_of (drop ?k ds)"
    using record_all_history_of [of fresh ds] by (simp_all add: history_of_def)
  have sz: "Queue_Size (datagramHistory ?h) = length ds - ?k"
    using length_queue_list [of "datagramHistory ?h"] unfolding h(3) by (simp del: length_queue_list)
  have ok: "history_ok ?h" using h(1) sz by (simp add: history_ok_def)
  have o: "unat (of_nat i - datagramHistoryPopCount ?h) = i - ?k"
    unfolding h(2) by (rule unat_u24_diff) (use assms in linarith)+
  then have ih: "in_history ?h (of_nat i)" using assms sz by (simp add: in_history_def)
  have n: "queue_list (datagramHistory ?h) ! (i - ?k) = node_of (ds ! i)" using h(3) assms by simp
  have e: "\<not> Queue_IsEmpty (datagramHistory ?h)" using Queue_IsEmpty_list [OF h(1)] h(3) assms by simp
  show ?thesis
    using in_history_not_older [OF ok ih] ih o n e Queue_nth_refine [OF h(1), of "i - ?k"] assms(3)
    by (simp add: GetMessageNumberNodeByDatagramIndex_def in_history_def Let_def node_of_def)
qed

theorem history_remembers_witness:
  "GetMessageNumberNodeByDatagramIndex 1
      (fold (\<lambda>d. record_datagram (\<lambda>_. \<lparr>node_messages = [], timeSent = 0\<rparr>) (fst d) (snd d)) [(4, []), (6, [demo_packet, demo_packet])]
        \<lparr>datagramHistory = Queue_new, datagramHistoryPopCount = 0\<rparr>) = Some ([5, 5], 6)"
  using history_remembers [of 1 "[(4, []), (6, [demo_packet, demo_packet])]" "\<lambda>_. \<lparr>node_messages = [], timeSent = 0\<rparr>"]
  by (simp add: numbers_of_def demo_packet_def)

end
