(* ===== verification/Double_Arith.thy ===== *)
theory Double_Arith
  imports Prelude Complex_Main
begin

text \<open>
  The arithmetic of \<^verbatim>\<open>double\<close> as the congestion control uses it: a real number rounded to the nearest number
  with 53 significant bits, ties to even.  The values are times and byte counts, far from the
  limits of the exponent, which is unbounded here.  What the proofs need is that rounding is
  monotone, exact on integers of 53 bits and at most doubles a magnitude.
\<close>

definition round_even :: "real \<Rightarrow> int" where
  "round_even r =
    (let f = \<lfloor>r\<rfloor>; d = r - of_int f
     in if d < 1 / 2 then f else if d > 1 / 2 then f + 1 else if even f then f else f + 1)"

definition ulp_exp :: "real \<Rightarrow> int" where
  "ulp_exp x = \<lfloor>log 2 \<bar>x\<bar>\<rfloor> - 52"

definition ulp :: "real \<Rightarrow> real" where
  "ulp x = 2 powr of_int (ulp_exp x)"

definition double :: "real \<Rightarrow> real" where
  "double x = (if x = 0 then 0 else of_int (round_even (x / ulp x)) * ulp x)"

text \<open>Conversions; a value outside the range of the target is undefined behaviour, None.\<close>

definition double_to_int :: "real \<Rightarrow> int option" where
  "double_to_int x = (if - 2147483649 < x \<and> x < 2147483648 then Some (if x < 0 then \<lceil>x\<rceil> else \<lfloor>x\<rfloor>) else None)"

definition double_to_u64 :: "real \<Rightarrow> u64 option" where
  "double_to_u64 x = (if - 1 < x \<and> x < 18446744073709551616 then Some (of_int (if x < 0 then \<lceil>x\<rceil> else \<lfloor>x\<rfloor>)) else None)"

section \<open>Rounding\<close>

lemma round_even_near: "\<bar>of_int (round_even r) - r\<bar> \<le> 1 / 2"
  using floor_correct [of r] by (auto simp: round_even_def Let_def)

lemma round_even_int [simp]: "round_even (of_int k) = k"
  by (simp add: round_even_def)

lemma round_even_mono: "r \<le> s \<Longrightarrow> round_even r \<le> round_even s"
proof (cases "\<lfloor>r\<rfloor> = \<lfloor>s\<rfloor>")
  case True
  assume "r \<le> s"
  then show ?thesis using True by (simp add: round_even_def Let_def)
next
  case False
  assume "r \<le> s"
  then have "\<lfloor>r\<rfloor> + 1 \<le> \<lfloor>s\<rfloor>" using False floor_mono [of r s] by linarith
  moreover have "round_even r \<le> \<lfloor>r\<rfloor> + 1" "\<lfloor>s\<rfloor> \<le> round_even s" by (simp_all add: round_even_def Let_def)
  ultimately show ?thesis by linarith
qed

lemma ulp_pos [simp]: "0 < ulp x"
  by (simp add: ulp_def)

lemma ulp_bounds:
  assumes "0 < x"
  shows "4503599627370496 * ulp x \<le> x" "x < 9007199254740992 * ulp x"
proof -
  let ?e = "of_int \<lfloor>log 2 x\<rfloor> :: real"
  have f: "?e \<le> log 2 x" "log 2 x < ?e + 1" by linarith+
  have lo: "2 powr ?e \<le> x" using f(1) assms le_log_iff [of 2 x ?e] by simp
  have hi: "x < 2 powr (?e + 1)" using f(2) assms log_less_iff [of 2 x "?e + 1"] by simp
  have u: "ulp x = 2 powr ?e / 4503599627370496"
    using assms by (simp add: ulp_def ulp_exp_def powr_diff)
  show "4503599627370496 * ulp x \<le> x" using lo by (simp add: u)
  show "x < 9007199254740992 * ulp x" using hi by (simp add: u powr_add)
qed

lemma double_0 [simp]: "double 0 = 0"
  by (simp add: double_def)

lemma double_bounds:
  assumes "0 < x"
  shows "4503599627370496 * ulp x \<le> double x" "double x \<le> 9007199254740992 * ulp x"
proof -
  have "4503599627370496 \<le> x / ulp x" "x / ulp x \<le> 9007199254740992"
    using ulp_bounds [OF assms] by (simp_all add: pos_le_divide_eq pos_divide_le_eq)
  then have "round_even (of_int 4503599627370496) \<le> round_even (x / ulp x)" "round_even (x / ulp x) \<le> round_even (of_int 9007199254740992)"
    by (intro round_even_mono; simp)+
  then have "4503599627370496 \<le> round_even (x / ulp x)" "round_even (x / ulp x) \<le> 9007199254740992"
    by (simp_all only: round_even_int)
  then have r: "4503599627370496 \<le> real_of_int (round_even (x / ulp x))" "real_of_int (round_even (x / ulp x)) \<le> 9007199254740992"
    by linarith+
  show "4503599627370496 * ulp x \<le> double x" "double x \<le> 9007199254740992 * ulp x"
    using assms r by (simp_all add: double_def)
qed

lemma ulp_cases: "0 < x \<Longrightarrow> x \<le> y \<Longrightarrow> ulp x = ulp y \<or> 2 * ulp x \<le> ulp y"
proof -
  assume a: "0 < x" "x \<le> y"
  then have "ulp_exp x \<le> ulp_exp y" by (auto simp: ulp_exp_def intro!: floor_mono)
  then consider "ulp_exp x = ulp_exp y" | "ulp_exp x + 1 \<le> ulp_exp y" by linarith
  then show ?thesis
  proof cases
    case 2
    then have "2 powr (of_int (ulp_exp x) + 1) \<le> (2 :: real) powr of_int (ulp_exp y)" by (intro powr_mono) linarith+
    then show ?thesis by (simp add: ulp_def powr_add)
  qed (simp add: ulp_def)
qed

lemma double_mono_pos: "0 < x \<Longrightarrow> x \<le> y \<Longrightarrow> double x \<le> double y"
proof -
  assume a: "0 < x" "x \<le> y"
  show "double x \<le> double y" using ulp_cases [OF a]
  proof
    assume u: "ulp x = ulp y"
    have "round_even (x / ulp x) \<le> round_even (y / ulp y)"
      by (rule round_even_mono) (use a u in \<open>simp add: divide_right_mono less_imp_le\<close>)
    then show ?thesis using a u by (simp add: double_def mult_right_mono less_imp_le)
  next
    assume "2 * ulp x \<le> ulp y"
    then show ?thesis using double_bounds(2) [of x] double_bounds(1) [of y] a by linarith
  qed
qed

lemma double_nonneg: "0 \<le> x \<Longrightarrow> 0 \<le> double x"
  using double_bounds(1) [of x] ulp_pos [of x] by (cases "x = 0") (simp, linarith)

lemma double_le_twice: "0 \<le> x \<Longrightarrow> double x \<le> 2 * x"
  using double_bounds(2) [of x] ulp_bounds(1) [of x] by (cases "x = 0") (simp, linarith)

lemma ulp_uminus [simp]: "ulp (- x) = ulp x"
  by (simp add: ulp_def ulp_exp_def)

lemma round_even_uminus: "round_even (- r) = - round_even r"
proof -
  have "\<lfloor>- r\<rfloor> = (if r = of_int \<lfloor>r\<rfloor> then - \<lfloor>r\<rfloor> else - \<lfloor>r\<rfloor> - 1)"
  proof -
    have "\<lfloor>- r\<rfloor> = - \<lceil>r\<rceil>" by (simp add: ceiling_def)
    then show ?thesis by (auto simp: ceiling_altdef)
  qed
  then show ?thesis by (auto simp: round_even_def Let_def)
qed

lemma double_uminus [simp]: "double (- x) = - double x"
  by (simp add: double_def round_even_uminus)

lemma double_mono:
  assumes "x \<le> y"
  shows "double x \<le> double y"
proof (cases "0 < x")
  case True
  then show ?thesis using double_mono_pos [OF True assms] by simp
next
  case False
  then have x: "double x \<le> 0" using double_nonneg [of "- x"] by simp
  show ?thesis
  proof (cases "y < 0")
    case True
    then show ?thesis using double_mono_pos [of "- y" "- x"] assms by simp
  next
    case False
    then show ?thesis using x double_nonneg [of y] by linarith
  qed
qed

lemma double_abs_le: "\<bar>double x\<bar> \<le> 2 * \<bar>x\<bar>"
  using double_le_twice [of x] double_le_twice [of "- x"] double_nonneg [of x] double_nonneg [of "- x"] by (cases "0 \<le> x") auto

lemma double_nat:
  assumes "n < 9007199254740992"
  shows "double (real n) = real n"
proof (cases "n = 0")
  case False
  let ?x = "real n"
  have x: "0 < ?x" using False by simp
  have "ulp_exp ?x \<le> 0"
  proof (rule ccontr)
    assume "\<not> ulp_exp ?x \<le> 0"
    then have "(2 :: real) powr 1 \<le> ulp ?x" unfolding ulp_def by (intro powr_mono) auto
    then have "9007199254740992 \<le> ?x" using ulp_bounds(1) [OF x] by simp
    then show False using assms by linarith
  qed
  then obtain k where k: "ulp_exp ?x = - int k" by (metis nonpos_int_cases)
  have u: "ulp ?x = 1 / 2 ^ k" by (simp add: ulp_def k powr_minus powr_realpow divide_inverse)
  have "?x / ulp ?x = of_int (int n * 2 ^ k)" by (simp add: u)
  then have "double ?x = of_int (int n * 2 ^ k) * ulp ?x" using x by (simp only: double_def round_even_int) simp
  then show ?thesis by (simp add: u)
qed simp

lemma double_ge_nat: "n < 9007199254740992 \<Longrightarrow> real n \<le> x \<Longrightarrow> real n \<le> double x"
  using double_mono [of "real n" x] double_nat [of n] by simp


end
