(* ===== verification/Sliding_Window.thy ===== *)
theory Sliding_Window
  imports Double_Arith Uint24
begin

text \<open>
  The congestion control of \<^verbatim>\<open>cc_sliding_window.cpp\<close>: the window of bytes that may be on the wire, the
  estimate of the round trip time and the retransmission timeout, the numbers of outgoing and the expected number of incoming
  datagrams.  Every result of floating point arithmetic is rounded by \<open>double\<close>.
\<close>

section \<open>State and operations\<close>

record CCRakNetSlidingWindow =
  MAXIMUM_MTU_INCLUDING_UDP_HEADER :: u32
  cwnd :: real
  ssThresh :: real
  oldestUnsentAck :: u64
  nextDatagramSequenceNumber :: u24
  nextCongestionControlBlock :: u24
  backoffThisBlock :: bool
  speedUpThisBlock :: bool
  expectedNextSequenceNumber :: u24
  cc_isContinuousSend :: bool
  lastRtt :: real
  estimatedRTT :: real
  deviationRtt :: real

definition UNSET_TIME_US :: real where
  "UNSET_TIME_US = - 1"

definition SYN :: u64 where
  "SYN = 10000"

text \<open>A word as a number of type \<^verbatim>\<open>double\<close>.\<close>

definition dbl :: "'a::len word \<Rightarrow> real" where
  "dbl w = double (real (unat w))"

definition CC_Init :: "u32 \<Rightarrow> CCRakNetSlidingWindow" where
  "CC_Init maxDatagramPayload =
    \<lparr>MAXIMUM_MTU_INCLUDING_UDP_HEADER = maxDatagramPayload, cwnd = dbl maxDatagramPayload, ssThresh = 0,
     oldestUnsentAck = 0, nextDatagramSequenceNumber = 0, nextCongestionControlBlock = 0,
     backoffThisBlock = False, speedUpThisBlock = False, expectedNextSequenceNumber = 0, cc_isContinuousSend = False,
     lastRtt = UNSET_TIME_US, estimatedRTT = UNSET_TIME_US, deviationRtt = UNSET_TIME_US\<rparr>"

definition GetRetransmissionBandwidth :: "u32 \<Rightarrow> int" where
  "GetRetransmissionBandwidth unacknowledgedBytes = sint unacknowledgedBytes"

text \<open>The cast to \<^verbatim>\<open>int\<close> is undefined when the window is too large.\<close>

definition GetTransmissionBandwidth :: "u32 \<Rightarrow> bool \<Rightarrow> CCRakNetSlidingWindow \<Rightarrow> int option \<times> CCRakNetSlidingWindow" where
  "GetTransmissionBandwidth unacknowledgedBytes isContinuousSend cc =
    (if dbl unacknowledgedBytes \<le> cwnd cc then double_to_int (double (cwnd cc - dbl unacknowledgedBytes)) else Some 0,
     cc\<lparr>cc_isContinuousSend := isContinuousSend\<rparr>)"

definition GetSenderRTOForACK :: "CCRakNetSlidingWindow \<Rightarrow> u64 option" where
  "GetSenderRTOForACK cc =
    (if lastRtt cc = UNSET_TIME_US then Some (- 1) else double_to_u64 (double (lastRtt cc + dbl SYN)))"

definition ShouldSendACKs :: "u64 \<Rightarrow> CCRakNetSlidingWindow \<Rightarrow> bool option" where
  "ShouldSendACKs curTime cc =
    (case GetSenderRTOForACK cc of
       None \<Rightarrow> None
     | Some rto \<Rightarrow> Some (if rto = - 1 then True else curTime \<ge> oldestUnsentAck cc + SYN))"

definition GetAndIncrementNextDatagramSequenceNumber :: "CCRakNetSlidingWindow \<Rightarrow> u24 \<times> CCRakNetSlidingWindow" where
  "GetAndIncrementNextDatagramSequenceNumber cc =
    (nextDatagramSequenceNumber cc, cc\<lparr>nextDatagramSequenceNumber := nextDatagramSequenceNumber cc + 1\<rparr>)"

text \<open>The result is None when the datagram is refused, else the number of datagrams skipped.\<close>

definition OnGotPacket :: "u24 \<Rightarrow> u64 \<Rightarrow> CCRakNetSlidingWindow \<Rightarrow> u32 option \<times> CCRakNetSlidingWindow" where
  "OnGotPacket n curTime cc0 =
    (let cc = (if oldestUnsentAck cc0 = 0 then cc0\<lparr>oldestUnsentAck := curTime\<rparr> else cc0)
     in if n = expectedNextSequenceNumber cc then (Some 0, cc\<lparr>expectedNextSequenceNumber := n + 1\<rparr>)
        else if CC_GreaterThan n (expectedNextSequenceNumber cc) then
          let skippedMessageCount = (ucast (n - expectedNextSequenceNumber cc) :: u32)
          in if skippedMessageCount > 1000 then
               if skippedMessageCount > 50000 then (None, cc)
               else (Some 1000, cc\<lparr>expectedNextSequenceNumber := n + 1\<rparr>)
             else (Some skippedMessageCount, cc\<lparr>expectedNextSequenceNumber := n + 1\<rparr>)
        else (Some 0, cc))"

definition OnResend :: "CCRakNetSlidingWindow \<Rightarrow> CCRakNetSlidingWindow" where
  "OnResend cc =
    (let mtu = MAXIMUM_MTU_INCLUDING_UDP_HEADER cc
     in if cc_isContinuousSend cc \<and> \<not> backoffThisBlock cc \<and> cwnd cc > dbl (mtu * 2) then
          let half = double (cwnd cc / 2)
          in cc\<lparr>ssThresh := (if half < dbl mtu then dbl mtu else half), cwnd := dbl mtu,
                nextCongestionControlBlock := nextDatagramSequenceNumber cc, backoffThisBlock := True\<rparr>
        else cc)"

definition OnNAK :: "CCRakNetSlidingWindow \<Rightarrow> CCRakNetSlidingWindow" where
  "OnNAK cc =
    (if cc_isContinuousSend cc \<and> \<not> backoffThisBlock cc then cc\<lparr>ssThresh := double (cwnd cc / 2)\<rparr> else cc)"

definition IsInSlowStart :: "CCRakNetSlidingWindow \<Rightarrow> bool" where
  "IsInSlowStart cc \<longleftrightarrow> cwnd cc \<le> ssThresh cc \<or> ssThresh cc = 0"

definition update_rtt :: "u64 \<Rightarrow> CCRakNetSlidingWindow \<Rightarrow> CCRakNetSlidingWindow" where
  "update_rtt rtt cc0 =
    (let cc = cc0\<lparr>lastRtt := dbl rtt\<rparr>
     in if estimatedRTT cc = UNSET_TIME_US then cc\<lparr>estimatedRTT := dbl rtt, deviationRtt := dbl rtt\<rparr>
        else
          let d = double (5 / 100);
              difference = double (dbl rtt - estimatedRTT cc)
          in cc\<lparr>estimatedRTT := double (estimatedRTT cc + double (d * difference)),
                deviationRtt := double (deviationRtt cc + double (d * double (\<bar>difference\<bar> - deviationRtt cc)))\<rparr>)"

definition OnAck :: "u64 \<Rightarrow> bool \<Rightarrow> u24 \<Rightarrow> CCRakNetSlidingWindow \<Rightarrow> CCRakNetSlidingWindow" where
  "OnAck rtt isContinuousSend sequenceNumber cc0 =
    (let cc1 = (update_rtt rtt cc0)\<lparr>cc_isContinuousSend := isContinuousSend\<rparr>
     in if \<not> isContinuousSend then cc1
        else
          let isNew = CC_GreaterThan sequenceNumber (nextCongestionControlBlock cc1);
              cc2 = (if isNew then cc1\<lparr>backoffThisBlock := False, speedUpThisBlock := False,
                                      nextCongestionControlBlock := nextDatagramSequenceNumber cc1\<rparr> else cc1);
              mtu = MAXIMUM_MTU_INCLUDING_UDP_HEADER cc2
          in if IsInSlowStart cc2 then
               let w = double (cwnd cc2 + dbl mtu)
               in cc2\<lparr>cwnd := (if w > ssThresh cc2 \<and> ssThresh cc2 \<noteq> 0
                               then double (ssThresh cc2 + double (dbl (mtu * mtu) / w)) else w)\<rparr>
             else if isNew then cc2\<lparr>cwnd := double (cwnd cc2 + double (dbl (mtu * mtu) / cwnd cc2))\<rparr>
             else cc2)"

definition OnSendAck :: "CCRakNetSlidingWindow \<Rightarrow> CCRakNetSlidingWindow" where
  "OnSendAck cc = cc\<lparr>oldestUnsentAck := 0\<rparr>"

definition GetRTOForRetransmission :: "CCRakNetSlidingWindow \<Rightarrow> u64 option" where
  "GetRTOForRetransmission cc =
    (if estimatedRTT cc = UNSET_TIME_US then Some 2000000
     else
       case double_to_u64 (double (double (2 * estimatedRTT cc) + double (4 * deviationRtt cc))) of
         None \<Rightarrow> None
       | Some t \<Rightarrow>
           let threshhold = t + 30000
           in Some (if threshhold > 2000000 then 2000000 else threshhold))"

definition SetMTU :: "u32 \<Rightarrow> CCRakNetSlidingWindow \<Rightarrow> CCRakNetSlidingWindow" where
  "SetMTU bytes cc = cc\<lparr>MAXIMUM_MTU_INCLUDING_UDP_HEADER := bytes\<rparr>"

definition GetRTT :: "CCRakNetSlidingWindow \<Rightarrow> real" where
  "GetRTT cc = (if lastRtt cc = UNSET_TIME_US then 0 else lastRtt cc)"

section \<open>The calls of the reliability layer\<close>

inductive cc_run :: "CCRakNetSlidingWindow \<Rightarrow> bool" where
  cc_init: "0 < mtu \<Longrightarrow> mtu \<le> 1400 \<Longrightarrow> cc_run (CC_Init mtu)"
| cc_bandwidth: "cc_run cc \<Longrightarrow> cc_run (snd (GetTransmissionBandwidth n b cc))"
| cc_number: "cc_run cc \<Longrightarrow> cc_run (snd (GetAndIncrementNextDatagramSequenceNumber cc))"
| cc_got: "cc_run cc \<Longrightarrow> cc_run (snd (OnGotPacket n t cc))"
| cc_resend: "cc_run cc \<Longrightarrow> cc_run (OnResend cc)"
| cc_nak: "cc_run cc \<Longrightarrow> cc_run (OnNAK cc)"
| cc_ack: "cc_run cc \<Longrightarrow> cc_run (OnAck rtt b n cc)"
| cc_sent: "cc_run cc \<Longrightarrow> cc_run (OnSendAck cc)"
| cc_mtu: "cc_run cc \<Longrightarrow> 0 < bytes \<Longrightarrow> bytes \<le> MAXIMUM_MTU_INCLUDING_UDP_HEADER cc \<Longrightarrow> cc_run (SetMTU bytes cc)"

definition cc_inv :: "CCRakNetSlidingWindow \<Rightarrow> bool" where
  "cc_inv cc \<longleftrightarrow> 0 < MAXIMUM_MTU_INCLUDING_UDP_HEADER cc \<and> MAXIMUM_MTU_INCLUDING_UDP_HEADER cc \<le> 1400 \<and>
    real (unat (MAXIMUM_MTU_INCLUDING_UDP_HEADER cc)) \<le> cwnd cc"

declare of_nat_unat [simp del]

lemma dbl_u32 [simp]: "dbl (w :: u32) = real (unat w)"
  unfolding dbl_def by (rule double_nat) (use unat_u32_less [of w] in simp)

lemma OnAck_inv:
  assumes inv: "cc_inv cc"
  shows "cc_inv (OnAck rtt b n cc)"
proof -
  let ?m = "unat (MAXIMUM_MTU_INCLUDING_UDP_HEADER cc)"
  define cc2 where "cc2 = (let c1 = (update_rtt rtt cc)\<lparr>cc_isContinuousSend := b\<rparr> in
      if CC_GreaterThan n (nextCongestionControlBlock c1) then c1\<lparr>backoffThisBlock := False, speedUpThisBlock := False,
        nextCongestionControlBlock := nextDatagramSequenceNumber c1\<rparr> else c1)"
  have f: "cwnd cc2 = cwnd cc" "MAXIMUM_MTU_INCLUDING_UDP_HEADER cc2 = MAXIMUM_MTU_INCLUDING_UDP_HEADER cc"
    by (simp_all add: cc2_def update_rtt_def Let_def)
  have m: "?m < 9007199254740992" using inv by (simp add: cc_inv_def word_le_nat_alt)
  have c: "real ?m \<le> cwnd cc" using inv by (simp add: cc_inv_def)
  have ge: "real ?m \<le> double x" if "real ?m \<le> x" for x using double_ge_nat [OF m that] .
  have q: "0 \<le> double (dbl (w :: u32) / x)" if "0 \<le> x" for w x using that by (simp add: double_nonneg)
  have "real ?m \<le> cwnd (OnAck rtt b n cc)"
  proof (cases "b \<and> (IsInSlowStart cc2 \<or> CC_GreaterThan n (nextCongestionControlBlock ((update_rtt rtt cc)\<lparr>cc_isContinuousSend := b\<rparr>)))")
    case False
    then have "cwnd (OnAck rtt b n cc) = cwnd cc"
      by (auto simp: OnAck_def Let_def cc2_def update_rtt_def)
    then show ?thesis using c by simp
  next
    case True
    define w where "w = double (cwnd cc + real ?m)"
    have w: "real ?m \<le> w" "0 \<le> w" using ge [of "cwnd cc + real ?m"] c by (auto simp: w_def intro: double_nonneg)
    show ?thesis
    proof (cases "IsInSlowStart cc2")
      case slow: True
      have "cwnd (OnAck rtt b n cc) = (if w > ssThresh cc2 \<and> ssThresh cc2 \<noteq> 0
          then double (ssThresh cc2 + double (dbl (MAXIMUM_MTU_INCLUDING_UDP_HEADER cc * MAXIMUM_MTU_INCLUDING_UDP_HEADER cc) / w)) else w)"
        using True slow f by (auto simp: OnAck_def Let_def cc2_def [unfolded Let_def] w_def)
      moreover have "real ?m \<le> ssThresh cc2" if "ssThresh cc2 \<noteq> 0" using slow that c f by (simp add: IsInSlowStart_def)
      ultimately show ?thesis using w q [of w] by (auto intro!: ge add_increasing2)
    next
      case avoid: False
      have "cwnd (OnAck rtt b n cc) = double (cwnd cc + double (dbl (MAXIMUM_MTU_INCLUDING_UDP_HEADER cc * MAXIMUM_MTU_INCLUDING_UDP_HEADER cc) / cwnd cc))"
        using True avoid f by (auto simp: OnAck_def Let_def cc2_def [unfolded Let_def])
      moreover have "0 \<le> cwnd cc" using c by linarith
      ultimately show ?thesis using ge c q [of "cwnd cc"] by (metis add_increasing2)
    qed
  qed
  moreover have "MAXIMUM_MTU_INCLUDING_UDP_HEADER (OnAck rtt b n cc) = MAXIMUM_MTU_INCLUDING_UDP_HEADER cc"
    by (simp add: OnAck_def Let_def update_rtt_def)
  ultimately show ?thesis using inv by (simp add: cc_inv_def)
qed

lemma cc_run_inv: "cc_run cc \<Longrightarrow> cc_inv cc"
proof (induction rule: cc_run.induct)
  case (cc_init mtu)
  then show ?case by (simp add: cc_inv_def CC_Init_def)
next
  case (cc_got cc n t)
  then show ?case by (simp add: cc_inv_def OnGotPacket_def Let_def)
next
  case (cc_resend cc)
  then show ?case by (simp add: cc_inv_def OnResend_def Let_def)
next
  case (cc_ack cc rtt b n)
  then show ?case using OnAck_inv by simp
next
  case (cc_mtu cc bytes)
  then have "unat bytes \<le> unat (MAXIMUM_MTU_INCLUDING_UDP_HEADER cc)" by (simp add: word_le_nat_alt)
  then have "real (unat bytes) \<le> cwnd cc" using cc_mtu.IH by (simp add: cc_inv_def)
  then show ?case using cc_mtu by (auto simp: cc_inv_def SetMTU_def)
qed (simp_all add: cc_inv_def GetTransmissionBandwidth_def GetAndIncrementNextDatagramSequenceNumber_def OnNAK_def OnSendAck_def)

lemma unat_mtu: "cc_inv cc \<Longrightarrow> unat (MAXIMUM_MTU_INCLUDING_UDP_HEADER cc) \<le> 1400"
  by (simp add: cc_inv_def word_le_nat_alt)

section \<open>Round trip times\<close>

definition rtt_inv :: "CCRakNetSlidingWindow \<Rightarrow> bool" where
  "rtt_inv cc \<longleftrightarrow> (estimatedRTT cc = UNSET_TIME_US \<or> 0 \<le> estimatedRTT cc \<and> 0 \<le> deviationRtt cc)"

lemma blend_nonneg:
  assumes "0 \<le> a" "0 \<le> x"
  shows "0 \<le> double (a + double (double (5 / 100) * double (x - a)))"
proof -
  let ?d = "double (5 / 100)"
  have d: "0 \<le> ?d" "?d \<le> 1 / 10" using double_nonneg [of "5 / 100"] double_le_twice [of "5 / 100"] by simp_all
  have "- (2 * a) \<le> double (- a)" using double_le_twice [OF assms(1)] by simp
  also have "\<dots> \<le> double (x - a)" by (rule double_mono) (use assms(2) in simp)
  finally have y: "- (2 * a) \<le> double (x - a)" .
  have "- (a / 5) \<le> ?d * double (x - a)"
  proof (cases "0 \<le> double (x - a)")
    case True
    then show ?thesis using d(1) assms(1) mult_nonneg_nonneg [of ?d "double (x - a)"] by linarith
  next
    case False
    then have "1 / 10 * double (x - a) \<le> ?d * double (x - a)" using d(2) by (intro mult_right_mono_neg) auto
    then show ?thesis using y by simp
  qed
  then have "double (- (a / 5)) \<le> double (?d * double (x - a))" by (rule double_mono)
  then have "- (2 * (a / 5)) \<le> double (?d * double (x - a))" using double_le_twice [of "a / 5"] assms(1) by simp
  then show ?thesis using assms(1) by (intro double_nonneg) simp
qed

lemma dbl_nonneg: "0 \<le> dbl w"
  by (simp add: dbl_def double_nonneg)

lemma cc_run_rtt: "cc_run cc \<Longrightarrow> rtt_inv cc"
proof (induction rule: cc_run.induct)
  case (cc_ack cc rtt b n)
  have "rtt_inv (update_rtt rtt cc)"
  proof (cases "estimatedRTT cc = UNSET_TIME_US")
    case True
    then show ?thesis by (simp add: rtt_inv_def update_rtt_def dbl_nonneg)
  next
    case False
    then show ?thesis using cc_ack.IH blend_nonneg [of "estimatedRTT cc" "dbl rtt"] dbl_nonneg [of rtt]
        blend_nonneg [of "deviationRtt cc" "\<bar>double (dbl rtt - estimatedRTT cc)\<bar>"]
      by (simp add: rtt_inv_def update_rtt_def Let_def)
  qed
  then show ?case by (simp add: rtt_inv_def OnAck_def Let_def)
qed (simp_all add: rtt_inv_def CC_Init_def GetTransmissionBandwidth_def GetAndIncrementNextDatagramSequenceNumber_def OnNAK_def
    OnSendAck_def OnGotPacket_def OnResend_def SetMTU_def Let_def)

lemma double_to_u64_small:
  assumes "0 \<le> x" "x < 18446744073709551616"
  shows "\<exists>t. double_to_u64 x = Some t \<and> unat t = nat \<lfloor>x\<rfloor>"
proof -
  define k where "k = nat \<lfloor>x\<rfloor>"
  have "k < 18446744073709551616" and i: "int k = \<lfloor>x\<rfloor>" using assms unfolding k_def by linarith+
  then have "unat (of_nat k :: u64) = k" by (intro unat_of_nat_id) simp
  moreover have "(of_int \<lfloor>x\<rfloor> :: u64) = of_nat k" using i by (metis of_int_of_nat_eq)
  ultimately show ?thesis using assms by (simp add: double_to_u64_def k_def [symmetric])
qed

section \<open>Properties\<close>

text \<open>
  Property C24.  Whatever acknowledgements, losses and timeouts arrive, the congestion window never falls below one datagram.  So a
  connection with nothing unacknowledged may always send one, as long as the window is at most \<open>2\<^sup>3\<^sup>1 - 1\<close> bytes; above that the bandwidth is an undefined conversion.
\<close>

theorem window_admits_a_datagram:
  assumes "cc_run cc"
  shows "real (unat (MAXIMUM_MTU_INCLUDING_UDP_HEADER cc)) \<le> cwnd cc \<and>
    (cwnd cc \<le> 2147483647 \<longrightarrow>
      (\<exists>n. fst (GetTransmissionBandwidth 0 b cc) = Some n \<and> int (unat (MAXIMUM_MTU_INCLUDING_UDP_HEADER cc)) \<le> n))"
proof (intro conjI impI)
  let ?m = "unat (MAXIMUM_MTU_INCLUDING_UDP_HEADER cc)"
  have inv: "real ?m \<le> cwnd cc" "?m \<le> 1400" using cc_run_inv [OF assms(1)] unat_mtu by (auto simp: cc_inv_def)
  show "real ?m \<le> cwnd cc" by (rule inv(1))
  assume le: "cwnd cc \<le> 2147483647"
  have lo: "real ?m \<le> double (cwnd cc)" by (rule double_ge_nat) (use inv in auto)
  have "double (cwnd cc) \<le> double (real 2147483647)" by (rule double_mono) (use le in simp)
  then have hi: "double (cwnd cc) \<le> 2147483647" using double_nat [of 2147483647] by simp
  have "int ?m \<le> \<lfloor>double (cwnd cc)\<rfloor>" using lo by linarith
  then show "\<exists>n. fst (GetTransmissionBandwidth 0 b cc) = Some n \<and> int ?m \<le> n" using lo hi inv by (simp add: GetTransmissionBandwidth_def double_to_int_def)
qed

theorem window_admits_a_datagram_witness:
  "\<exists>n. fst (GetTransmissionBandwidth 0 True (OnNAK (CC_Init 1372))) = Some n \<and> 1372 \<le> n"
proof -
  have "cc_run (OnNAK (CC_Init 1372))" by (intro cc_run.cc_nak cc_run.cc_init) simp_all
  from window_admits_a_datagram [OF this, of True] show ?thesis by (simp add: OnNAK_def CC_Init_def)
qed

text \<open>
  The retransmission timeout lies between 30 milliseconds and 2 seconds, whatever round trip times were measured, as
  long as the estimates stay below \<open>2\<^sup>5\<^sup>0\<close> microseconds.
\<close>

theorem retransmission_timeout_bounds:
  assumes "cc_run cc" "estimatedRTT cc \<le> 1125899906842624" "deviationRtt cc \<le> 1125899906842624"
  shows "\<exists>t. GetRTOForRetransmission cc = Some t \<and> 30000 \<le> t \<and> t \<le> 2000000"
proof (cases "estimatedRTT cc = UNSET_TIME_US")
  case True
  then show ?thesis by (simp add: GetRTOForRetransmission_def word_le_nat_alt)
next
  case False
  then have nn: "0 \<le> estimatedRTT cc" "0 \<le> deviationRtt cc" using cc_run_rtt [OF assms(1)] by (auto simp: rtt_inv_def)
  let ?x = "double (double (2 * estimatedRTT cc) + double (4 * deviationRtt cc))"
  have a: "0 \<le> double (2 * estimatedRTT cc)" "0 \<le> double (4 * deviationRtt cc)" using nn by (simp_all add: double_nonneg)
  have "?x \<le> 2 * (double (2 * estimatedRTT cc) + double (4 * deviationRtt cc))" by (rule double_le_twice) (use a in simp)
  also have "\<dots> \<le> 2 * (2 * (2 * estimatedRTT cc) + 2 * (4 * deviationRtt cc))"
    using double_le_twice [of "2 * estimatedRTT cc"] double_le_twice [of "4 * deviationRtt cc"] nn by simp
  also have "\<dots> \<le> 27021597764222976" using assms(2,3) by simp
  finally have hi: "?x \<le> 27021597764222976" .
  have lo: "0 \<le> ?x" using a by (intro double_nonneg) simp
  obtain t where t: "double_to_u64 ?x = Some t" "unat t = nat \<lfloor>?x\<rfloor>" using double_to_u64_small [OF lo] hi by auto
  have "nat \<lfloor>?x\<rfloor> \<le> 27021597764222976" using hi by linarith
  then have "unat (t + 30000) = unat t + 30000" using t(2) by (subst unat_plus_wrap) auto
  then have "30000 \<le> t + 30000" by (simp add: word_le_nat_alt)
  then show ?thesis using False t(1) by (auto simp: GetRTOForRetransmission_def Let_def word_le_nat_alt word_less_nat_alt)
qed

theorem retransmission_timeout_bounds_witness:
  "\<exists>t. GetRTOForRetransmission (OnAck 5000 False 3 (CC_Init 1372)) = Some t \<and> 30000 \<le> t \<and> t \<le> 2000000"
proof (rule retransmission_timeout_bounds)
  show "cc_run (OnAck 5000 False 3 (CC_Init 1372))" by (intro cc_run.cc_ack cc_run.cc_init) simp_all
  have "dbl (5000 :: u64) = 5000" using double_nat [of 5000] by (simp add: dbl_def)
  then show "estimatedRTT (OnAck 5000 False 3 (CC_Init 1372)) \<le> 1125899906842624"
    "deviationRtt (OnAck 5000 False 3 (CC_Init 1372)) \<le> 1125899906842624"
    by (simp_all add: OnAck_def update_rtt_def CC_Init_def)
qed

section \<open>The window out of range\<close>

text \<open>In slow start without a threshold the window grows by one datagram per acknowledgement without bound.\<close>

lemma slow_start_step:
  assumes "ssThresh cc = 0"
  shows "cwnd (OnAck rtt True n cc) = double (cwnd cc + real (unat (MAXIMUM_MTU_INCLUDING_UDP_HEADER cc)))"
    "ssThresh (OnAck rtt True n cc) = 0" "MAXIMUM_MTU_INCLUDING_UDP_HEADER (OnAck rtt True n cc) = MAXIMUM_MTU_INCLUDING_UDP_HEADER cc"
  using assms by (simp_all add: OnAck_def Let_def IsInSlowStart_def update_rtt_def)

lemma slow_start_window:
  assumes "unat mtu * (k + 1) < 9007199254740992"
  shows "cwnd (((OnAck rtt True n) ^^ k) (CC_Init mtu)) = real (unat mtu * (k + 1)) \<and>
    ssThresh (((OnAck rtt True n) ^^ k) (CC_Init mtu)) = 0 \<and>
    MAXIMUM_MTU_INCLUDING_UDP_HEADER (((OnAck rtt True n) ^^ k) (CC_Init mtu)) = mtu"
  using assms
proof (induction k)
  case 0
  then show ?case by (simp add: CC_Init_def)
next
  case (Suc k)
  let ?c = "((OnAck rtt True n) ^^ k) (CC_Init mtu)"
  have "unat mtu * (k + 1) < 9007199254740992" using Suc.prems by simp
  then have IH: "cwnd ?c = real (unat mtu * (k + 1))" "ssThresh ?c = 0" "MAXIMUM_MTU_INCLUDING_UDP_HEADER ?c = mtu" using Suc.IH by blast+
  have "real (unat mtu * (k + 1)) + real (unat mtu) = real (unat mtu * (Suc k + 1))" by (simp add: algebra_simps)
  then have "double (real (unat mtu * (k + 1)) + real (unat mtu)) = real (unat mtu * (Suc k + 1))" using double_nat [OF Suc.prems] by metis
  then show ?case using slow_start_step [OF IH(2), of rtt n] IH(1,3) by (simp only: funpow.simps comp_apply simp_thms)
qed

text \<open>
  Property C40.  After 1565221 acknowledgements in slow start the window exceeds the range of \<^verbatim>\<open>int\<close> and the cast in
  \<^verbatim>\<open>GetTransmissionBandwidth\<close> is undefined.
\<close>

theorem bandwidth_cast_overflows:
  "fst (GetTransmissionBandwidth 0 True (((OnAck 1000 True 5) ^^ 1565221) (CC_Init 1372))) = None"
proof -
  let ?c = "((OnAck 1000 True 5) ^^ 1565221) (CC_Init 1372)"
  have w: "cwnd ?c = real (1372 * (1565221 + 1))" using slow_start_window [of 1372 1565221 1000 5] by simp
  have "double (real (1372 * (1565221 + 1))) = real (1372 * (1565221 + 1))" by (rule double_nat) simp
  then show ?thesis by (simp only: GetTransmissionBandwidth_def fst_conv w) (simp add: double_to_int_def)
qed

end
