(* ===== verification/BPS_Tracker.thy ===== *)
theory BPS_Tracker
  imports DS_Queue
begin

text \<open>
  \<^verbatim>\<open>BPSTracker\<close> of \<^verbatim>\<open>reliability_layer.h\<close> and \<^verbatim>\<open>reliability_layer.cpp\<close>: the number of bytes over the last second, as a running sum over a
  queue of time stamped values from which expired entries are dropped, and the total.  The comments call the unit bytes; the type is
  \<^verbatim>\<open>uint64_t\<close>, so that the sums are modulo \<open>2\<^sup>6\<^sup>4\<close>.
\<close>

section \<open>State and operations\<close>

record TimeAndValue2 =
  value1 :: u64
  tv_time :: u64

record BPSTracker =
  total1 :: u64
  lastSec1 :: u64
  bps_queue :: "TimeAndValue2 Queue"

definition BPSTracker_new :: BPSTracker where
  "BPSTracker_new = \<lparr>total1 = 0, lastSec1 = 0, bps_queue = Queue_new\<rparr>"

definition BPSTracker_Reset :: "BPSTracker \<Rightarrow> BPSTracker" where
  "BPSTracker_Reset b = b\<lparr>total1 := 0, lastSec1 := 0, bps_queue := Queue_Clear (bps_queue b)\<rparr>"

definition Push1 :: "(nat \<Rightarrow> TimeAndValue2) \<Rightarrow> u64 \<Rightarrow> u64 \<Rightarrow> BPSTracker \<Rightarrow> BPSTracker" where
  "Push1 fresh time v b =
    b\<lparr>bps_queue := Queue_Push fresh \<lparr>value1 = v, tv_time = time\<rparr> (bps_queue b), total1 := total1 b + v, lastSec1 := lastSec1 b + v\<rparr>"

definition GetBPS1 :: "BPSTracker \<Rightarrow> u64" where
  "GetBPS1 b = lastSec1 b"

definition GetTotal1 :: "BPSTracker \<Rightarrow> u64" where
  "GetTotal1 b = total1 b"

text \<open>Every iteration pops an entry: the size of the queue is enough fuel.\<close>

primrec ClearExpired1_loop :: "nat \<Rightarrow> u64 \<Rightarrow> BPSTracker \<Rightarrow> BPSTracker" where
  "ClearExpired1_loop 0 time b = b"
| "ClearExpired1_loop (Suc fuel) time b =
    (if \<not> Queue_IsEmpty (bps_queue b) \<and> tv_time (Queue_Peek (bps_queue b)) + 1000000 < time
     then ClearExpired1_loop fuel time
            (b\<lparr>lastSec1 := lastSec1 b - value1 (Queue_Peek (bps_queue b)), bps_queue := snd (Queue_Pop (bps_queue b))\<rparr>)
     else b)"

definition ClearExpired1 :: "u64 \<Rightarrow> BPSTracker \<Rightarrow> BPSTracker" where
  "ClearExpired1 time b = ClearExpired1_loop (Queue_Size (bps_queue b)) time b"

section \<open>The sum over the queue\<close>

definition bps_rep :: "BPSTracker \<Rightarrow> TimeAndValue2 list \<Rightarrow> bool" where
  "bps_rep b xs \<longleftrightarrow> queue_ok (bps_queue b) \<and> queue_list (bps_queue b) = xs \<and> lastSec1 b = sum_list (map value1 xs)"

lemma bps_new: "bps_rep BPSTracker_new []"
  by (simp add: bps_rep_def BPSTracker_new_def Queue_new_ok Queue_new_list)

lemma Push1_rep: "bps_rep b xs \<Longrightarrow> bps_rep (Push1 fresh t v b) (xs @ [\<lparr>value1 = v, tv_time = t\<rparr>])"
  by (simp add: bps_rep_def Push1_def Queue_Push_refine)

lemma ClearExpired1_loop_rep:
  "bps_rep b xs \<Longrightarrow> length xs \<le> fuel \<Longrightarrow> bps_rep (ClearExpired1_loop fuel time b) (dropWhile (\<lambda>e. tv_time e + 1000000 < time) xs)"
proof (induction fuel arbitrary: b xs)
  case (Suc fuel)
  have ok: "queue_ok (bps_queue b)" "queue_list (bps_queue b) = xs" using Suc.prems by (simp_all add: bps_rep_def)
  show ?case
  proof (cases xs)
    case Nil
    then show ?thesis using Suc.prems ok by (simp add: Queue_IsEmpty_list)
  next
    case (Cons e es)
    let ?b = "b\<lparr>lastSec1 := lastSec1 b - value1 e, bps_queue := snd (Queue_Pop (bps_queue b))\<rparr>"
    have pk: "Queue_Peek (bps_queue b) = e" using Queue_Peek_refine [OF ok(1)] ok(2) Cons by simp
    have "bps_rep ?b es" using Suc.prems(1) ok Cons Queue_Pop_refine [OF ok(1)] by (simp add: bps_rep_def)
    then show ?thesis using Suc ok Cons pk by (simp add: Queue_IsEmpty_list)
  qed
qed simp

lemma ClearExpired1_rep: "bps_rep b xs \<Longrightarrow> bps_rep (ClearExpired1 time b) (dropWhile (\<lambda>e. tv_time e + 1000000 < time) xs)"
  unfolding ClearExpired1_def by (rule ClearExpired1_loop_rep) (auto simp: bps_rep_def)

lemma ClearExpired1_total [simp]: "total1 (ClearExpired1 time b) = total1 b"
proof -
  have "total1 (ClearExpired1_loop fuel time b) = total1 b" for fuel by (induction fuel arbitrary: b) simp_all
  then show ?thesis by (simp add: ClearExpired1_def)
qed

section \<open>A history of pushes and clears\<close>

text \<open>An event is a time with the value pushed at it, or without a value where expired entries are cleared.\<close>

definition bps_step :: "(nat \<Rightarrow> TimeAndValue2) \<Rightarrow> u64 \<times> u64 option \<Rightarrow> BPSTracker \<Rightarrow> BPSTracker" where
  "bps_step fresh ev b = (case snd ev of None \<Rightarrow> ClearExpired1 (fst ev) b | Some v \<Rightarrow> Push1 fresh (fst ev) v b)"

definition pushed :: "(u64 \<times> u64 option) list \<Rightarrow> TimeAndValue2 list" where
  "pushed evs = map (\<lambda>ev. \<lparr>value1 = the (snd ev), tv_time = fst ev\<rparr>) (filter (\<lambda>ev. snd ev \<noteq> None) evs)"

definition recent :: "u64 \<Rightarrow> TimeAndValue2 list \<Rightarrow> TimeAndValue2 list" where
  "recent now es = filter (\<lambda>e. \<not> tv_time e + 1000000 < now) es"

lemma clear_recent:
  assumes "sorted_wrt (\<lambda>a b. tv_time a \<le> tv_time b) xs" "\<forall>e \<in> set xs. unat (tv_time e) + 1000000 < 18446744073709551616"
  shows "dropWhile (\<lambda>e. tv_time e + 1000000 < now) xs = recent now xs"
proof -
  have "dropWhile (\<lambda>e. e \<in> set xs \<and> tv_time e + 1000000 < now) ys = filter (\<lambda>e. \<not> (e \<in> set xs \<and> tv_time e + 1000000 < now)) ys"
    if "sorted_wrt (\<lambda>a b. tv_time a \<le> tv_time b) ys" "set ys \<subseteq> set xs" for ys
    using that
  proof (induction ys)
    case (Cons y ys)
    have "\<not> tv_time e + 1000000 < now" if "e \<in> set ys" "\<not> tv_time y + 1000000 < now" for e
    proof -
      have "unat (tv_time y + 1000000) = unat (tv_time y) + 1000000" "unat (tv_time e + 1000000) = unat (tv_time e) + 1000000"
        using assms(2) Cons.prems(2) that(1) by (auto simp: unat_plus_wrap)
      moreover have "unat (tv_time y) \<le> unat (tv_time e)" using Cons.prems(1) that(1) by (simp add: word_le_nat_alt)
      ultimately show ?thesis using that(2) by (simp add: word_less_nat_alt)
    qed
    then show ?case using Cons by (auto simp: filter_id_conv intro!: filter_True [symmetric])
  qed simp
  from this [OF assms(1) subset_refl] show ?thesis unfolding recent_def by (simp cong: filter_cong dropWhile_cong)
qed

definition timely :: "u64 \<Rightarrow> (u64 \<times> u64 option) list \<Rightarrow> bool" where
  "timely now evs \<longleftrightarrow> sorted_wrt (\<lambda>a b. fst a \<le> fst b) evs \<and> (\<forall>ev \<in> set evs. fst ev \<le> now) \<and> unat now + 1000000 < 18446744073709551616"

lemma pushed_snoc: "pushed (evs @ [ev]) = pushed evs @ (case snd ev of None \<Rightarrow> [] | Some v \<Rightarrow> [\<lparr>value1 = v, tv_time = fst ev\<rparr>])"
  by (simp add: pushed_def split: option.split)

lemma recent_recent: "t \<le> now \<Longrightarrow> recent now (recent t xs) = recent now xs"
  unfolding recent_def filter_filter by (intro filter_cong refl) (metis order_less_le_trans)

lemma tracker_history:
  assumes "timely now evs"
  shows "\<exists>xs. bps_rep (fold (bps_step fresh) evs BPSTracker_new) xs \<and> sorted_wrt (\<lambda>a b. tv_time a \<le> tv_time b) xs \<and>
    (\<forall>e \<in> set xs. \<exists>ev \<in> set evs. tv_time e = fst ev) \<and> recent now xs = recent now (pushed evs) \<and>
    total1 (fold (bps_step fresh) evs BPSTracker_new) = sum_list (map value1 (pushed evs))"
  using assms
proof (induction evs arbitrary: now rule: rev_induct)
  case Nil
  then show ?case using bps_new by (auto simp: pushed_def BPSTracker_new_def)
next
  case (snoc ev evs)
  let ?b = "fold (bps_step fresh) evs BPSTracker_new"
  have t: "timely (fst ev) evs" "fst ev \<le> now" using snoc.prems by (auto simp: timely_def sorted_wrt_append word_le_nat_alt)
  obtain xs where xs: "bps_rep ?b xs" "sorted_wrt (\<lambda>a b. tv_time a \<le> tv_time b) xs" "\<forall>e \<in> set xs. \<exists>ev \<in> set evs. tv_time e = fst ev"
    "recent (fst ev) xs = recent (fst ev) (pushed evs)" "total1 ?b = sum_list (map value1 (pushed evs))"
    using snoc.IH [OF t(1)] by blast
  have now: "recent now xs = recent now (pushed evs)" using arg_cong [OF xs(4), of "recent now"] recent_recent [OF t(2)] by simp
  show ?case
  proof (cases "snd ev")
    case (Some v)
    have "\<forall>e \<in> set xs. tv_time e \<le> fst ev" using xs(3) t(1) unfolding timely_def by metis
    moreover have "bps_step fresh ev b = Push1 fresh (fst ev) v b" for b by (simp add: bps_step_def Some)
    ultimately show ?thesis using Some xs now Push1_rep [OF xs(1), of fresh "fst ev" v]
      by (intro exI [of _ "xs @ [\<lparr>value1 = v, tv_time = fst ev\<rparr>]"])
        (auto simp: pushed_snoc sorted_wrt_append recent_def Push1_def)
  next
    case None
    have lim: "\<forall>e \<in> set xs. unat (tv_time e) + 1000000 < 18446744073709551616"
      using xs(3) t(1) by (fastforce simp: timely_def word_le_nat_alt)
    have "bps_rep (ClearExpired1 (fst ev) ?b) (recent (fst ev) xs)" using ClearExpired1_rep [OF xs(1), of "fst ev"] clear_recent [OF xs(2) lim] by simp
    moreover have "sorted_wrt (\<lambda>a b. tv_time a \<le> tv_time b) (recent (fst ev) xs)" using xs(2) by (simp add: recent_def sorted_wrt_filter)
    moreover have "bps_step fresh ev b = ClearExpired1 (fst ev) b" for b by (simp add: bps_step_def None)
    ultimately show ?thesis using None xs(3,5) now recent_recent [OF t(2)]
      by (intro exI [of _ "recent (fst ev) xs"]) (auto simp: pushed_snoc, auto simp: recent_def)
  qed
qed

section \<open>Properties\<close>

text \<open>
  After any history of pushes and clears at non-decreasing times, the tracker cleared at \<open>now\<close> reports exactly the values
  pushed within the last second, and the total is the sum of all values.
\<close>

theorem tracker_reports_last_second:
  assumes "timely now evs"
  shows "GetBPS1 (ClearExpired1 now (fold (bps_step fresh) evs BPSTracker_new)) = sum_list (map value1 (recent now (pushed evs))) \<and>
    GetTotal1 (ClearExpired1 now (fold (bps_step fresh) evs BPSTracker_new)) = sum_list (map value1 (pushed evs))"
proof -
  let ?b = "fold (bps_step fresh) evs BPSTracker_new"
  obtain xs where xs: "bps_rep ?b xs" "sorted_wrt (\<lambda>a b. tv_time a \<le> tv_time b) xs" "\<forall>e \<in> set xs. \<exists>ev \<in> set evs. tv_time e = fst ev"
    "recent now xs = recent now (pushed evs)" "total1 ?b = sum_list (map value1 (pushed evs))"
    using tracker_history [OF assms] by blast
  have "\<forall>e \<in> set xs. unat (tv_time e) + 1000000 < 18446744073709551616" using xs(3) assms by (fastforce simp: timely_def word_le_nat_alt)
  then have "bps_rep (ClearExpired1 now ?b) (recent now xs)" using ClearExpired1_rep [OF xs(1), of now] clear_recent [OF xs(2)] by simp
  then show ?thesis using xs(4,5) by (simp add: GetBPS1_def GetTotal1_def bps_rep_def)
qed

theorem tracker_reports_last_second_witness:
  "GetBPS1 (ClearExpired1 1500000 (fold (bps_step (\<lambda>_. \<lparr>value1 = 7, tv_time = 0\<rparr>))
     [(100, Some 40), (400000, None), (600000, Some 2), (1500000, Some 5)] BPSTracker_new)) = 7"
proof -
  have "timely 1500000 [(100, Some 40), (400000, None), (600000, Some 2), (1500000, Some 5)]"
    by (simp add: timely_def word_le_nat_alt)
  from tracker_reports_last_second [OF this, of "\<lambda>_. \<lparr>value1 = 7, tv_time = 0\<rparr>"] show ?thesis
    by (simp add: pushed_def recent_def word_less_nat_alt)
qed

end
