(* ===== verification/Ack_Sending.thy ===== *)
theory Ack_Sending
  imports Sliding_Window Datagram_Wire RangeList_Wire Split_Packets
begin

text \<open>
  Reporting arrivals: \<^verbatim>\<open>SendAcknowledgementPacket\<close> collects the numbers of the datagrams that arrived, the data branch of
  \<^verbatim>\<open>HandleSocketReceiveFromConnectedPlayer\<close> those that were skipped, and \<^verbatim>\<open>SendACKs\<close> and \<^verbatim>\<open>UpdateInternal\<close> write them out as ranges.
  Shown: the loop of \<^verbatim>\<open>SendACKs\<close> ends, its datagrams fit, and decoding them gives back every number.
\<close>

section \<open>State and operations\<close>

record AckState =
  acknowlegements :: "RangeNode list"
  NAKs :: "RangeNode list"
  nextAckTimeToSend :: u64
  remoteSystemNeedsBAndAS :: bool
  ack_cc :: CCRakNetSlidingWindow

definition SendAcknowledgementPacket :: "u24 \<Rightarrow> u64 \<Rightarrow> AckState \<Rightarrow> AckState" where
  "SendAcknowledgementPacket messageNumber time st =
    st\<lparr>nextAckTimeToSend := time, acknowlegements := RangeList_Insert messageNumber (acknowlegements st)\<rparr>"

text \<open>The numbers skipped before a datagram.\<close>

primrec insert_naks :: "nat \<Rightarrow> u24 \<Rightarrow> RangeNode list \<Rightarrow> RangeNode list" where
  "insert_naks 0 number naks = naks"
| "insert_naks (Suc k) number naks = insert_naks k number (RangeList_Insert (number - of_nat (Suc k)) naks)"

text \<open>What \<^verbatim>\<open>DatagramHeaderFormat dhf\<close> holds before its fields are set is \<open>h0\<close>; \<^verbatim>\<open>OnSendAckGetBAndAS\<close> answers no.\<close>

definition ack_header :: "DatagramHeaderFormat \<Rightarrow> DatagramHeaderFormat" where
  "ack_header h0 = h0\<lparr>isACK := True, isNAK := False, isPacketPair := False, hasBAndAS := False\<rparr>"

definition nak_header :: "DatagramHeaderFormat \<Rightarrow> DatagramHeaderFormat" where
  "nak_header h0 = h0\<lparr>isNAK := True, isACK := False, isPacketPair := False\<rparr>"

text \<open>What \<^verbatim>\<open>SendBitStream\<close> hands to the socket, without the network simulator of debug builds and without encryption.\<close>

definition SendBitStream :: "BitStream \<Rightarrow> u8 list" where
  "SendBitStream bs = take (GetNumberOfBytesUsed bs) (bs_data bs)"

text \<open>One datagram of acknowledgements, and the loop; the first component is what goes to the socket, the stream is reused.\<close>

definition send_ack_datagram ::
    "(nat \<Rightarrow> u8) \<Rightarrow> DatagramHeaderFormat \<Rightarrow> nat \<Rightarrow> BitStream \<Rightarrow> AckState \<Rightarrow> BitStream \<times> AckState" where
  "send_ack_datagram fresh h0 mtu updateBitStream st =
    (let bs1 = DatagramHeader_Serialize (ack_header h0) (BitStream_Reset updateBitStream);
         (_, bs2, rest) = RangeList_Serialize fresh bs1 (GetMaxDatagramSizeExcludingMessageHeaderBits mtu) True (acknowlegements st)
     in (bs2, st\<lparr>acknowlegements := rest, ack_cc := OnSendAck (ack_cc st)\<rparr>))"

fun SendACKs ::
    "nat \<Rightarrow> (nat \<Rightarrow> u8) \<Rightarrow> DatagramHeaderFormat \<Rightarrow> nat \<Rightarrow> BitStream \<Rightarrow> AckState \<Rightarrow> (u8 list list \<times> BitStream \<times> AckState) option" where
  "SendACKs fuel fresh h0 mtu updateBitStream st =
    (if RangeList_Size (acknowlegements st) = 0 then Some ([], updateBitStream, st)
     else
       case fuel of
         0 \<Rightarrow> None
       | Suc n \<Rightarrow>
           let (bs, st1) = send_ack_datagram fresh h0 mtu updateBitStream st
           in case SendACKs n fresh h0 mtu bs st1 of
                None \<Rightarrow> None
              | Some (sent, bs', st2) \<Rightarrow> Some (SendBitStream bs # sent, bs', st2))"

declare SendACKs.simps [simp del]

definition send_naks ::
    "(nat \<Rightarrow> u8) \<Rightarrow> DatagramHeaderFormat \<Rightarrow> nat \<Rightarrow> BitStream \<Rightarrow> AckState \<Rightarrow> u8 list list \<times> BitStream \<times> AckState" where
  "send_naks fresh h0 mtu updateBitStream st =
    (if RangeList_Size (NAKs st) > 0 then
       let bs1 = DatagramHeader_Serialize (nak_header h0) (BitStream_Reset updateBitStream);
           (_, bs2, rest) = RangeList_Serialize fresh bs1 (GetMaxDatagramSizeExcludingMessageHeaderBits mtu) True (NAKs st)
       in ([SendBitStream bs2], bs2, st\<lparr>NAKs := rest\<rparr>)
     else ([], updateBitStream, st))"

text \<open>What the peer makes of the bytes of a datagram: its header, and the ranges that follow.\<close>

definition decode_ranges :: "(nat \<Rightarrow> u8) \<Rightarrow> DatagramHeaderFormat \<Rightarrow> u8 list \<Rightarrow> DatagramHeaderFormat \<times> bool \<times> RangeNode list" where
  "decode_ranges fresh h0 buffer =
    (let (h, bs1) = DatagramHeader_Deserialize h0 (BitStream_of fresh buffer False);
         (ok, ranges, _) = RangeList_Deserialize bs1
     in (h, ok, ranges))"

section \<open>From bytes to bytes\<close>

lemma received_stream:
  assumes inv: "bs_inv bs" and al: "numberOfBitsUsed bs mod 8 = 0" and lim: "numberOfBitsUsed bs \<le> bs_limit"
  shows "BitStream_Reads.at (BitStream_of fresh (SendBitStream bs) False) [] (bs_bits bs) []"
    and "8 * length (SendBitStream bs) = numberOfBitsUsed bs"
proof -
  let ?u = "numberOfBitsUsed bs" and ?r = "BitStream_of fresh (SendBitStream bs) False"
  have n: "GetNumberOfBytesUsed bs = ?u div 8"
    using lim al BITS_TO_BYTES_small [of ?u] by (auto simp: GetNumberOfBytesUsed_def bs_limit_def)
  have "?u div 8 \<le> length (bs_data bs)" using inv al by (auto simp: bs_inv_def bs_ok_def)
  then have l: "length (SendBitStream bs) = ?u div 8" by (simp add: SendBitStream_def n)
  then show len: "8 * length (SendBitStream bs) = ?u" using al by presburger
  have r: "numberOfBitsUsed ?r = ?u" "bs_data ?r = SendBitStream bs" "readOffset ?r = 0"
    using len lim by (simp_all add: BitStream_of_def BYTES_TO_BITS_def Let_def bs_limit_def)
  have "dbit (SendBitStream bs) p = dbit (bs_data bs) p" if "p < ?u" for p
    using that l al by (auto simp: dbit_def SendBitStream_def n)
  then have "bs_bits ?r = bs_bits bs" by (simp add: bs_bits_def r)
  moreover have "rd_ok ?r" using len lim by (simp add: rd_ok_def r)
  ultimately show "BitStream_Reads.at ?r [] (bs_bits bs) []" using r(3) by (simp add: at_def)
qed

lemma Reset_inv: "bs_inv bs \<Longrightarrow> bs_inv (BitStream_Reset bs) \<and> bs_bits (BitStream_Reset bs) = [] \<and> numberOfBitsUsed (BitStream_Reset bs) = 0"
  by (auto simp: bs_inv_def bs_ok_def bs_clean_def BitStream_Reset_def bs_bits_def pad_clean_def)

text \<open>A header without a body of its own followed by ranges is decoded to them.\<close>

lemma ranges_datagram:
  assumes inv: "bs_inv bs0" and h: "isACK h \<or> isNAK h" "\<not> hasBAndAS h \<or> \<not> isACK h" and wf: "range_wf rs" and len: "length rs < 65536"
    and mb: "16 \<le> maxBits"
  shows "\<exists>c bits bs. c \<le> length rs \<and>
    RangeList_Serialize fresh (DatagramHeader_Serialize h (BitStream_Reset bs0)) maxBits True rs = (bits, bs, drop c rs) \<and>
    decode_ranges fresh' h0 (SendBitStream bs) = (header_image h0 h, True, take c rs) \<and>
    8 * length (SendBitStream bs) \<le> 8 + maxBits \<and> bs_inv bs \<and> (81 \<le> maxBits \<and> rs \<noteq> [] \<longrightarrow> 0 < c)"
proof -
  let ?b0 = "BitStream_Reset bs0" and ?b1 = "DatagramHeader_Serialize h (BitStream_Reset bs0)"
  have b0: "bs_inv ?b0" "bs_bits ?b0 = []" "numberOfBitsUsed ?b0 = 0" using Reset_inv [OF inv] by simp_all
  have a1: "appends ?b0 ?b1 (header_bits h)"
    by (rule DatagramHeader_Serialize_appends) (use b0 in \<open>simp_all add: bs_limit_def\<close>)
  have hl: "length (header_bits h) \<le> 8" "header_bits h \<noteq> []" using h by (auto simp: header_bits_def)
  have u1: "numberOfBitsUsed ?b1 = length (header_bits h)" "bs_bits ?b1 = header_bits h" "bs_inv ?b1"
    using a1 b0 by (simp_all add: appends_def)
  have lim: "56 * length rs + 200 + numberOfBitsUsed ?b1 \<le> bs_limit" using len hl u1 by (simp add: bs_limit_def)
  obtain c bits bs where c: "c \<le> length rs" "RangeList_Serialize fresh ?b1 maxBits True rs = (bits, bs, drop c rs)"
    and a2: "appends ?b1 bs (align_pad (numberOfBitsUsed ?b1) @ int_bits (of_nat c :: u16) @ ranges_enc (take c rs))"
    and u2: "numberOfBitsUsed bs = align_up (numberOfBitsUsed ?b1) + 16 + length (ranges_enc (take c rs))"
      "numberOfBitsUsed bs \<le> align_up (numberOfBitsUsed ?b1) + maxBits" "numberOfBitsUsed bs \<le> bs_limit"
    and pos: "81 \<le> maxBits \<and> rs \<noteq> [] \<longrightarrow> 0 < c"
    using RangeList_Serialize_appends [OF u1(3) len lim mb] by metis
  have up: "align_up (numberOfBitsUsed ?b1) = 8"
    using align_up_within [of 0 "length (header_bits h)"] hl u1 by (cases "header_bits h") simp_all
  have al: "numberOfBitsUsed bs mod 8 = 0" using u2(1) up length_ranges_enc(2) [of "take c rs"] by presburger
  let ?r = "BitStream_of fresh' (SendBitStream bs) False"
  have bits: "bs_bits bs = header_bits h @ align_pad (length (header_bits h)) @ int_bits (of_nat c :: u16) @ ranges_enc (take c rs)"
    using a2 u1 by (simp add: appends_def)
  have at0: "BitStream_Reads.at ?r [] (header_bits h @ align_pad (length (header_bits h)) @ int_bits (of_nat c :: u16) @ ranges_enc (take c rs)) []"
    using received_stream(1) [OF appends_inv [OF a2] al u2(3), of fresh'] bits by simp
  have "pos ?r 0 (header_bits h)"
    unfolding pos_def using at0 by (intro exI [of _ "[]"] exI conjI) (auto simp: at_def skip_to_def rd_ok_def bs_bits_def)
  then have "DatagramHeader_Deserialize h0 (skip_to 0 ?r) = (header_image h0 h, skip_to (length (header_bits h)) ?r)"
    using DatagramHeader_Deserialize_pos [of ?r 0 h h0] by simp
  moreover have "skip_to 0 ?r = ?r" using at0 by (simp add: at_def skip_to_def)
  ultimately have d: "DatagramHeader_Deserialize h0 ?r = (header_image h0 h, skip_to (length (header_bits h)) ?r)" by simp
  have "BitStream_Reads.at (skip_to (length (header_bits h)) ?r) (header_bits h)
      (align_pad (length (header_bits h)) @ int_bits (of_nat (length (take c rs)) :: u16) @ ranges_enc (take c rs)) []"
    using at_skip [OF at0] c(1) by (simp add: min.absorb2)
  moreover have "range_wf (take c rs)" using wf range_wf_append [of "take c rs" "drop c rs"] by simp
  ultimately have "RangeList_Deserialize (skip_to (length (header_bits h)) ?r) = (True, take c rs,
      skip_to (align_up (length (header_bits h)) + 16 + length (ranges_enc (take c rs))) (skip_to (length (header_bits h)) ?r))"
    using RangeList_Deserialize_at [of "skip_to (length (header_bits h)) ?r" "header_bits h" "take c rs" "[]"] len c(1) by simp
  then have "decode_ranges fresh' h0 (SendBitStream bs) = (header_image h0 h, True, take c rs)"
    by (simp add: decode_ranges_def d)
  moreover have "8 * length (SendBitStream bs) \<le> 8 + maxBits"
    using received_stream(2) [OF appends_inv [OF a2] al u2(3)] u2(2) up by simp
  ultimately show ?thesis using c pos appends_inv [OF a2] by blast
qed

section \<open>The loop\<close>

lemma max_bits: "32 \<le> mtu \<Longrightarrow> mtu \<le> MAXIMUM_MTU_SIZE \<Longrightarrow>
    81 \<le> GetMaxDatagramSizeExcludingMessageHeaderBits mtu \<and> 8 + GetMaxDatagramSizeExcludingMessageHeaderBits mtu \<le> 8 * mtu"
  by (simp add: GetMaxDatagramSizeExcludingMessageHeaderBits_def GetMaxDatagramSizeExcludingMessageHeaderBytes_def
      GetDataHeaderByteLength_def BYTES_TO_BITS_def MAXIMUM_MTU_SIZE_def) linarith

lemma ack_datagram_decoded:
  assumes "bs_inv bs0" "range_wf (acknowlegements st)" "length (acknowlegements st) < 65536" "acknowlegements st \<noteq> []"
    and "32 \<le> mtu" "mtu \<le> MAXIMUM_MTU_SIZE"
  shows "\<exists>c bs. 0 < c \<and> c \<le> length (acknowlegements st) \<and> bs_inv bs \<and>
    send_ack_datagram fresh h0 mtu bs0 st = (bs, st\<lparr>acknowlegements := drop c (acknowlegements st), ack_cc := OnSendAck (ack_cc st)\<rparr>) \<and>
    decode_ranges fresh' h1 (SendBitStream bs) = (header_image h1 (ack_header h0), True, take c (acknowlegements st)) \<and>
    length (SendBitStream bs) \<le> mtu"
proof -
  let ?m = "GetMaxDatagramSizeExcludingMessageHeaderBits mtu"
  have m: "16 \<le> ?m" "81 \<le> ?m" "8 + ?m \<le> 8 * mtu" using max_bits [OF assms(5,6)] by simp_all
  have "isACK (ack_header h0) \<or> isNAK (ack_header h0)" "\<not> hasBAndAS (ack_header h0) \<or> \<not> isACK (ack_header h0)"
    by (simp_all add: ack_header_def)
  from ranges_datagram [OF assms(1) this assms(2,3) m(1), of fresh fresh' h1]
  obtain c bits bs where c: "c \<le> length (acknowlegements st)"
    "RangeList_Serialize fresh (DatagramHeader_Serialize (ack_header h0) (BitStream_Reset bs0)) ?m True (acknowlegements st) = (bits, bs, drop c (acknowlegements st))"
    "decode_ranges fresh' h1 (SendBitStream bs) = (header_image h1 (ack_header h0), True, take c (acknowlegements st))"
    "8 * length (SendBitStream bs) \<le> 8 + ?m" "bs_inv bs" "0 < c"
    using m(2) assms(4) by auto
  then show ?thesis using m(3) by (intro exI [of _ c] exI [of _ bs]) (simp add: send_ack_datagram_def Let_def)
qed

lemma SendACKs_decoded:
  assumes "bs_inv bs0" "range_wf (acknowlegements st)" "length (acknowlegements st) < 65536" "length (acknowlegements st) \<le> fuel"
    and "32 \<le> mtu" "mtu \<le> MAXIMUM_MTU_SIZE"
  shows "\<exists>sent bs st'. SendACKs fuel fresh h0 mtu bs0 st = Some (sent, bs, st') \<and> acknowlegements st' = [] \<and> bs_inv bs \<and>
    (\<forall>d \<in> set sent. length d \<le> mtu \<and> fst (snd (decode_ranges fresh' h1 d)) \<and> isACK (fst (decode_ranges fresh' h1 d))) \<and>
    concat (map (\<lambda>d. snd (snd (decode_ranges fresh' h1 d))) sent) = acknowlegements st"
  using assms(1-4)
proof (induction fuel arbitrary: bs0 st)
  case 0
  then show ?case by (simp add: SendACKs.simps [of 0] RangeList_Size_def)
next
  case (Suc fuel)
  show ?case
  proof (cases "acknowlegements st = []")
    case True
    then show ?thesis using Suc.prems by (simp add: SendACKs.simps [of "Suc fuel"] RangeList_Size_def)
  next
    case False
    obtain c bs where c: "0 < c" "c \<le> length (acknowlegements st)" "bs_inv bs"
      "send_ack_datagram fresh h0 mtu bs0 st = (bs, st\<lparr>acknowlegements := drop c (acknowlegements st), ack_cc := OnSendAck (ack_cc st)\<rparr>)"
      "decode_ranges fresh' h1 (SendBitStream bs) = (header_image h1 (ack_header h0), True, take c (acknowlegements st))"
      "length (SendBitStream bs) \<le> mtu"
      using ack_datagram_decoded [OF Suc.prems(1,2,3) False assms(5,6), of fresh h0 fresh' h1] by blast
    let ?st = "st\<lparr>acknowlegements := drop c (acknowlegements st), ack_cc := OnSendAck (ack_cc st)\<rparr>"
    have "range_wf (drop c (acknowlegements st))"
      using Suc.prems(2) range_wf_append [of "take c (acknowlegements st)" "drop c (acknowlegements st)"] by simp
    then have "\<exists>sent bs' st'. SendACKs fuel fresh h0 mtu bs ?st = Some (sent, bs', st') \<and> acknowlegements st' = [] \<and> bs_inv bs' \<and>
        (\<forall>d \<in> set sent. length d \<le> mtu \<and> fst (snd (decode_ranges fresh' h1 d)) \<and> isACK (fst (decode_ranges fresh' h1 d))) \<and>
        concat (map (\<lambda>d. snd (snd (decode_ranges fresh' h1 d))) sent) = acknowlegements ?st"
      by (intro Suc.IH) (use c Suc.prems in simp_all)
    then obtain sent bs' st' where r: "SendACKs fuel fresh h0 mtu bs ?st = Some (sent, bs', st')" "acknowlegements st' = []" "bs_inv bs'"
      "\<forall>d \<in> set sent. length d \<le> mtu \<and> fst (snd (decode_ranges fresh' h1 d)) \<and> isACK (fst (decode_ranges fresh' h1 d))"
      "concat (map (\<lambda>d. snd (snd (decode_ranges fresh' h1 d))) sent) = drop c (acknowlegements st)"
      by (metis (no_types) AckState.select_convs(1) AckState.update_convs(1) AckState.update_convs(5) AckState.surjective)
    have "isACK (header_image h1 (ack_header h0))" by (simp add: header_image_def ack_header_def)
    moreover have "SendACKs (Suc fuel) fresh h0 mtu bs0 st = Some (SendBitStream bs # sent, bs', st')"
      using False c(4) r(1) by (simp add: SendACKs.simps [of "Suc fuel"] RangeList_Size_def)
    ultimately show ?thesis using r c(5,6) by auto
  qed
qed

section \<open>Properties\<close>

text \<open>
  Property C25.  \<^verbatim>\<open>SendACKs\<close> ends, with nothing left to report; each of its datagrams fits the MTU and is recognised by the
  peer as an acknowledgement; and together the peer decodes from them exactly the ranges of datagram numbers recorded.
\<close>

theorem acks_reach_peer:
  assumes "bs_inv bs0" "range_wf (acknowlegements st)" "length (acknowlegements st) < 65536" "32 \<le> mtu" "mtu \<le> MAXIMUM_MTU_SIZE"
  shows "\<exists>sent bs st'. SendACKs (length (acknowlegements st)) fresh hsend mtu bs0 st = Some (sent, bs, st') \<and> acknowlegements st' = [] \<and>
    (\<forall>d \<in> set sent. length d \<le> mtu \<and> fst (snd (decode_ranges fresh' hpeer d)) \<and> isACK (fst (decode_ranges fresh' hpeer d))) \<and>
    concat (map (\<lambda>d. snd (snd (decode_ranges fresh' hpeer d))) sent) = acknowlegements st"
  using SendACKs_decoded [OF assms(1-3) le_refl assms(4,5), of fresh hsend fresh' hpeer] by metis

definition demo_acks :: AckState where
  "demo_acks = \<lparr>acknowlegements = [RangeNode_of 7 8, RangeNode_of 11 11], NAKs = [], nextAckTimeToSend = 0,
     remoteSystemNeedsBAndAS = False, ack_cc = CC_Init 1372\<rparr>"

theorem acks_reach_peer_witness:
  "\<exists>sent bs st'. SendACKs (length (acknowlegements demo_acks)) (\<lambda>_. 0) demo_header 1400 (BitStream_new (\<lambda>_. 9)) demo_acks = Some (sent, bs, st') \<and>
    concat (map (\<lambda>d. snd (snd (decode_ranges (\<lambda>_. 1) demo_header d))) sent) = acknowlegements demo_acks"
proof -
  have "range_wf (acknowlegements demo_acks)"
    by (simp add: demo_acks_def range_wf_def range_valid_def range_before_def RangeNode_of_def)
  moreover have "length (acknowlegements demo_acks) < 65536" by (simp add: demo_acks_def)
  ultimately show ?thesis
    using acks_reach_peer [where fresh = "\<lambda>_. 0" and fresh' = "\<lambda>_. 1" and hpeer = demo_header and hsend = demo_header, OF BitStream_new_inv [of "\<lambda>_. 9"], of demo_acks 1400]
    by (auto simp: MAXIMUM_MTU_SIZE_def)
qed

end
