(* ===== verification/Send_Queue.thy ===== *)
theory Send_Queue
  imports Packet_Ring DS_Heap Split_Packets Receive_Window
begin

text \<open>
  The sending side up to the outgoing queue: \<^verbatim>\<open>ReliabilityLayer::Send\<close> numbers a message on its channel,
  cuts it if it does not fit a datagram (\<^verbatim>\<open>SplitPacket\<close>) and puts it into \<^verbatim>\<open>outgoingPacketBuffer\<close>, a heap
  ordered by the weights that \<^verbatim>\<open>GetNextWeight\<close> gives out per priority.  Packets are addresses into
  \<open>sq_mem\<close>; the addresses the pool hands out are an argument.
\<close>

section \<open>Weights\<close>

definition NUMBER_OF_PRIORITIES :: nat where
  "NUMBER_OF_PRIORITIES = 4"

fun priority_code :: "Priority \<Rightarrow> nat" where
  "priority_code Immediate = 0"
| "priority_code High = 1"
| "priority_code Medium = 2"
| "priority_code Low = 3"

definition priority_of :: "nat \<Rightarrow> Priority" where
  "priority_of n = (if n = 0 then Immediate else if n = 1 then High else if n = 2 then Medium else Low)"

record SendQueue =
  sq_mem :: "ptr \<Rightarrow> InternalPacket"
  outgoingPacketBuffer :: "(u64, ptr) Heap"
  outgoingPacketBufferNextWeights :: "u64 list"
  unreliableLinkedList :: Ring
  orderedWriteIndex :: "u24 list"
  sequencedWriteIndex :: "u24 list"
  nextSplitPacketId :: u16
  internalOrderIndex :: u24
  messageInSendBuffer :: "u32 list"
  bytesInSendBuffer :: "nat list"

definition start_weight :: "nat \<Rightarrow> nat" where
  "start_weight priorityLevel = 2 ^ priorityLevel * priorityLevel + priorityLevel"

definition InitHeapWeights :: "SendQueue \<Rightarrow> SendQueue" where
  "InitHeapWeights sq = sq\<lparr>outgoingPacketBufferNextWeights :=
    map (\<lambda>priorityLevel. of_nat (start_weight priorityLevel)) [0..<NUMBER_OF_PRIORITIES]\<rparr>"

definition GetNextWeight :: "nat \<Rightarrow> SendQueue \<Rightarrow> u64 \<times> SendQueue" where
  "GetNextWeight priorityLevel sq =
    (let next0 = outgoingPacketBufferNextWeights sq ! priorityLevel
     in if Heap_Size (outgoingPacketBuffer sq) > 0 then
          let peekPL = priority_code (priority (sq_mem sq (Heap_Peek 0 (outgoingPacketBuffer sq))));
              w = Heap_PeekWeight 0 (outgoingPacketBuffer sq);
              mn = w - of_nat (2 ^ peekPL * peekPL) + of_nat peekPL;
              next1 = (if next0 < mn then mn + of_nat (2 ^ priorityLevel * priorityLevel) + of_nat priorityLevel else next0)
          in (next1, sq\<lparr>outgoingPacketBufferNextWeights := (outgoingPacketBufferNextWeights sq)
                [priorityLevel := next1 + of_nat (2 ^ priorityLevel * (priorityLevel + 1)) + of_nat priorityLevel]\<rparr>)
        else (next0, InitHeapWeights sq))"

section \<open>Sending\<close>

definition count_message :: "InternalPacket \<Rightarrow> SendQueue \<Rightarrow> SendQueue" where
  "count_message ip sq =
    (let c = priority_code (priority ip)
     in sq\<lparr>messageInSendBuffer := (messageInSendBuffer sq)[c := messageInSendBuffer sq ! c + 1],
           bytesInSendBuffer := (bytesInSendBuffer sq)[c := bytesInSendBuffer sq ! c + BITS_TO_BYTES (dataBitLength ip)]\<rparr>)"

text \<open>One packet at address \<open>p\<close> is queued; \<open>push\<close> is \<^verbatim>\<open>Push\<close> or \<^verbatim>\<open>PushSeries\<close> of the heap.\<close>

definition enqueue :: "(u64 \<Rightarrow> ptr \<Rightarrow> (u64, ptr) Heap \<Rightarrow> (u64, ptr) Heap) \<Rightarrow> ptr \<Rightarrow> InternalPacket \<Rightarrow> SendQueue \<Rightarrow> SendQueue" where
  "enqueue push p ip sq =
    (let sq1 = sq\<lparr>sq_mem := (sq_mem sq)(p := ip),
                  unreliableLinkedList := AddToUnreliableLinkedList (reliability ip) p (unreliableLinkedList sq)\<rparr>;
         (w, sq2) = GetNextWeight (priority_code (priority ip)) sq1
     in count_message ip (sq2\<lparr>outgoingPacketBuffer := push w p (outgoingPacketBuffer sq2)\<rparr>))"

primrec enqueue_series :: "ptr list \<Rightarrow> InternalPacket list \<Rightarrow> SendQueue \<Rightarrow> SendQueue" where
  "enqueue_series ps [] sq = sq"
| "enqueue_series ps (f # fs) sq = enqueue_series (tl ps) fs (enqueue (Heap_PushSeries False) (hd ps) f sq)"

definition SplitPacket :: "InternalPacket \<Rightarrow> nat \<Rightarrow> ptr list \<Rightarrow> InternalPacket \<Rightarrow> SendQueue \<Rightarrow> SendQueue" where
  "SplitPacket pool mtu ps ip sq =
    (let fragments = split_fragments pool mtu (nextSplitPacketId sq) (internalOrderIndex sq) ip;
         sq1 = sq\<lparr>internalOrderIndex := internalOrderIndex sq + of_nat (length fragments - 1),
                  nextSplitPacketId := nextSplitPacketId sq + 1,
                  outgoingPacketBuffer := Heap_StartSeries (outgoingPacketBuffer sq)\<rparr>
     in enqueue_series ps fragments sq1)"

definition upgrade_reliability :: "Reliability \<Rightarrow> Reliability" where
  "upgrade_reliability r =
    (if r = Unreliable then Reliable
     else if r = UnreliableWithAckReceipt then ReliableWithAckReceipt
     else if r = UnreliableSequenced then ReliableSequenced
     else r)"

definition assign_order :: "nat \<Rightarrow> InternalPacket \<Rightarrow> SendQueue \<Rightarrow> InternalPacket \<times> SendQueue" where
  "assign_order channel ip sq =
    (if reliability ip = ReliableSequenced \<or> reliability ip = UnreliableSequenced then
       (ip\<lparr>orderingChannel := of_nat channel, orderingIndex := orderedWriteIndex sq ! channel,
           sequencingIndex := sequencedWriteIndex sq ! channel\<rparr>,
        sq\<lparr>sequencedWriteIndex := (sequencedWriteIndex sq)[channel := sequencedWriteIndex sq ! channel + 1]\<rparr>)
     else if reliability ip = ReliableOrdered \<or> reliability ip = ReliableOrderedWithAckReceipt then
       (ip\<lparr>orderingChannel := of_nat channel, orderingIndex := orderedWriteIndex sq ! channel\<rparr>,
        sq\<lparr>orderedWriteIndex := (orderedWriteIndex sq)[channel := orderedWriteIndex sq ! channel + 1],
           sequencedWriteIndex := (sequencedWriteIndex sq)[channel := 0]\<rparr>)
     else (ip, sq))"

text \<open>The packet made of the arguments of \<^verbatim>\<open>Send\<close>; \<open>pool\<close> is the recycled packet it is written into.\<close>

definition new_message ::
    "InternalPacket \<Rightarrow> u8 list \<Rightarrow> nat \<Rightarrow> Priority \<Rightarrow> Reliability \<Rightarrow> bool \<Rightarrow> u64 \<Rightarrow> u32 \<Rightarrow> u24 \<Rightarrow> InternalPacket" where
  "new_message pool data numberOfBitsToSend prio rel makeDataCopy currentTime serial order =
    (AllocateFromInternalPacketPool pool)\<lparr>creationTime := currentTime,
       allocationScheme := (if makeDataCopy \<and> BITS_TO_BYTES numberOfBitsToSend \<le> 128 then STACK else NORMAL),
       ip_data := take (BITS_TO_BYTES numberOfBitsToSend) data, dataBitLength := numberOfBitsToSend,
       messageInternalOrder := order, priority := prio, reliability := rel, sendReceiptSerial := serial\<rparr>"

text \<open>The enumerations arrive as integers and are repaired; a priority of 4 passes the check and would
  index the tables of weights and statistics out of range, which is the fault.\<close>

datatype SendFault = PriorityOutOfRange

definition Send ::
    "InternalPacket \<Rightarrow> nat \<Rightarrow> ptr list \<Rightarrow> u8 list \<Rightarrow> nat \<Rightarrow> nat \<Rightarrow> nat \<Rightarrow> nat \<Rightarrow> bool \<Rightarrow> u64 \<Rightarrow> u32 \<Rightarrow> SendQueue \<Rightarrow>
     SendFault + bool \<times> SendQueue" where
  "Send pool mtu ps data numberOfBitsToSend priorityCode reliabilityCode channel0 makeDataCopy currentTime serial sq =
    (let rel = (if reliabilityCode > 7 then Reliable else reliability_of (of_nat reliabilityCode));
         prioCode = (if priorityCode > NUMBER_OF_PRIORITIES then 1 else priorityCode);
         channel = (if channel0 \<ge> NUMBER_OF_ORDERED_STREAMS then 0 else channel0);
         numberOfBytesToSend = BITS_TO_BYTES numberOfBitsToSend
     in if numberOfBitsToSend = 0 then Inr (False, sq)
        else if prioCode = NUMBER_OF_PRIORITIES then Inl PriorityOutOfRange
        else
          let ip0 = new_message pool data numberOfBitsToSend (priority_of prioCode) rel makeDataCopy currentTime serial
                      (internalOrderIndex sq);
              sq0 = sq\<lparr>internalOrderIndex := internalOrderIndex sq + 1\<rparr>;
              splitPacket = numberOfBytesToSend > maximumSendBlockBytes pool mtu;
              ip1 = (if splitPacket then ip0\<lparr>reliability := upgrade_reliability rel\<rparr> else ip0);
              (ip2, sq1) = assign_order channel ip1 sq0
          in if splitPacket then Inr (True, SplitPacket pool mtu ps ip2 sq1)
             else Inr (True, enqueue (Heap_Push False) (hd ps) ip2 sq1))"

text \<open>What \<^verbatim>\<open>UpdateInternal\<close> does with the queue: the packet of least weight is taken off.\<close>

definition pop_outgoing :: "SendQueue \<Rightarrow> SendQueue" where
  "pop_outgoing sq =
    (let ip = sq_mem sq (Heap_Peek 0 (outgoingPacketBuffer sq));
         c = priority_code (priority ip)
     in sq\<lparr>outgoingPacketBuffer := snd (Heap_Pop False 0 (outgoingPacketBuffer sq)),
           messageInSendBuffer := (messageInSendBuffer sq)[c := messageInSendBuffer sq ! c - 1],
           bytesInSendBuffer := (bytesInSendBuffer sq)[c := bytesInSendBuffer sq ! c - BITS_TO_BYTES (dataBitLength ip)]\<rparr>)"

text \<open>The fields of the queue after \<^verbatim>\<open>InitializeVariables\<close>.\<close>

definition SendQueue_new :: "(ptr \<Rightarrow> InternalPacket) \<Rightarrow> SendQueue" where
  "SendQueue_new mem = InitHeapWeights \<lparr>sq_mem = mem, outgoingPacketBuffer = Heap_new, outgoingPacketBufferNextWeights = [],
     unreliableLinkedList = \<lparr>ring_head = None, ring_next = id, ring_prev = id\<rparr>,
     orderedWriteIndex = replicate NUMBER_OF_ORDERED_STREAMS 0, sequencedWriteIndex = replicate NUMBER_OF_ORDERED_STREAMS 0,
     nextSplitPacketId = 0, internalOrderIndex = 0,
     messageInSendBuffer = replicate NUMBER_OF_PRIORITIES 0, bytesInSendBuffer = replicate NUMBER_OF_PRIORITIES 0\<rparr>"

end
