(* ===== verification/Transmission.thy ===== *)
theory Transmission
  imports Sliding_Window BPS_Tracker Ack_Handling Ack_Sending Send_Queue
begin

text \<open>
  The transmission part of \<^verbatim>\<open>UpdateInternal\<close>: messages of the resend list that are due and messages of the outgoing queue are packed
  into datagrams as long as the congestion control allows, and the datagrams are written and recorded.  The packets belong to one
  memory in the code; here a packet that leaves the outgoing queue is copied into the memory of the resend list.  A packet whose
  \<^verbatim>\<open>data\<close> is the null pointer (a message culled while it waited) has no data bytes.
\<close>

section \<open>State\<close>

record Transmitter =
  tx_queue :: SendQueue
  tx_window :: SendWindow
  tx_cc :: CCRakNetSlidingWindow
  tx_bps :: BPSTracker
  packetsToSendThisUpdate :: "ptr list"
  packetsToDeallocThisUpdate :: "bool list"
  packetsToSendThisUpdateDatagramBoundaries :: "nat list"
  datagramSizesInBytes :: "nat list"
  datagramSizeSoFar :: nat
  allDatagramSizesSoFar :: nat
  countdownToNextPacketPair :: int

text \<open>What the code leaves to others: the clock, the limit of the application, fresh memory.\<close>

record TransmitEnv =
  te_time :: u64
  te_limit :: nat
  te_tracker :: "nat \<Rightarrow> TimeAndValue2"
  te_history :: "nat \<Rightarrow> DatagramHistoryNode"

datatype TransmitFault = UndefinedCast | EndlessLoop

definition GetMTU :: "CCRakNetSlidingWindow \<Rightarrow> nat" where
  "GetMTU cc = unat (MAXIMUM_MTU_INCLUDING_UDP_HEADER cc)"

definition max_bits_of :: "Transmitter \<Rightarrow> nat" where
  "max_bits_of tx = GetMaxDatagramSizeExcludingMessageHeaderBits (GetMTU (tx_cc tx))"

abbreviation tx_resend :: "Transmitter \<Rightarrow> ResendState" where
  "tx_resend tx \<equiv> sw_resend (tx_window tx)"

definition set_resend :: "ResendState \<Rightarrow> Transmitter \<Rightarrow> Transmitter" where
  "set_resend st tx = tx\<lparr>tx_window := (tx_window tx)\<lparr>sw_resend := st\<rparr>\<rparr>"

definition ResetPacketsAndDatagrams :: "Transmitter \<Rightarrow> Transmitter" where
  "ResetPacketsAndDatagrams tx =
    tx\<lparr>packetsToSendThisUpdate := [], packetsToDeallocThisUpdate := [], packetsToSendThisUpdateDatagramBoundaries := [],
       datagramSizesInBytes := [], datagramSizeSoFar := 0\<rparr>"

definition PushPacket :: "ptr \<Rightarrow> bool \<Rightarrow> Transmitter \<Rightarrow> Transmitter" where
  "PushPacket p isReliable tx =
    (let ip = rs_mem (tx_resend tx) p;
         bitsForThisPacket = BYTES_TO_BITS (BITS_TO_BYTES (dataBitLength ip) + BITS_TO_BYTES (headerLength ip))
     in tx\<lparr>datagramSizeSoFar := w32 (datagramSizeSoFar tx + bitsForThisPacket),
           allDatagramSizesSoFar := w32 (allDatagramSizesSoFar tx + bitsForThisPacket),
           packetsToSendThisUpdate := packetsToSendThisUpdate tx @ [p],
           packetsToDeallocThisUpdate := packetsToDeallocThisUpdate tx @ [\<not> isReliable]\<rparr>)"

definition PushDatagram :: "Transmitter \<Rightarrow> Transmitter" where
  "PushDatagram tx =
    (if datagramSizeSoFar tx > 0 then
       tx\<lparr>packetsToSendThisUpdateDatagramBoundaries := packetsToSendThisUpdateDatagramBoundaries tx @ [length (packetsToSendThisUpdate tx)],
          datagramSizesInBytes := datagramSizesInBytes tx @ [BITS_TO_BYTES (datagramSizeSoFar tx)], datagramSizeSoFar := 0\<rparr>
     else tx)"

text \<open>The unsigned comparison that says a time has come, whatever the clock wraps to.\<close>

definition due :: "u64 \<Rightarrow> u64 \<Rightarrow> bool" where
  "due time t \<longleftrightarrow> time - t < (- 1) div 2"

section \<open>Resending\<close>

definition resend_packet :: "TransmitEnv \<Rightarrow> ptr \<Rightarrow> Transmitter \<Rightarrow> TransmitFault + Transmitter" where
  "resend_packet env p tx =
    (let cc = OnResend (tx_cc tx)
     in case GetRTOForRetransmission cc of
          None \<Rightarrow> Inl UndefinedCast
        | Some rto \<Rightarrow>
            Inr ((set_resend (retransmission (\<lambda>_. rto) (te_time env) (tx_resend tx)) (PushPacket p True tx))\<lparr>tx_cc := cc\<rparr>))"

text \<open>One datagram is filled; the flag is \<^verbatim>\<open>pushedAnything\<close>.\<close>

primrec fill_resend :: "nat \<Rightarrow> TransmitEnv \<Rightarrow> bool \<Rightarrow> Transmitter \<Rightarrow> TransmitFault + bool \<times> Transmitter" where
  "fill_resend 0 env pushedAnything tx = Inl EndlessLoop"
| "fill_resend (Suc fuel) env pushedAnything tx =
    (case ring_head (rs_ring (tx_resend tx)) of
       None \<Rightarrow> Inr (pushedAnything, tx)
     | Some p \<Rightarrow>
         let ip = rs_mem (tx_resend tx) p
         in if due (te_time env) (nextActionTime ip) then
              if w32 (datagramSizeSoFar tx + w32 (headerLength ip + dataBitLength ip)) > max_bits_of tx
              then Inr (pushedAnything, PushDatagram tx)
              else
                case resend_packet env p tx of
                  Inl f \<Rightarrow> Inl f
                | Inr tx1 \<Rightarrow> fill_resend fuel env True tx1
            else Inr (pushedAnything, PushDatagram tx))"

primrec resend_loop :: "nat \<Rightarrow> TransmitEnv \<Rightarrow> int \<Rightarrow> Transmitter \<Rightarrow> TransmitFault + Transmitter" where
  "resend_loop 0 env retransmissionBandwidth tx = Inl EndlessLoop"
| "resend_loop (Suc fuel) env retransmissionBandwidth tx =
    (if int (BITS_TO_BYTES (allDatagramSizesSoFar tx)) < retransmissionBandwidth then
       case fill_resend (RESEND_BUFFER_ARRAY_LENGTH + 1) env False tx of
         Inl f \<Rightarrow> Inl f
       | Inr (pushedAnything, tx1) \<Rightarrow> if pushedAnything then resend_loop fuel env retransmissionBandwidth tx1 else Inr tx1
     else Inr tx)"

section \<open>Sending for the first time\<close>

text \<open>The packet on top of the queue, with its header length computed, passes to the memory of the resend list.\<close>

definition take_packet :: "ptr \<Rightarrow> InternalPacket \<Rightarrow> Transmitter \<Rightarrow> Transmitter" where
  "take_packet p ip tx =
    (set_resend ((tx_resend tx)\<lparr>rs_mem := (rs_mem (tx_resend tx))(p := ip)\<rparr>) tx)\<lparr>tx_queue := pop_outgoing (tx_queue tx)\<rparr>"

definition count_sent :: "ptr \<Rightarrow> Transmitter \<Rightarrow> Transmitter" where
  "count_sent p tx =
    (let st = tx_resend tx
     in set_resend (st\<lparr>rs_mem := (rs_mem st)(p := (rs_mem st p)\<lparr>timesSent := timesSent (rs_mem st p) + 1\<rparr>)\<rparr>) tx)"

definition first_send :: "TransmitEnv \<Rightarrow> ptr \<Rightarrow> InternalPacket \<Rightarrow> Transmitter \<Rightarrow> TransmitFault + Transmitter" where
  "first_send env p ip tx0 =
    (let isReliable = is_reliable (reliability ip);
         tx = take_packet p ip tx0;
         time = te_time env;
         tx1 = (if isReliable then
                  map_option (\<lambda>rto. set_resend (first_transmission (\<lambda>_. rto) time p (tx_resend tx)) tx) (GetRTOForRetransmission (tx_cc tx))
                else if reliability ip = UnreliableWithAckReceipt then
                  map_option (\<lambda>rto. tx\<lparr>tx_window := (tx_window tx)\<lparr>unreliableWithAckReceiptHistory :=
                      unreliableWithAckReceiptHistory (tx_window tx) @
                      [\<lparr>un_datagramNumber = nextDatagramSequenceNumber (tx_cc tx) + of_nat (length (packetsToSendThisUpdateDatagramBoundaries tx)),
                        un_sendReceiptSerial = sendReceiptSerial ip, un_nextActionTime = rto + time\<rparr>]\<rparr>\<rparr>) (GetRTOForRetransmission (tx_cc tx))
                else Some tx)
     in case tx1 of
          None \<Rightarrow> Inl UndefinedCast
        | Some tx2 \<Rightarrow>
            Inr (count_sent p (PushPacket p isReliable
              (tx2\<lparr>tx_bps := Push1 (te_tracker env) time (of_nat (BITS_TO_BYTES (dataBitLength ip))) (tx_bps tx2)\<rparr>))))"

definition with_header :: "InternalPacket \<Rightarrow> InternalPacket" where
  "with_header ip = ip\<lparr>headerLength := GetMessageHeaderLengthBits ip\<rparr>"

text \<open>\<open>limited\<close> is \<^verbatim>\<open>isLimitedByOutgoingBandwidthLimit\<close>.\<close>

primrec fill_new :: "nat \<Rightarrow> TransmitEnv \<Rightarrow> bool \<Rightarrow> Transmitter \<Rightarrow> TransmitFault + Transmitter" where
  "fill_new 0 env limited tx = Inl EndlessLoop"
| "fill_new (Suc fuel) env limited tx =
    (if Heap_Size (outgoingPacketBuffer (tx_queue tx)) = 0 \<or> limited then Inr tx
     else
       let p = Heap_Peek 0 (outgoingPacketBuffer (tx_queue tx));
           ip0 = sq_mem (tx_queue tx) p
       in if ip_data ip0 = [] then fill_new fuel env limited (tx\<lparr>tx_queue := pop_outgoing (tx_queue tx)\<rparr>)
          else
            let ip = with_header ip0
            in if w32 (datagramSizeSoFar tx + w32 (headerLength ip + dataBitLength ip)) > max_bits_of tx
               then Inr (tx\<lparr>tx_queue := (tx_queue tx)\<lparr>sq_mem := (sq_mem (tx_queue tx))(p := ip)\<rparr>\<rparr>)
               else
                 case first_send env p ip tx of
                   Inl f \<Rightarrow> Inl f
                 | Inr tx1 \<Rightarrow> if ResendBufferOverflow (tx_resend tx1) then Inr tx1 else fill_new fuel env limited tx1)"

definition send_more :: "int \<Rightarrow> Transmitter \<Rightarrow> bool" where
  "send_more transmissionBandwidth tx \<longleftrightarrow> \<not> ResendBufferOverflow (tx_resend tx) \<and>
    (int (BITS_TO_BYTES (allDatagramSizesSoFar tx)) < transmissionBandwidth \<or>
     countdownToNextPacketPair tx = 0 \<and> length (packetsToSendThisUpdateDatagramBoundaries tx) = 1)"

definition bandwidth_limited :: "TransmitEnv \<Rightarrow> Transmitter \<Rightarrow> bool" where
  "bandwidth_limited env tx \<longleftrightarrow> te_limit env \<noteq> 0 \<and> BITS_TO_BYTES (te_limit env) < unat (GetBPS1 (tx_bps tx))"

primrec send_loop :: "nat \<Rightarrow> TransmitEnv \<Rightarrow> int \<Rightarrow> Transmitter \<Rightarrow> TransmitFault + Transmitter" where
  "send_loop 0 env transmissionBandwidth tx = Inl EndlessLoop"
| "send_loop (Suc fuel) env transmissionBandwidth tx =
    (if send_more transmissionBandwidth tx then
       case fill_new (Heap_Size (outgoingPacketBuffer (tx_queue tx)) + 1) env (bandwidth_limited env tx) tx of
         Inl f \<Rightarrow> Inl f
       | Inr tx1 \<Rightarrow> if datagramSizeSoFar tx1 = 0 then Inr tx1 else send_loop fuel env transmissionBandwidth (PushDatagram tx1)
     else Inr tx)"

section \<open>Packing all of an update\<close>

definition pack :: "TransmitEnv \<Rightarrow> bool \<Rightarrow> Transmitter \<Rightarrow> TransmitFault + Transmitter" where
  "pack env isContinuous tx0 =
    (let (bw, cc) = GetTransmissionBandwidth (unacknowledgedBytes (tx_resend tx0)) isContinuous (tx_cc tx0);
         rbw = GetRetransmissionBandwidth (unacknowledgedBytes (tx_resend tx0));
         tx = tx0\<lparr>tx_cc := cc\<rparr>
     in case bw of
          None \<Rightarrow> Inl UndefinedCast
        | Some tbw \<Rightarrow>
            let resent = (if rbw > 0 \<or> tbw > 0
                          then resend_loop (RESEND_BUFFER_ARRAY_LENGTH + 2) env rbw (tx\<lparr>allDatagramSizesSoFar := 0\<rparr>) else Inr tx)
            in case resent of
                 Inl f \<Rightarrow> Inl f
               | Inr tx1 \<Rightarrow>
                   if int (BITS_TO_BYTES (allDatagramSizesSoFar tx1)) < tbw
                   then send_loop (Heap_Size (outgoingPacketBuffer (tx_queue tx1)) + 2) env tbw (tx1\<lparr>allDatagramSizesSoFar := 0\<rparr>)
                   else Inr tx1)"

section \<open>Writing the datagrams\<close>

text \<open>The packets of each datagram, by the boundaries pushed.\<close>

primrec slices :: "nat \<Rightarrow> nat list \<Rightarrow> 'a list \<Rightarrow> 'a list list" where
  "slices from [] xs = []"
| "slices from (b # bs) xs = take (b - from) (drop from xs) # slices b bs xs"

definition data_header :: "DatagramHeaderFormat \<Rightarrow> bool \<Rightarrow> bool \<Rightarrow> DatagramHeaderFormat" where
  "data_header h slowStart isContinuous =
    h\<lparr>needsBAndAs := slowStart, isContinuousSend := isContinuous, isACK := False, isNAK := False, hasBAndAS := False\<rparr>"

definition write_datagram :: "DatagramHeaderFormat \<Rightarrow> InternalPacket list \<Rightarrow> BitStream \<Rightarrow> BitStream" where
  "write_datagram dhf packets bs =
    fold (\<lambda>ip b. snd (WriteToBitStreamFromInternalPacket ip b)) packets (DatagramHeader_Serialize dhf (BitStream_Reset bs))"

definition send_datagram ::
    "TransmitEnv \<Rightarrow> DatagramHeaderFormat \<Rightarrow> InternalPacket list \<Rightarrow> Transmitter \<times> BitStream \<Rightarrow> u8 list \<times> Transmitter \<times> BitStream" where
  "send_datagram env dhf0 packets s =
    (let (tx, bs) = s;
         (number, cc) = GetAndIncrementNextDatagramSequenceNumber (tx_cc tx);
         dhf = dhf0\<lparr>datagramNumber := number, isPacketPair := False\<rparr>;
         bs1 = write_datagram dhf packets bs;
         w = tx_window tx
     in (SendBitStream bs1,
         tx\<lparr>tx_cc := cc, tx_window := w\<lparr>sw_history := record_datagram (te_history env) (te_time env) packets (sw_history w)\<rparr>\<rparr>, bs1))"

primrec send_datagrams ::
    "TransmitEnv \<Rightarrow> DatagramHeaderFormat \<Rightarrow> InternalPacket list list \<Rightarrow> Transmitter \<times> BitStream \<Rightarrow> u8 list list \<times> Transmitter \<times> BitStream" where
  "send_datagrams env dhf [] s = ([], s)"
| "send_datagrams env dhf (d # ds) s =
    (let (bytes, s1) = send_datagram env dhf d s;
         (sent, s2) = send_datagrams env (dhf\<lparr>isContinuousSend := True\<rparr>) ds s1
     in (bytes # sent, s2))"

text \<open>The packets that were sent and are not kept leave the list of unreliable messages.\<close>

definition ClearPacketsAndDatagrams :: "Transmitter \<Rightarrow> Transmitter" where
  "ClearPacketsAndDatagrams tx =
    (let gone = map fst (filter snd (zip (packetsToSendThisUpdate tx) (packetsToDeallocThisUpdate tx)));
         q = tx_queue tx
     in tx\<lparr>tx_queue := q\<lparr>unreliableLinkedList := fold (\<lambda>p. RemoveFromUnreliableLinkedList (reliability (rs_mem (tx_resend tx) p)) p) gone
                            (unreliableLinkedList q)\<rparr>, packetsToDeallocThisUpdate := []\<rparr>)"

definition transmit ::
    "TransmitEnv \<Rightarrow> DatagramHeaderFormat \<Rightarrow> bool \<Rightarrow> Transmitter \<Rightarrow> BitStream \<Rightarrow> TransmitFault + u8 list list \<times> Transmitter \<times> BitStream" where
  "transmit env h isContinuous tx bs =
    (case pack env isContinuous (ResetPacketsAndDatagrams tx) of
       Inl f \<Rightarrow> Inl f
     | Inr tx1 \<Rightarrow>
         let packets = map (rs_mem (tx_resend tx1)) (packetsToSendThisUpdate tx1);
             (sent, tx2, bs2) = send_datagrams env h (slices 0 (packetsToSendThisUpdateDatagramBoundaries tx1) packets) (tx1, bs)
         in Inr (sent, ClearPacketsAndDatagrams tx2, bs2))"

section \<open>A new transmitter\<close>

text \<open>The state after \<^verbatim>\<open>InitializeVariables\<close>; the memory the packets will live in is arbitrary.\<close>

definition SendWindow_new :: "(ptr \<Rightarrow> InternalPacket) \<Rightarrow> Ring \<Rightarrow> SendWindow" where
  "SendWindow_new mem ring = \<lparr>sw_resend = ResendState_new mem ring, sw_history = \<lparr>datagramHistory = Queue_new, datagramHistoryPopCount = 0\<rparr>,
     unreliableWithAckReceiptHistory = [], receivePacketCount = 0, sw_output = [], sw_events = []\<rparr>"

definition Transmitter_new :: "(ptr \<Rightarrow> InternalPacket) \<Rightarrow> (ptr \<Rightarrow> InternalPacket) \<Rightarrow> Ring \<Rightarrow> u32 \<Rightarrow> Transmitter" where
  "Transmitter_new qmem mem ring mtu = \<lparr>tx_queue = SendQueue_new qmem, tx_window = SendWindow_new mem ring, tx_cc = CC_Init mtu,
     tx_bps = BPSTracker_new, packetsToSendThisUpdate = [], packetsToDeallocThisUpdate = [], packetsToSendThisUpdateDatagramBoundaries = [],
     datagramSizesInBytes = [], datagramSizeSoFar = 0, allDatagramSizesSoFar = 0, countdownToNextPacketPair = 15\<rparr>"

end
