(* ===== verification/Send_Laws.thy ===== *)
theory Send_Laws
  imports Send_Queue
begin

text \<open>
  The outgoing queue: every \<^verbatim>\<open>Send\<close>, fragmented or not, keeps the heap ordered, although fragments are
  appended as a series without comparing them to their parents; weights grow per priority, so that a
  waiting message is overtaken only finitely often.
\<close>

section \<open>The weights given out\<close>

definition weight_step :: "nat \<Rightarrow> nat" where
  "weight_step priorityLevel = 2 ^ priorityLevel * (priorityLevel + 1) + priorityLevel"

definition peek_cost :: "nat \<Rightarrow> nat" where
  "peek_cost priorityLevel = 2 ^ priorityLevel * priorityLevel"

lemma level_cases: "pl < 4 \<Longrightarrow> pl = 0 \<or> pl = 1 \<or> pl = 2 \<or> pl = (3 :: nat)"
  by linarith

lemma level_bounds:
  assumes "pl < 4"
  shows "start_weight pl = peek_cost pl + pl" "pl \<le> peek_cost pl" "start_weight pl \<le> 27" "weight_step pl \<le> 35" "1 \<le> weight_step pl"
    "2 * peek_cost pl < start_weight pl + weight_step pl"
  using level_cases [OF assms] by (auto simp: start_weight_def peek_cost_def weight_step_def)

lemma priority_code_less: "priority_code p < 4"
  by (cases p) simp_all

definition weights_ok :: "nat \<Rightarrow> u64 list \<Rightarrow> bool" where
  "weights_ok B ws \<longleftrightarrow> length ws = 4 \<and>
    (\<forall>pl < 4. unat (ws ! pl) \<le> B \<and>
      (unat (ws ! pl) = start_weight pl \<or> start_weight pl + weight_step pl \<le> unat (ws ! pl)))"

definition level :: "SendQueue \<Rightarrow> ptr \<Rightarrow> nat" where
  "level sq p = priority_code (priority (sq_mem sq p))"

definition entries_ok :: "nat \<Rightarrow> SendQueue \<Rightarrow> bool" where
  "entries_ok B sq \<longleftrightarrow>
    (\<forall>x \<in># heap_elems (outgoingPacketBuffer sq). start_weight (level sq (snd x)) \<le> unat (fst x) \<and> unat (fst x) \<le> B)"

definition sq_inv :: "nat \<Rightarrow> SendQueue \<Rightarrow> bool" where
  "sq_inv B sq \<longleftrightarrow> heap_ok False (outgoingPacketBuffer sq) \<and> weights_ok B (outgoingPacketBufferNextWeights sq) \<and> entries_ok B sq"

lemma heap_top:
  assumes "heap_ok False hp" "Heap_Size hp > 0"
  shows "(Heap_PeekWeight 0 hp, Heap_Peek 0 hp) \<in># heap_elems hp"
  using assms nth_mem [of 0 "h_nodes hp"]
  by (auto simp: Heap_Size_def Heap_PeekWeight_def Heap_Peek_def heap_elems_def heap_mset_def image_iff intro!: bexI [of _ "h_nodes hp ! 0"])

lemma start_weights_ok: "27 \<le> B \<Longrightarrow> weights_ok B (map (\<lambda>pl. of_nat (start_weight pl)) [0..<NUMBER_OF_PRIORITIES])"
proof -
  assume B: "27 \<le> B"
  have "unat (of_nat (start_weight pl) :: u64) = start_weight pl" if "pl < 4" for pl
    by (rule unat_of_nat_id) (use level_bounds(3) [OF that] in simp)
  then show ?thesis using B level_bounds(3) by (fastforce simp: weights_ok_def NUMBER_OF_PRIORITIES_def)
qed

lemma unat_add_small: "unat a + n < 18446744073709551616 \<Longrightarrow> unat (a + of_nat n :: u64) = unat a + n"
  using unat_plus_wrap [of a "of_nat n"] unat_of_nat_id [of n, where 'a = 64] by simp

lemma unat_sub_small: "n \<le> unat a \<Longrightarrow> unat (a - of_nat n :: u64) = unat a - n"
proof -
  assume n: "n \<le> unat a"
  have "n < 2 ^ LENGTH(64)" using n unat_less_2p [of a] by simp
  then have u: "unat (of_nat n :: u64) = n" by (rule unat_of_nat_id)
  then show ?thesis using n unat_sub_wrap [of a "of_nat n"] by (simp add: word_le_nat_alt)
qed

text \<open>What \<^verbatim>\<open>GetNextWeight\<close> returns when messages are waiting, as numbers.\<close>

lemma GetNextWeight_nonempty:
  assumes inv: "sq_inv B sq" and B: "B < 4611686018427387904" and pl: "pl < 4" and ne: "Heap_Size (outgoingPacketBuffer sq) > 0"
  defines "w0 \<equiv> unat (outgoingPacketBufferNextWeights sq ! pl)" and "tp \<equiv> unat (Heap_PeekWeight 0 (outgoingPacketBuffer sq))"
  defines "k \<equiv> level sq (Heap_Peek 0 (outgoingPacketBuffer sq))"
  defines "w1 \<equiv> (if w0 < tp - peek_cost k + k then tp - peek_cost k + k + start_weight pl else w0)"
  shows "GetNextWeight pl sq = (of_nat w1, sq\<lparr>outgoingPacketBufferNextWeights :=
      (outgoingPacketBufferNextWeights sq)[pl := of_nat (w1 + weight_step pl)]\<rparr>)"
    "w0 \<le> w1" "w1 \<le> B + 27"
proof -
  let ?H = "outgoingPacketBuffer sq"
  have t: "start_weight k \<le> tp" "tp \<le> B"
    using inv heap_top [of ?H] ne by (auto simp: sq_inv_def entries_ok_def tp_def k_def)
  have k: "k < 4" by (simp add: k_def level_def priority_code_less)
  note lk = level_bounds [OF k] and lp = level_bounds [OF pl]
  have w0: "w0 \<le> B" using inv pl by (auto simp: sq_inv_def weights_ok_def w0_def)
  have le: "tp - peek_cost k + k \<le> tp" using t(1) lk by linarith
  show "w0 \<le> w1" by (simp add: w1_def)
  show w1B: "w1 \<le> B + 27" using w0 le t(2) lp(3) by (simp add: w1_def)
  let ?mn = "Heap_PeekWeight 0 ?H - of_nat (2 ^ k * k) + of_nat k"
  have mn: "unat ?mn = tp - peek_cost k + k"
  proof -
    have "unat (Heap_PeekWeight 0 ?H - of_nat (peek_cost k)) = tp - peek_cost k"
      unfolding tp_def by (rule unat_sub_small) (use t(1) lk(1) tp_def in linarith)
    then show ?thesis using le t(2) B unat_add_small [of "Heap_PeekWeight 0 ?H - of_nat (peek_cost k)" k] by (simp add: peek_cost_def)
  qed
  have lt: "outgoingPacketBufferNextWeights sq ! pl < ?mn \<longleftrightarrow> w0 < tp - peek_cost k + k"
    unfolding word_less_nat_alt mn w0_def ..
  have eq: "(if outgoingPacketBufferNextWeights sq ! pl < ?mn then ?mn + of_nat (2 ^ pl * pl) + of_nat pl
      else outgoingPacketBufferNextWeights sq ! pl) = of_nat w1"
  proof (cases "w0 < tp - peek_cost k + k")
    case True
    have "?mn = of_nat (tp - peek_cost k + k)" by (metis mn word_nat_cases unat_of_nat_id word_of_nat_eq_0_iff of_nat_unat ucast_id)
    then have "?mn + of_nat (2 ^ pl * pl) + of_nat pl = of_nat w1"
      unfolding w1_def start_weight_def using True by (simp only: if_True of_nat_add add.assoc)
    then show ?thesis using True lt by simp
  next
    case False
    then show ?thesis using lt unfolding w1_def w0_def by simp
  qed
  have st: "of_nat w1 + of_nat (2 ^ pl * (pl + 1)) + of_nat pl = (of_nat (w1 + weight_step pl) :: u64)"
    unfolding weight_step_def by (simp only: of_nat_add add.assoc)
  show "GetNextWeight pl sq = (of_nat w1, sq\<lparr>outgoingPacketBufferNextWeights :=
      (outgoingPacketBufferNextWeights sq)[pl := of_nat (w1 + weight_step pl)]\<rparr>)"
    using ne by (simp only: GetNextWeight_def Let_def if_True eq [unfolded k_def level_def] st)
qed

lemma GetNextWeight_empty:
  "Heap_Size (outgoingPacketBuffer sq) = 0 \<Longrightarrow>
    GetNextWeight pl sq = (outgoingPacketBufferNextWeights sq ! pl, InitHeapWeights sq)"
  by (simp add: GetNextWeight_def)

section \<open>One packet is queued\<close>

definition next_weight :: "nat \<Rightarrow> SendQueue \<Rightarrow> u64" where
  "next_weight pl sq = fst (GetNextWeight pl sq)"

definition queued :: "SendQueue \<Rightarrow> ptr multiset" where
  "queued sq = image_mset snd (heap_elems (outgoingPacketBuffer sq))"

lemma weights_le: "weights_ok B ws \<Longrightarrow> B \<le> C \<Longrightarrow> weights_ok C ws"
  by (auto simp: weights_ok_def intro: le_trans)

lemma start_le_weight: "weights_ok B ws \<Longrightarrow> pl < 4 \<Longrightarrow> start_weight pl \<le> unat (ws ! pl)"
  by (auto simp: weights_ok_def)

text \<open>The packet is written to memory before the weight is taken: at a fresh address this changes nothing.\<close>

lemma GetNextWeight_mem:
  assumes "p \<notin># queued sq" "heap_ok False (outgoingPacketBuffer sq)"
  shows "GetNextWeight pl (sq\<lparr>sq_mem := (sq_mem sq)(p := ip), unreliableLinkedList := r\<rparr>) =
    (next_weight pl sq, (snd (GetNextWeight pl sq))\<lparr>sq_mem := (sq_mem sq)(p := ip), unreliableLinkedList := r\<rparr>)"
proof (cases "Heap_Size (outgoingPacketBuffer sq) > 0")
  case True
  then have "Heap_Peek 0 (outgoingPacketBuffer sq) \<in># queued sq"
    using heap_top [OF assms(2) True] by (force simp: queued_def)
  then have "Heap_Peek 0 (outgoingPacketBuffer sq) \<noteq> p" using assms(1) by auto
  then show ?thesis using True by (simp add: GetNextWeight_def next_weight_def Let_def)
next
  case False
  then show ?thesis by (simp add: GetNextWeight_def next_weight_def InitHeapWeights_def Let_def)
qed

text \<open>The table after a weight was given out, the weight's bounds, and that the weight is at least the table's entry.\<close>

lemma next_weight_facts:
  assumes inv: "sq_inv B sq" and B: "B + 64 < 4611686018427387904" and pl: "pl < 4"
  defines "ws \<equiv> outgoingPacketBufferNextWeights sq" and "sq' \<equiv> snd (GetNextWeight pl sq)"
  shows "weights_ok (B + 64) (outgoingPacketBufferNextWeights sq')"
    and "start_weight pl \<le> unat (next_weight pl sq)" "unat (next_weight pl sq) \<le> B + 27"
    and "Heap_Size (outgoingPacketBuffer sq) > 0 \<Longrightarrow>
      unat (ws ! pl) \<le> unat (next_weight pl sq) \<and>
      outgoingPacketBufferNextWeights sq' = ws[pl := of_nat (unat (next_weight pl sq) + weight_step pl)]"
proof -
  have ws: "weights_ok B ws" using inv by (simp add: sq_inv_def ws_def)
  have len: "length ws = 4" using ws by (simp add: weights_ok_def)
  have sb: "start_weight pl \<le> unat (ws ! pl)" by (rule start_le_weight [OF ws pl])
  note lp = level_bounds [OF pl]
  have ne: "unat (ws ! pl) \<le> unat (next_weight pl sq) \<and> unat (next_weight pl sq) \<le> B + 27 \<and>
      outgoingPacketBufferNextWeights sq' = ws[pl := of_nat (unat (next_weight pl sq) + weight_step pl)]"
    if n: "Heap_Size (outgoingPacketBuffer sq) > 0"
  proof -
    have B': "B < 4611686018427387904" using B by simp
    obtain w1 where g: "GetNextWeight pl sq = (of_nat w1, sq\<lparr>outgoingPacketBufferNextWeights := ws[pl := of_nat (w1 + weight_step pl)]\<rparr>)"
      and w1: "unat (ws ! pl) \<le> w1" "w1 \<le> B + 27"
      using GetNextWeight_nonempty [OF inv B' pl n] unfolding ws_def by blast
    have "unat (of_nat w1 :: u64) = w1" by (rule unat_of_nat_id) (use w1(2) B in simp)
    then show ?thesis using w1 by (simp add: next_weight_def sq'_def g)
  qed
  then show "Heap_Size (outgoingPacketBuffer sq) > 0 \<Longrightarrow> unat (ws ! pl) \<le> unat (next_weight pl sq) \<and>
      outgoingPacketBufferNextWeights sq' = ws[pl := of_nat (unat (next_weight pl sq) + weight_step pl)]" by blast
  have em: "next_weight pl sq = ws ! pl \<and> weights_ok (B + 64) (outgoingPacketBufferNextWeights sq')"
    if e: "\<not> Heap_Size (outgoingPacketBuffer sq) > 0"
    using e start_weights_ok [of "B + 64"] by (simp add: next_weight_def sq'_def ws_def GetNextWeight_def InitHeapWeights_def)
  have wB: "unat (ws ! pl) \<le> B" using ws pl by (simp add: weights_ok_def)
  show lo: "start_weight pl \<le> unat (next_weight pl sq)" using ne em sb by (cases "Heap_Size (outgoingPacketBuffer sq) > 0") auto
  show hi: "unat (next_weight pl sq) \<le> B + 27" using ne em wB by (cases "Heap_Size (outgoingPacketBuffer sq) > 0") auto
  have u: "unat (of_nat (unat (next_weight pl sq) + weight_step pl) :: u64) = unat (next_weight pl sq) + weight_step pl"
    by (rule unat_of_nat_id) (use hi lp(4) B in simp)
  have "weights_ok (B + 64) (ws[pl := of_nat (unat (next_weight pl sq) + weight_step pl)])"
    unfolding weights_ok_def
  proof (intro conjI allI impI)
    show "length (ws[pl := of_nat (unat (next_weight pl sq) + weight_step pl)]) = 4" using len by simp
    fix q :: nat assume q: "q < 4"
    let ?v = "unat (ws[pl := of_nat (unat (next_weight pl sq) + weight_step pl)] ! q)"
    have "?v = (if q = pl then unat (next_weight pl sq) + weight_step pl else unat (ws ! q))"
      using q len u by (simp add: nth_list_update)
    then show "?v \<le> B + 64" "?v = start_weight q \<or> start_weight q + weight_step q \<le> ?v"
      using lo hi lp(4) weights_le [OF ws, of "B + 64"] q by (auto simp: weights_ok_def)
  qed
  then show "weights_ok (B + 64) (outgoingPacketBufferNextWeights sq')"
    using ne em by (cases "Heap_Size (outgoingPacketBuffer sq) > 0") auto
qed

definition pushes :: "(u64 \<Rightarrow> ptr \<Rightarrow> (u64, ptr) Heap \<Rightarrow> (u64, ptr) Heap) \<Rightarrow> u64 \<Rightarrow> ptr \<Rightarrow> (u64, ptr) Heap \<Rightarrow> bool" where
  "pushes push w p hp \<longleftrightarrow> heap_ok False (push w p hp) \<and> heap_elems (push w p hp) = add_mset (w, p) (heap_elems hp)"

lemma enqueue_eq:
  assumes "sq_inv B sq" "p \<notin># queued sq"
  shows "outgoingPacketBuffer (enqueue push p ip sq) = push (next_weight (priority_code (priority ip)) sq) p (outgoingPacketBuffer sq)"
    and "sq_mem (enqueue push p ip sq) = (sq_mem sq)(p := ip)"
    and "outgoingPacketBufferNextWeights (enqueue push p ip sq) =
      outgoingPacketBufferNextWeights (snd (GetNextWeight (priority_code (priority ip)) sq))"
proof -
  have "outgoingPacketBuffer (snd (GetNextWeight pl sq)) = outgoingPacketBuffer sq" for pl
    by (simp add: GetNextWeight_def InitHeapWeights_def Let_def)
  then show "outgoingPacketBuffer (enqueue push p ip sq) = push (next_weight (priority_code (priority ip)) sq) p (outgoingPacketBuffer sq)"
    "sq_mem (enqueue push p ip sq) = (sq_mem sq)(p := ip)"
    "outgoingPacketBufferNextWeights (enqueue push p ip sq) =
      outgoingPacketBufferNextWeights (snd (GetNextWeight (priority_code (priority ip)) sq))"
    using assms GetNextWeight_mem [OF assms(2)] by (simp_all add: enqueue_def count_message_def sq_inv_def Let_def)
qed

lemma enqueue_inv:
  assumes inv: "sq_inv B sq" and B: "B + 64 < 4611686018427387904" and fresh: "p \<notin># queued sq"
    and push: "pushes push (next_weight (priority_code (priority ip)) sq) p (outgoingPacketBuffer sq)"
  shows "sq_inv (B + 64) (enqueue push p ip sq)"
proof -
  let ?pl = "priority_code (priority ip)"
  note facts = next_weight_facts [OF inv B priority_code_less [of "priority ip"]]
  have "start_weight (level (enqueue push p ip sq) (snd x)) \<le> unat (fst x) \<and> unat (fst x) \<le> B + 64"
    if "x \<in># heap_elems (outgoingPacketBuffer (enqueue push p ip sq))" for x
  proof (cases "x = (next_weight ?pl sq, p)")
    case True
    then show ?thesis using facts(2,3) by (simp add: level_def enqueue_eq [OF inv fresh])
  next
    case False
    then have x: "x \<in># heap_elems (outgoingPacketBuffer sq)"
      using that push by (simp add: enqueue_eq [OF inv fresh] pushes_def)
    then have "snd x \<noteq> p" using fresh by (auto simp: queued_def)
    then show ?thesis using x inv by (fastforce simp: level_def enqueue_eq [OF inv fresh] sq_inv_def entries_ok_def)
  qed
  then show ?thesis using facts(1) push by (simp add: sq_inv_def entries_ok_def enqueue_eq [OF inv fresh] pushes_def)
qed

text \<open>A later packet of the same priority never gets a smaller weight than the one just queued, also when the
  queue was empty and the table of weights has been reset.\<close>

lemma next_weight_grows:
  assumes inv: "sq_inv B sq" and B: "B + 128 < 4611686018427387904" and fresh: "p \<notin># queued sq"
    and push: "pushes push (next_weight (priority_code (priority ip)) sq) p (outgoingPacketBuffer sq)"
  shows "next_weight (priority_code (priority ip)) sq \<le> next_weight (priority_code (priority ip)) (enqueue push p ip sq)"
proof -
  let ?pl = "priority_code (priority ip)" and ?q = "enqueue push p ip sq" and ?w = "next_weight (priority_code (priority ip)) sq"
  have B': "B + 64 < 4611686018427387904" using B by simp
  have inv': "sq_inv (B + 64) ?q" by (rule enqueue_inv [OF inv B' fresh push])
  have B64: "B + 64 + 64 < 4611686018427387904" using B by simp
  have B2: "B + 64 < 4611686018427387904" by (rule B')
  note pl = priority_code_less [of "priority ip"]
  note f = next_weight_facts [OF inv B' pl] and f' = next_weight_facts [OF inv' B64 pl]
  have el: "heap_elems (outgoingPacketBuffer ?q) = add_mset (?w, p) (heap_elems (outgoingPacketBuffer sq))"
    using push by (simp add: enqueue_eq [OF inv fresh] pushes_def)
  have ne: "Heap_Size (outgoingPacketBuffer ?q) > 0" by (simp add: heap_size_elems el)
  show ?thesis
  proof (cases "Heap_Size (outgoingPacketBuffer sq) > 0")
    case True
    have "length (outgoingPacketBufferNextWeights sq) = 4" using inv by (simp add: sq_inv_def weights_ok_def)
    then have "outgoingPacketBufferNextWeights ?q ! ?pl = of_nat (unat ?w + weight_step ?pl)"
      using f(4) [OF True] pl by (simp add: enqueue_eq [OF inv fresh])
    moreover have "unat (of_nat (unat ?w + weight_step ?pl) :: u64) = unat ?w + weight_step ?pl"
      by (rule unat_of_nat_id) (use f(3) level_bounds(4) [OF pl] B in simp)
    ultimately show ?thesis using f'(4) [OF ne] by (simp add: word_le_nat_alt)
  next
    case False
    then have em: "heap_elems (outgoingPacketBuffer sq) = {#}" by (simp add: heap_size_elems)
    have tp: "Heap_PeekWeight 0 (outgoingPacketBuffer ?q) = ?w" "Heap_Peek 0 (outgoingPacketBuffer ?q) = p"
      using heap_top [OF _ ne] inv' by (simp_all add: sq_inv_def el em)
    have w: "outgoingPacketBufferNextWeights sq ! ?pl = ?w" using False by (simp add: next_weight_def GetNextWeight_def)
    have ww: "unat ?w = start_weight ?pl \<or> start_weight ?pl + weight_step ?pl \<le> unat ?w"
      using inv pl unfolding sq_inv_def weights_ok_def w [symmetric] by blast
    have s: "unat (outgoingPacketBufferNextWeights ?q ! ?pl) = start_weight ?pl"
    proof -
      have "unat (of_nat (start_weight ?pl) :: u64) = start_weight ?pl"
        by (rule unat_of_nat_id) (use level_bounds(3) [OF pl] in simp)
      then show ?thesis using False pl by (simp add: enqueue_eq [OF inv fresh] GetNextWeight_def InitHeapWeights_def NUMBER_OF_PRIORITIES_def)
    qed
    have k: "level ?q p = ?pl" by (simp add: level_def enqueue_eq [OF inv fresh])
    define w1 where "w1 = (if start_weight ?pl < unat ?w - peek_cost ?pl + ?pl then unat ?w - peek_cost ?pl + ?pl + start_weight ?pl else start_weight ?pl)"
    note G = GetNextWeight_nonempty [OF inv' B2 pl ne, unfolded tp s k, folded w1_def]
    have g: "next_weight ?pl ?q = of_nat w1" "w1 \<le> B + 64 + 27"
      using G(1,3) by (simp_all only: next_weight_def fst_conv)
    have "unat (of_nat w1 :: u64) = w1" by (rule unat_of_nat_id) (use g(2) B in simp)
    moreover have "unat ?w \<le> w1" using ww level_bounds [OF pl] by (auto simp: w1_def)
    ultimately show ?thesis by (simp add: g(1) word_le_nat_alt)
  qed
qed

section \<open>A whole message is queued\<close>

lemma push_pushes: "heap_ok False hp \<Longrightarrow> pushes (Heap_Push False) w p hp"
  using hq.push_law [of False hp w p] by (simp add: pushes_def)

lemma series_pushes: "heap_ok False hp \<Longrightarrow> series_ready False w hp \<Longrightarrow> pushes (Heap_PushSeries False) w p hp"
  using Heap_PushSeries_correct(1,2) [of False hp w p] by (simp add: pushes_def heap_elems_def HeapNode_of_def)

text \<open>What queueing \<open>fs\<close>, all of one priority, at the addresses \<open>ps\<close> does: the weights \<open>ws\<close> given out follow the
  heap order; while other packets wait they are strictly increasing and above the table's entry.\<close>

definition series_effect :: "nat \<Rightarrow> ptr list \<Rightarrow> u64 list \<Rightarrow> SendQueue \<Rightarrow> SendQueue \<Rightarrow> bool" where
  "series_effect pl ps ws sq sq' \<longleftrightarrow> length ws = length ps \<and>
    heap_elems (outgoingPacketBuffer sq') = heap_elems (outgoingPacketBuffer sq) + mset (zip ws ps) \<and>
    (Heap_Size (outgoingPacketBuffer sq) > 0 \<longrightarrow>
      sorted_wrt (\<lambda>a b. unat a < unat b) ws \<and>
      (\<forall>w \<in> set ws. unat (outgoingPacketBufferNextWeights sq ! pl) \<le> unat w \<and> unat w < unat (outgoingPacketBufferNextWeights sq' ! pl)) \<and>
      unat (outgoingPacketBufferNextWeights sq ! pl) \<le> unat (outgoingPacketBufferNextWeights sq' ! pl) \<and>
      (\<forall>q < 4. q \<noteq> pl \<longrightarrow> outgoingPacketBufferNextWeights sq' ! q = outgoingPacketBufferNextWeights sq ! q))"

lemma series_effect_nil: "series_effect pl [] [] sq sq"
  by (simp add: series_effect_def)

lemma enqueue_effect:
  assumes inv: "sq_inv B sq" and B: "B + 64 < 4611686018427387904" and fresh: "p \<notin># queued sq"
    and push: "pushes push (next_weight (priority_code (priority ip)) sq) p (outgoingPacketBuffer sq)"
  shows "series_effect (priority_code (priority ip)) [p] [next_weight (priority_code (priority ip)) sq] sq (enqueue push p ip sq)"
proof -
  let ?pl = "priority_code (priority ip)" and ?q = "enqueue push p ip sq" and ?w = "next_weight (priority_code (priority ip)) sq"
  note pl = priority_code_less [of "priority ip"]
  note f = next_weight_facts [OF inv B pl]
  have len: "length (outgoingPacketBufferNextWeights sq) = 4" using inv by (simp add: sq_inv_def weights_ok_def)
  have "unat (of_nat (unat ?w + weight_step ?pl) :: u64) = unat ?w + weight_step ?pl"
    by (rule unat_of_nat_id) (use f(3) level_bounds(4) [OF pl] B in simp)
  then have "unat (outgoingPacketBufferNextWeights sq ! ?pl) \<le> unat ?w \<and> unat (outgoingPacketBufferNextWeights ?q ! ?pl) = unat ?w + weight_step ?pl \<and>
      (\<forall>q < 4. q \<noteq> ?pl \<longrightarrow> outgoingPacketBufferNextWeights ?q ! q = outgoingPacketBufferNextWeights sq ! q)"
    if "Heap_Size (outgoingPacketBuffer sq) > 0"
    using f(4) [OF that] pl len by (simp add: enqueue_eq [OF inv fresh])
  moreover have "heap_elems (outgoingPacketBuffer ?q) = add_mset (?w, p) (heap_elems (outgoingPacketBuffer sq))"
    using push by (simp add: enqueue_eq [OF inv fresh] pushes_def)
  ultimately show ?thesis using level_bounds(5) [OF pl] by (auto simp: series_effect_def)
qed

lemma series_effect_cons:
  assumes a: "series_effect pl [p] [w] sq sq1" and b: "series_effect pl ps ws sq1 sq2"
  shows "series_effect pl (p # ps) (w # ws) sq sq2"
proof -
  have n: "Heap_Size (outgoingPacketBuffer sq1) > 0" using a by (simp add: series_effect_def heap_size_elems)
  have "heap_elems (outgoingPacketBuffer sq2) = heap_elems (outgoingPacketBuffer sq) + mset (zip (w # ws) (p # ps))"
    using a b by (simp add: series_effect_def)
  then show ?thesis using a b n by (fastforce simp: series_effect_def)
qed

lemma enqueue_series_effect:
  assumes "sq_inv B sq" "B + 64 * Suc (length fs) < 4611686018427387904" "length fs = length ps" "distinct ps"
    "set ps \<inter> set_mset (queued sq) = {}" "\<forall>f \<in> set fs. priority_code (priority f) = pl"
    "fs \<noteq> [] \<Longrightarrow> series_ready False (next_weight pl sq) (outgoingPacketBuffer sq)"
  shows "sq_inv (B + 64 * length fs) (enqueue_series ps fs sq) \<and> (\<exists>ws. series_effect pl ps ws sq (enqueue_series ps fs sq))"
  using assms
proof (induction fs arbitrary: B sq ps)
  case Nil
  then show ?case using series_effect_nil by auto
next
  case (Cons f fs)
  obtain p ps' where ps: "ps = p # ps'" using Cons.prems(3) by (cases ps) auto
  let ?q = "enqueue (Heap_PushSeries False) p f sq" and ?w = "next_weight pl sq"
  have pl: "priority_code (priority f) = pl" using Cons.prems(6) by simp
  have fresh: "p \<notin># queued sq" using Cons.prems(5) ps by auto
  have ok: "heap_ok False (outgoingPacketBuffer sq)" using Cons.prems(1) by (simp add: sq_inv_def)
  have ready: "series_ready False ?w (outgoingPacketBuffer sq)" using Cons.prems(7) by simp
  have push: "pushes (Heap_PushSeries False) (next_weight (priority_code (priority f)) sq) p (outgoingPacketBuffer sq)"
    using series_pushes [OF ok ready] pl by simp
  have B1: "B + 64 < 4611686018427387904" and B2: "B + 128 < 4611686018427387904" using Cons.prems(2) by simp_all
  have inv': "sq_inv (B + 64) ?q" by (rule enqueue_inv [OF Cons.prems(1) B1 fresh push])
  have eff: "series_effect pl [p] [?w] sq ?q" using enqueue_effect [OF Cons.prems(1) B1 fresh push] pl by simp
  have "hle False ?w (next_weight pl ?q)"
    using next_weight_grows [OF Cons.prems(1) B2 fresh push] pl by (simp add: hle_def out_of_order_def linorder_not_less)
  then have ready': "series_ready False (next_weight pl ?q) (outgoingPacketBuffer ?q)"
    using Heap_PushSeries_correct(3) [OF ok ready] pl by (simp add: enqueue_eq [OF Cons.prems(1) fresh])
  have "queued ?q = add_mset p (queued sq)" using eff by (simp add: series_effect_def queued_def)
  then have dis: "set ps' \<inter> set_mset (queued ?q) = {}" using Cons.prems(4,5) ps by auto
  have "sq_inv (B + 64 + 64 * length fs) (enqueue_series ps' fs ?q) \<and> (\<exists>ws. series_effect pl ps' ws ?q (enqueue_series ps' fs ?q))"
    by (rule Cons.IH [OF inv' _ _ _ dis]) (use Cons.prems ps ready' in simp_all)
  then show ?case using series_effect_cons [OF eff] ps by (auto simp: algebra_simps)
qed

text \<open>The number of packets \<^verbatim>\<open>Send\<close> takes from the pool and queues.\<close>

definition packets_needed :: "InternalPacket \<Rightarrow> nat \<Rightarrow> nat \<Rightarrow> nat" where
  "packets_needed pool mtu numberOfBitsToSend =
    (let block = maximumSendBlockBytes pool mtu
     in if numberOfBitsToSend = 0 then 0
        else if BITS_TO_BYTES numberOfBitsToSend > block then split_count block (BITS_TO_BYTES numberOfBitsToSend) else 1)"

lemma sq_inv_cong:
  assumes "outgoingPacketBufferNextWeights sq' = outgoingPacketBufferNextWeights sq" "sq_mem sq' = sq_mem sq"
    "h_nodes (outgoingPacketBuffer sq') = h_nodes (outgoingPacketBuffer sq)"
  shows "sq_inv B sq' \<longleftrightarrow> sq_inv B sq" "queued sq' = queued sq" "series_effect pl ps ws sq' r \<longleftrightarrow> series_effect pl ps ws sq r"
  using assms by (simp_all add: sq_inv_def heap_ok_def entries_ok_def heap_elems_def heap_mset_def level_def queued_def
      series_effect_def Heap_Size_def)

lemma sq_inv_mono: "sq_inv B sq \<Longrightarrow> B \<le> C \<Longrightarrow> sq_inv C sq"
  unfolding sq_inv_def entries_ok_def using weights_le le_trans by blast

lemma assign_order_frame:
  "outgoingPacketBufferNextWeights (snd (assign_order ch ip sq)) = outgoingPacketBufferNextWeights sq"
  "sq_mem (snd (assign_order ch ip sq)) = sq_mem sq"
  "outgoingPacketBuffer (snd (assign_order ch ip sq)) = outgoingPacketBuffer sq"
  "priority (fst (assign_order ch ip sq)) = priority ip"
  "dataBitLength (fst (assign_order ch ip sq)) = dataBitLength ip"
  by (simp_all add: assign_order_def)

lemma split_fragments_shape:
  "length (split_fragments pool mtu n io ip) = split_count (maximumSendBlockBytes pool mtu) (BITS_TO_BYTES (dataBitLength ip))"
  "f \<in> set (split_fragments pool mtu n io ip) \<Longrightarrow> priority f = priority ip"
  by (auto simp: split_fragments_def split_fragment_def Let_def)

lemma SplitPacket_effect:
  assumes inv: "sq_inv B sq" and B: "B + 64 * Suc (length ps) < 4611686018427387904"
    and len: "length ps = split_count (maximumSendBlockBytes pool mtu) (BITS_TO_BYTES (dataBitLength ip))"
    and ps: "distinct ps" "set ps \<inter> set_mset (queued sq) = {}"
  shows "sq_inv (B + 64 * length ps) (SplitPacket pool mtu ps ip sq) \<and>
    (\<exists>ws. series_effect (priority_code (priority ip)) ps ws sq (SplitPacket pool mtu ps ip sq))"
proof -
  let ?fs = "split_fragments pool mtu (nextSplitPacketId sq) (internalOrderIndex sq) ip"
  let ?s = "sq\<lparr>internalOrderIndex := internalOrderIndex sq + of_nat (length ?fs - 1), nextSplitPacketId := nextSplitPacketId sq + 1,
      outgoingPacketBuffer := Heap_StartSeries (outgoingPacketBuffer sq)\<rparr>"
  have c: "sq_inv B ?s \<longleftrightarrow> sq_inv B sq" "queued ?s = queued sq"
    "\<And>pl ws r. series_effect pl ps ws ?s r \<longleftrightarrow> series_effect pl ps ws sq r"
    by (rule sq_inv_cong; simp add: Heap_StartSeries_def)+
  have l: "length ?fs = length ps" by (simp add: split_fragments_shape len)
  have r: "series_ready False w (outgoingPacketBuffer ?s)" for w by (simp add: series_ready_def Heap_StartSeries_def)
  have "sq_inv (B + 64 * length ?fs) (enqueue_series ps ?fs ?s) \<and>
      (\<exists>ws. series_effect (priority_code (priority ip)) ps ws ?s (enqueue_series ps ?fs ?s))"
  proof (rule enqueue_series_effect)
    show "sq_inv B ?s" using inv c(1) by simp
    show "B + 64 * Suc (length ?fs) < 4611686018427387904" using B l by simp
    show "set ps \<inter> set_mset (queued ?s) = {}" using ps(2) c(2) by simp
    show "\<forall>f \<in> set ?fs. priority_code (priority f) = priority_code (priority ip)" using split_fragments_shape(2) by metis
  qed (use l ps r in auto)
  then show ?thesis using c(3) l by (simp add: SplitPacket_def Let_def)
qed

lemma Send_effect:
  assumes inv: "sq_inv B sq" and B: "B + 64 * Suc (length ps) < 4611686018427387904"
    and len: "length ps = packets_needed pool mtu bits" and ps: "distinct ps" "set ps \<inter> set_mset (queued sq) = {}"
    and send: "Send pool mtu ps data bits prio rel ch copy time serial sq = Inr (b, sq')"
  shows "sq_inv (B + 64 * length ps) sq' \<and> (\<exists>pl < 4. \<exists>ws. series_effect pl ps ws sq sq')"
proof (cases "bits = 0")
  case True
  then have "sq' = sq" "ps = []" using send len by (auto simp: Send_def packets_needed_def)
  then show ?thesis using inv series_effect_nil [of 0 sq] by (auto intro!: exI [of _ "0 :: nat"])
next
  case False
  define ip where "ip = new_message pool data bits (priority_of (if prio > NUMBER_OF_PRIORITIES then 1 else prio))
      (if rel > 7 then Reliable else reliability_of (of_nat rel)) copy time serial (internalOrderIndex sq)"
  define split where "split \<longleftrightarrow> BITS_TO_BYTES bits > maximumSendBlockBytes pool mtu"
  define ip1 where "ip1 = (if split then ip\<lparr>reliability := upgrade_reliability (if rel > 7 then Reliable else reliability_of (of_nat rel))\<rparr> else ip)"
  define r where "r = assign_order (if ch \<ge> NUMBER_OF_ORDERED_STREAMS then 0 else ch) ip1 (sq\<lparr>internalOrderIndex := internalOrderIndex sq + 1\<rparr>)"
  have sq': "sq' = (if split then SplitPacket pool mtu ps (fst r) (snd r) else enqueue (Heap_Push False) (hd ps) (fst r) (snd r))"
    using send False by (auto simp: Send_def Let_def split_def [symmetric] ip_def [symmetric] ip1_def [symmetric] r_def [symmetric]
        split: if_splits prod.splits)
  have fr: "outgoingPacketBufferNextWeights (snd r) = outgoingPacketBufferNextWeights sq" "sq_mem (snd r) = sq_mem sq"
    "outgoingPacketBuffer (snd r) = outgoingPacketBuffer sq" "dataBitLength (fst r) = bits"
    by (simp_all add: r_def assign_order_frame ip1_def ip_def new_message_def)
  have c: "sq_inv C (snd r) \<longleftrightarrow> sq_inv C sq" "queued (snd r) = queued sq"
    "series_effect pl qs ws (snd r) x \<longleftrightarrow> series_effect pl qs ws sq x" for C pl qs ws x
    by (rule sq_inv_cong; simp add: fr)+
  note pl = priority_code_less [of "priority (fst r)"]
  show ?thesis
  proof (cases split)
    case True
    have l: "length ps = split_count (maximumSendBlockBytes pool mtu) (BITS_TO_BYTES (dataBitLength (fst r)))"
      using len False True by (simp add: packets_needed_def split_def fr Let_def)
    show ?thesis using SplitPacket_effect [OF _ B l ps(1), of "snd r"] inv ps(2) True pl by (auto simp: sq' c)
  next
    case ns: False
    have l: "length ps = 1" using len False ns by (simp add: packets_needed_def split_def Let_def)
    then obtain p where p: "ps = [p]" by (metis One_nat_def length_0_conv length_Suc_conv)
    have ok: "heap_ok False (outgoingPacketBuffer (snd r))" using inv by (simp add: sq_inv_def fr)
    have B': "B + 64 < 4611686018427387904" using B by simp
    have inv': "sq_inv B (snd r)" and fresh: "p \<notin># queued (snd r)" using inv ps(2) p by (simp_all add: c)
    show ?thesis
      using enqueue_inv [OF inv' B' fresh push_pushes [OF ok]] enqueue_effect [OF inv' B' fresh push_pushes [OF ok]] ns pl
      by (auto simp: sq' p c)
  qed
qed

section \<open>The queue over time\<close>

inductive queue_step :: "nat \<Rightarrow> ptr multiset \<Rightarrow> ptr multiset \<Rightarrow> SendQueue \<Rightarrow> SendQueue \<Rightarrow> bool" where
  qs_send: "length ps = packets_needed pool mtu bits \<Longrightarrow> distinct ps \<Longrightarrow> set ps \<inter> set_mset (queued sq) = {} \<Longrightarrow>
    Send pool mtu ps data bits prio rel ch copy time serial sq = Inr (b, sq') \<Longrightarrow> queue_step (length ps) (mset ps) {#} sq sq'"
| qs_pop: "Heap_Size (outgoingPacketBuffer sq) > 0 \<Longrightarrow>
    queue_step 0 {#} {#Heap_Peek 0 (outgoingPacketBuffer sq)#} sq (pop_outgoing sq)"
| qs_memory: "p \<notin># queued sq \<Longrightarrow> queue_step 0 {#} {#} sq (sq\<lparr>sq_mem := (sq_mem sq)(p := ip)\<rparr>)"

inductive queue_run :: "nat \<Rightarrow> ptr multiset \<Rightarrow> ptr multiset \<Rightarrow> SendQueue \<Rightarrow> bool" where
  qr_start: "queue_run 0 {#} {#} (SendQueue_new mem)"
| qr_step: "queue_run n sent taken sq \<Longrightarrow> queue_step k s t sq sq' \<Longrightarrow> queue_run (n + k) (sent + s) (taken + t) sq'"

lemma SendQueue_new_inv: "sq_inv 27 (SendQueue_new mem)" "queued (SendQueue_new mem) = {#}"
  using start_weights_ok [of 27]
  by (simp_all add: SendQueue_new_def sq_inv_def InitHeapWeights_def entries_ok_def queued_def Heap_new_def heap_ok_def heap_ordered_def
      heap_elems_def heap_mset_def)

lemma pop_outgoing_facts:
  assumes inv: "sq_inv B sq" and ne: "Heap_Size (outgoingPacketBuffer sq) > 0"
  shows "heap_elems (outgoingPacketBuffer sq) =
      add_mset (Heap_PeekWeight 0 (outgoingPacketBuffer sq), Heap_Peek 0 (outgoingPacketBuffer sq)) (heap_elems (outgoingPacketBuffer (pop_outgoing sq)))"
    and "sq_inv B (pop_outgoing sq)"
proof -
  have ok: "heap_ok False (outgoingPacketBuffer sq)" and e: "heap_elems (outgoingPacketBuffer sq) \<noteq> {#}"
    using inv ne by (auto simp: sq_inv_def heap_size_elems)
  have "fst (Heap_Pop False 0 (outgoingPacketBuffer sq)) = Heap_Peek 0 (outgoingPacketBuffer sq)"
    by (simp add: Heap_Pop_def Heap_Peek_def Let_def)
  then show el: "heap_elems (outgoingPacketBuffer sq) =
      add_mset (Heap_PeekWeight 0 (outgoingPacketBuffer sq), Heap_Peek 0 (outgoingPacketBuffer sq)) (heap_elems (outgoingPacketBuffer (pop_outgoing sq)))"
    using hq.pop_law(2) [OF ok e] by (simp add: pop_outgoing_def Let_def)
  show "sq_inv B (pop_outgoing sq)"
    using inv el hq.pop_law(1) [OF ok e] by (auto simp: sq_inv_def entries_ok_def pop_outgoing_def level_def Let_def)
qed

lemma memory_frame:
  assumes "sq_inv B sq" "p \<notin># queued sq"
  shows "sq_inv B (sq\<lparr>sq_mem := (sq_mem sq)(p := ip)\<rparr>)"
proof -
  have "snd x \<noteq> p" if "x \<in># heap_elems (outgoingPacketBuffer sq)" for x using assms(2) that by (auto simp: queued_def)
  then show ?thesis using assms(1) by (auto simp: sq_inv_def entries_ok_def level_def)
qed

lemma series_effect_queued: "series_effect pl ps ws sq sq' \<Longrightarrow> queued sq' = queued sq + mset ps"
  by (auto simp: series_effect_def queued_def simp flip: mset_map)

lemma queue_step_inv:
  assumes "queue_step k s t sq sq'" "sq_inv B sq" "B + 64 * Suc k < 4611686018427387904"
  shows "sq_inv (B + 64 * k) sq' \<and> queued sq + s = queued sq' + t"
  using assms
proof cases
  case (qs_send ps pool mtu bits data prio rel ch copy time serial b)
  obtain pl ws where "sq_inv (B + 64 * length ps) sq'" "series_effect pl ps ws sq sq'"
    using Send_effect [OF assms(2) _ qs_send(4,5,6,7)] assms(3) qs_send(1) by auto
  then show ?thesis using series_effect_queued qs_send(1,2,3) by auto
next
  case qs_pop
  then show ?thesis using pop_outgoing_facts [OF assms(2), of] by (simp add: queued_def)
next
  case (qs_memory p ip)
  then show ?thesis using memory_frame [OF assms(2)] by (simp add: queued_def)
qed

lemma queue_run_inv:
  "queue_run n sent taken sq \<Longrightarrow> 64 * n + 91 < 4611686018427387904 \<Longrightarrow> sq_inv (27 + 64 * n) sq \<and> sent = queued sq + taken"
proof (induction rule: queue_run.induct)
  case (qr_start mem)
  then show ?case using SendQueue_new_inv by simp
next
  case (qr_step n sent taken sq k s t sq')
  then have IH: "sq_inv (27 + 64 * n) sq" "sent = queued sq + taken" by simp_all
  show ?case using queue_step_inv [OF qr_step.hyps(2) IH(1)] qr_step.prems IH(2)
    by (simp add: algebra_simps)
qed

section \<open>Waiting\<close>

text \<open>\<open>waits x n t sq sq'\<close>: from \<open>sq\<close> to \<open>sq'\<close> the entry \<open>x\<close> stays in the queue, while \<open>n\<close> packets are queued and \<open>t\<close> packets are
  taken off before it.\<close>

inductive waits :: "u64 \<times> ptr \<Rightarrow> nat \<Rightarrow> nat \<Rightarrow> SendQueue \<Rightarrow> SendQueue \<Rightarrow> bool" where
  waits_start: "x \<in># heap_elems (outgoingPacketBuffer sq) \<Longrightarrow> waits x 0 0 sq sq"
| waits_step: "waits x n t sq sq1 \<Longrightarrow> queue_step k s d sq1 sq2 \<Longrightarrow> x \<in># heap_elems (outgoingPacketBuffer sq2) \<Longrightarrow>
    waits x (n + k) (t + size d) sq sq2"

text \<open>The ghost log \<open>lg\<close> holds priority and weight of every packet queued since; \<open>P\<close> the weights of those taken off.\<close>

definition log_ok :: "(nat \<times> u64) list \<Rightarrow> SendQueue \<Rightarrow> bool" where
  "log_ok lg sq \<longleftrightarrow> distinct lg \<and> (\<forall>(pl, w) \<in> set lg. pl < 4 \<and> unat w < unat (outgoingPacketBufferNextWeights sq ! pl))"

definition waiting_inv :: "u64 \<times> ptr \<Rightarrow> nat \<Rightarrow> SendQueue \<Rightarrow> SendQueue \<Rightarrow> bool" where
  "waiting_inv x t sq sq' \<longleftrightarrow> (\<exists>lg P. log_ok lg sq' \<and> size P = t \<and> (\<forall>w \<in># P. w \<le> fst x) \<and>
    image_mset fst (heap_elems (outgoingPacketBuffer sq')) + P = image_mset fst (heap_elems (outgoingPacketBuffer sq)) + mset (map snd lg))"

lemma sorted_distinct_weights: "sorted_wrt (\<lambda>a b. unat (a :: u64) < unat b) ws \<Longrightarrow> distinct ws"
  by (induction ws) auto

lemma log_ok_append:
  assumes ok: "log_ok lg sq" and eff: "series_effect pl ps ws sq sq'" and pl: "pl < 4" and ne: "Heap_Size (outgoingPacketBuffer sq) > 0"
  shows "log_ok (lg @ map (Pair pl) ws) sq'"
proof -
  note e = eff [unfolded series_effect_def, THEN conjunct2, THEN conjunct2, THEN mp, OF ne]
  have d: "distinct ws" using e sorted_distinct_weights by blast
  have lt: "unat w < unat (outgoingPacketBufferNextWeights sq' ! q)" if "(q, w) \<in> set lg" for q w
    using ok that e by (cases "q = pl") (fastforce simp: log_ok_def)+
  have new: "(pl, w) \<notin> set lg" if "w \<in> set ws" for w
  proof
    assume "(pl, w) \<in> set lg"
    then have "unat w < unat (outgoingPacketBufferNextWeights sq ! pl)" using ok by (fastforce simp: log_ok_def)
    then show False using e that by fastforce
  qed
  have "distinct (map (Pair pl) ws)" using d by (simp add: distinct_map inj_on_def)
  moreover have "\<forall>(q, w) \<in> set (lg @ map (Pair pl) ws). q < 4 \<and> unat w < unat (outgoingPacketBufferNextWeights sq' ! q)"
    using ok lt e pl by (fastforce simp: log_ok_def)
  ultimately show ?thesis using ok new by (auto simp: log_ok_def)
qed

lemma waiting_step:
  assumes w: "waiting_inv x t sq sq1" and st: "queue_step k s d sq1 sq2" and inv: "sq_inv B sq1" and B: "B + 64 * Suc k < 4611686018427387904"
    and x1: "x \<in># heap_elems (outgoingPacketBuffer sq1)"
  shows "waiting_inv x (t + size d) sq sq2"
proof -
  obtain lg P where lg: "log_ok lg sq1" "size P = t" "\<forall>w \<in># P. w \<le> fst x"
    and eq: "image_mset fst (heap_elems (outgoingPacketBuffer sq1)) + P = image_mset fst (heap_elems (outgoingPacketBuffer sq)) + mset (map snd lg)"
    using w by (auto simp: waiting_inv_def)
  have ne: "Heap_Size (outgoingPacketBuffer sq1) > 0" using x1 by (metis heap_size_elems empty_iff nonempty_has_size set_mset_empty)
  show ?thesis using st
  proof cases
    case (qs_send ps pool mtu bits data prio rel ch copy time serial b)
    obtain pl ws where eff: "pl < 4" "series_effect pl ps ws sq1 sq2"
      using Send_effect [OF inv _ qs_send(4,5,6,7)] B qs_send(1) by auto
    have "image_mset fst (heap_elems (outgoingPacketBuffer sq2)) = image_mset fst (heap_elems (outgoingPacketBuffer sq1)) + mset ws"
      using eff(2) by (auto simp: series_effect_def simp flip: mset_map)
    then show ?thesis
      unfolding waiting_inv_def using lg eq qs_send(3) log_ok_append [OF lg(1) eff(2,1) ne]
      by (intro exI [of _ "lg @ map (Pair pl) ws"] exI [of _ P]) (simp add: comp_def ac_simps)
  next
    case qs_pop
    let ?w = "Heap_PeekWeight 0 (outgoingPacketBuffer sq1)"
    have "?w \<le> fst x" using hq.top_law [of False "outgoingPacketBuffer sq1" x] inv x1 by (simp add: sq_inv_def hle_def out_of_order_def)
    moreover have "log_ok lg sq2" using lg(1) qs_pop(4) by (simp add: log_ok_def pop_outgoing_def Let_def)
    ultimately show ?thesis
      unfolding waiting_inv_def using lg eq qs_pop pop_outgoing_facts(1) [OF inv ne]
      by (intro exI [of _ lg] exI [of _ "add_mset ?w P"]) simp
  next
    case (qs_memory p ip)
    then show ?thesis using w by (simp add: waiting_inv_def log_ok_def)
  qed
qed

lemma waits_inv:
  "waits x n t sq sq' \<Longrightarrow> sq_inv B sq \<Longrightarrow> B + 64 * n + 64 < 4611686018427387904 \<Longrightarrow>
    sq_inv (B + 64 * n) sq' \<and> x \<in># heap_elems (outgoingPacketBuffer sq') \<and> waiting_inv x t sq sq'"
proof (induction rule: waits.induct)
  case (waits_start x sq)
  then show ?case by (auto simp: waiting_inv_def log_ok_def intro!: exI [of _ "[]"])
next
  case (waits_step x n t sq sq1 k s d sq2)
  then have IH: "sq_inv (B + 64 * n) sq1" "x \<in># heap_elems (outgoingPacketBuffer sq1)" "waiting_inv x t sq sq1" by simp_all
  have b: "B + 64 * n + 64 * Suc k < 4611686018427387904" using waits_step.prems(2) by simp
  show ?case
    using queue_step_inv [OF waits_step.hyps(2) IH(1) b] waiting_step [OF IH(3) waits_step.hyps(2) IH(1) b IH(2)] waits_step.hyps(3)
    by (simp add: algebra_simps)
qed

lemma log_below:
  assumes "log_ok lg sq"
  shows "length (filter (\<lambda>e. snd e \<le> a) lg) \<le> 4 * (unat a + 1)"
proof -
  let ?f = "\<lambda>(pl :: nat, w :: u64). (pl, unat w)" and ?l = "filter (\<lambda>e. snd e \<le> a) lg"
  have d: "distinct ?l" using assms by (simp add: log_ok_def)
  have "inj_on ?f (set ?l)" by (auto simp: inj_on_def word_unat_eq_iff)
  then have "length ?l = card (?f ` set ?l)" using card_image distinct_card [OF d] by fastforce
  also have "\<dots> \<le> card ({..<4 :: nat} \<times> {..unat a})"
    by (rule card_mono) (use assms in \<open>auto simp: log_ok_def word_le_nat_alt\<close>)
  finally show ?thesis by simp
qed

lemma waiting_bounded:
  assumes "waiting_inv x t sq sq'"
  shows "t \<le> Heap_Size (outgoingPacketBuffer sq) + 4 * (unat (fst x) + 1)"
proof -
  obtain lg P where lg: "log_ok lg sq'" "size P = t" "\<forall>w \<in># P. w \<le> fst x"
    and eq: "image_mset fst (heap_elems (outgoingPacketBuffer sq')) + P = image_mset fst (heap_elems (outgoingPacketBuffer sq)) + mset (map snd lg)"
    using assms by (auto simp: waiting_inv_def)
  let ?le = "\<lambda>w. w \<le> fst x"
  have "P = filter_mset ?le P" using lg(3) filter_mset_cong0 [of P ?le "\<lambda>_. True"] by simp
  then have "size P \<le> size (filter_mset ?le (image_mset fst (heap_elems (outgoingPacketBuffer sq')) + P))"
    by (metis filter_union_mset le_add2 size_union)
  also have "\<dots> = size (filter_mset ?le (image_mset fst (heap_elems (outgoingPacketBuffer sq)))) + length (filter ?le (map snd lg))"
    by (simp only: eq filter_union_mset size_union mset_filter [symmetric] size_mset)
  also have "\<dots> \<le> Heap_Size (outgoingPacketBuffer sq) + length (filter (\<lambda>e. snd e \<le> fst x) lg)"
    using size_filter_mset_lesseq [of ?le "image_mset fst (heap_elems (outgoingPacketBuffer sq))"]
    by (simp add: heap_size_elems filter_map comp_def)
  finally show ?thesis using log_below [OF lg(1), of "fst x"] lg(2) by simp
qed

section \<open>Properties\<close>

text \<open>A message of three bytes of low priority at address 5, then one of the highest priority at address 6.\<close>

definition demo_send :: "nat \<Rightarrow> ptr \<Rightarrow> SendQueue \<Rightarrow> SendQueue" where
  "demo_send prio p sq = snd (projr (Send demo_packet 1400 [p] [1, 2, 3] 24 prio 2 0 True 0 0 sq))"

definition demo_queue :: SendQueue where
  "demo_queue = demo_send 3 5 (SendQueue_new (\<lambda>_. demo_packet))"

lemma demo_block: "maximumSendBlockBytes demo_packet 1400 > 3" "BITS_TO_BYTES 24 = 3"
  by (simp_all add: maximumSendBlockBytes_def GetMaxDatagramSizeExcludingMessageHeaderBytes_def GetDataHeaderByteLength_def
      GetMaxMessageHeaderLengthBits_def GetMessageHeaderLengthBits_def BITS_TO_BYTES_def demo_packet_def)

lemma demo_Send:
  assumes "prio < 4"
  shows "Send demo_packet 1400 [p] [1, 2, 3] 24 prio 2 0 True 0 0 sq = Inr (True, enqueue (Heap_Push False) p
    (new_message demo_packet [1, 2, 3] 24 (priority_of prio) Reliable True 0 0 (internalOrderIndex sq))
    (sq\<lparr>internalOrderIndex := internalOrderIndex sq + 1\<rparr>))"
proof -
  have "\<not> maximumSendBlockBytes demo_packet 1400 < 3" "reliability_of 2 = Reliable" using demo_block by (simp_all add: reliability_of_def)
  then show ?thesis using assms
    by (simp add: Send_def NUMBER_OF_PRIORITIES_def demo_block Let_def assign_order_def new_message_def AllocateFromInternalPacketPool_def)
qed

lemma demo_step: "prio < 4 \<Longrightarrow> p \<notin># queued sq \<Longrightarrow> queue_step 1 {#p#} {#} sq (demo_send prio p sq)"
  using qs_send [of "[p]" demo_packet 1400 24 sq "[1, 2, 3]" prio 2 0 True 0 0 True "demo_send prio p sq"] demo_block
  by (simp add: demo_send_def packets_needed_def Let_def demo_Send)

lemma demo_run: "queue_run 1 {#5#} {#} demo_queue"
  using qr_step [OF qr_start demo_step [of 3 5]] by (simp add: demo_queue_def SendQueue_new_inv)

text \<open>Property C18.  However messages are sent (whole or in fragments, of any priority), taken off for transmission and
  overwritten afterwards: the outgoing queue is always a heap, although fragments are appended without comparing
  them to their parents, and it holds exactly the packets queued and not yet taken off.\<close>

theorem outgoing_queue_sound:
  assumes "queue_run n sent taken sq" "64 * n + 91 < 4611686018427387904"
  shows "heap_ok False (outgoingPacketBuffer sq) \<and> sent = queued sq + taken"
  using queue_run_inv [OF assms] by (simp add: sq_inv_def)

theorem outgoing_queue_sound_witness:
  "heap_ok False (outgoingPacketBuffer demo_queue) \<and> {#5#} = queued demo_queue + {#}"
  using outgoing_queue_sound [OF demo_run] by simp

text \<open>Property C19.  No message starves: however many messages of whatever priority are sent meanwhile, a queued packet of
  weight \<open>w\<close> is passed by at most as many packets as were waiting with it, plus \<open>4 * (w + 1)\<close>.\<close>

theorem no_starvation:
  assumes "queue_run m sent taken sq" "waits x n t sq sq'" "64 * (m + n) + 91 < 4611686018427387904"
  shows "t \<le> Heap_Size (outgoingPacketBuffer sq) + 4 * (unat (fst x) + 1)"
proof -
  have "sq_inv (27 + 64 * m) sq" using queue_run_inv [OF assms(1)] assms(3) by simp
  then have "waiting_inv x t sq sq'" using waits_inv [OF assms(2)] assms(3) by simp
  then show ?thesis by (rule waiting_bounded)
qed

lemmas demo_eval = enqueue_def GetNextWeight_def SendQueue_new_def InitHeapWeights_def Heap_new_def Heap_Push_def Heap_Size_def
  Heap_Peek_def Heap_PeekWeight_def heap_elems_def heap_mset_def HeapNode_of_def count_message_def pop_outgoing_def Heap_Pop_def
  Let_def new_message_def priority_of_def start_weight_def NUMBER_OF_PRIORITIES_def Swap_def Parent_def LeftChild_def RightChild_def
  out_of_order_def upt_conv_Cons

theorem no_starvation_witness:
  "(1 :: nat) \<le> Heap_Size (outgoingPacketBuffer demo_queue) + 4 * (unat (27 :: u64) + 1)"
proof -
  have h: "heap_elems (outgoingPacketBuffer demo_queue) = {#(27, 5)#}"
    by (simp add: demo_queue_def demo_send_def demo_Send demo_eval)
  have h2: "heap_elems (outgoingPacketBuffer (demo_send 0 6 demo_queue)) = {#(6, 6), (27, 5)#}"
    by (simp add: demo_queue_def demo_send_def demo_Send demo_eval)
  have h3: "heap_elems (outgoingPacketBuffer (pop_outgoing (demo_send 0 6 demo_queue))) = {#(27, 5)#}"
    by (simp add: demo_queue_def demo_send_def demo_Send demo_eval)
  have "waits (27, 5) 0 0 demo_queue demo_queue" by (rule waits_start) (simp add: h)
  then have "waits (27, 5) 1 0 demo_queue (demo_send 0 6 demo_queue)"
    using waits_step [OF _ demo_step [of 0 6 demo_queue]] h h2 by (simp add: queued_def)
  then have "waits (27, 5) 1 1 demo_queue (pop_outgoing (demo_send 0 6 demo_queue))"
    using waits_step [OF _ qs_pop [of "demo_send 0 6 demo_queue"]] h2 h3 by (simp add: heap_size_elems)
  from no_starvation [OF demo_run this] show ?thesis by simp
qed

end
