(* ===== verification/Mtu_BlackHole.thy ===== *)
theory Mtu_BlackHole
  imports Transmission Send_Laws Split_Reassembly
begin

text \<open>
  Recovery from a path that swallows large datagrams (\<^verbatim>\<open>mtu_black_hole.cpp\<close>, \<^verbatim>\<open>StepDownMtuAfterBlackHole\<close> and
  \<^verbatim>\<open>ReSplitOversizedMessages\<close>): the datagram size steps down a ladder, and every message that waits and no longer fits is taken out of
  the resend list and the outgoing queue, put together again and cut for the new size.  Allocation does not fail in the model.
\<close>

section \<open>The ladder\<close>

definition MTU_LADDER :: "int list" where
  "MTU_LADDER = [int MAXIMUM_MTU_SIZE, 1280, 1024, 576]"

definition MTU_BLACKHOLE_RESEND_THRESHOLD :: nat where
  "MTU_BLACKHOLE_RESEND_THRESHOLD = 4"

definition UDP_HEADER_SIZE :: nat where
  "UDP_HEADER_SIZE = 28"

primrec next_lower :: "int list \<Rightarrow> int \<Rightarrow> int" where
  "next_lower [] currentMtuBytes = 0"
| "next_lower (rung # rungs) currentMtuBytes = (if rung < currentMtuBytes then rung else next_lower rungs currentMtuBytes)"

definition NextLowerMtu :: "int \<Rightarrow> int" where
  "NextLowerMtu currentMtuBytes = next_lower MTU_LADDER currentMtuBytes"

definition ShouldStepDownMtu :: "nat \<Rightarrow> int \<Rightarrow> int \<Rightarrow> bool" where
  "ShouldStepDownMtu sendings requiredDatagramBytes currentMtuBytes \<longleftrightarrow>
    \<not> sendings < MTU_BLACKHOLE_RESEND_THRESHOLD \<and> NextLowerMtu currentMtuBytes \<noteq> 0 \<and>
    requiredDatagramBytes > NextLowerMtu currentMtuBytes"

section \<open>Cutting waiting messages again\<close>

definition oversized :: "nat \<Rightarrow> InternalPacket \<Rightarrow> bool" where
  "oversized maxDatagramBits ip \<longleftrightarrow> w32 (GetMessageHeaderLengthBits ip + dataBitLength ip) > maxDatagramBits"

definition rebuildMessage :: "InternalPacket \<Rightarrow> InternalPacket option" where
  "rebuildMessage pkt =
    (let rebuilt = (\<lambda>source bitLength.
           pkt\<lparr>allocationScheme := NORMAL, ip_data := take (BITS_TO_BYTES bitLength) source, sharedDataBlock := None,
               dataBitLength := bitLength, splitPacketCount := 0, splitPacketIndex := 0, splitPacketId := 0,
               splitOriginalBitLength := 0, messageNumberAssigned := False, timesSent := 0, nextActionTime := 0,
               retransmissionTime := 0\<rparr>)
     in if splitPacketCount pkt > 0 then
          case sharedDataBlock pkt of
            None \<Rightarrow> None
          | Some source \<Rightarrow>
              if allocationScheme pkt \<noteq> REF_COUNTED \<or> splitOriginalBitLength pkt = 0 then None
              else Some (rebuilt source (splitOriginalBitLength pkt))
        else Some (rebuilt (ip_data pkt) (dataBitLength pkt)))"

record Resplit =
  staleSplitIds :: "u16 list"
  rebuiltMessages :: "InternalPacket list"
  resendVictims :: "ptr list"
  rp_queue :: SendQueue

definition isStaleId :: "u16 \<Rightarrow> Resplit \<Rightarrow> bool" where
  "isStaleId k rp \<longleftrightarrow> list_ex (\<lambda>x. x = k) (staleSplitIds rp)"

definition noteStaleSplit :: "InternalPacket \<Rightarrow> Resplit \<Rightarrow> Resplit" where
  "noteStaleSplit pkt rp =
    (if isStaleId (splitPacketId pkt) rp then rp
     else
       case rebuildMessage pkt of
         None \<Rightarrow> rp
       | Some rebuilt \<Rightarrow>
           rp\<lparr>staleSplitIds := staleSplitIds rp @ [splitPacketId pkt], rebuiltMessages := rebuiltMessages rp @ [rebuilt]\<rparr>)"

definition tombstoneOutgoing :: "ptr \<Rightarrow> SendQueue \<Rightarrow> SendQueue" where
  "tombstoneOutgoing p sq =
    (let pkt = sq_mem sq p
     in sq\<lparr>sq_mem := (sq_mem sq)(p := pkt\<lparr>ip_data := [], allocationScheme := NORMAL, sharedDataBlock := None\<rparr>),
           unreliableLinkedList := RemoveFromUnreliableLinkedList (reliability pkt) p (unreliableLinkedList sq)\<rparr>)"

text \<open>The packets a walk around the resend list visits, from \<open>p\<close> until it is back at \<open>head\<close>; None if it does not come back.\<close>

primrec ring_walk :: "nat \<Rightarrow> Ring \<Rightarrow> ptr \<Rightarrow> ptr \<Rightarrow> ptr list option" where
  "ring_walk 0 r head p = None"
| "ring_walk (Suc fuel) r head p =
    (let q = ring_next r p in if q = head then Some [p] else map_option ((#) p) (ring_walk fuel r head q))"

definition ring_packets :: "Ring \<Rightarrow> ptr list option" where
  "ring_packets r = (case ring_head r of None \<Rightarrow> Some [] | Some h \<Rightarrow> ring_walk RESEND_BUFFER_ARRAY_LENGTH r h h)"

definition find_in_resend :: "nat \<Rightarrow> (ptr \<Rightarrow> InternalPacket) \<Rightarrow> ptr \<Rightarrow> Resplit \<Rightarrow> Resplit" where
  "find_in_resend maxDatagramBits mem p rp =
    (if oversized maxDatagramBits (mem p) then
       if splitPacketCount (mem p) > 0 then noteStaleSplit (mem p) rp
       else
         case rebuildMessage (mem p) of
           None \<Rightarrow> rp
         | Some rebuilt \<Rightarrow> rp\<lparr>rebuiltMessages := rebuiltMessages rp @ [rebuilt], resendVictims := resendVictims rp @ [p]\<rparr>
     else rp)"

definition find_in_outgoing :: "nat \<Rightarrow> ptr \<Rightarrow> Resplit \<Rightarrow> Resplit" where
  "find_in_outgoing maxDatagramBits p rp =
    (let pkt = sq_mem (rp_queue rp) p
     in if ip_data pkt = [] then rp
        else if \<not> oversized maxDatagramBits pkt then rp
        else if splitPacketCount pkt > 0 then noteStaleSplit pkt rp
        else if \<not> unreliable_class (reliability pkt) then
          (case rebuildMessage pkt of
             None \<Rightarrow> rp
           | Some rebuilt \<Rightarrow> rp\<lparr>rebuiltMessages := rebuiltMessages rp @ [rebuilt], rp_queue := tombstoneOutgoing p (rp_queue rp)\<rparr>)
        else rp\<lparr>rp_queue := tombstoneOutgoing p (rp_queue rp)\<rparr>)"

definition sweep_resend :: "(ptr \<Rightarrow> InternalPacket) \<Rightarrow> ptr \<Rightarrow> Resplit \<Rightarrow> Resplit" where
  "sweep_resend mem p rp =
    (if splitPacketCount (mem p) > 0 \<and> isStaleId (splitPacketId (mem p)) rp
     then rp\<lparr>resendVictims := resendVictims rp @ [p]\<rparr> else rp)"

definition sweep_outgoing :: "ptr \<Rightarrow> Resplit \<Rightarrow> Resplit" where
  "sweep_outgoing p rp =
    (let pkt = sq_mem (rp_queue rp) p
     in if ip_data pkt \<noteq> [] \<and> splitPacketCount pkt > 0 \<and> isStaleId (splitPacketId pkt) rp
        then rp\<lparr>rp_queue := tombstoneOutgoing p (rp_queue rp)\<rparr> else rp)"

definition drop_victim :: "ptr \<Rightarrow> ResendState \<Rightarrow> ResendState" where
  "drop_victim p st =
    (let i = buffer_index (reliableMessageNumber (rs_mem st p))
     in RemoveFromList p True
          (st\<lparr>resendBuffer := (if resendBuffer st ! i = Some p then (resendBuffer st)[i := None] else resendBuffer st),
              messagesInResendBuffer := messagesInResendBuffer st - 1,
              bytesInResendBuffer := bytesInResendBuffer st - of_nat (BITS_TO_BYTES (dataBitLength (rs_mem st p)))\<rparr>))"

definition outgoing_packets :: "SendQueue \<Rightarrow> ptr list" where
  "outgoing_packets sq = map hn_data (h_nodes (outgoingPacketBuffer sq))"

text \<open>The two passes over \<open>xs\<close>, the packets of the resend list.\<close>

definition resplit_passes :: "nat \<Rightarrow> ptr list \<Rightarrow> (ptr \<Rightarrow> InternalPacket) \<Rightarrow> SendQueue \<Rightarrow> Resplit" where
  "resplit_passes maxDatagramBits xs mem sq =
    (let ys = outgoing_packets sq;
         rp0 = \<lparr>staleSplitIds = [], rebuiltMessages = [], resendVictims = [], rp_queue = sq\<rparr>;
         rp1 = fold (find_in_outgoing maxDatagramBits) ys (fold (find_in_resend maxDatagramBits mem) xs rp0)
     in if length (staleSplitIds rp1) > 0 then fold sweep_outgoing ys (fold (sweep_resend mem) xs rp1) else rp1)"

text \<open>\<open>pss\<close> are the addresses the pool hands out, one list for each message cut.\<close>

primrec split_rebuilt :: "InternalPacket \<Rightarrow> nat \<Rightarrow> ptr list list \<Rightarrow> InternalPacket list \<Rightarrow> SendQueue \<Rightarrow> SendQueue" where
  "split_rebuilt pool mtu pss [] sq = sq"
| "split_rebuilt pool mtu pss (m # ms) sq = split_rebuilt pool mtu (tl pss) ms (SplitPacket pool mtu (hd pss) m sq)"

definition ReSplitOversizedMessages :: "InternalPacket \<Rightarrow> ptr list list \<Rightarrow> Transmitter \<Rightarrow> TransmitFault + Transmitter" where
  "ReSplitOversizedMessages pool pss tx =
    (case ring_packets (rs_ring (tx_resend tx)) of
       None \<Rightarrow> Inl EndlessLoop
     | Some xs \<Rightarrow>
         let rp = resplit_passes (max_bits_of tx) xs (rs_mem (tx_resend tx)) (tx_queue tx);
             tx1 = set_resend (fold drop_victim (resendVictims rp) (tx_resend tx)) tx
         in Inr (tx1\<lparr>tx_queue := split_rebuilt pool (GetMTU (tx_cc tx)) pss (rebuiltMessages rp) (rp_queue rp)\<rparr>))"

definition StepDownMtuAfterBlackHole ::
    "InternalPacket \<Rightarrow> ptr list list \<Rightarrow> int \<times> Transmitter \<Rightarrow> TransmitFault + int \<times> Transmitter" where
  "StepDownMtuAfterBlackHole pool pss s =
    (let (currentMtuBytes, tx) = s; nextMtu = NextLowerMtu currentMtuBytes
     in if nextMtu = 0 then Inr s
        else
          case ReSplitOversizedMessages pool pss (tx\<lparr>tx_cc := SetMTU (of_int (nextMtu - int UDP_HEADER_SIZE)) (tx_cc tx)\<rparr>) of
            Inl f \<Rightarrow> Inl f
          | Inr tx1 \<Rightarrow> Inr (nextMtu, tx1))"

text \<open>The test of \<^verbatim>\<open>UpdateInternal\<close> on the head of the resend list.\<close>

definition black_hole_check ::
    "InternalPacket \<Rightarrow> ptr list list \<Rightarrow> u64 \<Rightarrow> int \<times> Transmitter \<Rightarrow> TransmitFault + int \<times> Transmitter" where
  "black_hole_check pool pss time s =
    (let (currentMtuBytes, tx) = s
     in case ring_head (rs_ring (tx_resend tx)) of
          None \<Rightarrow> Inr s
        | Some p \<Rightarrow>
            let stuck = rs_mem (tx_resend tx) p;
                requiredDatagramBytes = int (BITS_TO_BYTES (w32 (headerLength stuck + dataBitLength stuck))) +
                  int GetDataHeaderByteLength + int UDP_HEADER_SIZE
            in if due time (nextActionTime stuck) \<and> ShouldStepDownMtu (unat (timesSent stuck)) requiredDatagramBytes currentMtuBytes
               then StepDownMtuAfterBlackHole pool pss s else Inr s)"

section \<open>Laws of the passes\<close>

lemma NextLowerMtu_cases:
  "NextLowerMtu c = (if 1400 < c then 1400 else if 1280 < c then 1280 else if 1024 < c then 1024 else if 576 < c then 576 else 0)"
  by (simp add: NextLowerMtu_def MTU_LADDER_def MAXIMUM_MTU_SIZE_def)

lemma ring_walk_suffix:
  assumes "ring_rep r (ys @ p # zs)" "length zs < fuel"
  shows "ring_walk fuel r (hd (ys @ p # zs)) p = Some (p # zs)"
  using assms
proof (induction zs arbitrary: ys p fuel)
  case Nil
  then have "ring_next r p = hd (ys @ [p])" using ring_rep_links(2) [of r "ys @ [p]"] by simp
  then show ?case using Nil.prems(2) by (cases fuel) simp_all
next
  case (Cons z zs)
  let ?xs = "ys @ p # z # zs"
  note l = ring_rep_links [OF Cons.prems(1)]
  have "chain (ring_next r) (ring_prev r) (p # z # zs)" using l(1) chain_append [of _ _ ys p "z # zs"] by simp
  then have nx: "ring_next r p = z" by simp
  have "z \<noteq> hd ?xs" using l(5) by (cases ys) auto
  moreover have "ring_walk f r (hd ?xs) z = Some (z # zs)" if "length zs < f" for f
    using Cons.IH [of "ys @ [p]" z f] Cons.prems(1) that by (simp add: hd_append)
  ultimately show ?case using Cons.prems(2) nx by (cases fuel) simp_all
qed

lemma ring_packets_rep:
  assumes "ring_rep r xs" "length xs \<le> RESEND_BUFFER_ARRAY_LENGTH"
  shows "ring_packets r = Some xs"
proof (cases xs)
  case Nil
  then show ?thesis using assms(1) by (simp add: ring_packets_def ring_rep_def)
next
  case (Cons p zs)
  then have "ring_head r = Some p" using assms(1) by (simp add: ring_rep_def)
  then show ?thesis using ring_walk_suffix [of r "[]" p zs] assms Cons by (simp add: ring_packets_def)
qed

definition is_split :: "InternalPacket \<Rightarrow> bool" where
  "is_split ip \<longleftrightarrow> splitPacketCount ip > 0"

definition rebuildable :: "InternalPacket \<Rightarrow> bool" where
  "rebuildable ip \<longleftrightarrow> (is_split ip \<longrightarrow> sharedDataBlock ip \<noteq> None \<and> allocationScheme ip = REF_COUNTED \<and> splitOriginalBitLength ip > 0)"

lemma rebuildable_Some: "rebuildable ip \<Longrightarrow> \<exists>m. rebuildMessage ip = Some m"
  by (auto simp: rebuildable_def is_split_def rebuildMessage_def Let_def split: option.split)

text \<open>\<open>owed\<close>: the packets whose message must not be lost.  \<open>passes_inv M C rp\<close>: what the lists hold after the packets \<open>C\<close> were seen.\<close>

definition owed :: "InternalPacket \<Rightarrow> bool" where
  "owed ip \<longleftrightarrow> is_split ip \<or> \<not> unreliable_class (reliability ip)"

definition same_message :: "InternalPacket \<Rightarrow> InternalPacket \<Rightarrow> bool" where
  "same_message a b \<longleftrightarrow> a = b \<or> is_split a \<and> is_split b \<and> splitPacketId a = splitPacketId b"

definition passes_inv :: "nat \<Rightarrow> InternalPacket set \<Rightarrow> Resplit \<Rightarrow> bool" where
  "passes_inv M C rp \<longleftrightarrow>
    set (staleSplitIds rp) = splitPacketId ` {ip \<in> C. oversized M ip \<and> is_split ip} \<and>
    (\<forall>m \<in> set (rebuiltMessages rp). \<exists>ip \<in> C. oversized M ip \<and> owed ip \<and> rebuildMessage ip = Some m) \<and>
    (\<forall>ip \<in> C. oversized M ip \<and> owed ip \<longrightarrow>
      (\<exists>m \<in> set (rebuiltMessages rp). \<exists>ip' \<in> C. rebuildMessage ip' = Some m \<and> same_message ip ip'))"

lemma passes_inv_insert:
  assumes inv: "passes_inv M C rp" and st: "set (staleSplitIds rp') = set (staleSplitIds rp) \<union> splitPacketId ` {x \<in> {ip}. oversized M x \<and> is_split x}"
    and sub: "set (rebuiltMessages rp) \<subseteq> set (rebuiltMessages rp')"
    and new: "\<forall>m \<in> set (rebuiltMessages rp') - set (rebuiltMessages rp). oversized M ip \<and> owed ip \<and> rebuildMessage ip = Some m"
    and here: "oversized M ip \<and> owed ip \<longrightarrow>
      (\<exists>m \<in> set (rebuiltMessages rp'). \<exists>ip' \<in> insert ip C. rebuildMessage ip' = Some m \<and> same_message ip ip')"
  shows "passes_inv M (insert ip C) rp'"
proof -
  have "{x \<in> insert ip C. oversized M x \<and> is_split x} = {x \<in> C. oversized M x \<and> is_split x} \<union> {x \<in> {ip}. oversized M x \<and> is_split x}" by auto
  then have s: "set (staleSplitIds rp') = splitPacketId ` {x \<in> insert ip C. oversized M x \<and> is_split x}"
    using inv by (simp only: st passes_inv_def image_Un)
  have old: "\<forall>m \<in> set (rebuiltMessages rp). \<exists>x \<in> C. oversized M x \<and> owed x \<and> rebuildMessage x = Some m"
    using inv unfolding passes_inv_def by (elim conjE)
  have r: "\<exists>x \<in> insert ip C. oversized M x \<and> owed x \<and> rebuildMessage x = Some m" if "m \<in> set (rebuiltMessages rp')" for m
    using that new old by (cases "m \<in> set (rebuiltMessages rp)") auto
  have c: "\<exists>m \<in> set (rebuiltMessages rp'). \<exists>ip' \<in> insert ip C. rebuildMessage ip' = Some m \<and> same_message x ip'"
    if x: "x \<in> insert ip C" "oversized M x" "owed x" for x
  proof (cases "x = ip")
    case True
    then show ?thesis using here x by simp
  next
    case False
    then obtain m ip' where "m \<in> set (rebuiltMessages rp)" "ip' \<in> C" "rebuildMessage ip' = Some m" "same_message x ip'"
      using x inv by (auto simp: passes_inv_def)
    then show ?thesis using sub by blast
  qed
  show ?thesis unfolding passes_inv_def using s r c by (intro conjI ballI impI) simp_all
qed

lemma passes_inv_skip:
  "passes_inv M C rp \<Longrightarrow> \<not> oversized M ip \<or> \<not> owed ip \<Longrightarrow> passes_inv M (insert ip C) rp"
  by (rule passes_inv_insert) (auto simp: owed_def)

lemma passes_inv_push:
  assumes "passes_inv M C rp" "oversized M ip" "owed ip" "\<not> is_split ip" "rebuildMessage ip = Some m"
  shows "passes_inv M (insert ip C) (rp\<lparr>rebuiltMessages := rebuiltMessages rp @ [m]\<rparr>)"
  by (rule passes_inv_insert [OF assms(1)]) (use assms(2-5) in \<open>auto simp: same_message_def\<close>)

lemma passes_inv_note:
  assumes inv: "passes_inv M C rp" and ip: "oversized M ip" "is_split ip" "rebuildable ip"
  shows "passes_inv M (insert ip C) (noteStaleSplit ip rp)"
proof (cases "splitPacketId ip \<in> set (staleSplitIds rp)")
  case True
  then have e: "noteStaleSplit ip rp = rp" by (auto simp: noteStaleSplit_def isStaleId_def list_ex_iff)
  obtain ip0 where ip0: "ip0 \<in> C" "oversized M ip0" "is_split ip0" "splitPacketId ip0 = splitPacketId ip"
    using inv True by (auto simp: passes_inv_def)
  then obtain m ip' where "m \<in> set (rebuiltMessages rp)" "ip' \<in> C" "rebuildMessage ip' = Some m" "same_message ip0 ip'"
    using inv by (auto simp: passes_inv_def owed_def)
  then have "\<exists>m \<in> set (rebuiltMessages rp). \<exists>ip' \<in> insert ip C. rebuildMessage ip' = Some m \<and> same_message ip ip'"
    using ip0 ip by (intro bexI [of _ m] bexI [of _ ip']) (auto simp: same_message_def)
  then show ?thesis unfolding e by (intro passes_inv_insert [OF inv]) (use True in auto)
next
  case False
  obtain m where m: "rebuildMessage ip = Some m" using rebuildable_Some [OF ip(3)] by blast
  have "noteStaleSplit ip rp = rp\<lparr>staleSplitIds := staleSplitIds rp @ [splitPacketId ip], rebuiltMessages := rebuiltMessages rp @ [m]\<rparr>"
    using False m by (auto simp: noteStaleSplit_def isStaleId_def list_ex_iff)
  then show ?thesis
    by (intro passes_inv_insert [OF inv]) (use ip m in \<open>auto simp: same_message_def owed_def\<close>)
qed

lemma passes_inv_cong:
  "staleSplitIds rp' = staleSplitIds rp \<Longrightarrow> rebuiltMessages rp' = rebuiltMessages rp \<Longrightarrow> passes_inv M C rp' = passes_inv M C rp"
  by (simp add: passes_inv_def)

lemma noteStaleSplit_frame [simp]:
  "resendVictims (noteStaleSplit ip rp) = resendVictims rp" "rp_queue (noteStaleSplit ip rp) = rp_queue rp"
  by (simp_all add: noteStaleSplit_def split: option.split)

lemma find_in_resend_fold:
  assumes "passes_inv M C rp" "\<forall>p \<in> set xs. rebuildable (mem p) \<and> \<not> unreliable_class (reliability (mem p))"
  shows "passes_inv M (C \<union> mem ` set xs) (fold (find_in_resend M mem) xs rp) \<and>
    rp_queue (fold (find_in_resend M mem) xs rp) = rp_queue rp \<and>
    resendVictims (fold (find_in_resend M mem) xs rp) = resendVictims rp @ filter (\<lambda>p. oversized M (mem p) \<and> \<not> is_split (mem p)) xs"
  using assms
proof (induction xs arbitrary: C rp)
  case (Cons p xs)
  let ?rp = "find_in_resend M mem p rp"
  have ok: "rebuildable (mem p)" "owed (mem p)" using Cons.prems(2) by (auto simp: owed_def)
  obtain m where m: "rebuildMessage (mem p) = Some m" using rebuildable_Some [OF ok(1)] by blast
  have "passes_inv M (insert (mem p) C) ?rp \<and> rp_queue ?rp = rp_queue rp \<and>
      resendVictims ?rp = resendVictims rp @ (if oversized M (mem p) \<and> \<not> is_split (mem p) then [p] else [])"
  proof (cases "oversized M (mem p) \<and> \<not> is_split (mem p)")
    case True
    have "passes_inv M (insert (mem p) C) (rp\<lparr>rebuiltMessages := rebuiltMessages rp @ [m]\<rparr>)"
      by (rule passes_inv_push) (use Cons.prems(1) True ok m in auto)
    then show ?thesis
      using True m passes_inv_cong [of "rp\<lparr>rebuiltMessages := rebuiltMessages rp @ [m], resendVictims := resendVictims rp @ [p]\<rparr>"
          "rp\<lparr>rebuiltMessages := rebuiltMessages rp @ [m]\<rparr>"]
      by (simp add: find_in_resend_def is_split_def)
  next
    case False
    then show ?thesis
      using passes_inv_note [OF Cons.prems(1) _ _ ok(1)] passes_inv_skip [OF Cons.prems(1)]
      by (auto simp: find_in_resend_def is_split_def)
  qed
  then show ?case using Cons.IH [of "insert (mem p) C" ?rp] Cons.prems(2) by auto
qed simp

text \<open>What a tombstone changes of the queue, and the passes over it.\<close>

definition tomb :: "InternalPacket \<Rightarrow> InternalPacket" where
  "tomb ip = ip\<lparr>ip_data := [], allocationScheme := NORMAL, sharedDataBlock := None\<rparr>"

lemma tomb_fields [simp]: "ip_data (tomb ip) = []" "is_split (tomb ip) = is_split ip" "splitPacketId (tomb ip) = splitPacketId ip"
  by (simp_all add: tomb_def is_split_def)

definition queue_frame :: "SendQueue \<Rightarrow> SendQueue \<Rightarrow> bool" where
  "queue_frame sq sq' \<longleftrightarrow> outgoingPacketBuffer sq' = outgoingPacketBuffer sq \<and>
    outgoingPacketBufferNextWeights sq' = outgoingPacketBufferNextWeights sq \<and> nextSplitPacketId sq' = nextSplitPacketId sq \<and>
    (\<forall>p. priority (sq_mem sq' p) = priority (sq_mem sq p))"

lemma queue_frame_refl [simp]: "queue_frame sq sq"
  by (simp add: queue_frame_def)

lemma queue_frame_trans: "queue_frame a b \<Longrightarrow> queue_frame b c \<Longrightarrow> queue_frame a c"
  by (simp add: queue_frame_def)

lemma tombstone_frame: "queue_frame sq (tombstoneOutgoing p sq)" "sq_mem (tombstoneOutgoing p sq) = (sq_mem sq)(p := tomb (sq_mem sq p))"
  by (simp_all add: queue_frame_def tombstoneOutgoing_def tomb_def Let_def)

lemma queue_frame_inv: "queue_frame sq sq' \<Longrightarrow> sq_inv B sq \<Longrightarrow> sq_inv B sq' \<and> queued sq' = queued sq"
  by (simp add: queue_frame_def sq_inv_def entries_ok_def level_def queued_def)

text \<open>A pass that goes through distinct packets, changing the memory of each by itself.\<close>

lemma pass_memory:
  assumes step: "\<And>p seen rp. sq_mem (rp_queue rp) p = mem p \<Longrightarrow> K seen rp \<Longrightarrow>
      sq_mem (rp_queue (f p rp)) = (sq_mem (rp_queue rp))(p := g (mem p)) \<and> queue_frame (rp_queue rp) (rp_queue (f p rp)) \<and>
      K (insert p seen) (f p rp)"
    and "distinct ys" "\<forall>p \<in> set ys. sq_mem (rp_queue rp) p = mem p" "K seen rp"
  shows "sq_mem (rp_queue (fold f ys rp)) = (\<lambda>p. if p \<in> set ys then g (mem p) else sq_mem (rp_queue rp) p) \<and>
    queue_frame (rp_queue rp) (rp_queue (fold f ys rp)) \<and> K (seen \<union> set ys) (fold f ys rp)"
  using assms(2-4)
proof (induction ys arbitrary: rp seen)
  case (Cons p ys)
  have s: "sq_mem (rp_queue (f p rp)) = (sq_mem (rp_queue rp))(p := g (mem p))" "queue_frame (rp_queue rp) (rp_queue (f p rp))"
      "K (insert p seen) (f p rp)"
    using step [of rp p seen] Cons.prems by simp_all
  have "\<forall>q \<in> set ys. sq_mem (rp_queue (f p rp)) q = mem q" using s(1) Cons.prems(1,2) by auto
  from Cons.IH [OF _ this s(3)] show ?case using s Cons.prems(1) queue_frame_trans [OF s(2)] by auto
qed simp

definition live :: "InternalPacket \<Rightarrow> bool" where
  "live ip \<longleftrightarrow> ip_data ip \<noteq> []"

lemma live_tomb [simp]: "\<not> live (tomb ip)"
  by (simp add: live_def)

lemma find_in_outgoing_fold:
  fixes rp :: Resplit and M ys
  assumes "passes_inv M C rp" "distinct ys" "\<forall>p \<in> set ys. live (sq_mem (rp_queue rp) p) \<longrightarrow> rebuildable (sq_mem (rp_queue rp) p)"
  defines "mem \<equiv> sq_mem (rp_queue rp)" and "rp' \<equiv> fold (find_in_outgoing M) ys rp"
  shows "sq_mem (rp_queue rp') =
      (\<lambda>p. if p \<in> set ys \<and> live (mem p) \<and> oversized M (mem p) \<and> \<not> is_split (mem p) then tomb (mem p) else mem p)"
    and "queue_frame (rp_queue rp) (rp_queue rp')" and "resendVictims rp' = resendVictims rp"
    and "passes_inv M (C \<union> {ip \<in> mem ` set ys. live ip}) rp'"
proof -
  let ?g = "\<lambda>ip. if live ip \<and> oversized M ip \<and> \<not> is_split ip then tomb ip else ip"
  let ?mem = "\<lambda>p. if p \<in> set ys then mem p else demo_packet\<lparr>ip_data := []\<rparr>"
  let ?K = "\<lambda>seen rp1. resendVictims rp1 = resendVictims rp \<and> passes_inv M (C \<union> {ip \<in> ?mem ` seen. live ip}) rp1"
  have step: "sq_mem (rp_queue (find_in_outgoing M p rp1)) = (sq_mem (rp_queue rp1))(p := ?g (?mem p)) \<and>
      queue_frame (rp_queue rp1) (rp_queue (find_in_outgoing M p rp1)) \<and> ?K (insert p seen) (find_in_outgoing M p rp1)"
    if p: "sq_mem (rp_queue rp1) p = ?mem p" and K: "?K seen rp1" for p seen rp1
  proof (cases "live (?mem p) \<and> oversized M (?mem p)")
    case False
    then have "find_in_outgoing M p rp1 = rp1" using p by (auto simp: find_in_outgoing_def live_def Let_def)
    moreover have "{ip \<in> ?mem ` insert p seen. live ip} =
        (if live (?mem p) then insert (?mem p) {ip \<in> ?mem ` seen. live ip} else {ip \<in> ?mem ` seen. live ip})" by auto
    ultimately show ?thesis using False K p passes_inv_skip [of M "C \<union> {ip \<in> ?mem ` seen. live ip}" rp1 "?mem p"] by (auto simp: fun_upd_idem)
  next
    case True
    let ?ip = "?mem p" and ?C = "C \<union> {ip \<in> ?mem ` seen. live ip}"
    have ins: "C \<union> {ip \<in> ?mem ` insert p seen. live ip} = insert ?ip ?C" using True by auto
    have rb: "rebuildable ?ip" using True assms(3) by (auto simp: mem_def live_def split: if_splits)
    obtain m where m: "rebuildMessage ?ip = Some m" using rebuildable_Some [OF rb] by blast
    have t: "ip_data ?ip \<noteq> []" "oversized M ?ip" "live ?ip" using True by (simp_all add: live_def)
    have inv: "passes_inv M ?C rp1" using K by simp
    consider "is_split ?ip" | "\<not> is_split ?ip" "owed ?ip" | "\<not> is_split ?ip" "\<not> owed ?ip" by blast
    then show ?thesis
    proof cases
      case 1
      then have "find_in_outgoing M p rp1 = noteStaleSplit ?ip rp1" using p t by (simp add: find_in_outgoing_def is_split_def)
      then show ?thesis using passes_inv_note [OF inv t(2) 1 rb] 1 K p ins by (simp add: fun_upd_idem)
    next
      case 2
      then have "find_in_outgoing M p rp1 = rp1\<lparr>rebuiltMessages := rebuiltMessages rp1 @ [m], rp_queue := tombstoneOutgoing p (rp_queue rp1)\<rparr>"
        using p t m by (simp add: find_in_outgoing_def is_split_def owed_def)
      then show ?thesis
        using passes_inv_push [OF inv t(2) 2(2,1) m] 2 K p ins t tombstone_frame [where sq = "rp_queue rp1" and p = p]
          passes_inv_cong [of "rp1\<lparr>rebuiltMessages := rebuiltMessages rp1 @ [m], rp_queue := tombstoneOutgoing p (rp_queue rp1)\<rparr>"
            "rp1\<lparr>rebuiltMessages := rebuiltMessages rp1 @ [m]\<rparr>"] by simp
    next
      case 3
      then have "find_in_outgoing M p rp1 = rp1\<lparr>rp_queue := tombstoneOutgoing p (rp_queue rp1)\<rparr>"
        using p t by (simp add: find_in_outgoing_def is_split_def owed_def)
      then show ?thesis
        using passes_inv_skip [OF inv, of ?ip] 3 K p ins t tombstone_frame [where sq = "rp_queue rp1" and p = p]
          passes_inv_cong [of "rp1\<lparr>rp_queue := tombstoneOutgoing p (rp_queue rp1)\<rparr>" rp1] by simp
    qed
  qed
  have start: "?K {} rp" "\<forall>p \<in> set ys. sq_mem (rp_queue rp) p = ?mem p" using assms(1) by (simp_all add: mem_def)
  have r: "sq_mem (rp_queue rp') = (\<lambda>p. if p \<in> set ys then ?g (?mem p) else sq_mem (rp_queue rp) p) \<and>
      queue_frame (rp_queue rp) (rp_queue rp') \<and> ?K ({} \<union> set ys) rp'"
    unfolding rp'_def by (rule pass_memory [of ?mem ?K "find_in_outgoing M" ?g, OF _ assms(2) start(2,1)]) (rule step)
  show "queue_frame (rp_queue rp) (rp_queue rp')" "resendVictims rp' = resendVictims rp" using r by simp_all
  show "sq_mem (rp_queue rp') =
      (\<lambda>p. if p \<in> set ys \<and> live (mem p) \<and> oversized M (mem p) \<and> \<not> is_split (mem p) then tomb (mem p) else mem p)"
    using r by (auto simp: mem_def)
  have "?mem ` set ys = mem ` set ys" by auto
  then show "passes_inv M (C \<union> {ip \<in> mem ` set ys. live ip}) rp'" using r by simp
qed

lemma sweep_resend_fold:
  "fold (sweep_resend mem) xs rp =
    rp\<lparr>resendVictims := resendVictims rp @ filter (\<lambda>p. is_split (mem p) \<and> splitPacketId (mem p) \<in> set (staleSplitIds rp)) xs\<rparr>"
  by (induction xs arbitrary: rp) (auto simp: sweep_resend_def is_split_def isStaleId_def list_ex_iff)

lemma sweep_outgoing_fold:
  fixes rp :: Resplit and ys
  assumes "distinct ys"
  defines "mem \<equiv> sq_mem (rp_queue rp)" and "rp' \<equiv> fold sweep_outgoing ys rp"
  shows "sq_mem (rp_queue rp') =
      (\<lambda>p. if p \<in> set ys \<and> live (mem p) \<and> is_split (mem p) \<and> splitPacketId (mem p) \<in> set (staleSplitIds rp) then tomb (mem p) else mem p)"
    and "queue_frame (rp_queue rp) (rp_queue rp')"
    and "staleSplitIds rp' = staleSplitIds rp" "rebuiltMessages rp' = rebuiltMessages rp" "resendVictims rp' = resendVictims rp"
proof -
  let ?S = "set (staleSplitIds rp)"
  let ?g = "\<lambda>ip. if live ip \<and> is_split ip \<and> splitPacketId ip \<in> ?S then tomb ip else ip"
  let ?K = "\<lambda>seen rp1. staleSplitIds rp1 = staleSplitIds rp \<and> rebuiltMessages rp1 = rebuiltMessages rp \<and> resendVictims rp1 = resendVictims rp"
  have step: "sq_mem (rp_queue (sweep_outgoing p rp1)) = (sq_mem (rp_queue rp1))(p := ?g (mem p)) \<and>
      queue_frame (rp_queue rp1) (rp_queue (sweep_outgoing p rp1)) \<and> ?K (insert p seen) (sweep_outgoing p rp1)"
    if p: "sq_mem (rp_queue rp1) p = mem p" and K: "?K seen rp1" for p and seen :: "nat set" and rp1
  proof (cases "live (mem p) \<and> is_split (mem p) \<and> splitPacketId (mem p) \<in> ?S")
    case True
    then have e: "sweep_outgoing p rp1 = rp1\<lparr>rp_queue := tombstoneOutgoing p (rp_queue rp1)\<rparr>"
      using p K by (simp add: sweep_outgoing_def live_def is_split_def isStaleId_def list_ex_iff)
    show ?thesis using True K tombstone_frame [where sq = "rp_queue rp1" and p = p] by (simp add: e p)
  next
    case False
    have "isStaleId k rp1 \<longleftrightarrow> k \<in> ?S" for k using K by (simp add: isStaleId_def list_ex_iff)
    then have e: "sweep_outgoing p rp1 = rp1"
      using False unfolding sweep_outgoing_def Let_def p live_def is_split_def by (simp only: if_False)
    have "?g (mem p) = sq_mem (rp_queue rp1) p" by (simp only: False if_False p)
    then show ?thesis using K unfolding e by (simp only: fun_upd_triv queue_frame_refl simp_thms)
  qed
  have start: "?K {} rp" "\<forall>p \<in> set ys. sq_mem (rp_queue rp) p = mem p" by (simp_all add: mem_def)
  have r: "sq_mem (rp_queue rp') = (\<lambda>p. if p \<in> set ys then ?g (mem p) else sq_mem (rp_queue rp) p) \<and>
      queue_frame (rp_queue rp) (rp_queue rp') \<and> ?K ({} \<union> set ys) rp'"
    unfolding rp'_def by (rule pass_memory [of mem ?K sweep_outgoing ?g, OF _ assms(1) start(2,1)]) (rule step)
  show "queue_frame (rp_queue rp) (rp_queue rp')" "staleSplitIds rp' = staleSplitIds rp" "rebuiltMessages rp' = rebuiltMessages rp"
    "resendVictims rp' = resendVictims rp" using r by simp_all
  show "sq_mem (rp_queue rp') =
      (\<lambda>p. if p \<in> set ys \<and> live (mem p) \<and> is_split (mem p) \<and> splitPacketId (mem p) \<in> ?S then tomb (mem p) else mem p)"
    unfolding conjunct1 [OF r] by (rule ext) (simp add: mem_def)
qed

text \<open>All of the passes: \<open>seen\<close> are the packets looked at, \<open>gone\<close> those that are taken out.\<close>

definition seen :: "ptr list \<Rightarrow> (ptr \<Rightarrow> InternalPacket) \<Rightarrow> SendQueue \<Rightarrow> InternalPacket set" where
  "seen xs mem sq = mem ` set xs \<union> {ip \<in> sq_mem sq ` set (outgoing_packets sq). live ip}"

definition gone :: "nat \<Rightarrow> InternalPacket set \<Rightarrow> InternalPacket \<Rightarrow> bool" where
  "gone M C ip \<longleftrightarrow> oversized M ip \<and> \<not> is_split ip \<or>
    is_split ip \<and> (\<exists>ip' \<in> C. oversized M ip' \<and> is_split ip' \<and> splitPacketId ip' = splitPacketId ip)"

lemma resplit_passes_effect:
  fixes M xs mem sq
  assumes d: "distinct xs" "distinct (outgoing_packets sq)"
    and xs: "\<forall>p \<in> set xs. rebuildable (mem p) \<and> \<not> unreliable_class (reliability (mem p))"
    and ys: "\<forall>p \<in> set (outgoing_packets sq). live (sq_mem sq p) \<longrightarrow> rebuildable (sq_mem sq p)"
  defines "C \<equiv> seen xs mem sq" and "rp \<equiv> resplit_passes M xs mem sq"
  shows "passes_inv M C rp" "set (resendVictims rp) = {p \<in> set xs. gone M C (mem p)}" "distinct (resendVictims rp)"
    "queue_frame sq (rp_queue rp)"
    "sq_mem (rp_queue rp) = (\<lambda>p. if p \<in> set (outgoing_packets sq) \<and> live (sq_mem sq p) \<and> gone M C (sq_mem sq p)
       then tomb (sq_mem sq p) else sq_mem sq p)"
proof -
  let ?ys = "outgoing_packets sq" and ?m = "sq_mem sq"
  let ?rp0 = "\<lparr>staleSplitIds = [], rebuiltMessages = [], resendVictims = [], rp_queue = sq\<rparr>"
  define rp1 where "rp1 = fold (find_in_resend M mem) xs ?rp0"
  define rp2 where "rp2 = fold (find_in_outgoing M) ?ys rp1"
  define rp3 where "rp3 = fold (sweep_resend mem) xs rp2"
  have "passes_inv M {} ?rp0" by (simp add: passes_inv_def)
  from find_in_resend_fold [OF this xs]
  have r1: "passes_inv M (mem ` set xs) rp1" "rp_queue rp1 = sq"
      "resendVictims rp1 = filter (\<lambda>p. oversized M (mem p) \<and> \<not> is_split (mem p)) xs"
    by (simp_all add: rp1_def)
  note r2 = find_in_outgoing_fold [OF r1(1) d(2), folded rp2_def, unfolded r1(2), OF ys]
  have C: "mem ` set xs \<union> {ip \<in> ?m ` set ?ys. live ip} = C" by (simp add: C_def seen_def)
  have inv2: "passes_inv M C rp2" using r2(4) unfolding C .
  have S: "k \<in> set (staleSplitIds rp2) \<longleftrightarrow> (\<exists>ip' \<in> C. oversized M ip' \<and> is_split ip' \<and> splitPacketId ip' = k)" for k
    using inv2 by (auto simp: passes_inv_def)
  have rp3: "rp3 = rp2\<lparr>resendVictims := resendVictims rp2 @
      filter (\<lambda>p. is_split (mem p) \<and> splitPacketId (mem p) \<in> set (staleSplitIds rp2)) xs\<rparr>"
    by (simp add: rp3_def sweep_resend_fold)
  note r4 = sweep_outgoing_fold [OF d(2), of rp3]
  have "fold sweep_outgoing ?ys rp2 = rp2" if "staleSplitIds rp2 = []"
    by (rule fold_invariant [where P = "\<lambda>r. r = rp2" and Q = "\<lambda>_. True"]) (use that in \<open>auto simp: sweep_outgoing_def isStaleId_def Let_def\<close>)
  moreover have "rp3 = rp2" if "staleSplitIds rp2 = []" using that by (simp add: rp3)
  ultimately have rp: "rp = fold sweep_outgoing ?ys rp3"
    by (auto simp: rp_def resplit_passes_def rp1_def [symmetric] rp2_def [symmetric] rp3_def [symmetric] Let_def)
  show "passes_inv M C rp" using inv2 passes_inv_cong [of rp rp2] r4(3,4) by (simp add: rp rp3)
  have v: "resendVictims rp = filter (\<lambda>p. oversized M (mem p) \<and> \<not> is_split (mem p)) xs @
      filter (\<lambda>p. is_split (mem p) \<and> splitPacketId (mem p) \<in> set (staleSplitIds rp2)) xs"
    using r4(5) by (simp add: rp rp3 r2(3) r1(3))
  show "set (resendVictims rp) = {p \<in> set xs. gone M C (mem p)}" unfolding v by (auto simp: gone_def S)
  show "distinct (resendVictims rp)" unfolding v using d(1) by auto
  show "queue_frame sq (rp_queue rp)" using queue_frame_trans [OF r2(2)] r4(2) by (simp add: rp rp3)
  show "sq_mem (rp_queue rp) = (\<lambda>p. if p \<in> set ?ys \<and> live (?m p) \<and> gone M C (?m p) then tomb (?m p) else ?m p)"
  proof (rule ext)
    fix p
    let ?a = "sq_mem (rp_queue rp2) p" and ?R = "if p \<in> set ?ys \<and> live (?m p) \<and> gone M C (?m p) then tomb (?m p) else ?m p"
    have a: "?a = (if p \<in> set ?ys \<and> live (?m p) \<and> oversized M (?m p) \<and> \<not> is_split (?m p) then tomb (?m p) else ?m p)"
      unfolding r2(1) ..
    have b: "sq_mem (rp_queue rp) p =
        (if p \<in> set ?ys \<and> live ?a \<and> is_split ?a \<and> splitPacketId ?a \<in> set (staleSplitIds rp2) then tomb ?a else ?a)"
      unfolding rp r4(1) by (simp add: rp3)
    show "sq_mem (rp_queue rp) p = ?R"
    proof (cases "p \<in> set ?ys \<and> live (?m p) \<and> oversized M (?m p) \<and> \<not> is_split (?m p)")
      case True
      then show ?thesis unfolding b a by (simp add: gone_def)
    next
      case False
      then have "?a = ?m p" unfolding a by (simp only: if_False)
      then show ?thesis unfolding b S using False by (simp add: gone_def) blast
    qed
  qed
qed

section \<open>Laws of the queues\<close>

lemma drop_victim_inv:
  assumes inv: "resend_inv st xs" and p: "p \<in> set xs"
  shows "resend_inv (drop_victim p st) (remove1 p xs)" "rs_mem (drop_victim p st) = rs_mem st"
proof -
  let ?n = "reliableMessageNumber (rs_mem st p)"
  have sl: "resendBuffer st ! buffer_index ?n = Some p" using resend_inv_slot [OF inv p] by (simp add: slot_def)
  have rel: "is_reliable (reliability (rs_mem st p))" using inv p by (simp add: resend_inv_def)
  have e: "drop_victim p st = snd (RemovePacketFromResendList demo_packet ?n st)"
    using sl rel by (simp add: drop_victim_def RemovePacketFromResendList_def Let_def)
  have d: "distinct xs" using inv by (simp add: resend_inv_def ring_rep_def)
  have uniq: "q = p" if q: "q \<in> set xs" "reliableMessageNumber (rs_mem st q) = ?n" for q
    using resend_inv_slot [OF inv q(1)] sl unfolding slot_def q(2) by simp
  have iff: "reliableMessageNumber (rs_mem st q) \<noteq> ?n \<longleftrightarrow> p \<noteq> q" if "q \<in> set xs" for q
    using uniq [OF that] by blast
  have "filter (\<lambda>q. reliableMessageNumber (rs_mem st q) \<noteq> ?n) xs = remove1 p xs"
    unfolding distinct_remove1_removeAll [OF d] removeAll_filter_not_eq by (rule filter_cong [OF refl iff])
  then show "resend_inv (drop_victim p st) (remove1 p xs)" "rs_mem (drop_victim p st) = rs_mem st"
    using RemovePacketFromResendList_inv(1,2) [OF inv, of demo_packet ?n] by (simp_all add: e)
qed

lemma drop_victims_inv:
  assumes "resend_inv st xs" "distinct vs" "set vs \<subseteq> set xs"
  shows "resend_inv (fold drop_victim vs st) (filter (\<lambda>p. p \<notin> set vs) xs) \<and> rs_mem (fold drop_victim vs st) = rs_mem st"
  using assms
proof (induction vs arbitrary: st xs)
  case (Cons v vs)
  note v = drop_victim_inv [OF Cons.prems(1), of v]
  have d: "distinct xs" using Cons.prems(1) by (simp add: resend_inv_def ring_rep_def)
  have "set vs \<subseteq> set (remove1 v xs)" using Cons.prems(2,3) d by auto
  from Cons.IH [OF v(1) _ this] v(2) Cons.prems(2,3)
  have "resend_inv (fold drop_victim vs (drop_victim v st)) (filter (\<lambda>p. p \<notin> set vs) (remove1 v xs)) \<and>
      rs_mem (fold drop_victim vs (drop_victim v st)) = rs_mem st" by simp
  moreover have "filter (\<lambda>p. p \<notin> set vs) (remove1 v xs) = filter (\<lambda>p. p \<notin> set (v # vs)) xs"
    unfolding distinct_remove1_removeAll [OF d] removeAll_filter_not_eq by (auto intro: filter_cong)
  ultimately show ?case by simp
qed simp

lemma enqueue_mem: "sq_mem (enqueue push p ip sq) = (sq_mem sq)(p := ip)"
  by (simp add: enqueue_def count_message_def GetNextWeight_def InitHeapWeights_def Let_def)

lemma enqueue_series_mem:
  assumes "distinct ps" "length ps = length fs"
  shows "map (sq_mem (enqueue_series ps fs sq)) ps = fs" "p \<notin> set ps \<Longrightarrow> sq_mem (enqueue_series ps fs sq) p = sq_mem sq p"
proof -
  have "map (sq_mem (enqueue_series ps fs sq)) ps = fs \<and> (\<forall>p. p \<notin> set ps \<longrightarrow> sq_mem (enqueue_series ps fs sq) p = sq_mem sq p)"
    using assms
  proof (induction fs arbitrary: ps sq)
    case (Cons f fs)
    then obtain q qs where ps: "ps = q # qs" by (cases ps) auto
    show ?case using Cons.IH [of qs "enqueue (Heap_PushSeries False) q f sq"] Cons.prems ps by (auto simp: enqueue_mem)
  qed simp
  then show "map (sq_mem (enqueue_series ps fs sq)) ps = fs" "p \<notin> set ps \<Longrightarrow> sq_mem (enqueue_series ps fs sq) p = sq_mem sq p"
    by blast+
qed

text \<open>The pool hands out fresh addresses, as many as fragments are made.\<close>

definition supplied :: "InternalPacket \<Rightarrow> nat \<Rightarrow> ptr list list \<Rightarrow> InternalPacket list \<Rightarrow> SendQueue \<Rightarrow> bool" where
  "supplied pool mtu pss ms sq \<longleftrightarrow>
    list_all2 (\<lambda>ps m. length ps = split_count (maximumSendBlockBytes pool mtu) (BITS_TO_BYTES (dataBitLength m))) pss ms \<and>
    distinct (concat pss) \<and> set (concat pss) \<inter> set_mset (queued sq) = {}"

definition cut_at :: "InternalPacket \<Rightarrow> nat \<Rightarrow> SendQueue \<Rightarrow> ptr list \<Rightarrow> InternalPacket \<Rightarrow> bool" where
  "cut_at pool mtu sq ps m \<longleftrightarrow> (\<exists>k order. map (sq_mem sq) ps = split_fragments pool mtu k order m)"

lemma split_rebuilt_effect:
  assumes "sq_inv B sq" "supplied pool mtu pss ms sq" "B + 64 * Suc (length (concat pss)) < 4611686018427387904"
  shows "sq_inv (B + 64 * length (concat pss)) (split_rebuilt pool mtu pss ms sq) \<and>
    queued (split_rebuilt pool mtu pss ms sq) = queued sq + mset (concat pss) \<and>
    (\<forall>p. p \<notin> set (concat pss) \<longrightarrow> sq_mem (split_rebuilt pool mtu pss ms sq) p = sq_mem sq p) \<and>
    list_all2 (cut_at pool mtu (split_rebuilt pool mtu pss ms sq)) pss ms"
  using assms
proof (induction ms arbitrary: B sq pss)
  case (Cons m ms)
  then obtain ps qss where pss: "pss = ps # qss" by (auto simp: supplied_def list_all2_Cons2)
  let ?q = "SplitPacket pool mtu ps m sq" and ?r = "split_rebuilt pool mtu qss ms (SplitPacket pool mtu ps m sq)"
  have ps: "length ps = split_count (maximumSendBlockBytes pool mtu) (BITS_TO_BYTES (dataBitLength m))" "distinct ps"
      "set ps \<inter> set_mset (queued sq) = {}" "set ps \<inter> set (concat qss) = {}"
    using Cons.prems(2) pss by (auto simp: supplied_def)
  obtain ws where q: "sq_inv (B + 64 * length ps) ?q" "series_effect (priority_code (priority m)) ps ws sq ?q"
    using SplitPacket_effect [OF Cons.prems(1) _ ps(1,2,3)] Cons.prems(3) pss by auto
  have qd: "queued ?q = queued sq + mset ps" by (rule series_effect_queued [OF q(2)])
  let ?fs = "split_fragments pool mtu (nextSplitPacketId sq) (internalOrderIndex sq) m"
  have l: "length ps = length ?fs" by (simp add: split_fragments_shape ps(1))
  have m: "map (sq_mem ?q) ps = ?fs" "\<And>p. p \<notin> set ps \<Longrightarrow> sq_mem ?q p = sq_mem sq p"
    using enqueue_series_mem [OF ps(2) l] by (simp_all add: SplitPacket_def Let_def)
  have "supplied pool mtu qss ms ?q" using Cons.prems(2) pss qd by (auto simp: supplied_def)
  from Cons.IH [OF q(1) this] have r: "sq_inv (B + 64 * length ps + 64 * length (concat qss)) ?r"
      "queued ?r = queued ?q + mset (concat qss)" "\<And>p. p \<notin> set (concat qss) \<Longrightarrow> sq_mem ?r p = sq_mem ?q p"
      "list_all2 (cut_at pool mtu ?r) qss ms"
    using Cons.prems(3) pss by auto
  have "map (sq_mem ?r) ps = ?fs" using m(1) r(3) ps(4) by (metis (no_types, lifting) disjoint_iff map_cong)
  then have "cut_at pool mtu ?r ps m" unfolding cut_at_def by blast
  moreover have "sq_mem ?r p = sq_mem sq p" if "p \<notin> set (concat pss)" for p using that pss m(2) r(3) by simp
  ultimately show ?case using r qd pss by (simp add: algebra_simps)
qed (simp add: supplied_def)

section \<open>The step down\<close>

text \<open>A packet holds all of its message: itself, or through the block its fragments share.\<close>

definition complete :: "InternalPacket \<Rightarrow> bool" where
  "complete ip \<longleftrightarrow>
    (if is_split ip
     then allocationScheme ip = REF_COUNTED \<and> 0 < splitOriginalBitLength ip \<and> splitOriginalBitLength ip < 4294967289 \<and>
       (\<exists>d. sharedDataBlock ip = Some d \<and> length d = BITS_TO_BYTES (splitOriginalBitLength ip))
     else 0 < dataBitLength ip \<and> dataBitLength ip < 4294967289 \<and> length (ip_data ip) = BITS_TO_BYTES (dataBitLength ip))"

definition message_of :: "InternalPacket \<Rightarrow> InternalPacket" where
  "message_of ip = the (rebuildMessage ip)"

lemma complete_rebuild:
  assumes "complete ip" "0 < maximumSendBlockBytes pool mtu"
  shows "rebuildable ip" "rebuildMessage ip = Some (message_of ip)" "splittable mtu pool (message_of ip)"
proof -
  show "rebuildable ip" using assms(1) by (auto simp: complete_def rebuildable_def)
  show "rebuildMessage ip = Some (message_of ip)" using rebuildable_Some [OF \<open>rebuildable ip\<close>] by (auto simp: message_of_def)
  show "splittable mtu pool (message_of ip)"
    using assms by (auto simp: complete_def message_of_def rebuildMessage_def splittable_def is_split_def Let_def split: if_splits)
qed


text \<open>The state in which the layer waits: \<open>xs\<close> are the packets of the resend list.\<close>

definition waiting :: "nat \<Rightarrow> ptr list \<Rightarrow> Transmitter \<Rightarrow> bool" where
  "waiting B xs tx \<longleftrightarrow> resend_inv (tx_resend tx) xs \<and> sq_inv B (tx_queue tx) \<and> distinct (outgoing_packets (tx_queue tx)) \<and>
    (\<forall>p \<in> set xs. complete (rs_mem (tx_resend tx) p)) \<and>
    (\<forall>p \<in> set (outgoing_packets (tx_queue tx)). live (sq_mem (tx_queue tx) p) \<longrightarrow> complete (sq_mem (tx_queue tx) p)) \<and>
    0 < maximumSendBlockBytes demo_packet (GetMTU (tx_cc tx)) \<and> GetMTU (tx_cc tx) \<le> MAXIMUM_MTU_SIZE"

definition rebuilt_by :: "ptr list \<Rightarrow> Transmitter \<Rightarrow> InternalPacket list" where
  "rebuilt_by xs tx = rebuiltMessages (resplit_passes (max_bits_of tx) xs (rs_mem (tx_resend tx)) (tx_queue tx))"

lemma block_pool: "maximumSendBlockBytes pool mtu = maximumSendBlockBytes demo_packet mtu"
  by (simp add: maximumSendBlockBytes_def GetMaxMessageHeaderLengthBits_def GetMessageHeaderLengthBits_def)

lemma queued_packets: "p \<in># queued sq \<longleftrightarrow> p \<in> set (outgoing_packets sq)"
  by (force simp: queued_def outgoing_packets_def heap_elems_def heap_mset_def)


lemma reliable_not_unreliable: "is_reliable r \<Longrightarrow> \<not> unreliable_class r"
  by (cases r) (simp_all add: is_reliable_def unreliable_class_def)

text \<open>All that the cutting changes, from \<open>tx\<close> to \<open>tx'\<close>.\<close>

definition resplit_effect :: "nat \<Rightarrow> InternalPacket \<Rightarrow> ptr list list \<Rightarrow> ptr list \<Rightarrow> Transmitter \<Rightarrow> Transmitter \<Rightarrow> bool" where
  "resplit_effect B pool pss xs tx tx' \<longleftrightarrow>
    (let M = max_bits_of tx; C = seen xs (rs_mem (tx_resend tx)) (tx_queue tx); m = sq_mem (tx_queue tx)
     in tx_cc tx' = tx_cc tx \<and>
        resend_inv (tx_resend tx') (filter (\<lambda>p. \<not> gone M C (rs_mem (tx_resend tx) p)) xs) \<and> rs_mem (tx_resend tx') = rs_mem (tx_resend tx) \<and>
        sq_inv (B + 64 * length (concat pss)) (tx_queue tx') \<and> queued (tx_queue tx') = queued (tx_queue tx) + mset (concat pss) \<and>
        (\<forall>p \<in># queued (tx_queue tx). sq_mem (tx_queue tx') p = (if live (m p) \<and> gone M C (m p) then tomb (m p) else m p)) \<and>
        list_all2 (cut_at pool (GetMTU (tx_cc tx)) (tx_queue tx')) pss (rebuilt_by xs tx) \<and>
        passes_inv M C (resplit_passes M xs (rs_mem (tx_resend tx)) (tx_queue tx)))"

lemma ReSplit_effect:
  assumes w: "waiting B xs tx" and sup: "supplied pool (GetMTU (tx_cc tx)) pss (rebuilt_by xs tx) (tx_queue tx)"
    and B: "B + 64 * Suc (length (concat pss)) < 4611686018427387904"
  shows "\<exists>tx'. ReSplitOversizedMessages pool pss tx = Inr tx' \<and> resplit_effect B pool pss xs tx tx'"
proof -
  let ?st = "tx_resend tx" and ?q = "tx_queue tx" and ?mtu = "GetMTU (tx_cc tx)"
  let ?M = "max_bits_of tx" and ?C = "seen xs (rs_mem (tx_resend tx)) (tx_queue tx)" and ?m = "sq_mem (tx_queue tx)"
  let ?rp = "resplit_passes ?M xs (rs_mem ?st) ?q"
  have inv: "resend_inv ?st xs" "sq_inv B ?q" "distinct (outgoing_packets ?q)" using w by (simp_all add: waiting_def)
  have blk: "0 < maximumSendBlockBytes pool ?mtu" using w block_pool [of pool] by (simp add: waiting_def)
  have d: "distinct xs" using inv(1) by (simp add: resend_inv_def ring_rep_def)
  have xs: "\<forall>p \<in> set xs. rebuildable (rs_mem ?st p) \<and> \<not> unreliable_class (reliability (rs_mem ?st p))"
    using w complete_rebuild(1) [OF _ blk] inv(1) reliable_not_unreliable by (simp add: waiting_def resend_inv_def)
  have ys: "\<forall>p \<in> set (outgoing_packets ?q). live (sq_mem ?q p) \<longrightarrow> rebuildable (sq_mem ?q p)"
    using w complete_rebuild(1) [OF _ blk] by (simp add: waiting_def)
  note e = resplit_passes_effect [OF d inv(3) xs ys, of ?M]
  note v = drop_victims_inv [OF inv(1) e(3), unfolded e(2)]
  have vf: "filter (\<lambda>p. p \<notin> {p \<in> set xs. gone ?M ?C (rs_mem ?st p)}) xs = filter (\<lambda>p. \<not> gone ?M ?C (rs_mem ?st p)) xs"
    by (rule filter_cong) auto
  note q = queue_frame_inv [OF e(4) inv(2)]
  have sup': "supplied pool ?mtu pss (rebuiltMessages ?rp) (rp_queue ?rp)"
    using sup q by (simp add: supplied_def rebuilt_by_def)
  note s = split_rebuilt_effect [OF conjunct1 [OF q] sup' B]
  let ?st' = "fold drop_victim (resendVictims ?rp) ?st"
  let ?q' = "split_rebuilt pool ?mtu pss (rebuiltMessages ?rp) (rp_queue ?rp)"
  let ?tx' = "(set_resend ?st' tx)\<lparr>tx_queue := ?q'\<rparr>"
  have "ring_packets (rs_ring ?st) = Some xs"
    by (rule ring_packets_rep) (use inv(1) resend_inv_bound [OF inv(1)] in \<open>simp_all add: resend_inv_def\<close>)
  then have r: "ReSplitOversizedMessages pool pss tx = Inr ?tx'"
    by (simp add: ReSplitOversizedMessages_def Let_def)
  have mem: "sq_mem ?q' p = (if live (?m p) \<and> gone ?M ?C (?m p) then tomb (?m p) else ?m p)" if p: "p \<in># queued ?q" for p
  proof -
    have "p \<notin> set (concat pss)" using p sup by (auto simp: supplied_def)
    then have "sq_mem ?q' p = sq_mem (rp_queue ?rp) p" using s by blast
    also have "\<dots> = (if live (?m p) \<and> gone ?M ?C (?m p) then tomb (?m p) else ?m p)" using p unfolding e(5) queued_packets by simp
    finally show ?thesis .
  qed
  have "resplit_effect B pool pss xs tx ?tx'"
    unfolding resplit_effect_def Let_def
  proof (intro conjI)
    show "resend_inv (tx_resend ?tx') (filter (\<lambda>p. \<not> gone ?M ?C (rs_mem ?st p)) xs)" "rs_mem (tx_resend ?tx') = rs_mem ?st"
      using v vf by (auto simp: set_resend_def)
    show "list_all2 (cut_at pool ?mtu (tx_queue ?tx')) pss (rebuilt_by xs tx)" using s by (simp add: rebuilt_by_def)
    show "queued (tx_queue ?tx') = queued ?q + mset (concat pss)" using s q by simp
  qed (use s mem e(1) in \<open>simp_all add: set_resend_def\<close>)
  then show ?thesis using r by blast
qed

lemma resplit_effectD:
  assumes "resplit_effect B pool pss xs tx tx'"
  shows "tx_cc tx' = tx_cc tx"
    and "resend_inv (tx_resend tx') (filter (\<lambda>p. \<not> gone (max_bits_of tx) (seen xs (rs_mem (tx_resend tx)) (tx_queue tx)) (rs_mem (tx_resend tx) p)) xs)"
    and "rs_mem (tx_resend tx') = rs_mem (tx_resend tx)" and "sq_inv (B + 64 * length (concat pss)) (tx_queue tx')"
    and "queued (tx_queue tx') = queued (tx_queue tx) + mset (concat pss)"
    and "p \<in> set (outgoing_packets (tx_queue tx)) \<Longrightarrow> sq_mem (tx_queue tx') p =
      (if live (sq_mem (tx_queue tx) p) \<and> gone (max_bits_of tx) (seen xs (rs_mem (tx_resend tx)) (tx_queue tx)) (sq_mem (tx_queue tx) p)
       then tomb (sq_mem (tx_queue tx) p) else sq_mem (tx_queue tx) p)"
    and "list_all2 (cut_at pool (GetMTU (tx_cc tx)) (tx_queue tx')) pss (rebuilt_by xs tx)"
    and "passes_inv (max_bits_of tx) (seen xs (rs_mem (tx_resend tx)) (tx_queue tx))
      (resplit_passes (max_bits_of tx) xs (rs_mem (tx_resend tx)) (tx_queue tx))"
  using assms unfolding resplit_effect_def Let_def by (auto simp: queued_packets)

text \<open>
  The message a packet belongs to: its bytes and its length (of the whole message, which the fragments share) and its standing, that is how it is to be
  delivered.  Packets in flight with the same split id come from one message.
\<close>

definition full_bytes :: "InternalPacket \<Rightarrow> u8 list" where
  "full_bytes ip = (if is_split ip then (case sharedDataBlock ip of None \<Rightarrow> [] | Some d \<Rightarrow> d) else ip_data ip)"

definition full_bits :: "InternalPacket \<Rightarrow> nat" where
  "full_bits ip = (if is_split ip then splitOriginalBitLength ip else dataBitLength ip)"

definition standing :: "InternalPacket \<Rightarrow> Reliability \<times> Priority \<times> u24 \<times> u24 \<times> u8 \<times> u32" where
  "standing ip = (reliability ip, priority ip, orderingIndex ip, sequencingIndex ip, orderingChannel ip, sendReceiptSerial ip)"

definition siblings :: "InternalPacket set \<Rightarrow> bool" where
  "siblings C \<longleftrightarrow> (\<forall>a \<in> C. \<forall>b \<in> C. same_message a b \<longrightarrow>
    full_bytes a = full_bytes b \<and> full_bits a = full_bits b \<and> standing a = standing b)"

text \<open>
  The message of \<open>ip\<close> is in the outgoing queue as a complete set of fragments: their bytes in order are its bytes, they are numbered from 0 under one id, each
  knows their number and the exact length of the message, and each has its standing.
\<close>

definition requeued :: "SendQueue \<Rightarrow> InternalPacket \<Rightarrow> bool" where
  "requeued sq ip \<longleftrightarrow>
    (\<exists>ps k. ps \<noteq> [] \<and> distinct ps \<and> set ps \<subseteq> set_mset (queued sq) \<and> concat (map (\<lambda>p. payload (sq_mem sq p)) ps) = full_bytes ip \<and>
      (\<forall>i < length ps. let f = sq_mem sq (ps ! i)
         in splitPacketId f = k \<and> splitPacketIndex f = of_nat i \<and> splitPacketCount f = of_nat (length ps) \<and>
            splitOriginalBitLength f = full_bits ip \<and> standing f = standing ip))"

lemma rebuilt_full:
  assumes "complete ip" "rebuildMessage ip = Some m"
  shows "ip_data m = full_bytes ip" "dataBitLength m = full_bits ip" "standing m = standing ip"
  using assms by (auto simp: complete_def rebuildMessage_def full_bytes_def full_bits_def standing_def is_split_def Let_def split: if_splits)

lemma cut_requeued:
  assumes sp: "splittable mtu pool m" and cut: "cut_at pool mtu sq ps m" and ps: "distinct ps" "set ps \<subseteq> set_mset (queued sq)"
    and ip: "ip_data m = full_bytes ip" "dataBitLength m = full_bits ip" "standing m = standing ip"
  shows "requeued sq ip"
proof -
  obtain k order where f: "map (sq_mem sq) ps = split_fragments pool mtu k order m" using cut by (auto simp: cut_at_def)
  let ?fs = "split_fragments pool mtu k order m" and ?b = "maximumSendBlockBytes pool mtu" and ?L = "(dataBitLength m + 7) div 8"
  have n: "length ps = (?L - 1) div ?b + 1" using f split_fragments_nth(1) [OF sp, of k order] by (metis length_map)
  have at: "sq_mem sq (ps ! i) = ?fs ! i" if "i < length ps" for i using f that by (metis nth_map)
  let ?m = "m\<lparr>splitPacketCount := of_nat ((?L - 1) div ?b + 1)\<rparr>"
  have "payload (sq_mem sq (ps ! i)) = payload (split_fragment ?b k ?m i)" if "i < length ps" for i
    using split_fragments_nth(2) [OF sp, of i k order] that n at by auto
  then have "map (\<lambda>p. payload (sq_mem sq p)) ps = map (\<lambda>i. payload (split_fragment ?b k ?m i)) [0..<(?L - 1) div ?b + 1]"
    unfolding n [symmetric] by (intro nth_equalityI) simp_all
  moreover have "concat (map (\<lambda>i. payload (split_fragment ?b k ?m i)) [0..<(?L - 1) div ?b + 1]) = ip_data m"
    using concat_block_payloads [of ?b ?m k] sp splittable_bytes(1) [OF sp] by (simp add: splittable_def)
  ultimately have bytes: "concat (map (\<lambda>p. payload (sq_mem sq p)) ps) = full_bytes ip" using ip(1) by simp
  have "let f = sq_mem sq (ps ! i) in splitPacketId f = k \<and> splitPacketIndex f = of_nat i \<and> splitPacketCount f = of_nat (length ps) \<and>
      splitOriginalBitLength f = full_bits ip \<and> standing f = standing ip" if i: "i < length ps" for i
  proof -
    obtain h ord where "?fs ! i = (split_fragment ?b k (m\<lparr>splitPacketCount := of_nat ((?L - 1) div ?b + 1)\<rparr>) i)\<lparr>messageInternalOrder := ord, headerLength := h\<rparr>"
      using split_fragments_nth(2) [OF sp, of i k order] i n by auto
    then show ?thesis using at [OF i] n ip(2,3) by (simp add: split_fragment_def Let_def standing_def)
  qed
  then show ?thesis unfolding requeued_def using bytes ps n by (intro exI [of _ ps] exI [of _ k]) auto
qed

lemma list_all2_partner:
  "list_all2 R xs ys \<Longrightarrow> y \<in> set ys \<Longrightarrow> \<exists>x \<in> set xs. R x y"
  "list_all2 R xs ys \<Longrightarrow> x \<in> set xs \<Longrightarrow> \<exists>y \<in> set ys. R x y"
  by (induction rule: list_all2_induct) auto

lemma gone_requeued:
  assumes w: "waiting B xs tx" and C: "C = seen xs (rs_mem (tx_resend tx)) (tx_queue tx)" and M: "M = max_bits_of tx"
    and cut: "list_all2 (cut_at pool (GetMTU (tx_cc tx)) q) pss (rebuilt_by xs tx)" and q: "set (concat pss) \<subseteq> set_mset (queued q)"
    and d: "distinct (concat pss)"
    and inv: "passes_inv M C (resplit_passes M xs (rs_mem (tx_resend tx)) (tx_queue tx))" and sib: "siblings C"
    and ip: "ip \<in> C" "gone M C ip" "owed ip"
  shows "requeued q ip"
proof -
  let ?mtu = "GetMTU (tx_cc tx)"
  obtain ip0 where ip0: "ip0 \<in> C" "oversized M ip0" "owed ip0" "same_message ip ip0"
    using ip by (auto simp: gone_def same_message_def owed_def)
  then obtain m ip1 where m: "m \<in> set (rebuilt_by xs tx)" "ip1 \<in> C" "rebuildMessage ip1 = Some m" "same_message ip0 ip1"
    using inv unfolding passes_inv_def rebuilt_by_def M by blast
  have "same_message ip ip1" using ip0(4) m(4) by (auto simp: same_message_def)
  then have same: "full_bytes ip = full_bytes ip1" "full_bits ip = full_bits ip1" "standing ip = standing ip1"
    using sib ip(1) m(2) unfolding siblings_def by blast+
  have c: "complete ip1" using w m(2) by (auto simp: C seen_def waiting_def)
  have "0 < maximumSendBlockBytes pool ?mtu" using w block_pool [of pool] by (simp add: waiting_def)
  then have sp: "splittable ?mtu pool m" using complete_rebuild(2,3) [OF c] m(3) by fastforce
  obtain ps where ps: "ps \<in> set pss" "cut_at pool ?mtu q ps m" using list_all2_partner(1) [OF cut m(1)] by blast
  have "distinct ps" "set ps \<subseteq> set_mset (queued q)" using ps(1) d q by (auto simp: distinct_concat_iff)
  from cut_requeued [OF sp ps(2) this, of ip] show ?thesis using rebuilt_full [OF c m(3)] same by simp
qed

text \<open>A message of 600 bytes waits when datagrams shrink to 548 bytes.\<close>

definition big_message :: InternalPacket where
  "big_message = demo_packet\<lparr>dataBitLength := 4800, ip_data := replicate 600 7\<rparr>"

definition big_waiting :: Transmitter where
  "big_waiting = (Transmitter_new (\<lambda>_. demo_packet) (\<lambda>_. demo_packet) empty_ring 548)\<lparr>
     tx_queue := enqueue (Heap_Push False) 7 big_message (SendQueue_new (\<lambda>_. demo_packet))\<rparr>"

lemma big_queue:
  "sq_inv 91 (tx_queue big_waiting)" "outgoing_packets (tx_queue big_waiting) = [7]" "sq_mem (tx_queue big_waiting) 7 = big_message"
proof -
  let ?q = "SendQueue_new (\<lambda>_. demo_packet)"
  have ok: "heap_ok False (outgoingPacketBuffer ?q)" using SendQueue_new_inv(1) by (simp add: sq_inv_def)
  have fresh: "7 \<notin># queued ?q" by (simp add: SendQueue_new_inv(2))
  show "sq_inv 91 (tx_queue big_waiting)"
    using enqueue_inv [OF SendQueue_new_inv(1) _ fresh push_pushes [OF ok], where ip = big_message] by (simp add: big_waiting_def)
  show "outgoing_packets (tx_queue big_waiting) = [7]"
    using enqueue_eq(1) [OF SendQueue_new_inv(1) fresh, where ip = big_message and push = "Heap_Push False"]
    by (simp add: big_waiting_def outgoing_packets_def Heap_Push_def HeapNode_of_def SendQueue_new_def InitHeapWeights_def Heap_new_def)
  show "sq_mem (tx_queue big_waiting) 7 = big_message" by (simp add: big_waiting_def enqueue_mem)
qed

lemma big_facts:
  "max_bits_of big_waiting = 4312" "GetMTU (tx_cc big_waiting) = 548" "maximumSendBlockBytes demo_packet 548 = 516" "rebuilt_by [] big_waiting = [message_of big_message]"
  "dataBitLength (message_of big_message) = 4800"
proof -
  show m: "max_bits_of big_waiting = 4312" "GetMTU (tx_cc big_waiting) = 548" "maximumSendBlockBytes demo_packet 548 = 516"
    by (simp_all add: max_bits_of_def big_waiting_def Transmitter_new_def GetMTU_def CC_Init_def GetMaxDatagramSizeExcludingMessageHeaderBits_def
        GetMaxDatagramSizeExcludingMessageHeaderBytes_def GetDataHeaderByteLength_def BYTES_TO_BITS_def maximumSendBlockBytes_def
        GetMaxMessageHeaderLengthBits_def GetMessageHeaderLengthBits_def BITS_TO_BYTES_def is_reliable_def is_sequenced_def is_ordered_def)
  have "oversized 4312 big_message"
    by (simp add: oversized_def big_message_def demo_packet_def GetMessageHeaderLengthBits_def is_reliable_def is_sequenced_def is_ordered_def)
  then show "rebuilt_by [] big_waiting = [message_of big_message]"
    unfolding rebuilt_by_def m(1) resplit_passes_def big_queue(2)
    by (simp add: find_in_outgoing_def big_queue(3) big_message_def demo_packet_def unreliable_class_def rebuildMessage_def message_of_def Let_def)
  show "dataBitLength (message_of big_message) = 4800" by (simp add: message_of_def rebuildMessage_def big_message_def demo_packet_def)
qed

lemma big_hyps:
  "waiting 91 [] big_waiting" "supplied demo_packet (GetMTU (tx_cc big_waiting)) [[8, 9]] (rebuilt_by [] big_waiting) (tx_queue big_waiting)"
  "siblings (seen [] (rs_mem (tx_resend big_waiting)) (tx_queue big_waiting))"
proof -
  have c: "complete big_message" by (simp add: complete_def is_split_def big_message_def demo_packet_def BITS_TO_BYTES_def)
  have "resend_inv (tx_resend big_waiting) []" using resend_inv_new by (simp add: big_waiting_def Transmitter_new_def SendWindow_new_def)
  then show "waiting 91 [] big_waiting"
    using big_queue c big_facts(2,3) by (simp add: waiting_def MAXIMUM_MTU_SIZE_def)
  show "supplied demo_packet (GetMTU (tx_cc big_waiting)) [[8, 9]] (rebuilt_by [] big_waiting) (tx_queue big_waiting)"
    using queued_packets [of _ "tx_queue big_waiting"]
    by (simp add: supplied_def big_facts big_queue(2) split_count_def BITS_TO_BYTES_def w32_def)
  show "siblings (seen [] (rs_mem (tx_resend big_waiting)) (tx_queue big_waiting))"
    by (simp add: siblings_def seen_def big_queue(2))
qed



text \<open>
  Property C5: no message is lost when the datagram size steps down.  If every packet that waits still has the bytes of its message, the pool has the packets
  needed for the new fragments, and packets in flight with one split id come from one message, then a reliable message or fragment that waits stays where
  it was, or its message is in the outgoing queue as a complete set of new fragments: their bytes in order are the bytes of the message, and each
  carries its reliability, priority, ordering index, sequencing index, channel and receipt.
\<close>

theorem step_down_keeps_messages:
  assumes "waiting B xs tx" "supplied pool (GetMTU (tx_cc tx)) pss (rebuilt_by xs tx) (tx_queue tx)"
    and "B + 64 * Suc (length (concat pss)) < 4611686018427387904" "siblings (seen xs (rs_mem (tx_resend tx)) (tx_queue tx))"
  shows "\<exists>tx' xs'. ReSplitOversizedMessages pool pss tx = Inr tx' \<and> resend_inv (tx_resend tx') xs' \<and>
    rs_mem (tx_resend tx') = rs_mem (tx_resend tx) \<and>
    (\<forall>p \<in> set xs. p \<in> set xs' \<or> requeued (tx_queue tx') (rs_mem (tx_resend tx) p)) \<and>
    (\<forall>p \<in># queued (tx_queue tx). live (sq_mem (tx_queue tx) p) \<and> owed (sq_mem (tx_queue tx) p) \<longrightarrow>
      p \<in># queued (tx_queue tx') \<and> sq_mem (tx_queue tx') p = sq_mem (tx_queue tx) p \<or>
      requeued (tx_queue tx') (sq_mem (tx_queue tx) p))"
proof -
  let ?M = "max_bits_of tx" and ?C = "seen xs (rs_mem (tx_resend tx)) (tx_queue tx)" and ?mtu = "GetMTU (tx_cc tx)"
  obtain tx' where r: "ReSplitOversizedMessages pool pss tx = Inr tx'" and eff: "resplit_effect B pool pss xs tx tx'"
    using ReSplit_effect [OF assms(1-3)] by blast
  note t = r resplit_effectD [OF eff]
  have "set (concat pss) \<subseteq> set_mset (queued (tx_queue tx'))" using t(6) by auto
  note req = gone_requeued [OF assms(1) refl refl t(8) this _ t(9) assms(4)]
  have d: "distinct (concat pss)" using assms(2) by (simp add: supplied_def)
  have rel: "owed (rs_mem (tx_resend tx) p)" if "p \<in> set xs" for p
    using assms(1) that reliable_not_unreliable by (auto simp: waiting_def resend_inv_def owed_def)
  have one: "requeued (tx_queue tx') (rs_mem (tx_resend tx) p)" if "p \<in> set xs" "gone ?M ?C (rs_mem (tx_resend tx) p)" for p
    by (rule req) (use d that rel in \<open>auto simp: seen_def\<close>)
  have two: "requeued (tx_queue tx') (sq_mem (tx_queue tx) p)"
    if "p \<in># queued (tx_queue tx)" "live (sq_mem (tx_queue tx) p)" "owed (sq_mem (tx_queue tx) p)" "gone ?M ?C (sq_mem (tx_queue tx) p)" for p
    by (rule req) (use d that in \<open>auto simp: seen_def queued_packets\<close>)
  have stay: "p \<in># queued (tx_queue tx') \<and> sq_mem (tx_queue tx') p = sq_mem (tx_queue tx) p"
    if "p \<in># queued (tx_queue tx)" "\<not> gone ?M ?C (sq_mem (tx_queue tx) p)" for p
    using that t(7) [of p] by (simp add: t(6) queued_packets)
  show ?thesis
    using t(1,3,4) one two stay
    by (intro exI [of _ tx'] exI [of _ "filter (\<lambda>p. \<not> gone ?M ?C (rs_mem (tx_resend tx) p)) xs"] conjI ballI impI) auto
qed

theorem step_down_keeps_messages_witness:
  "\<exists>tx'. ReSplitOversizedMessages demo_packet [[8, 9]] big_waiting = Inr tx' \<and>
    (sq_mem (tx_queue tx') 7 = big_message \<or> requeued (tx_queue tx') big_message)"
proof -
  have "7 \<in># queued (tx_queue big_waiting)" by (simp add: queued_packets big_queue(2))
  moreover have "live big_message" "owed big_message"
    by (simp_all add: live_def owed_def big_message_def demo_packet_def unreliable_class_def)
  moreover obtain tx' where "ReSplitOversizedMessages demo_packet [[8, 9]] big_waiting = Inr tx'"
    "\<forall>p \<in># queued (tx_queue big_waiting). live (sq_mem (tx_queue big_waiting) p) \<and> owed (sq_mem (tx_queue big_waiting) p) \<longrightarrow>
      p \<in># queued (tx_queue tx') \<and> sq_mem (tx_queue tx') p = sq_mem (tx_queue big_waiting) p \<or>
      requeued (tx_queue tx') (sq_mem (tx_queue big_waiting) p)"
    using step_down_keeps_messages [OF big_hyps(1,2) _ big_hyps(3)] by auto
  ultimately show ?thesis by (auto simp: big_facts(2) big_queue(3))
qed

end
