(* ===== verification/Receive_Path.thy ===== *)
theory Receive_Path
  imports Ack_Sending Receive_Window Ordered_Channels Split_Reassembly
begin

text \<open>
  The data branch of \<^verbatim>\<open>HandleSocketReceiveFromConnectedPlayer\<close> as a whole: the congestion control is told the number of the
  datagram, skipped numbers are noted for a NAK, the datagram is noted for an acknowledgement, and every
  message in it passes the receive window, the reassembly of fragments and its ordering channel into \<^verbatim>\<open>outputQueue\<close>.
\<close>

section \<open>State and operations\<close>

record Receiver =
  rc_window :: ReceiveWindow
  rc_splits :: "SplitPacketChannel list"
  rc_channels :: "Channel list"
  outputQueue :: "InternalPacket list"
  rc_acks :: AckState
  rc_stream :: BitStream
  rc_sent :: "u8 list list"

text \<open>What the code does not determine: uninitialised memory, recycled packets, the interval of progress messages, the MTU.\<close>

record ReceiveEnv =
  env_interval :: u32
  env_pool :: InternalPacket
  env_stale :: u64
  env_flags :: "nat \<Rightarrow> bool"
  env_bytes :: "nat \<Rightarrow> u8"
  env_header :: DatagramHeaderFormat
  env_char :: u8
  env_length :: u16
  env_mtu :: nat

datatype ReceiveFault = ReassemblyFault SplitFault | ChannelOutOfRange | LoopFault

definition channel_packet :: "InternalPacket \<Rightarrow> bool" where
  "channel_packet ip \<longleftrightarrow> sequenced_packet ip \<or> reliability ip = ReliableOrdered"

text \<open>An ordering channel outside the tables of 32 entries is the fault \<open>ChannelOutOfRange\<close>.\<close>

definition deliver_packet :: "InternalPacket \<Rightarrow> Receiver \<Rightarrow> ReceiveFault + Receiver" where
  "deliver_packet ip rc =
    (if channel_packet ip then
       let c = unat (orderingChannel ip)
       in if c \<ge> length (rc_channels rc) then Inl ChannelOutOfRange
          else
            let (out, ch) = deliver_ordered ip (rc_channels rc ! c)
            in Inr (rc\<lparr>outputQueue := outputQueue rc @ out, rc_channels := (rc_channels rc)[c := ch]\<rparr>)
     else Inr (rc\<lparr>outputQueue := outputQueue rc @ [ip]\<rparr>))"

text \<open>\<^verbatim>\<open>BuildPacketFromSplitPacketList\<close> reports the arrivals at once when a message is complete.\<close>

definition flush_acks :: "ReceiveEnv \<Rightarrow> Receiver \<Rightarrow> ReceiveFault + Receiver" where
  "flush_acks env rc =
    (case SendACKs (length (acknowlegements (rc_acks rc))) (env_bytes env) (env_header env) (env_mtu env) (rc_stream rc) (rc_acks rc) of
       None \<Rightarrow> Inl LoopFault
     | Some (sent, bs, st) \<Rightarrow> Inr (rc\<lparr>rc_acks := st, rc_stream := bs, rc_sent := rc_sent rc @ sent\<rparr>))"

definition reassemble :: "ReceiveEnv \<Rightarrow> u64 \<Rightarrow> InternalPacket \<Rightarrow> Receiver \<Rightarrow> ReceiveFault + InternalPacket option \<times> Receiver" where
  "reassemble env time ip rc =
    (let r = receive_fragment (env_interval env) (env_pool env) (env_stale env) (env_bytes env) time ip (rc_splits rc);
         rc1 = rc\<lparr>outputQueue := outputQueue rc @ fr_output r, rc_splits := fr_channels r\<rparr>
     in case (if fr_acked r then flush_acks env rc1 else Inr rc1) of
          Inl f \<Rightarrow> Inl f
        | Inr rc2 \<Rightarrow> (case fr_packet r of Inl f \<Rightarrow> Inl (ReassemblyFault f) | Inr q \<Rightarrow> Inr (q, rc2)))"

definition receive_message :: "ReceiveEnv \<Rightarrow> u64 \<Rightarrow> InternalPacket \<Rightarrow> Receiver \<Rightarrow> ReceiveFault + Receiver" where
  "receive_message env time ip rc =
    (let (accepted, w) = admit (env_flags env) ip (rc_window rc);
         rc1 = rc\<lparr>rc_window := w\<rparr>
     in if \<not> accepted then Inr rc1
        else if splitPacketCount ip > 0 then
          case reassemble env time ip rc1 of
            Inl f \<Rightarrow> Inl f
          | Inr (None, rc2) \<Rightarrow> Inr rc2
          | Inr (Some q, rc2) \<Rightarrow> deliver_packet q rc2
        else deliver_packet ip rc1)"

text \<open>The loop over the messages of a datagram; running out of fuel is \<open>LoopFault\<close>.\<close>

primrec receive_messages :: "nat \<Rightarrow> ReceiveEnv \<Rightarrow> u64 \<Rightarrow> BitStream \<Rightarrow> Receiver \<Rightarrow> ReceiveFault + Receiver" where
  "receive_messages 0 env time socketData rc = Inl LoopFault"
| "receive_messages (Suc fuel) env time socketData rc =
    (case CreateInternalPacketFromBitStream (env_char env) (env_length env) (env_pool env) time socketData of
       (None, _) \<Rightarrow> Inr rc
     | (Some ip, bs) \<Rightarrow>
         (case receive_message env time ip rc of
            Inl f \<Rightarrow> Inl f
          | Inr rc1 \<Rightarrow> receive_messages fuel env time bs rc1))"

text \<open>The header of a data datagram: skipped numbers and the acknowledgement.  None: the datagram is ignored.\<close>

definition note_datagram :: "DatagramHeaderFormat \<Rightarrow> u64 \<Rightarrow> AckState \<Rightarrow> AckState option \<times> AckState" where
  "note_datagram dhf time st =
    (let (skipped, cc) = OnGotPacket (datagramNumber dhf) time (ack_cc st);
         st1 = st\<lparr>ack_cc := cc\<rparr>
     in case skipped of
          None \<Rightarrow> (None, st1)
        | Some n \<Rightarrow>
            let st2 = st1\<lparr>NAKs := insert_naks (unat n) (datagramNumber dhf) (NAKs st1),
                          remoteSystemNeedsBAndAS := needsBAndAs dhf\<rparr>
            in (Some (SendAcknowledgementPacket (datagramNumber dhf) 0 st2), st1))"

definition receive_data :: "ReceiveEnv \<Rightarrow> u64 \<Rightarrow> DatagramHeaderFormat \<Rightarrow> BitStream \<Rightarrow> Receiver \<Rightarrow> ReceiveFault + Receiver" where
  "receive_data env time dhf socketData rc =
    (case note_datagram dhf time (rc_acks rc) of
       (None, st) \<Rightarrow> Inr (rc\<lparr>rc_acks := st\<rparr>)
     | (Some st, _) \<Rightarrow> receive_messages (numberOfBitsUsed socketData + 1) env time socketData (rc\<lparr>rc_acks := st\<rparr>))"

end
