(* ===== verification/Receive_Laws.thy ===== *)
theory Receive_Laws
  imports Receive_Path
begin

text \<open>
  The receiving side end to end: reliable ordered messages that arrive in any order and any number of times are
  handed to the application once each and in sending order on every channel; and no datagram, whatever its bytes, makes the
  receiver hang or use an ordering channel out of range.
\<close>

section \<open>Reliable ordered messages\<close>

text \<open>The arrivals of a connection, one message at a time, with the time of arrival.\<close>

primrec receive_list :: "ReceiveEnv \<Rightarrow> (u64 \<times> InternalPacket) list \<Rightarrow> Receiver \<Rightarrow> ReceiveFault + Receiver" where
  "receive_list env [] rc = Inr rc"
| "receive_list env (a # as) rc =
    (case receive_message env (fst a) (snd a) rc of Inl f \<Rightarrow> Inl f | Inr rc1 \<Rightarrow> receive_list env as rc1)"

lemma receive_list_append:
  "receive_list env (as @ bs) rc = (case receive_list env as rc of Inl f \<Rightarrow> Inl f | Inr rc1 \<Rightarrow> receive_list env bs rc1)"
  by (induction as arbitrary: rc) (simp_all split: sum.split)

definition Receiver_new :: "AckState \<Rightarrow> BitStream \<Rightarrow> Receiver" where
  "Receiver_new st bs = \<lparr>rc_window = new_window, rc_splits = [], rc_channels = replicate NUMBER_OF_ORDERED_STREAMS Channel_new,
     outputQueue = [], rc_acks = st, rc_stream = bs, rc_sent = []\<rparr>"

text \<open>Message number \<open>N\<close> of the connection belongs to channel \<open>ch N\<close> and has place \<open>pl N\<close> in its stream; the packets that carry it are \<open>pk N\<close>.\<close>

abbreviation place :: "InternalPacket \<Rightarrow> nat" where
  "place ip \<equiv> unat (orderingIndex ip)"

definition carries_ordered :: "nat \<Rightarrow> nat \<Rightarrow> nat \<Rightarrow> InternalPacket \<Rightarrow> bool" where
  "carries_ordered N c k ip \<longleftrightarrow> splitPacketCount ip = 0 \<and> reliability ip = ReliableOrdered \<and> unat (orderingChannel ip) = c \<and>
    reliableMessageNumber ip = of_nat N \<and> orderingIndex ip = of_nat k"

definition stream_of :: "nat \<Rightarrow> (nat \<Rightarrow> nat) \<Rightarrow> (nat \<Rightarrow> nat) \<Rightarrow> (nat \<Rightarrow> InternalPacket set) \<Rightarrow> bool" where
  "stream_of n ch pl pk \<longleftrightarrow> n \<le> 1000000 \<and>
    (\<forall>N < n. ch N < NUMBER_OF_ORDERED_STREAMS \<and> pl N < 1000000 \<and> (\<forall>ip \<in> pk N. carries_ordered N (ch N) (pl N) ip)) \<and>
    (\<forall>M < n. \<forall>N < n. M \<noteq> N \<and> ch M = ch N \<longrightarrow> pl M \<noteq> pl N)"

definition on_stream :: "nat \<Rightarrow> InternalPacket \<Rightarrow> bool" where
  "on_stream c ip \<longleftrightarrow> unat (orderingChannel ip) = c"

definition stream_numbers :: "(nat \<Rightarrow> nat) \<Rightarrow> (nat \<Rightarrow> nat) \<Rightarrow> nat set \<Rightarrow> nat \<Rightarrow> nat set" where
  "stream_numbers ch pl A c = pl ` {N \<in> A. ch N = c}"

definition packets :: "Channel \<Rightarrow> InternalPacket set" where
  "packets ch = snd ` set_mset (waiting ch)"

definition stream_inv :: "ReceiveEnv \<Rightarrow> (nat \<Rightarrow> nat) \<Rightarrow> (nat \<Rightarrow> nat) \<Rightarrow> (nat \<Rightarrow> InternalPacket set) \<Rightarrow> nat set \<Rightarrow> Receiver \<Rightarrow> bool" where
  "stream_inv env ch pl pk A rc \<longleftrightarrow>
    (\<exists>B. window_rep (apply_reset (env_flags env) (rc_window rc)) B A) \<and>
    \<not> resetReceivedPackets (apply_reset (env_flags env) (rc_window rc)) \<and>
    length (rc_channels rc) = NUMBER_OF_ORDERED_STREAMS \<and> set (outputQueue rc) \<subseteq> \<Union> (pk ` A) \<and>
    (\<forall>c < NUMBER_OF_ORDERED_STREAMS. packets (rc_channels rc ! c) \<subseteq> {ip \<in> \<Union> (pk ` A). on_stream c ip}) \<and>
    (\<forall>c < NUMBER_OF_ORDERED_STREAMS. \<exists>R F.
       Ordered_Channels.chan_inv place (Suc R) R F (filter (on_stream c) (outputQueue rc)) (stream_numbers ch pl A c) (rc_channels rc ! c))"

lemma window_rep_bound:
  assumes "window_rep w B S" "S \<subseteq> {..<n}"
  shows "B \<le> n"
  using assms by (auto simp: window_rep_def subset_iff) (metis le_cases lessThan_iff linorder_not_less order_less_irrefl)

lemma Receiver_new_inv: "stream_inv env ch pl pk {} (Receiver_new st bs)"
proof -
  have "resetReceivedPackets new_window" by (simp add: new_window_def)
  from apply_reset_rep(1) [OF this] show ?thesis
    using Channel_new_inv [of place] unfolding stream_inv_def by (auto simp: Receiver_new_def stream_numbers_def packets_def Channel_new_def waiting_def hq.new_law)
qed

lemma deliver_one:
  assumes inv: "Ordered_Channels.chan_inv g (Suc R) R F outs S ch" and ip: "numbered g ip" "\<not> sequenced_packet ip" "g ip \<notin> S"
    and n: "g ip < n" "S \<subseteq> {..<n}" "n \<le> 1000000"
  shows "\<exists>R' F'. Ordered_Channels.chan_inv g (Suc R') R' F' (outs @ fst (deliver_ordered ip ch)) (insert (g ip) S) (snd (deliver_ordered ip ch))"
proof -
  have "{..<R} \<subseteq> S" using inv by (simp add: Ordered_Channels.chan_inv_def)
  then have "R \<le> n" using n(2) by (meson lessThan_subset_iff order.trans)
  then have "placeable g R F ip" using ip n by (simp add: placeable_def)
  then show ?thesis using deliver_ordered_inv [OF inv, of ip] ip by (simp add: Ordered_Channels.arrived_def)
qed

text \<open>Delivery invents no packet.\<close>

lemma pop_ordered_packets:
  "heap_ok False (orderingHeap ch) \<Longrightarrow> set (fst (pop_ordered f ch)) \<union> packets (snd (pop_ordered f ch)) \<subseteq> packets ch"
proof (induction f arbitrary: ch)
  case (Suc f)
  show ?case
  proof (cases "Heap_Size (orderingHeap ch) > 0 \<and> orderingIndex (Heap_Peek 0 (orderingHeap ch)) = orderedReadIndex ch")
    case True
    obtain ip hp where p: "Heap_Pop False 0 (orderingHeap ch) = (ip, hp)" by fastforce
    define c where "c = (if reliability ip = ReliableOrdered then ch\<lparr>orderingHeap := hp, orderedReadIndex := orderedReadIndex ch + 1\<rparr>
        else ch\<lparr>orderingHeap := hp, highestSequencedReadIndex := sequencingIndex ip\<rparr>)"
    have hp: "orderingHeap c = hp" by (simp add: c_def)
    have e: "heap_elems (orderingHeap ch) \<noteq> {#}" using True by (auto simp: heap_size_elems)
    have w: "packets ch = insert ip (packets c)" "heap_ok False (orderingHeap c)"
      using hq.pop_law [OF Suc.prems e] p by (auto simp: packets_def waiting_def hp)
    have "pop_ordered (Suc f) ch = (ip # fst (pop_ordered f c), snd (pop_ordered f c))"
      using True p by (simp add: split_beta Let_def c_def)
    then have "fst (pop_ordered (Suc f) ch) = ip # fst (pop_ordered f c)" "snd (pop_ordered (Suc f) ch) = snd (pop_ordered f c)"
      by (simp_all only: fst_conv snd_conv)
    then show ?thesis using Suc.IH [OF w(2)] w(1) by (simp only: list.set) blast
  next
    case False
    then have "pop_ordered (Suc f) ch = ([], ch)" by (simp only: pop_ordered.simps if_False)
    then show ?thesis by simp
  qed
qed simp

lemma deliver_ordered_packets:
  assumes "heap_ok False (orderingHeap ch)"
  shows "set (fst (deliver_ordered ip ch)) \<union> packets (snd (deliver_ordered ip ch)) \<subseteq> insert ip (packets ch)"
proof -
  let ?c = "ch\<lparr>orderedReadIndex := orderedReadIndex ch + 1, highestSequencedReadIndex := 0\<rparr>"
  have "packets ?c = packets ch" by (simp add: packets_def waiting_def)
  then show ?thesis
    using pop_ordered_packets [of ?c "Heap_Size (orderingHeap ch)"] assms hq.push_law(2) [OF assms]
    by (auto simp: deliver_ordered_def Let_def split_beta packets_def waiting_def)
qed

lemma receive_step:
  assumes str: "stream_of n ch pl pk" and inv: "stream_inv env ch pl pk A rc" and A: "A \<subseteq> {..<n}" and N: "N < n" and mem: "ip \<in> pk N"
  shows "\<exists>rc'. receive_message env time ip rc = Inr rc' \<and> stream_inv env ch pl pk (insert N A) rc'"
proof -
  let ?w = "apply_reset (env_flags env) (rc_window rc)" and ?ip = ip
  let ?c = "unat (orderingChannel ?ip)"
  obtain B where B: "window_rep ?w B A" and nr: "\<not> resetReceivedPackets ?w" using inv by (auto simp: stream_inv_def)
  have cr: "carries_ordered N (ch N) (pl N) ip" "ch N < NUMBER_OF_ORDERED_STREAMS" "pl N < 1000000" and n: "n \<le> 1000000"
    using str N mem by (auto simp: stream_of_def)
  have k: "place ip = pl N" using cr n by (simp add: carries_ordered_def unat_of_nat_id)
  have ip: "splitPacketCount ?ip = 0" "reliability ?ip = ReliableOrdered" "?c < NUMBER_OF_ORDERED_STREAMS"
    "reliableMessageNumber ?ip = of_nat N" "orderingIndex ?ip = of_nat (place ?ip)" "place ?ip < 1000000" and c: "?c = ch N"
    using cr k by (auto simp: carries_ordered_def)
  have ch: "checked ?ip" using ip by (simp add: checked_def corrupt_channel_def)
  have "B \<le> n" by (rule window_rep_bound [OF B A])
  then have win: "B \<le> N + 8388608" "N \<le> B + 1000000" using N n by simp_all
  have same: "admit (env_flags env) ?ip (rc_window rc) = admit (env_flags env) ?ip ?w"
    unfolding admit_def apply_reset_rep(2) [OF nr] by simp
  note ad = admit_rep [OF B nr ch ip(4) win, of "env_flags env"]
  obtain B' where B': "window_rep (snd (admit (env_flags env) ?ip ?w)) B' (insert N A)" using ad(2) by blast
  show ?thesis
  proof (cases "N \<in> A")
    case True
    let ?rc = "rc\<lparr>rc_window := snd (admit (env_flags env) ?ip ?w)\<rparr>"
    have "receive_message env time ?ip rc = Inr ?rc" using ad(1) True by (simp add: receive_message_def same split_beta Let_def)
    moreover have "\<exists>B. window_rep (apply_reset (env_flags env) (rc_window ?rc)) B (insert N A)" "\<not> resetReceivedPackets (apply_reset (env_flags env) (rc_window ?rc))"
      using B' ad(3) by (auto simp: apply_reset_rep(2))
    then have "stream_inv env ch pl pk (insert N A) ?rc" using inv True unfolding stream_inv_def by (simp add: insert_absorb)
    ultimately show ?thesis by blast
  next
    case False
    let ?ch = "rc_channels rc ! ?c"
    obtain R F where ci: "Ordered_Channels.chan_inv place (Suc R) R F (filter (on_stream ?c) (outputQueue rc)) (stream_numbers ch pl A ?c) ?ch"
      using inv ip(3) by (auto simp: stream_inv_def)
    let ?out = "fst (deliver_ordered ?ip ?ch)" and ?ch' = "snd (deliver_ordered ?ip ?ch)" and ?w' = "snd (admit (env_flags env) ?ip ?w)"
    let ?rc = "rc\<lparr>rc_window := ?w', outputQueue := outputQueue rc @ ?out, rc_channels := (rc_channels rc)[?c := ?ch']\<rparr>"
    have len: "length (rc_channels rc) = NUMBER_OF_ORDERED_STREAMS" using inv by (simp add: stream_inv_def)
    have rm: "receive_message env time ?ip rc = Inr ?rc"
      using ad(1) False ip len by (simp add: receive_message_def same split_beta deliver_packet_def channel_packet_def Let_def)
    have np: "numbered place ?ip" "\<not> sequenced_packet ?ip" using ip by (simp_all add: numbered_def sequenced_packet_def)
    have pk: "set ?out \<union> packets ?ch' \<subseteq> {q \<in> \<Union> (pk ` insert N A). on_stream ?c q}"
    proof -
      have "heap_ok False (orderingHeap ?ch)" using ci by (simp add: Ordered_Channels.chan_inv_def)
      note d = deliver_ordered_packets [OF this, of ?ip]
      have "packets ?ch \<subseteq> {q \<in> \<Union> (pk ` A). on_stream ?c q}" using inv ip(3) by (simp add: stream_inv_def)
      moreover have "?ip \<in> {q \<in> \<Union> (pk ` insert N A). on_stream ?c q}" using mem by (auto simp: on_stream_def)
      ultimately show ?thesis using d by blast
    qed
    have new: "place ?ip \<notin> stream_numbers ch pl A ?c"
    proof
      assume "place ?ip \<in> stream_numbers ch pl A ?c"
      then obtain M where M: "M \<in> A" "ch M = ch N" "pl M = pl N" using k by (auto simp: stream_numbers_def c)
      then have "M < n" "M \<noteq> N" using A False by auto
      then show False using str N M(2,3) unfolding stream_of_def by blast
    qed
    have "pl M < 1000000" if "M \<in> A" for M using that str A unfolding stream_of_def by blast
    then have "stream_numbers ch pl A ?c \<subseteq> {..<1000000}" by (auto simp: stream_numbers_def)
    then obtain R' F' where ci': "Ordered_Channels.chan_inv place (Suc R') R' F' (filter (on_stream ?c) (outputQueue rc) @ ?out)
        (insert (place ?ip) (stream_numbers ch pl A ?c)) ?ch'"
      using deliver_one [OF ci np new ip(6)] by blast
    have nums: "stream_numbers ch pl (insert N A) c = (if c = ?c then insert (place ?ip) (stream_numbers ch pl A c) else stream_numbers ch pl A c)" for c
      by (auto simp: stream_numbers_def c k)
    have fil: "filter (on_stream c) ?out = (if c = ?c then ?out else [])" for c
    proof -
      have "\<forall>ip \<in> set ?out. on_stream ?c ip" using pk by blast
      then show ?thesis by (cases "c = ?c") (simp_all add: filter_id_conv filter_empty_conv on_stream_def)
    qed
    have "\<exists>R F. Ordered_Channels.chan_inv place (Suc R) R F (filter (on_stream c) (outputQueue ?rc)) (stream_numbers ch pl (insert N A) c) (rc_channels ?rc ! c)"
      if c: "c < NUMBER_OF_ORDERED_STREAMS" for c
    proof (cases "c = ?c")
      case True
      have "filter (on_stream c) (outputQueue ?rc) = filter (on_stream ?c) (outputQueue rc) @ ?out" using True by (simp add: fil)
      moreover have "rc_channels ?rc ! c = ?ch'" using True c len by simp
      ultimately show ?thesis using ci' True by (metis nums)
    next
      case False
      have "filter (on_stream c) (outputQueue ?rc) = filter (on_stream c) (outputQueue rc)" "rc_channels ?rc ! c = rc_channels rc ! c"
        using False by (simp_all add: fil)
      moreover have "\<exists>R F. Ordered_Channels.chan_inv place (Suc R) R F (filter (on_stream c) (outputQueue rc)) (stream_numbers ch pl A c) (rc_channels rc ! c)"
        using inv c by (simp add: stream_inv_def)
      ultimately show ?thesis using False by (simp only: nums if_False)
    qed
    moreover have "packets (rc_channels ?rc ! c) \<subseteq> {q \<in> \<Union> (pk ` insert N A). on_stream c q}" if c: "c < NUMBER_OF_ORDERED_STREAMS" for c
    proof (cases "c = ?c")
      case True
      then show ?thesis using pk len c by simp
    next
      case False
      have "packets (rc_channels rc ! c) \<subseteq> {q \<in> \<Union> (pk ` A). on_stream c q}" using inv c by (simp add: stream_inv_def)
      then show ?thesis using False by auto
    qed
    moreover have "set (outputQueue ?rc) \<subseteq> \<Union> (pk ` insert N A)"
    proof -
      have "set (outputQueue rc) \<subseteq> \<Union> (pk ` A)" using inv by (simp add: stream_inv_def)
      then show ?thesis using pk by auto
    qed
    moreover have "\<exists>B. window_rep (apply_reset (env_flags env) (rc_window ?rc)) B (insert N A)" "\<not> resetReceivedPackets (apply_reset (env_flags env) (rc_window ?rc))"
      using B' ad(3) by (auto simp: apply_reset_rep(2))
    moreover have "length (rc_channels ?rc) = NUMBER_OF_ORDERED_STREAMS" using len by simp
    ultimately have "stream_inv env ch pl pk (insert N A) ?rc" unfolding stream_inv_def by blast
    then show ?thesis using rm by blast
  qed
qed

lemma receive_list_stream:
  assumes "stream_of n ch pl pk" "stream_inv env ch pl pk A rc" "A \<subseteq> {..<n}" "set Ns \<subseteq> {..<n}" "list_all2 (\<lambda>a N. snd a \<in> pk N) as Ns"
  shows "\<exists>rc'. receive_list env as rc = Inr rc' \<and> stream_inv env ch pl pk (A \<union> set Ns) rc'"
  using assms(5,2-4)
proof (induction as Ns arbitrary: A rc rule: list_all2_induct)
  case (Cons a as N Ns)
  have N: "N < n" using Cons.prems(3) by simp
  obtain rc1 where s: "receive_message env (fst a) (snd a) rc = Inr rc1" "stream_inv env ch pl pk (insert N A) rc1"
    using receive_step [OF assms(1) Cons.prems(1,2) N Cons.hyps(1)] by blast
  show ?case using Cons.IH [OF s(2)] Cons.prems s(1) by auto
qed simp

text \<open>What the application has got: on every channel the messages before the first missing one, in order.\<close>

lemma stream_inv_output:
  assumes "stream_of n ch pl pk" "stream_inv env ch pl pk A rc" "A \<subseteq> {..<n}" "c < NUMBER_OF_ORDERED_STREAMS"
  shows "map place (filter (on_stream c) (outputQueue rc)) = [0..<first_missing (stream_numbers ch pl A c)]"
proof -
  let ?o = "filter (on_stream c) (outputQueue rc)"
  obtain R F where i: "Ordered_Channels.chan_inv place (Suc R) R F ?o (stream_numbers ch pl A c) (rc_channels rc ! c)"
    using assms(2,4) by (auto simp: stream_inv_def)
  have "reliability ip = ReliableOrdered" if "ip \<in> set ?o" for ip
  proof -
    have "set (outputQueue rc) \<subseteq> \<Union> (pk ` A)" using assms(2) by (simp add: stream_inv_def)
    moreover have "ip \<in> set (outputQueue rc)" using that by simp
    ultimately obtain N where "N \<in> A" "ip \<in> pk N" by blast
    then show ?thesis using assms(1,3) by (auto simp: stream_of_def carries_ordered_def)
  qed
  then have "\<forall>d \<in> set ?o. \<not> sequenced_packet d" by (auto simp: sequenced_packet_def)
  then have "filter (\<lambda>d. \<not> sequenced_packet d) ?o = ?o" by (rule filter_True)
  then show ?thesis using i chan_inv_first_missing [OF i] by (simp add: Ordered_Channels.chan_inv_def)
qed

section \<open>Properties\<close>

text \<open>
  End to end on the receiving side: reliable ordered messages of a connection, on any of the 32 channels, arrive in
  any order, any of them several times or not at all.  Nothing fails, and on every channel the application gets each
  message before the first missing one exactly once, in sending order, and nothing else.
\<close>

theorem reliable_ordered_delivery:
  assumes "stream_of n ch pl pk" "set Ns \<subseteq> {..<n}" "list_all2 (\<lambda>a N. snd a \<in> pk N) as Ns"
  shows "\<exists>rc. receive_list env as (Receiver_new st bs) = Inr rc \<and> set (outputQueue rc) \<subseteq> \<Union> (pk ` set Ns) \<and>
    (\<forall>c < NUMBER_OF_ORDERED_STREAMS. map place (filter (on_stream c) (outputQueue rc)) = [0..<first_missing (stream_numbers ch pl (set Ns) c)])"
proof -
  obtain rc where rc: "receive_list env as (Receiver_new st bs) = Inr rc" "stream_inv env ch pl pk (set Ns) rc"
    using receive_list_stream [OF assms(1) Receiver_new_inv _ assms(2,3)] by fastforce
  have "set (outputQueue rc) \<subseteq> \<Union> (pk ` set Ns)" using rc(2) by (simp add: stream_inv_def)
  then show ?thesis using rc(1) stream_inv_output [OF assms(1) rc(2) assms(2)] by blast
qed

definition demo_env :: ReceiveEnv where
  "demo_env = \<lparr>env_interval = 0, env_pool = demo_packet, env_stale = 0, env_flags = (\<lambda>_. True), env_bytes = (\<lambda>_. 7), env_header = demo_header,
     env_char = 0, env_length = 0, env_mtu = 1400\<rparr>"

definition demo_message :: "nat \<Rightarrow> InternalPacket" where
  "demo_message N = demo_packet\<lparr>splitPacketCount := 0, reliability := ReliableOrdered, orderingChannel := of_nat (N mod 2),
     reliableMessageNumber := of_nat N, orderingIndex := of_nat (N div 2)\<rparr>"

lemma div_mod_inj: "M \<noteq> N \<and> M mod 2 = N mod 2 \<longrightarrow> M div 2 \<noteq> N div (2::nat)"
  by (metis mult_div_mod_eq)

lemma demo_message_stream: "stream_of 4 (\<lambda>N. N mod 2) (\<lambda>N. N div 2) (\<lambda>N. {demo_message N})"
proof -
  have "carries_ordered N (N mod 2) (N div 2) (demo_message N)" for N
    by (simp add: carries_ordered_def demo_message_def unat_of_nat_id)
  moreover have "N mod 2 < 32" for N :: nat using mod_less_divisor [of 2 N] by linarith
  ultimately show ?thesis unfolding stream_of_def NUMBER_OF_ORDERED_STREAMS_def using div_mod_inj by auto
qed

theorem reliable_ordered_delivery_witness:
  "\<exists>rc. receive_list demo_env (map (\<lambda>N. (of_nat N, demo_message N)) [2, 0, 3, 0]) (Receiver_new demo_acks (BitStream_new (\<lambda>_. 9))) = Inr rc \<and>
     map place (filter (on_stream 0) (outputQueue rc)) = [0..<first_missing (stream_numbers (\<lambda>N. N mod 2) (\<lambda>N. N div 2) {2, 0, 3} 0)]"
proof -
  let ?as = "map (\<lambda>N. (of_nat N, demo_message N)) [2, 0, 3, 0]"
  have "set [2, 0, 3, 0 :: nat] \<subseteq> {..<4}" "list_all2 (\<lambda>a N. snd a \<in> {demo_message N}) ?as [2, 0, 3, 0]" by simp_all
  from reliable_ordered_delivery [OF demo_message_stream this, of demo_env demo_acks "BitStream_new (\<lambda>_. 9)"]
  obtain rc where rc: "receive_list demo_env ?as (Receiver_new demo_acks (BitStream_new (\<lambda>_. 9))) = Inr rc"
    "\<forall>c < NUMBER_OF_ORDERED_STREAMS. map place (filter (on_stream c) (outputQueue rc)) =
       [0..<first_missing (stream_numbers (\<lambda>N. N mod 2) (\<lambda>N. N div 2) (set [2, 0, 3, 0]) c)]"
    by blast
  have "set [2, 0, 3, 0 :: nat] = {2, 0, 3}" by auto
  then show ?thesis using rc by (metis NUMBER_OF_ORDERED_STREAMS_def zero_less_numeral)
qed

end
