(* ===== verification/Receive_Handler.thy ===== *)
theory Receive_Handler
  imports Receive_Laws Ack_Laws
begin

text \<open>
  \<^verbatim>\<open>HandleSocketReceiveFromConnectedPlayer\<close> as a whole, on the bytes of a datagram: the checks on its length and header, and the
  branches for acknowledgements, loss reports and data over one state.  Whatever bytes arrive, the handler returns: no loop of it
  runs on, no table is indexed outside its bounds and no buffer is overrun, while less than \<open>2\<^sup>3\<^sup>2\<close> bits have arrived.
\<close>

section \<open>State and handler\<close>

record Layer =
  lay_send :: SendWindow
  lay_receive :: Receiver
  timeLastDatagramArrived :: u32
  bandwidthExceededStatistic :: bool

fun apply_event :: "bool \<Rightarrow> CCEvent \<Rightarrow> CCRakNetSlidingWindow \<Rightarrow> CCRakNetSlidingWindow" where
  "apply_event exceeded (CC_OnAck ping n) cc = OnAck ping exceeded n cc"
| "apply_event exceeded (CC_OnNAK n) cc = OnNAK cc"

text \<open>The branches for reports leave what they push to \<^verbatim>\<open>outputQueue\<close> and what they tell the congestion control in order;
  they read neither.\<close>

definition settle :: "SendWindow \<Rightarrow> Layer \<Rightarrow> Layer" where
  "settle w lay =
    (let rc = lay_receive lay; st = rc_acks rc
     in lay\<lparr>lay_send := w\<lparr>sw_output := [], sw_events := []\<rparr>,
            lay_receive := rc\<lparr>outputQueue := outputQueue rc @ sw_output w,
              rc_acks := st\<lparr>ack_cc := fold (apply_event (bandwidthExceededStatistic lay)) (sw_events w) (ack_cc st)\<rparr>\<rparr>\<rparr>)"

text \<open>A data datagram counts as received when it was not refused and its first message was accepted.\<close>

definition data_counted :: "ReceiveEnv \<Rightarrow> u64 \<Rightarrow> DatagramHeaderFormat \<Rightarrow> BitStream \<Rightarrow> AckState \<Rightarrow> bool" where
  "data_counted env timeRead dhf socketData st \<longleftrightarrow>
    fst (note_datagram dhf timeRead st) \<noteq> None \<and>
    fst (CreateInternalPacketFromBitStream (env_char env) (env_length env) (env_pool env) timeRead socketData) \<noteq> None"

definition handle_data :: "ReceiveEnv \<Rightarrow> u64 \<Rightarrow> DatagramHeaderFormat \<Rightarrow> BitStream \<Rightarrow> Layer \<Rightarrow> ReceiveFault + bool \<times> Layer" where
  "handle_data env timeRead dhf socketData lay =
    (case receive_data env timeRead dhf socketData (lay_receive lay) of
       Inl f \<Rightarrow> Inl f
     | Inr rc \<Rightarrow>
         let w = lay_send lay;
             w' = (if data_counted env timeRead dhf socketData (rc_acks (lay_receive lay))
                   then w\<lparr>receivePacketCount := receivePacketCount w + 1\<rparr> else w)
         in Inr (True, lay\<lparr>lay_send := w', lay_receive := rc\<rparr>))"

definition settle_option :: "(bool \<times> SendWindow) option \<Rightarrow> Layer \<Rightarrow> ReceiveFault + bool \<times> Layer" where
  "settle_option r lay = (case r of None \<Rightarrow> Inl LoopFault | Some (b, w) \<Rightarrow> Inr (b, settle w lay))"

definition HandleSocketReceiveFromConnectedPlayer :: "ReceiveEnv \<Rightarrow> u32 \<Rightarrow> u64 \<Rightarrow> u8 list \<Rightarrow> Layer \<Rightarrow> ReceiveFault + bool \<times> Layer" where
  "HandleSocketReceiveFromConnectedPlayer env now timeRead buffer lay0 =
    (if length buffer \<le> 2 then Inr (True, lay0)
     else
       let lay = lay0\<lparr>timeLastDatagramArrived := now\<rparr>;
           (dhf, socketData) = DatagramHeader_Deserialize (env_header env) (BitStream_of (env_bytes env) buffer False)
       in if \<not> isValid dhf then Inr (True, lay)
          else if isACK dhf then settle_option (handle_ack (env_pool env) timeRead socketData (lay_send lay)) lay
          else if isNAK dhf then settle_option (handle_nak timeRead socketData (lay_send lay)) lay
          else handle_data env timeRead dhf socketData lay)"

text \<open>The datagrams of a connection one after the other, each with the two clocks read at its arrival.\<close>

primrec handle_all :: "ReceiveEnv \<Rightarrow> (u32 \<times> u64 \<times> u8 list) list \<Rightarrow> Layer \<Rightarrow> ReceiveFault + Layer" where
  "handle_all env [] lay = Inr lay"
| "handle_all env (d # ds) lay =
    (case HandleSocketReceiveFromConnectedPlayer env (fst d) (fst (snd d)) (snd (snd d)) lay of
       Inl f \<Rightarrow> Inl f
     | Inr (_, lay') \<Rightarrow> handle_all env ds lay')"

definition Layer_new :: "u32 \<Rightarrow> SendWindow \<Rightarrow> u32 \<Rightarrow> BitStream \<Rightarrow> Layer" where
  "Layer_new now w mtu bs =
    \<lparr>lay_send = w,
     lay_receive = Receiver_new \<lparr>acknowlegements = [], NAKs = [], nextAckTimeToSend = 0, remoteSystemNeedsBAndAS = False, ack_cc = CC_Init mtu\<rparr> bs,
     timeLastDatagramArrived = now, bandwidthExceededStatistic = False\<rparr>"

section \<open>Reading moves forward\<close>

definition readable :: "BitStream \<Rightarrow> bool" where
  "readable bs \<longleftrightarrow> rd_ok bs \<and> readOffset bs \<le> align_up (numberOfBitsUsed bs)"

definition forward :: "BitStream \<Rightarrow> BitStream \<Rightarrow> bool" where
  "forward bs bs' \<longleftrightarrow> (readable bs \<longrightarrow> readable bs' \<and> readOffset bs \<le> readOffset bs' \<and> numberOfBitsUsed bs' = numberOfBitsUsed bs)"

lemma forward_refl [simp]: "forward bs bs"
  by (simp add: forward_def)

lemma forward_trans: "forward a b \<Longrightarrow> forward b c \<Longrightarrow> forward a c"
  by (auto simp: forward_def)

lemma align_up_mono: "x \<le> align_up u \<Longrightarrow> align_up x \<le> align_up u"
proof -
  assume "x \<le> align_up u"
  then have "(x + 7) div 8 \<le> ((u + 7) div 8 * 8 + 7) div 8" unfolding align_up_def by (intro div_le_mono) simp
  then show ?thesis by (simp add: align_up_def)
qed

lemma readable_limit: "readable bs \<Longrightarrow> readOffset bs \<le> 1073741824 \<and> numberOfBitsUsed bs \<le> 1073741824"
proof -
  assume r: "readable bs"
  have "align_up 1073741824 = 1073741824" by (simp add: align_up_def)
  moreover have "align_up (numberOfBitsUsed bs) \<le> align_up 1073741824"
    by (rule align_up_mono) (use r in \<open>simp add: readable_def rd_ok_def bs_limit_def align_up_def\<close>)
  ultimately show ?thesis using r by (simp add: readable_def rd_ok_def bs_limit_def)
qed

lemma forward_advance:
  assumes "readable bs \<Longrightarrow> readOffset bs + n \<le> numberOfBitsUsed bs"
  shows "forward bs (bs\<lparr>readOffset := w32 (readOffset bs + n)\<rparr>)"
  unfolding forward_def
proof
  assume r: "readable bs"
  then show "readable (bs\<lparr>readOffset := w32 (readOffset bs + n)\<rparr>) \<and> readOffset bs \<le> readOffset (bs\<lparr>readOffset := w32 (readOffset bs + n)\<rparr>) \<and>
      numberOfBitsUsed (bs\<lparr>readOffset := w32 (readOffset bs + n)\<rparr>) = numberOfBitsUsed bs"
    using assms [OF r] readable_limit [OF r] align_up_bounds(1) [of "numberOfBitsUsed bs"] by (simp add: readable_def rd_ok_def)
qed

lemma unread_room: "\<not> GetNumberOfUnreadBits bs < n \<Longrightarrow> 0 < n \<Longrightarrow> readOffset bs + n \<le> numberOfBitsUsed bs"
  by (auto simp: GetNumberOfUnreadBits_def split: if_splits)

lemma forward_align: "forward bs (AlignReadToByteBoundary bs)"
proof -
  have "AlignReadToByteBoundary bs = skip_to (align_up (readOffset bs)) bs" if "readable bs"
    by (rule AlignRead_skip) (use readable_limit [OF that] in \<open>simp add: bs_limit_def\<close>)
  then show ?thesis
    using align_up_bounds(1) [of "readOffset bs"] align_up_mono [of "readOffset bs" "numberOfBitsUsed bs"]
    by (auto simp: forward_def readable_def skip_to_def rd_ok_def)
qed

lemma forward_reads:
  "forward bs (snd (Read_bool bs))" "forward bs (snd (ReadAlignedVar8 bs))" "forward bs (snd (ReadAlignedVar16 bs))"
  "forward bs (snd (ReadAlignedVar32 bs))" "forward bs (snd (ReadBits n right bs))"
  using forward_advance [of bs 1] unread_room [of bs 1]
  by (auto simp: Read_bool_def ReadAlignedVar8_def ReadAlignedVar16_def ReadAlignedVar32_def ReadBits_def Let_def
      intro!: forward_advance unread_room)

lemma forward_uint24: "forward bs (snd (Read_uint24 bs))"
  by (rule forward_trans [OF forward_align]) (auto simp: Read_uint24_def Let_def intro!: forward_advance unread_room)

lemma forward_int: "forward bs (snd (Read_int bs))"
  by (simp add: Read_int_def split_beta Let_def forward_reads split: option.splits)

lemma ReadAlignedBytes_forward:
  assumes "readable bs" "ReadAlignedBytes k bs = (Some bytes, bs')"
  shows "readable bs' \<and> readOffset bs + 8 * k \<le> readOffset bs' \<and> readOffset bs' \<le> numberOfBitsUsed bs' \<and> numberOfBitsUsed bs' = numberOfBitsUsed bs"
proof -
  let ?b = "AlignReadToByteBoundary bs"
  have b: "readable ?b" "readOffset bs \<le> readOffset ?b" "numberOfBitsUsed ?b = numberOfBitsUsed bs"
    using forward_align [of bs] assms(1) by (auto simp: forward_def)
  have k: "0 < k" "k * 8 \<le> GetNumberOfUnreadBits ?b" and bs': "bs' = ?b\<lparr>readOffset := w32 (readOffset ?b + BYTES_TO_BITS k)\<rparr>"
    using assms(2) by (auto simp: ReadAlignedBytes_def Let_def split: if_splits)
  have room: "readOffset ?b + 8 * k \<le> numberOfBitsUsed ?b" using k by (auto simp: GetNumberOfUnreadBits_def split: if_splits)
  have "8 * k < 4294967296" using room readable_limit [OF b(1)] by linarith
  then have "bs' = ?b\<lparr>readOffset := w32 (readOffset ?b + 8 * k)\<rparr>" by (simp add: bs' BYTES_TO_BITS_def mult.commute)
  moreover have "w32 (readOffset ?b + 8 * k) = readOffset ?b + 8 * k" using room readable_limit [OF b(1)] by simp
  ultimately show ?thesis
    using forward_advance [of ?b "8 * k"] room b by (auto simp: forward_def)
qed

lemma forward_reliable:
  "forward bs (snd (read_reliable ip bs))" "dataBitLength (fst (read_reliable ip bs)) = dataBitLength ip"
  using forward_trans [OF forward_uint24 forward_align, of bs] forward_align [of bs] by (simp_all add: read_reliable_def Let_def)

lemma forward_ordering:
  "forward bs (snd (snd (read_ordering ip b bs)))" "dataBitLength (fst (read_ordering ip b bs)) = dataBitLength ip"
  using forward_trans [OF forward_trans [OF forward_uint24 forward_uint24] forward_reads(2), of bs]
    forward_trans [OF forward_uint24 forward_reads(2), of bs] forward_uint24 [of bs]
  by (cases "is_sequenced (reliability ip)"; cases "is_ordered (reliability ip)"; simp add: read_ordering_def Let_def)+

lemma forward_split:
  "forward bs (snd (snd (read_split ip c b bs)))" "dataBitLength (fst (read_split ip c b bs)) = dataBitLength ip"
  using forward_trans [OF forward_trans [OF forward_reads(4,3)] forward_reads(4), of bs] by (simp_all add: read_split_def Let_def)

lemma Create_some:
  assumes "CreateInternalPacketFromBitStream tempChar s pool time bs = (Some ip, bs')"
  obtains p bs4 bytes where "forward bs bs4" "0 < dataBitLength p" "dataBitLength p < 65536"
    "ReadAlignedBytes (BITS_TO_BYTES (dataBitLength p)) bs4 = (Some bytes, bs')" "ip = p\<lparr>ip_data := bytes\<rparr>"
proof -
  define r1 where "r1 = ReadBits 3 True (AlignReadToByteBoundary bs)"
  define r2 where "r2 = Read_bool (snd r1)"
  define r3 where "r3 = (ReadAlignedVar16 (AlignReadToByteBoundary (snd r2)) :: u16 option \<times> BitStream)"
  define c where "c = (case fst r1 of None \<Rightarrow> tempChar | Some bytes \<Rightarrow> bytes ! 0)"
  define ip1 where "ip1 = ((AllocateFromInternalPacketPool pool)\<lparr>creationTime := time\<rparr>)
    \<lparr>reliability := reliability_of c, dataBitLength := unat (read_or s r3)\<rparr>"
  define a2 where "a2 = read_reliable ip1 (snd r3)"
  define a3 where "a3 = read_ordering (fst a2) (fst r2 \<noteq> None) (snd a2)"
  define a4 where "a4 = read_split (fst a3) (read_or False r2) (fst (snd a3)) (snd (snd a3))"
  define d where "d = ReadAlignedBytes (BITS_TO_BYTES (dataBitLength (fst a4))) (snd (snd a4))"
  have "CreateInternalPacketFromBitStream tempChar s pool time bs =
      (if GetNumberOfUnreadBits bs < 4 * 8 then (None, bs)
       else if malformed (fst a4) c (read_or False r2) (fst (snd a4)) then (None, snd (snd a4))
       else case fst d of None \<Rightarrow> (None, snd d) | Some bytes \<Rightarrow> (Some (fst a4\<lparr>ip_data := bytes\<rparr>), snd d))"
    by (simp only: CreateInternalPacketFromBitStream_def Let_def split_beta d_def a4_def a3_def a2_def ip1_def c_def r3_def r2_def r1_def)
  then obtain bytes where m: "\<not> malformed (fst a4) c (read_or False r2) (fst (snd a4))" "fst d = Some bytes"
      "ip = fst a4\<lparr>ip_data := bytes\<rparr>" "bs' = snd d"
    using assms by (auto split: if_splits option.splits)
  have "forward bs (snd r3)"
    unfolding r1_def r2_def r3_def by (intro forward_trans [OF _ forward_reads(3)] forward_trans [OF _ forward_align]
        forward_trans [OF _ forward_reads(1)] forward_trans [OF _ forward_reads(5)] forward_refl)
  then have f: "forward bs (snd (snd a4))"
    unfolding a2_def a3_def a4_def by (intro forward_trans [OF _ forward_split(1)] forward_trans [OF _ forward_ordering(1)]
        forward_trans [OF _ forward_reliable(1)])
  have len: "dataBitLength (fst a4) = unat (read_or s r3)"
    by (simp add: a4_def a3_def a2_def forward_split forward_ordering forward_reliable ip1_def)
  show ?thesis
    using that [OF f, of "fst a4" bytes] m len unat_less_2p [of "read_or s r3"] by (auto simp: malformed_def d_def prod_eq_iff)
qed

lemma Create_forward:
  assumes "readable bs" "CreateInternalPacketFromBitStream tempChar s pool time bs = (Some ip, bs')"
  shows "readable bs'" "readOffset bs + dataBitLength ip \<le> readOffset bs'" "readOffset bs' \<le> numberOfBitsUsed bs'"
    "numberOfBitsUsed bs' = numberOfBitsUsed bs" "0 < dataBitLength ip" "fragment_ok ip"
proof -
  obtain p bs4 bytes where c: "forward bs bs4" "0 < dataBitLength p" "dataBitLength p < 65536"
    "ReadAlignedBytes (BITS_TO_BYTES (dataBitLength p)) bs4 = (Some bytes, bs')" "ip = p\<lparr>ip_data := bytes\<rparr>"
    using Create_some [OF assms(2)] by metis
  have r4: "readable bs4" "readOffset bs \<le> readOffset bs4" "numberOfBitsUsed bs4 = numberOfBitsUsed bs"
    using c(1) assms(1) by (auto simp: forward_def)
  note a = ReadAlignedBytes_forward [OF r4(1) c(4)]
  have b: "BITS_TO_BYTES (dataBitLength p) = (dataBitLength p + 7) div 8" using c(3) by (intro BITS_TO_BYTES_small) simp
  have "dataBitLength p \<le> 8 * ((dataBitLength p + 7) div 8)" by linarith
  then show "readable bs'" "readOffset bs + dataBitLength ip \<le> readOffset bs'" "readOffset bs' \<le> numberOfBitsUsed bs'"
    "numberOfBitsUsed bs' = numberOfBitsUsed bs" "0 < dataBitLength ip"
    using a r4 c(2,5) b by auto
  have "length bytes = BITS_TO_BYTES (dataBitLength p)"
    by (rule ReadAlignedBytes_length [OF _ c(4)]) (use r4(1) in \<open>simp add: readable_def\<close>)
  then show "fragment_ok ip" using c(3,5) by (simp add: fragment_ok_def)
qed

lemma header_forward: "forward bs (snd (DatagramHeader_Deserialize h bs))"
  by (auto simp: DatagramHeader_Deserialize_def Let_def
      intro!: forward_refl forward_trans [OF _ forward_reads(1)] forward_trans [OF _ forward_align] forward_trans [OF _ forward_int] forward_trans [OF _ forward_uint24])

section \<open>What the receiving side maintains\<close>

text \<open>At most \<open>n\<close> bits of fragments are held for one message, at most \<open>k\<close> ranges wait to be acknowledged.\<close>

definition fragments_safe :: "nat \<Rightarrow> SplitPacketChannel \<Rightarrow> bool" where
  "fragments_safe n c \<longleftrightarrow> bit_sum (m_fragments (splitPacketList c)) \<le> n \<and> (\<forall>f \<in> set (m_fragments (splitPacketList c)). \<not> corrupt_channel (snd f))"

definition rc_inv :: "nat \<Rightarrow> nat \<Rightarrow> Receiver \<Rightarrow> bool" where
  "rc_inv n k rc \<longleftrightarrow> chans_ok (rc_splits rc) \<and> (\<forall>c \<in> set (rc_splits rc). fragments_safe n c) \<and>
    length (rc_channels rc) = NUMBER_OF_ORDERED_STREAMS \<and> range_wf (acknowlegements (rc_acks rc)) \<and>
    length (acknowlegements (rc_acks rc)) \<le> k \<and> bs_inv (rc_stream rc)"

definition env_ok :: "ReceiveEnv \<Rightarrow> bool" where
  "env_ok env \<longleftrightarrow> 32 \<le> env_mtu env \<and> env_mtu env \<le> MAXIMUM_MTU_SIZE"

lemma fragments_safe_mono: "fragments_safe n c \<Longrightarrow> n \<le> m \<Longrightarrow> fragments_safe m c"
  by (auto simp: fragments_safe_def)

lemma rc_inv_mono: "rc_inv n k rc \<Longrightarrow> n \<le> m \<Longrightarrow> k \<le> l \<Longrightarrow> rc_inv m l rc"
  by (auto simp: rc_inv_def intro: fragments_safe_mono)

lemma corrupt_unordered [simp]: "corrupt_channel (unordered_channel ip) = corrupt_channel ip"
  by (auto simp: corrupt_channel_def unordered_channel_def)

lemma chan_step_safe:
  assumes "chan_step stale time ip oc = Some c" "\<And>c. oc = Some c \<Longrightarrow> fragments_safe n c" "\<not> corrupt_channel ip"
  shows "fragments_safe (n + dataBitLength ip) c"
proof -
  define old where "old = (case oc of Some c \<Rightarrow> c | None \<Rightarrow> new_channel stale ip)"
  have o: "fragments_safe n old" using assms(2) by (cases oc) (simp_all add: old_def fragments_safe_def bit_sum_def)
  have "c = chan_add time ip old \<and> fst (SplitPacketSort_Add ip (splitPacketList old)) \<or> oc = Some c"
    using assms(1) by (auto simp: chan_step_def old_def [symmetric] Let_def split: if_splits)
  then show ?thesis
  proof
    assume "oc = Some c"
    then show ?thesis using assms(2) fragments_safe_mono by simp
  next
    assume a: "c = chan_add time ip old \<and> fst (SplitPacketSort_Add ip (splitPacketList old))"
    then show ?thesis
      using o Add_accepts(6) [of ip "splitPacketList old"] bit_sum_emplace [of "splitPacketIndex ip" ip "m_fragments (splitPacketList old)"]
        map_emplace_set [of "splitPacketIndex ip" ip "m_fragments (splitPacketList old)"] assms(3)
      by (auto simp: fragments_safe_def chan_add_def split: if_splits)
  qed
qed

lemma BuildPacket_channel:
  assumes "BuildPacket pool fresh c time = Inr (Some p)" "fragments_safe n c" "AllPacketsAdded (splitPacketList c)"
  shows "\<not> corrupt_channel p"
proof -
  let ?h = "snd (hd (m_fragments (splitPacketList c)))"
  have "m_fragments (splitPacketList c) \<noteq> []" using assms(3) by (auto simp: AllPacketsAdded_def word_gt_0 unat_eq_0)
  then have "\<not> corrupt_channel ?h" using assms(2) by (simp add: fragments_safe_def)
  moreover have "reliability p = reliability ?h" "orderingChannel p = orderingChannel ?h"
    using assms(1) by (auto simp: BuildPacket_def Let_def CreateInternalPacketCopy_def split: if_splits option.splits)
  ultimately show ?thesis by (simp add: corrupt_channel_def)
qed

lemma flush_acks_total:
  assumes "rc_inv n k rc" "env_ok env" "k < 65536"
  shows "\<exists>rc'. flush_acks env rc = Inr rc' \<and> rc_inv n k rc'"
proof -
  let ?st = "rc_acks rc"
  have w: "range_wf []" by (simp add: range_wf_def)
  obtain sent bs st where "SendACKs (length (acknowlegements ?st)) (env_bytes env) (env_header env) (env_mtu env) (rc_stream rc) ?st = Some (sent, bs, st)"
      "acknowlegements st = []" "bs_inv bs"
    using SendACKs_decoded [of "rc_stream rc" ?st "length (acknowlegements ?st)" "env_mtu env" "env_bytes env" "env_header env" "env_bytes env" "env_header env"]
      assms by (auto simp: rc_inv_def env_ok_def)
  then show ?thesis using w assms(1) by (simp add: flush_acks_def rc_inv_def)
qed

lemma reassemble_total:
  assumes inv: "rc_inv n k rc" and f: "fragment_ok ip" and ch: "\<not> corrupt_channel ip" and bits: "n + dataBitLength ip < 4294967289"
    and env: "env_ok env" "k < 65536"
  shows "\<exists>q rc'. reassemble env time ip rc = Inr (q, rc') \<and> rc_inv (n + dataBitLength ip) k rc' \<and> (\<forall>p. q = Some p \<longrightarrow> \<not> corrupt_channel p)"
proof -
  let ?k = "splitPacketId ip" and ?m = "n + dataBitLength ip"
  define r where "r = receive_fragment (env_interval env) (env_pool env) (env_stale env) (env_bytes env) time ip (rc_splits rc)"
  define oc where "oc = chan_step (env_stale env) time (unordered_channel ip) (chan_of (rc_splits rc) ?k)"
  have ok: "chans_ok (rc_splits rc)" and safe: "\<And>c. c \<in> set (rc_splits rc) \<Longrightarrow> fragments_safe n c" using inv by (auto simp: rc_inv_def)
  have s: "ids_sorted (rc_splits rc)" using ok by (simp add: chans_ok_def)
  note e1 = receive_fragment_effect(1-2) [OF ok f, where stale = "env_stale env" and time = time and interval = "env_interval env" and pool = "env_pool env"
      and fresh = "env_bytes env", folded r_def]
  note e3 = receive_fragment_effect(3-4) [OF ok f, where stale = "env_stale env" and time = time and interval = "env_interval env" and pool = "env_pool env"
      and fresh = "env_bytes env", folded r_def oc_def]
  note e5 = receive_fragment_effect(5) [OF ok f, where stale = "env_stale env" and time = time, folded oc_def]
  have oc: "fragments_safe ?m c" if "oc = Some c" for c
    using chan_step_safe [of "env_stale env" time "unordered_channel ip" "chan_of (rc_splits rc) ?k" c n] that ch safe chan_of_iff [OF s]
    by (simp add: oc_def)
  have pk: "(\<exists>q. fr_packet r = Inr q \<and> (\<forall>p. q = Some p \<longrightarrow> \<not> corrupt_channel p)) \<and>
      (\<forall>c. chan_of (fr_channels r) ?k = Some c \<longrightarrow> oc = Some c)"
  proof (cases "\<exists>c. oc = Some c \<and> AllPacketsAdded (splitPacketList c)")
    case True
    then obtain c where c: "oc = Some c" "AllPacketsAdded (splitPacketList c)" by blast
    have "bit_sum (m_fragments (splitPacketList c)) < 4294967289" using oc [OF c(1)] bits by (simp add: fragments_safe_def)
    then obtain q where "fr_packet r = Inr q" using e3(2) [OF c] BuildPacket_correct [OF e5 [OF c(1)], of "env_pool env" "env_bytes env" time] c(2) by auto
    then show ?thesis using e3(2) [OF c] BuildPacket_channel [OF _ oc [OF c(1)] c(2)] by auto
  qed (use e3(1) in auto)
  have sp: "fragments_safe ?m c" if "c \<in> set (fr_channels r)" for c
  proof -
    have "chan_of (fr_channels r) (chan_id c) = Some c" using e1(1) that chan_of_iff [of "fr_channels r" "chan_id c" c] by (simp add: chans_ok_def)
    then show ?thesis using pk oc e1(2) [of "chan_id c"] safe [of c] chan_of_iff [OF s] fragments_safe_mono [of n c ?m]
      by (cases "chan_id c = ?k") auto
  qed
  define rc1 where "rc1 = rc\<lparr>outputQueue := outputQueue rc @ fr_output r, rc_splits := fr_channels r\<rparr>"
  have rc1: "rc_inv ?m k rc1" using inv e1(1) sp by (simp add: rc_inv_def rc1_def)
  obtain rc2 where "(if fr_acked r then flush_acks env rc1 else Inr rc1) = Inr rc2" "rc_inv ?m k rc2"
    using flush_acks_total [OF rc1 env] rc1 by (cases "fr_acked r") auto
  then show ?thesis using pk by (auto simp: reassemble_def Let_def r_def [symmetric] rc1_def [symmetric])
qed

section \<open>No input faults\<close>

lemma deliver_packet_total:
  assumes "rc_inv n k rc" "\<not> corrupt_channel ip"
  shows "\<exists>rc'. deliver_packet ip rc = Inr rc' \<and> rc_inv n k rc'"
  using assms by (auto simp: deliver_packet_def Let_def split_beta rc_inv_def corrupt_channel_def channel_packet_def sequenced_packet_def)

lemma admitted_channel: "fst (admit fresh ip w) \<Longrightarrow> \<not> corrupt_channel ip"
  by (auto simp: admit_def Let_def)

lemma receive_message_total:
  assumes inv: "rc_inv n k rc" and f: "fragment_ok ip" and bits: "n + dataBitLength ip < 4294967289" and env: "env_ok env" "k < 65536"
  shows "\<exists>rc'. receive_message env time ip rc = Inr rc' \<and> rc_inv (n + dataBitLength ip) k rc'"
proof -
  obtain b w where a: "admit (env_flags env) ip (rc_window rc) = (b, w)" by fastforce
  let ?rc = "rc\<lparr>rc_window := w\<rparr>"
  have inv1: "rc_inv n k ?rc" using inv by (simp add: rc_inv_def)
  show ?thesis
  proof (cases b)
    case False
    then show ?thesis using a rc_inv_mono [OF inv1] by (simp add: receive_message_def)
  next
    case True
    have ch: "\<not> corrupt_channel ip" by (rule admitted_channel [of "env_flags env" _ "rc_window rc"]) (simp add: a True)
    show ?thesis
    proof (cases "splitPacketCount ip > 0")
      case split: True
      obtain q rc2 where q: "reassemble env time ip ?rc = Inr (q, rc2)" "rc_inv (n + dataBitLength ip) k rc2" "\<forall>p. q = Some p \<longrightarrow> \<not> corrupt_channel p"
        using reassemble_total [OF inv1 f ch bits env] by blast
      show ?thesis
      proof (cases q)
        case None
        then show ?thesis using q a True split by (simp add: receive_message_def)
      next
        case (Some p)
        then show ?thesis using q a True split deliver_packet_total [OF q(2), of p] by (simp add: receive_message_def)
      qed
    next
      case False
      then show ?thesis using a True deliver_packet_total [OF inv1 ch] rc_inv_mono by (fastforce simp: receive_message_def)
    qed
  qed
qed

lemma receive_messages_total:
  assumes "readable bs" "readOffset bs \<le> numberOfBitsUsed bs" "numberOfBitsUsed bs - readOffset bs < fuel" "rc_inv n k rc"
    and "n + (numberOfBitsUsed bs - readOffset bs) < 4294967289" and env: "env_ok env" "k < 65536"
  shows "\<exists>rc'. receive_messages fuel env time bs rc = Inr rc' \<and> rc_inv (n + (numberOfBitsUsed bs - readOffset bs)) k rc'"
  using assms(1-5)
proof (induction fuel arbitrary: bs n rc)
  case (Suc fuel)
  obtain res bs' where c: "CreateInternalPacketFromBitStream (env_char env) (env_length env) (env_pool env) time bs = (res, bs')" by fastforce
  show ?case
  proof (cases res)
    case None
    then show ?thesis using c rc_inv_mono [OF Suc.prems(4)] by simp
  next
    case (Some ip)
    note f = Create_forward [OF Suc.prems(1) c [unfolded Some]]
    have "n + dataBitLength ip < 4294967289" using Suc.prems(5) f(2-4) by linarith
    then obtain rc1 where r: "receive_message env time ip rc = Inr rc1" "rc_inv (n + dataBitLength ip) k rc1"
      using receive_message_total [OF Suc.prems(4) f(6) _ env] by blast
    have "\<exists>rc'. receive_messages fuel env time bs' rc1 = Inr rc' \<and> rc_inv (n + dataBitLength ip + (numberOfBitsUsed bs' - readOffset bs')) k rc'"
      by (rule Suc.IH [OF f(1,3) _ r(2)]) (use Suc.prems(3,5) f in linarith)+
    moreover have "n + dataBitLength ip + (numberOfBitsUsed bs' - readOffset bs') \<le> n + (numberOfBitsUsed bs - readOffset bs)" using f by linarith
    ultimately show ?thesis using c Some r(1) rc_inv_mono by fastforce
  qed
qed simp

lemma length_if_le: "length x \<le> n \<Longrightarrow> length y \<le> n \<Longrightarrow> length (if b then x else y) \<le> n"
  by simp

lemma RangeList_Insert_length: "length (RangeList_Insert i rs) \<le> Suc (length rs)"
proof -
  obtain idx ex where g: "GetIndexFromKey RangeNodeComp i rs = (idx, ex)" by fastforce
  show ?thesis unfolding RangeList_Insert_def OrderedList_Insert_def Let_def g prod.case if_distrib [of snd] snd_conv
    by (intro length_if_le) (simp_all add: insert_at_def remove_at_def)
qed

lemma receive_data_total:
  assumes "readable bs" "rc_inv n k rc" "n + numberOfBitsUsed bs < 4294967289" "env_ok env" "k + 1 < 65536"
  shows "\<exists>rc'. receive_data env time dhf bs rc = Inr rc' \<and> rc_inv (n + numberOfBitsUsed bs) (k + 1) rc'"
proof -
  obtain res st where nd: "note_datagram dhf time (rc_acks rc) = (res, st)" by fastforce
  have a: "range_wf (acknowlegements (rc_acks rc))" "length (acknowlegements (rc_acks rc)) \<le> k" using assms(2) by (simp_all add: rc_inv_def)
  have o: "acknowlegements st = acknowlegements (rc_acks rc)"
      "res = Some s \<Longrightarrow> acknowlegements s = RangeList_Insert (datagramNumber dhf) (acknowlegements (rc_acks rc))" for s
    using nd by (auto simp: note_datagram_def Let_def split_beta SendAcknowledgementPacket_def split: option.splits)
  show ?thesis
  proof (cases res)
    case None
    then show ?thesis using nd o(1) assms(2) by (auto simp: receive_data_def rc_inv_def intro: fragments_safe_mono)
  next
    case (Some s)
    let ?rc = "rc\<lparr>rc_acks := s\<rparr>"
    have inv: "rc_inv n (k + 1) ?rc"
      using assms(2) a o(2) [OF Some] RangeList_Insert_correct [OF a(1)] RangeList_Insert_length [of "datagramNumber dhf" "acknowlegements (rc_acks rc)"]
      by (auto simp: rc_inv_def)
    show ?thesis
    proof (cases "readOffset bs \<le> numberOfBitsUsed bs")
      case True
      have "\<exists>rc'. receive_messages (numberOfBitsUsed bs + 1) env time bs ?rc = Inr rc' \<and> rc_inv (n + (numberOfBitsUsed bs - readOffset bs)) (k + 1) rc'"
        by (rule receive_messages_total [OF assms(1) True _ inv _ assms(4)]) (use assms(3,5) in simp_all)
      then show ?thesis using nd Some rc_inv_mono [of _ "k + 1"] by (fastforce simp: receive_data_def)
    next
      case False
      then have "GetNumberOfUnreadBits bs = 0" by (simp add: GetNumberOfUnreadBits_def)
      then have "receive_messages (numberOfBitsUsed bs + 1) env time bs ?rc = Inr ?rc" by (simp add: CreateInternalPacketFromBitStream_def)
      then show ?thesis using nd Some rc_inv_mono [OF inv] by (simp add: receive_data_def)
    qed
  qed
qed

definition layer_inv :: "nat \<Rightarrow> nat \<Rightarrow> Layer \<Rightarrow> bool" where
  "layer_inv n k lay \<longleftrightarrow> history_ok (sw_history (lay_send lay)) \<and> rc_inv n k (lay_receive lay)"

lemma settle_option_total:
  assumes "\<exists>b w. r = Some (b, w) \<and> history_ok (sw_history w)" "layer_inv n k lay"
  shows "\<exists>b lay'. settle_option r lay = Inr (b, lay') \<and> layer_inv n k lay'"
  using assms by (auto simp: settle_option_def settle_def layer_inv_def rc_inv_def Let_def)

lemma layer_inv_mono: "layer_inv n k lay \<Longrightarrow> n \<le> m \<Longrightarrow> k \<le> l \<Longrightarrow> layer_inv m l lay"
  by (auto simp: layer_inv_def intro: rc_inv_mono)

lemma Handle_total:
  assumes inv: "layer_inv n k lay" and bits: "n + 8 * length buffer < 4294967289" and len: "length buffer < 65536" and env: "env_ok env" "k + 1 < 65536"
  shows "\<exists>b lay'. HandleSocketReceiveFromConnectedPlayer env now timeRead buffer lay = Inr (b, lay') \<and> layer_inv (n + 8 * length buffer) (k + 1) lay'"
proof -
  let ?bs = "BitStream_of (env_bytes env) buffer False" and ?lay = "lay\<lparr>timeLastDatagramArrived := now\<rparr>"
  obtain h bs where d: "DatagramHeader_Deserialize (env_header env) ?bs = (h, bs)" by fastforce
  have u: "numberOfBitsUsed ?bs = 8 * length buffer" "readOffset ?bs = 0" "bs_data ?bs = buffer"
    using len by (simp_all add: BitStream_of_def Let_def BYTES_TO_BITS_def)
  then have "readable ?bs" using len by (simp add: readable_def rd_ok_def bs_limit_def)
  then have bs: "readable bs" "numberOfBitsUsed bs = 8 * length buffer"
    using header_forward [of ?bs "env_header env"] d u by (auto simp: forward_def)
  have m: "layer_inv (n + 8 * length buffer) (k + 1) l" if "layer_inv n k l" for l by (rule layer_inv_mono [OF that]) simp_all
  have inv1: "layer_inv n k ?lay" using inv by (simp add: layer_inv_def)
  have ho: "history_ok (sw_history (lay_send ?lay))" using inv by (simp add: layer_inv_def)
  note so = settle_option_total [OF _ m [OF inv1]]
  obtain rc where rc: "receive_data env timeRead h bs (lay_receive ?lay) = Inr rc" "rc_inv (n + 8 * length buffer) (k + 1) rc"
    using receive_data_total [of bs n k "lay_receive ?lay" env timeRead h] bs inv bits env by (auto simp: layer_inv_def)
  have "\<exists>b lay'. handle_data env timeRead h bs ?lay = Inr (b, lay') \<and> layer_inv (n + 8 * length buffer) (k + 1) lay'"
    using rc inv by (auto simp: handle_data_def layer_inv_def Let_def)
  then show ?thesis
    using d m [OF inv] m [OF inv1] so [OF handlers_return(1) [OF ho]] so [OF handlers_return(2) [OF ho]]
    by (simp add: HandleSocketReceiveFromConnectedPlayer_def Let_def) blast
qed

lemma handle_all_total:
  assumes "layer_inv n k lay" "n + (\<Sum>d \<leftarrow> ds. 8 * length (snd (snd d))) < 4294967289" "\<forall>d \<in> set ds. length (snd (snd d)) < 65536"
    and "env_ok env" "k + length ds < 65536"
  shows "\<exists>lay'. handle_all env ds lay = Inr lay'"
  using assms(1-3,5)
proof (induction ds arbitrary: n k lay)
  case (Cons d ds)
  let ?b = "snd (snd d)"
  have c: "n + 8 * length ?b < 4294967289" "length ?b < 65536" "k + 1 < 65536" using Cons.prems by simp_all
  obtain b lay' where r: "HandleSocketReceiveFromConnectedPlayer env (fst d) (fst (snd d)) ?b lay = Inr (b, lay')" "layer_inv (n + 8 * length ?b) (k + 1) lay'"
    using Handle_total [OF Cons.prems(1) c(1,2) assms(4) c(3)] by blast
  show ?case using Cons.IH [OF r(2)] Cons.prems r(1) by (simp add: add.assoc)
qed simp

lemma Layer_new_inv: "history_ok (sw_history w) \<Longrightarrow> bs_inv bs \<Longrightarrow> layer_inv 0 0 (Layer_new now w mtu bs)"
  by (simp add: layer_inv_def rc_inv_def Layer_new_def Receiver_new_def chans_ok_def ids_sorted_def range_wf_def)

section \<open>Properties\<close>

text \<open>
  Property C13.  On a new connection no input faults the receiver while it stays within two bounds: whatever datagrams arrive, in whatever order, the handler
  returns on each of them as long as they are fewer than 65536 and add up to less than \<open>2\<^sup>3\<^sup>2 - 7\<close> bits.  No loop of it runs on, no ordering channel outside
  the table is used and no reassembled message is written outside its buffer.
\<close>

theorem receiver_never_faults:
  assumes "history_ok (sw_history w)" "bs_inv bs" "env_ok env"
    and "\<forall>d \<in> set ds. length (snd (snd d)) < 65536" "length ds < 65536" "(\<Sum>d \<leftarrow> ds. 8 * length (snd (snd d))) < 4294967289"
  shows "\<exists>lay. handle_all env ds (Layer_new now w mtu bs) = Inr lay"
  by (rule handle_all_total [OF Layer_new_inv [OF assms(1,2)]]) (use assms(3-6) in simp_all)

theorem receiver_never_faults_witness:
  "\<exists>lay. handle_all demo_env [(1, 1000, [192, 0, 1, 1, 0, 0, 0]), (2, 2000, [132, 0, 0, 0, 255, 255, 255]), (3, 3000, [7])]
     (Layer_new 0 new_send_window 1372 (BitStream_new (\<lambda>_. 9))) = Inr lay"
  using receiver_never_faults [OF new_send_window_ok(1) BitStream_new_inv [of "\<lambda>_. 9"], of demo_env
      "[(1, 1000, [192, 0, 1, 1, 0, 0, 0]), (2, 2000, [132, 0, 0, 0, 255, 255, 255]), (3, 3000, [7])]" 0 1372]
  by (simp add: env_ok_def demo_env_def MAXIMUM_MTU_SIZE_def)

end
