(* ===== verification/Datagram_Path.thy ===== *)
theory Datagram_Path
  imports Transmission Receive_Handler
begin

text \<open>
  From the sender's packets to the receiver's application, through bytes: a data datagram as \<^verbatim>\<open>UpdateInternal\<close> writes it is decoded by
  \<^verbatim>\<open>HandleSocketReceiveFromConnectedPlayer\<close> to its messages, and datagrams of reliable ordered messages that are lost,
  duplicated or reordered by the network still give the application what was sent, in order.
\<close>

section \<open>A datagram on the wire\<close>

text \<open>The part of a packet that is transmitted; the data of a fragment is longer than the fragment.\<close>

definition wire :: "InternalPacket \<Rightarrow> InternalPacket" where
  "wire ip = ip\<lparr>ip_data := body_bytes ip\<rparr>"

lemma wire_fields [simp]:
  "reliability (wire ip) = reliability ip" "dataBitLength (wire ip) = dataBitLength ip" "splitPacketCount (wire ip) = splitPacketCount ip"
  "reliableMessageNumber (wire ip) = reliableMessageNumber ip" "sequencingIndex (wire ip) = sequencingIndex ip"
  "orderingIndex (wire ip) = orderingIndex ip" "orderingChannel (wire ip) = orderingChannel ip"
  "splitPacketId (wire ip) = splitPacketId ip" "splitPacketIndex (wire ip) = splitPacketIndex ip" "ip_data (wire ip) = body_bytes ip"
  by (simp_all add: wire_def)

lemma message_writer_wire: "message_writer (wire ip) = message_writer ip"
proof
  have "take (BITS_TO_BYTES (dataBitLength ip)) (body_bytes ip) = take (BITS_TO_BYTES (dataBitLength ip)) (ip_data ip)"
    by (simp add: body_bytes_def)
  then show "message_writer (wire ip) bs = message_writer ip bs" for bs by (simp only: message_writer_def wire_fields)
qed

definition packable :: "InternalPacket list \<Rightarrow> bool" where
  "packable ips \<longleftrightarrow> (\<forall>ip \<in> set ips. sendable (wire ip)) \<and> length ips \<le> 1000"

lemma fold_message_writer:
  "fold (\<lambda>ip b. snd (WriteToBitStreamFromInternalPacket ip b)) ips = fold message_writer (map wire ips)"
  by (rule ext) (simp add: fold_map comp_def message_writer_wire WriteToBitStreamFromInternalPacket_def Let_def)

lemma length_enc_list:
  "8 dvd p \<Longrightarrow> length (message_codec.enc_list p ips) = (\<Sum>ip \<leftarrow> ips. length (message_bits ip))"
proof (induction ips arbitrary: p)
  case (Cons ip ips)
  have "align_up p = p" using Cons.prems by (intro align_up_mod) presburger
  then have e: "length (message_enc p ip) = length (message_bits ip)" by (simp add: message_enc_def)
  have "8 dvd p + length (message_bits ip)" using Cons.prems by (simp add: message_bits_def)
  then show ?case using Cons.IH e by simp
qed simp

lemma dvd_message_bits: "8 dvd (\<Sum>ip \<leftarrow> ips. length (message_bits ip))"
  by (induction ips) (simp_all add: message_bits_def)

lemma data_datagram_decoded:
  assumes inv: "bs_inv bs0" and h: "\<not> isACK h" "\<not> isNAK h" and ips: "packable ips"
  defines "w \<equiv> write_datagram h ips bs0"
  shows "bs_inv w" "8 * length (SendBitStream w) = 32 + (\<Sum>ip \<leftarrow> ips. length (message_bits (wire ip)))"
    and "\<exists>r. DatagramHeader_Deserialize h0 (BitStream_of fresh (SendBitStream w) False) = (header_image h0 h, r) \<and>
      BitStream_Reads.at r (header_bits h) (message_codec.enc_list 32 (map wire ips)) [] \<and>
      numberOfBitsUsed r = 8 * length (SendBitStream w)"
proof -
  let ?b0 = "BitStream_Reset bs0" and ?b1 = "DatagramHeader_Serialize h (BitStream_Reset bs0)" and ?ws = "map wire ips"
  have b0: "bs_inv ?b0" "bs_bits ?b0 = []" "numberOfBitsUsed ?b0 = 0" using Reset_inv [OF inv] by simp_all
  have a1: "appends ?b0 ?b1 (header_bits h)"
    by (rule DatagramHeader_Serialize_appends) (use b0 in \<open>simp_all add: bs_limit_def\<close>)
  have hl: "length (header_bits h) = 32" using h by (simp add: header_bits_def)
  have u1: "numberOfBitsUsed ?b1 = 32" "bs_bits ?b1 = header_bits h" "bs_inv ?b1" using a1 b0 hl by (simp_all add: appends_def)
  have ok: "\<forall>ip \<in> set ?ws. sendable ip" "length ?ws \<le> 1000" using ips by (simp_all add: packable_def)
  have a2: "appends ?b1 w (message_codec.enc_list 32 ?ws)"
    using message_codec.wr_list [OF ok(1) u1(3)] ok(2) u1(1) by (simp add: w_def write_datagram_def fold_message_writer bs_limit_def)
  show i: "bs_inv w" by (rule appends_inv [OF a2])
  have len: "length (message_codec.enc_list 32 ?ws) = (\<Sum>ip \<leftarrow> ips. length (message_bits (wire ip)))"
    using length_enc_list [of 32 ?ws] by (simp add: comp_def)
  have u2: "numberOfBitsUsed w = 32 + (\<Sum>ip \<leftarrow> ips. length (message_bits (wire ip)))" using appends_used [OF a2] u1(1) len by simp
  have "8 dvd (\<Sum>ip \<leftarrow> ips. length (message_bits (wire ip)))" using dvd_message_bits [of ?ws] by (simp add: comp_def)
  then have al: "numberOfBitsUsed w mod 8 = 0" using u2 by simp
  have lim: "numberOfBitsUsed w \<le> bs_limit"
    using message_codec.enc_list_bound [OF ok(1), of 32] ok(2) appends_used [OF a2] u1(1) by (simp add: bs_limit_def)
  note rs = received_stream [OF i al lim]
  show sz: "8 * length (SendBitStream w) = 32 + (\<Sum>ip \<leftarrow> ips. length (message_bits (wire ip)))" using rs(2) u2 by simp
  let ?r = "BitStream_of fresh (SendBitStream w) False"
  have bits: "bs_bits w = header_bits h @ message_codec.enc_list 32 ?ws" using a2 u1 by (simp add: appends_def)
  have at0: "BitStream_Reads.at ?r [] (header_bits h @ message_codec.enc_list 32 ?ws) []" using rs(1) [of fresh] bits by simp
  then have at': "BitStream_Reads.at ?r [] (header_bits h) (message_codec.enc_list 32 ?ws)" by (simp add: at_split)
  have s0: "skip_to 0 ?r = ?r" using at0 by (simp add: at_def skip_to_def)
  have "pos ?r 0 (header_bits h)" unfolding pos_def using at' by (intro exI [of _ "[]"] exI conjI) (auto simp: s0)
  then have "DatagramHeader_Deserialize h0 ?r = (header_image h0 h, skip_to 32 ?r)"
    using DatagramHeader_Deserialize_pos [of ?r 0 h h0] s0 hl by simp
  moreover have "BitStream_Reads.at (skip_to 32 ?r) (header_bits h) (message_codec.enc_list 32 ?ws) []" using at_skip [OF at0] hl by simp
  moreover have "numberOfBitsUsed (skip_to 32 ?r) = 8 * length (SendBitStream w)"
    using at0 rs(2) length_bs_bits [of ?r] bits length_bs_bits [of w] by (simp add: skip_to_def at_def)
  ultimately show "\<exists>r. DatagramHeader_Deserialize h0 ?r = (header_image h0 h, r) \<and>
      BitStream_Reads.at r (header_bits h) (message_codec.enc_list 32 ?ws) [] \<and> numberOfBitsUsed r = 8 * length (SendBitStream w)" by blast
qed

lemma receive_messages_at:
  assumes "\<forall>ip \<in> set ips. sendable ip" "BitStream_Reads.at bs pre (message_codec.enc_list (length pre) ips) []" "length ips < fuel"
  shows "receive_messages fuel env time bs rc = receive_list env (map (\<lambda>ip. (time, received (env_pool env) time ip)) ips) rc"
  using assms
proof (induction fuel arbitrary: ips bs pre rc)
  case (Suc fuel)
  show ?case
  proof (cases ips)
    case Nil
    then have "GetNumberOfUnreadBits bs < 32" using at_unread [OF Suc.prems(2)] by simp
    then show ?thesis using Nil by (simp add: CreateInternalPacketFromBitStream_def)
  next
    case (Cons ip rest)
    let ?e = "message_enc (length pre) ip"
    have a: "BitStream_Reads.at bs pre (?e @ message_codec.enc_list (length (pre @ ?e)) rest) []" using Suc.prems(2) Cons by simp
    have c: "CreateInternalPacketFromBitStream (env_char env) (env_length env) (env_pool env) time bs =
        (Some (received (env_pool env) time ip), skip_to (length pre + length ?e) bs)"
      by (rule CreateInternalPacket_at) (use Suc.prems(1) Cons a in \<open>auto simp: at_split\<close>)
    have "receive_messages fuel env time (skip_to (length pre + length ?e) bs) rc1 =
        receive_list env (map (\<lambda>ip. (time, received (env_pool env) time ip)) rest) rc1" for rc1
      by (rule Suc.IH [OF _ at_skip [OF a]]) (use Suc.prems Cons in auto)
    then show ?thesis using c Cons by (simp split: sum.split)
  qed
qed simp

section \<open>Ordered messages over a network\<close>

text \<open>\<open>sent c\<close> are the payloads the application sent on channel \<open>c\<close>; the message with the reliable number \<open>N\<close> is the one at place \<open>pl N\<close> of
  channel \<open>ch N\<close>.\<close>

definition ordered_plan :: "nat \<Rightarrow> (nat \<Rightarrow> nat) \<Rightarrow> (nat \<Rightarrow> nat) \<Rightarrow> (nat \<Rightarrow> u8 list list) \<Rightarrow> bool" where
  "ordered_plan n ch pl sent \<longleftrightarrow> n \<le> 1000000 \<and>
    (\<forall>N < n. ch N < NUMBER_OF_ORDERED_STREAMS \<and> pl N < 1000000 \<and> pl N < length (sent (ch N))) \<and>
    (\<forall>M < n. \<forall>N < n. M \<noteq> N \<and> ch M = ch N \<longrightarrow> pl M \<noteq> pl N)"

definition carries_plan :: "nat \<Rightarrow> (nat \<Rightarrow> nat) \<Rightarrow> (nat \<Rightarrow> nat) \<Rightarrow> (nat \<Rightarrow> u8 list list) \<Rightarrow> InternalPacket \<Rightarrow> bool" where
  "carries_plan n ch pl sent ip \<longleftrightarrow>
    (let N = unat (reliableMessageNumber ip)
     in N < n \<and> splitPacketCount ip = 0 \<and> wire_reliability (reliability ip) = ReliableOrdered \<and>
        unat (orderingChannel ip) = ch N \<and> unat (orderingIndex ip) = pl N \<and> body_bytes ip = sent (ch N) ! pl N)"

text \<open>A data datagram with a number below 50000 that carries the given packets.\<close>

definition datagram_of :: "InternalPacket list \<Rightarrow> u8 list \<Rightarrow> bool" where
  "datagram_of ips buffer \<longleftrightarrow> packable ips \<and>
    (\<exists>h bs. \<not> isACK h \<and> \<not> isNAK h \<and> unat (datagramNumber h) < 50000 \<and> bs_inv bs \<and> buffer = SendBitStream (write_datagram h ips bs))"

definition message_numbers :: "InternalPacket list \<Rightarrow> nat list" where
  "message_numbers ips = map (\<lambda>ip. unat (reliableMessageNumber ip)) ips"

definition plan_packets :: "(nat \<Rightarrow> nat) \<Rightarrow> (nat \<Rightarrow> nat) \<Rightarrow> (nat \<Rightarrow> u8 list list) \<Rightarrow> nat \<Rightarrow> InternalPacket set" where
  "plan_packets ch pl sent N = {q. carries_ordered N (ch N) (pl N) q \<and> ip_data q = sent (ch N) ! pl N}"

lemma plan_stream: "ordered_plan n ch pl sent \<Longrightarrow> stream_of n ch pl (plan_packets ch pl sent)"
  by (auto simp: ordered_plan_def stream_of_def plan_packets_def)

lemma received_plan:
  assumes "carries_plan n ch pl sent ip"
  shows "received pool time (wire ip) \<in> plan_packets ch pl sent (unat (reliableMessageNumber ip))" "unat (reliableMessageNumber ip) < n"
proof -
  let ?N = "unat (reliableMessageNumber ip)"
  have c: "?N < n" "splitPacketCount ip = 0" "wire_reliability (reliability ip) = ReliableOrdered" "unat (orderingChannel ip) = ch ?N"
    "unat (orderingIndex ip) = pl ?N" "body_bytes ip = sent (ch ?N) ! pl ?N"
    using assms by (simp_all add: carries_plan_def Let_def)
  have r: "is_reliable (reliability ip)" "is_ordered (reliability ip)" using c(3) by (cases "reliability ip"; simp add: is_reliable_def is_ordered_def)+
  have "orderingIndex ip = of_nat (pl ?N)" unfolding c(5) [symmetric] by (simp add: of_nat_unat)
  then show "received pool time (wire ip) \<in> plan_packets ch pl sent ?N" using c r
    by (simp add: plan_packets_def carries_ordered_def received_def)
  show "?N < n" by (rule c(1))
qed

lemma receive_message_acks:
  "receive_message env time ip rc = Inr rc' \<Longrightarrow> splitPacketCount ip = 0 \<Longrightarrow> rc_acks rc' = rc_acks rc"
  by (auto simp: receive_message_def deliver_packet_def Let_def split_beta split: if_splits)

lemma receive_list_acks:
  "receive_list env as rc = Inr rc' \<Longrightarrow> \<forall>a \<in> set as. splitPacketCount (snd a) = 0 \<Longrightarrow> rc_acks rc' = rc_acks rc"
  by (induction as arbitrary: rc) (auto split: sum.splits dest: receive_message_acks)

definition path_inv :: "ReceiveEnv \<Rightarrow> (nat \<Rightarrow> nat) \<Rightarrow> (nat \<Rightarrow> nat) \<Rightarrow> (nat \<Rightarrow> u8 list list) \<Rightarrow> nat set \<Rightarrow> Layer \<Rightarrow> bool" where
  "path_inv env ch pl sent A lay \<longleftrightarrow> stream_inv env ch pl (plan_packets ch pl sent) A (lay_receive lay) \<and>
    unat (expectedNextSequenceNumber (ack_cc (rc_acks (lay_receive lay)))) \<le> 50000"

lemma stream_inv_acks [simp]: "stream_inv env ch pl pk A (rc\<lparr>rc_acks := st\<rparr>) = stream_inv env ch pl pk A rc"
  by (simp add: stream_inv_def)

lemma OnGotPacket_low:
  assumes "unat n < 50000" "unat (expectedNextSequenceNumber cc) \<le> 50000"
  shows "fst (OnGotPacket n t cc) \<noteq> None" "unat (expectedNextSequenceNumber (snd (OnGotPacket n t cc))) \<le> 50000"
proof -
  let ?e = "expectedNextSequenceNumber cc"
  have s: "unat (n + 1) = unat n + 1" using assms(1) by (simp add: unat_word_ariths)
  have "unat (ucast (n - ?e) :: u32) \<le> 50000" if "CC_GreaterThan n ?e"
  proof -
    have "unat ?e \<le> unat n"
    proof (rule ccontr)
      assume "\<not> unat ?e \<le> unat n"
      then have "unat (?e - n) = unat ?e - unat n" by (intro unat_sub) (simp add: word_le_nat_alt)
      then show False using that assms(2) by (simp add: CC_GreaterThan_distance)
    qed
    moreover have "unat (ucast x :: u32) = unat x" for x :: u24
      using unat_less_2p [of x] by (simp add: unsigned_ucast_eq take_bit_nat_eq_self_iff)
    ultimately show ?thesis using assms by (simp add: unat_sub word_le_nat_alt)
  qed
  then show "fst (OnGotPacket n t cc) \<noteq> None" "unat (expectedNextSequenceNumber (snd (OnGotPacket n t cc))) \<le> 50000"
    using assms s by (auto simp: OnGotPacket_def Let_def word_less_nat_alt)
qed

lemma Handle_data_datagram:
  assumes plan: "ordered_plan n ch pl sent" and inv: "path_inv env ch pl sent A lay" and A: "A \<subseteq> {..<n}"
    and d: "datagram_of ips buffer" and c: "\<forall>ip \<in> set ips. carries_plan n ch pl sent ip"
  shows "\<exists>lay'. HandleSocketReceiveFromConnectedPlayer env now timeRead buffer lay = Inr (True, lay') \<and>
    path_inv env ch pl sent (A \<union> set (message_numbers ips)) lay'"
proof -
  let ?ws = "map wire ips" and ?pool = "env_pool env"
  obtain h bs where h: "\<not> isACK h" "\<not> isNAK h" "unat (datagramNumber h) < 50000" "bs_inv bs" "buffer = SendBitStream (write_datagram h ips bs)"
    and pk: "packable ips"
    using d by (auto simp: datagram_of_def)
  note dd = data_datagram_decoded [OF h(4,1,2) pk, folded h(5)]
  obtain r where r: "DatagramHeader_Deserialize (env_header env) (BitStream_of (env_bytes env) buffer False) = (header_image (env_header env) h, r)"
    "BitStream_Reads.at r (header_bits h) (message_codec.enc_list 32 ?ws) []" "numberOfBitsUsed r = 8 * length buffer"
    using dd(3) [of "env_header env" "env_bytes env"] by blast
  have long: "2 < length buffer" using dd(2) by linarith
  let ?hi = "header_image (env_header env) h" and ?rc = "lay_receive lay"
  have hi: "isValid ?hi" "\<not> isACK ?hi" "\<not> isNAK ?hi" "datagramNumber ?hi = datagramNumber h" using h(1,2) by (simp_all add: header_image_def)
  have e: "unat (expectedNextSequenceNumber (ack_cc (rc_acks ?rc))) \<le> 50000" using inv by (simp add: path_inv_def)
  obtain st where st: "fst (note_datagram ?hi timeRead (rc_acks ?rc)) = Some st" "unat (expectedNextSequenceNumber (ack_cc st)) \<le> 50000"
    using OnGotPacket_low [OF h(3) e, of timeRead] hi(4)
    by (auto simp: note_datagram_def Let_def split_beta SendAcknowledgementPacket_def)
  let ?as = "map (\<lambda>ip. (timeRead, received ?pool timeRead ip)) ?ws"
  have hl: "length (header_bits h) = 32" using h(1,2) by (simp add: header_bits_def)
  have lw: "length ?ws \<le> numberOfBitsUsed r"
  proof -
    have "(\<Sum>ip \<leftarrow> ips. 1) \<le> (\<Sum>ip \<leftarrow> ips. length (message_bits (wire ip)))"
      by (rule sum_list_mono) (use message_bits_min pk in \<open>fastforce simp: packable_def\<close>)
    then show ?thesis using dd(2) r(3) by (simp add: sum_list_triv)
  qed
  have rm: "receive_messages (numberOfBitsUsed r + 1) env timeRead r rc = receive_list env ?as rc" for rc
    by (rule receive_messages_at [where pre = "header_bits h"]) (use pk r(2) hl lw in \<open>auto simp: packable_def\<close>)
  have l2: "list_all2 (\<lambda>a N. snd a \<in> plan_packets ch pl sent N) ?as (message_numbers ips)"
    using c by (auto simp: message_numbers_def list_all2_map1 list_all2_map2 list_all2_same intro: received_plan(1))
  have sub: "set (message_numbers ips) \<subseteq> {..<n}" using received_plan(2) c by (auto simp: message_numbers_def)
  have si: "stream_inv env ch pl (plan_packets ch pl sent) A (?rc\<lparr>rc_acks := st\<rparr>)" using inv by (simp add: path_inv_def)
  obtain rc' where rc': "receive_list env ?as (?rc\<lparr>rc_acks := st\<rparr>) = Inr rc'"
    "stream_inv env ch pl (plan_packets ch pl sent) (A \<union> set (message_numbers ips)) rc'"
    using receive_list_stream [OF plan_stream [OF plan] si A sub l2] by blast
  have "rc_acks rc' = st"
    using receive_list_acks [OF rc'(1)] c by (auto simp: received_def carries_plan_def Let_def)
  moreover have "receive_data env timeRead ?hi r ?rc = Inr rc'"
    using st(1) unfolding receive_data_def rm rc'(1) [symmetric] by (cases "note_datagram ?hi timeRead (rc_acks ?rc)") simp
  ultimately show ?thesis using r(1) hi long rc'(2) st(2)
    by (auto simp: HandleSocketReceiveFromConnectedPlayer_def handle_data_def path_inv_def Let_def)
qed

lemma handle_all_plan:
  assumes "ordered_plan n ch pl sent" "path_inv env ch pl sent A lay" "A \<subseteq> {..<n}"
    and "list_all2 (\<lambda>d ips. datagram_of ips (snd (snd d)) \<and> (\<forall>ip \<in> set ips. carries_plan n ch pl sent ip)) ds pss"
  shows "\<exists>lay'. handle_all env ds lay = Inr lay' \<and> path_inv env ch pl sent (A \<union> set (message_numbers (concat pss))) lay'"
  using assms(4,2,3)
proof (induction ds pss arbitrary: A lay rule: list_all2_induct)
  case (Cons d ds ips pss)
  obtain lay1 where l: "HandleSocketReceiveFromConnectedPlayer env (fst d) (fst (snd d)) (snd (snd d)) lay = Inr (True, lay1)"
    "path_inv env ch pl sent (A \<union> set (message_numbers ips)) lay1"
    using Handle_data_datagram [OF assms(1) Cons.prems] Cons.hyps(1) by blast
  have "A \<union> set (message_numbers ips) \<subseteq> {..<n}" using Cons.prems(2) Cons.hyps(1) received_plan(2) by (auto simp: message_numbers_def)
  from Cons.IH [OF l(2) this] show ?case using l(1) by (auto simp: message_numbers_def Un_assoc)
qed (simp add: message_numbers_def)

lemma plan_output:
  assumes "ordered_plan n ch pl sent" "stream_inv env ch pl (plan_packets ch pl sent) A rc" "A \<subseteq> {..<n}" "c < NUMBER_OF_ORDERED_STREAMS"
  shows "map ip_data (filter (on_stream c) (outputQueue rc)) = take (first_missing (stream_numbers ch pl A c)) (sent c)"
proof -
  let ?o = "filter (on_stream c) (outputQueue rc)" and ?k = "first_missing (stream_numbers ch pl A c)"
  have o: "map place ?o = [0..<?k]" by (rule stream_inv_output [OF plan_stream [OF assms(1)] assms(2-4)])
  have len: "length ?o = ?k" using arg_cong [OF o, of length] by simp
  have i: "ip_data (?o ! i) = sent c ! i \<and> i < length (sent c)" if "i < ?k" for i
  proof -
    have "?o ! i \<in> set ?o" using that len by (intro nth_mem) simp
    then have "?o ! i \<in> set (outputQueue rc)" "on_stream c (?o ! i)" by auto
    moreover have "set (outputQueue rc) \<subseteq> \<Union> (plan_packets ch pl sent ` A)" using assms(2) by (simp add: stream_inv_def)
    ultimately obtain N where N: "N \<in> A" "?o ! i \<in> plan_packets ch pl sent N" "unat (orderingChannel (?o ! i)) = c" by (auto simp: on_stream_def)
    have "N < n" using N(1) assms(3) by auto
    then have p: "pl N < length (sent (ch N))" "pl N < 16777216" using assms(1) by (auto simp: ordered_plan_def)
    have "place (?o ! i) = i" using arg_cong [OF o, of "\<lambda>xs. xs ! i"] that len by simp
    then show ?thesis using N p by (auto simp: plan_packets_def carries_ordered_def unat_of_nat_id)
  qed
  have "?k \<le> length (sent c)" using i [of "?k - 1"] by (cases ?k) auto
  then show ?thesis using len i by (intro nth_equalityI) simp_all
qed

text \<open>End to end over bytes: the datagrams of a plan, lost, repeated and reordered at will, give the application on each channel
  the payloads sent, in order, up to the first one of which no copy arrived.\<close>

lemma wire_delivery:
  assumes "ordered_plan n ch pl sent"
    and "list_all2 (\<lambda>d ips. datagram_of ips (snd (snd d)) \<and> (\<forall>ip \<in> set ips. carries_plan n ch pl sent ip)) ds pss"
  shows "\<exists>lay. handle_all env ds (Layer_new now w mtu bs) = Inr lay \<and>
    (\<forall>c < NUMBER_OF_ORDERED_STREAMS. map ip_data (filter (on_stream c) (outputQueue (lay_receive lay))) =
       take (first_missing (stream_numbers ch pl (set (message_numbers (concat pss))) c)) (sent c))"
proof -
  have "path_inv env ch pl sent {} (Layer_new now w mtu bs)"
    using Receiver_new_inv by (simp add: path_inv_def Layer_new_def Receiver_new_def CC_Init_def)
  from handle_all_plan [OF assms(1) this _ assms(2)]
  obtain lay where lay: "handle_all env ds (Layer_new now w mtu bs) = Inr lay"
    "path_inv env ch pl sent (set (message_numbers (concat pss))) lay" by auto
  have "set (message_numbers (concat pss)) \<subseteq> {..<n}"
  proof -
    have "\<forall>ips \<in> set pss. \<forall>ip \<in> set ips. carries_plan n ch pl sent ip" using assms(2) by (induction rule: list_all2_induct) auto
    then show ?thesis by (auto simp: message_numbers_def intro: received_plan(2))
  qed
  then show ?thesis using lay plan_output [OF assms(1)] by (auto simp: path_inv_def)
qed

end
