(* ===== verification/Transmission_Laws.thy ===== *)
theory Transmission_Laws
  imports Datagram_Path Send_Laws
begin

text \<open>
  What an update puts on the wire.  The loops of the transmission part of \<^verbatim>\<open>UpdateInternal\<close> end, every datagram fits the MTU, every packet
  pushed is in exactly one datagram, and the message numbers given out are consecutive: message number \<open>N\<close> is entry \<open>N\<close> of a
  log of what left the outgoing queue.
\<close>

section \<open>Packets ready to be written\<close>

text \<open>What of a packet reaches the receiver, its number apart.\<close>

definition content ::
    "InternalPacket \<Rightarrow> Reliability \<times> nat \<times> u24 \<times> u24 \<times> u8 \<times> u32 \<times> u16 \<times> u32 \<times> u8 list" where
  "content ip = (reliability ip, dataBitLength ip, sequencingIndex ip, orderingIndex ip, orderingChannel ip, splitPacketCount ip,
     splitPacketId ip, splitPacketIndex ip, body_bytes ip)"

definition signature :: "InternalPacket \<Rightarrow> _" where
  "signature ip = (headerLength ip, reliableMessageNumber ip, content ip)"

definition bits_of :: "InternalPacket \<Rightarrow> nat" where
  "bits_of ip = BYTES_TO_BITS (BITS_TO_BYTES (dataBitLength ip) + BITS_TO_BYTES (headerLength ip))"

definition ready :: "InternalPacket \<Rightarrow> bool" where
  "ready ip \<longleftrightarrow> headerLength ip = GetMessageHeaderLengthBits ip \<and> sendable (wire ip)"

text \<open>A reliable packet has a number under which the log holds its content; \<open>s\<close> says that only reliable messages are sent.\<close>

definition logged :: "bool \<Rightarrow> InternalPacket list \<Rightarrow> InternalPacket \<Rightarrow> bool" where
  "logged s lg ip \<longleftrightarrow>
    (s \<or> is_reliable (reliability ip) \<longrightarrow> (\<exists>N < length lg. reliableMessageNumber ip = of_nat N \<and> content ip = content (lg ! N)))"

lemma header_length_cong:
  "content a = content b \<Longrightarrow> GetMessageHeaderLengthBits a = GetMessageHeaderLengthBits b"
  by (simp add: content_def GetMessageHeaderLengthBits_def)

lemma sendable_cong: "content a = content b \<Longrightarrow> sendable (wire a) = sendable (wire b)"
  by (simp add: content_def sendable_def)

lemma signature_cong:
  assumes "signature a = signature b"
  shows "ready a = ready b" "bits_of a = bits_of b" "logged s lg a = logged s lg b"
proof -
  have s: "headerLength a = headerLength b" "reliableMessageNumber a = reliableMessageNumber b" "content a = content b"
    using assms by (simp_all add: signature_def)
  show "ready a = ready b" unfolding ready_def header_length_cong [OF s(3)] sendable_cong [OF s(3)] s(1) ..
  have "dataBitLength a = dataBitLength b" "reliability a = reliability b" using s(3) by (simp_all add: content_def)
  then show "bits_of a = bits_of b" "logged s lg a = logged s lg b" using s by (simp_all add: bits_of_def logged_def)
qed

lemma header_bits_8: "8 dvd GetMessageHeaderLengthBits ip" "GetMessageHeaderLengthBits ip \<le> 184"
  by (simp_all add: GetMessageHeaderLengthBits_def)

lemma ready_bits:
  assumes "ready ip"
  shows "bits_of ip = length (message_bits (wire ip))" "32 \<le> bits_of ip" "bits_of ip \<le> 11376" "8 dvd bits_of ip"
    and "headerLength ip + dataBitLength ip \<le> bits_of ip" "bits_of ip < headerLength ip + dataBitLength ip + 8"
proof -
  have s: "sendable (wire ip)" and h: "headerLength ip = GetMessageHeaderLengthBits ip" using assms by (simp_all add: ready_def)
  have d: "0 < dataBitLength ip" "dataBitLength ip < 65535" "length (body_bytes (wire ip)) = BITS_TO_BYTES (dataBitLength ip)"
    using s sendable_facts(2) [OF s] by (simp_all add: sendable_def)
  have g: "GetMessageHeaderLengthBits (wire ip) = GetMessageHeaderLengthBits ip" by (simp add: GetMessageHeaderLengthBits_def)
  have b: "BITS_TO_BYTES (dataBitLength ip) = (dataBitLength ip + 7) div 8" using d(2) by (intro BITS_TO_BYTES_small) simp
  have hb: "BITS_TO_BYTES (headerLength ip) = headerLength ip div 8" "8 * (headerLength ip div 8) = headerLength ip"
    using header_bits_8 [of ip] h BITS_TO_BYTES_small [of "headerLength ip"] by auto
  have small: "(BITS_TO_BYTES (dataBitLength ip) + BITS_TO_BYTES (headerLength ip)) * 8 < 4294967296"
    using b hb d(2) header_bits_8(2) [of ip] h by simp
  have e: "bits_of ip = 8 * BITS_TO_BYTES (dataBitLength ip) + headerLength ip"
    using small hb by (simp add: bits_of_def BYTES_TO_BITS_def algebra_simps)
  then show eq: "bits_of ip = length (message_bits (wire ip))" using length_message_bits [of "wire ip"] d(3) g h by simp
  show "32 \<le> bits_of ip" "bits_of ip \<le> 11376" unfolding eq using message_bits_min [OF s] message_bits_bound [OF s] by simp_all
  show "8 dvd bits_of ip" using e header_bits_8(1) [of ip] h by simp
  show "headerLength ip + dataBitLength ip \<le> bits_of ip" "bits_of ip < headerLength ip + dataBitLength ip + 8" using e b by simp_all
qed

section \<open>The datagrams of an update\<close>

primrec ends :: "nat \<Rightarrow> 'a list list \<Rightarrow> nat list" where
  "ends n [] = []"
| "ends n (d # ds) = (n + length d) # ends (n + length d) ds"

lemma ends_append: "ends n (ds @ [d]) = ends n ds @ [n + length (concat ds) + length d]"
  by (induction ds arbitrary: n) (simp_all add: add.assoc)

lemma slices_ends: "slices (length pre) (ends (length pre) ds) (pre @ concat ds @ rest) = ds"
proof (induction ds arbitrary: pre)
  case (Cons d ds)
  show ?case using Cons.IH [of "pre @ d"] by simp
qed simp

lemma slices_map: "slices n bs (map f xs) = map (map f) (slices n bs xs)"
  by (induction bs arbitrary: n) (simp_all add: take_map drop_map)

abbreviation tx_mem :: "Transmitter \<Rightarrow> ptr \<Rightarrow> InternalPacket" where
  "tx_mem tx \<equiv> rs_mem (tx_resend tx)"

definition datagram_bits :: "(ptr \<Rightarrow> InternalPacket) \<Rightarrow> ptr list \<Rightarrow> nat" where
  "datagram_bits mem ps = (\<Sum>p \<leftarrow> ps. bits_of (mem p))"

text \<open>The finished datagrams \<open>dss\<close> and the one being filled.\<close>

definition packed :: "nat \<Rightarrow> ptr list list \<Rightarrow> ptr list \<Rightarrow> Transmitter \<Rightarrow> bool" where
  "packed M dss cur tx \<longleftrightarrow> packetsToSendThisUpdate tx = concat dss @ cur \<and>
    packetsToSendThisUpdateDatagramBoundaries tx = ends 0 dss \<and> datagramSizeSoFar tx = datagram_bits (tx_mem tx) cur \<and>
    datagram_bits (tx_mem tx) cur \<le> M \<and> (\<forall>d \<in> set dss. d \<noteq> [] \<and> datagram_bits (tx_mem tx) d \<le> M)"

definition queue_fresh :: "ptr set \<Rightarrow> SendQueue \<Rightarrow> bool" where
  "queue_fresh A q \<longleftrightarrow> (\<forall>p. count (queued q) p \<le> 1) \<and> set_mset (queued q) \<inter> A = {} \<and>
    (\<forall>p \<in># queued q. ip_data (sq_mem q p) \<noteq> [] \<longrightarrow> sendable (wire (sq_mem q p)))"

definition lossless :: "SendQueue \<Rightarrow> bool" where
  "lossless q \<longleftrightarrow> (\<forall>p \<in># queued q. ip_data (sq_mem q p) \<noteq> [] \<and> is_reliable (reliability (sq_mem q p)))"

definition used :: "ptr list \<Rightarrow> Transmitter \<Rightarrow> ptr set" where
  "used xs tx = set xs \<union> set (packetsToSendThisUpdate tx)"

definition tx_inv :: "bool \<Rightarrow> nat \<Rightarrow> nat \<Rightarrow> InternalPacket list \<Rightarrow> ptr list \<Rightarrow> ptr list list \<Rightarrow> ptr list \<Rightarrow> Transmitter \<Rightarrow> bool" where
  "tx_inv s B M lg xs dss cur tx \<longleftrightarrow> resend_inv (tx_resend tx) xs \<and> sendReliableMessageNumberIndex (tx_resend tx) = of_nat (length lg) \<and>
    (\<forall>p \<in> used xs tx. ready (tx_mem tx p) \<and> logged s lg (tx_mem tx p)) \<and> sq_inv B (tx_queue tx) \<and>
    queue_fresh (used xs tx) (tx_queue tx) \<and> (s \<longrightarrow> lossless (tx_queue tx)) \<and> packed M dss cur tx \<and> max_bits_of tx = M \<and> M \<le> 11200 \<and> 8 dvd M"

lemma datagram_bits_cong:
  "(\<And>p. p \<in> set ps \<Longrightarrow> signature (mem' p) = signature (mem p)) \<Longrightarrow> datagram_bits mem' ps = datagram_bits mem ps"
  unfolding datagram_bits_def by (metis (no_types, lifting) map_cong signature_cong(2))

lemma datagram_bits_dvd: "(\<And>p. p \<in> set ps \<Longrightarrow> ready (mem p)) \<Longrightarrow> 8 dvd datagram_bits mem ps"
  by (induction ps) (simp_all add: datagram_bits_def ready_bits(4))

lemma datagram_bits_zero: "(\<And>p. p \<in> set ps \<Longrightarrow> ready (mem p)) \<Longrightarrow> datagram_bits mem ps = 0 \<longleftrightarrow> ps = []"
  using ready_bits(2) by (cases ps) (fastforce simp: datagram_bits_def)+

text \<open>A change of memory that keeps the signature of what is used keeps the datagrams.\<close>

lemma packed_cong:
  assumes "packed M dss cur tx" "packetsToSendThisUpdate tx' = packetsToSendThisUpdate tx"
    and "packetsToSendThisUpdateDatagramBoundaries tx' = packetsToSendThisUpdateDatagramBoundaries tx" "datagramSizeSoFar tx' = datagramSizeSoFar tx"
    and "\<And>p. p \<in> set (packetsToSendThisUpdate tx) \<Longrightarrow> signature (tx_mem tx' p) = signature (tx_mem tx p)"
  shows "packed M dss cur tx'"
proof -
  have "datagram_bits (tx_mem tx') cur = datagram_bits (tx_mem tx) cur" "\<forall>d \<in> set dss. datagram_bits (tx_mem tx') d = datagram_bits (tx_mem tx) d"
    using assms(1,5) by (auto simp: packed_def intro!: datagram_bits_cong)
  then show ?thesis using assms(1-4) by (simp add: packed_def)
qed

lemma PushDatagram_packed:
  assumes "packed M dss cur tx" "\<And>p. p \<in> set cur \<Longrightarrow> ready (tx_mem tx p)"
  shows "\<exists>dss'. packed M dss' [] (PushDatagram tx)"
proof (cases "cur = []")
  case True
  then have "PushDatagram tx = tx" using assms(1) by (simp add: PushDatagram_def packed_def datagram_bits_def)
  then show ?thesis using assms(1) True by auto
next
  case False
  then have "datagramSizeSoFar tx > 0" using assms datagram_bits_zero [of cur "tx_mem tx"] by (auto simp: packed_def)
  then have "packed M (dss @ [cur]) [] (PushDatagram tx)"
    using assms(1) False by (auto simp: packed_def PushDatagram_def ends_append datagram_bits_def)
  then show ?thesis by blast
qed

lemma PushDatagram_frame [simp]:
  "tx_queue (PushDatagram tx) = tx_queue tx" "tx_window (PushDatagram tx) = tx_window tx" "tx_cc (PushDatagram tx) = tx_cc tx"
  "tx_bps (PushDatagram tx) = tx_bps tx" "packetsToSendThisUpdate (PushDatagram tx) = packetsToSendThisUpdate tx"
  "packetsToDeallocThisUpdate (PushDatagram tx) = packetsToDeallocThisUpdate tx"
  by (simp_all add: PushDatagram_def)

lemma cur_used: "packed M dss cur tx \<Longrightarrow> set cur \<subseteq> used xs tx"
  by (auto simp: packed_def used_def)

lemma PushDatagram_inv:
  assumes "tx_inv s B M lg xs dss cur tx"
  shows "\<exists>dss'. tx_inv s B M lg xs dss' [] (PushDatagram tx)"
proof -
  have u: "used xs (PushDatagram tx) = used xs tx" "max_bits_of (PushDatagram tx) = max_bits_of tx" by (simp_all add: used_def max_bits_of_def)
  have "ready (tx_mem tx p)" if "p \<in> set cur" for p using assms that cur_used [of M dss cur tx xs] by (auto simp: tx_inv_def)
  then obtain dss' where "packed M dss' [] (PushDatagram tx)" using PushDatagram_packed [of M dss cur tx] assms by (auto simp: tx_inv_def)
  then show ?thesis using assms by (auto simp: tx_inv_def u)
qed

lemma PushPacket_frame [simp]:
  "tx_queue (PushPacket p b tx) = tx_queue tx" "tx_window (PushPacket p b tx) = tx_window tx" "tx_cc (PushPacket p b tx) = tx_cc tx"
  "tx_bps (PushPacket p b tx) = tx_bps tx" "packetsToSendThisUpdate (PushPacket p b tx) = packetsToSendThisUpdate tx @ [p]"
  "packetsToDeallocThisUpdate (PushPacket p b tx) = packetsToDeallocThisUpdate tx @ [\<not> b]"
  "packetsToSendThisUpdateDatagramBoundaries (PushPacket p b tx) = packetsToSendThisUpdateDatagramBoundaries tx"
  by (simp_all add: PushPacket_def Let_def)

text \<open>The size check of both loops counts bits; as everything pushed is whole bytes, it bounds the bytes.\<close>

definition too_long :: "InternalPacket \<Rightarrow> Transmitter \<Rightarrow> bool" where
  "too_long ip tx \<longleftrightarrow> w32 (datagramSizeSoFar tx + w32 (headerLength ip + dataBitLength ip)) > max_bits_of tx"

lemma whole_bytes_fit:
  fixes s h M c :: nat
  assumes "s + h \<le> M" "8 dvd s" "8 dvd M" "8 dvd c" "c < h + 8"
  shows "s + c \<le> M"
proof -
  obtain a b e where "s = 8 * a" "M = 8 * b" "c = 8 * e" using assms(2-4) by (auto elim!: dvdE)
  moreover from this have "8 * a + 8 * e < 8 * b + 8" using assms(1,5) by linarith
  then have "(a + e) * 8 < (b + 1) * 8" by (simp add: algebra_simps)
  then have "a + e < b + 1" unfolding mult_less_cancel2 by blast
  ultimately show ?thesis by simp
qed

lemma PushPacket_packed:
  assumes pk: "packed M dss cur tx" and M: "max_bits_of tx = M" "M \<le> 11200" "8 dvd M" and r: "ready (tx_mem tx p)"
    and rs: "\<And>p. p \<in> set cur \<Longrightarrow> ready (tx_mem tx p)" and fit: "\<not> too_long (tx_mem tx p) tx"
  shows "packed M dss (cur @ [p]) (PushPacket p b tx)"
proof -
  let ?ip = "tx_mem tx p" and ?s = "datagramSizeSoFar tx"
  note rb = ready_bits [OF r]
  have s: "?s = datagram_bits (tx_mem tx) cur" "?s \<le> M" using pk by (simp_all add: packed_def)
  have d: "8 dvd ?s" unfolding s(1) by (rule datagram_bits_dvd) (rule rs)
  have "?s + (headerLength ?ip + dataBitLength ?ip) \<le> M"
    using fit M rb s by (simp add: too_long_def not_less)
  then have fits: "?s + bits_of ?ip \<le> M" using whole_bytes_fit d M(3) rb(4,6) by blast
  have "datagramSizeSoFar (PushPacket p b' tx) = ?s + bits_of ?ip" for b'
    using fits M(2) by (simp add: PushPacket_def Let_def bits_of_def)
  then show ?thesis using pk fits s by (simp add: packed_def datagram_bits_def)
qed

section \<open>Resending\<close>

text \<open>What packing leaves alone, and that what is pushed stays pushed under its number.\<close>

definition kept :: "Transmitter \<Rightarrow> Transmitter \<Rightarrow> bool" where
  "kept tx tx' \<longleftrightarrow> sw_history (tx_window tx') = sw_history (tx_window tx) \<and>
    nextDatagramSequenceNumber (tx_cc tx') = nextDatagramSequenceNumber (tx_cc tx) \<and>
    MAXIMUM_MTU_INCLUDING_UDP_HEADER (tx_cc tx') = MAXIMUM_MTU_INCLUDING_UDP_HEADER (tx_cc tx) \<and>
    estimatedRTT (tx_cc tx') = estimatedRTT (tx_cc tx) \<and> deviationRtt (tx_cc tx') = deviationRtt (tx_cc tx) \<and>
    orderedWriteIndex (tx_queue tx') = orderedWriteIndex (tx_queue tx) \<and>
    set (packetsToSendThisUpdate tx) \<subseteq> set (packetsToSendThisUpdate tx') \<and>
    (\<forall>p \<in> set (packetsToSendThisUpdate tx). reliableMessageNumber (tx_mem tx' p) = reliableMessageNumber (tx_mem tx p))"

definition rto_ok :: "Transmitter \<Rightarrow> bool" where
  "rto_ok tx \<longleftrightarrow> (\<exists>t. GetRTOForRetransmission (tx_cc tx) = Some t \<and> 30000 \<le> t \<and> t \<le> 2000000)"

lemma kept_refl [simp]: "kept tx tx"
  by (simp add: kept_def)

lemma kept_trans: "kept a b \<Longrightarrow> kept b c \<Longrightarrow> kept a c"
  by (auto simp: kept_def)

lemma kept_facts: "kept tx tx' \<Longrightarrow> rto_ok tx' = rto_ok tx" "kept tx tx' \<Longrightarrow> max_bits_of tx' = max_bits_of tx"
  by (simp_all add: kept_def rto_ok_def GetRTOForRetransmission_def max_bits_of_def GetMTU_def)

lemma OnResend_frame [simp]:
  "nextDatagramSequenceNumber (OnResend cc) = nextDatagramSequenceNumber cc"
  "MAXIMUM_MTU_INCLUDING_UDP_HEADER (OnResend cc) = MAXIMUM_MTU_INCLUDING_UDP_HEADER cc"
  "estimatedRTT (OnResend cc) = estimatedRTT cc" "deviationRtt (OnResend cc) = deviationRtt cc"
  by (simp_all add: OnResend_def Let_def)

lemma OnResend_rto: "GetRTOForRetransmission (OnResend cc) = GetRTOForRetransmission cc"
  by (simp add: GetRTOForRetransmission_def)

lemma retransmission_mem:
  assumes "ring_head (rs_ring st) = Some p"
  shows "rs_mem (retransmission (\<lambda>_. rto) time st) =
    (rs_mem st)(p := (rs_mem st p)\<lparr>timesSent := timesSent (rs_mem st p) + 1, retransmissionTime := rto, nextActionTime := rto + time\<rparr>)"
    and "sendReliableMessageNumberIndex (retransmission (\<lambda>_. rto) time st) = sendReliableMessageNumberIndex st"
  using assms by (simp_all add: retransmission_def PopListHead_def RemoveFromList_def InsertPacketIntoResendList_def AddToListTail_def Let_def)

text \<open>A time set to at most two seconds from now is not due now.\<close>

lemma not_due:
  assumes "30000 \<le> t" "t \<le> 2000000"
  shows "\<not> due time (t + time)"
proof -
  have t: "30000 \<le> unat t" "unat t \<le> 2000000" using assms by (simp_all add: word_le_nat_alt)
  then have "unat (- t) = 18446744073709551616 - unat t" using unat_sub_wrap [of 0 t] by (auto simp: word_le_nat_alt)
  moreover have "time - (t + time) = - t" by simp
  moreover have "(- 1 :: u64) div 2 = 9223372036854775807" by simp
  ultimately show ?thesis using t by (simp add: due_def word_less_nat_alt)
qed

lemma resend_head: "resend_inv st xs \<Longrightarrow> ring_head (rs_ring st) = (case xs of [] \<Rightarrow> None | p # _ \<Rightarrow> Some p)"
  by (cases xs) (simp_all add: resend_inv_def ring_rep_def)

lemma resend_packet_inv:
  assumes inv: "tx_inv s B M lg (p # xs) dss cur tx" and fit: "\<not> too_long (tx_mem tx p) tx" and rto: "rto_ok tx"
  shows "\<exists>tx'. resend_packet env p tx = Inr tx' \<and> tx_inv s B M lg (xs @ [p]) dss (cur @ [p]) tx' \<and> kept tx tx' \<and> tx_queue tx' = tx_queue tx \<and>
    \<not> due (te_time env) (nextActionTime (tx_mem tx' p)) \<and> (\<forall>q. q \<noteq> p \<longrightarrow> tx_mem tx' q = tx_mem tx q)"
proof -
  obtain t where t: "GetRTOForRetransmission (tx_cc tx) = Some t" "30000 \<le> t" "t \<le> 2000000" using rto by (auto simp: rto_ok_def)
  let ?st = "tx_resend tx" and ?pp = "PushPacket p True tx"
  let ?st' = "retransmission (\<lambda>_. t) (te_time env) ?st"
  define tx' where "tx' = (set_resend ?st' ?pp)\<lparr>tx_cc := OnResend (tx_cc tx)\<rparr>"
  have e: "resend_packet env p tx = Inr tx'" using t(1) by (simp add: resend_packet_def OnResend_rto tx'_def Let_def)
  have ri: "resend_inv ?st (p # xs)" using inv by (simp add: tx_inv_def)
  have hd: "ring_head (rs_ring ?st) = Some p" using resend_head [OF ri] by simp
  note m = retransmission_mem [OF hd, of t "te_time env"]
  have f: "tx_resend tx' = ?st'" "tx_queue tx' = tx_queue tx" "packetsToSendThisUpdate tx' = packetsToSendThisUpdate tx @ [p]"
    by (simp_all add: tx'_def set_resend_def)
  have k: "kept tx tx'" by (auto simp: kept_def tx'_def set_resend_def m)
  have sg: "signature (tx_mem tx' q) = signature (tx_mem tx q)" for q by (simp add: f m signature_def content_def body_bytes_def)
  have u: "used (xs @ [p]) tx' = used (p # xs) tx" by (auto simp: used_def f)
  have pi: "p \<in> used (p # xs) tx" by (simp add: used_def)
  have rd: "ready (tx_mem tx q) \<and> logged s lg (tx_mem tx q)" if "q \<in> used (p # xs) tx" for q using inv that by (simp add: tx_inv_def)
  have pk: "packed M dss (cur @ [p]) ?pp"
    by (rule PushPacket_packed [OF _ _ _ _ _ _ fit]) (use inv rd pi cur_used [of M dss cur tx "p # xs"] in \<open>auto simp: tx_inv_def\<close>)
  have "packed M dss (cur @ [p]) tx'"
    by (rule packed_cong [OF pk]) (use sg in \<open>simp_all add: tx'_def set_resend_def\<close>)
  moreover have "resend_inv (tx_resend tx') (xs @ [p])" unfolding f by (rule retransmission_inv [OF ri])
  moreover have "ready (tx_mem tx' q) \<and> logged s lg (tx_mem tx' q)" if "q \<in> used (p # xs) tx" for q
    using rd [OF that] signature_cong(1,3) [OF sg [of q]] by simp
  moreover have "sendReliableMessageNumberIndex (tx_resend tx') = of_nat (length lg)" using inv by (simp add: tx_inv_def f m)
  ultimately have "tx_inv s B M lg (xs @ [p]) dss (cur @ [p]) tx'"
    using inv kept_facts(2) [OF k] by (simp add: tx_inv_def u f(2))
  moreover have "\<not> due (te_time env) (nextActionTime (tx_mem tx' p))" using not_due [OF t(2,3)] by (simp add: f m)
  moreover have "tx_mem tx' q = tx_mem tx q" if "q \<noteq> p" for q using that by (simp add: f m)
  ultimately show ?thesis using e k f(2) by blast
qed

definition due_count :: "TransmitEnv \<Rightarrow> Transmitter \<Rightarrow> ptr list \<Rightarrow> nat" where
  "due_count env tx xs = length (filter (\<lambda>p. due (te_time env) (nextActionTime (tx_mem tx p))) xs)"

lemma due_count_resent:
  assumes "due (te_time env) (nextActionTime (tx_mem tx p))" "\<not> due (te_time env) (nextActionTime (tx_mem tx' p))"
    and "\<forall>q. q \<noteq> p \<longrightarrow> tx_mem tx' q = tx_mem tx q" "p \<notin> set xs"
  shows "due_count env tx (p # xs) = Suc (due_count env tx' (xs @ [p]))"
proof -
  have "filter (\<lambda>q. due (te_time env) (nextActionTime (tx_mem tx' q))) xs = filter (\<lambda>q. due (te_time env) (nextActionTime (tx_mem tx q))) xs"
    by (rule filter_cong [OF refl]) (use assms(3,4) in auto)
  then show ?thesis using assms(1,2) by (simp add: due_count_def)
qed

lemma fill_resend_inv:
  assumes "tx_inv s B M lg xs dss cur tx" "rto_ok tx" "xs = [] \<longrightarrow> cur = []" "due_count env tx xs < fuel"
  shows "\<exists>b tx' xs' dss'. fill_resend fuel env b0 tx = Inr (b, tx') \<and> tx_inv s B M lg xs' dss' [] tx' \<and> kept tx tx' \<and> tx_queue tx' = tx_queue tx \<and>
    mset xs' = mset xs \<and> due_count env tx' xs' \<le> due_count env tx xs \<and> (b \<longrightarrow> b0 \<or> due_count env tx' xs' < due_count env tx xs)"
  using assms
proof (induction fuel arbitrary: b0 tx xs cur)
  case (Suc fuel)
  have ri: "resend_inv (tx_resend tx) xs" using Suc.prems(1) by (simp add: tx_inv_def)
  have pd: "\<exists>tx' dss'. tx' = PushDatagram tx \<and> tx_inv s B M lg xs dss' [] tx' \<and> kept tx tx' \<and> tx_queue tx' = tx_queue tx \<and>
      due_count env tx' xs = due_count env tx xs"
    using PushDatagram_inv [OF Suc.prems(1)] by (auto simp: kept_def due_count_def)
  show ?case
  proof (cases xs)
    case Nil
    then have "fill_resend (Suc fuel) env b0 tx = Inr (b0, tx)" using resend_head [OF ri] by simp
    then show ?thesis using Suc.prems(1,3) Nil kept_refl by blast
  next
    case (Cons p ys)
    let ?ip = "tx_mem tx p"
    have hd: "ring_head (rs_ring (tx_resend tx)) = Some p" using resend_head [OF ri] Cons by simp
    show ?thesis
    proof (cases "due (te_time env) (nextActionTime ?ip) \<and> \<not> too_long ?ip tx")
      case False
      then have "fill_resend (Suc fuel) env b0 tx = Inr (b0, PushDatagram tx)" using hd by (auto simp: too_long_def Let_def)
      then show ?thesis using pd by (metis order_refl)
    next
      case True
      obtain tx1 where tx1: "resend_packet env p tx = Inr tx1" "tx_inv s B M lg (ys @ [p]) dss (cur @ [p]) tx1" "kept tx tx1" "tx_queue tx1 = tx_queue tx"
          "\<not> due (te_time env) (nextActionTime (tx_mem tx1 p))" "\<forall>q. q \<noteq> p \<longrightarrow> tx_mem tx1 q = tx_mem tx q"
        using resend_packet_inv [of s B M lg p ys dss cur tx env] Suc.prems(1,2) Cons True by blast
      have np: "p \<notin> set ys" using ri Cons by (auto simp: resend_inv_def ring_rep_def)
      have dc: "due_count env tx xs = Suc (due_count env tx1 (ys @ [p]))"
        using due_count_resent [OF _ tx1(5,6) np] True Cons by simp
      have r1: "rto_ok tx1" using kept_facts(1) [OF tx1(3)] Suc.prems(2) by simp
      have "due_count env tx1 (ys @ [p]) < fuel" using dc Suc.prems(4) by simp
      from Suc.IH [OF tx1(2) r1 _ this, of True] obtain b tx' xs' dss' where
        r: "fill_resend fuel env True tx1 = Inr (b, tx')" "tx_inv s B M lg xs' dss' [] tx'" "kept tx1 tx'" "tx_queue tx' = tx_queue tx1"
          "mset xs' = mset (ys @ [p])" "due_count env tx' xs' \<le> due_count env tx1 (ys @ [p])"
        by auto
      have "fill_resend (Suc fuel) env b0 tx = Inr (b, tx')" using hd True tx1(1) r(1) by (simp add: too_long_def Let_def)
      moreover have "mset xs' = mset xs" using r(5) Cons by simp
      ultimately show ?thesis using r(2,4,6) tx1(4) dc kept_trans [OF tx1(3) r(3)]
        by (intro exI [of _ b] exI [of _ tx'] exI [of _ xs'] exI [of _ dss']) simp
    qed
  qed
qed simp

lemma resend_loop_inv:
  assumes "tx_inv s B M lg xs dss [] tx" "rto_ok tx" "due_count env tx xs < fuel"
  shows "\<exists>tx' xs' dss'. resend_loop fuel env bw tx = Inr tx' \<and> tx_inv s B M lg xs' dss' [] tx' \<and> kept tx tx' \<and> tx_queue tx' = tx_queue tx"
  using assms
proof (induction fuel arbitrary: tx xs dss)
  case (Suc fuel)
  show ?case
  proof (cases "int (BITS_TO_BYTES (allDatagramSizesSoFar tx)) < bw")
    case False
    then have "resend_loop (Suc fuel) env bw tx = Inr tx" by simp
    then show ?thesis using Suc.prems(1) kept_refl by blast
  next
    case True
    have "length xs \<le> RESEND_BUFFER_ARRAY_LENGTH" by (rule resend_inv_bound [where st = "tx_resend tx"]) (use Suc.prems(1) in \<open>simp add: tx_inv_def\<close>)
    then have "due_count env tx xs < RESEND_BUFFER_ARRAY_LENGTH + 1"
      using length_filter_le [of "\<lambda>p. due (te_time env) (nextActionTime (tx_mem tx p))" xs] unfolding due_count_def by linarith
    from fill_resend_inv [OF Suc.prems(1,2) _ this, of False] obtain b tx1 xs1 dss1 where
      f: "fill_resend (RESEND_BUFFER_ARRAY_LENGTH + 1) env False tx = Inr (b, tx1)" "tx_inv s B M lg xs1 dss1 [] tx1" "kept tx tx1"
        "tx_queue tx1 = tx_queue tx" "b \<longrightarrow> due_count env tx1 xs1 < due_count env tx xs"
      by auto
    have lp: "resend_loop (Suc fuel) env bw tx = (if b then resend_loop fuel env bw tx1 else Inr tx1)"
      using True f(1) by (simp only: resend_loop.simps if_True sum.case prod.case)
    show ?thesis
    proof (cases b)
      case True
      have "rto_ok tx1" "due_count env tx1 xs1 < fuel" using kept_facts(1) [OF f(3)] Suc.prems(2,3) f(5) True by simp_all
      from Suc.IH [OF f(2) this] show ?thesis using lp True f(3,4) kept_trans by (auto intro: kept_trans)
    next
      case False
      then show ?thesis using lp f(2-4) by auto
    qed
  qed
qed simp

section \<open>Sending for the first time\<close>

text \<open>What waits in the queue and what has a number.\<close>

definition stock :: "SendQueue \<Rightarrow> InternalPacket list \<Rightarrow> _ multiset" where
  "stock q lg = image_mset (\<lambda>p. content (sq_mem q p)) (queued q) + mset (map content lg)"

text \<open>Packets move from the queue to the log, and only those without data or reliability disappear.\<close>

definition moved :: "SendQueue \<Rightarrow> InternalPacket list \<Rightarrow> SendQueue \<Rightarrow> InternalPacket list \<Rightarrow> bool" where
  "moved q lg q' lg' \<longleftrightarrow> stock q' lg' \<subseteq># stock q lg \<and> (lossless q \<longrightarrow> lossless q' \<and> stock q' lg' = stock q lg)"

lemma moved_refl [simp]: "moved q lg q lg"
  by (simp add: moved_def)

lemma moved_trans: "moved q lg q1 lg1 \<Longrightarrow> moved q1 lg1 q2 lg2 \<Longrightarrow> moved q lg q2 lg2"
  by (auto simp: moved_def intro: subset_mset.order_trans)

text \<open>The messages with the numbers from \<open>lo\<close> up to \<open>hi\<close> are among the packets pushed.\<close>

definition carried :: "nat \<Rightarrow> nat \<Rightarrow> Transmitter \<Rightarrow> bool" where
  "carried lo hi tx \<longleftrightarrow> (\<forall>N. lo \<le> N \<and> N < hi \<longrightarrow> (\<exists>p \<in> set (packetsToSendThisUpdate tx). reliableMessageNumber (tx_mem tx p) = of_nat N))"

lemma carried_empty [simp]: "carried n n tx"
  by (auto simp: carried_def)

lemma carried_step: "carried lo mid tx \<Longrightarrow> kept tx tx' \<Longrightarrow> carried mid hi tx' \<Longrightarrow> carried lo hi tx'"
  unfolding carried_def kept_def by (metis linorder_le_less_linear subset_iff)

lemma tx_inv_same:
  assumes inv: "tx_inv s B M lg xs dss cur tx" and st: "same_accounts (tx_resend tx) (tx_resend tx')"
    "rs_ring (tx_resend tx') = rs_ring (tx_resend tx)" "sendReliableMessageNumberIndex (tx_resend tx') = sendReliableMessageNumberIndex (tx_resend tx)"
    and sg: "\<And>p. signature (tx_mem tx' p) = signature (tx_mem tx p)" and q: "tx_queue tx' = tx_queue tx" and k: "kept tx tx'"
    and pk: "packetsToSendThisUpdate tx' = packetsToSendThisUpdate tx" "datagramSizeSoFar tx' = datagramSizeSoFar tx"
      "packetsToSendThisUpdateDatagramBoundaries tx' = packetsToSendThisUpdateDatagramBoundaries tx"
  shows "tx_inv s B M lg xs dss cur tx'"
proof -
  have u: "used xs tx' = used xs tx" by (simp add: used_def pk)
  have "resend_inv (tx_resend tx') xs" by (rule resend_inv_same [OF _ st(1)]) (use inv st(2) in \<open>simp_all add: tx_inv_def resend_inv_def\<close>)
  moreover have "packed M dss cur tx'" by (rule packed_cong [of M dss cur tx]) (use inv sg pk in \<open>simp_all add: tx_inv_def\<close>)
  moreover have "ready (tx_mem tx' p) \<and> logged s lg (tx_mem tx' p)" if "p \<in> used xs tx" for p
    using inv that signature_cong(1,3) [OF sg [of p]] by (simp add: tx_inv_def)
  ultimately show ?thesis using inv st(3) kept_facts(2) [OF k] by (simp add: tx_inv_def u q)
qed

lemma PushPacket_inv:
  assumes inv: "tx_inv s B M lg xs dss cur tx" and p: "ready (tx_mem tx p)" "logged s lg (tx_mem tx p)" "p \<notin># queued (tx_queue tx)"
    and fit: "\<not> too_long (tx_mem tx p) tx"
  shows "tx_inv s B M lg xs dss (cur @ [p]) (PushPacket p b tx)"
proof -
  have u: "used xs (PushPacket p b tx) = insert p (used xs tx)" by (auto simp: used_def)
  have "packed M dss (cur @ [p]) (PushPacket p b tx)"
    by (rule PushPacket_packed [OF _ _ _ _ p(1) _ fit]) (use inv cur_used [of M dss cur tx xs] in \<open>auto simp: tx_inv_def\<close>)
  moreover have "max_bits_of (PushPacket p b tx) = max_bits_of tx" by (simp add: max_bits_of_def)
  ultimately show ?thesis using inv p by (auto simp: tx_inv_def u queue_fresh_def)
qed

lemma pop_outgoing_order [simp]: "orderedWriteIndex (pop_outgoing q) = orderedWriteIndex q"
  by (simp add: pop_outgoing_def Let_def)

lemma queued_pop:
  assumes "sq_inv B q" "Heap_Size (outgoingPacketBuffer q) > 0"
  shows "queued q = add_mset (Heap_Peek 0 (outgoingPacketBuffer q)) (queued (pop_outgoing q))"
    and "Heap_Size (outgoingPacketBuffer q) = Suc (Heap_Size (outgoingPacketBuffer (pop_outgoing q)))"
    and "sq_mem (pop_outgoing q) = sq_mem q"
  using pop_outgoing_facts(1) [OF assms] heap_size_elems [of "outgoingPacketBuffer q"] heap_size_elems [of "outgoingPacketBuffer (pop_outgoing q)"]
  by (simp_all add: queued_def pop_outgoing_def Let_def)

lemma pop_inv:
  assumes inv: "tx_inv s B M lg xs dss cur tx" and ne: "Heap_Size (outgoingPacketBuffer (tx_queue tx)) > 0"
  defines "p \<equiv> Heap_Peek 0 (outgoingPacketBuffer (tx_queue tx))" and "tx' \<equiv> tx\<lparr>tx_queue := pop_outgoing (tx_queue tx)\<rparr>"
  shows "tx_inv s B M lg xs dss cur tx'" "p \<notin># queued (tx_queue tx')" "p \<notin> used xs tx"
    and "stock (tx_queue tx) lg = add_mset (content (sq_mem (tx_queue tx) p)) (stock (tx_queue tx') lg)"
    and "lossless (tx_queue tx) \<Longrightarrow> lossless (tx_queue tx') \<and> ip_data (sq_mem (tx_queue tx) p) \<noteq> [] \<and> is_reliable (reliability (sq_mem (tx_queue tx) p))"
proof -
  let ?q = "tx_queue tx"
  have q: "sq_inv B ?q" "queue_fresh (used xs tx) ?q" using inv by (simp_all add: tx_inv_def)
  note qp = queued_pop [OF q(1) ne, folded p_def]
  have "count (queued ?q) p \<le> 1" using q(2) by (simp add: queue_fresh_def)
  then have n: "p \<notin># queued (pop_outgoing ?q)" using qp(1) by (simp add: not_in_iff)
  then show "p \<notin># queued (tx_queue tx')" by (simp add: tx'_def)
  show "p \<notin> used xs tx" using q(2) qp(1) by (auto simp: queue_fresh_def)
  show "stock ?q lg = add_mset (content (sq_mem ?q p)) (stock (tx_queue tx') lg)" using qp(1,3) by (simp add: stock_def tx'_def)
  show ll: "lossless ?q \<Longrightarrow> lossless (tx_queue tx') \<and> ip_data (sq_mem ?q p) \<noteq> [] \<and> is_reliable (reliability (sq_mem ?q p))"
    using qp(1,3) by (auto simp: lossless_def tx'_def)
  have f: "tx_window tx' = tx_window tx" "tx_cc tx' = tx_cc tx" "packetsToSendThisUpdate tx' = packetsToSendThisUpdate tx"
    "used xs tx' = used xs tx" "max_bits_of tx' = max_bits_of tx" "packed M dss cur tx' = packed M dss cur tx"
    by (simp_all add: tx'_def used_def max_bits_of_def packed_def)
  have "queue_fresh (used xs tx) (pop_outgoing ?q)"
    unfolding queue_fresh_def qp(3)
  proof (intro conjI allI)
    show "count (queued (pop_outgoing ?q)) r \<le> 1" for r
    proof -
      have "count (queued (pop_outgoing ?q)) r \<le> count (queued ?q) r" unfolding qp(1) by simp
      also have "\<dots> \<le> 1" using q(2) by (simp add: queue_fresh_def)
      finally show ?thesis .
    qed
  qed (use q(2) qp(1) in \<open>auto simp: queue_fresh_def\<close>)
  then show "tx_inv s B M lg xs dss cur tx'"
    using inv pop_outgoing_facts(2) [OF q(1) ne] f ll by (simp add: tx_inv_def tx'_def)
qed

lemma content_header [simp]: "content (with_header ip) = content ip"
  by (simp add: content_def with_header_def body_bytes_def)

lemma ready_header:
  assumes "sendable (wire ip)"
  shows "ready (with_header ip)"
proof -
  have "sendable (wire (with_header ip))" using assms sendable_cong [OF content_header] by simp
  then show ?thesis using header_length_cong [OF content_header, of ip] by (simp add: ready_def) (simp add: with_header_def)
qed

lemma logged_append: "logged s lg ip \<Longrightarrow> logged s (lg @ new) ip"
  by (fastforce simp: logged_def nth_append)

lemma first_transmission_mem:
  "rs_mem (first_transmission (\<lambda>_. rto) time p st) = (rs_mem st)(p := (rs_mem st p)\<lparr>messageNumberAssigned := True,
     reliableMessageNumber := sendReliableMessageNumberIndex st, retransmissionTime := rto, nextActionTime := rto + time\<rparr>)"
  "sendReliableMessageNumberIndex (first_transmission (\<lambda>_. rto) time p st) = sendReliableMessageNumberIndex st + 1"
  by (simp_all add: first_transmission_def InsertPacketIntoResendList_def AddToListTail_def Let_def)

text \<open>A packet off the queue in the memory of the resend list.\<close>

lemma take_packet_inv:
  assumes inv: "tx_inv s B M lg xs dss cur tx" and ne: "Heap_Size (outgoingPacketBuffer (tx_queue tx)) > 0"
  defines "p \<equiv> Heap_Peek 0 (outgoingPacketBuffer (tx_queue tx))"
  shows "tx_inv s B M lg xs dss cur (take_packet p ip tx)" "kept tx (take_packet p ip tx)"
    and "tx_queue (take_packet p ip tx) = pop_outgoing (tx_queue tx)" "tx_mem (take_packet p ip tx) p = ip"
    and "ResendBufferOverflow (tx_resend (take_packet p ip tx)) = ResendBufferOverflow (tx_resend tx)"
proof -
  let ?tx = "tx\<lparr>tx_queue := pop_outgoing (tx_queue tx)\<rparr>" and ?t = "take_packet p ip tx"
  note pi = pop_inv [OF inv ne, folded p_def]
  have pu: "p \<notin> used xs tx" by (rule pi(3))
  have f: "tx_resend ?t = (tx_resend tx)\<lparr>rs_mem := (tx_mem tx)(p := ip)\<rparr>" "tx_queue ?t = pop_outgoing (tx_queue tx)"
    "packetsToSendThisUpdate ?t = packetsToSendThisUpdate tx" "used xs ?t = used xs tx" "max_bits_of ?t = max_bits_of tx" "tx_cc ?t = tx_cc tx"
    by (simp_all add: take_packet_def set_resend_def used_def max_bits_of_def)
  show "tx_queue ?t = pop_outgoing (tx_queue tx)" "tx_mem ?t p = ip" "ResendBufferOverflow (tx_resend ?t) = ResendBufferOverflow (tx_resend tx)"
    by (simp_all add: f ResendBufferOverflow_def)
  show "kept tx ?t" using pu by (auto simp: kept_def take_packet_def set_resend_def used_def)
  have same: "tx_mem ?t q = tx_mem tx q" if "q \<in> used xs tx" for q using that pu by (auto simp: f)
  have "packed M dss cur ?t"
    by (rule packed_cong [of M dss cur tx]) (use inv same in \<open>auto simp: tx_inv_def take_packet_def set_resend_def used_def\<close>)
  moreover have "resend_inv (tx_resend ?t) xs"
    unfolding f by (rule resend_inv_mem) (use inv pu in \<open>simp_all add: tx_inv_def used_def\<close>)
  ultimately show "tx_inv s B M lg xs dss cur ?t"
    using pi(1) inv same by (simp add: tx_inv_def f used_def)
qed

text \<open>A reliable packet joins the resend list and the log.\<close>

lemma first_transmission_step:
  fixes rto time :: u64
  assumes inv: "tx_inv s B M lg xs dss cur tx" and p: "p \<notin> used xs tx" "p \<notin># queued (tx_queue tx)" "ready (tx_mem tx p)"
    "is_reliable (reliability (tx_mem tx p))" and room: "\<not> ResendBufferOverflow (tx_resend tx)"
  defines "tx' \<equiv> set_resend (first_transmission (\<lambda>_. rto) time p (tx_resend tx)) tx"
  shows "tx_inv s B M (lg @ [tx_mem tx p]) (xs @ [p]) dss cur tx'" "kept tx tx'" "logged s (lg @ [tx_mem tx p]) (tx_mem tx' p)"
    and "ready (tx_mem tx' p)" "headerLength (tx_mem tx' p) = headerLength (tx_mem tx p)" "dataBitLength (tx_mem tx' p) = dataBitLength (tx_mem tx p)"
    and "reliableMessageNumber (tx_mem tx' p) = of_nat (length lg)"
proof -
  let ?lg = "lg @ [tx_mem tx p]"
  have n: "sendReliableMessageNumberIndex (tx_resend tx) = of_nat (length lg)" using inv by (simp add: tx_inv_def)
  have f: "tx_resend tx' = first_transmission (\<lambda>_. rto) time p (tx_resend tx)" "tx_queue tx' = tx_queue tx"
    "packetsToSendThisUpdate tx' = packetsToSendThisUpdate tx" "max_bits_of tx' = max_bits_of tx" "used (xs @ [p]) tx' = insert p (used xs tx)"
    by (auto simp: tx'_def set_resend_def max_bits_of_def used_def)
  show "kept tx tx'" using p(1) by (auto simp: kept_def tx'_def set_resend_def first_transmission_mem used_def)
  have same: "tx_mem tx' q = tx_mem tx q" if "q \<in> used xs tx" for q using that p(1) by (auto simp: f first_transmission_mem)
  have mp: "reliableMessageNumber (tx_mem tx' p) = of_nat (length lg)" "content (tx_mem tx' p) = content (tx_mem tx p)"
    by (simp_all add: f first_transmission_mem n content_def body_bytes_def)
  show "reliableMessageNumber (tx_mem tx' p) = of_nat (length lg)" by (rule mp(1))
  show hd: "headerLength (tx_mem tx' p) = headerLength (tx_mem tx p)" "dataBitLength (tx_mem tx' p) = dataBitLength (tx_mem tx p)"
    by (simp_all add: f first_transmission_mem)
  show lp: "logged s ?lg (tx_mem tx' p)" using mp by (auto simp: logged_def intro!: exI [of _ "length lg"])
  show rp: "ready (tx_mem tx' p)" using p(3) hd header_length_cong [OF mp(2)] sendable_cong [OF mp(2)] by (simp add: ready_def)
  have "packed M dss cur tx'"
    by (rule packed_cong [of M dss cur tx]) (use inv same in \<open>auto simp: tx_inv_def tx'_def set_resend_def used_def\<close>)
  moreover have "resend_inv (tx_resend tx') (xs @ [p])"
    unfolding f by (rule first_transmission_inv [OF _ _ p(4) room]) (use inv p(1) in \<open>simp_all add: tx_inv_def used_def\<close>)
  moreover have "queue_fresh (insert p (used xs tx)) (tx_queue tx)" using inv p(2) by (auto simp: tx_inv_def queue_fresh_def)
  moreover have "ready (tx_mem tx' q) \<and> logged s ?lg (tx_mem tx' q)" if "q \<in> used xs tx" for q
    using inv that same [OF that] logged_append by (auto simp: tx_inv_def)
  moreover have "sendReliableMessageNumberIndex (tx_resend tx') = of_nat (length ?lg)" by (simp add: f first_transmission_mem n)
  ultimately show "tx_inv s B M ?lg (xs @ [p]) dss cur tx'" using inv lp rp unfolding tx_inv_def f(2,4,5) by simp
qed

lemma count_sent_inv:
  assumes "tx_inv s B M lg xs dss cur tx"
  shows "tx_inv s B M lg xs dss cur (count_sent p tx)" "kept tx (count_sent p tx)" "tx_queue (count_sent p tx) = tx_queue tx"
  by (rule tx_inv_same [OF assms])
    (simp_all add: count_sent_def set_resend_def same_accounts_def signature_def content_def body_bytes_def kept_def Let_def)

lemma side_records_inv:
  assumes "tx_inv s B M lg xs dss cur tx"
  shows "tx_inv s B M lg xs dss cur (tx\<lparr>tx_bps := b\<rparr>)"
    "tx_inv s B M lg xs dss cur (tx\<lparr>tx_window := (tx_window tx)\<lparr>unreliableWithAckReceiptHistory := us\<rparr>\<rparr>)"
    "tx_inv s B M lg xs dss cur (tx\<lparr>allDatagramSizesSoFar := a\<rparr>)"
  by (rule tx_inv_same [OF assms]; simp add: same_accounts_def kept_def)+

text \<open>The log grows by the packet if it is reliable.\<close>

definition grown :: "InternalPacket list \<Rightarrow> InternalPacket \<Rightarrow> InternalPacket list" where
  "grown lg ip = (if is_reliable (reliability ip) then lg @ [ip] else lg)"

lemma too_long_cong:
  "datagramSizeSoFar tx' = datagramSizeSoFar tx \<Longrightarrow> kept tx tx' \<Longrightarrow> headerLength a = headerLength b \<Longrightarrow> dataBitLength a = dataBitLength b \<Longrightarrow>
    too_long a tx' = too_long b tx"
  by (simp add: too_long_def kept_facts(2))

lemma pushed_packet_inv:
  assumes "tx_inv s B M lg xs dss cur tx" "ready (tx_mem tx p)" "logged s lg (tx_mem tx p)" "p \<notin># queued (tx_queue tx)" "\<not> too_long (tx_mem tx p) tx"
  shows "tx_inv s B M lg xs dss (cur @ [p]) (count_sent p (PushPacket p r (tx\<lparr>tx_bps := b\<rparr>)))"
    "kept tx (count_sent p (PushPacket p r (tx\<lparr>tx_bps := b\<rparr>)))" "tx_queue (count_sent p (PushPacket p r (tx\<lparr>tx_bps := b\<rparr>))) = tx_queue tx"
    "p \<in> set (packetsToSendThisUpdate (count_sent p (PushPacket p r (tx\<lparr>tx_bps := b\<rparr>))))"
    "reliableMessageNumber (tx_mem (count_sent p (PushPacket p r (tx\<lparr>tx_bps := b\<rparr>))) p) = reliableMessageNumber (tx_mem tx p)"
proof -
  let ?tx = "tx\<lparr>tx_bps := b\<rparr>"
  have "\<not> too_long (tx_mem ?tx p) ?tx" using assms(5) by (simp add: too_long_def max_bits_of_def)
  then have pp: "tx_inv s B M lg xs dss (cur @ [p]) (PushPacket p r ?tx)"
    by (intro PushPacket_inv side_records_inv(1)) (use assms in simp_all)
  have k: "kept tx (PushPacket p r ?tx)" by (auto simp: kept_def)
  show "tx_inv s B M lg xs dss (cur @ [p]) (count_sent p (PushPacket p r ?tx))" by (rule count_sent_inv(1) [OF pp])
  show "kept tx (count_sent p (PushPacket p r ?tx))" by (rule kept_trans [OF k count_sent_inv(2) [OF pp]])
  show "tx_queue (count_sent p (PushPacket p r ?tx)) = tx_queue tx" using count_sent_inv(3) [OF pp] by simp
  show "p \<in> set (packetsToSendThisUpdate (count_sent p (PushPacket p r ?tx)))"
    "reliableMessageNumber (tx_mem (count_sent p (PushPacket p r ?tx)) p) = reliableMessageNumber (tx_mem tx p)"
    by (simp_all add: count_sent_def set_resend_def Let_def)
qed

lemma first_send_inv:
  assumes inv: "tx_inv s B M lg xs dss cur tx" and ne: "Heap_Size (outgoingPacketBuffer (tx_queue tx)) > 0" and rto: "rto_ok tx"
    and room: "\<not> ResendBufferOverflow (tx_resend tx)"
  defines "p \<equiv> Heap_Peek 0 (outgoingPacketBuffer (tx_queue tx))" and "ip \<equiv> with_header (sq_mem (tx_queue tx) (Heap_Peek 0 (outgoingPacketBuffer (tx_queue tx))))"
  assumes data: "ip_data (sq_mem (tx_queue tx) p) \<noteq> []" and fit: "\<not> too_long ip tx"
  shows "\<exists>tx' xs'. first_send env p ip tx = Inr tx' \<and> tx_inv s B M (grown lg ip) xs' dss (cur @ [p]) tx' \<and> kept tx tx' \<and>
    tx_queue tx' = pop_outgoing (tx_queue tx) \<and> carried (length lg) (length (grown lg ip)) tx'"
proof -
  obtain t where t: "GetRTOForRetransmission (tx_cc tx) = Some t" using rto by (auto simp: rto_ok_def)
  let ?t = "take_packet p ip tx"
  note tk = take_packet_inv [OF inv ne, of ip, folded p_def] and pi = pop_inv(2,3) [OF inv ne, folded p_def]
  have tc: "tx_cc ?t = tx_cc tx" "used xs ?t = used xs tx" "datagramSizeSoFar ?t = datagramSizeSoFar tx"
    by (simp_all add: take_packet_def set_resend_def used_def)
  have np: "p \<notin># queued (tx_queue ?t)" "p \<notin> used xs ?t" using pi tk(3) tc(2) by simp_all
  have "p \<in># queued (tx_queue tx)" using queued_pop(1) [OF _ ne] inv unfolding tx_inv_def p_def by (metis union_single_eq_member)
  then have "sendable (wire (sq_mem (tx_queue tx) p))" using inv data by (auto simp: tx_inv_def queue_fresh_def)
  then have rd: "ready ip" unfolding ip_def p_def by (rule ready_header)
  have fit': "\<not> too_long (tx_mem ?t p) ?t" using fit too_long_cong [OF tc(3) tk(2), of ip ip] by (simp add: tk(4))
  have rel: "reliability (tx_mem ?t p) = reliability ip" by (simp add: tk(4))
  let ?bps = "Push1 (te_tracker env) (te_time env) (of_nat (BITS_TO_BYTES (dataBitLength ip)))"
  show ?thesis
  proof (cases "is_reliable (reliability ip)")
    case True
    let ?t1 = "set_resend (first_transmission (\<lambda>_. t) (te_time env) p (tx_resend ?t)) ?t"
    note ft = first_transmission_step [OF tk(1) np(2,1), of t "te_time env", unfolded tk(4,5), OF rd True room]
    have e: "first_send env p ip tx = Inr (count_sent p (PushPacket p True (?t1\<lparr>tx_bps := ?bps (tx_bps ?t1)\<rparr>)))"
      using True t tc(1) by (simp add: first_send_def Let_def)
    have q1: "tx_queue ?t1 = tx_queue ?t" "datagramSizeSoFar ?t1 = datagramSizeSoFar ?t" by (simp_all add: set_resend_def)
    have "\<not> too_long (tx_mem ?t1 p) ?t1" using fit' too_long_cong [OF q1(2) ft(2) ft(5,6)] by (simp add: tk(4))
    note pp = pushed_packet_inv [OF ft(1,4,3) _ this]
    let ?t2 = "count_sent p (PushPacket p True (?t1\<lparr>tx_bps := ?bps (tx_bps ?t1)\<rparr>))"
    have "p \<in> set (packetsToSendThisUpdate ?t2)" "reliableMessageNumber (tx_mem ?t2 p) = of_nat (length lg)"
      using pp(4,5) [of True "?bps (tx_bps ?t1)"] np(1) q1(1) ft(7) by simp_all
    then have "carried (length lg) (length (lg @ [ip])) ?t2" by (auto simp: carried_def less_Suc_eq)
    then show ?thesis using e pp(1-3) [of True "?bps (tx_bps ?t1)"] np(1) q1(1) True tk(3) kept_trans [OF tk(2) ft(2)]
      by (auto simp: grown_def intro: kept_trans)
  next
    case False
    define t1 where "t1 = (if reliability ip = UnreliableWithAckReceipt then ?t\<lparr>tx_window := (tx_window ?t)\<lparr>unreliableWithAckReceiptHistory :=
        unreliableWithAckReceiptHistory (tx_window ?t) @
        [\<lparr>un_datagramNumber = nextDatagramSequenceNumber (tx_cc ?t) + of_nat (length (packetsToSendThisUpdateDatagramBoundaries ?t)),
          un_sendReceiptSerial = sendReceiptSerial ip, un_nextActionTime = t + te_time env\<rparr>]\<rparr>\<rparr> else ?t)"
    have e: "first_send env p ip tx = Inr (count_sent p (PushPacket p False (t1\<lparr>tx_bps := ?bps (tx_bps t1)\<rparr>)))"
      using False t tc(1) by (simp add: first_send_def Let_def t1_def)
    have i1: "tx_inv s B M lg xs dss cur t1" using tk(1) side_records_inv(2) [OF tk(1)] by (simp add: t1_def)
    have f1: "tx_mem t1 = tx_mem ?t" "tx_queue t1 = tx_queue ?t" "kept ?t t1" "too_long ip t1 = too_long ip ?t"
      by (simp_all add: t1_def kept_def too_long_def max_bits_of_def)
    have "reliability ip = reliability (sq_mem (tx_queue tx) p)" by (simp add: ip_def p_def with_header_def)
    then have "\<not> s" using False pop_inv(5) [OF inv ne, folded p_def] inv by (auto simp: tx_inv_def)
    then have "logged s lg ip" using False by (simp add: logged_def)
    note pp = pushed_packet_inv [OF i1, of p, unfolded f1(1,2) tk(4), OF rd this np(1), unfolded f1(4), OF fit' [unfolded tk(4)]]
    show ?thesis using e pp(1-3) [of False "?bps (tx_bps t1)"] False tk(3) kept_trans [OF tk(2) f1(3)]
      by (auto simp: grown_def intro: kept_trans)
  qed
qed

lemma header_memory_inv:
  fixes p :: ptr
  assumes inv: "tx_inv s B M lg xs dss cur tx"
  defines "tx' \<equiv> tx\<lparr>tx_queue := (tx_queue tx)\<lparr>sq_mem := (sq_mem (tx_queue tx))(p := with_header (sq_mem (tx_queue tx) p))\<rparr>\<rparr>"
  shows "tx_inv s B M lg xs dss cur tx'" "moved (tx_queue tx) lg (tx_queue tx') lg"
proof -
  let ?q = "tx_queue tx" and ?m = "(sq_mem (tx_queue tx))(p := with_header (sq_mem (tx_queue tx) p))"
  have c: "content (?m r) = content (sq_mem ?q r)" "priority (?m r) = priority (sq_mem ?q r)" "ip_data (?m r) = ip_data (sq_mem ?q r)" for r
    by simp (simp_all add: with_header_def)
  have "sq_inv B (tx_queue tx')" using inv c(2) by (simp add: tx_inv_def sq_inv_def entries_ok_def level_def tx'_def)
  moreover have "queue_fresh (used xs tx) (tx_queue tx')" using inv c(1,3) sendable_cong [OF c(1)]
    by (simp add: tx_inv_def queue_fresh_def queued_def tx'_def)
  moreover have "reliability (?m r) = reliability (sq_mem ?q r)" for r by (simp add: with_header_def)
  then have ll: "lossless (tx_queue tx') = lossless ?q" using c(3) by (simp add: lossless_def queued_def tx'_def)
  ultimately show "tx_inv s B M lg xs dss cur tx'" using inv by (simp add: tx_inv_def tx'_def used_def packed_def max_bits_of_def)
  show "moved ?q lg (tx_queue tx') lg" using c ll by (simp add: moved_def stock_def queued_def tx'_def)
qed

definition Queue_count :: "Transmitter \<Rightarrow> nat" where
  "Queue_count tx = Heap_Size (outgoingPacketBuffer (tx_queue tx))"

lemma fill_new_inv:
  assumes "tx_inv s B M lg xs dss cur tx" "rto_ok tx" "\<not> ResendBufferOverflow (tx_resend tx)" "Queue_count tx < fuel"
  shows "\<exists>tx' new xs' cur'. fill_new fuel env limited tx = Inr tx' \<and> tx_inv s B M (lg @ new) xs' dss cur' tx' \<and> kept tx tx' \<and>
    moved (tx_queue tx) lg (tx_queue tx') (lg @ new) \<and> carried (length lg) (length (lg @ new)) tx' \<and>
    Queue_count tx' + length cur' \<le> Queue_count tx + length cur"
  using assms
proof (induction fuel arbitrary: lg xs cur tx)
  case (Suc fuel)
  let ?q = "tx_queue tx"
  define p where "p = Heap_Peek 0 (outgoingPacketBuffer ?q)"
  define ip where "ip = with_header (sq_mem ?q p)"
  show ?case
  proof (cases "Heap_Size (outgoingPacketBuffer ?q) = 0 \<or> limited")
    case True
    then have "fill_new (Suc fuel) env limited tx = Inr tx" by (simp only: fill_new.simps if_True)
    then show ?thesis using Suc.prems(1) by (intro exI [of _ tx] exI [of _ "[]"] exI [of _ xs] exI [of _ cur]) simp
  next
    case False
    then have ne: "Heap_Size (outgoingPacketBuffer ?q) > 0" by simp
    note pi = pop_inv [OF Suc.prems(1) ne, folded p_def] and qp = queued_pop(2) [OF _ ne]
    have qi: "sq_inv B ?q" using Suc.prems(1) by (simp add: tx_inv_def)
    show ?thesis
    proof (cases "ip_data (sq_mem ?q p) = []")
      case True
      let ?tx = "tx\<lparr>tx_queue := pop_outgoing ?q\<rparr>"
      have e: "fill_new (Suc fuel) env limited tx = fill_new fuel env limited ?tx" using False True by (simp add: p_def Let_def)
      have k: "kept tx ?tx" "tx_resend ?tx = tx_resend tx" "Queue_count tx = Suc (Queue_count ?tx)"
        using qp [OF qi] by (simp_all add: kept_def Queue_count_def)
      have "rto_ok ?tx" "\<not> ResendBufferOverflow (tx_resend ?tx)" "Queue_count ?tx < fuel"
        using kept_facts(1) [OF k(1)] Suc.prems(2-4) k(2,3) by simp_all
      from Suc.IH [OF pi(1) this] obtain tx' new xs' cur' where
        r: "fill_new fuel env limited ?tx = Inr tx'" "tx_inv s B M (lg @ new) xs' dss cur' tx'" "kept ?tx tx'"
          "moved (tx_queue ?tx) lg (tx_queue tx') (lg @ new)" "carried (length lg) (length (lg @ new)) tx'"
          "Queue_count tx' + length cur' \<le> Queue_count ?tx + length cur"
        by blast
      have "moved ?q lg (tx_queue ?tx) lg" using pi(4,5) True by (auto simp: moved_def)
      then show ?thesis using r e k(3) kept_trans [OF k(1) r(3)] moved_trans
        by (intro exI [of _ tx'] exI [of _ new] exI [of _ xs'] exI [of _ cur']) auto
    next
      case data: False
      show ?thesis
      proof (cases "too_long ip tx")
        case True
        let ?tx = "tx\<lparr>tx_queue := ?q\<lparr>sq_mem := (sq_mem ?q)(p := ip)\<rparr>\<rparr>"
        have e: "fill_new (Suc fuel) env limited tx = Inr ?tx" using False data True by (simp add: p_def ip_def too_long_def Let_def)
        show ?thesis using e header_memory_inv [OF Suc.prems(1), of p]
          by (intro exI [of _ ?tx] exI [of _ "[]"] exI [of _ xs] exI [of _ cur]) (simp add: ip_def kept_def Queue_count_def)
      next
        case fit: False
        obtain tx1 xs1 where s: "first_send env p ip tx = Inr tx1" "tx_inv s B M (grown lg ip) xs1 dss (cur @ [p]) tx1" "kept tx tx1"
            "tx_queue tx1 = pop_outgoing ?q" "carried (length lg) (length (grown lg ip)) tx1"
          using first_send_inv [OF Suc.prems(1) ne Suc.prems(2,3), folded p_def, folded ip_def, OF data fit, of env] by blast
        have e: "fill_new (Suc fuel) env limited tx = (if ResendBufferOverflow (tx_resend tx1) then Inr tx1 else fill_new fuel env limited tx1)"
          using False data fit s(1) by (simp add: p_def ip_def too_long_def Let_def)
        have c: "Queue_count tx = Suc (Queue_count tx1)" using qp [OF qi] s(4) by (simp add: Queue_count_def)
        have g: "\<exists>n. grown lg ip = lg @ n" by (auto simp: grown_def)
        have "reliability ip = reliability (sq_mem ?q p)" by (simp add: ip_def with_header_def)
        then have st: "moved ?q lg (tx_queue tx1) (grown lg ip)"
          using pi(4,5) s(4) by (auto simp: moved_def grown_def ip_def stock_def)
        show ?thesis
        proof (cases "ResendBufferOverflow (tx_resend tx1)")
          case True
          obtain n where n: "grown lg ip = lg @ n" using g by blast
          show ?thesis using e True s(2,3,5) st c n
            by (intro exI [of _ tx1] exI [of _ n] exI [of _ xs1] exI [of _ "cur @ [p]"]) simp
        next
          case more: False
          have "rto_ok tx1" "Queue_count tx1 < fuel" using kept_facts(1) [OF s(3)] Suc.prems(2,4) c by simp_all
          from Suc.IH [OF s(2) this(1) more this(2)] obtain tx' new xs' cur' where
            r: "fill_new fuel env limited tx1 = Inr tx'" "tx_inv s B M (grown lg ip @ new) xs' dss cur' tx'" "kept tx1 tx'"
              "moved (tx_queue tx1) (grown lg ip) (tx_queue tx') (grown lg ip @ new)"
              "carried (length (grown lg ip)) (length (grown lg ip @ new)) tx'" "Queue_count tx' + length cur' \<le> Queue_count tx1 + length (cur @ [p])"
            by blast
          obtain n where n: "grown lg ip = lg @ n" using g by blast
          note ca = carried_step [OF s(5) r(3,5)] and mv = moved_trans [OF st r(4)]
          show ?thesis using r(1,2,6) e more c ca mv kept_trans [OF s(3) r(3)] unfolding n append_assoc
            by (intro exI [of _ tx'] exI [of _ "n @ new"] exI [of _ xs'] exI [of _ cur']) auto
        qed
      qed
    qed
  qed
qed simp

lemma send_loop_inv:
  assumes "tx_inv s B M lg xs dss [] tx" "rto_ok tx" "Queue_count tx < fuel"
  shows "\<exists>tx' new xs' dss'. send_loop fuel env bw tx = Inr tx' \<and> tx_inv s B M (lg @ new) xs' dss' [] tx' \<and> kept tx tx' \<and>
    moved (tx_queue tx) lg (tx_queue tx') (lg @ new) \<and> carried (length lg) (length (lg @ new)) tx'"
  using assms
proof (induction fuel arbitrary: lg xs dss tx)
  case (Suc fuel)
  show ?case
  proof (cases "send_more bw tx")
    case False
    then have "send_loop (Suc fuel) env bw tx = Inr tx" by simp
    then show ?thesis using Suc.prems(1) by (intro exI [of _ tx] exI [of _ "[]"] exI [of _ xs] exI [of _ dss]) simp
  next
    case True
    then have room: "\<not> ResendBufferOverflow (tx_resend tx)" by (simp add: send_more_def)
    obtain tx1 new xs1 cur where f: "fill_new (Queue_count tx + 1) env (bandwidth_limited env tx) tx = Inr tx1" "tx_inv s B M (lg @ new) xs1 dss cur tx1"
        "kept tx tx1" "moved (tx_queue tx) lg (tx_queue tx1) (lg @ new)" "carried (length lg) (length (lg @ new)) tx1"
        "Queue_count tx1 + length cur \<le> Queue_count tx"
      using fill_new_inv [OF Suc.prems(1,2) room, of "Queue_count tx + 1" env "bandwidth_limited env tx"] by auto
    have e: "send_loop (Suc fuel) env bw tx = (if datagramSizeSoFar tx1 = 0 then Inr tx1 else send_loop fuel env bw (PushDatagram tx1))"
      using True f(1) by (simp only: send_loop.simps if_True Queue_count_def sum.case)
    have "\<And>p. p \<in> set cur \<Longrightarrow> ready (tx_mem tx1 p)" using f(2) cur_used [of M dss cur tx1 xs1] by (auto simp: tx_inv_def)
    then have z: "datagramSizeSoFar tx1 = 0 \<longleftrightarrow> cur = []" using datagram_bits_zero [of cur "tx_mem tx1"] f(2) by (simp add: tx_inv_def packed_def)
    show ?thesis
    proof (cases "cur = []")
      case True
      then show ?thesis using e z f(2-5) by auto
    next
      case False
      obtain dss1 where d: "tx_inv s B M (lg @ new) xs1 dss1 [] (PushDatagram tx1)" using PushDatagram_inv [OF f(2)] by blast
      have k: "kept tx (PushDatagram tx1)" using f(3) by (simp add: kept_def)
      have "rto_ok (PushDatagram tx1)" "Queue_count (PushDatagram tx1) < fuel"
        using kept_facts(1) [OF k] Suc.prems(2,3) f(6) False by (cases cur; simp add: Queue_count_def)+
      from Suc.IH [OF d this] obtain tx' new' xs' dss' where
        r: "send_loop fuel env bw (PushDatagram tx1) = Inr tx'" "tx_inv s B M ((lg @ new) @ new') xs' dss' [] tx'" "kept (PushDatagram tx1) tx'"
          "moved (tx_queue (PushDatagram tx1)) (lg @ new) (tx_queue tx') ((lg @ new) @ new')" "carried (length (lg @ new)) (length ((lg @ new) @ new')) tx'"
        by blast
      have "kept tx1 tx'" using r(3) by (simp add: kept_def)
      note ca = carried_step [OF f(5) this r(5)] and mv = moved_trans [OF f(4) r(4) [unfolded PushDatagram_frame]]
      show ?thesis using r(1,2) e z False ca mv kept_trans [OF k r(3)] unfolding append_assoc
        by (intro exI [of _ tx'] exI [of _ "new @ new'"] exI [of _ xs'] exI [of _ dss']) auto
    qed
  qed
qed simp

end
