(* ===== verification/Update_Laws.thy ===== *)
theory Update_Laws
  imports Transmission_Laws
begin

text \<open>
  One update of the sending side as a whole: it never fails, and what it sends are datagrams with consecutive numbers that fit the MTU
  and carry every message that got its number in it.
\<close>

section \<open>A whole update\<close>

definition bandwidth_ok :: "bool \<Rightarrow> Transmitter \<Rightarrow> bool" where
  "bandwidth_ok c tx \<longleftrightarrow> fst (GetTransmissionBandwidth (unacknowledgedBytes (tx_resend tx)) c (tx_cc tx)) \<noteq> None"

lemma pack_inv:
  assumes inv: "tx_inv s B M lg xs [] [] tx" and rto: "rto_ok tx" and bw: "bandwidth_ok c tx"
  shows "\<exists>tx' new xs' dss. pack env c tx = Inr tx' \<and> tx_inv s B M (lg @ new) xs' dss [] tx' \<and> kept tx tx' \<and>
    moved (tx_queue tx) lg (tx_queue tx') (lg @ new) \<and> carried (length lg) (length (lg @ new)) tx'"
proof -
  let ?r = "GetRetransmissionBandwidth (unacknowledgedBytes (tx_resend tx))"
  obtain tbw cc where g: "GetTransmissionBandwidth (unacknowledgedBytes (tx_resend tx)) c (tx_cc tx) = (Some tbw, cc)"
    using bw unfolding bandwidth_ok_def by (metis not_None_eq prod.collapse)
  let ?tx = "tx\<lparr>tx_cc := cc\<rparr>"
  have k0: "kept tx ?tx" using g by (auto simp: GetTransmissionBandwidth_def kept_def)
  have i0: "tx_inv s B M lg xs [] [] ?tx" by (rule tx_inv_same [OF inv]) (use k0 in \<open>simp_all add: same_accounts_def\<close>)
  let ?a = "?tx\<lparr>allDatagramSizesSoFar := 0\<rparr>"
  have ka: "kept tx ?a" using k0 by (simp add: kept_def)
  have ia: "tx_inv s B M lg xs [] [] ?a" by (rule side_records_inv(3) [OF i0])
  have "length xs \<le> RESEND_BUFFER_ARRAY_LENGTH" by (rule resend_inv_bound [where st = "tx_resend tx"]) (use inv in \<open>simp add: tx_inv_def\<close>)
  then have due: "due_count env ?a xs < RESEND_BUFFER_ARRAY_LENGTH + 2"
    using length_filter_le [of "\<lambda>p. due (te_time env) (nextActionTime (tx_mem ?a p))" xs] unfolding due_count_def by linarith
  define resent where "resent = (if ?r > 0 \<or> tbw > 0 then resend_loop (RESEND_BUFFER_ARRAY_LENGTH + 2) env ?r ?a else Inr ?tx)"
  have "\<exists>tx1 xs1 dss1. resent = Inr tx1 \<and> tx_inv s B M lg xs1 dss1 [] tx1 \<and> kept tx tx1 \<and> tx_queue tx1 = tx_queue tx"
  proof (cases "?r > 0 \<or> tbw > 0")
    case True
    from resend_loop_inv [OF ia _ due, of ?r] kept_facts(1) [OF ka] rto
    obtain tx1 xs1 dss1 where "resend_loop (RESEND_BUFFER_ARRAY_LENGTH + 2) env ?r ?a = Inr tx1" "tx_inv s B M lg xs1 dss1 [] tx1" "kept ?a tx1" "tx_queue tx1 = tx_queue ?a"
      by auto
    then show ?thesis using True kept_trans [OF ka] by (auto simp: resent_def)
  qed (use i0 k0 in \<open>auto simp: resent_def\<close>)
  then obtain tx1 xs1 dss1 where r: "resent = Inr tx1" "tx_inv s B M lg xs1 dss1 [] tx1" "kept tx tx1" "tx_queue tx1 = tx_queue tx" by blast
  have e: "pack env c tx = (if int (BITS_TO_BYTES (allDatagramSizesSoFar tx1)) < tbw
      then send_loop (Heap_Size (outgoingPacketBuffer (tx_queue tx1)) + 2) env tbw (tx1\<lparr>allDatagramSizesSoFar := 0\<rparr>) else Inr tx1)"
    unfolding pack_def g Let_def prod.case option.case resent_def [symmetric] r(1) sum.case ..
  let ?b = "tx1\<lparr>allDatagramSizesSoFar := 0\<rparr>"
  have kb: "kept tx ?b" using r(3) by (simp add: kept_def)
  have "rto_ok ?b" "Queue_count ?b < Heap_Size (outgoingPacketBuffer (tx_queue tx1)) + 2"
    using kept_facts(1) [OF kb] rto by (simp_all add: Queue_count_def)
  from send_loop_inv [OF side_records_inv(3) [OF r(2)] this, of env tbw]
  obtain tx2 new xs2 dss2 where s: "send_loop (Heap_Size (outgoingPacketBuffer (tx_queue tx1)) + 2) env tbw ?b = Inr tx2"
      "tx_inv s B M (lg @ new) xs2 dss2 [] tx2" "kept ?b tx2" "moved (tx_queue ?b) lg (tx_queue tx2) (lg @ new)" "carried (length lg) (length (lg @ new)) tx2"
    by blast
  show ?thesis
  proof (cases "int (BITS_TO_BYTES (allDatagramSizesSoFar tx1)) < tbw")
    case True
    then show ?thesis using e s kept_trans [OF kb s(3)] r(4) by auto
  next
    case False
    then have "pack env c tx = Inr tx1 \<and> tx_inv s B M (lg @ []) xs1 dss1 [] tx1 \<and> kept tx tx1 \<and>
        moved (tx_queue tx) lg (tx_queue tx1) (lg @ []) \<and> carried (length lg) (length (lg @ [])) tx1" using e r by simp
    then show ?thesis by blast
  qed
qed

text \<open>The state between updates.\<close>

definition sender_inv :: "bool \<Rightarrow> nat \<Rightarrow> InternalPacket list \<Rightarrow> ptr list \<Rightarrow> Transmitter \<Rightarrow> bool" where
  "sender_inv s B lg xs tx \<longleftrightarrow> resend_inv (tx_resend tx) xs \<and> sendReliableMessageNumberIndex (tx_resend tx) = of_nat (length lg) \<and>
    (\<forall>p \<in> set xs. ready (tx_mem tx p) \<and> logged s lg (tx_mem tx p)) \<and> sq_inv B (tx_queue tx) \<and> queue_fresh (set xs) (tx_queue tx) \<and>
    (s \<longrightarrow> lossless (tx_queue tx)) \<and> 9 \<le> GetMTU (tx_cc tx) \<and> GetMTU (tx_cc tx) \<le> MAXIMUM_MTU_SIZE"

lemma max_bits_eq: "GetMTU (tx_cc tx) \<le> MAXIMUM_MTU_SIZE \<Longrightarrow> max_bits_of tx = 8 * (GetMTU (tx_cc tx) - 9)"
  by (simp add: max_bits_of_def GetMaxDatagramSizeExcludingMessageHeaderBits_def GetMaxDatagramSizeExcludingMessageHeaderBytes_def
      GetDataHeaderByteLength_def BYTES_TO_BITS_def MAXIMUM_MTU_SIZE_def)

lemma sender_tx_inv:
  assumes "sender_inv s B lg xs tx"
  shows "tx_inv s B (max_bits_of tx) lg xs [] [] (ResetPacketsAndDatagrams tx)"
proof -
  have "GetMTU (tx_cc tx) \<le> MAXIMUM_MTU_SIZE" using assms by (simp add: sender_inv_def)
  note m = max_bits_eq [OF this]
  have "GetMTU (tx_cc tx) - 9 \<le> 1400" using assms unfolding sender_inv_def MAXIMUM_MTU_SIZE_def by linarith
  moreover have "max_bits_of (ResetPacketsAndDatagrams tx) = max_bits_of tx" by (simp add: max_bits_of_def ResetPacketsAndDatagrams_def)
  ultimately have "max_bits_of tx \<le> 11200" "8 dvd max_bits_of tx" "max_bits_of (ResetPacketsAndDatagrams tx) = max_bits_of tx"
    using m by simp_all
  then show ?thesis using assms
    by (simp add: tx_inv_def sender_inv_def used_def packed_def datagram_bits_def ResetPacketsAndDatagrams_def)
qed

lemma tx_sender_inv:
  assumes "tx_inv s B M lg xs dss [] tx" "9 \<le> GetMTU (tx_cc tx)" "GetMTU (tx_cc tx) \<le> MAXIMUM_MTU_SIZE"
  shows "sender_inv s B lg xs tx"
  using assms by (auto simp: sender_inv_def tx_inv_def queue_fresh_def used_def)

text \<open>The bytes of a data datagram with a given number.\<close>

definition datagram_sent :: "u24 \<Rightarrow> InternalPacket list \<Rightarrow> u8 list \<Rightarrow> bool" where
  "datagram_sent n ips buffer \<longleftrightarrow>
    (\<exists>h bs. \<not> isACK h \<and> \<not> isNAK h \<and> datagramNumber h = n \<and> bs_inv bs \<and> buffer = SendBitStream (write_datagram h ips bs))"

lemma send_datagrams_effect:
  assumes "\<not> isACK h" "\<not> isNAK h" "\<forall>d \<in> set dss. packable d" "bs_inv bs"
  shows "\<exists>sent tx' bs'. send_datagrams env h dss (tx, bs) = (sent, tx', bs') \<and> length sent = length dss \<and> bs_inv bs' \<and>
    (\<forall>i < length dss. datagram_sent (nextDatagramSequenceNumber (tx_cc tx) + of_nat i) (dss ! i) (sent ! i)) \<and>
    tx_queue tx' = tx_queue tx \<and> tx_resend tx' = tx_resend tx \<and> packetsToSendThisUpdate tx' = packetsToSendThisUpdate tx \<and>
    tx_cc tx' = (tx_cc tx)\<lparr>nextDatagramSequenceNumber := nextDatagramSequenceNumber (tx_cc tx) + of_nat (length dss)\<rparr>"
  using assms
proof (induction dss arbitrary: h tx bs)
  case (Cons d dss)
  let ?n = "nextDatagramSequenceNumber (tx_cc tx)"
  let ?h = "h\<lparr>datagramNumber := ?n, isPacketPair := False\<rparr>"
  obtain bytes tx1 bs1 where s: "send_datagram env h d (tx, bs) = (bytes, tx1, bs1)" by (metis prod_cases3)
  have b: "bytes = SendBitStream (write_datagram ?h d bs)" "bs1 = write_datagram ?h d bs"
    "tx_queue tx1 = tx_queue tx" "tx_resend tx1 = tx_resend tx" "packetsToSendThisUpdate tx1 = packetsToSendThisUpdate tx"
    "tx_cc tx1 = (tx_cc tx)\<lparr>nextDatagramSequenceNumber := ?n + 1\<rparr>"
    using s by (auto simp: send_datagram_def GetAndIncrementNextDatagramSequenceNumber_def Let_def)
  have i1: "bs_inv bs1" unfolding b(2) by (rule data_datagram_decoded(1)) (use Cons.prems in simp_all)
  let ?h1 = "h\<lparr>isContinuousSend := True\<rparr>"
  have "\<not> isACK ?h1" "\<not> isNAK ?h1" "\<forall>d \<in> set dss. packable d" using Cons.prems by simp_all
  from Cons.IH [OF this i1, of tx1] obtain sent tx' bs' where
    r: "send_datagrams env ?h1 dss (tx1, bs1) = (sent, tx', bs')" "length sent = length dss" "bs_inv bs'"
      "\<forall>i < length dss. datagram_sent (nextDatagramSequenceNumber (tx_cc tx1) + of_nat i) (dss ! i) (sent ! i)"
      "tx_queue tx' = tx_queue tx1" "tx_resend tx' = tx_resend tx1" "packetsToSendThisUpdate tx' = packetsToSendThisUpdate tx1"
      "tx_cc tx' = (tx_cc tx1)\<lparr>nextDatagramSequenceNumber := nextDatagramSequenceNumber (tx_cc tx1) + of_nat (length dss)\<rparr>"
    by blast
  have d0: "datagram_sent ?n d bytes"
    unfolding datagram_sent_def b(1) by (intro exI [of _ ?h] exI [of _ bs]) (use Cons.prems in simp)
  have "datagram_sent (?n + of_nat i) ((d # dss) ! i) ((bytes # sent) ! i)" if "i < length (d # dss)" for i
    using that d0 r(4) b(6) by (cases i) (simp_all add: add.assoc add.commute [of 1])
  then show ?case using s r b by (auto simp: Let_def)
qed simp

lemma ClearPackets_frame [simp]:
  "tx_window (ClearPacketsAndDatagrams tx) = tx_window tx" "tx_cc (ClearPacketsAndDatagrams tx) = tx_cc tx"
  "sq_mem (tx_queue (ClearPacketsAndDatagrams tx)) = sq_mem (tx_queue tx)" "queued (tx_queue (ClearPacketsAndDatagrams tx)) = queued (tx_queue tx)"
  "sq_inv B (tx_queue (ClearPacketsAndDatagrams tx)) = sq_inv B (tx_queue tx)"
  "orderedWriteIndex (tx_queue (ClearPacketsAndDatagrams tx)) = orderedWriteIndex (tx_queue tx)"
  by (simp_all add: ClearPacketsAndDatagrams_def queued_def sq_inv_def entries_ok_def level_def Let_def)

lemma packable_datagram:
  assumes "\<forall>p \<in> set d. ready (mem p)" "datagram_bits mem d \<le> 11200"
  shows "packable (map mem d)" "(\<Sum>ip \<leftarrow> map mem d. length (message_bits (wire ip))) = datagram_bits mem d"
proof -
  have "(\<Sum>p \<leftarrow> d. 32) \<le> (\<Sum>p \<leftarrow> d. bits_of (mem p))" by (rule sum_list_mono) (use assms(1) ready_bits(2) in auto)
  then have "length d \<le> 1000" using assms(2) by (simp add: datagram_bits_def sum_list_triv)
  then show "packable (map mem d)" using assms(1) by (auto simp: packable_def ready_def)
  show "(\<Sum>ip \<leftarrow> map mem d. length (message_bits (wire ip))) = datagram_bits mem d"
    using assms(1) ready_bits(1) by (simp add: datagram_bits_def comp_def cong: map_cong)
qed

text \<open>What an update sends: datagrams with consecutive numbers that fit the MTU, full of logged packets.\<close>

definition numbers_sent :: "nat \<Rightarrow> nat \<Rightarrow> InternalPacket list list \<Rightarrow> bool" where
  "numbers_sent lo hi pss \<longleftrightarrow> (\<forall>N. lo \<le> N \<and> N < hi \<longrightarrow> (\<exists>ips \<in> set pss. \<exists>ip \<in> set ips. reliableMessageNumber ip = of_nat N))"

definition datagrams_ok :: "bool \<Rightarrow> u24 \<Rightarrow> nat \<Rightarrow> InternalPacket list \<Rightarrow> InternalPacket list list \<Rightarrow> u8 list list \<Rightarrow> bool" where
  "datagrams_ok s n mtu lg pss sent \<longleftrightarrow> length sent = length pss \<and>
    (\<forall>i < length pss. datagram_sent (n + of_nat i) (pss ! i) (sent ! i) \<and> length (sent ! i) \<le> mtu \<and> pss ! i \<noteq> [] \<and> packable (pss ! i) \<and>
       (\<forall>ip \<in> set (pss ! i). ready ip \<and> logged s lg ip))"

text \<open>What an update leaves alone apart from the datagram number.\<close>

definition tx_cc_frame :: "Transmitter \<Rightarrow> Transmitter \<Rightarrow> nat \<Rightarrow> bool" where
  "tx_cc_frame tx tx' k \<longleftrightarrow> nextDatagramSequenceNumber (tx_cc tx') = nextDatagramSequenceNumber (tx_cc tx) + of_nat k \<and>
    MAXIMUM_MTU_INCLUDING_UDP_HEADER (tx_cc tx') = MAXIMUM_MTU_INCLUDING_UDP_HEADER (tx_cc tx) \<and>
    orderedWriteIndex (tx_queue tx') = orderedWriteIndex (tx_queue tx)"

lemma transmit_inv:
  assumes inv: "sender_inv s B lg xs tx" and rto: "rto_ok tx" and bw: "bandwidth_ok c tx" and h: "\<not> isACK h" "\<not> isNAK h" and bs: "bs_inv bs"
  shows "\<exists>sent tx' bs' new xs' pss. transmit env h c tx bs = Inr (sent, tx', bs') \<and> sender_inv s B (lg @ new) xs' tx' \<and> bs_inv bs' \<and>
    moved (tx_queue tx) lg (tx_queue tx') (lg @ new) \<and> numbers_sent (length lg) (length (lg @ new)) pss \<and>
    datagrams_ok s (nextDatagramSequenceNumber (tx_cc tx)) (GetMTU (tx_cc tx)) (lg @ new) pss sent \<and>
    tx_cc_frame tx tx' (length pss)"
proof -
  let ?r = "ResetPacketsAndDatagrams tx" and ?M = "max_bits_of tx"
  have fr: "tx_queue ?r = tx_queue tx" "tx_window ?r = tx_window tx" "tx_cc ?r = tx_cc tx" by (simp_all add: ResetPacketsAndDatagrams_def)
  have "rto_ok ?r" "bandwidth_ok c ?r" using rto bw fr by (simp_all add: rto_ok_def bandwidth_ok_def)
  from pack_inv [OF sender_tx_inv [OF inv] this, of env] obtain tx1 new xs1 dss where
    p: "pack env c ?r = Inr tx1" "tx_inv s B ?M (lg @ new) xs1 dss [] tx1" "kept ?r tx1" "moved (tx_queue tx) lg (tx_queue tx1) (lg @ new)"
      "carried (length lg) (length (lg @ new)) tx1"
    by (auto simp: fr)
  let ?mem = "tx_mem tx1"
  have mtu: "9 \<le> GetMTU (tx_cc tx)" "GetMTU (tx_cc tx) \<le> MAXIMUM_MTU_SIZE" using inv by (simp_all add: sender_inv_def)
  have k: "nextDatagramSequenceNumber (tx_cc tx1) = nextDatagramSequenceNumber (tx_cc tx)" "GetMTU (tx_cc tx1) = GetMTU (tx_cc tx)"
    using p(3) by (simp_all add: kept_def fr GetMTU_def)
  have pk: "packetsToSendThisUpdate tx1 = concat dss" "packetsToSendThisUpdateDatagramBoundaries tx1 = ends 0 dss"
    "\<forall>d \<in> set dss. d \<noteq> [] \<and> datagram_bits ?mem d \<le> ?M" "?M \<le> 11200" using p(2) by (auto simp: tx_inv_def packed_def)
  have sl: "slices 0 (packetsToSendThisUpdateDatagramBoundaries tx1) (map ?mem (packetsToSendThisUpdate tx1)) = map (map ?mem) dss"
    using slices_ends [of "[]" dss "[]"] by (simp add: pk slices_map)
  have rd: "ready (?mem q) \<and> logged s (lg @ new) (?mem q)" if "d \<in> set dss" "q \<in> set d" for d q
    using p(2) that pk(1) by (auto simp: tx_inv_def used_def)
  have ok: "packable (map ?mem d) \<and> (\<Sum>ip \<leftarrow> map ?mem d. length (message_bits (wire ip))) \<le> ?M" if "d \<in> set dss" for d
  proof -
    have "\<forall>q \<in> set d. ready (?mem q)" "datagram_bits ?mem d \<le> ?M" "datagram_bits ?mem d \<le> 11200" using rd pk(3,4) that by force+
    then show ?thesis using packable_datagram [of d ?mem] by simp
  qed
  have "\<forall>d \<in> set (map (map ?mem) dss). packable d" using ok by auto
  from send_datagrams_effect [OF h this bs, of env tx1] obtain sent tx2 bs2 where
    s: "send_datagrams env h (map (map ?mem) dss) (tx1, bs) = (sent, tx2, bs2)" "length sent = length dss" "bs_inv bs2"
      "\<forall>i < length dss. datagram_sent (nextDatagramSequenceNumber (tx_cc tx1) + of_nat i) (map (map ?mem) dss ! i) (sent ! i)"
      "tx_queue tx2 = tx_queue tx1" "tx_resend tx2 = tx_resend tx1" "packetsToSendThisUpdate tx2 = packetsToSendThisUpdate tx1"
      "tx_cc tx2 = (tx_cc tx1)\<lparr>nextDatagramSequenceNumber := nextDatagramSequenceNumber (tx_cc tx1) + of_nat (length dss)\<rparr>"
    by auto
  let ?tx' = "ClearPacketsAndDatagrams tx2"
  have e: "transmit env h c tx bs = Inr (sent, ?tx', bs2)" by (simp add: transmit_def p(1) sl s(1))
  have sz: "length (sent ! i) \<le> GetMTU (tx_cc tx)" if "i < length dss" for i
  proof -
    have "datagram_sent (nextDatagramSequenceNumber (tx_cc tx1) + of_nat i) (map ?mem (dss ! i)) (sent ! i)" using s(4) that by simp
    then obtain h' b where hb: "\<not> isACK h'" "\<not> isNAK h'" "bs_inv b" "sent ! i = SendBitStream (write_datagram h' (map ?mem (dss ! i)) b)"
      by (auto simp: datagram_sent_def)
    have "dss ! i \<in> set dss" using that by simp
    note o = ok [OF this]
    have "8 * length (sent ! i) \<le> 32 + ?M" using data_datagram_decoded(2) [OF hb(3,1,2), of "map ?mem (dss ! i)"] o hb(4) by simp
    then show ?thesis using max_bits_eq [OF mtu(2)] mtu(1) by linarith
  qed
  have d: "datagrams_ok s (nextDatagramSequenceNumber (tx_cc tx)) (GetMTU (tx_cc tx)) (lg @ new) (map (map ?mem) dss) sent"
    unfolding datagrams_ok_def
  proof (intro conjI allI impI ballI)
    fix i assume "i < length (map (map ?mem) dss)"
    then have i: "i < length dss" "dss ! i \<in> set dss" by simp_all
    show "datagram_sent (nextDatagramSequenceNumber (tx_cc tx) + of_nat i) (map (map ?mem) dss ! i) (sent ! i)" using s(4) i k(1) by simp
    show "length (sent ! i) \<le> GetMTU (tx_cc tx)" by (rule sz [OF i(1)])
    show "map (map ?mem) dss ! i \<noteq> []" "packable (map (map ?mem) dss ! i)" using pk(3) ok i by auto
    fix ip assume "ip \<in> set (map (map ?mem) dss ! i)"
    then show "ready ip" "logged s (lg @ new) ip" using rd [OF i(2)] i(1) by auto
  qed (simp add: s(2))
  have "sender_inv s B (lg @ new) xs1 tx1" by (rule tx_sender_inv [OF p(2)]) (use k mtu in simp_all)
  then have "sender_inv s B (lg @ new) xs1 ?tx'" using s(5,6,8) by (simp add: sender_inv_def queue_fresh_def lossless_def GetMTU_def)
  moreover have "moved (tx_queue tx) lg (tx_queue ?tx') (lg @ new)" using p(4) s(5) by (simp add: moved_def stock_def lossless_def)
  moreover have "numbers_sent (length lg) (length (lg @ new)) (map (map ?mem) dss)"
    unfolding numbers_sent_def
  proof (intro allI impI)
    fix N assume "length lg \<le> N \<and> N < length (lg @ new)"
    then have "\<exists>q \<in> set (concat dss). reliableMessageNumber (?mem q) = of_nat N" using p(5) unfolding carried_def pk(1) by blast
    then show "\<exists>ips \<in> set (map (map ?mem) dss). \<exists>ip \<in> set ips. reliableMessageNumber ip = of_nat N" by auto
  qed
  moreover have "tx_cc_frame tx ?tx' (length (map (map ?mem) dss))" using p(3) s(5,8) by (simp add: tx_cc_frame_def kept_def fr)
  ultimately show ?thesis using e s(3) d
    by (intro exI [of _ sent] exI [of _ ?tx'] exI [of _ bs2] exI [of _ new] exI [of _ xs1] exI [of _ "map (map ?mem) dss"]) simp
qed

end
