(* ===== verification/Session.thy ===== *)
theory Session
  imports Update_Laws
begin

text \<open>
  A connection as a whole.  One side sends reliable ordered messages on its channels at any priority, runs its updates and handles whatever
  acknowledgements and loss reports arrive; the network loses, repeats and reorders the datagrams of the updates; the other side handles
  what arrives.  Every step is the code's operation: \<^verbatim>\<open>Send\<close>, the transmission of \<^verbatim>\<open>UpdateInternal\<close>, the report branches and the data branch of
  \<^verbatim>\<open>HandleSocketReceiveFromConnectedPlayer\<close>.
\<close>

section \<open>The sending side over time\<close>

text \<open>What a report branch leaves behind, with the congestion control told.\<close>

definition reported :: "bool \<Rightarrow> SendWindow \<Rightarrow> Transmitter \<Rightarrow> Transmitter" where
  "reported exceeded w tx =
    tx\<lparr>tx_window := w\<lparr>sw_output := [], sw_events := []\<rparr>, tx_cc := fold (apply_event exceeded) (sw_events w) (tx_cc tx)\<rparr>"

text \<open>\<open>sent c\<close> is what was sent on channel \<open>c\<close>, \<open>net\<close> every datagram written so far.\<close>

inductive session :: "u32 \<Rightarrow> (nat \<Rightarrow> u8 list list) \<Rightarrow> u8 list list \<Rightarrow> Transmitter \<Rightarrow> BitStream \<Rightarrow> bool" for mtu :: u32 where
  sn_start: "bs_inv bs \<Longrightarrow> session mtu (\<lambda>_. []) [] (Transmitter_new qmem mem ring mtu) bs"
| sn_send: "session mtu sent net tx bs \<Longrightarrow> channel < NUMBER_OF_ORDERED_STREAMS \<Longrightarrow> data \<noteq> [] \<Longrightarrow>
    length data \<le> maximumSendBlockBytes pool (GetMTU (tx_cc tx)) \<Longrightarrow> rel = 3 \<or> rel = 7 \<Longrightarrow>
    Some p \<notin> set (resendBuffer (tx_resend tx)) \<Longrightarrow> p \<notin># queued (tx_queue tx) \<Longrightarrow>
    Send pool (GetMTU (tx_cc tx)) [p] data (8 * length data) prio rel channel copy time serial (tx_queue tx) = Inr (b, q) \<Longrightarrow>
    session mtu (sent(channel := sent channel @ [data])) net (tx\<lparr>tx_queue := q\<rparr>) bs"
| sn_update: "session mtu sent net tx bs \<Longrightarrow> rto_ok tx \<Longrightarrow> bandwidth_ok c tx \<Longrightarrow> \<not> isACK h \<Longrightarrow> \<not> isNAK h \<Longrightarrow>
    transmit env h c tx bs = Inr (out, tx', bs') \<Longrightarrow> session mtu sent (net @ out) tx' bs'"
| sn_ack: "session mtu sent net tx bs \<Longrightarrow> handle_ack pool time socketData (tx_window tx) = Some (b, w) \<Longrightarrow>
    session mtu sent net (reported exceeded w tx) bs"
| sn_nak: "session mtu sent net tx bs \<Longrightarrow> handle_nak time socketData (tx_window tx) = Some (b, w) \<Longrightarrow>
    session mtu sent net (reported exceeded w tx) bs"

section \<open>Reports only shrink the resend list\<close>

definition shrinks :: "ResendState \<Rightarrow> ResendState \<Rightarrow> bool" where
  "shrinks st st' \<longleftrightarrow> sendReliableMessageNumberIndex st' = sendReliableMessageNumberIndex st \<and>
    (\<forall>p. signature (rs_mem st' p) = signature (rs_mem st p)) \<and>
    (\<forall>xs. resend_inv st xs \<longrightarrow> (\<exists>ys. resend_inv st' ys \<and> set ys \<subseteq> set xs))"

lemma shrinks_refl [simp]: "shrinks st st"
  by (auto simp: shrinks_def)

lemma shrinks_trans: "shrinks a b \<Longrightarrow> shrinks b c \<Longrightarrow> shrinks a c"
  unfolding shrinks_def by (metis order_trans)

lemma shrinks_remove: "shrinks st (snd (RemovePacketFromResendList pool n st))"
proof -
  have "sendReliableMessageNumberIndex (snd (RemovePacketFromResendList pool n st)) = sendReliableMessageNumberIndex st"
    by (simp add: RemovePacketFromResendList_def RemoveFromList_def Let_def split: option.split)
  moreover have "rs_mem (snd (RemovePacketFromResendList pool n st)) = rs_mem st"
    by (simp add: RemovePacketFromResendList_def RemoveFromList_def Let_def split: option.split)
  moreover have "\<exists>ys. resend_inv (snd (RemovePacketFromResendList pool n st)) ys \<and> set ys \<subseteq> set xs" if "resend_inv st xs" for xs
    using RemovePacketFromResendList_inv(1) [OF that, of pool n] by (metis filter_is_subset)
  ultimately show ?thesis by (simp add: shrinks_def)
qed

lemma shrinks_messages: "shrinks st (snd (ack_messages pool ns st))"
  by (induction ns arbitrary: st) (auto simp: split_beta Let_def intro: shrinks_trans [OF shrinks_remove])

lemma shrinks_ack_datagram: "shrinks (sw_resend w) (sw_resend (ack_datagram pool t n w))"
  using shrinks_messages by (auto simp: ack_datagram_def Let_def split_beta split: option.split)

lemma shrinks_ack_range: "ack_range fuel pool t n mx w = Some (b, w') \<Longrightarrow> shrinks (sw_resend w) (sw_resend w')"
  by (induction fuel arbitrary: n w) (auto split: if_splits intro: shrinks_trans [OF shrinks_ack_datagram])

lemma shrinks_ack_ranges: "ack_ranges pool t rs w = Some (b, w') \<Longrightarrow> shrinks (sw_resend w) (sw_resend w')"
  by (induction rs arbitrary: w)
    (auto simp del: ack_range.simps split: if_splits option.splits bool.splits intro: shrinks_trans dest!: shrinks_ack_range)

lemma shrinks_handle_ack: "handle_ack pool t d w = Some (b, w') \<Longrightarrow> shrinks (sw_resend w) (sw_resend w')"
  by (auto simp: handle_ack_def Let_def split_beta simp del: receipt_loop.simps split: if_splits dest!: shrinks_ack_ranges)

lemma shrinks_nak: "shrinks st (nak_message t n st)"
proof -
  have "sendReliableMessageNumberIndex (nak_message t n st) = sendReliableMessageNumberIndex st"
    "signature (rs_mem (nak_message t n st) p) = signature (rs_mem st p)" for p
    by (auto simp: nak_message_def signature_def content_def body_bytes_def split: option.split)
  then show ?thesis unfolding shrinks_def using nak_message_inv [of st _ t n] by blast
qed

lemma shrinks_nak_messages: "shrinks st (fold (nak_message t) ns st)"
  by (induction ns arbitrary: st) (auto intro: shrinks_trans [OF shrinks_nak])

lemma shrinks_nak_datagram: "shrinks (sw_resend w) (sw_resend (nak_datagram t n w))"
  using shrinks_nak_messages by (simp add: nak_datagram_def split: option.split prod.split)

lemma shrinks_nak_range: "nak_range fuel t n mx w = Some (b, w') \<Longrightarrow> shrinks (sw_resend w) (sw_resend w')"
proof (induction fuel arbitrary: n w)
  case (Suc fuel)
  let ?w = "w\<lparr>sw_events := sw_events w @ [CC_OnNAK n]\<rparr>"
  have "shrinks (sw_resend w) (sw_resend (nak_datagram t n ?w))" using shrinks_nak_datagram [of ?w t n] by simp
  then show ?case using Suc.prems Suc.IH by (auto simp: Let_def split: if_splits intro: shrinks_trans)
qed simp

lemma shrinks_nak_ranges: "nak_ranges t rs w = Some (b, w') \<Longrightarrow> shrinks (sw_resend w) (sw_resend w')"
  by (induction rs arbitrary: w)
    (auto simp del: nak_range.simps split: if_splits option.splits bool.splits intro: shrinks_trans dest!: shrinks_nak_range)

lemma shrinks_handle_nak: "handle_nak t d w = Some (b, w') \<Longrightarrow> shrinks (sw_resend w) (sw_resend w')"
  by (auto simp: handle_nak_def Let_def split_beta split: if_splits dest!: shrinks_nak_ranges)

lemma apply_event_frame:
  "nextDatagramSequenceNumber (apply_event e x cc) = nextDatagramSequenceNumber cc"
  "MAXIMUM_MTU_INCLUDING_UDP_HEADER (apply_event e x cc) = MAXIMUM_MTU_INCLUDING_UDP_HEADER cc"
  by (cases x; simp add: OnAck_def OnNAK_def update_rtt_def Let_def)+

lemma apply_events_frame:
  "nextDatagramSequenceNumber (fold (apply_event e) xs cc) = nextDatagramSequenceNumber cc \<and>
   MAXIMUM_MTU_INCLUDING_UDP_HEADER (fold (apply_event e) xs cc) = MAXIMUM_MTU_INCLUDING_UDP_HEADER cc"
  by (induction xs arbitrary: cc) (simp_all add: apply_event_frame)

lemma reported_inv:
  assumes "sender_inv s B lg xs tx" "shrinks (tx_resend tx) (sw_resend w)"
  shows "\<exists>ys. sender_inv s B lg ys (reported e w tx)"
proof -
  obtain ys where ys: "resend_inv (sw_resend w) ys" "set ys \<subseteq> set xs" using assms by (auto simp: shrinks_def sender_inv_def)
  have f: "tx_resend (reported e w tx) = sw_resend w" "tx_queue (reported e w tx) = tx_queue tx"
    "GetMTU (tx_cc (reported e w tx)) = GetMTU (tx_cc tx)"
    using apply_events_frame by (simp_all add: reported_def GetMTU_def)
  have "signature (tx_mem (reported e w tx) p) = signature (tx_mem tx p)" for p using assms(2) by (simp add: shrinks_def f)
  note sg = signature_cong(1,3) [OF this]
  have "ready (tx_mem (reported e w tx) p) \<and> logged s lg (tx_mem (reported e w tx) p)" if "p \<in> set ys" for p
    unfolding sg using assms(1) ys(2) that by (auto simp: sender_inv_def)
  moreover have "queue_fresh (set ys) (tx_queue tx)" using assms(1) ys(2) by (auto simp: sender_inv_def queue_fresh_def)
  ultimately show ?thesis using assms ys(1) by (auto simp: sender_inv_def f shrinks_def)
qed

section \<open>The plan of a session\<close>

definition key :: "Reliability \<times> nat \<times> u24 \<times> u24 \<times> u8 \<times> u32 \<times> u16 \<times> u32 \<times> u8 list \<Rightarrow> nat \<times> nat" where
  "key x = (case x of (_, _, _, oi, oc, _) \<Rightarrow> (unat oc, unat oi))"

definition ordered_content :: "(nat \<Rightarrow> u8 list list) \<Rightarrow> Reliability \<times> nat \<times> u24 \<times> u24 \<times> u8 \<times> u32 \<times> u16 \<times> u32 \<times> u8 list \<Rightarrow> bool" where
  "ordered_content sent x \<longleftrightarrow>
    (case x of (r, _, _, oi, oc, fragments, _, _, body) \<Rightarrow>
       wire_reliability r = ReliableOrdered \<and> fragments = 0 \<and> body = sent (unat oc) ! unat oi)"

definition places :: "(nat \<Rightarrow> u8 list list) \<Rightarrow> (nat \<times> nat) set" where
  "places sent = {(c, k). c < NUMBER_OF_ORDERED_STREAMS \<and> k < length (sent c)}"

text \<open>Exactly one waiting or numbered packet for every message sent.\<close>

definition stock_ok :: "(nat \<Rightarrow> u8 list list) \<Rightarrow> SendQueue \<Rightarrow> InternalPacket list \<Rightarrow> bool" where
  "stock_ok sent q lg \<longleftrightarrow> (\<forall>x \<in># stock q lg. ordered_content sent x) \<and> image_mset key (stock q lg) = mset_set (places sent)"

definition total_sent :: "(nat \<Rightarrow> u8 list list) \<Rightarrow> nat" where
  "total_sent sent = (\<Sum>c < NUMBER_OF_ORDERED_STREAMS. length (sent c))"

definition session_inv :: "u32 \<Rightarrow> (nat \<Rightarrow> u8 list list) \<Rightarrow> u8 list list \<Rightarrow> Transmitter \<Rightarrow> BitStream \<Rightarrow> bool" where
  "session_inv mtu sent net tx bs \<longleftrightarrow> (\<exists>lg xs pss.
     sender_inv True (27 + 64 * total_sent sent) lg xs tx \<and> stock_ok sent (tx_queue tx) lg \<and> bs_inv bs \<and>
     length (orderedWriteIndex (tx_queue tx)) = NUMBER_OF_ORDERED_STREAMS \<and>
     (\<forall>c < NUMBER_OF_ORDERED_STREAMS. orderedWriteIndex (tx_queue tx) ! c = of_nat (length (sent c))) \<and>
     datagrams_ok True 0 (unat mtu) lg pss net \<and> numbers_sent 0 (length lg) pss \<and>
     nextDatagramSequenceNumber (tx_cc tx) = of_nat (length net) \<and> MAXIMUM_MTU_INCLUDING_UDP_HEADER (tx_cc tx) = mtu)"

lemma places_finite: "finite (places sent)" "card (places sent) = total_sent sent"
proof -
  have e: "places sent = (SIGMA c : {..<NUMBER_OF_ORDERED_STREAMS}. {..<length (sent c)})" by (auto simp: places_def)
  show "finite (places sent)" unfolding e by (intro finite_SigmaI) simp_all
  show "card (places sent) = total_sent sent" unfolding e total_sent_def by (subst card_SigmaI) simp_all
qed

lemma places_send:
  assumes "c < NUMBER_OF_ORDERED_STREAMS"
  shows "places (sent(c := sent c @ [d])) = insert (c, length (sent c)) (places sent)" "(c, length (sent c)) \<notin> places sent"
  using assms by (auto simp: places_def less_Suc_eq split: if_splits)

lemma total_send:
  assumes "c < NUMBER_OF_ORDERED_STREAMS"
  shows "total_sent (sent(c := sent c @ [d])) = total_sent sent + 1"
  using places_finite(2) [of "sent(c := sent c @ [d])"] places_finite [of sent]
    places_send(1) [OF assms, of sent d] places_send(2) [OF assms, of sent] by simp

lemma length_sent_total: "c < NUMBER_OF_ORDERED_STREAMS \<Longrightarrow> length (sent c) \<le> total_sent sent"
  unfolding total_sent_def by (rule member_le_sum) simp_all

section \<open>Sending\<close>

lemma enqueue_order: "orderedWriteIndex (enqueue push p ip q) = orderedWriteIndex q"
  by (simp add: enqueue_def GetNextWeight_def InitHeapWeights_def count_message_def Let_def)

lemma Send_ordered:
  assumes inv: "sq_inv B q" and B: "B + 128 < 4611686018427387904" and p: "p \<notin># queued q" and c: "channel < NUMBER_OF_ORDERED_STREAMS"
    and data: "data \<noteq> []" "length data \<le> maximumSendBlockBytes pool mtu" and mtu: "mtu \<le> MAXIMUM_MTU_SIZE" and rel: "rel = 3 \<or> rel = 7"
    and send: "Send pool mtu [p] data (8 * length data) prio rel channel copy time serial q = Inr (b, q')"
  shows "\<exists>ip. sq_inv (B + 64) q' \<and> queued q' = add_mset p (queued q) \<and> sq_mem q' = (sq_mem q)(p := ip) \<and> ip_data ip = data \<and>
    sendable (wire ip) \<and> is_reliable (reliability ip) \<and>
    orderedWriteIndex q' = (orderedWriteIndex q)[channel := orderedWriteIndex q ! channel + 1] \<and>
    key (content ip) = (channel, unat (orderedWriteIndex q ! channel)) \<and>
    (case content ip of (r, _, _, _, _, fragments, _, _, body) \<Rightarrow> wire_reliability r = ReliableOrdered \<and> fragments = 0 \<and> body = data)"
proof -
  have len: "length data < 1400" using data(2) mtu
    by (simp add: maximumSendBlockBytes_def GetMaxDatagramSizeExcludingMessageHeaderBytes_def GetDataHeaderByteLength_def MAXIMUM_MTU_SIZE_def)
  have bb: "BITS_TO_BYTES (8 * length data) = length data" using BITS_TO_BYTES_small [of "8 * length data"] len by simp
  have nz: "8 * length data \<noteq> 0" using data(1) by simp
  define r0 where "r0 = reliability_of (of_nat rel)"
  have r0: "r0 = ReliableOrdered \<or> r0 = ReliableOrderedWithAckReceipt" using rel by (auto simp: r0_def reliability_of_def)
  define ip0 where "ip0 = new_message pool data (8 * length data) (priority_of (if prio > NUMBER_OF_PRIORITIES then 1 else prio)) r0 copy time serial (internalOrderIndex q)"
  define q0 where "q0 = q\<lparr>internalOrderIndex := internalOrderIndex q + 1\<rparr>"
  define ip where "ip = ip0\<lparr>orderingChannel := of_nat channel, orderingIndex := orderedWriteIndex q ! channel\<rparr>"
  define q1 where "q1 = q0\<lparr>orderedWriteIndex := (orderedWriteIndex q)[channel := orderedWriteIndex q ! channel + 1],
    sequencedWriteIndex := (sequencedWriteIndex q)[channel := 0]\<rparr>"
  have "reliability ip0 = r0" by (simp add: ip0_def new_message_def)
  then have ao: "assign_order channel ip0 q0 = (ip, q1)" using r0 by (auto simp: assign_order_def ip_def q1_def q0_def)
  have "\<not> rel > 7" "\<not> channel \<ge> NUMBER_OF_ORDERED_STREAMS" "\<not> length data > maximumSendBlockBytes pool mtu" using rel c data(2) by auto
  then have q': "q' = enqueue (Heap_Push False) p ip q1"
    using send nz ao [unfolded ip0_def] unfolding Send_def Let_def bb r0_def [symmetric] q0_def [symmetric]
    by (cases "prio > NUMBER_OF_PRIORITIES") (auto split: if_splits)
  have i1: "sq_inv B q1" "queued q1 = queued q" "sq_mem q1 = sq_mem q" "orderedWriteIndex q1 = (orderedWriteIndex q)[channel := orderedWriteIndex q ! channel + 1]"
    using inv by (simp_all add: q1_def q0_def sq_inv_def entries_ok_def level_def queued_def)
  have n: "length [p] = packets_needed pool mtu (8 * length data)" using data(2) nz by (simp add: packets_needed_def bb Let_def)
  obtain pl ws where se: "sq_inv (B + 64 * length [p]) q'" "series_effect pl [p] ws q q'"
    using Send_effect [OF inv _ n _ _ send] B p by auto
  have mem: "sq_mem q' = (sq_mem q)(p := ip)" unfolding q' using enqueue_eq(2) [OF i1(1)] p i1(2,3) by simp
  have uc: "unat (of_nat channel :: u8) = channel" using c by (intro unat_of_nat_id) (simp add: NUMBER_OF_ORDERED_STREAMS_def)
  have f: "ip_data ip = data" "reliability ip = r0" "dataBitLength ip = 8 * length data" "splitPacketCount ip = 0" "orderingChannel ip = of_nat channel"
    "orderingIndex ip = orderedWriteIndex q ! channel" "body_bytes ip = data"
    using bb by (simp_all add: ip_def ip0_def new_message_def AllocateFromInternalPacketPool_def body_bytes_def)
  have "sendable (wire ip)" using f len data(1) bb c uc by (simp add: sendable_def MAXIMUM_MTU_SIZE_def word_less_nat_alt NUMBER_OF_ORDERED_STREAMS_def)
  moreover have "is_reliable (reliability ip)" "wire_reliability r0 = ReliableOrdered" using r0 f by (auto simp: is_reliable_def)
  moreover have "queued q' = add_mset p (queued q)" using series_effect_queued [OF se(2)] by simp
  ultimately show ?thesis using se(1) mem f uc i1(4) by (intro exI [of _ ip]) (simp add: q' enqueue_order content_def key_def)
qed

lemma stock_send:
  assumes "queued q' = add_mset p (queued q)" "p \<notin># queued q" "sq_mem q' = (sq_mem q)(p := ip)"
  shows "stock q' lg = add_mset (content ip) (stock q lg)"
proof -
  have "image_mset (\<lambda>r. content (((sq_mem q)(p := ip)) r)) (queued q) = image_mset (\<lambda>r. content (sq_mem q r)) (queued q)"
    by (rule image_mset_cong) (use assms(2) in auto)
  then show ?thesis by (simp add: stock_def assms)
qed

lemma session_send:
  assumes inv: "session_inv mtu sent net tx bs" and few: "total_sent sent < 1000000" and c: "channel < NUMBER_OF_ORDERED_STREAMS"
    and data: "data \<noteq> []" "length data \<le> maximumSendBlockBytes pool (GetMTU (tx_cc tx))" and rel: "rel = 3 \<or> rel = 7"
    and p: "Some p \<notin> set (resendBuffer (tx_resend tx))" "p \<notin># queued (tx_queue tx)"
    and send: "Send pool (GetMTU (tx_cc tx)) [p] data (8 * length data) prio rel channel copy time serial (tx_queue tx) = Inr (b, q)"
  shows "session_inv mtu (sent(channel := sent channel @ [data])) net (tx\<lparr>tx_queue := q\<rparr>) bs"
proof -
  let ?B = "27 + 64 * total_sent sent" and ?sent = "sent(channel := sent channel @ [data])" and ?q = "tx_queue tx"
  obtain lg xs pss where s: "sender_inv True ?B lg xs tx" and st: "stock_ok sent ?q lg" and bs: "bs_inv bs"
    and ow: "length (orderedWriteIndex ?q) = NUMBER_OF_ORDERED_STREAMS" "\<forall>c < NUMBER_OF_ORDERED_STREAMS. orderedWriteIndex ?q ! c = of_nat (length (sent c))"
    and d: "datagrams_ok True 0 (unat mtu) lg pss net" "numbers_sent 0 (length lg) pss" "nextDatagramSequenceNumber (tx_cc tx) = of_nat (length net)"
      "MAXIMUM_MTU_INCLUDING_UDP_HEADER (tx_cc tx) = mtu"
    using inv unfolding session_inv_def by blast
  have sq: "sq_inv ?B ?q" "GetMTU (tx_cc tx) \<le> MAXIMUM_MTU_SIZE" "?B + 128 < 4611686018427387904" using s few by (simp_all add: sender_inv_def)
  obtain ip where ip: "sq_inv (?B + 64) q" "queued q = add_mset p (queued ?q)" "sq_mem q = (sq_mem ?q)(p := ip)" "ip_data ip = data" "sendable (wire ip)"
      "is_reliable (reliability ip)" "orderedWriteIndex q = (orderedWriteIndex ?q)[channel := orderedWriteIndex ?q ! channel + 1]"
    and kx: "key (content ip) = (channel, unat (orderedWriteIndex ?q ! channel))"
    and cx: "case content ip of (r, _, _, _, _, fragments, _, _, body) \<Rightarrow> wire_reliability r = ReliableOrdered \<and> fragments = 0 \<and> body = data"
    using Send_ordered [OF sq(1,3) p(2) c data sq(2) rel send] by (elim exE conjE) (rule that)
  have tot: "total_sent ?sent = total_sent sent + 1" by (rule total_send [OF c])
  have lc: "length (sent channel) < 1000000" using length_sent_total [OF c, of sent] few by simp
  have key: "key (content ip) = (channel, length (sent channel))" using kx ow(2) c lc by (simp add: unat_of_nat_id)
  have ri: "resend_inv (tx_resend tx) xs" using s by (simp add: sender_inv_def)
  have px: "p \<notin> set xs"
  proof
    assume "p \<in> set xs"
    then have "resendBuffer (tx_resend tx) ! slot (tx_resend tx) p = Some p" by (rule resend_inv_slot [OF ri])
    moreover have "slot (tx_resend tx) p < length (resendBuffer (tx_resend tx))" using ri buffer_index_less by (simp add: resend_inv_def slot_def)
    ultimately show False using p(1) nth_mem by metis
  qed
  have same: "sq_mem q r = sq_mem ?q r" if "r \<in># queued ?q" for r using that p(2) ip(3) by auto
  have qf: "queue_fresh (set xs) ?q" "lossless ?q" using s by (simp_all add: sender_inv_def)
  have "queue_fresh (set xs) q"
    unfolding queue_fresh_def ip(2)
  proof (intro conjI allI ballI impI)
    show "count (add_mset p (queued ?q)) r \<le> 1" for r using qf(1) p(2) by (cases "r = p") (auto simp: queue_fresh_def not_in_iff)
    show "set_mset (add_mset p (queued ?q)) \<inter> set xs = {}" using qf(1) px by (auto simp: queue_fresh_def)
    fix r assume r: "r \<in># add_mset p (queued ?q)" "ip_data (sq_mem q r) \<noteq> []"
    show "sendable (wire (sq_mem q r))"
    proof (cases "r = p")
      case False
      then have "r \<in># queued ?q" using r(1) by simp
      then show ?thesis using qf(1) r(2) same by (simp add: queue_fresh_def)
    qed (simp add: ip)
  qed
  moreover have "ip_data (sq_mem q r) \<noteq> [] \<and> is_reliable (reliability (sq_mem q r))" if "r \<in># queued q" for r
  proof (cases "r = p")
    case True
    then show ?thesis using ip data(1) by simp
  next
    case False
    then have "r \<in># queued ?q" using that ip(2) by simp
    then show ?thesis using qf(2) same by (simp add: lossless_def)
  qed
  then have "lossless q" by (simp add: lossless_def)
  ultimately have s': "sender_inv True (27 + 64 * total_sent ?sent) lg xs (tx\<lparr>tx_queue := q\<rparr>)"
    using s ip(1) tot by (simp add: sender_inv_def algebra_simps)
  have "ordered_content ?sent x" if "x \<in># stock ?q lg" for x
  proof -
    have e: "image_mset key (stock ?q lg) = mset_set (places sent)" using st by (simp add: stock_ok_def)
    have "key x \<in># mset_set (places sent)" unfolding e [symmetric] using that by simp
    then have "key x \<in> places sent" using places_finite(1) [of sent] by simp
    moreover have "ordered_content sent x" using that st by (simp add: stock_ok_def)
    ultimately show ?thesis by (auto simp: ordered_content_def places_def key_def nth_append split: prod.splits)
  qed
  moreover have "ordered_content ?sent (content ip)" using cx key by (auto simp: ordered_content_def key_def split: prod.splits)
  moreover have "image_mset key (stock q lg) = mset_set (places ?sent)"
    using st key places_send [OF c] places_finite(1) [of sent] by (simp add: stock_send [OF ip(2) p(2) ip(3)] stock_ok_def)
  ultimately have "stock_ok ?sent q lg" by (auto simp: stock_ok_def stock_send [OF ip(2) p(2) ip(3)])
  moreover have "orderedWriteIndex q ! k = of_nat (length (?sent k))" if "k < NUMBER_OF_ORDERED_STREAMS" for k
    using ip(7) ow c that by (cases "k = channel") simp_all
  ultimately show ?thesis unfolding session_inv_def using s' bs ip(7) ow(1) d by (intro exI [of _ lg] exI [of _ xs] exI [of _ pss]) simp
qed

section \<open>Updates and reports\<close>

lemma datagrams_ok_append:
  assumes "datagrams_ok s 0 mtu lg pss net" "datagrams_ok s (of_nat (length net)) mtu (lg @ new) qss out"
  shows "datagrams_ok s 0 mtu (lg @ new) (pss @ qss) (net @ out)"
proof -
  have l: "length net = length pss" using assms(1) by (simp add: datagrams_ok_def)
  show ?thesis
    unfolding datagrams_ok_def
  proof (intro conjI allI impI)
    show "length (net @ out) = length (pss @ qss)" using assms by (simp add: datagrams_ok_def)
    fix i assume i: "i < length (pss @ qss)"
    let ?P = "datagram_sent (0 + of_nat i) ((pss @ qss) ! i) ((net @ out) ! i) \<and> length ((net @ out) ! i) \<le> mtu \<and> (pss @ qss) ! i \<noteq> [] \<and>
        packable ((pss @ qss) ! i) \<and> (\<forall>ip \<in> set ((pss @ qss) ! i). ready ip \<and> logged s (lg @ new) ip)"
    have ?P
    proof (cases "i < length pss")
      case True
      then show ?thesis using assms(1) l logged_append by (auto simp: datagrams_ok_def nth_append)
    next
      case False
      define j where "j = i - length pss"
      have j: "j < length qss" "i = length pss + j" using i False by (simp_all add: j_def)
      then show ?thesis using assms(2) l unfolding datagrams_ok_def by (simp add: nth_append)
    qed
    then show "datagram_sent (0 + of_nat i) ((pss @ qss) ! i) ((net @ out) ! i)" "length ((net @ out) ! i) \<le> mtu" "(pss @ qss) ! i \<noteq> []"
      "packable ((pss @ qss) ! i)" "\<forall>ip \<in> set ((pss @ qss) ! i). ready ip \<and> logged s (lg @ new) ip" by blast+
  qed
qed

lemma session_update:
  assumes inv: "session_inv mtu sent net tx bs" and ok: "rto_ok tx" "bandwidth_ok c tx" "\<not> isACK h" "\<not> isNAK h"
    and tr: "transmit env h c tx bs = Inr (out, tx', bs')"
  shows "session_inv mtu sent (net @ out) tx' bs'"
proof -
  let ?B = "27 + 64 * total_sent sent" and ?q = "tx_queue tx"
  obtain lg xs pss where s: "sender_inv True ?B lg xs tx" and st: "stock_ok sent ?q lg" and bs: "bs_inv bs"
    and ow: "length (orderedWriteIndex ?q) = NUMBER_OF_ORDERED_STREAMS" "\<forall>c < NUMBER_OF_ORDERED_STREAMS. orderedWriteIndex ?q ! c = of_nat (length (sent c))"
    and d: "datagrams_ok True 0 (unat mtu) lg pss net" "numbers_sent 0 (length lg) pss" "nextDatagramSequenceNumber (tx_cc tx) = of_nat (length net)"
      "MAXIMUM_MTU_INCLUDING_UDP_HEADER (tx_cc tx) = mtu"
    using inv unfolding session_inv_def by blast
  obtain new xs' qss where t: "sender_inv True ?B (lg @ new) xs' tx'" "bs_inv bs'" "moved ?q lg (tx_queue tx') (lg @ new)"
      "numbers_sent (length lg) (length (lg @ new)) qss" "datagrams_ok True (nextDatagramSequenceNumber (tx_cc tx)) (GetMTU (tx_cc tx)) (lg @ new) qss out"
      "tx_cc_frame tx tx' (length qss)"
    using transmit_inv [OF s ok bs, of env] unfolding tr by auto
  have "lossless ?q" using s by (simp add: sender_inv_def)
  then have "stock (tx_queue tx') (lg @ new) = stock ?q lg" using t(3) by (simp add: moved_def)
  then have st': "stock_ok sent (tx_queue tx') (lg @ new)" using st by (simp add: stock_ok_def)
  have "GetMTU (tx_cc tx) = unat mtu" using d(4) by (simp add: GetMTU_def)
  then have d': "datagrams_ok True 0 (unat mtu) (lg @ new) (pss @ qss) (net @ out)" using datagrams_ok_append [OF d(1)] t(5) d(3) by simp
  have n': "numbers_sent 0 (length (lg @ new)) (pss @ qss)"
    using d(2) t(4) unfolding numbers_sent_def by (metis UnCI le0 linorder_le_less_linear set_append)
  have "length qss = length out" using t(5) by (simp add: datagrams_ok_def)
  then show ?thesis unfolding session_inv_def using t(1,2,6) st' d' n' ow d(3,4)
    by (intro exI [of _ "lg @ new"] exI [of _ xs'] exI [of _ "pss @ qss"]) (simp add: tx_cc_frame_def)
qed

lemma session_report:
  assumes inv: "session_inv mtu sent net tx bs" and sh: "shrinks (tx_resend tx) (sw_resend w)"
  shows "session_inv mtu sent net (reported e w tx) bs"
proof -
  have f: "tx_queue (reported e w tx) = tx_queue tx" "nextDatagramSequenceNumber (tx_cc (reported e w tx)) = nextDatagramSequenceNumber (tx_cc tx)"
    "MAXIMUM_MTU_INCLUDING_UDP_HEADER (tx_cc (reported e w tx)) = MAXIMUM_MTU_INCLUDING_UDP_HEADER (tx_cc tx)"
    using apply_events_frame by (simp_all add: reported_def)
  show ?thesis using inv reported_inv [OF _ sh, of True _ _ _ e] unfolding session_inv_def f by blast
qed

lemma session_start:
  assumes "bs_inv bs" "9 \<le> mtu" "unat mtu \<le> MAXIMUM_MTU_SIZE"
  shows "session_inv mtu (\<lambda>_. []) [] (Transmitter_new qmem mem ring mtu) bs"
proof -
  let ?tx = "Transmitter_new qmem mem ring mtu"
  have q: "tx_queue ?tx = SendQueue_new qmem" "tx_resend ?tx = ResendState_new mem ring" "tx_cc ?tx = CC_Init mtu"
    by (simp_all add: Transmitter_new_def SendWindow_new_def)
  have "9 \<le> unat mtu" using assms(2) by (simp add: word_le_nat_alt)
  then have "sender_inv True (27 + 64 * total_sent (\<lambda>_. [])) [] [] ?tx"
    using SendQueue_new_inv [of qmem] resend_inv_new [of mem ring] assms(3)
    by (simp add: sender_inv_def q queue_fresh_def lossless_def total_sent_def GetMTU_def CC_Init_def ResendState_new_def)
  moreover have "stock_ok (\<lambda>_. []) (tx_queue ?tx) []"
    using SendQueue_new_inv(2) [of qmem] by (simp add: stock_ok_def stock_def q places_def)
  moreover have "length (orderedWriteIndex (tx_queue ?tx)) = NUMBER_OF_ORDERED_STREAMS"
    "\<forall>c < NUMBER_OF_ORDERED_STREAMS. orderedWriteIndex (tx_queue ?tx) ! c = of_nat (length ((\<lambda>_. []) c))"
    by (simp_all add: q SendQueue_new_def InitHeapWeights_def)
  moreover have "datagrams_ok True 0 (unat mtu) [] [] []" "numbers_sent 0 (length []) []" by (simp_all add: datagrams_ok_def numbers_sent_def)
  ultimately show ?thesis unfolding session_inv_def using assms(1) by (intro exI [of _ "[]"]) (simp add: q CC_Init_def)
qed

lemma session_invariant:
  assumes "session mtu sent net tx bs" "9 \<le> mtu" "unat mtu \<le> MAXIMUM_MTU_SIZE" "total_sent sent \<le> 1000000"
  shows "session_inv mtu sent net tx bs"
  using assms(1,4)
proof (induction rule: session.induct)
  case (sn_start bs qmem mem ring)
  then show ?case using session_start assms(2,3) by blast
next
  case (sn_send sent net tx bs channel data pool rel p prio copy time serial b q)
  have few: "total_sent sent < 1000000" using sn_send.prems unfolding total_send [OF sn_send.hyps(2)] by linarith
  then have "session_inv mtu sent net tx bs" using sn_send.IH by simp
  from session_send [OF this few sn_send.hyps(2-8)] show ?case .
next
  case (sn_update sent net tx bs c h env out tx' bs')
  then show ?case using session_update by blast
next
  case (sn_ack sent net tx bs pool time socketData b w exceeded)
  then show ?case using session_report [OF _ shrinks_handle_ack] by blast
next
  case (sn_nak sent net tx bs time socketData b w exceeded)
  then show ?case using session_report [OF _ shrinks_handle_nak] by blast
qed

text \<open>What the receiver reads from the front of a datagram: a header that is neither of a report, and its number.\<close>

definition data_number :: "u24 \<Rightarrow> u8 list \<Rightarrow> bool" where
  "data_number n buffer \<longleftrightarrow> (\<forall>h0 fresh. let h = fst (DatagramHeader_Deserialize h0 (BitStream_of fresh buffer False))
    in isValid h \<and> \<not> isACK h \<and> \<not> isNAK h \<and> datagramNumber h = n)"

lemma datagram_sent_number: "datagram_sent n ips buffer \<Longrightarrow> packable ips \<Longrightarrow> data_number n buffer"
proof -
  assume p: "packable ips" and "datagram_sent n ips buffer"
  then obtain h bs where h: "\<not> isACK h" "\<not> isNAK h" "datagramNumber h = n" "bs_inv bs" "buffer = SendBitStream (write_datagram h ips bs)"
    by (auto simp: datagram_sent_def)
  have "fst (DatagramHeader_Deserialize h0 (BitStream_of fresh buffer False)) = header_image h0 h" for h0 fresh
    using data_datagram_decoded(3) [OF h(4,1,2) p, of h0 fresh] h(5) by auto
  then show ?thesis using h by (simp add: data_number_def header_image_def)
qed

lemma session_transmit:
  assumes "session mtu sent net tx bs" "9 \<le> mtu" "unat mtu \<le> MAXIMUM_MTU_SIZE" "total_sent sent \<le> 1000000"
    and "rto_ok tx" "bandwidth_ok c tx" "\<not> isACK h" "\<not> isNAK h"
  shows "\<exists>out tx' bs'. transmit env h c tx bs = Inr (out, tx', bs') \<and> (\<forall>d \<in> set out. length d \<le> unat mtu) \<and>
    (\<forall>i < length out. data_number (of_nat (length net + i)) (out ! i)) \<and>
    nextDatagramSequenceNumber (tx_cc tx') = of_nat (length net + length out)"
proof -
  obtain lg xs where s: "sender_inv True (27 + 64 * total_sent sent) lg xs tx" "bs_inv bs" "nextDatagramSequenceNumber (tx_cc tx) = of_nat (length net)"
      "MAXIMUM_MTU_INCLUDING_UDP_HEADER (tx_cc tx) = mtu"
    using session_invariant [OF assms(1-4)] unfolding session_inv_def by blast
  obtain out tx' bs' lg' pss where t: "transmit env h c tx bs = Inr (out, tx', bs')"
      "datagrams_ok True (nextDatagramSequenceNumber (tx_cc tx)) (GetMTU (tx_cc tx)) lg' pss out" "tx_cc_frame tx tx' (length pss)"
    using transmit_inv [OF s(1) assms(5-8) s(2), of env] by blast
  then have l: "length out = length pss" "\<forall>d \<in> set out. length d \<le> unat mtu"
    using s(4) unfolding datagrams_ok_def GetMTU_def by (auto simp: in_set_conv_nth)
  have "data_number (of_nat (length net + i)) (out ! i)" if "i < length out" for i
  proof -
    have "datagram_sent (of_nat (length net) + of_nat i) (pss ! i) (out ! i)" "packable (pss ! i)"
      using t(2) that l(1) unfolding datagrams_ok_def s(3) by simp_all
    then show ?thesis using datagram_sent_number by (metis of_nat_add)
  qed
  then show ?thesis using t(1,3) s(3) l by (simp add: tx_cc_frame_def)
qed

section \<open>Both sides\<close>

definition log_channel :: "InternalPacket list \<Rightarrow> nat \<Rightarrow> nat" where
  "log_channel lg N = unat (orderingChannel (lg ! N))"

definition log_place :: "InternalPacket list \<Rightarrow> nat \<Rightarrow> nat" where
  "log_place lg N = unat (orderingIndex (lg ! N))"

lemma stock_log:
  assumes "stock_ok sent q lg"
  shows "\<forall>N < length lg. ordered_content sent (content (lg ! N)) \<and> (log_channel lg N, log_place lg N) \<in> places sent"
    and "\<forall>M < length lg. \<forall>N < length lg. M \<noteq> N \<and> log_channel lg M = log_channel lg N \<longrightarrow> log_place lg M \<noteq> log_place lg N"
    and "length lg \<le> total_sent sent"
    and "queued q = {#} \<Longrightarrow> (\<lambda>N. (log_channel lg N, log_place lg N)) ` {..<length lg} = places sent"
proof -
  let ?ks = "map (\<lambda>ip. key (content ip)) lg"
  have k: "?ks ! N = (log_channel lg N, log_place lg N)" if "N < length lg" for N
    using that by (simp add: key_def content_def log_channel_def log_place_def)
  have sub: "mset ?ks \<subseteq># mset_set (places sent)"
  proof -
    have "image_mset key (mset (map content lg)) \<subseteq># image_mset key (stock q lg)" by (rule image_mset_subseteq_mono) (simp add: stock_def)
    then show ?thesis using assms by (simp add: stock_ok_def image_mset.compositionality comp_def)
  qed
  then have mem: "set ?ks \<subseteq> places sent" using places_finite(1) [of sent] by (metis finite_set_mset_mset_set set_mset_mono set_mset_mset)
  have "count (mset ?ks) a \<le> 1" for a
  proof -
    have "count (mset ?ks) a \<le> count (mset_set (places sent)) a" using sub by (rule mset_subset_eq_count)
    also have "\<dots> \<le> 1" by (cases "a \<in> places sent") (simp_all add: places_finite(1))
    finally show ?thesis .
  qed
  then have "count (mset ?ks) a = (if a \<in> set ?ks then 1 else 0)" for a
    using le_antisym [of "count (mset ?ks) a" 1] by (simp add: count_eq_zero_iff Suc_le_eq)
  then have dis: "distinct ?ks" unfolding distinct_count_atmost_1 by blast
  show "\<forall>N < length lg. ordered_content sent (content (lg ! N)) \<and> (log_channel lg N, log_place lg N) \<in> places sent"
    using mem k nth_mem [of _ ?ks] assms by (fastforce simp: stock_ok_def stock_def)
  show "\<forall>M < length lg. \<forall>N < length lg. M \<noteq> N \<and> log_channel lg M = log_channel lg N \<longrightarrow> log_place lg M \<noteq> log_place lg N"
    using dis k nth_eq_iff_index_eq [OF dis] by (metis length_map prod.inject)
  show "length lg \<le> total_sent sent"
    using size_mset_mono [OF sub] places_finite [of sent] by simp
  show "(\<lambda>N. (log_channel lg N, log_place lg N)) ` {..<length lg} = places sent" if "queued q = {#}"
  proof -
    have "mset ?ks = mset_set (places sent)" using assms that by (simp add: stock_ok_def stock_def image_mset.compositionality comp_def)
    then have "set ?ks = places sent" using places_finite(1) [of sent] by (metis finite_set_mset_mset_set set_mset_mset)
    moreover have "set ?ks = (\<lambda>N. ?ks ! N) ` {..<length lg}" using nth_image [of "length lg" ?ks] by (simp add: lessThan_atLeast0)
    ultimately show ?thesis using k by (metis (no_types, lifting) image_cong lessThan_iff)
  qed
qed

lemma log_plan:
  assumes "stock_ok sent q lg" "total_sent sent \<le> 1000000"
  shows "ordered_plan (length lg) (log_channel lg) (log_place lg) sent"
proof -
  note l = stock_log [OF assms(1)]
  have "log_place lg N < 1000000" if "N < length lg" for N
    using l(1) that assms(2) length_sent_total [of "log_channel lg N" sent] by (auto simp: places_def dest!: spec [of _ N])
  then show ?thesis using l(1-3) assms(2) by (auto simp: ordered_plan_def places_def)
qed

lemma logged_plan:
  assumes "logged True lg ip" "stock_ok sent q lg" "length lg \<le> 1000000"
  shows "carries_plan (length lg) (log_channel lg) (log_place lg) sent ip"
proof -
  obtain N where N: "N < length lg" "reliableMessageNumber ip = of_nat N" "content ip = content (lg ! N)" using assms(1) by (auto simp: logged_def)
  have u: "unat (reliableMessageNumber ip) = N" using N assms(3) by (simp add: unat_of_nat_id)
  have "ordered_content sent (content ip)" using stock_log(1) [OF assms(2)] N by simp
  then show ?thesis using N(1,3) u
    by (simp add: carries_plan_def ordered_content_def content_def log_channel_def log_place_def)
qed

lemma datagrams_of:
  assumes "datagrams_ok True 0 mtu lg pss net" "i < length net" "i < 50000"
  shows "datagram_of (pss ! i) (net ! i)"
proof -
  have i: "i < length pss" "i < 50000" using assms by (simp_all add: datagrams_ok_def)
  then have d: "datagram_sent (of_nat i) (pss ! i) (net ! i)" "packable (pss ! i)" using assms(1) by (simp_all add: datagrams_ok_def)
  then obtain h bs where h: "\<not> isACK h" "\<not> isNAK h" "datagramNumber h = of_nat i" "bs_inv bs" "net ! i = SendBitStream (write_datagram h (pss ! i) bs)"
    by (auto simp: datagram_sent_def)
  have "unat (datagramNumber h) < 50000" using i(2) h(3) by (simp add: unat_of_nat_id)
  then show ?thesis unfolding datagram_of_def using d(2) h by blast
qed

lemma stream_numbers_all:
  assumes "{..<n} \<subseteq> A" "(\<lambda>N. (ch N, pl N)) ` {..<n} = places sent" "c < NUMBER_OF_ORDERED_STREAMS"
  shows "{..<length (sent c)} \<subseteq> stream_numbers ch pl A c"
proof
  fix k assume "k \<in> {..<length (sent c)}"
  then have "(c, k) \<in> (\<lambda>N. (ch N, pl N)) ` {..<n}" using assms(2,3) by (simp add: places_def)
  then obtain N where "N < n" "ch N = c" "pl N = k" by auto
  then show "k \<in> stream_numbers ch pl A c" using assms(1) by (auto simp: stream_numbers_def)
qed

text \<open>The arrivals: two clocks and which datagram it is.\<close>

definition arrivals :: "u8 list list \<Rightarrow> (u32 \<times> u64 \<times> nat) list \<Rightarrow> (u32 \<times> u64 \<times> u8 list) list" where
  "arrivals net as = map (\<lambda>a. (fst a, fst (snd a), net ! snd (snd a))) as"

section \<open>Properties\<close>

text \<open>
  Property C1.  The contract of the reliability layer for reliable ordered messages, both sides together.  The sending side is new, its datagram size is
  fixed, and it only sends messages of whole bytes with the reliabilities \<^verbatim>\<open>RELIABLE_ORDERED\<close> and \<^verbatim>\<open>RELIABLE_ORDERED_WITH_ACK_RECEIPT\<close> that fit a datagram, at
  most a million of them; between the sends it runs updates (in states where the conversions of the congestion control are defined) and handles any
  acknowledgements and loss reports.  Whatever selection of its first 50000 datagrams arrives, in whatever order and multiplicity, the receiver handles every
  one without a fault, and on each channel the application gets a prefix of what was sent on it: nothing out of order, nothing twice, nothing altered.
  Once the outgoing queue is empty and every datagram has arrived at least once, it is all that was sent.
\<close>

theorem session_delivers:
  assumes "session mtu sent net tx bs" "9 \<le> mtu" "unat mtu \<le> MAXIMUM_MTU_SIZE" "total_sent sent \<le> 1000000"
    and "\<forall>a \<in> set as. snd (snd a) < length net \<and> snd (snd a) < 50000"
  shows "\<exists>lay. handle_all env (arrivals net as) (Layer_new now w m ws) = Inr lay \<and>
    (\<forall>c < NUMBER_OF_ORDERED_STREAMS. \<exists>k. map ip_data (filter (on_stream c) (outputQueue (lay_receive lay))) = take k (sent c)) \<and>
    (queued (tx_queue tx) = {#} \<and> {..<length net} \<subseteq> (\<lambda>a. snd (snd a)) ` set as \<longrightarrow>
       (\<forall>c < NUMBER_OF_ORDERED_STREAMS. map ip_data (filter (on_stream c) (outputQueue (lay_receive lay))) = sent c))"
proof -
  obtain lg xs pss where st: "stock_ok sent (tx_queue tx) lg" and d: "datagrams_ok True 0 (unat mtu) lg pss net" "numbers_sent 0 (length lg) pss"
    using session_invariant [OF assms(1-4)] unfolding session_inv_def by blast
  have n: "length lg \<le> 1000000" using stock_log(3) [OF st] assms(4) by simp
  let ?ch = "log_channel lg" and ?pl = "log_place lg" and ?pss = "map (\<lambda>a. pss ! snd (snd a)) as"
  have "list_all2 (\<lambda>d ips. datagram_of ips (snd (snd d)) \<and> (\<forall>ip \<in> set ips. carries_plan (length lg) ?ch ?pl sent ip)) (arrivals net as) ?pss"
    unfolding arrivals_def list_all2_map1 list_all2_map2 list_all2_same
  proof (intro ballI conjI)
    fix a assume "a \<in> set as"
    then have i: "snd (snd a) < length net" "snd (snd a) < 50000" using assms(5) by blast+
    show "datagram_of (pss ! snd (snd a)) (snd (snd (fst a, fst (snd a), net ! snd (snd a))))" using datagrams_of [OF d(1) i] by simp
    fix ip assume "ip \<in> set (pss ! snd (snd a))"
    then have "logged True lg ip" using d(1) i unfolding datagrams_ok_def by simp
    then show "carries_plan (length lg) ?ch ?pl sent ip" by (rule logged_plan [OF _ st n])
  qed
  from wire_delivery [OF log_plan [OF st assms(4)] this, of env now w m ws] obtain lay where
    lay: "handle_all env (arrivals net as) (Layer_new now w m ws) = Inr lay"
      "\<forall>c < NUMBER_OF_ORDERED_STREAMS. map ip_data (filter (on_stream c) (outputQueue (lay_receive lay))) =
        take (first_missing (stream_numbers ?ch ?pl (set (message_numbers (concat ?pss))) c)) (sent c)"
    by blast
  have "map ip_data (filter (on_stream c) (outputQueue (lay_receive lay))) = sent c"
    if e: "queued (tx_queue tx) = {#}" and all: "{..<length net} \<subseteq> (\<lambda>a. snd (snd a)) ` set as" and c: "c < NUMBER_OF_ORDERED_STREAMS" for c
  proof -
    have "N \<in> set (message_numbers (concat ?pss))" if N: "N < length lg" for N
    proof -
      obtain ips ip where ip: "ips \<in> set pss" "ip \<in> set ips" "reliableMessageNumber ip = of_nat N" using d(2) N by (auto simp: numbers_sent_def)
      then obtain i where i: "i < length pss" "ips = pss ! i" by (metis in_set_conv_nth)
      then have "i \<in> (\<lambda>a. snd (snd a)) ` set as" using all d(1) by (auto simp: datagrams_ok_def)
      then have "ips \<in> set ?pss" using i(2) by auto
      moreover have "unat (reliableMessageNumber ip) = N" using ip(3) N n by (simp add: unat_of_nat_id)
      ultimately show ?thesis using ip(2) by (force simp: message_numbers_def)
    qed
    then have "{..<length lg} \<subseteq> set (message_numbers (concat ?pss))" by auto
    moreover have "(\<lambda>N. (?ch N, ?pl N)) ` {..<length lg} = places sent" by (rule stock_log(4) [OF st e])
    ultimately have "{..<length (sent c)} \<subseteq> stream_numbers ?ch ?pl (set (message_numbers (concat ?pss))) c"
      using c by (rule stream_numbers_all)
    then have "length (sent c) \<le> first_missing (stream_numbers ?ch ?pl (set (message_numbers (concat ?pss))) c)"
      by (intro first_missing_ge) (simp add: stream_numbers_def)
    then show ?thesis using lay(2) c by simp
  qed
  then have "queued (tx_queue tx) = {#} \<and> {..<length net} \<subseteq> (\<lambda>a. snd (snd a)) ` set as \<longrightarrow>
       (\<forall>c < NUMBER_OF_ORDERED_STREAMS. map ip_data (filter (on_stream c) (outputQueue (lay_receive lay))) = sent c)" by simp
  moreover have "\<forall>c < NUMBER_OF_ORDERED_STREAMS. \<exists>k. map ip_data (filter (on_stream c) (outputQueue (lay_receive lay))) = take k (sent c)"
    using lay(2) by auto
  ultimately show ?thesis using lay(1) by (intro exI [of _ lay]) simp
qed

text \<open>A message on channel 3 and an update.\<close>

lemma Send_returns: "prio < 4 \<Longrightarrow> \<exists>b q'. Send pool mtu ps data bits prio rel channel copy time serial q = Inr (b, q')"
  by (auto simp: Send_def Let_def NUMBER_OF_PRIORITIES_def split: prod.split)

definition demo_sent :: "nat \<Rightarrow> u8 list list" where
  "demo_sent = (\<lambda>_. []) (3 := [[1, 2, 3]])"

lemma demo_sent_total: "total_sent demo_sent \<le> 1000000"
  using total_send [of 3 "\<lambda>_. []" "[1, 2, 3]"] by (simp add: demo_sent_def total_sent_def NUMBER_OF_ORDERED_STREAMS_def)

lemma demo_mtu: "9 \<le> (1372 :: u32)" "unat (1372 :: u32) \<le> MAXIMUM_MTU_SIZE"
  by (simp_all add: MAXIMUM_MTU_SIZE_def word_le_nat_alt)

lemma demo_session: "\<exists>tx. session 1372 demo_sent [] tx (BitStream_new (\<lambda>_. 9)) \<and> rto_ok tx \<and> bandwidth_ok True tx"
proof -
  let ?tx = "Transmitter_new (\<lambda>_. demo_packet) (\<lambda>_. demo_packet) empty_ring 1372" and ?bs = "BitStream_new (\<lambda>_. 9)"
  let ?sent = "(\<lambda>_. []) (3 := (\<lambda>_. []) (3 :: nat) @ [[1, 2, 3 :: u8]])"
  have ds: "?sent = demo_sent" by (simp add: demo_sent_def)
  have f: "tx_queue ?tx = SendQueue_new (\<lambda>_. demo_packet)" "tx_resend ?tx = ResendState_new (\<lambda>_. demo_packet) empty_ring" "tx_cc ?tx = CC_Init 1372"
    by (simp_all add: Transmitter_new_def SendWindow_new_def)
  have mtu: "GetMTU (tx_cc ?tx) = 1372" by (simp add: f GetMTU_def CC_Init_def)
  obtain b q where sd: "Send demo_packet (GetMTU (tx_cc ?tx)) [5] [1, 2, 3] (8 * length [1, 2, 3 :: u8]) 1 3 3 True 0 0 (tx_queue ?tx) = Inr (b, q)"
    using Send_returns [of 1] by fastforce
  let ?tx1 = "?tx\<lparr>tx_queue := q\<rparr>"
  have sn: "session 1372 ?sent [] ?tx1 ?bs"
  proof (rule sn_send [OF sn_start [OF BitStream_new_inv] _ _ _ _ _ _ sd])
    show "length [1, 2, 3 :: u8] \<le> maximumSendBlockBytes demo_packet (GetMTU (tx_cc ?tx))"
      unfolding mtu by (simp add: maximumSendBlockBytes_def GetMaxDatagramSizeExcludingMessageHeaderBytes_def GetDataHeaderByteLength_def
          GetMaxMessageHeaderLengthBits_def GetMessageHeaderLengthBits_def BITS_TO_BYTES_def)
    show "Some 5 \<notin> set (resendBuffer (tx_resend ?tx))" by (simp add: f ResendState_new_def)
    show "5 \<notin># queued (tx_queue ?tx)" using SendQueue_new_inv(2) by (simp add: f)
  qed (simp_all add: NUMBER_OF_ORDERED_STREAMS_def)
  have ok: "rto_ok ?tx1" "bandwidth_ok True ?tx1"
    using f(2,3) double_nat [of 1372]
    by (simp_all add: rto_ok_def GetRTOForRetransmission_def CC_Init_def bandwidth_ok_def GetTransmissionBandwidth_def ResendState_new_def double_to_int_def)
  show ?thesis using sn ok unfolding ds by blast
qed

definition demo_transmit :: TransmitEnv where
  "demo_transmit = \<lparr>te_time = 1000, te_limit = 0, te_tracker = (\<lambda>_. \<lparr>value1 = 0, tv_time = 0\<rparr>), te_history = (\<lambda>_. \<lparr>node_messages = [], timeSent = 0\<rparr>)\<rparr>"

lemma demo_data_header: "\<not> isACK demo_header" "\<not> isNAK demo_header"
  by (simp_all add: demo_header_def)

theorem session_delivers_witness:
  "\<exists>net lay k. handle_all demo_env (arrivals net (map (\<lambda>i. (1, 2, i)) [0..<min 7 (length net)])) (Layer_new 0 new_send_window 1372 (BitStream_new (\<lambda>_. 9))) = Inr lay \<and>
     map ip_data (filter (on_stream 3) (outputQueue (lay_receive lay))) = take k [[1, 2, 3]]"
proof -
  let ?bs = "BitStream_new (\<lambda>_. 9)"
  obtain tx where tx: "session 1372 demo_sent [] tx ?bs" "rto_ok tx" "bandwidth_ok True tx" using demo_session by blast
  obtain net tx' bs' where "transmit demo_transmit demo_header True tx ?bs = Inr (net, tx', bs')"
    using session_transmit [OF tx(1) demo_mtu demo_sent_total tx(2,3) demo_data_header, of demo_transmit] by blast
  from sn_update [OF tx demo_data_header this] have sn: "session 1372 demo_sent net tx' bs'" by simp
  let ?as = "map (\<lambda>i. (1, 2, i)) [0..<min 7 (length net)]"
  have "\<forall>a \<in> set ?as. snd (snd a) < length net \<and> snd (snd a) < 50000" by auto
  from session_delivers [OF sn demo_mtu demo_sent_total this, of demo_env 0 new_send_window 1372 ?bs]
  obtain lay where lay: "handle_all demo_env (arrivals net ?as) (Layer_new 0 new_send_window 1372 ?bs) = Inr lay"
    "\<forall>c < NUMBER_OF_ORDERED_STREAMS. \<exists>k. map ip_data (filter (on_stream c) (outputQueue (lay_receive lay))) = take k (demo_sent c)"
    by blast
  have "\<exists>k. map ip_data (filter (on_stream 3) (outputQueue (lay_receive lay))) = take k (demo_sent 3)"
    by (rule lay(2) [rule_format]) (simp add: NUMBER_OF_ORDERED_STREAMS_def)
  then show ?thesis using lay(1) by (auto simp: demo_sent_def)
qed

text \<open>
  Property C2.  The transmission of an update ends without a fault in every state such a sending side reaches (reliable ordered messages that fit a datagram, at most
  a million), provided that two conversions are defined there: the retransmission timeout and the bandwidth of the congestion control.  Neither the loop over due
  packets nor the loop over the outgoing queue runs on, every datagram fits the datagram size, and the receiver reads from the datagrams the numbers that follow
  the ones sent before, each one higher than the last modulo \<open>2\<^sup>2\<^sup>4\<close>.
\<close>

theorem update_ends_and_fits:
  assumes "session mtu sent net tx bs" "9 \<le> mtu" "unat mtu \<le> MAXIMUM_MTU_SIZE" "total_sent sent \<le> 1000000"
    and "rto_ok tx" "bandwidth_ok c tx" "\<not> isACK h" "\<not> isNAK h"
  shows "\<exists>out tx' bs'. transmit env h c tx bs = Inr (out, tx', bs') \<and> (\<forall>d \<in> set out. length d \<le> unat mtu) \<and>
    (\<forall>i < length out. data_number (of_nat (length net + i)) (out ! i)) \<and>
    nextDatagramSequenceNumber (tx_cc tx') = of_nat (length net + length out)"
  using session_transmit [OF assms] by blast

theorem update_ends_and_fits_witness:
  "\<exists>tx out tx' bs'. queued (tx_queue tx) \<noteq> {#} \<and> transmit demo_transmit demo_header True tx (BitStream_new (\<lambda>_. 9)) = Inr (out, tx', bs') \<and>
     (\<forall>d \<in> set out. length d \<le> 1372) \<and> (\<forall>i < length out. data_number (of_nat i) (out ! i))"
proof -
  let ?bs = "BitStream_new (\<lambda>_. 9)"
  obtain tx where tx: "session 1372 demo_sent [] tx ?bs" "rto_ok tx" "bandwidth_ok True tx" using demo_session by blast
  obtain lg xs pss where i: "stock_ok demo_sent (tx_queue tx) lg" "datagrams_ok True 0 (unat (1372 :: u32)) lg pss []" "numbers_sent 0 (length lg) pss"
    using session_invariant [OF tx(1) demo_mtu demo_sent_total] unfolding session_inv_def by blast
  have "pss = []" using i(2) by (simp add: datagrams_ok_def)
  then have "lg = []" using i(3) by (auto simp: numbers_sent_def)
  moreover have "(3, 0) \<in> places demo_sent" by (simp add: places_def demo_sent_def NUMBER_OF_ORDERED_STREAMS_def)
  ultimately have "queued (tx_queue tx) \<noteq> {#}" using stock_log(4) [OF i(1)] by auto
  then show ?thesis using update_ends_and_fits [OF tx(1) demo_mtu demo_sent_total tx(2,3) demo_data_header, of demo_transmit] tx by auto
qed

end
