(* ===== verification/Update_Internal.thy ===== *)
theory Update_Internal
  imports Mtu_BlackHole Session
begin

text \<open>
  The reliability layer of a connection as one state with its operations: \<^verbatim>\<open>Send\<close>, \<^verbatim>\<open>HandleSocketReceiveFromConnectedPlayer\<close>,
  \<^verbatim>\<open>UpdateInternal\<close> from its first to its last line, \<^verbatim>\<open>Receive\<close>, \<^verbatim>\<open>Reset\<close> and the setters.  The send window and the congestion control
  are in \<open>cn_layer\<close>; the transmitter of \<open>cn_tx\<close> is completed with them when it is used.  Of the per second metrics only the one that is
  read, \<^verbatim>\<open>USER_MESSAGE_BYTES_SENT\<close>, is kept.
\<close>

section \<open>State\<close>

record Connection =
  cn_layer :: Layer
  cn_tx :: Transmitter
  cn_lastUpdateTime :: u64
  unreliableTimeout :: u64
  timeToNextUnreliableCull :: u64
  lastBpsClear :: u64
  timeOfLastContinualSend :: u64
  timeoutTime :: u32
  deadConnection :: bool
  currentMtuBytes :: int

definition cn_acks :: "Connection \<Rightarrow> AckState" where
  "cn_acks c = rc_acks (lay_receive (cn_layer c))"

definition set_acks :: "AckState \<Rightarrow> Connection \<Rightarrow> Connection" where
  "set_acks st c = c\<lparr>cn_layer := (cn_layer c)\<lparr>lay_receive := (lay_receive (cn_layer c))\<lparr>rc_acks := st\<rparr>\<rparr>\<rparr>"

definition tx_of :: "Connection \<Rightarrow> Transmitter" where
  "tx_of c = (cn_tx c)\<lparr>tx_window := lay_send (cn_layer c), tx_cc := ack_cc (cn_acks c)\<rparr>"

definition put_tx :: "Transmitter \<Rightarrow> Connection \<Rightarrow> Connection" where
  "put_tx tx c =
    (let c1 = set_acks ((cn_acks c)\<lparr>ack_cc := tx_cc tx\<rparr>) c
     in c1\<lparr>cn_tx := tx, cn_layer := (cn_layer c1)\<lparr>lay_send := tx_window tx\<rparr>\<rparr>)"

definition set_exceeded :: "bool \<Rightarrow> Connection \<Rightarrow> Connection" where
  "set_exceeded b c = c\<lparr>cn_layer := (cn_layer c)\<lparr>bandwidthExceededStatistic := b\<rparr>\<rparr>"

definition push_output :: "InternalPacket list \<Rightarrow> Connection \<Rightarrow> Connection" where
  "push_output ips c =
    (let lay = cn_layer c; rc = lay_receive lay
     in c\<lparr>cn_layer := lay\<lparr>lay_receive := rc\<lparr>outputQueue := outputQueue rc @ ips\<rparr>\<rparr>\<rparr>)"

text \<open>What an update leaves to others: recycled packets and memory, addresses of new packets, headers before their fields are set.\<close>

record UpdateEnv =
  ue_transmit :: TransmitEnv
  ue_pool :: InternalPacket
  ue_addresses :: "ptr list list"
  ue_bytes :: "nat \<Rightarrow> u8"
  ue_header :: DatagramHeaderFormat

section \<open>Parts of an update\<close>

definition AckTimeout :: "u64 \<Rightarrow> Connection \<Rightarrow> bool" where
  "AckTimeout curTime c \<longleftrightarrow>
    ucast (timeLastDatagramArrived (cn_layer c)) - curTime > 10000 \<and>
    curTime - ucast (timeLastDatagramArrived (cn_layer c)) > ucast (timeoutTime c)"

definition TimeMS_of :: "u64 \<Rightarrow> u64" where
  "TimeMS_of time = ucast (ucast (time div 1000) :: u32)"

text \<open>Unreliable messages that have waited too long lose their data; the entry stays in the queue until it is popped.  None is a loop that
  did not end within the fuel.\<close>

definition cull_packet :: "ptr \<Rightarrow> SendQueue \<Rightarrow> SendQueue" where
  "cull_packet p sq =
    sq\<lparr>sq_mem := (sq_mem sq)(p := (sq_mem sq p)\<lparr>ip_data := []\<rparr>),
       unreliableLinkedList := RemoveFromUnreliableLinkedList (reliability (sq_mem sq p)) p (unreliableLinkedList sq)\<rparr>"

primrec cull_loop :: "nat \<Rightarrow> u64 \<Rightarrow> u64 \<Rightarrow> ptr \<Rightarrow> ptr \<Rightarrow> SendQueue \<Rightarrow> SendQueue option" where
  "cull_loop 0 time timeout stop cur sq = None"
| "cull_loop (Suc fuel) time timeout stop cur sq =
    (if time > creationTime (sq_mem sq cur) + timeout then
       let next = ring_next (unreliableLinkedList sq) cur;
           sq1 = cull_packet cur sq
       in if cur = stop then Some sq1 else cull_loop fuel time timeout stop next sq1
     else Some sq)"

definition cull_unreliable :: "u64 \<Rightarrow> u64 \<Rightarrow> SendQueue \<Rightarrow> SendQueue option" where
  "cull_unreliable time timeout sq =
    (case ring_head (unreliableLinkedList sq) of
       None \<Rightarrow> Some sq
     | Some h \<Rightarrow>
         cull_loop (Heap_Size (outgoingPacketBuffer sq) + 1) time timeout (ring_prev (unreliableLinkedList sq) h) h sq)"

definition cull :: "u64 \<Rightarrow> u64 \<Rightarrow> Connection \<Rightarrow> Connection option" where
  "cull time timeSinceLastTick c =
    (if unreliableTimeout c > 0 then
       if timeSinceLastTick \<ge> timeToNextUnreliableCull c then
         map_option (\<lambda>sq. c\<lparr>cn_tx := (cn_tx c)\<lparr>tx_queue := sq\<rparr>, timeToNextUnreliableCull := unreliableTimeout c div 2\<rparr>)
           (cull_unreliable time (unreliableTimeout c) (tx_queue (cn_tx c)))
       else Some (c\<lparr>timeToNextUnreliableCull := timeToNextUnreliableCull c - timeSinceLastTick\<rparr>)
     else Some c)"

text \<open>Receipts for unreliable messages that were not acknowledged in time, from index \<open>i\<close> on.\<close>

function loss_loop ::
    "InternalPacket \<Rightarrow> u64 \<Rightarrow> nat \<Rightarrow> UnreliableWithAckReceiptNode list \<Rightarrow> InternalPacket list \<times> UnreliableWithAckReceiptNode list" where
  "loss_loop pool time i xs =
    (if i < length xs then
       if due time (un_nextActionTime (xs ! i)) then
         let (out, xs') = loss_loop pool time i (remove_at i xs)
         in (receipt ID_SND_RECEIPT_LOSS pool (un_sendReceiptSerial (xs ! i)) # out, xs')
       else loss_loop pool time (Suc i) xs
     else ([], xs))"
  by pat_completeness auto
termination
  by (relation "measure (\<lambda>(pool, time, i, xs). length xs - i)") (auto simp: remove_at_def)

declare loss_loop.simps [simp del]

definition report_losses :: "InternalPacket \<Rightarrow> u64 \<Rightarrow> Connection \<Rightarrow> Connection" where
  "report_losses pool time c =
    (let w = lay_send (cn_layer c);
         (out, xs) = loss_loop pool time 0 (unreliableWithAckReceiptHistory w)
     in push_output out (c\<lparr>cn_layer := (cn_layer c)\<lparr>lay_send := w\<lparr>unreliableWithAckReceiptHistory := xs\<rparr>\<rparr>\<rparr>))"

definition clear_metrics :: "u64 \<Rightarrow> Connection \<Rightarrow> Connection" where
  "clear_metrics time c =
    (if time > lastBpsClear c + 100000
     then c\<lparr>cn_tx := (cn_tx c)\<lparr>tx_bps := ClearExpired1 time (tx_bps (cn_tx c))\<rparr>, lastBpsClear := time\<rparr> else c)"

text \<open>Acknowledgements and loss reports; the first component is what goes to the socket.\<close>

definition send_acks ::
    "UpdateEnv \<Rightarrow> u64 \<Rightarrow> bool \<Rightarrow> Connection \<Rightarrow> BitStream \<Rightarrow> TransmitFault + u8 list list \<times> Connection \<times> BitStream" where
  "send_acks env time forceSendACKs c bs =
    (case (if forceSendACKs then Some True else ShouldSendACKs time (ack_cc (cn_acks c))) of
       None \<Rightarrow> Inl UndefinedCast
     | Some should \<Rightarrow>
         if should then
           case SendACKs (length (acknowlegements (cn_acks c))) (ue_bytes env) (ue_header env) (GetMTU (ack_cc (cn_acks c))) bs (cn_acks c) of
             None \<Rightarrow> Inl EndlessLoop
           | Some (sent, bs1, st) \<Rightarrow> Inr (sent, set_acks st c, bs1)
         else Inr ([], c, bs))"

definition send_loss_reports :: "UpdateEnv \<Rightarrow> Connection \<Rightarrow> BitStream \<Rightarrow> u8 list list \<times> Connection \<times> BitStream" where
  "send_loss_reports env c bs =
    (let (sent, bs1, st) = send_naks (ue_bytes env) (ue_header env) (GetMTU (ack_cc (cn_acks c))) bs (cn_acks c)
     in (sent, set_acks st c, bs1))"

definition outgoing_waiting :: "Transmitter \<Rightarrow> bool" where
  "outgoing_waiting tx \<longleftrightarrow> Heap_Size (outgoingPacketBuffer (tx_queue tx)) > 0"

definition send_data ::
    "UpdateEnv \<Rightarrow> u64 \<Rightarrow> bool \<Rightarrow> bool \<Rightarrow> Connection \<Rightarrow> BitStream \<Rightarrow> TransmitFault + u8 list list \<times> Connection \<times> BitStream" where
  "send_data env time slowStart isContinuous c bs =
    (case black_hole_check (ue_pool env) (ue_addresses env) time (currentMtuBytes c, ResetPacketsAndDatagrams (tx_of c)) of
       Inl f \<Rightarrow> Inl f
     | Inr (mtu, tx) \<Rightarrow>
         (case transmit ((ue_transmit env)\<lparr>te_time := time\<rparr>) (data_header (ue_header env) slowStart isContinuous) isContinuous tx bs of
            Inl f \<Rightarrow> Inl f
          | Inr (sent, tx1, bs1) \<Rightarrow>
              let exceeded = outgoing_waiting tx1;
                  c1 = (put_tx tx1 c)\<lparr>currentMtuBytes := mtu\<rparr>;
                  c2 = (if sent = [] then c1 else c1\<lparr>timeOfLastContinualSend := (if exceeded then time else 0)\<rparr>)
              in Inr (sent, set_exceeded exceeded c2, bs1)))"

section \<open>The update\<close>

definition UpdateInternal ::
    "UpdateEnv \<Rightarrow> u64 \<Rightarrow> bool \<Rightarrow> Connection \<Rightarrow> BitStream \<Rightarrow> TransmitFault + u8 list list \<times> Connection \<times> BitStream" where
  "UpdateInternal env time forceSendACKs c0 bs =
    (if \<not> forceSendACKs \<and> time \<le> cn_lastUpdateTime c0 then Inr ([], c0\<lparr>cn_lastUpdateTime := time\<rparr>, bs)
     else
       let elapsed = time - cn_lastUpdateTime c0;
           timeSinceLastTick = (if elapsed > 100000 then 100000 else elapsed)
       in case cull time timeSinceLastTick (c0\<lparr>cn_lastUpdateTime := time\<rparr>) of
            None \<Rightarrow> Inl EndlessLoop
          | Some c \<Rightarrow>
              if messagesInResendBuffer (tx_resend (tx_of c)) \<noteq> 0 \<and> AckTimeout (TimeMS_of time) c
              then Inr ([], c\<lparr>deadConnection := True\<rparr>, bs)
              else
                (case send_acks env time forceSendACKs c bs of
                   Inl f \<Rightarrow> Inl f
                 | Inr (out1, c1, bs1) \<Rightarrow>
                     let (out2, c2, bs2) = send_loss_reports env c1 bs1;
                         slowStart = IsInSlowStart (ack_cc (cn_acks c2));
                         isContinuous = bandwidthExceededStatistic (cn_layer c2);
                         exceeded = outgoing_waiting (tx_of c2);
                         hasDataToSendOrResend = (\<not> IsResendQueueEmpty (tx_resend (tx_of c2)) \<or> exceeded);
                         c3 = report_losses (ue_pool env) time (clear_metrics time (set_exceeded exceeded c2))
                     in if hasDataToSendOrResend then
                          (case send_data env time slowStart isContinuous c3 bs2 of
                             Inl f \<Rightarrow> Inl f
                           | Inr (sent, c4, bs3) \<Rightarrow> Inr (out1 @ out2 @ sent, c4, bs3))
                        else Inr (out1 @ out2, c3, bs2)))"

section \<open>The other operations\<close>

definition Connection_Update :: "UpdateEnv \<Rightarrow> u64 \<Rightarrow> Connection \<Rightarrow> BitStream \<Rightarrow> TransmitFault + u8 list list \<times> Connection \<times> BitStream" where
  "Connection_Update env time c bs = UpdateInternal env time False c bs"

definition UpdateAndForceACKs :: "UpdateEnv \<Rightarrow> u64 \<Rightarrow> Connection \<Rightarrow> BitStream \<Rightarrow> TransmitFault + u8 list list \<times> Connection \<times> BitStream" where
  "UpdateAndForceACKs env time c bs = UpdateInternal env time True c bs"

text \<open>\<^verbatim>\<open>Receive\<close> hands out the data of the next message and its length in bits; none is the length 0.\<close>

definition Receive :: "Connection \<Rightarrow> (u8 list \<times> nat) option \<times> Connection" where
  "Receive c =
    (let lay = cn_layer c; rc = lay_receive lay
     in case outputQueue rc of
          [] \<Rightarrow> (None, c)
        | ip # ips \<Rightarrow> (Some (ip_data ip, dataBitLength ip), c\<lparr>cn_layer := lay\<lparr>lay_receive := rc\<lparr>outputQueue := ips\<rparr>\<rparr>\<rparr>))"

definition SetTimeoutTime :: "u32 \<Rightarrow> Connection \<Rightarrow> Connection" where
  "SetTimeoutTime time c = c\<lparr>timeoutTime := time\<rparr>"

definition SetUnreliableTimeout :: "u32 \<Rightarrow> Connection \<Rightarrow> Connection" where
  "SetUnreliableTimeout timeoutMS c = c\<lparr>unreliableTimeout := ucast timeoutMS * 1000\<rparr>"

definition KillConnection :: "Connection \<Rightarrow> Connection" where
  "KillConnection c = c\<lparr>deadConnection := True\<rparr>"

text \<open>The datagram history is emptied entry by entry.\<close>

primrec clear_history :: "nat \<Rightarrow> DatagramHistory \<Rightarrow> DatagramHistory" where
  "clear_history 0 h = h\<lparr>datagramHistoryPopCount := 0\<rparr>"
| "clear_history (Suc fuel) h =
    (if Queue_Size (datagramHistory h) > 0 then
       let h1 = RemoveFromDatagramHistory (datagramHistoryPopCount h) h
       in clear_history fuel (h1\<lparr>datagramHistory := snd (Queue_Pop (datagramHistory h1)), datagramHistoryPopCount := datagramHistoryPopCount h1 + 1\<rparr>)
     else h\<lparr>datagramHistoryPopCount := 0\<rparr>)"

definition free_window :: "SendWindow \<Rightarrow> SendWindow" where
  "free_window w =
    (let st = sw_resend w
     in w\<lparr>sw_resend := st\<lparr>resendBuffer := replicate RESEND_BUFFER_ARRAY_LENGTH None, messagesInResendBuffer := 0, bytesInResendBuffer := 0,
            rs_ring := (rs_ring st)\<lparr>ring_head := None\<rparr>, unacknowledgedBytes := 0\<rparr>,
          unreliableWithAckReceiptHistory := [],
          sw_history := clear_history (Queue_Size (datagramHistory (sw_history w))) (sw_history w)\<rparr>)"

definition free_transmitter :: "Transmitter \<Rightarrow> Transmitter" where
  "free_transmitter tx0 =
    (let tx = ClearPacketsAndDatagrams tx0; q = tx_queue tx
     in tx\<lparr>tx_window := free_window (tx_window tx),
           tx_queue := q\<lparr>outgoingPacketBuffer := Heap_Clear (outgoingPacketBuffer q),
                         unreliableLinkedList := (unreliableLinkedList q)\<lparr>ring_head := None\<rparr>\<rparr>,
           packetsToSendThisUpdate := [], packetsToDeallocThisUpdate := [], packetsToSendThisUpdateDatagramBoundaries := [],
           datagramSizesInBytes := []\<rparr>)"

definition free_receiver :: "Receiver \<Rightarrow> Receiver" where
  "free_receiver rc =
    rc\<lparr>rc_splits := [], outputQueue := [], rc_channels := map (\<lambda>ch. ch\<lparr>orderingHeap := Heap_Clear (orderingHeap ch)\<rparr>) (rc_channels rc),
       rc_acks := (rc_acks rc)\<lparr>acknowlegements := [], NAKs := []\<rparr>\<rparr>"

definition FreeThreadSafeMemory :: "Connection \<Rightarrow> Connection" where
  "FreeThreadSafeMemory c =
    (let c1 = put_tx (free_transmitter (tx_of c)) c
     in c1\<lparr>cn_layer := (cn_layer c1)\<lparr>lay_receive := free_receiver (lay_receive (cn_layer c1))\<rparr>\<rparr>)"

text \<open>\<^verbatim>\<open>InitializeVariables\<close>; \<open>us\<close> and \<open>ms\<close> are the clocks.\<close>

definition init_queue :: "SendQueue \<Rightarrow> SendQueue" where
  "init_queue q = InitHeapWeights (q\<lparr>orderedWriteIndex := replicate NUMBER_OF_ORDERED_STREAMS 0,
     sequencedWriteIndex := replicate NUMBER_OF_ORDERED_STREAMS 0, nextSplitPacketId := 0, internalOrderIndex := 0,
     unreliableLinkedList := (unreliableLinkedList q)\<lparr>ring_head := None\<rparr>,
     messageInSendBuffer := replicate NUMBER_OF_PRIORITIES 0, bytesInSendBuffer := replicate NUMBER_OF_PRIORITIES 0\<rparr>)"

definition init_window :: "SendWindow \<Rightarrow> SendWindow" where
  "init_window w =
    (let st = sw_resend w
     in w\<lparr>sw_resend := st\<lparr>sendReliableMessageNumberIndex := 0, messagesInResendBuffer := 0, bytesInResendBuffer := 0,
            unacknowledgedBytes := 0, rs_ring := (rs_ring st)\<lparr>ring_head := None\<rparr>\<rparr>,
          sw_history := (sw_history w)\<lparr>datagramHistoryPopCount := 0\<rparr>, receivePacketCount := 0\<rparr>)"

definition init_receiver :: "Receiver \<Rightarrow> Receiver" where
  "init_receiver rc =
    rc\<lparr>rc_window := (rc_window rc)\<lparr>receivedPacketsBaseIndex := 0, resetReceivedPackets := True\<rparr>,
       rc_channels := map (\<lambda>ch. ch\<lparr>orderedReadIndex := 0, highestSequencedReadIndex := 0, heapIndexOffset := 0\<rparr>) (rc_channels rc)\<rparr>"

definition InitializeVariables :: "u64 \<Rightarrow> u32 \<Rightarrow> Connection \<Rightarrow> Connection" where
  "InitializeVariables us ms c =
    (let tx = tx_of c;
         c1 = put_tx (tx\<lparr>tx_queue := init_queue (tx_queue tx), tx_window := init_window (tx_window tx), countdownToNextPacketPair := 15,
                         tx_bps := BPSTracker_Reset (tx_bps tx)\<rparr>) c;
         lay = cn_layer c1
     in c1\<lparr>cn_layer := lay\<lparr>lay_receive := init_receiver (lay_receive lay), timeLastDatagramArrived := ms, bandwidthExceededStatistic := False\<rparr>,
           currentMtuBytes := int MAXIMUM_MTU_SIZE, timeToNextUnreliableCull := 0, cn_lastUpdateTime := us, unreliableTimeout := 0,
           lastBpsClear := 0, deadConnection := False, timeOfLastContinualSend := 0\<rparr>)"

definition Reset :: "bool \<Rightarrow> int \<Rightarrow> u64 \<Rightarrow> u32 \<Rightarrow> Connection \<Rightarrow> Connection" where
  "Reset resetVariables mtuSize us ms c =
    (let c1 = FreeThreadSafeMemory c;
         c2 = (if resetVariables
               then let c3 = InitializeVariables us ms c1
                    in set_acks ((cn_acks c3)\<lparr>ack_cc := CC_Init (of_int (mtuSize - int UDP_HEADER_SIZE))\<rparr>) c3
               else c1)
     in c2\<lparr>currentMtuBytes := mtuSize\<rparr>)"

end
