(* ===== verification/Update_Total.thy ===== *)
theory Update_Total
  imports Update_Internal
begin

text \<open>
  \<^verbatim>\<open>UpdateInternal\<close> as a whole: it returns in every consistent state, what it puts on the wire fits, and the sending side, the reports, the estimates and the datagram size stay consistent.
\<close>

section \<open>Culling\<close>

definition expired :: "u64 \<Rightarrow> u64 \<Rightarrow> InternalPacket \<Rightarrow> bool" where
  "expired time timeout ip \<longleftrightarrow> time > creationTime ip + timeout"

text \<open>The unreliable messages that wait, oldest first.\<close>

definition unreliable_rep :: "SendQueue \<Rightarrow> ptr list \<Rightarrow> bool" where
  "unreliable_rep sq zs \<longleftrightarrow> ring_rep (unreliableLinkedList sq) zs \<and> (\<forall>p \<in> set zs. unreliable_class (reliability (sq_mem sq p)))"

definition culled :: "ptr set \<Rightarrow> SendQueue \<Rightarrow> SendQueue \<Rightarrow> bool" where
  "culled A sq sq' \<longleftrightarrow> queue_frame sq sq' \<and>
    sq_mem sq' = (\<lambda>p. if p \<in> A then (sq_mem sq p)\<lparr>ip_data := []\<rparr> else sq_mem sq p)"

lemma cull_packet_effect:
  assumes "unreliable_rep sq (p # zs)"
  shows "unreliable_rep (cull_packet p sq) zs" "culled {p} sq (cull_packet p sq)"
proof -
  have d: "p \<notin> set zs" and u: "unreliable_class (reliability (sq_mem sq p))"
    using assms by (auto simp: unreliable_rep_def ring_rep_def)
  then have "ring_rep (RemoveFromList_links p (unreliableLinkedList sq)) zs"
    using RemoveFromList_links_rep [of "unreliableLinkedList sq" "p # zs" p] assms by (simp add: unreliable_rep_def)
  then show "unreliable_rep (cull_packet p sq) zs"
    using assms u d by (auto simp: unreliable_rep_def cull_packet_def RemoveFromUnreliableLinkedList_def)
  show "culled {p} sq (cull_packet p sq)"
    by (auto simp: culled_def queue_frame_def cull_packet_def)
qed

lemma culled_trans:
  assumes "culled A sq sq1" "culled A' sq1 sq2"
  shows "culled (A \<union> A') sq sq2"
  using assms queue_frame_trans [of sq sq1 sq2] by (auto simp: culled_def fun_eq_iff)

lemma cull_loop_rep:
  assumes "unreliable_rep sq zs" "zs \<noteq> []" "stop = last zs" "cur = hd zs" "length zs \<le> fuel"
  shows "\<exists>sq'. cull_loop fuel time T stop cur sq = Some sq' \<and>
    unreliable_rep sq' (dropWhile (\<lambda>p. expired time T (sq_mem sq p)) zs) \<and>
    culled (set (takeWhile (\<lambda>p. expired time T (sq_mem sq p)) zs)) sq sq'"
  using assms
proof (induction zs arbitrary: sq cur fuel)
  case (Cons p zs)
  obtain f where fuel: "fuel = Suc f" "length zs \<le> f" using Cons.prems(5) by (cases fuel) auto
  have cur: "cur = p" using Cons.prems(4) by simp
  note e = cull_packet_effect [OF Cons.prems(1)]
  have rep: "ring_rep (unreliableLinkedList sq) (p # zs)" using Cons.prems(1) by (simp add: unreliable_rep_def)
  have d: "p \<notin> set zs" using rep by (simp add: ring_rep_def)
  show ?case
  proof (cases "expired time T (sq_mem sq p)")
    case False
    then show ?thesis
      using Cons.prems(1) cur fuel by (intro exI [of _ sq]) (simp add: expired_def culled_def)
  next
    case True
    show ?thesis
    proof (cases "zs = []")
      case empty: True
      then show ?thesis using True e Cons.prems(3) cur fuel
        by (intro exI [of _ "cull_packet p sq"]) (simp add: expired_def Let_def)
    next
      case False
      have nx: "ring_next (unreliableLinkedList sq) p = hd zs"
        using ring_rep_links(1) [OF rep] False by (cases zs) auto
      have st: "stop = last zs" "stop \<noteq> p" using Cons.prems(3) False d by (auto dest: last_in_set)
      have same: "sq_mem (cull_packet p sq) q = sq_mem sq q" if "q \<in> set zs" for q using that d by (auto simp: cull_packet_def)
      have tw: "takeWhile (\<lambda>q. expired time T (sq_mem (cull_packet p sq) q)) zs = takeWhile (\<lambda>q. expired time T (sq_mem sq q)) zs"
        "dropWhile (\<lambda>q. expired time T (sq_mem (cull_packet p sq) q)) zs = dropWhile (\<lambda>q. expired time T (sq_mem sq q)) zs"
        using same by (auto intro: takeWhile_cong dropWhile_cong)
      obtain sq' where s: "cull_loop f time T stop (hd zs) (cull_packet p sq) = Some sq'"
        "unreliable_rep sq' (dropWhile (\<lambda>q. expired time T (sq_mem sq q)) zs)"
        "culled (set (takeWhile (\<lambda>q. expired time T (sq_mem sq q)) zs)) (cull_packet p sq) sq'"
        using Cons.IH [OF e(1) False st(1) refl fuel(2)] unfolding tw by blast
      have "cull_loop fuel time T stop cur sq = Some sq'"
        using True st(2) s(1) cur fuel(1) nx by (simp add: expired_def Let_def)
      then show ?thesis using s(2) culled_trans [OF e(2) s(3)] True by (intro exI [of _ sq']) simp
    qed
  qed
qed simp

lemma cull_unreliable_rep:
  assumes rep: "unreliable_rep sq zs" and sub: "set zs \<subseteq> set_mset (queued sq)"
  shows "\<exists>sq'. cull_unreliable time T sq = Some sq' \<and> unreliable_rep sq' (dropWhile (\<lambda>p. expired time T (sq_mem sq p)) zs) \<and>
    culled (set (takeWhile (\<lambda>p. expired time T (sq_mem sq p)) zs)) sq sq'"
proof (cases "zs = []")
  case True
  then show ?thesis
    using rep by (intro exI [of _ sq]) (simp add: cull_unreliable_def unreliable_rep_def ring_rep_def culled_def)
next
  case False
  have r: "ring_rep (unreliableLinkedList sq) zs" using rep by (simp add: unreliable_rep_def)
  note l = ring_rep_links [OF r False]
  have "card (set zs) \<le> card (set_mset (queued sq))" by (rule card_mono) (use sub in simp_all)
  also have "\<dots> \<le> size (queued sq)" using size_mset_mono [OF mset_set_set_mset_msubset [of "queued sq"]] by simp
  finally have "length zs \<le> Heap_Size (outgoingPacketBuffer sq)"
    using l(5) by (simp add: distinct_card heap_size_elems queued_def)
  then show ?thesis
    using cull_loop_rep [OF rep False l(3) _, of "hd zs" "Heap_Size (outgoingPacketBuffer sq) + 1" time T] l(4)
    by (simp add: cull_unreliable_def)
qed

section \<open>Receipts for losses\<close>

lemma loss_loop_eq:
  "loss_loop pool time i xs =
    (map (\<lambda>n. receipt ID_SND_RECEIPT_LOSS pool (un_sendReceiptSerial n)) (filter (\<lambda>n. due time (un_nextActionTime n)) (drop i xs)),
     take i xs @ filter (\<lambda>n. \<not> due time (un_nextActionTime n)) (drop i xs))"
proof (induction pool time i xs rule: loss_loop.induct)
  case (1 pool time i xs)
  show ?case
  proof (cases "i < length xs")
    case False
    then show ?thesis by (simp add: loss_loop.simps [of pool time i xs])
  next
    case True
    then have dr: "drop i xs = xs ! i # drop (Suc i) xs" by (simp add: Cons_nth_drop_Suc)
    show ?thesis
    proof (cases "due time (un_nextActionTime (xs ! i))")
      case d: True
      have r: "drop i (remove_at i xs) = drop (Suc i) xs" "take i (remove_at i xs) = take i xs" using True by (simp_all add: remove_at_def)
      show ?thesis using 1(1) [OF True d] True d by (simp add: loss_loop.simps [of pool time i xs] r dr)
    next
      case False
      show ?thesis using 1(2) [OF True False] True False
        by (simp add: loss_loop.simps [of pool time i xs] dr take_Suc_conv_app_nth)
    qed
  qed
qed

section \<open>What an update relies on\<close>

text \<open>The numbers that the congestion control computes from its estimates are in the range of the integers they are cast to.\<close>

definition estimates_ok :: "CCRakNetSlidingWindow \<Rightarrow> bool" where
  "estimates_ok cc \<longleftrightarrow> (\<exists>t. GetRTOForRetransmission cc = Some t \<and> 30000 \<le> t \<and> t \<le> 2000000) \<and>
    (\<forall>u b. fst (GetTransmissionBandwidth u b cc) \<noteq> None) \<and> GetSenderRTOForACK cc \<noteq> None"

lemma estimates_frame [simp]: "estimates_ok (OnSendAck cc) = estimates_ok cc" "estimates_ok (SetMTU v cc) = estimates_ok cc"
  by (simp_all add: estimates_ok_def OnSendAck_def SetMTU_def GetRTOForRetransmission_def GetTransmissionBandwidth_def GetSenderRTOForACK_def)

lemma estimates_tx: "estimates_ok (tx_cc tx) \<Longrightarrow> rto_ok tx \<and> bandwidth_ok b tx"
  by (simp add: estimates_ok_def rto_ok_def bandwidth_ok_def)

lemma GetMTU_OnSendAck [simp]: "GetMTU (OnSendAck cc) = GetMTU cc"
  by (simp add: GetMTU_def OnSendAck_def)

text \<open>A window of one datagram is in the range of every conversion, so a resend keeps the estimates usable, and nothing else in an update touches them.\<close>

lemma small_window:
  fixes v :: u32
  assumes "v \<le> 1400" "cwnd cc = dbl v"
  shows "fst (GetTransmissionBandwidth u b cc) \<noteq> None"
proof (cases "dbl u \<le> dbl v")
  case True
  have v: "dbl v = real (unat v)" "unat v \<le> 1400" using double_nat [of "unat v"] assms(1) by (simp_all add: dbl_def word_le_nat_alt)
  have u: "dbl u = real (unat u)" using double_nat [of "unat u"] unsigned_less [of u] by (simp add: dbl_def)
  then have "dbl v - dbl u = real (unat v - unat u)" using True v by (simp del: of_nat_unat)
  then have "double (dbl v - dbl u) = real (unat v - unat u)" using double_nat [of "unat v - unat u"] v(2) by simp
  then show ?thesis using True v(2) assms(2) by (simp add: GetTransmissionBandwidth_def double_to_int_def)
qed (simp add: GetTransmissionBandwidth_def assms(2))

definition usable :: "CCRakNetSlidingWindow \<Rightarrow> bool" where
  "usable cc \<longleftrightarrow> estimates_ok cc \<and> MAXIMUM_MTU_INCLUDING_UDP_HEADER cc \<le> 1400"

lemma usable_OnResend: "usable cc \<Longrightarrow> usable (OnResend cc)"
proof -
  assume u: "usable cc"
  have f: "GetRTOForRetransmission (OnResend cc) = GetRTOForRetransmission cc" "GetSenderRTOForACK (OnResend cc) = GetSenderRTOForACK cc"
    "MAXIMUM_MTU_INCLUDING_UDP_HEADER (OnResend cc) = MAXIMUM_MTU_INCLUDING_UDP_HEADER cc"
    by (simp_all add: OnResend_def GetRTOForRetransmission_def GetSenderRTOForACK_def Let_def)
  have "OnResend cc = cc \<or> cwnd (OnResend cc) = dbl (MAXIMUM_MTU_INCLUDING_UDP_HEADER cc)" by (simp add: OnResend_def Let_def)
  then have "fst (GetTransmissionBandwidth n b (OnResend cc)) \<noteq> None" for n b
    using u small_window [of "MAXIMUM_MTU_INCLUDING_UDP_HEADER cc" "OnResend cc"] by (auto simp: usable_def estimates_ok_def)
  then show ?thesis using u f by (simp add: usable_def estimates_ok_def)
qed

lemma usable_frame [simp]:
  "usable (cc\<lparr>cc_isContinuousSend := b\<rparr>) = usable cc" "usable (cc\<lparr>nextDatagramSequenceNumber := n\<rparr>) = usable cc"
  by (simp_all add: usable_def estimates_ok_def GetRTOForRetransmission_def GetTransmissionBandwidth_def GetSenderRTOForACK_def)

lemma cc_frames [simp]:
  "tx_cc (PushPacket p r tx) = tx_cc tx" "tx_cc (PushDatagram tx) = tx_cc tx" "tx_cc (set_resend st tx) = tx_cc tx"
  "tx_cc (ClearPacketsAndDatagrams tx) = tx_cc tx" "tx_cc (ResetPacketsAndDatagrams tx) = tx_cc tx"
  by (simp_all add: PushPacket_def PushDatagram_def set_resend_def ClearPacketsAndDatagrams_def ResetPacketsAndDatagrams_def Let_def)

lemma fill_resend_usable: "fill_resend fuel env b tx = Inr (b', tx') \<Longrightarrow> usable (tx_cc tx) \<Longrightarrow> usable (tx_cc tx')"
proof (induction fuel arbitrary: b tx)
  case (Suc fuel)
  have "resend_packet env p tx = Inr tx1 \<Longrightarrow> usable (tx_cc tx1)" for p tx1
    using Suc.prems(2) by (auto simp: resend_packet_def Let_def intro: usable_OnResend split: option.splits)
  then show ?case using Suc by (auto simp: Let_def split: option.splits if_splits sum.splits)
qed simp

lemma resend_loop_usable: "resend_loop fuel env bw tx = Inr tx' \<Longrightarrow> usable (tx_cc tx) \<Longrightarrow> usable (tx_cc tx')"
  by (induction fuel arbitrary: tx) (auto simp del: fill_resend.simps dest: fill_resend_usable split: if_splits sum.splits)

lemma fill_new_cc: "fill_new fuel env limited tx = Inr tx' \<Longrightarrow> tx_cc tx' = tx_cc tx"
proof (induction fuel arbitrary: tx)
  case (Suc fuel)
  have "first_send env p ip tx = Inr tx1 \<Longrightarrow> tx_cc tx1 = tx_cc tx" for p ip tx1
    by (auto simp: first_send_def take_packet_def count_sent_def Let_def split: if_splits option.splits)
  then show ?case using Suc by (auto simp: Let_def split: if_splits sum.splits)
qed simp

lemma send_loop_cc: "send_loop fuel env bw tx = Inr tx' \<Longrightarrow> tx_cc tx' = tx_cc tx"
  by (induction fuel arbitrary: tx) (auto simp del: fill_new.simps dest: fill_new_cc split: if_splits sum.splits)

lemma pack_usable: "pack env c tx = Inr tx' \<Longrightarrow> usable (tx_cc tx) \<Longrightarrow> usable (tx_cc tx')"
  by (auto simp: pack_def GetTransmissionBandwidth_def Let_def simp del: resend_loop.simps send_loop.simps dest!: resend_loop_usable send_loop_cc split: if_splits option.splits sum.splits)

lemma send_datagrams_usable: "send_datagrams env h ds (tx, bs) = (out, tx', bs') \<Longrightarrow> usable (tx_cc tx) \<Longrightarrow> usable (tx_cc tx')"
  by (induction ds arbitrary: h tx bs out)
    (auto simp: send_datagram_def GetAndIncrementNextDatagramSequenceNumber_def Let_def split: prod.splits)

lemma transmit_usable: "transmit env h c tx bs = Inr (out, tx', bs') \<Longrightarrow> usable (tx_cc tx) \<Longrightarrow> usable (tx_cc tx')"
  by (auto simp: transmit_def Let_def dest!: pack_usable dest: send_datagrams_usable split: sum.splits prod.splits)

definition reports_ok :: "AckState \<Rightarrow> bool" where
  "reports_ok st \<longleftrightarrow> range_wf (acknowlegements st) \<and> length (acknowlegements st) < 65536 \<and> range_wf (NAKs st) \<and> length (NAKs st) < 65536"

text \<open>\<open>lg\<close>: the packets that got a message number; \<open>xs\<close>: those not yet acknowledged; \<open>zs\<close>: the unreliable messages that wait.\<close>

definition conn_ok :: "nat \<Rightarrow> InternalPacket list \<Rightarrow> ptr list \<Rightarrow> ptr list \<Rightarrow> Connection \<Rightarrow> bool" where
  "conn_ok B lg xs zs c \<longleftrightarrow> sender_inv False B lg xs (tx_of c) \<and> unreliable_rep (tx_queue (cn_tx c)) zs \<and>
    set zs \<subseteq> set_mset (queued (tx_queue (cn_tx c))) \<and> reports_ok (cn_acks c) \<and> estimates_ok (ack_cc (cn_acks c)) \<and>
    32 \<le> GetMTU (ack_cc (cn_acks c)) \<and> currentMtuBytes c = int (GetMTU (ack_cc (cn_acks c)) + UDP_HEADER_SIZE)"

text \<open>The pool has enough fresh packets for a cut at the next lower size, and every packet that waits can be put together again.\<close>

definition step_ok :: "UpdateEnv \<Rightarrow> nat \<Rightarrow> ptr list \<Rightarrow> int \<Rightarrow> Transmitter \<Rightarrow> bool" where
  "step_ok env B xs mtu tx \<longleftrightarrow>
    (NextLowerMtu mtu \<noteq> 0 \<longrightarrow>
      (let tx1 = tx\<lparr>tx_cc := SetMTU (of_int (NextLowerMtu mtu - int UDP_HEADER_SIZE)) (tx_cc tx)\<rparr>
       in Mtu_BlackHole.waiting B xs tx1 \<and> supplied (ue_pool env) (GetMTU (tx_cc tx1)) (ue_addresses env) (rebuilt_by xs tx1) (tx_queue tx1) \<and>
          set (concat (ue_addresses env)) \<inter> set xs = {} \<and> B + 64 * Suc (length (concat (ue_addresses env))) < 4611686018427387904))"

lemma sender_same:
  assumes "tx_resend tx' = tx_resend tx" "tx_queue tx' = tx_queue tx" "GetMTU (tx_cc tx') = GetMTU (tx_cc tx)"
  shows "sender_inv s B lg xs tx' = sender_inv s B lg xs tx"
  using assms by (simp add: sender_inv_def)

lemma step_same:
  assumes "tx_resend tx' = tx_resend tx" "tx_queue tx' = tx_queue tx"
  shows "step_ok env B xs mtu tx' = step_ok env B xs mtu tx"
  using assms by (simp add: step_ok_def Mtu_BlackHole.waiting_def rebuilt_by_def max_bits_of_def GetMTU_def SetMTU_def Let_def)

lemma tx_of_fields [simp]:
  "tx_resend (tx_of c) = sw_resend (lay_send (cn_layer c))" "tx_queue (tx_of c) = tx_queue (cn_tx c)" "tx_cc (tx_of c) = ack_cc (cn_acks c)"
  by (simp_all add: tx_of_def)

lemma set_acks_fields [simp]:
  "cn_acks (set_acks st c) = st" "cn_tx (set_acks st c) = cn_tx c" "lay_send (cn_layer (set_acks st c)) = lay_send (cn_layer c)"
  "currentMtuBytes (set_acks st c) = currentMtuBytes c" "deadConnection (set_acks st c) = deadConnection c"
  by (simp_all add: set_acks_def cn_acks_def)

lemma put_tx_fields [simp]:
  "cn_acks (put_tx tx c) = (cn_acks c)\<lparr>ack_cc := tx_cc tx\<rparr>" "tx_resend (tx_of (put_tx tx c)) = tx_resend tx"
  "tx_queue (tx_of (put_tx tx c)) = tx_queue tx" "tx_cc (tx_of (put_tx tx c)) = tx_cc tx" "deadConnection (put_tx tx c) = deadConnection c"
  by (simp_all add: put_tx_def set_acks_def cn_acks_def tx_of_def Let_def)

section \<open>Reports\<close>

lemma SendACKs_frame:
  "SendACKs fuel fresh h0 mtu bs st = Some (sent, bs', st') \<Longrightarrow>
    NAKs st' = NAKs st \<and> (ack_cc st' = ack_cc st \<or> ack_cc st' = OnSendAck (ack_cc st))"
proof (induction fuel arbitrary: bs st sent bs' st')
  case 0
  then show ?case by (simp add: SendACKs.simps [of 0] split: if_splits)
next
  case (Suc fuel)
  show ?case
  proof (cases "RangeList_Size (acknowlegements st) = 0")
    case True
    then show ?thesis using Suc.prems by (simp add: SendACKs.simps [of "Suc fuel"])
  next
    case False
    obtain bs1 st1 where s: "send_ack_datagram fresh h0 mtu bs st = (bs1, st1)" by fastforce
    have st1: "NAKs st1 = NAKs st" "ack_cc st1 = OnSendAck (ack_cc st)"
      using s by (auto simp: send_ack_datagram_def Let_def split: prod.splits)
    obtain sent1 where r: "SendACKs fuel fresh h0 mtu bs1 st1 = Some (sent1, bs', st')"
      using Suc.prems False s by (auto simp: SendACKs.simps [of "Suc fuel"] split: option.splits)
    show ?thesis using Suc.IH [OF r] st1 by (auto simp: OnSendAck_def)
  qed
qed

lemma send_naks_fit:
  assumes "bs_inv bs" "range_wf (NAKs st)" "length (NAKs st) < 65536" "32 \<le> mtu" "mtu \<le> MAXIMUM_MTU_SIZE"
  shows "\<exists>sent bs' k. send_naks fresh h0 mtu bs st = (sent, bs', st\<lparr>NAKs := drop k (NAKs st)\<rparr>) \<and> bs_inv bs' \<and> (\<forall>d \<in> set sent. length d \<le> mtu)"
proof (cases "NAKs st = []")
  case True
  then show ?thesis using assms(1) by (intro exI [of _ "[]"] exI [of _ bs] exI [of _ 0]) (simp add: send_naks_def RangeList_Size_def)
next
  case False
  let ?m = "GetMaxDatagramSizeExcludingMessageHeaderBits mtu"
  have m: "16 \<le> ?m" "8 + ?m \<le> 8 * mtu" using max_bits [OF assms(4,5)] by simp_all
  have "isACK (nak_header h0) \<or> isNAK (nak_header h0)" "\<not> hasBAndAS (nak_header h0) \<or> \<not> isACK (nak_header h0)"
    by (simp_all add: nak_header_def)
  from ranges_datagram [OF assms(1) this assms(2,3) m(1), of fresh fresh h0]
  obtain c bits bs1 where c:
    "RangeList_Serialize fresh (DatagramHeader_Serialize (nak_header h0) (BitStream_Reset bs)) ?m True (NAKs st) = (bits, bs1, drop c (NAKs st))"
    "8 * length (SendBitStream bs1) \<le> 8 + ?m" "bs_inv bs1" by blast
  then show ?thesis using False m(2)
    by (intro exI [of _ "[SendBitStream bs1]"] exI [of _ bs1] exI [of _ c]) (simp add: send_naks_def RangeList_Size_def Let_def)
qed

lemma range_wf_drop: "range_wf rs \<Longrightarrow> range_wf (drop k rs)"
  using range_wf_append [of "take k rs" "drop k rs"] by simp

text \<open>The parts of an update that only touch the reports.\<close>

definition reports_only :: "Connection \<Rightarrow> Connection \<Rightarrow> bool" where
  "reports_only c c' \<longleftrightarrow> cn_tx c' = cn_tx c \<and> lay_send (cn_layer c') = lay_send (cn_layer c) \<and> currentMtuBytes c' = currentMtuBytes c \<and>
    deadConnection c' = deadConnection c \<and> reports_ok (cn_acks c') \<and> GetMTU (ack_cc (cn_acks c')) = GetMTU (ack_cc (cn_acks c)) \<and>
    estimates_ok (ack_cc (cn_acks c')) = estimates_ok (ack_cc (cn_acks c))"

lemma reports_only_ok:
  assumes "reports_only c c'"
  shows "conn_ok B lg xs zs c \<Longrightarrow> conn_ok B lg xs zs c'" "step_ok env B xs m (tx_of c') = step_ok env B xs m (tx_of c)"
proof -
  have "tx_resend (tx_of c') = tx_resend (tx_of c)" "tx_queue (tx_of c') = tx_queue (tx_of c)" "GetMTU (tx_cc (tx_of c')) = GetMTU (tx_cc (tx_of c))"
    using assms by (simp_all add: reports_only_def)
  note s = sender_same [OF this] step_same [OF this(1,2)]
  show "step_ok env B xs m (tx_of c') = step_ok env B xs m (tx_of c)" by (rule s(2))
  show "conn_ok B lg xs zs c \<Longrightarrow> conn_ok B lg xs zs c'" using assms s(1) by (simp add: conn_ok_def reports_only_def)
qed

lemma conn_mtu: "conn_ok B lg xs zs c \<Longrightarrow> 32 \<le> GetMTU (ack_cc (cn_acks c)) \<and> GetMTU (ack_cc (cn_acks c)) \<le> MAXIMUM_MTU_SIZE"
  by (simp add: conn_ok_def sender_inv_def)

lemma send_acks_ok:
  assumes ok: "conn_ok B lg xs zs c" and bs: "bs_inv bs"
  shows "\<exists>out c1 bs1. send_acks env time f c bs = Inr (out, c1, bs1) \<and> reports_only c c1 \<and> bs_inv bs1 \<and>
    (\<forall>d \<in> set out. length d \<le> GetMTU (ack_cc (cn_acks c))) \<and> (f \<longrightarrow> acknowlegements (cn_acks c1) = [])"
proof -
  let ?st = "cn_acks c" and ?mtu = "GetMTU (ack_cc (cn_acks c))"
  have rp: "reports_ok ?st" and est: "estimates_ok (ack_cc ?st)" using ok by (simp_all add: conn_ok_def)
  note m = conn_mtu [OF ok]
  obtain b where b: "(if f then Some True else ShouldSendACKs time (ack_cc ?st)) = Some b" "f \<longrightarrow> b"
  proof (cases f)
    case False
    obtain b where "ShouldSendACKs time (ack_cc ?st) = Some b" using est by (auto simp: estimates_ok_def ShouldSendACKs_def)
    then show ?thesis using False that by simp
  qed (use that in simp)
  obtain sent bs1 st1 where s: "SendACKs (length (acknowlegements ?st)) (ue_bytes env) (ue_header env) ?mtu bs ?st = Some (sent, bs1, st1)"
      "acknowlegements st1 = []" "bs_inv bs1" "\<forall>d \<in> set sent. length d \<le> ?mtu"
    using SendACKs_decoded [OF bs, of ?st "length (acknowlegements ?st)" ?mtu "ue_bytes env" "ue_header env" "ue_bytes env" "ue_header env"] rp m
    by (auto simp: reports_ok_def)
  note fr = SendACKs_frame [OF s(1)]
  show ?thesis
  proof (cases b)
    case True
    have "reports_only c (set_acks st1 c)" using fr s(2) rp by (auto simp: reports_only_def reports_ok_def range_wf_def)
    then show ?thesis using b(1) True s by (intro exI [of _ sent] exI [of _ "set_acks st1 c"] exI [of _ bs1]) (simp add: send_acks_def)
  next
    case False
    then show ?thesis using b bs rp by (auto simp: send_acks_def reports_only_def)
  qed
qed

lemma send_loss_reports_ok:
  assumes ok: "conn_ok B lg xs zs c" and bs: "bs_inv bs"
  shows "\<exists>out c1 bs1. send_loss_reports env c bs = (out, c1, bs1) \<and> reports_only c c1 \<and> bs_inv bs1 \<and>
    (\<forall>d \<in> set out. length d \<le> GetMTU (ack_cc (cn_acks c))) \<and> acknowlegements (cn_acks c1) = acknowlegements (cn_acks c)"
proof -
  let ?st = "cn_acks c"
  have rp: "reports_ok ?st" using ok by (simp add: conn_ok_def)
  obtain out bs1 k where s: "send_naks (ue_bytes env) (ue_header env) (GetMTU (ack_cc ?st)) bs ?st = (out, bs1, ?st\<lparr>NAKs := drop k (NAKs ?st)\<rparr>)"
      "bs_inv bs1" "\<forall>d \<in> set out. length d \<le> GetMTU (ack_cc ?st)"
    using send_naks_fit [OF bs, of ?st "GetMTU (ack_cc ?st)"] rp conn_mtu [OF ok] by (fastforce simp: reports_ok_def)
  let ?c = "set_acks (?st\<lparr>NAKs := drop k (NAKs ?st)\<rparr>) c"
  have "reports_only c ?c" using rp range_wf_drop by (auto simp: reports_only_def reports_ok_def)
  then show ?thesis using s by (intro exI [of _ out] exI [of _ ?c] exI [of _ bs1]) (simp add: send_loss_reports_def)
qed

section \<open>The step down in an update\<close>

lemma of_nat_mono_u32: "a < b \<Longrightarrow> b < 4294967296 \<Longrightarrow> (of_nat a :: u32) < of_nat b"
  by (simp add: word_less_nat_alt unat_of_nat_id)

lemma fragments_sendable:
  assumes sp: "splittable mtu pool m" and mtu: "mtu \<le> MAXIMUM_MTU_SIZE" and f: "f \<in> set (split_fragments pool mtu k order m)"
    and ch: "is_ordered (reliability m) \<longrightarrow> orderingChannel m < 32"
  shows "sendable (wire f)"
proof -
  let ?b = "maximumSendBlockBytes pool mtu" and ?L = "(dataBitLength m + 7) div 8"
  let ?n = "(?L - 1) div ?b" and ?m = "m\<lparr>splitPacketCount := of_nat ((?L - 1) div ?b + 1)\<rparr>"
  obtain i where "i < length (split_fragments pool mtu k order m)" "f = split_fragments pool mtu k order m ! i"
    using f by (auto simp: in_set_conv_nth)
  then have i: "i \<le> ?n" "f = split_fragments pool mtu k order m ! i" using split_fragments_nth(1) [OF sp, of k order] by simp_all
  obtain h ord where e: "f = (split_fragment ?b k ?m i)\<lparr>messageInternalOrder := ord, headerLength := h\<rparr>"
    using split_fragments_nth(2) [OF sp i(1), of k order] i(2) by auto
  have b: "0 < ?b" "dataBitLength ?m < 4294967289" using sp by (simp_all add: splittable_def)
  note L = splittable_bytes [OF sp]
  have "i * ?b \<le> ?L - 1" using i(1) b(1) less_eq_div_iff_mult_less_eq [of ?b i "?L - 1"] by simp
  then have lt: "i * ?b < (dataBitLength ?m + 7) div 8" using L(2) by simp
  note ff = split_fragment_fields [OF b lt, of k]
  have bl: "?b < 1400" using mtu
    by (simp add: maximumSendBlockBytes_def GetMaxDatagramSizeExcludingMessageHeaderBytes_def GetDataHeaderByteLength_def MAXIMUM_MTU_SIZE_def)
  have d: "dataBitLength f = block_bits ?b (dataBitLength m) i" "BITS_TO_BYTES (dataBitLength f) = min ?b (?L - i * ?b)"
    using ff(1,6) by (simp_all add: e)
  have "0 < block_bits ?b (dataBitLength m) i" "block_bits ?b (dataBitLength m) i \<le> 8 * ?b"
    using b(1) lt by (auto simp: block_bits_def Let_def)
  then have 1: "0 < dataBitLength f" "dataBitLength f < 65535" "BITS_TO_BYTES (dataBitLength f) < MAXIMUM_MTU_SIZE"
    using d bl by (simp_all add: MAXIMUM_MTU_SIZE_def)
  have "length (ip_data f) = ?L - i * ?b" using ff(2) sp L(1) by (simp add: e splittable_def)
  then have 2: "length (body_bytes f) = BITS_TO_BYTES (dataBitLength f)" using d(2) by (simp add: body_bytes_def)
  have n: "?n < 4294967295" using L(3) div_le_dividend [of "?L - 1" ?b] by linarith
  have "(of_nat i :: u32) < of_nat (?n + 1)"
    using i(1) n by (intro of_nat_mono_u32) simp_all
  then have 3: "splitPacketIndex f < splitPacketCount f" using ff(3,5) by (simp add: e)
  have 4: "reliability f = reliability m" "orderingChannel f = orderingChannel m" by (simp_all add: e split_fragment_def Let_def)
  show "sendable (wire f)" using 1 2 3 4 ch by (simp add: sendable_def)
qed

lemma drop_victims_number:
  "sendReliableMessageNumberIndex (fold drop_victim vs st) = sendReliableMessageNumberIndex st"
  by (induction vs arbitrary: st) (simp_all add: drop_victim_def RemoveFromList_def Let_def)

lemma ReSplit_number:
  "ReSplitOversizedMessages pool pss tx = Inr tx' \<Longrightarrow> sendReliableMessageNumberIndex (tx_resend tx') = sendReliableMessageNumberIndex (tx_resend tx)"
  by (auto simp: ReSplitOversizedMessages_def set_resend_def drop_victims_number Let_def split: option.splits)

lemma rebuild_fields: "rebuildMessage ip = Some m \<Longrightarrow> reliability m = reliability ip \<and> orderingChannel m = orderingChannel ip"
  by (auto simp: rebuildMessage_def Let_def split: if_splits option.splits)

lemma resplit_sender:
  assumes inv: "sender_inv False B lg xs tx" and w: "Mtu_BlackHole.waiting B xs tx"
    and sup: "supplied pool (GetMTU (tx_cc tx)) pss (rebuilt_by xs tx) (tx_queue tx)" "set (concat pss) \<inter> set xs = {}"
    and r: "ReSplitOversizedMessages pool pss tx = Inr tx'" and eff: "resplit_effect B pool pss xs tx tx'"
  shows "\<exists>xs'. sender_inv False (B + 64 * length (concat pss)) lg xs' tx'"
proof -
  let ?mtu = "GetMTU (tx_cc tx)" and ?C = "seen xs (rs_mem (tx_resend tx)) (tx_queue tx)"
  define xs' where "xs' = filter (\<lambda>p. \<not> gone (max_bits_of tx) ?C (rs_mem (tx_resend tx) p)) xs"
  note t = resplit_effectD [OF eff]
  have sub: "set xs' \<subseteq> set xs" by (auto simp: xs'_def)
  have q: "queue_fresh (set xs) (tx_queue tx)" and rd: "\<forall>p \<in> set xs. ready (tx_mem tx p)" using inv by (simp_all add: sender_inv_def)
  have snd: "sendable (wire ip)" if "ip \<in> ?C" for ip
    using that q rd by (auto simp: seen_def queue_fresh_def ready_def live_def queued_packets)
  have blk: "0 < maximumSendBlockBytes pool ?mtu" "?mtu \<le> MAXIMUM_MTU_SIZE" using w block_pool [of pool] by (simp_all add: Mtu_BlackHole.waiting_def)
  have new: "sendable (wire (sq_mem (tx_queue tx') p))" if p: "p \<in> set (concat pss)" for p
  proof -
    obtain ps m where ps: "ps \<in> set pss" "p \<in> set ps" "m \<in> set (rebuilt_by xs tx)" "cut_at pool ?mtu (tx_queue tx') ps m"
      using p list_all2_partner(2) [OF t(7)] unfolding set_concat by blast
    then obtain k order where f: "map (sq_mem (tx_queue tx')) ps = split_fragments pool ?mtu k order m" by (auto simp: cut_at_def)
    obtain ip where ip: "ip \<in> ?C" "rebuildMessage ip = Some m" using ps(3) t(8) by (auto simp: passes_inv_def rebuilt_by_def)
    then have "complete ip" using w by (auto simp: seen_def Mtu_BlackHole.waiting_def)
    then have sp: "splittable ?mtu pool m" using complete_rebuild(2,3) [OF _ blk(1)] ip(2) by fastforce
    have ch: "is_ordered (reliability m) \<longrightarrow> orderingChannel m < 32" using snd [OF ip(1)] rebuild_fields [OF ip(2)] by (simp add: sendable_def)
    have "sq_mem (tx_queue tx') p \<in> set (split_fragments pool ?mtu k order m)" using f ps(2) by (metis image_eqI list.set_map)
    then show ?thesis using fragments_sendable [OF sp blk(2) _ ch] by blast
  qed
  have old: "sendable (wire (sq_mem (tx_queue tx') p))" if "p \<in># queued (tx_queue tx)" "ip_data (sq_mem (tx_queue tx') p) \<noteq> []" for p
    using that t(6) [of p] q by (auto simp: queued_packets queue_fresh_def split: if_splits)
  have disj: "set (concat pss) \<inter> set_mset (queued (tx_queue tx)) = {}" "distinct (concat pss)" using sup(1) by (simp_all add: supplied_def)
  have cnt: "count (queued (tx_queue tx')) p \<le> 1" for p
  proof (cases "p \<in> set (concat pss)")
    case True
    then have "count (queued (tx_queue tx)) p = 0" "count (mset (concat pss)) p = 1"
      using disj by (auto simp: count_eq_zero_iff distinct_count_atmost_1)
    then show ?thesis by (simp add: t(5))
  next
    case False
    then have "count (mset (concat pss)) p = 0" by (simp add: count_eq_zero_iff)
    moreover have "count (queued (tx_queue tx)) p \<le> 1" using q by (simp add: queue_fresh_def)
    ultimately show ?thesis unfolding t(5) by (simp only: count_union)
  qed
  have "queue_fresh (set xs') (tx_queue tx')"
    unfolding queue_fresh_def
  proof (intro conjI ballI impI allI)
    show "set_mset (queued (tx_queue tx')) \<inter> set xs' = {}" using sub q sup(2) by (auto simp: t(5) queue_fresh_def)
  qed (use cnt old new in \<open>auto simp: t(5)\<close>)
  moreover have "resend_inv (tx_resend tx') xs'" using t(2) by (simp add: xs'_def)
  ultimately have "sender_inv False (B + 64 * length (concat pss)) lg xs' tx'"
    using inv sub t(1,3,4) ReSplit_number [OF r] by (auto simp: sender_inv_def)
  then show ?thesis by blast
qed

lemma black_hole_ok:
  assumes inv: "sender_inv False B lg xs tx" and st: "step_ok env B xs m tx" and m: "m = int (GetMTU (tx_cc tx) + UDP_HEADER_SIZE)"
    and m32: "32 \<le> GetMTU (tx_cc tx)"
  shows "\<exists>m' tx' xs' B'. black_hole_check (ue_pool env) (ue_addresses env) time (m, tx) = Inr (m', tx') \<and> sender_inv False B' lg xs' tx' \<and>
    B' \<le> B + 64 * length (concat (ue_addresses env)) \<and> GetMTU (tx_cc tx') \<le> GetMTU (tx_cc tx) \<and>
    m' = int (GetMTU (tx_cc tx') + UDP_HEADER_SIZE) \<and> 32 \<le> GetMTU (tx_cc tx') \<and> (estimates_ok (tx_cc tx) \<longrightarrow> estimates_ok (tx_cc tx'))"
proof (cases "black_hole_check (ue_pool env) (ue_addresses env) time (m, tx) = Inr (m, tx)")
  case True
  then show ?thesis using inv m m32 by (intro exI [of _ m] exI [of _ tx] exI [of _ xs] exI [of _ B]) simp
next
  case False
  let ?v = "of_int (NextLowerMtu m - int UDP_HEADER_SIZE) :: u32" and ?pss = "ue_addresses env"
  let ?tx1 = "tx\<lparr>tx_cc := SetMTU ?v (tx_cc tx)\<rparr>"
  have n0: "NextLowerMtu m \<noteq> 0" and e: "black_hole_check (ue_pool env) ?pss time (m, tx) = StepDownMtuAfterBlackHole (ue_pool env) ?pss (m, tx)"
    using False by (auto simp: black_hole_check_def StepDownMtuAfterBlackHole_def Let_def split: option.splits if_splits)
  have v: "GetMTU (SetMTU ?v (tx_cc tx)) = nat (NextLowerMtu m) - 28" "NextLowerMtu m < m" "576 \<le> NextLowerMtu m"
    using n0 by (auto simp: NextLowerMtu_cases GetMTU_def SetMTU_def UDP_HEADER_SIZE_def split: if_splits)
  have le: "GetMTU (tx_cc ?tx1) \<le> GetMTU (tx_cc tx)" using v m by (simp add: UDP_HEADER_SIZE_def)
  have i1: "sender_inv False B lg xs ?tx1" using inv v le by (auto simp: sender_inv_def)
  have s: "Mtu_BlackHole.waiting B xs ?tx1" "supplied (ue_pool env) (GetMTU (tx_cc ?tx1)) ?pss (rebuilt_by xs ?tx1) (tx_queue ?tx1)"
    "set (concat ?pss) \<inter> set xs = {}" "B + 64 * Suc (length (concat ?pss)) < 4611686018427387904"
    using st n0 by (simp_all add: step_ok_def Let_def)
  obtain tx' where r: "ReSplitOversizedMessages (ue_pool env) ?pss ?tx1 = Inr tx'" and eff: "resplit_effect B (ue_pool env) ?pss xs ?tx1 tx'"
    using ReSplit_effect [OF s(1,2,4)] by blast
  obtain xs' where "sender_inv False (B + 64 * length (concat ?pss)) lg xs' tx'" using resplit_sender [OF i1 s(1-3) r eff] by blast
  moreover have "black_hole_check (ue_pool env) ?pss time (m, tx) = Inr (NextLowerMtu m, tx')"
    using e r n0 by (simp add: StepDownMtuAfterBlackHole_def)
  moreover have cc: "tx_cc tx' = SetMTU ?v (tx_cc tx)" using resplit_effectD(1) [OF eff] by simp
  ultimately show ?thesis using le v
    by (intro exI [of _ "NextLowerMtu m"] exI [of _ tx'] exI [of _ xs'] exI [of _ "B + 64 * length (concat ?pss)"]) (simp add: UDP_HEADER_SIZE_def)
qed

section \<open>Data\<close>

text \<open>
  What an update leaves consistent: the sending side, the reports, the estimates of the congestion control and the datagram size.
\<close>

definition settled :: "UpdateEnv \<Rightarrow> nat \<Rightarrow> InternalPacket list \<Rightarrow> Connection \<Rightarrow> bool" where
  "settled env B lg c' \<longleftrightarrow>
    (\<exists>B' lg' xs'. sender_inv False B' lg' xs' (tx_of c') \<and> B' \<le> B + 64 * length (concat (ue_addresses env)) \<and> take (length lg) lg' = lg) \<and>
    reports_ok (cn_acks c') \<and> estimates_ok (ack_cc (cn_acks c')) \<and> 32 \<le> GetMTU (ack_cc (cn_acks c')) \<and>
    currentMtuBytes c' = int (GetMTU (ack_cc (cn_acks c')) + UDP_HEADER_SIZE)"

lemma conn_settled: "conn_ok B lg xs zs c \<Longrightarrow> settled env B lg c"
  unfolding settled_def conn_ok_def by (auto intro!: exI [of _ B] exI [of _ lg])

lemma send_data_ok:
  assumes ok: "conn_ok B lg xs zs c" and st: "step_ok env B xs (currentMtuBytes c) (tx_of c)" and bs: "bs_inv bs"
  shows "\<exists>out c' bs'. send_data env time slow b c bs = Inr (out, c', bs') \<and> bs_inv bs' \<and> settled env B lg c' \<and>
    (\<forall>d \<in> set out. length d \<le> GetMTU (ack_cc (cn_acks c))) \<and> acknowlegements (cn_acks c') = acknowlegements (cn_acks c)"
proof -
  let ?tx = "ResetPacketsAndDatagrams (tx_of c)" and ?env = "(ue_transmit env)\<lparr>te_time := time\<rparr>"
  let ?h = "data_header (ue_header env) slow b"
  have r: "tx_resend ?tx = tx_resend (tx_of c)" "tx_queue ?tx = tx_queue (tx_of c)" "tx_cc ?tx = tx_cc (tx_of c)"
    by (simp_all add: ResetPacketsAndDatagrams_def)
  have i: "sender_inv False B lg xs ?tx" using ok sender_same [OF r(1,2)] r(3) by (simp add: conn_ok_def)
  have s: "step_ok env B xs (currentMtuBytes c) ?tx" using st step_same [OF r(1,2)] by simp
  have m: "currentMtuBytes c = int (GetMTU (tx_cc ?tx) + UDP_HEADER_SIZE)" using ok r(3) by (simp add: conn_ok_def)
  have est: "estimates_ok (tx_cc ?tx)" and m32: "32 \<le> GetMTU (tx_cc ?tx)" using ok r(3) by (simp_all add: conn_ok_def)
  obtain m' tx1 xs1 B1 where k: "black_hole_check (ue_pool env) (ue_addresses env) time (currentMtuBytes c, ?tx) = Inr (m', tx1)"
      "sender_inv False B1 lg xs1 tx1" "B1 \<le> B + 64 * length (concat (ue_addresses env))" "GetMTU (tx_cc tx1) \<le> GetMTU (tx_cc ?tx)"
      "estimates_ok (tx_cc tx1)" "32 \<le> GetMTU (tx_cc tx1)" "m' = int (GetMTU (tx_cc tx1) + UDP_HEADER_SIZE)"
    using black_hole_ok [OF i s m m32, of time] est by metis
  have h: "\<not> isACK ?h" "\<not> isNAK ?h" by (simp_all add: data_header_def)
  note e = estimates_tx [OF k(5), of b]
  obtain sent tx2 bs2 new xs2 pss where t: "transmit ?env ?h b tx1 bs = Inr (sent, tx2, bs2)" "sender_inv False B1 (lg @ new) xs2 tx2" "bs_inv bs2"
      "datagrams_ok False (nextDatagramSequenceNumber (tx_cc tx1)) (GetMTU (tx_cc tx1)) (lg @ new) pss sent" "tx_cc_frame tx1 tx2 (length pss)"
    using transmit_inv [OF k(2) conjunct1 [OF e] conjunct2 [OF e] h bs, of ?env] by blast
  have fit: "length d \<le> GetMTU (ack_cc (cn_acks c))" if d: "d \<in> set sent" for d
  proof -
    obtain j where "j < length pss" "d = sent ! j" using d t(4) by (metis datagrams_ok_def in_set_conv_nth)
    then have "length d \<le> GetMTU (tx_cc tx1)" using t(4) by (simp add: datagrams_ok_def)
    then show ?thesis using k(4) r(3) by simp
  qed
  define c' where "c' = set_exceeded (outgoing_waiting tx2)
     (let c1 = (put_tx tx2 c)\<lparr>currentMtuBytes := m'\<rparr>
      in if sent = [] then c1 else c1\<lparr>timeOfLastContinualSend := (if outgoing_waiting tx2 then time else 0)\<rparr>)"
  have e: "send_data env time slow b c bs = Inr (sent, c', bs2)" by (simp add: send_data_def k(1) t(1) c'_def Let_def)
  have "tx_resend (tx_of c') = tx_resend tx2" "tx_queue (tx_of c') = tx_queue tx2" "tx_cc (tx_of c') = tx_cc tx2"
    by (simp_all add: c'_def set_exceeded_def put_tx_def set_acks_def tx_of_def cn_acks_def Let_def)
  then have "sender_inv False B1 (lg @ new) xs2 (tx_of c')" using t(2) sender_same [of "tx_of c'" tx2] by simp
  moreover have c': "acknowlegements (cn_acks c') = acknowlegements (cn_acks c)" "NAKs (cn_acks c') = NAKs (cn_acks c)"
    "ack_cc (cn_acks c') = tx_cc tx2" "currentMtuBytes c' = m'"
    by (simp_all add: c'_def set_exceeded_def put_tx_def set_acks_def tx_of_def cn_acks_def Let_def)
  moreover have mtu: "GetMTU (tx_cc tx2) = GetMTU (tx_cc tx1)" using t(5) by (simp add: tx_cc_frame_def GetMTU_def)
  moreover have "estimates_ok (tx_cc tx2)"
  proof -
    have "GetMTU (tx_cc tx1) \<le> 1400" using k(2) by (simp add: sender_inv_def MAXIMUM_MTU_SIZE_def)
    then show ?thesis using transmit_usable [OF t(1)] k(5) by (simp add: usable_def GetMTU_def word_le_nat_alt)
  qed
  moreover have "reports_ok (cn_acks c')" using ok c'(1,2) by (simp add: conn_ok_def reports_ok_def)
  ultimately have "settled env B lg c'" unfolding settled_def using k(3,6,7)
    by (intro conjI exI [of _ B1] exI [of _ "lg @ new"] exI [of _ xs2]) simp_all
  then show ?thesis using e t(3) fit c'(1) by blast
qed

section \<open>The whole update\<close>

lemma cull_ok:
  assumes ok: "conn_ok B lg xs zs c"
  shows "\<exists>c1 zs1. cull time e c = Some c1 \<and> conn_ok B lg xs zs1 c1 \<and> cn_layer c1 = cn_layer c \<and> currentMtuBytes c1 = currentMtuBytes c \<and>
    deadConnection c1 = deadConnection c"
proof (cases "unreliableTimeout c > 0 \<and> e \<ge> timeToNextUnreliableCull c")
  case False
  have same: "conn_ok B lg xs zs (c\<lparr>timeToNextUnreliableCull := v\<rparr>)" for v
    using ok by (simp add: conn_ok_def tx_of_def cn_acks_def)
  show ?thesis using False ok same by (auto simp: cull_def)
next
  case True
  let ?q = "tx_queue (cn_tx c)" and ?T = "unreliableTimeout c"
  have z: "unreliable_rep ?q zs" "set zs \<subseteq> set_mset (queued ?q)" "sender_inv False B lg xs (tx_of c)" using ok by (simp_all add: conn_ok_def)
  define ys where "ys = dropWhile (\<lambda>p. expired time ?T (sq_mem ?q p)) zs"
  obtain q' A where q: "cull_unreliable time ?T ?q = Some q'" "unreliable_rep q' ys" "culled A ?q q'"
    using cull_unreliable_rep [OF z(1,2), of time ?T] unfolding ys_def by blast
  have fr: "queue_frame ?q q'" and mem: "sq_mem q' = (\<lambda>p. if p \<in> A then (sq_mem ?q p)\<lparr>ip_data := []\<rparr> else sq_mem ?q p)"
    using q(3) by (simp_all add: culled_def)
  have sq: "sq_inv B q' \<and> queued q' = queued ?q" by (rule queue_frame_inv [OF fr]) (use z(3) in \<open>simp add: sender_inv_def\<close>)
  define c1 where "c1 = c\<lparr>cn_tx := (cn_tx c)\<lparr>tx_queue := q'\<rparr>, timeToNextUnreliableCull := ?T div 2\<rparr>"
  have "set ys \<subseteq> set zs" unfolding ys_def by (meson set_dropWhileD subsetI)
  moreover have "queue_fresh (set xs) q'" using z(3) sq mem by (auto simp: sender_inv_def queue_fresh_def)
  ultimately have "conn_ok B lg xs ys c1"
    using ok q(2) sq z(2) by (auto simp: conn_ok_def c1_def tx_of_def cn_acks_def sender_inv_def)
  moreover have "cull time e c = Some c1" using True q(1) by (simp add: cull_def c1_def)
  ultimately show ?thesis by (intro exI [of _ c1] exI [of _ ys]) (simp add: c1_def)
qed

lemma report_losses_ok:
  fixes pool time b
  assumes "conn_ok B lg xs zs c"
  defines "c' \<equiv> report_losses pool time (clear_metrics time (set_exceeded b c))"
  shows "conn_ok B lg xs zs c'" "step_ok env B xs m (tx_of c') = step_ok env B xs m (tx_of c)" "cn_acks c' = cn_acks c"
    "currentMtuBytes c' = currentMtuBytes c"
proof -
  have f: "tx_resend (tx_of c') = tx_resend (tx_of c)" "tx_queue (tx_of c') = tx_queue (tx_of c)" "tx_queue (cn_tx c') = tx_queue (cn_tx c)"
    "cn_acks c' = cn_acks c" "currentMtuBytes c' = currentMtuBytes c"
    by (simp_all add: c'_def report_losses_def clear_metrics_def set_exceeded_def push_output_def cn_acks_def Let_def split: prod.split)
  then show "step_ok env B xs m (tx_of c') = step_ok env B xs m (tx_of c)" by (intro step_same)
  show "cn_acks c' = cn_acks c" "currentMtuBytes c' = currentMtuBytes c" by (fact f)+
  have "sender_inv False B lg xs (tx_of c') = sender_inv False B lg xs (tx_of c)" by (rule sender_same) (use f in simp_all)
  then show "conn_ok B lg xs zs c'" using assms(1) f by (simp add: conn_ok_def)
qed

definition pool_ok :: "UpdateEnv \<Rightarrow> nat \<Rightarrow> ptr list \<Rightarrow> u64 \<Rightarrow> Connection \<Rightarrow> bool" where
  "pool_ok env B xs time c \<longleftrightarrow> (\<forall>e c1. cull time e (c\<lparr>cn_lastUpdateTime := time\<rparr>) = Some c1 \<longrightarrow> step_ok env B xs (currentMtuBytes c1) (tx_of c1))"

definition updated :: "UpdateEnv \<Rightarrow> nat \<Rightarrow> InternalPacket list \<Rightarrow> bool \<Rightarrow> Connection \<Rightarrow> u8 list list \<times> Connection \<times> BitStream \<Rightarrow> bool" where
  "updated env B lg force c r \<longleftrightarrow>
    (case r of (out, c', bs') \<Rightarrow> bs_inv bs' \<and> (\<forall>d \<in> set out. length d \<le> GetMTU (ack_cc (cn_acks c))) \<and> settled env B lg c' \<and>
       (force \<and> \<not> deadConnection c' \<longrightarrow> acknowlegements (cn_acks c') = []))"

lemma updatedI:
  assumes "bs_inv bs'" "\<forall>d \<in> set out. length d \<le> GetMTU (ack_cc (cn_acks c))" "settled env B lg c'"
    and "force \<Longrightarrow> \<not> deadConnection c' \<Longrightarrow> acknowlegements (cn_acks c') = []"
  shows "updated env B lg force c (out, c', bs')"
  unfolding updated_def prod.case using assms by blast

lemma after_reports:
  assumes c: "reports_only c c1" "reports_only c1 c2" and ok: "conn_ok B lg xs zs c" and bs: "bs_inv bs"
    and st: "step_ok env B xs (currentMtuBytes c) (tx_of c)"
    and out: "\<forall>d \<in> set out. length d \<le> GetMTU (ack_cc (cn_acks c))" and f: "force \<longrightarrow> acknowlegements (cn_acks c2) = []"
    and c3: "c3 = report_losses (ue_pool env) time (clear_metrics time (set_exceeded b c2))"
  shows "updated env B lg force c (out, c3, bs)"
    and "\<exists>sent c4 bs4. send_data env time slow cont c3 bs = Inr (sent, c4, bs4) \<and> updated env B lg force c (out @ sent, c4, bs4)"
proof -
  note ok2 = reports_only_ok(1) [OF c(2) reports_only_ok(1) [OF c(1) ok]]
  note l = report_losses_ok [where pool = "ue_pool env" and time = time and b = b, OF ok2, folded c3]
  have mtu: "GetMTU (ack_cc (cn_acks c3)) = GetMTU (ack_cc (cn_acks c))" "currentMtuBytes c3 = currentMtuBytes c"
    using c l(3,4) by (simp_all add: reports_only_def)
  have "step_ok env B xs (currentMtuBytes c3) (tx_of c3)"
    using st reports_only_ok(2) [OF c(1)] reports_only_ok(2) [OF c(2)] l(2) mtu(2) by simp
  from send_data_ok [OF l(1) this bs, of time slow cont] obtain sent c4 bs4 where
    s: "send_data env time slow cont c3 bs = Inr (sent, c4, bs4)" "bs_inv bs4" "settled env B lg c4" "\<forall>d \<in> set sent. length d \<le> GetMTU (ack_cc (cn_acks c))"
      "acknowlegements (cn_acks c4) = acknowlegements (cn_acks c3)" unfolding mtu(1) by blast
  have "updated env B lg force c (out @ sent, c4, bs4)"
    by (rule updatedI [OF s(2) _ s(3)]) (use out s(4,5) f l(3) in auto)
  then show "\<exists>sent c4 bs4. send_data env time slow cont c3 bs = Inr (sent, c4, bs4) \<and> updated env B lg force c (out @ sent, c4, bs4)"
    using s(1) by blast
  show "updated env B lg force c (out, c3, bs)"
    by (rule updatedI [OF bs out conn_settled [OF l(1)]]) (use f l(3) in simp_all)
qed

lemma UpdateInternal_updated:
  assumes ok: "conn_ok B lg xs zs c" and bs: "bs_inv bs" and pool: "pool_ok env B xs time c"
  shows "\<exists>r. UpdateInternal env time force c bs = Inr r \<and> updated env B lg force c r"
proof (cases "\<not> force \<and> time \<le> cn_lastUpdateTime c")
  case True
  have "conn_ok B lg xs zs (c\<lparr>cn_lastUpdateTime := time\<rparr>)" using ok by (simp add: conn_ok_def tx_of_def cn_acks_def)
  then have "updated env B lg force c ([], c\<lparr>cn_lastUpdateTime := time\<rparr>, bs)"
    using True by (intro updatedI [OF bs _ conn_settled]) simp_all
  then show ?thesis using True by (auto simp: UpdateInternal_def)
next
  case False
  define e where "e = (if time - cn_lastUpdateTime c > 100000 then 100000 else time - cn_lastUpdateTime c)"
  let ?c = "c\<lparr>cn_lastUpdateTime := time\<rparr>"
  have "conn_ok B lg xs zs ?c" using ok by (simp add: conn_ok_def tx_of_def cn_acks_def)
  from cull_ok [OF this, of time e] obtain c1 zs1 where
    k: "cull time e ?c = Some c1" "conn_ok B lg xs zs1 c1" "cn_layer c1 = cn_layer c" by auto
  have acks: "cn_acks c1 = cn_acks c" using k(3) by (simp add: cn_acks_def)
  have st: "step_ok env B xs (currentMtuBytes c1) (tx_of c1)" using pool k(1) by (simp add: pool_ok_def)
  obtain o1 c2 b2 where a: "send_acks env time force c1 bs = Inr (o1, c2, b2)" "reports_only c1 c2" "bs_inv b2"
      "\<forall>d \<in> set o1. length d \<le> GetMTU (ack_cc (cn_acks c1))" "force \<longrightarrow> acknowlegements (cn_acks c2) = []"
    using send_acks_ok [OF k(2) bs, of env time force] by blast
  obtain o2 c3 b3 where n: "send_loss_reports env c2 b2 = (o2, c3, b3)" "reports_only c2 c3" "bs_inv b3"
      "\<forall>d \<in> set o2. length d \<le> GetMTU (ack_cc (cn_acks c2))" "acknowlegements (cn_acks c3) = acknowlegements (cn_acks c2)"
    using send_loss_reports_ok [OF reports_only_ok(1) [OF a(2) k(2)] a(3), of env] by blast
  let ?x = "outgoing_waiting (tx_of c3)"
  let ?c4 = "report_losses (ue_pool env) time (clear_metrics time (set_exceeded ?x c3))"
  have out: "\<forall>d \<in> set (o1 @ o2). length d \<le> GetMTU (ack_cc (cn_acks c1))" "force \<longrightarrow> acknowlegements (cn_acks c3) = []"
    using a(2,4,5) n(4,5) by (auto simp: reports_only_def)
  have u: "updated env B lg force c r = updated env B lg force c1 r" for r using acks by (simp add: updated_def)
  note r = after_reports [OF a(2) n(2) k(2) n(3) st out refl, folded u]
  obtain sent c5 b5 where s: "send_data env time (IsInSlowStart (ack_cc (cn_acks c3))) (bandwidthExceededStatistic (cn_layer c3)) ?c4 b3 = Inr (sent, c5, b5)"
      "updated env B lg force c ((o1 @ o2) @ sent, c5, b5)" using r(2) by blast
  have dead: "updated env B lg force c ([], c1\<lparr>deadConnection := True\<rparr>, bs)"
  proof (rule updatedI [OF bs])
    have "conn_ok B lg xs zs1 (c1\<lparr>deadConnection := True\<rparr>)" using k(2) by (simp add: conn_ok_def tx_of_def cn_acks_def)
    then show "settled env B lg (c1\<lparr>deadConnection := True\<rparr>)" by (rule conn_settled)
  qed simp_all
  show ?thesis
    unfolding UpdateInternal_def if_not_P [OF False] Let_def e_def [symmetric] k(1) option.case a(1) sum.case prod.case n(1) s(1)
    using dead r(1) s(2) by (auto simp: append_assoc)
qed

end
