(* ===== verification/Connection_Laws.thy ===== *)
theory Connection_Laws
  imports Update_Total
begin

text \<open>
  What holds of a connection: after \<^verbatim>\<open>Reset\<close> it is as good as new and every update relies on nothing else; an update always returns;
  the time after which a silent peer is given up.
\<close>

section \<open>Emptying the datagram history\<close>

lemma clear_history_step:
  assumes "queue_ok (datagramHistory h)" "queue_list (datagramHistory h) \<noteq> []"
  defines "h1 \<equiv> RemoveFromDatagramHistory (datagramHistoryPopCount h) h"
  defines "q \<equiv> snd (Queue_Pop (datagramHistory h1))"
  shows "queue_ok q" "length (queue_list q) = length (queue_list (datagramHistory h)) - 1"
proof -
  have sz: "0 < Queue_Size (datagramHistory h)" using length_queue_list [of "datagramHistory h"] assms(2) by (metis length_greater_0_conv)
  have "queue_ok (datagramHistory h1)" "length (queue_list (datagramHistory h1)) = length (queue_list (datagramHistory h))"
    using assms(1) sz Queue_set_refine [of "datagramHistory h" 0] by (simp_all add: h1_def RemoveFromDatagramHistory_def Let_def del: length_queue_list)
  moreover from this(2) have "queue_list (datagramHistory h1) \<noteq> []" using assms(2) by (metis length_0_conv)
  ultimately show "queue_ok q" "length (queue_list q) = length (queue_list (datagramHistory h)) - 1"
    using Queue_Pop_refine(1,2) [of "datagramHistory h1"] by (simp_all add: q_def)
qed

lemma clear_history_empty:
  assumes "queue_ok (datagramHistory h)" "length (queue_list (datagramHistory h)) \<le> fuel"
  shows "queue_ok (datagramHistory (clear_history fuel h)) \<and> queue_list (datagramHistory (clear_history fuel h)) = [] \<and>
    datagramHistoryPopCount (clear_history fuel h) = 0"
  using assms
proof (induction fuel arbitrary: h)
  case (Suc fuel)
  show ?case
  proof (cases "queue_list (datagramHistory h) = []")
    case True
    then have "Queue_Size (datagramHistory h) = 0" using length_queue_list [of "datagramHistory h"] by (metis list.size(3))
    then show ?thesis using Suc.prems(1) True by simp
  next
    case False
    note s = clear_history_step [OF Suc.prems(1) False]
    have n: "Queue_Size (datagramHistory h) > 0" using length_queue_list [of "datagramHistory h"] False by (metis length_greater_0_conv)
    define h1 where "h1 = RemoveFromDatagramHistory (datagramHistoryPopCount h) h"
    let ?h = "h1\<lparr>datagramHistory := snd (Queue_Pop (datagramHistory h1)), datagramHistoryPopCount := datagramHistoryPopCount h1 + 1\<rparr>"
    have "clear_history (Suc fuel) h = clear_history fuel ?h" using n by (simp add: Let_def h1_def)
    moreover have "queue_ok (datagramHistory ?h)" "length (queue_list (datagramHistory ?h)) \<le> fuel"
      using s Suc.prems(2) by (simp_all add: h1_def)
    ultimately show ?thesis using Suc.IH [of ?h] by metis
  qed
qed (simp del: length_queue_list)

section \<open>A fresh connection\<close>

lemma fresh_estimates:
  assumes "v \<le> 1400"
  shows "estimates_ok (CC_Init v)"
proof -
  have "fst (GetTransmissionBandwidth u b (CC_Init v)) \<noteq> None" for u b by (rule small_window [OF assms]) (simp add: CC_Init_def)
  then show ?thesis by (simp add: estimates_ok_def GetRTOForRetransmission_def GetSenderRTOForACK_def CC_Init_def word_le_nat_alt)
qed

lemma reset_queue:
  defines "q' \<equiv> \<lambda>q. init_queue (q\<lparr>outgoingPacketBuffer := Heap_Clear (outgoingPacketBuffer q), unreliableLinkedList := (unreliableLinkedList q)\<lparr>ring_head := None\<rparr>\<rparr>)"
  shows "sq_inv 27 (q' q)" "queued (q' q) = {#}" "unreliable_rep (q' q) []"
    "orderedWriteIndex (q' q) = replicate NUMBER_OF_ORDERED_STREAMS 0" "sequencedWriteIndex (q' q) = replicate NUMBER_OF_ORDERED_STREAMS 0"
  using start_weights_ok [of 27]
  by (simp_all add: q'_def init_queue_def sq_inv_def InitHeapWeights_def entries_ok_def queued_def Heap_Clear_def heap_ok_def heap_ordered_def
      heap_elems_def heap_mset_def unreliable_rep_def ring_rep_def)

lemma reset_resend: "resend_inv (sw_resend (init_window (free_window w))) []"
  by (simp add: resend_inv_def init_window_def free_window_def ring_rep_def Let_def)

definition channel_fresh :: "Channel \<Rightarrow> bool" where
  "channel_fresh ch \<longleftrightarrow> orderedReadIndex ch = 0 \<and> highestSequencedReadIndex ch = 0 \<and> heapIndexOffset ch = 0 \<and> Heap_Size (orderingHeap ch) = 0"

text \<open>What a receiver holds before anything arrives; the list of holes is emptied when the first datagram comes.\<close>

definition receiver_fresh :: "Receiver \<Rightarrow> bool" where
  "receiver_fresh rc \<longleftrightarrow> receivedPacketsBaseIndex (rc_window rc) = 0 \<and> resetReceivedPackets (rc_window rc) \<and> rc_splits rc = [] \<and>
    outputQueue rc = [] \<and> list_all channel_fresh (rc_channels rc)"

text \<open>The sending side before anything is sent: no packet anywhere, every number, counter and index at its start.\<close>

definition sender_fresh :: "Transmitter \<Rightarrow> bool" where
  "sender_fresh tx \<longleftrightarrow>
    (let q = tx_queue tx; st = sw_resend (tx_window tx)
     in Heap_Size (outgoingPacketBuffer q) = 0 \<and> ring_head (unreliableLinkedList q) = None \<and>
        outgoingPacketBufferNextWeights q = [0, 3, 10, 27] \<and>
        orderedWriteIndex q = replicate NUMBER_OF_ORDERED_STREAMS 0 \<and> sequencedWriteIndex q = replicate NUMBER_OF_ORDERED_STREAMS 0 \<and>
        nextSplitPacketId q = 0 \<and> internalOrderIndex q = 0 \<and>
        messageInSendBuffer q = replicate NUMBER_OF_PRIORITIES 0 \<and> bytesInSendBuffer q = replicate NUMBER_OF_PRIORITIES 0 \<and>
        sendReliableMessageNumberIndex st = 0 \<and> resendBuffer st = replicate RESEND_BUFFER_ARRAY_LENGTH None \<and> ring_head (rs_ring st) = None \<and>
        unacknowledgedBytes st = 0 \<and> messagesInResendBuffer st = 0 \<and> bytesInResendBuffer st = 0 \<and>
        unreliableWithAckReceiptHistory (tx_window tx) = [] \<and> receivePacketCount (tx_window tx) = 0 \<and>
        packetsToSendThisUpdate tx = [] \<and> packetsToSendThisUpdateDatagramBoundaries tx = [] \<and> countdownToNextPacketPair tx = 15 \<and>
        nextDatagramSequenceNumber (tx_cc tx) = 0)"

lemma Reset_fields:
  fixes mtu us ms c
  defines "c' \<equiv> Reset True mtu us ms c"
  shows "tx_queue (cn_tx c') = init_queue ((tx_queue (ClearPacketsAndDatagrams (tx_of c)))\<lparr>
      outgoingPacketBuffer := Heap_Clear (outgoingPacketBuffer (tx_queue (ClearPacketsAndDatagrams (tx_of c)))),
      unreliableLinkedList := (unreliableLinkedList (tx_queue (ClearPacketsAndDatagrams (tx_of c))))\<lparr>ring_head := None\<rparr>\<rparr>)"
    "lay_send (cn_layer c') = init_window (free_window (lay_send (cn_layer c)))"
    "acknowlegements (cn_acks c') = []" "NAKs (cn_acks c') = []" "ack_cc (cn_acks c') = CC_Init (of_int (mtu - int UDP_HEADER_SIZE))"
    "currentMtuBytes c' = mtu" "\<not> deadConnection c'" "receiver_fresh (lay_receive (cn_layer c'))"
    "sender_fresh (tx_of c')" "timeLastDatagramArrived (cn_layer c') = ms" "expectedNextSequenceNumber (ack_cc (cn_acks c')) = 0"
  by (simp_all add: c'_def Reset_def FreeThreadSafeMemory_def InitializeVariables_def put_tx_def set_acks_def cn_acks_def tx_of_def
      free_transmitter_def free_receiver_def init_receiver_def receiver_fresh_def channel_fresh_def list_all_iff Heap_Clear_def Heap_Size_def
      ClearPacketsAndDatagrams_def Let_def sender_fresh_def init_queue_def init_window_def free_window_def InitHeapWeights_def start_weight_def
      NUMBER_OF_PRIORITIES_def CC_Init_def upt_rec)

section \<open>Properties\<close>

text \<open>
  Property C4: \<^verbatim>\<open>Reset\<close> with new variables makes a connection as good as new whatever it went through: nothing is queued, unacknowledged, half received or
  to be reported; the numbers of reliable messages, of ordered and sequenced messages on every channel, of split messages, of datagrams and of the
  internal order are 0 on the sending side, and the numbers expected on the receiving side; the counters and the weights of the queue are at their start; the
  congestion control starts over at the new size; and the state is one in which every update works.
\<close>

theorem reset_is_fresh:
  assumes "60 \<le> mtu" "mtu \<le> int MAXIMUM_MTU_SIZE" "queue_ok (datagramHistory (sw_history (lay_send (cn_layer c))))"
  shows "let c' = Reset True mtu us ms c; w = lay_send (cn_layer c')
    in conn_ok 27 [] [] [] c' \<and> lossless (tx_queue (cn_tx c')) \<and> sender_fresh (tx_of c') \<and>
       queue_list (datagramHistory (sw_history w)) = [] \<and> datagramHistoryPopCount (sw_history w) = 0 \<and>
       expectedNextSequenceNumber (ack_cc (cn_acks c')) = 0 \<and> timeLastDatagramArrived (cn_layer c') = ms \<and>
       receiver_fresh (lay_receive (cn_layer c')) \<and> acknowlegements (cn_acks c') = [] \<and> NAKs (cn_acks c') = [] \<and>
       ack_cc (cn_acks c') = CC_Init (of_int (mtu - int UDP_HEADER_SIZE)) \<and> \<not> deadConnection c' \<and> currentMtuBytes c' = mtu"
proof -
  define c' where "c' = Reset True mtu us ms c"
  note f = Reset_fields [of mtu us ms c, folded c'_def]
  define v where "v = (of_int (mtu - int UDP_HEADER_SIZE) :: u32)"
  have v: "int (unat v) = mtu - 28"
  proof -
    have "uint v = (mtu - 28) mod 2 ^ LENGTH(32)" unfolding v_def UDP_HEADER_SIZE_def by (simp only: uint_word_of_int of_nat_numeral)
    then show ?thesis using assms(1,2) by (simp add: MAXIMUM_MTU_SIZE_def unat_eq_nat_uint)
  qed
  have "unat v \<le> 1400" using v assms(2) unfolding MAXIMUM_MTU_SIZE_def by linarith
  then have le: "v \<le> 1400" by (simp add: word_le_nat_alt)
  note q = reset_queue [of "tx_queue (ClearPacketsAndDatagrams (tx_of c))", folded f(1)]
  have h: "queue_list (datagramHistory (sw_history (lay_send (cn_layer c')))) = []" "datagramHistoryPopCount (sw_history (lay_send (cn_layer c'))) = 0"
    using clear_history_empty [OF assms(3)] by (simp_all add: f(2) init_window_def free_window_def Let_def)
  have n: "sendReliableMessageNumberIndex (sw_resend (lay_send (cn_layer c'))) = 0"
    by (simp add: f(2) init_window_def free_window_def Let_def)
  have g: "GetMTU (ack_cc (cn_acks c')) = unat v" unfolding f(5) v_def by (simp only: GetMTU_def CC_Init_def CCRakNetSlidingWindow.select_convs)
  have b: "9 \<le> unat v" "unat v \<le> MAXIMUM_MTU_SIZE" "32 \<le> unat v" "mtu = int (unat v + UDP_HEADER_SIZE)"
    using v assms(1,2) unfolding MAXIMUM_MTU_SIZE_def UDP_HEADER_SIZE_def by linarith+
  have "resend_inv (tx_resend (tx_of c')) []" using reset_resend by (simp add: f(2))
  then have "sender_inv False 27 [] [] (tx_of c')"
    using q(1,2) n b(1,2) by (simp add: sender_inv_def queue_fresh_def g)
  moreover have "estimates_ok (ack_cc (cn_acks c'))" using fresh_estimates [OF le] unfolding f(5) v_def .
  ultimately have "conn_ok 27 [] [] [] c'"
    using q(3) b(3,4) g by (simp add: conn_ok_def reports_ok_def f(3,4,6) range_wf_def)
  moreover have "lossless (tx_queue (cn_tx c'))" using q(2) by (simp add: lossless_def)
  ultimately show ?thesis using f(3-11) h by (simp add: c'_def [symmetric] Let_def)
qed

text \<open>A connection with one message and one arrival to report.\<close>

definition set_ranges :: "Layer \<Rightarrow> Layer" where
  "set_ranges lay = lay\<lparr>lay_receive := (lay_receive lay)\<lparr>rc_acks := (rc_acks (lay_receive lay))\<lparr>acknowlegements := [RangeNode_of 7 8]\<rparr>\<rparr>\<rparr>"

definition demo_conn :: Connection where
  "demo_conn =
    \<lparr>cn_layer = set_ranges (Layer_new 0 (SendWindow_new (\<lambda>_. demo_packet) empty_ring) 548 (BitStream_new (\<lambda>_. 9))),
     cn_tx = (Transmitter_new (\<lambda>_. demo_packet) (\<lambda>_. demo_packet) empty_ring 548)\<lparr>
       tx_queue := enqueue (Heap_Push False) 7 demo_packet (SendQueue_new (\<lambda>_. demo_packet))\<rparr>,
     cn_lastUpdateTime = 0, unreliableTimeout = 0, timeToNextUnreliableCull = 0, lastBpsClear = 0, timeOfLastContinualSend = 0,
     timeoutTime = 10000, deadConnection = False, currentMtuBytes = 576\<rparr>"

definition demo_update :: UpdateEnv where
  "demo_update = \<lparr>ue_transmit = demo_transmit, ue_pool = demo_packet, ue_addresses = [], ue_bytes = (\<lambda>_. 0), ue_header = demo_header\<rparr>"

theorem reset_is_fresh_witness:
  "let c' = Reset True 1400 77 88 demo_conn
   in conn_ok 27 [] [] [] c' \<and> sender_fresh (tx_of c') \<and> receiver_fresh (lay_receive (cn_layer c')) \<and> acknowlegements (cn_acks c') = []"
proof -
  have "queue_ok (datagramHistory (sw_history (lay_send (cn_layer demo_conn))))"
    by (simp add: demo_conn_def set_ranges_def Layer_new_def SendWindow_new_def refine_simps invar_intros)
  from reset_is_fresh [OF _ _ this, of 1400 77 88] show ?thesis by (simp add: MAXIMUM_MTU_SIZE_def Let_def)
qed

text \<open>
  Property C37: when a silent peer is given up.  With the clocks of the code, 32 bits of milliseconds, \<^verbatim>\<open>AckTimeout\<close> holds exactly if more than
  \<^verbatim>\<open>timeoutTime\<close> went by since the last datagram, or the clock is more than 10 seconds behind that datagram; the second happens at every wrap
  of the clock.
\<close>

theorem AckTimeout_exact:
  "AckTimeout (ucast (now :: u32)) c \<longleftrightarrow>
    unat now > unat (timeLastDatagramArrived (cn_layer c)) + unat (timeoutTime c) \<or>
    unat (timeLastDatagramArrived (cn_layer c)) > unat now + 10000"
proof -
  let ?l = "timeLastDatagramArrived (cn_layer c)"
  have w: "unat (ucast x :: u64) = unat x" "unat x < 4294967296" for x :: u32
  proof -
    have "unat x < 2 ^ LENGTH(32)" by (rule unsigned_less)
    then show b: "unat x < 4294967296" by simp
    show "unat (ucast x :: u64) = unat x" using b by (simp add: unsigned_ucast_eq take_bit_nat_eq_self)
  qed
  have "unat (ucast ?l - ucast now :: u64) = (if unat now \<le> unat ?l then unat ?l - unat now else unat ?l + 18446744073709551616 - unat now)"
    "unat (ucast now - ucast ?l :: u64) = (if unat ?l \<le> unat now then unat now - unat ?l else unat now + 18446744073709551616 - unat ?l)"
    by (simp_all add: unat_sub_if' w(1))
  then show ?thesis using w(2) [of now] w(2) [of ?l] w(2) [of "timeoutTime c"]
    by (auto simp: AckTimeout_def word_less_nat_alt w(1))
qed

lemma demo_conn_fields:
  "cn_acks demo_conn = \<lparr>acknowlegements = [RangeNode_of 7 8], NAKs = [], nextAckTimeToSend = 0, remoteSystemNeedsBAndAS = False, ack_cc = CC_Init 548\<rparr>"
  "tx_queue (cn_tx demo_conn) = enqueue (Heap_Push False) 7 demo_packet (SendQueue_new (\<lambda>_. demo_packet))"
  "lay_send (cn_layer demo_conn) = SendWindow_new (\<lambda>_. demo_packet) empty_ring" "currentMtuBytes demo_conn = 576" "unreliableTimeout demo_conn = 0"
  by (simp_all add: demo_conn_def set_ranges_def cn_acks_def Layer_new_def Receiver_new_def)

lemma demo_conn_ok: "conn_ok 91 [] [] [] demo_conn"
proof -
  let ?new = "SendQueue_new (\<lambda>_. demo_packet)" and ?q = "tx_queue (cn_tx demo_conn)"
  have ok: "heap_ok False (outgoingPacketBuffer ?new)" using SendQueue_new_inv(1) by (simp add: sq_inv_def)
  have fresh: "7 \<notin># queued ?new" by (simp add: SendQueue_new_inv(2))
  have q: "sq_inv 91 ?q"
    using enqueue_inv [OF SendQueue_new_inv(1) _ fresh push_pushes [OF ok], where ip = demo_packet] by (simp add: demo_conn_fields(2))
  have s: "queued ?q = {#7#}"
    using enqueue_eq(1) [OF SendQueue_new_inv(1) fresh, where ip = demo_packet and push = "Heap_Push False"]
    by (simp add: demo_conn_fields(2) queued_def heap_elems_def heap_mset_def Heap_Push_def HeapNode_of_def SendQueue_new_def InitHeapWeights_def Heap_new_def)
  have m: "sq_mem ?q 7 = demo_packet" by (simp add: demo_conn_fields(2) enqueue_mem)
  have w: "wire demo_packet = demo_packet" by (simp add: wire_def body_bytes_def demo_packet_def BITS_TO_BYTES_def)
  have u: "ring_head (unreliableLinkedList ?q) = None"
    by (simp add: demo_conn_fields(2) enqueue_def GetNextWeight_def InitHeapWeights_def count_message_def SendQueue_new_def Let_def
        AddToUnreliableLinkedList_def unreliable_class_def demo_packet_def)
  have mtu: "GetMTU (CC_Init 548) = 548" by (simp add: GetMTU_def CC_Init_def)
  have "sender_inv False 91 [] [] (tx_of demo_conn)"
    using q s m w demo_packet_sendable resend_inv_new
    by (simp add: sender_inv_def queue_fresh_def demo_conn_fields(1,3) mtu MAXIMUM_MTU_SIZE_def SendWindow_new_def ResendState_new_def)
  then show ?thesis
    using u fresh_estimates [of 548] by (simp add: conn_ok_def unreliable_rep_def ring_rep_def demo_conn_fields(1,4) mtu reports_ok_def UDP_HEADER_SIZE_def range_wf_def range_valid_def RangeNode_of_def)
qed

lemma demo_pool_ok: "pool_ok demo_update 91 [] 5000000 demo_conn"
  by (auto simp: pool_ok_def cull_def demo_conn_fields(4,5) step_ok_def NextLowerMtu_cases)

text \<open>
  Property C3: an update of a connection returns, whether acknowledgements are forced or not, in every consistent state: the invariants of the sending side
  and of the list of unreliable messages hold, the conversions of the congestion control are defined, and the pool has the packets a step down of the datagram
  size may need.  Its loops end and every datagram it hands to the socket fits the size agreed with the peer.  Afterwards the sending side is consistent
  with the numbers given out before, the reports are well formed, the conversions are still defined and the datagram size agrees with the congestion control;
  and no arrival is left unreported if reports are forced, unless the connection was given up.
\<close>

theorem update_returns:
  assumes "conn_ok B lg xs zs c" "bs_inv bs" "pool_ok env B xs time c"
  shows "\<exists>out c' bs'. UpdateInternal env time force c bs = Inr (out, c', bs') \<and> bs_inv bs' \<and>
    (\<forall>d \<in> set out. length d \<le> GetMTU (ack_cc (cn_acks c))) \<and> settled env B lg c' \<and>
    (force \<and> \<not> deadConnection c' \<longrightarrow> acknowlegements (cn_acks c') = [])"
  using UpdateInternal_updated [OF assms, of force] unfolding updated_def by fastforce

theorem update_returns_witness:
  "\<exists>out c' bs'. UpdateInternal demo_update 5000000 True demo_conn (BitStream_new (\<lambda>_. 3)) = Inr (out, c', bs') \<and>
    (\<forall>d \<in> set out. length d \<le> 548) \<and> settled demo_update 91 [] c' \<and> (\<not> deadConnection c' \<longrightarrow> acknowlegements (cn_acks c') = [])"
  using update_returns [OF demo_conn_ok BitStream_new_inv [of "\<lambda>_. 3"] demo_pool_ok, of True] by (auto simp: demo_conn_fields(1) GetMTU_def CC_Init_def)

end
