(* ===== verification/Peer_Messages.thy ===== *)
theory Peer_Messages
  imports BitStream_Reads Internal_Packet
begin

text \<open>
  The messages by which two peers open a session (\<^verbatim>\<open>message_identifiers.h\<close>, \<^verbatim>\<open>peer.cpp\<close>), as byte strings.  Every field of them is a whole number of
  bytes, so a stream that is read is the list of its unread bytes; a field that does not fit what is left is not read and the variable keeps its
  value, as with \<^verbatim>\<open>BitStream::Read\<close>.
\<close>

section \<open>Identifiers\<close>

type_synonym bytes = "u8 list"

definition ID_CONNECTED_PING :: u8 where "ID_CONNECTED_PING = 0"

definition ID_CONNECTED_PONG :: u8 where "ID_CONNECTED_PONG = 3"

definition ID_DETECT_LOST_CONNECTIONS :: u8 where "ID_DETECT_LOST_CONNECTIONS = 4"

definition ID_CONNECTION_REQUEST :: u8 where "ID_CONNECTION_REQUEST = 9"

definition ID_CONNECTION_REQUEST_ACCEPTED :: u8 where "ID_CONNECTION_REQUEST_ACCEPTED = 16"

definition ID_CONNECTION_ATTEMPT_FAILED :: u8 where "ID_CONNECTION_ATTEMPT_FAILED = 17"

definition ID_NEW_INCOMING_CONNECTION :: u8 where "ID_NEW_INCOMING_CONNECTION = 19"

definition ID_DISCONNECTION_NOTIFICATION :: u8 where "ID_DISCONNECTION_NOTIFICATION = 21"

definition ID_CONNECTION_LOST :: u8 where "ID_CONNECTION_LOST = 22"

definition ID_INVALID_PASSWORD :: u8 where "ID_INVALID_PASSWORD = 24"

definition ID_TIMESTAMP :: u8 where "ID_TIMESTAMP = 27"

definition ID_SESSION_CONFIG_REQUEST :: u8 where "ID_SESSION_CONFIG_REQUEST = 128"

definition ID_SESSION_CONFIG :: u8 where "ID_SESSION_CONFIG = 129"

definition ID_SESSION_CONFIG_REJECTED :: u8 where "ID_SESSION_CONFIG_REJECTED = 130"

definition ID_SESSION_CONFIG_STATUS :: u8 where "ID_SESSION_CONFIG_STATUS = 131"

definition ID_SESSION_CONFIG_ABANDONED :: u8 where "ID_SESSION_CONFIG_ABANDONED = 132"

lemmas message_ids = ID_CONNECTED_PING_def ID_CONNECTED_PONG_def ID_DETECT_LOST_CONNECTIONS_def ID_CONNECTION_REQUEST_def
  ID_SND_RECEIPT_ACKED_def ID_SND_RECEIPT_LOSS_def ID_CONNECTION_REQUEST_ACCEPTED_def ID_CONNECTION_ATTEMPT_FAILED_def
  ID_NEW_INCOMING_CONNECTION_def ID_DISCONNECTION_NOTIFICATION_def ID_CONNECTION_LOST_def ID_INVALID_PASSWORD_def ID_TIMESTAMP_def
  ID_SESSION_CONFIG_REQUEST_def ID_SESSION_CONFIG_def ID_SESSION_CONFIG_REJECTED_def ID_SESSION_CONFIG_STATUS_def
  ID_SESSION_CONFIG_ABANDONED_def

definition MAXIMUM_NUMBER_OF_INTERNAL_IDS :: nat where
  "MAXIMUM_NUMBER_OF_INTERNAL_IDS = 10"

definition MAXIMUM_SESSION_CONFIG_SIZE :: nat where
  "MAXIMUM_SESSION_CONFIG_SIZE = 65536"

section \<open>Addresses and integers on the wire\<close>

text \<open>An IPv4 address and a port as the 32 and 16 bit fields of \<^verbatim>\<open>sockaddr_in\<close>, in network order.\<close>

record SystemAddress =
  s_addr :: u32
  sin_port :: u16

definition UNASSIGNED_SYSTEM_ADDRESS :: SystemAddress where
  "UNASSIGNED_SYSTEM_ADDRESS = \<lparr>s_addr = 0, sin_port = 0\<rparr>"

definition EqualsExcludingPort :: "SystemAddress \<Rightarrow> SystemAddress \<Rightarrow> bool" where
  "EqualsExcludingPort a b \<longleftrightarrow> s_addr a = s_addr b"

text \<open>Multi-byte integers go out in network order.\<close>

definition wr_int :: "'a::len word \<Rightarrow> bytes" where
  "wr_int w = rev (le_bytes w)"

definition rd_int :: "'a::len word \<Rightarrow> bytes \<Rightarrow> 'a word \<times> bytes" where
  "rd_int old rest =
    (let n = LENGTH('a) div 8
     in if length rest < n then (old, rest) else (of_le_bytes (rev (take n rest)), drop n rest))"

text \<open>Fields that are not swapped.\<close>

definition rd_raw :: "'a::len word \<Rightarrow> bytes \<Rightarrow> 'a word \<times> bytes" where
  "rd_raw old rest =
    (let n = LENGTH('a) div 8 in if length rest < n then (old, rest) else (of_le_bytes (take n rest), drop n rest))"

text \<open>The address is written inverted so that routers leave it alone.\<close>

definition wr_address :: "SystemAddress \<Rightarrow> bytes" where
  "wr_address a = [4] @ le_bytes (NOT (s_addr a)) @ le_bytes (sin_port a)"

text \<open>\<open>version\<close> and \<open>address\<close> are the values the two locals of the reader happen to have before they are read.\<close>

definition rd_address :: "u8 \<Rightarrow> u32 \<Rightarrow> SystemAddress \<Rightarrow> bytes \<Rightarrow> SystemAddress \<times> bytes" where
  "rd_address version address old rest =
    (let (ipVersion, r1) = rd_raw version rest
     in if ipVersion = 4
        then let (binaryAddress, r2) = rd_raw address r1;
                 (port, r3) = rd_raw (sin_port old) r2
             in (\<lparr>s_addr = NOT binaryAddress, sin_port = port\<rparr>, r3)
        else (old, r1))"

fun rd_addresses :: "u8 \<Rightarrow> u32 \<Rightarrow> SystemAddress list \<Rightarrow> bytes \<Rightarrow> SystemAddress list \<times> bytes" where
  "rd_addresses version address [] rest = ([], rest)"
| "rd_addresses version address (old # olds) rest =
    (let (a, r) = rd_address version address old rest;
         (as, r') = rd_addresses version address olds r
     in (a # as, r'))"

section \<open>The messages that are sent\<close>

text \<open>As \<^verbatim>\<open>ProcessOfflineNetworkPacket\<close> asks for a connection, without security.\<close>

definition connection_request :: "u64 \<Rightarrow> u64 \<Rightarrow> bytes \<Rightarrow> bytes" where
  "connection_request myGuid now outgoingPassword = [ID_CONNECTION_REQUEST] @ wr_int myGuid @ wr_int now @ [0] @ outgoingPassword"

definition request_accepted :: "SystemAddress \<Rightarrow> u16 \<Rightarrow> SystemAddress list \<Rightarrow> u64 \<Rightarrow> u64 \<Rightarrow> bytes" where
  "request_accepted systemAddress systemIndex ipList incomingTimestamp now =
    [ID_CONNECTION_REQUEST_ACCEPTED] @ wr_address systemAddress @ wr_int systemIndex @ concat (map wr_address ipList) @
    wr_int incomingTimestamp @ wr_int now"

definition new_incoming_connection :: "SystemAddress \<Rightarrow> SystemAddress list \<Rightarrow> u64 \<Rightarrow> u64 \<Rightarrow> bytes" where
  "new_incoming_connection systemAddress ipList sendPongTime now =
    [ID_NEW_INCOMING_CONNECTION] @ wr_address systemAddress @ concat (map wr_address ipList) @ wr_int sendPongTime @ wr_int now"

definition connected_ping :: "u64 \<Rightarrow> bytes" where
  "connected_ping now = [ID_CONNECTED_PING] @ wr_int now"

definition connected_pong :: "u64 \<Rightarrow> u64 \<Rightarrow> bytes" where
  "connected_pong sendPingTime now = [ID_CONNECTED_PONG] @ wr_int sendPingTime @ wr_int now"

section \<open>Reading what was written\<close>

lemma length_wr_int [simp]: "length (wr_int (w :: 'a::len word)) = LENGTH('a) div 8"
  by (simp add: wr_int_def)

lemma length_wr_address [simp]: "length (wr_address a) = 7"
  by (simp add: wr_address_def)

lemma length_wr_addresses [simp]: "length (concat (map wr_address as)) = 7 * length as"
  by (induction as) simp_all

lemma rd_wr_int:
  assumes "8 dvd LENGTH('a)"
  shows "rd_int old (wr_int w @ rest) = (w :: 'a::len word, rest)"
  using assms by (simp add: rd_int_def wr_int_def Let_def of_le_bytes_le_bytes)

lemma rd_raw_le:
  assumes "8 dvd LENGTH('a)"
  shows "rd_raw old (le_bytes w @ rest) = (w :: 'a::len word, rest)"
  using assms by (simp add: rd_raw_def Let_def of_le_bytes_le_bytes)

lemma rd_wr_address [simp]: "rd_address v b old (wr_address a @ rest) = (a, rest)"
  by (simp add: rd_address_def wr_address_def rd_raw_le) (simp add: rd_raw_def of_le_bytes_le_bytes)

lemma rd_wr_addresses [simp]: "length olds = length as \<Longrightarrow> rd_addresses v b olds (concat (map wr_address as) @ rest) = (as, rest)"
  by (induction olds as arbitrary: rest rule: list_induct2) simp_all

lemma rd_wr_u64 [simp]: "rd_int old (wr_int w @ rest) = (w :: u64, rest)" "rd_int old (wr_int w) = (w :: u64, [])"
  using rd_wr_int [of old w rest] rd_wr_int [of old w "[]"] by simp_all

lemma rd_wr_u16 [simp]: "rd_int old (wr_int w @ rest) = (w :: u16, rest)"
  by (rule rd_wr_int) simp

end
