(* ===== verification/Peer_Ping.thy ===== *)
theory Peer_Ping
  imports Prelude
begin

text \<open>
  Round trip times and clock offsets of a remote system (\<^verbatim>\<open>peer.cpp\<close>: \<^verbatim>\<open>OnConnectedPong\<close>, \<^verbatim>\<open>GetAveragePing\<close>, \<^verbatim>\<open>GetLastPing\<close>, \<^verbatim>\<open>GetLowestPing\<close>,
  \<^verbatim>\<open>GetClockDifferentialInt\<close>, \<^verbatim>\<open>ShiftIncomingTimestamp\<close>).  The last five samples are kept in a circular buffer; 65535 marks an empty entry.
\<close>

section \<open>State and operations\<close>

definition PING_TIMES_ARRAY_SIZE :: nat where
  "PING_TIMES_ARRAY_SIZE = 5"

record PingAndClockDifferential =
  pingTime :: u16
  clockDifferential :: u64

record PingTable =
  pingAndClockDifferential :: "PingAndClockDifferential list"
  pingAndClockDifferentialWriteIndex :: nat
  lowestPing :: u16

text \<open>The entries as a new connection gets them.\<close>

definition unset_ping :: PingAndClockDifferential where
  "unset_ping = \<lparr>pingTime = 65535, clockDifferential = 0\<rparr>"

definition PingTable_reset :: PingTable where
  "PingTable_reset =
    \<lparr>pingAndClockDifferential = replicate PING_TIMES_ARRAY_SIZE unset_ping, pingAndClockDifferentialWriteIndex = 0, lowestPing = 65535\<rparr>"

text \<open>\<open>time\<close> is the clock when the answer arrives.\<close>

definition ping_of :: "u64 \<Rightarrow> u64 \<Rightarrow> u64" where
  "ping_of time sendPingTime = (if time > sendPingTime then time - sendPingTime else 0)"

definition pong_sample :: "u64 \<Rightarrow> u64 \<Rightarrow> u64 \<Rightarrow> PingAndClockDifferential" where
  "pong_sample time sendPingTime sendPongTime =
    \<lparr>pingTime = ucast (ping_of time sendPingTime), clockDifferential = sendPongTime - (time div 2 + sendPingTime div 2)\<rparr>"

definition OnConnectedPong :: "u64 \<Rightarrow> u64 \<Rightarrow> u64 \<Rightarrow> PingTable \<Rightarrow> PingTable" where
  "OnConnectedPong time sendPingTime sendPongTime pt =
    (let ping = ping_of time sendPingTime;
         i = pingAndClockDifferentialWriteIndex pt
     in pt\<lparr>pingAndClockDifferential := (pingAndClockDifferential pt)[i := pong_sample time sendPingTime sendPongTime],
           lowestPing := (if lowestPing pt = 65535 \<or> int (unat (lowestPing pt)) > sint (ucast ping :: u32) then ucast ping else lowestPing pt),
           pingAndClockDifferentialWriteIndex := (if i + 1 = PING_TIMES_ARRAY_SIZE then 0 else i + 1)\<rparr>)"

text \<open>The loops read the entries in order up to the first empty one.\<close>

primrec average_loop :: "PingAndClockDifferential list \<Rightarrow> int \<Rightarrow> int \<Rightarrow> int \<times> int" where
  "average_loop [] acc quantity = (acc, quantity)"
| "average_loop (e # es) acc quantity =
    (if pingTime e = 65535 then (acc, quantity) else average_loop es (acc + int (unat (pingTime e))) (quantity + 1))"

definition GetAveragePing :: "PingTable \<Rightarrow> int" where
  "GetAveragePing pt =
    (let (acc, quantity) = average_loop (pingAndClockDifferential pt) 0 0 in if quantity > 0 then acc div quantity else - 1)"

definition GetLastPing :: "PingTable \<Rightarrow> int" where
  "GetLastPing pt =
    (let i = pingAndClockDifferentialWriteIndex pt
     in int (unat (pingTime (pingAndClockDifferential pt ! (if i = 0 then PING_TIMES_ARRAY_SIZE - 1 else i - 1)))))"

definition GetLowestPing :: "PingTable \<Rightarrow> int" where
  "GetLowestPing pt = int (unat (lowestPing pt))"

primrec clock_loop :: "PingAndClockDifferential list \<Rightarrow> int \<Rightarrow> u64 \<Rightarrow> u64" where
  "clock_loop [] lowestPingSoFar differential = differential"
| "clock_loop (e # es) lowestPingSoFar differential =
    (if pingTime e = 65535 then differential
     else if int (unat (pingTime e)) < lowestPingSoFar then clock_loop es (int (unat (pingTime e))) (clockDifferential e)
     else clock_loop es lowestPingSoFar differential)"

definition GetClockDifferentialInt :: "PingTable \<Rightarrow> u64" where
  "GetClockDifferentialInt pt = clock_loop (pingAndClockDifferential pt) 65535 0"

definition ShiftIncomingTimestamp :: "PingTable option \<Rightarrow> u64 \<Rightarrow> u64" where
  "ShiftIncomingTimestamp remoteSystem encodedTimestamp =
    encodedTimestamp - (case remoteSystem of None \<Rightarrow> 0 | Some pt \<Rightarrow> GetClockDifferentialInt pt)"

declare of_nat_unat [simp del]

section \<open>The circular buffer\<close>

text \<open>An answer is its arrival, the time of its question and what the remote clock said.\<close>

type_synonym pong = "u64 \<times> u64 \<times> u64"

definition sample :: "pong \<Rightarrow> PingAndClockDifferential" where
  "sample p = (case p of (time, sendPing, sendPong) \<Rightarrow> pong_sample time sendPing sendPong)"

primrec pongs :: "pong list \<Rightarrow> PingTable \<Rightarrow> PingTable" where
  "pongs [] pt = pt"
| "pongs (p # ps) pt = pongs ps (case p of (time, sendPing, sendPong) \<Rightarrow> OnConnectedPong time sendPing sendPong pt)"

definition last5 :: "'a list \<Rightarrow> 'a list" where
  "last5 xs = drop (length xs - PING_TIMES_ARRAY_SIZE) xs"

lemma last5_append: "last5 (xs @ [x]) = (if length xs < 5 then xs @ [x] else tl (last5 xs) @ [x])"
proof (cases "length xs < 5")
  case False
  then have "length xs - 4 = Suc (length xs - 5)" by simp
  then show ?thesis using False by (simp add: last5_def PING_TIMES_ARRAY_SIZE_def drop_Suc tl_drop)
qed (simp add: last5_def PING_TIMES_ARRAY_SIZE_def)

text \<open>\<open>holds ps pt\<close>: the entries are the last five samples of \<open>ps\<close>, the oldest at the write index once the buffer is full.\<close>

definition holds :: "PingAndClockDifferential list \<Rightarrow> PingTable \<Rightarrow> bool" where
  "holds ps pt \<longleftrightarrow> pingAndClockDifferentialWriteIndex pt = length ps mod 5 \<and>
    (if length ps < 5 then pingAndClockDifferential pt = ps @ replicate (5 - length ps) unset_ping
     else length (pingAndClockDifferential pt) = 5 \<and> rotate (length ps mod 5) (pingAndClockDifferential pt) = last5 ps)"

lemma rotate_write:
  assumes "length xs = 5" "i < 5"
  shows "rotate (Suc i mod 5) (xs[i := x]) = tl (rotate i xs) @ [x]"
proof (cases "Suc i = 5")
  case True
  then have i: "i = 4" by simp
  have "xs[i := x] = take 4 xs @ [x]" using assms by (simp add: i upd_conv_take_nth_drop)
  moreover have "tl (drop 4 xs @ take 4 xs) = take 4 xs" using assms(1) Cons_nth_drop_Suc [of 4 xs, symmetric] by simp
  ultimately show ?thesis using assms by (simp add: True i rotate_drop_take)
next
  case False
  then have i: "Suc i < length xs" "Suc i mod 5 = Suc i" "i mod 5 = i" using assms by auto
  have "xs[i := x] = (take i xs @ [x]) @ drop (Suc i) xs" using assms by (simp add: upd_conv_take_nth_drop)
  then have "rotate (Suc i) (xs[i := x]) = drop (Suc i) xs @ take i xs @ [x]"
    using assms rotate_append [of "take i xs @ [x]" "drop (Suc i) xs"] by (simp add: min.absorb2)
  moreover have "rotate i xs = drop i xs @ take i xs" using assms by (simp add: rotate_drop_take i)
  moreover have "drop i xs = xs ! i # drop (Suc i) xs" using assms by (simp add: Cons_nth_drop_Suc)
  ultimately show ?thesis by (simp add: i(2))
qed

lemma holds_pong:
  assumes h: "holds ps pt"
  shows "holds (ps @ [pong_sample time sendPing sendPong]) (OnConnectedPong time sendPing sendPong pt)"
proof -
  let ?x = "pong_sample time sendPing sendPong" and ?n = "length ps" and ?pt = "OnConnectedPong time sendPing sendPong pt"
  let ?a = "pingAndClockDifferential pt"
  have idx: "pingAndClockDifferentialWriteIndex pt = ?n mod 5" using h by (simp add: holds_def)
  have i': "pingAndClockDifferentialWriteIndex ?pt = Suc ?n mod 5"
    using idx by (simp add: OnConnectedPong_def Let_def PING_TIMES_ARRAY_SIZE_def mod_Suc)
  have a': "pingAndClockDifferential ?pt = ?a[?n mod 5 := ?x]" using idx by (simp add: OnConnectedPong_def Let_def)
  show ?thesis
  proof (cases "?n < 5")
    case True
    then have a: "?a = ps @ replicate (5 - ?n) unset_ping" "?n mod 5 = ?n" using h by (simp_all add: holds_def)
    obtain m where m: "5 - ?n = Suc m" using True by (cases "5 - ?n") auto
    then have e: "pingAndClockDifferential ?pt = (ps @ [?x]) @ replicate m unset_ping" unfolding a' a by (simp add: list_update_append)
    have mm: "m = 4 - ?n" using m by simp
    show ?thesis
    proof (cases "?n = 4")
      case four: True
      then have "pingAndClockDifferential ?pt = ps @ [?x]" using e mm by simp
      then show ?thesis using i' four by (simp add: holds_def last5_def PING_TIMES_ARRAY_SIZE_def)
    next
      case False
      then show ?thesis using e i' True mm by (simp add: holds_def)
    qed
  next
    case False
    then have r: "length ?a = 5" "rotate (?n mod 5) ?a = last5 ps" using h by (simp_all add: holds_def)
    have "rotate (Suc (?n mod 5) mod 5) (?a[?n mod 5 := ?x]) = tl (last5 ps) @ [?x]" using rotate_write [OF r(1), of "?n mod 5" ?x] r(2) by simp
    then have "rotate (Suc ?n mod 5) (pingAndClockDifferential ?pt) = last5 (ps @ [?x])"
      using False by (simp add: a' last5_append mod_Suc_eq)
    then show ?thesis using False i' r(1) by (simp add: holds_def a')
  qed
qed

lemma pongs_hold: "holds ps0 pt \<Longrightarrow> holds (ps0 @ map sample ps) (pongs ps pt)"
proof (induction ps arbitrary: ps0 pt)
  case (Cons p ps)
  obtain t s g where p: "p = (t, s, g)" by (metis prod_cases3)
  have "holds (ps0 @ [sample p]) (OnConnectedPong t s g pt)" using holds_pong [OF Cons.prems] by (simp add: sample_def p)
  from Cons.IH [OF this] show ?case by (simp add: p)
qed simp

lemma pongs_hold_new: "holds (map sample ps) (pongs ps PingTable_reset)"
proof -
  have "holds [] PingTable_reset" by (simp add: holds_def PingTable_reset_def PING_TIMES_ARRAY_SIZE_def)
  from pongs_hold [OF this, of ps] show ?thesis by simp
qed

section \<open>Reading the buffer\<close>

definition ping :: "pong \<Rightarrow> nat" where
  "ping p = (case p of (time, sendPing, _) \<Rightarrow> unat (ping_of time sendPing))"

lemma sample_ping: "ping p < 65535 \<Longrightarrow> unat (pingTime (sample p)) = ping p \<and> pingTime (sample p) \<noteq> 65535"
proof -
  assume a: "ping p < 65535"
  obtain t s g where p: "p = (t, s, g)" by (metis prod_cases3)
  have "unat (pingTime (sample p)) = ping p" using a by (simp add: p sample_def pong_sample_def ping_def unsigned_ucast_eq take_bit_nat_eq_self)
  moreover from this have "pingTime (sample p) \<noteq> 65535" using a by auto
  ultimately show ?thesis by blast
qed

lemma average_loop_eq:
  "\<forall>e \<in> set es. pingTime e \<noteq> 65535 \<Longrightarrow>
    average_loop (es @ replicate k unset_ping) acc q = (acc + (\<Sum>e \<leftarrow> es. int (unat (pingTime e))), q + int (length es))"
proof (induction es arbitrary: acc q)
  case Nil
  show ?case by (cases k) (simp_all add: unset_ping_def)
qed (simp add: algebra_simps)

lemma clock_loop_eq:
  "\<forall>e \<in> set es. pingTime e \<noteq> 65535 \<Longrightarrow>
    (\<forall>e \<in> set es. low \<le> int (unat (pingTime e))) \<and> clock_loop (es @ replicate k unset_ping) low d = d \<or>
    (\<exists>e \<in> set es. clock_loop (es @ replicate k unset_ping) low d = clockDifferential e \<and> int (unat (pingTime e)) < low \<and>
      (\<forall>e' \<in> set es. pingTime e \<le> pingTime e'))"
proof (induction es arbitrary: low d)
  case Nil
  show ?case by (cases k) (simp_all add: unset_ping_def)
next
  case (Cons x es)
  have x: "pingTime x \<noteq> 65535" "\<forall>e \<in> set es. pingTime e \<noteq> 65535" using Cons.prems by simp_all
  show ?case
  proof (cases "int (unat (pingTime x)) < low")
    case True
    have "clock_loop ((x # es) @ replicate k unset_ping) low d = clock_loop (es @ replicate k unset_ping) (int (unat (pingTime x))) (clockDifferential x)"
      using x(1) True by simp
    with Cons.IH [OF x(2), of "int (unat (pingTime x))" "clockDifferential x"] True show ?thesis
      by (auto simp: word_le_nat_alt)
  next
    case False
    have "clock_loop ((x # es) @ replicate k unset_ping) low d = clock_loop (es @ replicate k unset_ping) low d"
      using x(1) False by simp
    with Cons.IH [OF x(2), of low d] False show ?thesis by (auto simp: word_le_nat_alt)
  qed
qed

text \<open>The entries in use, in the order of the array.\<close>

lemma entries:
  assumes "\<forall>p \<in> set ps. ping p < 65535"
  shows "\<exists>es k. pingAndClockDifferential (pongs ps PingTable_reset) = es @ replicate k unset_ping \<and> set es = sample ` set (last5 ps) \<and>
    length es = length (last5 ps) \<and> (\<forall>e \<in> set es. pingTime e \<noteq> 65535) \<and>
    (\<Sum>e \<leftarrow> es. int (unat (pingTime e))) = (\<Sum>p \<leftarrow> last5 ps. int (ping p))"
proof -
  let ?a = "pingAndClockDifferential (pongs ps PingTable_reset)" and ?n = "length ps"
  note h = pongs_hold_new [of ps]
  have sub: "set (last5 ps) \<subseteq> set ps" by (simp add: last5_def set_drop_subset)
  have val: "pingTime (sample p) \<noteq> 65535" "int (unat (pingTime (sample p))) = int (ping p)" if "p \<in> set (last5 ps)" for p
    using sample_ping [of p] assms sub that by auto
  have ml: "last5 (map sample ps) = map sample (last5 ps)" by (simp add: last5_def drop_map)
  have sums: "(\<Sum>e \<leftarrow> map sample (last5 ps). int (unat (pingTime e))) = (\<Sum>p \<leftarrow> last5 ps. int (ping p))"
    using val(2) by (simp add: comp_def cong: map_cong)
  show ?thesis
  proof (cases "?n < 5")
    case True
    then have "?a = map sample (last5 ps) @ replicate (5 - ?n) unset_ping" using h by (simp add: holds_def last5_def PING_TIMES_ARRAY_SIZE_def)
    then show ?thesis using val(1) sums by (intro exI [of _ "map sample (last5 ps)"] exI [of _ "5 - ?n"]) auto
  next
    case False
    then have r: "rotate (?n mod 5) ?a = map sample (last5 ps)" "length ?a = 5" using h ml by (simp_all add: holds_def)
    have "set ?a = set (map sample (last5 ps))" using arg_cong [OF r(1), of set] by simp
    moreover have "length ?a = length (last5 ps)" using arg_cong [OF r(1), of length] by simp
    moreover have "(\<Sum>e \<leftarrow> ?a. int (unat (pingTime e))) = (\<Sum>e \<leftarrow> rotate (?n mod 5) ?a. int (unat (pingTime e)))"
      by (subst (1) append_take_drop_id [of "?n mod 5", symmetric]) (simp add: rotate_drop_take r(2) del: append_take_drop_id)
    ultimately show ?thesis using val(1) sums r(1) by (intro exI [of _ ?a] exI [of _ 0]) auto
  qed
qed

lemma last5_nonempty: "ps \<noteq> [] \<Longrightarrow> last5 ps \<noteq> []"
  by (cases ps) (simp_all add: last5_def PING_TIMES_ARRAY_SIZE_def)

section \<open>Properties\<close>

text \<open>
  The average ping is the mean of the last five pings, or of all if there were fewer.
\<close>

theorem average_of_last_pings:
  assumes "ps \<noteq> []" "\<forall>p \<in> set ps. ping p < 65535"
  shows "GetAveragePing (pongs ps PingTable_reset) = (\<Sum>p \<leftarrow> last5 ps. int (ping p)) div int (length (last5 ps))"
proof -
  obtain es k where e: "pingAndClockDifferential (pongs ps PingTable_reset) = es @ replicate k unset_ping" "length es = length (last5 ps)"
      "\<forall>e \<in> set es. pingTime e \<noteq> 65535" "(\<Sum>e \<leftarrow> es. int (unat (pingTime e))) = (\<Sum>p \<leftarrow> last5 ps. int (ping p))"
    using entries [OF assms(2)] by blast
  show ?thesis using average_loop_eq [OF e(3), of k 0 0] last5_nonempty [OF assms(1)] by (simp add: GetAveragePing_def e(1,2,4))
qed

theorem average_of_last_pings_witness:
  "GetAveragePing (pongs [(1010, 1000, 5), (2030, 2000, 6)] PingTable_reset) = 20"
  using average_of_last_pings [of "[(1010, 1000, 5), (2030, 2000, 6)]"]
  by (simp add: ping_def ping_of_def last5_def PING_TIMES_ARRAY_SIZE_def)

text \<open>A remote system whose clock is \<open>d\<close> ahead and that answers between the arrival of the question and that of the answer.\<close>

definition honest :: "u64 \<Rightarrow> pong \<Rightarrow> bool" where
  "honest d p \<longleftrightarrow> (case p of (time, sendPing, sendPong) \<Rightarrow>
     \<exists>m. unat sendPing \<le> m \<and> m \<le> unat time \<and> sendPong = of_nat m + d)"

lemma half_bounds:
  fixes a b :: int
  assumes "2 * a \<le> t" "t \<le> 2 * a + 1" "2 * b \<le> s" "s \<le> 2 * b + 1" "s \<le> m" "m \<le> t"
  shows "2 * (m - (a + b)) \<le> t - s + 2" "- (2 * (m - (a + b))) \<le> t - s + 2"
proof -
  have "2 * m \<le> 2 * t" "t - 1 \<le> 2 * a" "s - 1 \<le> 2 * b" "2 * s \<le> 2 * m" using assms by simp_all
  then show "2 * (m - (a + b)) \<le> t - s + 2" "- (2 * (m - (a + b))) \<le> t - s + 2" using assms(1,3) by (simp_all add: algebra_simps)
qed

lemma half_way:
  fixes s m t :: nat
  assumes "s \<le> m" "m \<le> t"
  shows "2 * \<bar>int m - int (t div 2 + s div 2)\<bar> \<le> int (t - s) + 2"
proof -
  define a b where "a = int t div 2" and "b = int s div 2"
  have h: "2 * a \<le> int t" "int t \<le> 2 * a + 1" "2 * b \<le> int s" "int s \<le> 2 * b + 1" unfolding a_def b_def by presburger+
  have i: "int (t - s) = int t - int s" "int (t div 2 + s div 2) = a + b" using assms by (simp_all add: a_def b_def zdiv_int)
  have "int s \<le> int m" "int m \<le> int t" using assms by simp_all
  then show ?thesis unfolding i using half_bounds [OF h] by (simp add: abs_if)
qed

lemma honest_sample:
  assumes "honest d p"
  shows "\<exists>e. clockDifferential (sample p) = d + of_int e \<and> 2 * \<bar>e\<bar> \<le> int (ping p) + 2"
proof -
  obtain t s g where p: "p = (t, s, g)" by (metis prod_cases3)
  obtain m where m: "unat s \<le> m" "m \<le> unat t" "g = of_nat m + d" using assms by (auto simp: honest_def p)
  let ?e = "int m - int (unat t div 2 + unat s div 2)"
  have h: "x div 2 = of_nat (unat x div 2)" for x :: u64 using word_arith_nat_div [of x 2] by simp
  have "clockDifferential (sample p) = of_nat m + d - (of_nat (unat t div 2) + of_nat (unat s div 2))"
    by (simp add: p sample_def pong_sample_def m(3) h)
  also have "\<dots> = d + of_int ?e" by simp
  finally have c: "clockDifferential (sample p) = d + of_int ?e" .
  have "ping p = unat t - unat s"
    using m(1,2) by (auto simp: p ping_def ping_of_def word_less_nat_alt unat_sub word_le_nat_alt)
  then have "2 * \<bar>?e\<bar> \<le> int (ping p) + 2" using half_way [OF m(1,2)] by simp
  then show ?thesis using c by blast
qed

text \<open>
  Property C33: if the clock of a remote system runs at the speed of ours and every round trip took less than 65535 milliseconds, the clock offset used for its
  timestamps is right up to half of the shortest of the last five round trips plus one millisecond.
\<close>

theorem clock_differential_bound:
  assumes "ps \<noteq> []" "\<forall>p \<in> set ps. honest d p \<and> ping p < 65535"
  shows "\<exists>e. GetClockDifferentialInt (pongs ps PingTable_reset) = d + of_int e \<and> (\<forall>p \<in> set (last5 ps). 2 * \<bar>e\<bar> \<le> int (ping p) + 2)"
proof -
  have sm: "\<forall>p \<in> set ps. ping p < 65535" using assms(2) by simp
  obtain es k where e: "pingAndClockDifferential (pongs ps PingTable_reset) = es @ replicate k unset_ping" "set es = sample ` set (last5 ps)"
      "\<forall>e \<in> set es. pingTime e \<noteq> 65535" using entries [OF sm] by blast
  have sub: "set (last5 ps) \<subseteq> set ps" by (simp add: last5_def set_drop_subset)
  have pt: "unat (pingTime (sample p)) = ping p" "ping p < 65535" if "p \<in> set (last5 ps)" for p using sample_ping [of p] sm sub that by auto
  obtain q where q: "q \<in> set (last5 ps)" using last5_nonempty [OF assms(1)] by (cases "last5 ps") auto
  have "\<not> (\<forall>e \<in> set es. 65535 \<le> int (unat (pingTime e)))" using pt [OF q] q e(2) by force
  with clock_loop_eq [OF e(3), of 65535 k 0] obtain x where x: "x \<in> set es" "clock_loop (es @ replicate k unset_ping) 65535 0 = clockDifferential x"
    "\<forall>e' \<in> set es. pingTime x \<le> pingTime e'" by blast
  obtain r where r: "r \<in> set (last5 ps)" "x = sample r" using x(1) e(2) by auto
  obtain err where err: "clockDifferential x = d + of_int err" "2 * \<bar>err\<bar> \<le> int (ping r) + 2"
    using honest_sample [of d r] assms(2) sub r by blast
  have "ping r \<le> ping p" if p: "p \<in> set (last5 ps)" for p
  proof -
    have "pingTime x \<le> pingTime (sample p)" using x(3) e(2) p by blast
    then show ?thesis using pt(1) [OF p] pt(1) [OF r(1)] r(2) by (simp add: word_le_nat_alt)
  qed
  then have "\<forall>p \<in> set (last5 ps). 2 * \<bar>err\<bar> \<le> int (ping p) + 2" using err(2) by force
  then show ?thesis using err(1) x(2) by (auto simp: GetClockDifferentialInt_def e(1))
qed

theorem clock_differential_bound_witness:
  "\<exists>e. GetClockDifferentialInt (pongs [(1010, 1000, 1504)] PingTable_reset) = 500 + of_int e \<and> 2 * \<bar>e\<bar> \<le> 12"
proof -
  have "honest 500 (1010, 1000, 1504)" unfolding honest_def prod.case by (rule exI [of _ 1004]) simp
  moreover have "ping (1010, 1000, 1504) = 10" by (simp add: ping_def ping_of_def)
  ultimately show ?thesis using clock_differential_bound [of "[(1010, 1000, 1504)]" 500] by (simp add: last5_def PING_TIMES_ARRAY_SIZE_def)
qed

text \<open>
  A round trip of 65536 milliseconds is recorded as 0: it halves the average and its sample, the worst one, decides the clock offset.
\<close>

theorem long_ping_recorded_as_zero:
  "let pt = pongs [(1010, 1000, 1005), (70000, 4464, g)] PingTable_reset
   in GetLastPing pt = 0 \<and> GetAveragePing pt = 5 \<and> GetClockDifferentialInt pt = g - 37232"
proof -
  have e: "PingTable_reset = \<lparr>pingAndClockDifferential = [unset_ping, unset_ping, unset_ping, unset_ping, unset_ping],
      pingAndClockDifferentialWriteIndex = 0, lowestPing = 65535\<rparr>"
    by (simp add: PingTable_reset_def PING_TIMES_ARRAY_SIZE_def numeral_eq_Suc)
  show ?thesis
    unfolding e by (simp add: OnConnectedPong_def PING_TIMES_ARRAY_SIZE_def ping_of_def pong_sample_def GetAveragePing_def GetLastPing_def
        GetClockDifferentialInt_def unset_ping_def Let_def)
qed

end
