(* ===== verification/Ban_List.thy ===== *)
theory Ban_List
  imports Prelude
begin

text \<open>
  Banned addresses (\<^verbatim>\<open>peer.cpp\<close>: \<^verbatim>\<open>AddToBanList\<close>, \<^verbatim>\<open>RemoveFromBanList\<close>, \<^verbatim>\<open>ClearBanList\<close>, \<^verbatim>\<open>IsBanned\<close>).  An entry is a text with an optional wildcard and
  the time at which it ends, 0 for never.  C strings are the characters before the terminator; a null pointer acts like the empty string.
  Shown: the list is a map from texts to end times.
\<close>

section \<open>State and operations\<close>

record BanStruct =
  ban_IP :: string
  ban_timeout :: u32

definition valid_ip :: "string \<Rightarrow> bool" where
  "valid_ip ip \<longleftrightarrow> \<not> (ip = [] \<or> length ip > 15)"

definition ban_end :: "u32 \<Rightarrow> u32 \<Rightarrow> u32" where
  "ban_end time milliseconds = (if milliseconds = 0 then 0 else time + milliseconds)"

primrec update_ban :: "string \<Rightarrow> u32 \<Rightarrow> BanStruct list \<Rightarrow> BanStruct list option" where
  "update_ban ip t [] = None"
| "update_ban ip t (b # bs) = (if ip = ban_IP b then Some (b\<lparr>ban_timeout := t\<rparr> # bs) else map_option ((#) b) (update_ban ip t bs))"

definition AddToBanList :: "u32 \<Rightarrow> string \<Rightarrow> u32 \<Rightarrow> BanStruct list \<Rightarrow> BanStruct list" where
  "AddToBanList time ip milliseconds banList =
    (if \<not> valid_ip ip then banList
     else
       case update_ban ip (ban_end time milliseconds) banList of
         Some banList' \<Rightarrow> banList'
       | None \<Rightarrow> banList @ [\<lparr>ban_IP = ip, ban_timeout = ban_end time milliseconds\<rparr>])"

text \<open>The last entry takes the place of a deleted one.\<close>

definition swap_remove :: "nat \<Rightarrow> 'a list \<Rightarrow> 'a list" where
  "swap_remove i xs = butlast (xs[i := xs ! (length xs - 1)])"

fun find_ban :: "string \<Rightarrow> nat \<Rightarrow> BanStruct list \<Rightarrow> nat option" where
  "find_ban ip i [] = None"
| "find_ban ip i (b # bs) = (if ip = ban_IP b then Some i else find_ban ip (Suc i) bs)"

definition RemoveFromBanList :: "string \<Rightarrow> BanStruct list \<Rightarrow> BanStruct list" where
  "RemoveFromBanList ip banList =
    (if \<not> valid_ip ip then banList
     else case find_ban ip 0 banList of None \<Rightarrow> banList | Some i \<Rightarrow> swap_remove i banList)"

definition ClearBanList :: "BanStruct list \<Rightarrow> BanStruct list" where
  "ClearBanList banList = []"

definition expired_ban :: "u32 \<Rightarrow> BanStruct \<Rightarrow> bool" where
  "expired_ban time b \<longleftrightarrow> ban_timeout b > 0 \<and> ban_timeout b < time"

text \<open>The comparison of an entry with an address, character by character up to the end of one of them.\<close>

fun ban_match :: "string \<Rightarrow> string \<Rightarrow> bool" where
  "ban_match [] [] = True"
| "ban_match [] (d # ip) = False"
| "ban_match (c # pat) [] = False"
| "ban_match (c # pat) (d # ip) = (if c = d then ban_match pat ip else c = CHR ''*'')"

function IsBanned_loop :: "u32 \<Rightarrow> string \<Rightarrow> nat \<Rightarrow> BanStruct list \<Rightarrow> bool \<times> BanStruct list" where
  "IsBanned_loop time ip i banList =
    (if i < length banList then
       if expired_ban time (banList ! i) then IsBanned_loop time ip i (swap_remove i banList)
       else if ban_match (ban_IP (banList ! i)) ip then (True, banList)
       else IsBanned_loop time ip (Suc i) banList
     else (False, banList))"
  by pat_completeness auto
termination
  by (relation "measure (\<lambda>(time, ip, i, banList). length banList - i)") (auto simp: swap_remove_def)

declare IsBanned_loop.simps [simp del]

definition IsBanned :: "u32 \<Rightarrow> string \<Rightarrow> BanStruct list \<Rightarrow> bool \<times> BanStruct list" where
  "IsBanned time ip banList =
    (if \<not> valid_ip ip then (False, banList) else if banList = [] then (False, banList) else IsBanned_loop time ip 0 banList)"

section \<open>The list as a map\<close>

definition ban_map :: "BanStruct list \<Rightarrow> string \<Rightarrow> u32 option" where
  "ban_map banList = map_of (map (\<lambda>b. (ban_IP b, ban_timeout b)) banList)"

definition bans_ok :: "BanStruct list \<Rightarrow> bool" where
  "bans_ok banList \<longleftrightarrow> distinct (map ban_IP banList)"

lemma update_ban_None: "update_ban ip t banList = None \<longleftrightarrow> ip \<notin> ban_IP ` set banList"
  by (induction banList) auto

lemma update_ban_Some:
  "update_ban ip t banList = Some banList' \<Longrightarrow> map ban_IP banList' = map ban_IP banList \<and> ban_map banList' = (ban_map banList)(ip \<mapsto> t)"
proof (induction banList arbitrary: banList')
  case (Cons b bs)
  show ?case
  proof (cases "ip = ban_IP b")
    case True
    then show ?thesis using Cons.prems by (auto simp: ban_map_def)
  next
    case False
    then obtain bs' where u: "update_ban ip t bs = Some bs'" "banList' = b # bs'" using Cons.prems by auto
    show ?thesis using Cons.IH [OF u(1)] False u(2) by (auto simp: ban_map_def)
  qed
qed simp

lemma AddToBanList_map:
  assumes "bans_ok banList" "valid_ip ip"
  shows "bans_ok (AddToBanList time ip ms banList)" "ban_map (AddToBanList time ip ms banList) = (ban_map banList)(ip \<mapsto> ban_end time ms)"
proof -
  let ?t = "ban_end time ms"
  have "bans_ok (AddToBanList time ip ms banList) \<and> ban_map (AddToBanList time ip ms banList) = (ban_map banList)(ip \<mapsto> ?t)"
  proof (cases "update_ban ip ?t banList")
    case None
    then have n: "ip \<notin> ban_IP ` set banList" by (simp add: update_ban_None)
    then have "ban_map banList ip = None" by (auto simp: ban_map_def map_of_eq_None_iff image_image)
    then have "ban_map (banList @ [\<lparr>ban_IP = ip, ban_timeout = ?t\<rparr>]) = (ban_map banList)(ip \<mapsto> ?t)"
      by (auto simp: ban_map_def map_add_def fun_eq_iff split: option.split)
    then show ?thesis using None n assms by (simp add: AddToBanList_def bans_ok_def)
  next
    case (Some b)
    then show ?thesis using update_ban_Some [OF Some] assms by (simp add: AddToBanList_def bans_ok_def)
  qed
  then show "bans_ok (AddToBanList time ip ms banList)" "ban_map (AddToBanList time ip ms banList) = (ban_map banList)(ip \<mapsto> ?t)" by blast+
qed

lemma swap_remove_mset:
  assumes "i < length xs"
  shows "mset (swap_remove i xs) = mset xs - {#xs ! i#}" "length (swap_remove i xs) = length xs - 1"
proof -
  let ?l = "xs ! (length xs - 1)" and ?ys = "xs[i := xs ! (length xs - 1)]"
  have ne: "?ys \<noteq> []" "xs \<noteq> []" using assms by auto
  have "last ?ys = ?l" using assms ne(2) by (simp add: last_conv_nth nth_list_update)
  then have "mset ?ys = mset (swap_remove i xs) + {#?l#}"
    using arg_cong [OF append_butlast_last_id [OF ne(1)], of mset] by (simp add: swap_remove_def)
  moreover have "mset ?ys = add_mset ?l (mset xs - {#xs ! i#})" using assms by (simp add: mset_update)
  ultimately show "mset (swap_remove i xs) = mset xs - {#xs ! i#}" by simp
  show "length (swap_remove i xs) = length xs - 1" by (simp add: swap_remove_def)
qed

lemma distinct_count: "distinct xs \<longleftrightarrow> (\<forall>a. count (mset xs) a \<le> 1)"
proof
  assume "distinct xs"
  then show "\<forall>a. count (mset xs) a \<le> 1" by (simp add: distinct_count_atmost_1)
next
  assume le: "\<forall>a. count (mset xs) a \<le> 1"
  have "count (mset xs) a = (if a \<in> set xs then 1 else 0)" for a
  proof (cases "a \<in> set xs")
    case True
    then have "count (mset xs) a \<noteq> 0" by (simp add: count_eq_zero_iff)
    then have "count (mset xs) a = 1" using spec [OF le, of a] by linarith
    then show ?thesis using True by (simp only: if_True)
  qed (simp add: count_eq_zero_iff)
  then show "distinct xs" unfolding distinct_count_atmost_1 by blast
qed

lemma bans_ok_mset:
  assumes "bans_ok banList" "mset banList' \<subseteq># mset banList"
  shows "bans_ok banList'"
proof -
  have "image_mset ban_IP (mset banList') \<subseteq># image_mset ban_IP (mset banList)" by (rule image_mset_subseteq_mono [OF assms(2)])
  then have "count (mset (map ban_IP banList')) a \<le> count (mset (map ban_IP banList)) a" for a by (simp add: subseteq_mset_def)
  then show ?thesis using assms(1) unfolding bans_ok_def distinct_count by (meson order_trans)
qed

lemma ban_map_eq: "bans_ok banList \<Longrightarrow> ban_map banList ip = Some t \<longleftrightarrow> \<lparr>ban_IP = ip, ban_timeout = t\<rparr> \<in> set banList"
proof -
  assume "bans_ok banList"
  then have "distinct (map fst (map (\<lambda>b. (ban_IP b, ban_timeout b)) banList))" by (simp add: bans_ok_def comp_def)
  then have "ban_map banList ip = Some t \<longleftrightarrow> (ip, t) \<in> (\<lambda>b. (ban_IP b, ban_timeout b)) ` set banList"
    by (simp add: ban_map_def)
  also have "\<dots> \<longleftrightarrow> \<lparr>ban_IP = ip, ban_timeout = t\<rparr> \<in> set banList"
  proof
    assume "(ip, t) \<in> (\<lambda>b. (ban_IP b, ban_timeout b)) ` set banList"
    then obtain b where b: "b \<in> set banList" "ip = ban_IP b" "t = ban_timeout b" by auto
    have "b = \<lparr>ban_IP = ip, ban_timeout = t\<rparr>" unfolding b(2,3) by simp
    then show "\<lparr>ban_IP = ip, ban_timeout = t\<rparr> \<in> set banList" using b(1) by simp
  qed (rule image_eqI, simp_all)
  finally show ?thesis .
qed

lemma find_ban_nth: "find_ban ip k banList = Some i \<Longrightarrow> k \<le> i \<and> i - k < length banList \<and> ban_IP (banList ! (i - k)) = ip"
proof (induction ip k banList rule: find_ban.induct)
  case (2 ip i0 b bs)
  show ?case
  proof (cases "ip = ban_IP b")
    case False
    then have h: "Suc i0 \<le> i" "i - Suc i0 < length bs" "ban_IP (bs ! (i - Suc i0)) = ip" using 2 by simp_all
    have "i - i0 = Suc (i - Suc i0)" using h(1) by simp
    then show ?thesis using h by simp
  qed (use 2 in simp)
qed simp

lemma find_ban_None: "find_ban ip k banList = None \<longleftrightarrow> ip \<notin> ban_IP ` set banList"
  by (induction ip k banList rule: find_ban.induct) auto

lemma RemoveFromBanList_map:
  assumes ok: "bans_ok banList" and ip: "valid_ip ip"
  shows "bans_ok (RemoveFromBanList ip banList)" "ban_map (RemoveFromBanList ip banList) = (ban_map banList)(ip := None)"
proof -
  have "bans_ok (RemoveFromBanList ip banList) \<and> ban_map (RemoveFromBanList ip banList) = (ban_map banList)(ip := None)"
  proof (cases "find_ban ip 0 banList")
    case None
    then have "ban_map banList ip = None" by (auto simp: find_ban_None ban_map_def map_of_eq_None_iff)
    then show ?thesis using None ok ip by (auto simp: RemoveFromBanList_def)
  next
    case (Some i)
    then have i: "i < length banList" "ban_IP (banList ! i) = ip" using find_ban_nth [OF Some] by simp_all
    let ?bs = "swap_remove i banList"
    note m = swap_remove_mset [OF i(1)]
    have ok': "bans_ok ?bs" by (rule bans_ok_mset [OF ok]) (simp add: m(1))
    have "ban_map ?bs x = Some t \<longleftrightarrow> x \<noteq> ip \<and> ban_map banList x = Some t" for x t
    proof -
      let ?b = "\<lparr>ban_IP = x, ban_timeout = t\<rparr>"
      have other: "x = ip \<Longrightarrow> ?b \<in> set banList \<Longrightarrow> ?b = banList ! i"
        using ok i nth_mem [OF i(1)] by (auto simp: bans_ok_def distinct_map inj_on_def)
      have one: "count (mset banList) (banList ! i) = 1"
        using ok i(1) distinct_count_atmost_1 [of banList] by (simp add: bans_ok_def distinct_map)
      have "?b \<in> set ?bs \<longleftrightarrow> ?b \<in># mset banList - {#banList ! i#}" by (metis m(1) set_mset_mset)
      also have "\<dots> \<longleftrightarrow> ?b \<in> set banList \<and> ?b \<noteq> banList ! i"
      proof (cases "?b = banList ! i")
        case True
        then show ?thesis using one by (simp add: in_diff_count del: count_mset)
      next
        case False
        then show ?thesis by (metis in_diff_count count_single diff_zero in_diffD set_mset_mset count_greater_zero_iff)
      qed
      also have "\<dots> \<longleftrightarrow> x \<noteq> ip \<and> ?b \<in> set banList" using other i(2) by (metis BanStruct.select_convs(1))
      finally show ?thesis by (simp add: ban_map_eq [OF ok'] ban_map_eq [OF ok])
    qed
    then have "ban_map ?bs = (ban_map banList)(ip := None)"
      by (intro ext) (metis fun_upd_apply not_None_eq)
    then show ?thesis using Some ok' ip by (simp add: RemoveFromBanList_def)
  qed
  then show "bans_ok (RemoveFromBanList ip banList)" "ban_map (RemoveFromBanList ip banList) = (ban_map banList)(ip := None)" by blast+
qed

section \<open>The test\<close>

lemma IsBanned_loop_spec:
  assumes "\<forall>j < i. j < length banList \<longrightarrow> \<not> expired_ban time (banList ! j) \<and> \<not> ban_match (ban_IP (banList ! j)) ip" "i \<le> length banList"
  shows "(fst (IsBanned_loop time ip i banList) \<longleftrightarrow> (\<exists>b \<in> set banList. \<not> expired_ban time b \<and> ban_match (ban_IP b) ip)) \<and>
    mset (snd (IsBanned_loop time ip i banList)) \<subseteq># mset banList \<and>
    filter_mset (\<lambda>b. \<not> expired_ban time b) (mset (snd (IsBanned_loop time ip i banList))) = filter_mset (\<lambda>b. \<not> expired_ban time b) (mset banList)"
  using assms
proof (induction time ip i banList rule: IsBanned_loop.induct)
  case (1 time ip i banList)
  note e = IsBanned_loop.simps [of time ip i banList]
  show ?case
  proof (cases "i < length banList")
    case False
    then have "\<not> (\<exists>b \<in> set banList. \<not> expired_ban time b \<and> ban_match (ban_IP b) ip)" using 1(3,4) by (auto simp: in_set_conv_nth)
    then show ?thesis using False e by simp
  next
    case True
    show ?thesis
    proof (cases "expired_ban time (banList ! i)")
      case x: True
      let ?bs = "swap_remove i banList"
      note m = swap_remove_mset [OF True]
      have keep: "?bs ! j = banList ! j" if "j < i" for j using that True by (simp add: swap_remove_def nth_butlast nth_list_update)
      have "\<forall>j < i. j < length ?bs \<longrightarrow> \<not> expired_ban time (?bs ! j) \<and> \<not> ban_match (ban_IP (?bs ! j)) ip" using 1(3) keep m(2) by auto
      moreover have "i \<le> length ?bs" using True m(2) by simp
      ultimately have IH: "fst (IsBanned_loop time ip i ?bs) \<longleftrightarrow> (\<exists>b \<in># mset ?bs. \<not> expired_ban time b \<and> ban_match (ban_IP b) ip)"
          "mset (snd (IsBanned_loop time ip i ?bs)) \<subseteq># mset ?bs"
          "filter_mset (\<lambda>b. \<not> expired_ban time b) (mset (snd (IsBanned_loop time ip i ?bs))) = filter_mset (\<lambda>b. \<not> expired_ban time b) (mset ?bs)"
        using 1(1) [OF True x] by simp_all
      have add: "mset banList = add_mset (banList ! i) (mset ?bs)" using True m(1) by simp
      have "(\<exists>b \<in># mset ?bs. \<not> expired_ban time b \<and> ban_match (ban_IP b) ip) \<longleftrightarrow> (\<exists>b \<in># mset banList. \<not> expired_ban time b \<and> ban_match (ban_IP b) ip)"
        unfolding add using x by auto
      moreover have "mset (snd (IsBanned_loop time ip i ?bs)) \<subseteq># mset banList" 
        by (rule subset_mset.order_trans [OF IH(2)]) (simp add: add)
      moreover have "filter_mset (\<lambda>b. \<not> expired_ban time b) (mset banList) = filter_mset (\<lambda>b. \<not> expired_ban time b) (mset ?bs)" unfolding add using x by simp
      moreover have "IsBanned_loop time ip i banList = IsBanned_loop time ip i ?bs" using e True x by simp
      ultimately show ?thesis using IH(1,3) by simp
    next
      case x: False
      show ?thesis
      proof (cases "ban_match (ban_IP (banList ! i)) ip")
        case True
        then show ?thesis using e \<open>i < length banList\<close> x nth_mem [OF \<open>i < length banList\<close>] by auto
      next
        case False
        have "\<forall>j < Suc i. j < length banList \<longrightarrow> \<not> expired_ban time (banList ! j) \<and> \<not> ban_match (ban_IP (banList ! j)) ip"
          using 1(3) x False by (auto simp: less_Suc_eq)
        then show ?thesis using 1(2) [OF True x False] e True x False by simp
      qed
    qed
  qed
qed

section \<open>Properties\<close>

text \<open>What an entry covers: the address itself, or all addresses that go on where its wildcard stands.\<close>

definition covers :: "string \<Rightarrow> string \<Rightarrow> bool" where
  "covers pat ip \<longleftrightarrow> pat = ip \<or> (\<exists>pre post rest. pat = pre @ CHR ''*'' # post \<and> ip = pre @ rest \<and> rest \<noteq> [])"

lemma ban_match_covers: "CHR ''*'' \<notin> set ip \<Longrightarrow> ban_match pat ip \<longleftrightarrow> covers pat ip"
proof (induction pat ip rule: ban_match.induct)
  case (4 c pat d ip)
  show ?case
  proof (cases "c = d")
    case True
    then have IH: "ban_match pat ip \<longleftrightarrow> covers pat ip" and d: "c \<noteq> CHR ''*''" using 4 by auto
    have "covers (c # pat) (d # ip) \<longleftrightarrow> covers pat ip"
    proof
      assume "covers (c # pat) (d # ip)"
      then show "covers pat ip" using True d by (auto simp: covers_def Cons_eq_append_conv)
    next
      assume "covers pat ip"
      then show "covers (c # pat) (d # ip)" using True by (auto simp: covers_def) (metis append_Cons)
    qed
    then show ?thesis using IH True by simp
  next
    case False
    then show ?thesis by (auto simp: covers_def Cons_eq_append_conv)
  qed
qed (auto simp: covers_def)

lemma ban_list_laws:
  assumes "bans_ok banList" "valid_ip ip"
  shows "bans_ok (AddToBanList time ip ms banList) \<and> ban_map (AddToBanList time ip ms banList) = (ban_map banList)(ip \<mapsto> ban_end time ms)"
    and "bans_ok (RemoveFromBanList ip banList) \<and> ban_map (RemoveFromBanList ip banList) = (ban_map banList)(ip := None)"
    and "CHR ''*'' \<notin> set ip \<longrightarrow>
      (fst (IsBanned time ip banList) \<longleftrightarrow> (\<exists>pat t. ban_map banList pat = Some t \<and> \<not> (0 < t \<and> t < time) \<and> covers pat ip))"
    and "bans_ok (snd (IsBanned time ip banList)) \<and>
      (\<forall>pat t. ban_map (snd (IsBanned time ip banList)) pat = Some t \<longrightarrow> ban_map banList pat = Some t) \<and>
      (\<forall>pat t. ban_map banList pat = Some t \<and> \<not> (0 < t \<and> t < time) \<longrightarrow> ban_map (snd (IsBanned time ip banList)) pat = Some t)"
proof -
  show "bans_ok (AddToBanList time ip ms banList) \<and> ban_map (AddToBanList time ip ms banList) = (ban_map banList)(ip \<mapsto> ban_end time ms)"
    using AddToBanList_map [OF assms] by blast
  show "bans_ok (RemoveFromBanList ip banList) \<and> ban_map (RemoveFromBanList ip banList) = (ban_map banList)(ip := None)"
    using RemoveFromBanList_map [OF assms] by blast
  let ?r = "IsBanned time ip banList"
  have spec: "fst ?r \<longleftrightarrow> (\<exists>b \<in> set banList. \<not> expired_ban time b \<and> ban_match (ban_IP b) ip)" "mset (snd ?r) \<subseteq># mset banList"
      "filter_mset (\<lambda>b. \<not> expired_ban time b) (mset (snd ?r)) = filter_mset (\<lambda>b. \<not> expired_ban time b) (mset banList)"
    using IsBanned_loop_spec [of 0 banList time ip] assms(2) by (auto simp: IsBanned_def)
  have ok: "bans_ok (snd ?r)" by (rule bans_ok_mset [OF assms(1) spec(2)])
  show "CHR ''*'' \<notin> set ip \<longrightarrow>
      (fst ?r \<longleftrightarrow> (\<exists>pat t. ban_map banList pat = Some t \<and> \<not> (0 < t \<and> t < time) \<and> covers pat ip))"
  proof
    assume "CHR ''*'' \<notin> set ip"
    note c = ban_match_covers [OF this]
    show "fst ?r \<longleftrightarrow> (\<exists>pat t. ban_map banList pat = Some t \<and> \<not> (0 < t \<and> t < time) \<and> covers pat ip)"
    proof
      assume "fst ?r"
      then obtain b where b: "b \<in> set banList" "\<not> expired_ban time b" "covers (ban_IP b) ip" using spec(1) c by auto
      have rec: "\<lparr>ban_IP = ban_IP b, ban_timeout = ban_timeout b\<rparr> = b" by simp
      from b show "\<exists>pat t. ban_map banList pat = Some t \<and> \<not> (0 < t \<and> t < time) \<and> covers pat ip"
        by (intro exI [of _ "ban_IP b"] exI [of _ "ban_timeout b"]) (simp add: ban_map_eq [OF assms(1)] expired_ban_def rec)
    next
      assume "\<exists>pat t. ban_map banList pat = Some t \<and> \<not> (0 < t \<and> t < time) \<and> covers pat ip"
      then show "fst ?r" unfolding spec(1) ban_map_eq [OF assms(1)] expired_ban_def c
        by (metis BanStruct.select_convs(1,2))
    qed
  qed
  have "b \<in> set (snd ?r)" if "b \<in> set banList" "\<not> expired_ban time b" for b
  proof -
    have "b \<in># filter_mset (\<lambda>b. \<not> expired_ban time b) (mset banList)" using that by simp
    then show ?thesis unfolding spec(3) [symmetric] by simp
  qed
  moreover have "b \<in> set banList" if "b \<in> set (snd ?r)" for b using mset_subset_eqD [OF spec(2), of b] that by simp
  ultimately show "bans_ok (snd ?r) \<and>
      (\<forall>pat t. ban_map (snd ?r) pat = Some t \<longrightarrow> ban_map banList pat = Some t) \<and>
      (\<forall>pat t. ban_map banList pat = Some t \<and> \<not> (0 < t \<and> t < time) \<longrightarrow> ban_map (snd ?r) pat = Some t)"
    using ok unfolding ban_map_eq [OF assms(1)] ban_map_eq [OF ok] expired_ban_def by auto
qed

text \<open>
  Property C32: the list of bans is a map from addresses and patterns to the end of their ban: adding and lifting a ban change exactly that entry,
  and an address is refused exactly if an entry that has not ended covers it; the test forgets ended bans only.
\<close>

theorem ban_list_is_a_map:
  assumes "bans_ok banList" "valid_ip ip"
  shows "(bans_ok (AddToBanList time ip ms banList) \<and> ban_map (AddToBanList time ip ms banList) = (ban_map banList)(ip \<mapsto> ban_end time ms)) \<and>
    (bans_ok (RemoveFromBanList ip banList) \<and> ban_map (RemoveFromBanList ip banList) = (ban_map banList)(ip := None)) \<and>
    (CHR ''*'' \<notin> set ip \<longrightarrow>
      (fst (IsBanned time ip banList) \<longleftrightarrow> (\<exists>pat t. ban_map banList pat = Some t \<and> \<not> (0 < t \<and> t < time) \<and> covers pat ip))) \<and>
    (bans_ok (snd (IsBanned time ip banList)) \<and>
      (\<forall>pat t. ban_map (snd (IsBanned time ip banList)) pat = Some t \<longrightarrow> ban_map banList pat = Some t) \<and>
      (\<forall>pat t. ban_map banList pat = Some t \<and> \<not> (0 < t \<and> t < time) \<longrightarrow> ban_map (snd (IsBanned time ip banList)) pat = Some t))"
  using ban_list_laws [OF assms] by blast

theorem ban_list_is_a_map_witness:
  "fst (IsBanned 500 ''10.0.0.7'' (AddToBanList 100 ''10.0.*'' 1000 []))"
proof -
  let ?bs = "AddToBanList 100 ''10.0.*'' 1000 []"
  have ok: "bans_ok []" "valid_ip ''10.0.*''" "valid_ip ''10.0.0.7''" by (simp_all add: bans_ok_def valid_ip_def)
  note a = ban_list_is_a_map [OF ok(1,2), of 100 1000, THEN conjunct1]
  have "ban_map ?bs ''10.0.*'' = Some 1100" using a by (simp add: ban_end_def)
  moreover have "covers ''10.0.*'' ''10.0.0.7''"
    unfolding covers_def by (intro disjI2 exI [of _ "''10.0.''"] exI [of _ "[]"] exI [of _ "''0.7''"]) simp
  ultimately have "\<exists>pat t. ban_map ?bs pat = Some t \<and> \<not> (0 < t \<and> t < (500 :: u32)) \<and> covers pat ''10.0.0.7''"
    by (intro exI [of _ "''10.0.*''"] exI [of _ 1100]) simp
  moreover note ban_list_is_a_map [OF conjunct1 [OF a] ok(3), of 500, THEN conjunct2, THEN conjunct2, THEN conjunct1]
  ultimately show ?thesis by simp
qed

text \<open>
  A temporary ban imposed less than its length before the millisecond clock wraps is lifted by the next test.
\<close>

theorem ban_lost_at_wrap:
  "fst (IsBanned 4294967000 ''10.0.0.7'' (AddToBanList 4294967000 ''10.0.0.7'' 60000 [])) = False"
proof -
  let ?b = "\<lparr>ban_IP = ''10.0.0.7'', ban_timeout = 59704\<rparr>"
  have "AddToBanList 4294967000 ''10.0.0.7'' 60000 [] = [?b]" by (simp add: AddToBanList_def valid_ip_def ban_end_def)
  moreover have "expired_ban 4294967000 ?b" by (simp add: expired_ban_def)
  ultimately show ?thesis
    by (simp add: IsBanned_def valid_ip_def IsBanned_loop.simps [of _ _ 0 "[?b]"] swap_remove_def IsBanned_loop.simps [of _ _ 0 "[]"])
qed

end
