(* ===== verification/Peer_Session.thy ===== *)
theory Peer_Session
  imports Peer_Messages Peer_Ping Ban_List
begin

text \<open>
  One remote system as the network thread of \<^verbatim>\<open>peer.cpp\<close> handles it: the connection states, the session handshake that runs before a
  connection is reported to the application, what every message of the remote does, the application's decisions and the ways a connection ends.
  A handler returns the peer, the remote system and its calls to the rest of the program in their order.
\<close>

section \<open>State\<close>

datatype ConnectMode = NO_ACTION | DISCONNECT_ASAP | DISCONNECT_ASAP_SILENTLY | DISCONNECT_ON_NO_ACK | REQUESTED_CONNECTION
  | HANDLING_CONNECTION_REQUEST | UNVERIFIED_SENDER | EXCHANGING_SESSION_DATA | CONNECTED

text \<open>A buffer that may be missing is an option; the zero byte behind a session payload is not part of it.\<close>

record RemoteSystem =
  isActive :: bool
  systemAddress :: SystemAddress
  myExternalSystemAddress :: SystemAddress
  theirInternalSystemAddress :: "SystemAddress list"
  weInitiatedTheConnection :: bool
  pings :: PingTable
  connectionTime :: u64
  remoteSystemIndex :: u16
  disconnectReasonData :: "bytes option"
  remoteSessionConfigData :: "bytes option"
  sessionConfigAwaitingLocalDecision :: bool
  sessionConfigIsConnectingSide :: bool
  connectionReportedToApplication :: bool
  sessionConfigStartTime :: u32
  withheldConnectionPacketData :: "bytes option"
  connectMode :: ConnectMode

record RakPeer =
  myGuid :: u64
  ipList :: "SystemAddress list"
  firstExternalID :: SystemAddress
  incomingPassword :: bytes
  sessionConfig :: bytes
  sessionConfigInteractive :: bool
  sessionTimeout :: u32
  allowConnectionResponseIPMigration :: bool
  banList :: "BanStruct list"

text \<open>
  What a handler finds outside: the clocks, read once; the timeout of the reliability layer; whether an allocation of so many bytes succeeds;
  whether a plugin takes a packet on the network thread; the printed form of an address; and what uninitialised locals hold.
\<close>

record Env =
  now :: u64
  timeMS :: u64
  nowMS :: u32
  layer_timeout :: u32
  can_alloc :: "nat \<Rightarrow> bool"
  plugin_takes :: "bytes \<Rightarrow> bool"
  address_string :: "SystemAddress \<Rightarrow> string"
  stale_version :: u8
  stale_address :: u32
  stale_ping :: u64
  stale_pong :: u64

text \<open>
  Messages handed to \<^verbatim>\<open>SendImmediate\<close>, on channel 0, as the bytes that are sent of them, and packets handed to the application.
\<close>

datatype Effect = Send bytes Reliability | Produce bytes

type_synonym result = "RakPeer \<times> RemoteSystem \<times> Effect list"

section \<open>Session state of a slot\<close>

definition ClearDisconnectReason :: "RemoteSystem \<Rightarrow> RemoteSystem" where
  "ClearDisconnectReason rs = rs\<lparr>disconnectReasonData := None\<rparr>"

definition ClearSessionConfig :: "RemoteSystem \<Rightarrow> RemoteSystem" where
  "ClearSessionConfig rs =
    rs\<lparr>remoteSessionConfigData := None, withheldConnectionPacketData := None, sessionConfigAwaitingLocalDecision := False,
       sessionConfigIsConnectingSide := False, connectionReportedToApplication := False, sessionConfigStartTime := 0\<rparr>"

text \<open>The outcome and the slot; an oversized payload leaves it as it was.\<close>

definition StoreRemoteSessionConfig :: "Env \<Rightarrow> bytes \<Rightarrow> RemoteSystem \<Rightarrow> bool \<times> RemoteSystem" where
  "StoreRemoteSessionConfig e data rs =
    (if length data > MAXIMUM_SESSION_CONFIG_SIZE then (False, rs)
     else let rs1 = rs\<lparr>remoteSessionConfigData := None\<rparr>
          in if data = [] then (True, rs1)
             else if \<not> can_alloc e (length data + 1) then (False, rs1)
             else (True, rs1\<lparr>remoteSessionConfigData := Some data\<rparr>))"

definition ProduceWithheldConnectionPacket :: "u8 \<Rightarrow> RemoteSystem \<Rightarrow> RemoteSystem \<times> Effect list" where
  "ProduceWithheldConnectionPacket messageId rs =
    (case withheldConnectionPacketData rs of
       Some data \<Rightarrow>
         if data \<noteq> [] then (rs\<lparr>withheldConnectionPacketData := None, connectionReportedToApplication := True\<rparr>, [Produce data])
         else (rs\<lparr>connectionReportedToApplication := True\<rparr>, [Produce [messageId]])
     | None \<Rightarrow> (rs\<lparr>connectionReportedToApplication := True\<rparr>, [Produce [messageId]]))"

definition ProduceSessionAbandoned :: "RemoteSystem \<Rightarrow> RemoteSystem \<times> Effect list" where
  "ProduceSessionAbandoned rs =
    (if weInitiatedTheConnection rs \<or> \<not> sessionConfigAwaitingLocalDecision rs then (rs, [])
     else (rs\<lparr>sessionConfigAwaitingLocalDecision := False\<rparr>, [Produce [ID_SESSION_CONFIG_ABANDONED]]))"

definition PingInternal :: "Env \<Rightarrow> Reliability \<Rightarrow> Effect list" where
  "PingInternal e r = [Send (connected_ping (now e)) r]"

definition SendSessionConfigResponse :: "Env \<Rightarrow> bytes \<Rightarrow> RemoteSystem \<Rightarrow> RemoteSystem \<times> Effect list" where
  "SendSessionConfigResponse e data rs =
    (let (rs', produced) =
           ProduceWithheldConnectionPacket ID_NEW_INCOMING_CONNECTION (rs\<lparr>connectMode := CONNECTED, sessionConfigStartTime := 0\<rparr>)
     in (rs', [Send ([ID_SESSION_CONFIG] @ data) ReliableOrdered] @ produced @ PingInternal e Unreliable))"

definition SendSessionConfigRejection :: "bytes \<Rightarrow> RemoteSystem \<Rightarrow> RemoteSystem \<times> Effect list" where
  "SendSessionConfigRejection reason rs =
    (rs\<lparr>connectMode := DISCONNECT_ON_NO_ACK, sessionConfigStartTime := 0\<rparr>, [Send ([ID_SESSION_CONFIG_REJECTED] @ reason) ReliableOrdered])"

text \<open>The slot when its connection is closed at once; the reliability layer is reset, so that nothing waits to be received.\<close>

definition close_slot :: "RemoteSystem \<Rightarrow> RemoteSystem" where
  "close_slot rs = ClearSessionConfig (ClearDisconnectReason (rs\<lparr>isActive := False\<rparr>))"

definition GetSessionTimeoutFor :: "Env \<Rightarrow> RakPeer \<Rightarrow> u32" where
  "GetSessionTimeoutFor e rp = (if sessionTimeout rp \<noteq> 0 then sessionTimeout rp else layer_timeout e)"

definition session_clock :: "Env \<Rightarrow> u32" where
  "session_clock e = (if timeMS e \<noteq> 0 then ucast (timeMS e) else nowMS e)"

section \<open>Connection requests\<close>

definition OnConnectionRequest :: "Env \<Rightarrow> RakPeer \<Rightarrow> u64 \<Rightarrow> RemoteSystem \<Rightarrow> Effect list" where
  "OnConnectionRequest e rp incomingTimestamp rs =
    [Send (request_accepted (systemAddress rs) (remoteSystemIndex rs) (ipList rp) incomingTimestamp (now e)) ReliableOrdered]"

text \<open>What \<^verbatim>\<open>SendImmediate\<close> sends of a message, given the number of bits to send.\<close>

definition immediate_bytes :: "bytes \<Rightarrow> nat \<Rightarrow> bytes" where
  "immediate_bytes data numberOfBitsToSend = take (BITS_TO_BYTES numberOfBitsToSend) data"

text \<open>The refusal of a password is sent with its number of bytes as the number of bits.\<close>

definition invalid_password :: "RakPeer \<Rightarrow> Effect list" where
  "invalid_password rp =
    (let data = [ID_INVALID_PASSWORD] @ wr_int (myGuid rp); numberOfBytesUsed = length data
     in [Send (immediate_bytes data numberOfBytesUsed) Reliable])"

definition ParseConnectionRequestPacket :: "Env \<Rightarrow> RakPeer \<Rightarrow> bytes \<Rightarrow> RemoteSystem \<Rightarrow> RemoteSystem \<times> Effect list" where
  "ParseConnectionRequestPacket e rp data rs =
    (let (guid, r1) = rd_int (0 :: u64) (drop 1 data);
         (incomingTimestamp, r2) = rd_int (stale_ping e) r1;
         (doSecurity, password) = rd_raw (0 :: u8) r2
     in if password \<noteq> incomingPassword rp
        then (rs\<lparr>connectMode := DISCONNECT_ASAP_SILENTLY\<rparr>, invalid_password rp)
        else let rs1 = rs\<lparr>connectMode := HANDLING_CONNECTION_REQUEST\<rparr> in (rs1, OnConnectionRequest e rp incomingTimestamp rs1))"

text \<open>A request from a system that is being connected already: 16 bytes the message does not have are skipped before the time is read.\<close>

definition connection_request_again :: "Env \<Rightarrow> RakPeer \<Rightarrow> bytes \<Rightarrow> RemoteSystem \<Rightarrow> Effect list" where
  "connection_request_again e rp data rs =
    (let (incomingTimestamp, r) = rd_int (stale_ping e) (drop (1 + 16 + 8) data) in OnConnectionRequest e rp incomingTimestamp rs)"

definition on_connection_request :: "Env \<Rightarrow> RakPeer \<Rightarrow> bytes \<Rightarrow> RemoteSystem \<Rightarrow> result" where
  "on_connection_request e rp data rs =
    (if connectMode rs = REQUESTED_CONNECTION
     then let (rs', effs) = ParseConnectionRequestPacket e rp data rs in (rp, rs', effs)
     else (rp, rs, connection_request_again e rp data rs))"

section \<open>The transport connection\<close>

definition learn_external :: "SystemAddress \<Rightarrow> RakPeer \<Rightarrow> RakPeer" where
  "learn_external a rp = (if firstExternalID rp = UNASSIGNED_SYSTEM_ADDRESS then rp\<lparr>firstExternalID := a\<rparr> else rp)"

definition on_new_incoming_connection :: "Env \<Rightarrow> RakPeer \<Rightarrow> bytes \<Rightarrow> RemoteSystem \<Rightarrow> result" where
  "on_new_incoming_connection e rp data rs =
    (if connectMode rs = HANDLING_CONNECTION_REQUEST
     then let (bsSystemAddress, r1) = rd_address (stale_version e) (stale_address e) UNASSIGNED_SYSTEM_ADDRESS (drop 1 data);
              (internal, r2) = rd_addresses (stale_version e) (stale_address e) (theirInternalSystemAddress rs) r1;
              (sendPingTime, r3) = rd_int (stale_ping e) r2;
              (sendPongTime, r4) = rd_int (stale_pong e) r3;
              rs1 = rs\<lparr>connectMode := EXCHANGING_SESSION_DATA, theirInternalSystemAddress := internal,
                       pings := OnConnectedPong (now e) sendPingTime sendPongTime (pings rs), myExternalSystemAddress := bsSystemAddress\<rparr>
          in (learn_external bsSystemAddress rp,
              (ClearSessionConfig rs1)\<lparr>sessionConfigStartTime := session_clock e,
                withheldConnectionPacketData := (if can_alloc e (length data) then Some data else None)\<rparr>,
              PingInternal e Unreliable)
     else (rp, rs, []))"

definition on_request_accepted :: "Env \<Rightarrow> RakPeer \<Rightarrow> bytes \<Rightarrow> RemoteSystem \<Rightarrow> result" where
  "on_request_accepted e rp data rs =
    (if length data > 1 + 4 + 2 + 2 + 8 * 2 \<and>
        (connectMode rs = HANDLING_CONNECTION_REQUEST \<or> connectMode rs = REQUESTED_CONNECTION \<or> allowConnectionResponseIPMigration rp)
     then let (externalID, r1) = rd_address (stale_version e) (stale_address e) UNASSIGNED_SYSTEM_ADDRESS (drop 1 data);
              (systemIndex, r2) = rd_int (0 :: u16) r1;
              (internal, r3) = rd_addresses (stale_version e) (stale_address e) (theirInternalSystemAddress rs) r2;
              (sendPingTime, r4) = rd_int (stale_ping e) r3;
              (sendPongTime, r5) = rd_int (stale_pong e) r4;
              rs1 = rs\<lparr>connectMode := EXCHANGING_SESSION_DATA, theirInternalSystemAddress := internal,
                       pings := OnConnectedPong (now e) sendPingTime sendPongTime (pings rs), myExternalSystemAddress := externalID\<rparr>
          in (learn_external externalID rp,
              (ClearSessionConfig rs1)\<lparr>sessionConfigIsConnectingSide := True, sessionConfigStartTime := session_clock e,
                withheldConnectionPacketData := (if can_alloc e (length data) then Some data else None)\<rparr>,
              [Send (new_incoming_connection (systemAddress rs) (ipList rp) sendPongTime (now e)) ReliableOrdered,
               Send ([ID_SESSION_CONFIG_REQUEST] @ sessionConfig rp) ReliableOrdered] @
              (if connectMode rs = HANDLING_CONNECTION_REQUEST then [] else PingInternal e Unreliable))
     else (rp, rs, []))"

section \<open>Pings and the end of a connection\<close>

definition on_connected_pong :: "Env \<Rightarrow> RakPeer \<Rightarrow> bytes \<Rightarrow> RemoteSystem \<Rightarrow> result" where
  "on_connected_pong e rp data rs =
    (let (sendPingTime, r1) = rd_int (stale_ping e) (drop 1 data);
         (sendPongTime, r2) = rd_int (stale_pong e) r1
     in (rp, rs\<lparr>pings := OnConnectedPong (now e) sendPingTime sendPongTime (pings rs)\<rparr>, []))"

definition on_connected_ping :: "Env \<Rightarrow> RakPeer \<Rightarrow> bytes \<Rightarrow> RemoteSystem \<Rightarrow> result" where
  "on_connected_ping e rp data rs =
    (let (sendPingTime, r1) = rd_int (stale_ping e) (drop 1 data) in (rp, rs, [Send (connected_pong sendPingTime (now e)) Unreliable]))"

definition on_disconnection_notification :: "Env \<Rightarrow> RakPeer \<Rightarrow> bytes \<Rightarrow> RemoteSystem \<Rightarrow> result" where
  "on_disconnection_notification e rp data rs =
    (rp, (ClearDisconnectReason rs)\<lparr>disconnectReasonData :=
            (if length data > 1 \<and> can_alloc e (length data - 1) then Some (drop 1 data) else None),
          connectMode := DISCONNECT_ON_NO_ACK\<rparr>, [])"

section \<open>The session handshake\<close>

definition on_session_config_request :: "Env \<Rightarrow> RakPeer \<Rightarrow> bytes \<Rightarrow> RemoteSystem \<Rightarrow> result" where
  "on_session_config_request e rp data rs =
    (if connectMode rs = EXCHANGING_SESSION_DATA \<and> \<not> sessionConfigAwaitingLocalDecision rs
     then let (stored, rs1) = StoreRemoteSessionConfig e (drop 1 data) rs
          in if \<not> stored then (rp, rs1\<lparr>connectMode := DISCONNECT_ASAP_SILENTLY\<rparr>, [])
             else if sessionConfigInteractive rp then (rp, rs1\<lparr>sessionConfigAwaitingLocalDecision := True\<rparr>, [Produce data])
             else let (rs', effs) = SendSessionConfigResponse e (sessionConfig rp) rs1 in (rp, rs', effs)
     else (rp, rs, []))"

definition on_session_config :: "Env \<Rightarrow> RakPeer \<Rightarrow> bytes \<Rightarrow> RemoteSystem \<Rightarrow> result" where
  "on_session_config e rp data rs =
    (if connectMode rs = EXCHANGING_SESSION_DATA \<and> sessionConfigIsConnectingSide rs
     then let (stored, rs1) = StoreRemoteSessionConfig e (drop 1 data) rs
          in if \<not> stored then (rp, rs1\<lparr>connectMode := DISCONNECT_ASAP_SILENTLY\<rparr>, [])
             else let (rs', effs) =
                        ProduceWithheldConnectionPacket ID_CONNECTION_REQUEST_ACCEPTED (rs1\<lparr>connectMode := CONNECTED, sessionConfigStartTime := 0\<rparr>)
                  in (rp, rs', effs)
     else (rp, rs, []))"

definition on_session_config_status :: "Env \<Rightarrow> RakPeer \<Rightarrow> bytes \<Rightarrow> RemoteSystem \<Rightarrow> result" where
  "on_session_config_status e rp data rs =
    (if connectMode rs = EXCHANGING_SESSION_DATA \<and> sessionConfigIsConnectingSide rs
     then (rp, rs\<lparr>sessionConfigStartTime := session_clock e\<rparr>, [Produce data])
     else (rp, rs, []))"

definition on_session_config_rejected :: "RakPeer \<Rightarrow> bytes \<Rightarrow> RemoteSystem \<Rightarrow> result" where
  "on_session_config_rejected rp data rs =
    (if connectMode rs = EXCHANGING_SESSION_DATA \<and> sessionConfigIsConnectingSide rs
     then (rp, rs\<lparr>connectMode := DISCONNECT_ASAP_SILENTLY\<rparr>, [Produce (data[0 := ID_CONNECTION_ATTEMPT_FAILED])])
     else (rp, rs, []))"

definition on_invalid_password :: "RakPeer \<Rightarrow> bytes \<Rightarrow> RemoteSystem \<Rightarrow> result" where
  "on_invalid_password rp data rs =
    (if connectMode rs = REQUESTED_CONNECTION then (rp, rs\<lparr>connectMode := DISCONNECT_ASAP_SILENTLY\<rparr>, [Produce data]) else (rp, rs, []))"

definition on_user_message :: "Env \<Rightarrow> RakPeer \<Rightarrow> bytes \<Rightarrow> RemoteSystem \<Rightarrow> result" where
  "on_user_message e rp data rs =
    (if (hd data \<ge> ID_TIMESTAMP \<or> hd data = ID_SND_RECEIPT_ACKED \<or> hd data = ID_SND_RECEIPT_LOSS) \<and> isActive rs \<and>
        connectMode rs \<noteq> EXCHANGING_SESSION_DATA \<and> \<not> plugin_takes e data
     then (rp, rs, [Produce data]) else (rp, rs, []))"

section \<open>One message of the reliability layer\<close>

text \<open>A system that has not asked for a connection yet may only do that; anything else closes the slot and bans its address for a while.\<close>

definition unverified_message :: "Env \<Rightarrow> RakPeer \<Rightarrow> bytes \<Rightarrow> RemoteSystem \<Rightarrow> result" where
  "unverified_message e rp data rs =
    (if hd data = ID_CONNECTION_REQUEST
     then let (rs', effs) = ParseConnectionRequestPacket e rp data rs in (rp, rs', effs)
     else (rp\<lparr>banList := AddToBanList (nowMS e) (address_string e (systemAddress rs)) (layer_timeout e) (banList rp)\<rparr>, close_slot rs, []))"

definition handle_message :: "Env \<Rightarrow> RakPeer \<Rightarrow> bytes \<Rightarrow> RemoteSystem \<Rightarrow> result" where
  "handle_message e rp data rs =
    (let id = hd data
     in if id = ID_CONNECTION_ATTEMPT_FAILED then (rp, rs, [])
        else if connectMode rs = UNVERIFIED_SENDER then unverified_message e rp data rs
        else if id = ID_CONNECTION_REQUEST then on_connection_request e rp data rs
        else if id = ID_NEW_INCOMING_CONNECTION \<and> length data > 1 + 4 + 2 + 8 * 2 then on_new_incoming_connection e rp data rs
        else if id = ID_CONNECTED_PONG \<and> length data = 1 + 8 * 2 then on_connected_pong e rp data rs
        else if id = ID_CONNECTED_PING \<and> length data = 1 + 8 then on_connected_ping e rp data rs
        else if id = ID_DISCONNECTION_NOTIFICATION then on_disconnection_notification e rp data rs
        else if id = ID_DETECT_LOST_CONNECTIONS \<and> length data = 1 then (rp, rs, [])
        else if id = ID_SESSION_CONFIG_REQUEST then on_session_config_request e rp data rs
        else if id = ID_SESSION_CONFIG then on_session_config e rp data rs
        else if id = ID_SESSION_CONFIG_STATUS then on_session_config_status e rp data rs
        else if id = ID_SESSION_CONFIG_REJECTED then on_session_config_rejected rp data rs
        else if id = ID_INVALID_PASSWORD then on_invalid_password rp data rs
        else if id = ID_CONNECTION_REQUEST_ACCEPTED then on_request_accepted e rp data rs
        else on_user_message e rp data rs)"

text \<open>The loop over what the reliability layer has ready; a slot that was closed has nothing any more.\<close>

fun receive_loop :: "Env \<Rightarrow> bytes list \<Rightarrow> RakPeer \<Rightarrow> RemoteSystem \<Rightarrow> result" where
  "receive_loop e [] rp rs = (rp, rs, [])"
| "receive_loop e (data # ds) rp rs =
    (if \<not> isActive rs then (rp, rs, [])
     else let (rp1, rs1, effs1) = handle_message e rp data rs;
              (rp2, rs2, effs2) = receive_loop e ds rp1 rs1
          in (rp2, rs2, effs1 @ effs2))"

section \<open>Commands of the application\<close>

text \<open>An application's decision, with what admission says about an acceptance.\<close>

definition session_decision :: "Env \<Rightarrow> bool \<Rightarrow> bool \<Rightarrow> bytes \<Rightarrow> RemoteSystem \<Rightarrow> RemoteSystem \<times> Effect list" where
  "session_decision e accept mayAccept data rs =
    (if isActive rs \<and> connectMode rs = EXCHANGING_SESSION_DATA \<and> sessionConfigAwaitingLocalDecision rs
     then let rs1 = rs\<lparr>sessionConfigAwaitingLocalDecision := False\<rparr>
          in if accept then if mayAccept then SendSessionConfigResponse e data rs1 else SendSessionConfigRejection [] rs1
             else SendSessionConfigRejection data rs1
     else (rs, []))"

definition session_status :: "Env \<Rightarrow> bytes \<Rightarrow> RemoteSystem \<Rightarrow> RemoteSystem \<times> Effect list" where
  "session_status e data rs =
    (if isActive rs \<and> connectMode rs = EXCHANGING_SESSION_DATA \<and> sessionConfigAwaitingLocalDecision rs \<and> \<not> sessionConfigIsConnectingSide rs
     then (rs\<lparr>sessionConfigStartTime := nowMS e\<rparr>, [Send ([ID_SESSION_CONFIG_STATUS] @ data) ReliableOrdered])
     else (rs, []))"

text \<open>A message of the application; with a disconnection notification it also changes the state.\<close>

definition buffered_send :: "bytes \<Rightarrow> Reliability \<Rightarrow> ConnectMode \<Rightarrow> RemoteSystem \<Rightarrow> RemoteSystem \<times> Effect list" where
  "buffered_send data r connectionMode rs =
    (if isActive rs \<and> connectionMode \<noteq> NO_ACTION then rs\<lparr>connectMode := connectionMode\<rparr> else rs, [Send data r])"

section \<open>The update of a remote system\<close>

text \<open>What the update asks the reliability layer.\<close>

record LayerStatus =
  IsDeadConnection :: bool
  IsOutgoingDataWaiting :: bool
  AreAcksWaiting :: bool
  ackTimeout :: bool

definition connection_failed :: "Env \<Rightarrow> LayerStatus \<Rightarrow> RemoteSystem \<Rightarrow> bool" where
  "connection_failed e ls rs \<longleftrightarrow>
    IsDeadConnection ls \<or>
    (connectMode rs = DISCONNECT_ASAP \<or> connectMode rs = DISCONNECT_ASAP_SILENTLY) \<and> \<not> IsOutgoingDataWaiting ls \<or>
    connectMode rs = DISCONNECT_ON_NO_ACK \<and> (\<not> AreAcksWaiting ls \<or> ackTimeout ls) \<or>
    (connectMode rs = REQUESTED_CONNECTION \<or> connectMode rs = HANDLING_CONNECTION_REQUEST \<or> connectMode rs = UNVERIFIED_SENDER) \<and>
      timeMS e > connectionTime rs \<and> timeMS e - connectionTime rs > 10000"

definition close_notification :: "RemoteSystem \<Rightarrow> Effect list" where
  "close_notification rs =
    (if (connectionReportedToApplication rs \<or> weInitiatedTheConnection rs) \<and>
        (connectMode rs = CONNECTED \<or> connectMode rs = REQUESTED_CONNECTION \<or> connectMode rs = EXCHANGING_SESSION_DATA \<or>
         connectMode rs = DISCONNECT_ASAP \<or> connectMode rs = DISCONNECT_ON_NO_ACK)
     then let reason = (case disconnectReasonData rs of Some d \<Rightarrow> if connectMode rs = DISCONNECT_ON_NO_ACK then d else [] | None \<Rightarrow> []);
              id = (if connectMode rs = REQUESTED_CONNECTION then ID_CONNECTION_ATTEMPT_FAILED
                    else if connectMode rs = EXCHANGING_SESSION_DATA
                    then if sessionConfigIsConnectingSide rs then ID_CONNECTION_ATTEMPT_FAILED else ID_CONNECTION_LOST
                    else if connectMode rs = CONNECTED then ID_CONNECTION_LOST
                    else ID_DISCONNECTION_NOTIFICATION)
          in [Produce (id # reason)]
     else [])"

definition session_timed_out :: "Env \<Rightarrow> RakPeer \<Rightarrow> RemoteSystem \<Rightarrow> bool" where
  "session_timed_out e rp rs \<longleftrightarrow>
    connectMode rs = EXCHANGING_SESSION_DATA \<and> sessionConfigStartTime rs \<noteq> 0 \<and> timeMS e > ucast (sessionConfigStartTime rs) \<and>
    timeMS e - ucast (sessionConfigStartTime rs) > ucast (GetSessionTimeoutFor e rp)"

text \<open>
  The connection of a slot ends or its messages are handled.  The pings the update sends on its own are part of the reliability layer's traffic
  and change none of this.
\<close>

definition update_remote_system :: "Env \<Rightarrow> LayerStatus \<Rightarrow> bytes list \<Rightarrow> RakPeer \<Rightarrow> RemoteSystem \<Rightarrow> result" where
  "update_remote_system e ls ready rp rs =
    (if \<not> isActive rs then (rp, rs, [])
     else if connection_failed e ls rs
     then let (rs1, effs) = ProduceSessionAbandoned rs in (rp, close_slot rs1, effs @ close_notification rs1)
     else if session_timed_out e rp rs
     then if sessionConfigIsConnectingSide rs then (rp, close_slot rs, [Produce [ID_CONNECTION_ATTEMPT_FAILED]])
          else let (rs1, effs) = ProduceSessionAbandoned rs in (rp, close_slot rs1, effs)
     else receive_loop e ready rp rs)"

section \<open>Slots of new connections\<close>

text \<open>A slot as it is assigned to an address, whatever its last connection left in it.\<close>

definition assign_slot :: "Env \<Rightarrow> SystemAddress \<Rightarrow> ConnectMode \<Rightarrow> RemoteSystem \<Rightarrow> RemoteSystem" where
  "assign_slot e sa connectionMode rs =
    (ClearSessionConfig (ClearDisconnectReason rs))
      \<lparr>isActive := True, systemAddress := sa, pings := PingTable_reset, connectMode := connectionMode, weInitiatedTheConnection := False,
       connectionTime := ucast (nowMS e), myExternalSystemAddress := UNASSIGNED_SYSTEM_ADDRESS\<rparr>"

text \<open>The slot of a connection that was asked for here, with the request that goes out.\<close>

definition request_connection :: "Env \<Rightarrow> RakPeer \<Rightarrow> SystemAddress \<Rightarrow> bytes \<Rightarrow> RemoteSystem \<Rightarrow> RemoteSystem \<times> Effect list" where
  "request_connection e rp sa outgoingPassword rs =
    ((assign_slot e sa UNVERIFIED_SENDER rs)\<lparr>weInitiatedTheConnection := True, connectMode := REQUESTED_CONNECTION\<rparr>,
     [Send (connection_request (myGuid rp) (now e) outgoingPassword) Reliable])"

end
