(* ===== verification/Session_Laws.thy ===== *)
theory Session_Laws
  imports Peer_Session
begin

text \<open>
  What the session handshake of \<open>Peer_Session\<close> promises to the application, for every sequence of messages, decisions and updates of a slot:
  a connection is reported at most once, and only with the remote's session payload in hand.
\<close>

section \<open>The life of a slot\<close>

text \<open>What can happen to a slot: its update, with the messages ready to be handled; a decision, with what admission says; a status; a message of
  the application, possibly with a disconnection notification; and a close without one.\<close>

datatype SessionEvent = Update LayerStatus "bytes list" | Decide bool bool bytes | Status bytes | AppSend bytes Reliability bool | CloseNow

fun session_step :: "Env \<times> SessionEvent \<Rightarrow> RakPeer \<Rightarrow> RemoteSystem \<Rightarrow> result" where
  "session_step (e, Update ls ready) rp rs = update_remote_system e ls ready rp rs"
| "session_step (e, Decide accept mayAccept data) rp rs = (rp, session_decision e accept mayAccept data rs)"
| "session_step (e, Status data) rp rs = (rp, session_status e data rs)"
| "session_step (e, AppSend data r disconnect) rp rs = (rp, buffered_send data r (if disconnect then DISCONNECT_ASAP else NO_ACTION) rs)"
| "session_step (e, CloseNow) rp rs = (rp, close_slot rs, [])"

text \<open>Events on a slot that is in use, one after the other.\<close>

fun run_steps :: "('ev \<Rightarrow> RakPeer \<Rightarrow> RemoteSystem \<Rightarrow> result) \<Rightarrow> 'ev list \<Rightarrow> RakPeer \<Rightarrow> RemoteSystem \<Rightarrow> result" where
  "run_steps step [] rp rs = (rp, rs, [])"
| "run_steps step (ev # evs) rp rs =
    (if \<not> isActive rs then (rp, rs, [])
     else let (rp1, rs1, effs1) = step ev rp rs;
              (rp2, rs2, effs2) = run_steps step evs rp1 rs1
          in (rp2, rs2, effs1 @ effs2))"

lemma receive_loop_run: "receive_loop e ds rp rs = run_steps (\<lambda>data rp. handle_message e rp data) ds rp rs"
  by (induction ds arbitrary: rp rs) (simp_all split: prod.splits)

text \<open>The messages of an event, and the session payloads among messages.\<close>

fun messages :: "Env \<times> SessionEvent \<Rightarrow> bytes list" where
  "messages (e, Update ls ready) = ready"
| "messages (e, ev) = []"

definition payloads :: "bytes list \<Rightarrow> bytes set" where
  "payloads ds = {drop 1 d | d. d \<in> set ds \<and> (hd d = ID_SESSION_CONFIG_REQUEST \<or> hd d = ID_SESSION_CONFIG)}"

text \<open>Packets that report a connection and packets that report its end.\<close>

fun produces :: "(u8 \<Rightarrow> bool) \<Rightarrow> Effect \<Rightarrow> bool" where
  "produces P (Produce d) = P (hd d)"
| "produces P (Send d r) = False"

definition reports :: "Effect list \<Rightarrow> nat" where
  "reports effs = length (filter (produces (\<lambda>id. id = ID_CONNECTION_REQUEST_ACCEPTED \<or> id = ID_NEW_INCOMING_CONNECTION)) effs)"

definition closings :: "Effect list \<Rightarrow> nat" where
  "closings effs = length (filter (produces (\<lambda>id. id = ID_DISCONNECTION_NOTIFICATION \<or> id = ID_CONNECTION_LOST)) effs)"

definition told :: "RemoteSystem \<Rightarrow> nat" where
  "told rs = (if connectionReportedToApplication rs then 1 else 0)"

lemma effects_simps [simp]:
  "reports [] = 0" "closings [] = 0"
  "reports (a @ b) = reports a + reports b" "closings (a @ b) = closings a + closings b"
  "reports (Send d r # effs) = reports effs" "closings (Send d r # effs) = closings effs"
  "reports (Produce d # effs) =
    (if hd d = ID_CONNECTION_REQUEST_ACCEPTED \<or> hd d = ID_NEW_INCOMING_CONNECTION then 1 else 0) + reports effs"
  "closings (Produce d # effs) = (if hd d = ID_DISCONNECTION_NOTIFICATION \<or> hd d = ID_CONNECTION_LOST then 1 else 0) + closings effs"
  by (simp_all add: reports_def closings_def)

section \<open>The invariant of a slot\<close>

definition in_hand :: "bytes set \<Rightarrow> RemoteSystem \<Rightarrow> bool" where
  "in_hand H rs \<longleftrightarrow>
    (case remoteSessionConfigData rs of None \<Rightarrow> [] \<in> H | Some d \<Rightarrow> d \<in> H \<and> d \<noteq> [] \<and> length d \<le> MAXIMUM_SESSION_CONFIG_SIZE)"

definition session_ok :: "bytes set \<Rightarrow> RemoteSystem \<Rightarrow> bool" where
  "session_ok H rs \<longleftrightarrow>
    (\<forall>d. withheldConnectionPacketData rs = Some d \<longrightarrow> d \<noteq> [] \<and> (hd d = ID_CONNECTION_REQUEST_ACCEPTED \<or> hd d = ID_NEW_INCOMING_CONNECTION)) \<and>
    (connectionReportedToApplication rs \<longrightarrow>
      in_hand H rs \<and> connectMode rs \<notin> {REQUESTED_CONNECTION, HANDLING_CONNECTION_REQUEST, UNVERIFIED_SENDER, EXCHANGING_SESSION_DATA}) \<and>
    (connectMode rs = CONNECTED \<longrightarrow> connectionReportedToApplication rs) \<and>
    (sessionConfigAwaitingLocalDecision rs \<and> connectMode rs = EXCHANGING_SESSION_DATA \<longrightarrow> in_hand H rs)"

text \<open>What a step on a sound slot keeps, given its effects.\<close>

definition keeps :: "bytes set \<Rightarrow> RemoteSystem \<Rightarrow> RemoteSystem \<Rightarrow> Effect list \<Rightarrow> bool" where
  "keeps H rs rs' effs \<longleftrightarrow>
    (isActive rs' \<longrightarrow> session_ok H rs' \<and> reports effs + told rs = told rs') \<and>
    reports effs + told rs \<le> 1 \<and>
    weInitiatedTheConnection rs' = weInitiatedTheConnection rs \<and>
    (\<not> weInitiatedTheConnection rs \<longrightarrow> closings effs \<le> reports effs + told rs \<and> (closings effs > 0 \<longrightarrow> \<not> isActive rs'))"

lemma session_ok_mono: "session_ok H rs \<Longrightarrow> H \<subseteq> H' \<Longrightarrow> session_ok H' rs"
  unfolding session_ok_def in_hand_def by (auto split: option.splits)

lemma told_le [simp]: "told rs \<le> 1" "told rs \<le> Suc 0"
  by (simp_all add: told_def)

text \<open>A slot whose session fields did not change, in a state that is no earlier one.\<close>

lemma keeps_same:
  assumes "session_ok H rs" "reports effs = 0" "closings effs = 0"
    and "withheldConnectionPacketData rs' = withheldConnectionPacketData rs"
    and "connectionReportedToApplication rs' = connectionReportedToApplication rs"
    and "remoteSessionConfigData rs' = remoteSessionConfigData rs"
    and "sessionConfigAwaitingLocalDecision rs' \<longrightarrow> sessionConfigAwaitingLocalDecision rs \<or> connectMode rs' \<noteq> EXCHANGING_SESSION_DATA"
    and "weInitiatedTheConnection rs' = weInitiatedTheConnection rs"
    and "connectMode rs' = connectMode rs \<or> connectMode rs' \<in> {DISCONNECT_ASAP, DISCONNECT_ASAP_SILENTLY, DISCONNECT_ON_NO_ACK} \<or>
      connectMode rs' = HANDLING_CONNECTION_REQUEST \<and> connectMode rs \<in> {UNVERIFIED_SENDER, REQUESTED_CONNECTION}"
  shows "keeps H rs rs' effs"
proof -
  have h: "in_hand H rs' = in_hand H rs" "told rs' = told rs" using assms(5,6) by (simp_all add: in_hand_def told_def)
  have "session_ok H rs'" using assms(1,9) unfolding session_ok_def h assms(4,5)
    using assms(7) by (elim disjE conjE insertE emptyE) (simp_all, auto)
  then show ?thesis using assms(2,3,8) by (simp add: keeps_def h)
qed

section \<open>Steps and runs\<close>

locale session_handler =
  fixes step :: "'ev \<Rightarrow> RakPeer \<Rightarrow> RemoteSystem \<Rightarrow> result"
    and heard :: "'ev \<Rightarrow> bytes list"
  assumes step_keeps: "[] \<notin> set (heard ev) \<Longrightarrow> payloads (heard ev) \<subseteq> H \<Longrightarrow> \<not> allowConnectionResponseIPMigration rp \<Longrightarrow> isActive rs \<Longrightarrow>
      session_ok H rs \<Longrightarrow> step ev rp rs = (rp', rs', effs) \<Longrightarrow> \<not> allowConnectionResponseIPMigration rp' \<and> keeps H rs rs' effs"
begin

lemma run_keeps:
  assumes "[] \<notin> set (concat (map heard evs))" "payloads (concat (map heard evs)) \<subseteq> H" "\<not> allowConnectionResponseIPMigration rp"
    and "isActive rs" "session_ok H rs" "run_steps step evs rp rs = (rp', rs', effs)"
  shows "\<not> allowConnectionResponseIPMigration rp' \<and> keeps H rs rs' effs"
  using assms
proof (induction evs arbitrary: rp rs effs)
  case Nil
  then show ?case by (simp add: keeps_def)
next
  case (Cons ev evs)
  obtain rp1 rs1 effs1 where s: "step ev rp rs = (rp1, rs1, effs1)" by (metis prod_cases3)
  obtain rp2 rs2 effs2 where r: "run_steps step evs rp1 rs1 = (rp2, rs2, effs2)" by (metis prod_cases3)
  have res: "rp' = rp2" "rs' = rs2" "effs = effs1 @ effs2" using Cons.prems(4,6) s r by simp_all
  have "payloads (heard ev) \<subseteq> H" "payloads (concat (map heard evs)) \<subseteq> H" using Cons.prems(2) unfolding payloads_def by auto
  then have k: "\<not> allowConnectionResponseIPMigration rp1" "keeps H rs rs1 effs1"
    using step_keeps [OF _ _ Cons.prems(3,4,5) s] Cons.prems(1) by auto
  show ?case
  proof (cases "isActive rs1")
    case True
    then have "session_ok H rs1" using k(2) by (simp add: keeps_def)
    note IH = Cons.IH [OF _ \<open>payloads (concat (map heard evs)) \<subseteq> H\<close> k(1) True this r [folded res]]
    show ?thesis using IH k(2) True Cons.prems(1) unfolding res keeps_def by auto
  next
    case False
    then have "rp2 = rp1 \<and> rs2 = rs1 \<and> effs2 = []" using r by (cases evs) auto
    then show ?thesis using k False unfolding res keeps_def by auto
  qed
qed

end

section \<open>Every handler keeps the contract\<close>

definition sound :: "bytes set \<Rightarrow> RakPeer \<Rightarrow> RemoteSystem \<Rightarrow> result \<Rightarrow> bool" where
  "sound H rp rs r \<longleftrightarrow>
    (case r of (rp', rs', effs) \<Rightarrow> allowConnectionResponseIPMigration rp' = allowConnectionResponseIPMigration rp \<and> keeps H rs rs' effs)"

lemma sound_refl: "session_ok H rs \<Longrightarrow> sound H rp rs (rp, rs, [])"
  by (simp add: sound_def keeps_same)

lemma ids_distinct [simp]:
  "ID_SESSION_CONFIG_REQUEST \<noteq> ID_CONNECTION_REQUEST_ACCEPTED" "ID_SESSION_CONFIG_REQUEST \<noteq> ID_NEW_INCOMING_CONNECTION"
  "ID_SESSION_CONFIG_REQUEST \<noteq> ID_DISCONNECTION_NOTIFICATION" "ID_SESSION_CONFIG_REQUEST \<noteq> ID_CONNECTION_LOST"
  "ID_CONNECTION_REQUEST_ACCEPTED \<noteq> ID_DISCONNECTION_NOTIFICATION" "ID_CONNECTION_REQUEST_ACCEPTED \<noteq> ID_CONNECTION_LOST"
  "ID_NEW_INCOMING_CONNECTION \<noteq> ID_DISCONNECTION_NOTIFICATION" "ID_NEW_INCOMING_CONNECTION \<noteq> ID_CONNECTION_LOST"
  "ID_SESSION_CONFIG_ABANDONED \<noteq> ID_CONNECTION_REQUEST_ACCEPTED" "ID_SESSION_CONFIG_ABANDONED \<noteq> ID_NEW_INCOMING_CONNECTION"
  "ID_SESSION_CONFIG_ABANDONED \<noteq> ID_DISCONNECTION_NOTIFICATION" "ID_SESSION_CONFIG_ABANDONED \<noteq> ID_CONNECTION_LOST"
  "ID_CONNECTION_ATTEMPT_FAILED \<noteq> ID_CONNECTION_REQUEST_ACCEPTED" "ID_CONNECTION_ATTEMPT_FAILED \<noteq> ID_NEW_INCOMING_CONNECTION"
  "ID_CONNECTION_ATTEMPT_FAILED \<noteq> ID_DISCONNECTION_NOTIFICATION" "ID_CONNECTION_ATTEMPT_FAILED \<noteq> ID_CONNECTION_LOST"
  "ID_SESSION_CONFIG_STATUS \<noteq> ID_CONNECTION_REQUEST_ACCEPTED" "ID_SESSION_CONFIG_STATUS \<noteq> ID_NEW_INCOMING_CONNECTION"
  "ID_SESSION_CONFIG_STATUS \<noteq> ID_DISCONNECTION_NOTIFICATION" "ID_SESSION_CONFIG_STATUS \<noteq> ID_CONNECTION_LOST"
  "ID_INVALID_PASSWORD \<noteq> ID_CONNECTION_REQUEST_ACCEPTED" "ID_INVALID_PASSWORD \<noteq> ID_NEW_INCOMING_CONNECTION"
  "ID_INVALID_PASSWORD \<noteq> ID_DISCONNECTION_NOTIFICATION" "ID_INVALID_PASSWORD \<noteq> ID_CONNECTION_LOST"
  "ID_CONNECTION_LOST \<noteq> ID_CONNECTION_REQUEST_ACCEPTED" "ID_CONNECTION_LOST \<noteq> ID_NEW_INCOMING_CONNECTION"
  "ID_DISCONNECTION_NOTIFICATION \<noteq> ID_CONNECTION_REQUEST_ACCEPTED" "ID_DISCONNECTION_NOTIFICATION \<noteq> ID_NEW_INCOMING_CONNECTION"
  by (simp_all add: message_ids)

lemma ParseConnectionRequestPacket_sound:
  assumes "session_ok H rs" "connectMode rs = UNVERIFIED_SENDER \<or> connectMode rs = REQUESTED_CONNECTION"
  shows "sound H rp rs (rp, ParseConnectionRequestPacket e rp data rs)"
  unfolding sound_def ParseConnectionRequestPacket_def invalid_password_def OnConnectionRequest_def Let_def
  using assms by (auto intro!: keeps_same split: prod.splits)

lemma on_connection_request_sound: "session_ok H rs \<Longrightarrow> sound H rp rs (on_connection_request e rp data rs)"
  using ParseConnectionRequestPacket_sound [of H rs rp e data]
  by (auto simp: on_connection_request_def connection_request_again_def OnConnectionRequest_def sound_def split: prod.splits intro!: keeps_same)

lemma learn_external_migration [simp]:
  "allowConnectionResponseIPMigration (learn_external a rp) = allowConnectionResponseIPMigration rp"
  by (simp add: learn_external_def)

text \<open>The transport is up: the slot enters the handshake with a packet withheld.\<close>

lemma enters_handshake_keeps:
  assumes "session_ok H rs" "connectMode rs \<in> {HANDLING_CONNECTION_REQUEST, REQUESTED_CONNECTION}" "reports effs = 0" "closings effs = 0"
    and "connectMode rs' = EXCHANGING_SESSION_DATA" "\<not> connectionReportedToApplication rs'" "\<not> sessionConfigAwaitingLocalDecision rs'"
    and "\<And>d. withheldConnectionPacketData rs' = Some d \<Longrightarrow> d \<noteq> [] \<and> (hd d = ID_CONNECTION_REQUEST_ACCEPTED \<or> hd d = ID_NEW_INCOMING_CONNECTION)"
    and "weInitiatedTheConnection rs' = weInitiatedTheConnection rs"
  shows "keeps H rs rs' effs"
proof -
  have "\<not> connectionReportedToApplication rs" using assms(1,2) by (auto simp: session_ok_def)
  then show ?thesis using assms by (simp add: keeps_def session_ok_def told_def)
qed

lemma on_new_incoming_connection_sound:
  assumes "session_ok H rs" "hd data = ID_NEW_INCOMING_CONNECTION" "data \<noteq> []"
  shows "sound H rp rs (on_new_incoming_connection e rp data rs)"
proof (cases "connectMode rs = HANDLING_CONNECTION_REQUEST")
  case True
  then show ?thesis unfolding on_new_incoming_connection_def sound_def
    by (auto simp: Let_def PingInternal_def ClearSessionConfig_def assms split: prod.splits if_splits intro!: enters_handshake_keeps)
qed (simp add: on_new_incoming_connection_def sound_refl assms)

lemma on_request_accepted_sound:
  assumes "session_ok H rs" "hd data = ID_CONNECTION_REQUEST_ACCEPTED" "data \<noteq> []" "\<not> allowConnectionResponseIPMigration rp"
  shows "sound H rp rs (on_request_accepted e rp data rs)"
proof (cases "length data > 1 + 4 + 2 + 2 + 8 * 2 \<and> connectMode rs \<in> {HANDLING_CONNECTION_REQUEST, REQUESTED_CONNECTION}")
  case True
  then show ?thesis unfolding on_request_accepted_def sound_def
    by (auto simp: Let_def PingInternal_def ClearSessionConfig_def assms split: prod.splits if_splits intro!: enters_handshake_keeps)
next
  case False
  then show ?thesis using assms by (auto simp: on_request_accepted_def intro!: sound_refl)
qed

lemma ping_handlers_sound:
  assumes "session_ok H rs"
  shows "sound H rp rs (on_connected_pong e rp data rs)" "sound H rp rs (on_connected_ping e rp data rs)"
    "sound H rp rs (on_disconnection_notification e rp data rs)"
  using assms
  by (auto simp: sound_def on_connected_pong_def on_connected_ping_def on_disconnection_notification_def ClearDisconnectReason_def Let_def
      intro!: keeps_same split: prod.splits)

lemma on_invalid_password_sound:
  "session_ok H rs \<Longrightarrow> hd data = ID_INVALID_PASSWORD \<Longrightarrow> sound H rp rs (on_invalid_password rp data rs)"
  by (auto simp: on_invalid_password_def sound_def intro!: keeps_same)

lemma on_user_message_sound: "session_ok H rs \<Longrightarrow> sound H rp rs (on_user_message e rp data rs)"
  by (auto simp: on_user_message_def sound_def message_ids ID_SND_RECEIPT_ACKED_def ID_SND_RECEIPT_LOSS_def intro!: keeps_same)

lemma status_handlers_sound:
  assumes "session_ok H rs"
  shows "hd data = ID_SESSION_CONFIG_STATUS \<Longrightarrow> sound H rp rs (on_session_config_status e rp data rs)"
    and "data \<noteq> [] \<Longrightarrow> sound H rp rs (on_session_config_rejected rp data rs)"
  using assms by (auto simp: on_session_config_status_def on_session_config_rejected_def sound_def hd_conv_nth intro!: keeps_same)

text \<open>The connection is reported: exactly one packet, whether or not its bytes could be kept.\<close>

lemma ProduceWithheld_reports:
  assumes "session_ok H rs" "ProduceWithheldConnectionPacket messageId rs1 = (rs', effs)"
    and "messageId = ID_CONNECTION_REQUEST_ACCEPTED \<or> messageId = ID_NEW_INCOMING_CONNECTION"
    and "withheldConnectionPacketData rs1 = withheldConnectionPacketData rs"
  shows "reports effs = 1" "closings effs = 0" "withheldConnectionPacketData rs' = None" "connectionReportedToApplication rs'"
    "remoteSessionConfigData rs' = remoteSessionConfigData rs1" "connectMode rs' = connectMode rs1"
    "weInitiatedTheConnection rs' = weInitiatedTheConnection rs1" "isActive rs' = isActive rs1"
    "sessionConfigAwaitingLocalDecision rs' = sessionConfigAwaitingLocalDecision rs1"
  using assms by (auto simp: ProduceWithheldConnectionPacket_def session_ok_def split: option.splits)

lemma reported_keeps:
  assumes "session_ok H rs" "connectMode rs = EXCHANGING_SESSION_DATA" "in_hand H rs1"
    and "ProduceWithheldConnectionPacket messageId rs1 = (rs', effs)" "messageId = ID_CONNECTION_REQUEST_ACCEPTED \<or> messageId = ID_NEW_INCOMING_CONNECTION"
    and "withheldConnectionPacketData rs1 = withheldConnectionPacketData rs" "connectMode rs1 = CONNECTED"
    and "weInitiatedTheConnection rs1 = weInitiatedTheConnection rs" "reports effs' = reports effs" "closings effs' = closings effs"
  shows "keeps H rs rs' effs'"
proof -
  note p = ProduceWithheld_reports [OF assms(1,4,5,6)]
  have "\<not> connectionReportedToApplication rs" using assms(1,2) by (auto simp: session_ok_def)
  moreover have "in_hand H rs'" using assms(3) p(5) by (simp add: in_hand_def)
  ultimately show ?thesis using p assms(7,8,9,10) by (simp add: keeps_def session_ok_def told_def)
qed

lemma SendSessionConfigResponse_keeps:
  assumes "session_ok H rs" "connectMode rs = EXCHANGING_SESSION_DATA" "in_hand H rs1"
    and "withheldConnectionPacketData rs1 = withheldConnectionPacketData rs" "weInitiatedTheConnection rs1 = weInitiatedTheConnection rs"
    and "SendSessionConfigResponse e data rs1 = (rs', effs)"
  shows "keeps H rs rs' effs"
proof -
  let ?rs2 = "rs1\<lparr>connectMode := CONNECTED, sessionConfigStartTime := 0\<rparr>"
  obtain effs' where p: "ProduceWithheldConnectionPacket ID_NEW_INCOMING_CONNECTION ?rs2 = (rs', effs')"
    and e: "effs = [Send ([ID_SESSION_CONFIG] @ data) ReliableOrdered] @ effs' @ PingInternal e Unreliable"
    using assms(6) by (auto simp: SendSessionConfigResponse_def split: prod.splits)
  show ?thesis
    by (rule reported_keeps [OF assms(1,2) _ p]) (use assms(3-5) in \<open>simp_all add: in_hand_def e PingInternal_def\<close>)
qed

lemma StoreRemoteSessionConfig_in_hand:
  assumes "StoreRemoteSessionConfig e d rs = (stored, rs1)" "d \<in> H"
  shows "stored \<longrightarrow> in_hand H rs1"
    and "\<exists>c. rs1 = rs\<lparr>remoteSessionConfigData := c\<rparr>"
proof -
  show "stored \<longrightarrow> in_hand H rs1" using assms by (auto simp: StoreRemoteSessionConfig_def in_hand_def Let_def split: if_splits)
  show "\<exists>c. rs1 = rs\<lparr>remoteSessionConfigData := c\<rparr>"
    using assms(1) by (intro exI [of _ "remoteSessionConfigData rs1"]) (auto simp: StoreRemoteSessionConfig_def Let_def split: if_splits)
qed

text \<open>In the handshake the connection is unreported, so that its payload may change.\<close>

lemma exchanging_keeps:
  assumes "session_ok H rs" "connectMode rs = EXCHANGING_SESSION_DATA" "reports effs = 0" "closings effs = 0"
    and "withheldConnectionPacketData rs' = withheldConnectionPacketData rs" "weInitiatedTheConnection rs' = weInitiatedTheConnection rs"
    and "\<not> connectionReportedToApplication rs \<Longrightarrow> \<not> connectionReportedToApplication rs'"
    and "connectMode rs' \<noteq> CONNECTED" "sessionConfigAwaitingLocalDecision rs' \<and> connectMode rs' = EXCHANGING_SESSION_DATA \<longrightarrow> in_hand H rs'"
  shows "keeps H rs rs' effs"
proof -
  have "\<not> connectionReportedToApplication rs" using assms(1,2) by (auto simp: session_ok_def)
  then show ?thesis using assms by (simp add: keeps_def session_ok_def told_def)
qed

lemma on_session_config_request_sound:
  assumes "session_ok H rs" "hd data = ID_SESSION_CONFIG_REQUEST" "drop 1 data \<in> H"
  shows "sound H rp rs (on_session_config_request e rp data rs)"
proof (cases "connectMode rs = EXCHANGING_SESSION_DATA \<and> \<not> sessionConfigAwaitingLocalDecision rs")
  case True
  obtain stored rs1 where st: "StoreRemoteSessionConfig e (drop 1 data) rs = (stored, rs1)" by fastforce
  obtain c where rs1: "rs1 = rs\<lparr>remoteSessionConfigData := c\<rparr>" using StoreRemoteSessionConfig_in_hand(2) [OF st assms(3)] by blast
  have h: "stored \<longrightarrow> in_hand H rs1" by (rule StoreRemoteSessionConfig_in_hand(1) [OF st assms(3)])
  have "keeps H rs (rs1\<lparr>connectMode := DISCONNECT_ASAP_SILENTLY\<rparr>) []"
    by (rule exchanging_keeps) (use True assms in \<open>simp_all add: rs1\<close>)
  moreover have "keeps H rs (rs1\<lparr>sessionConfigAwaitingLocalDecision := True\<rparr>) [Produce data]" if stored
    by (rule exchanging_keeps) (use True assms h that in \<open>simp_all add: rs1 in_hand_def\<close>)
  moreover have "keeps H rs rs' effs" if stored "SendSessionConfigResponse e (sessionConfig rp) rs1 = (rs', effs)" for rs' effs
    by (rule SendSessionConfigResponse_keeps [OF assms(1) _ _ _ _ that(2)]) (use True h that(1) in \<open>simp_all add: rs1\<close>)
  ultimately show ?thesis using True st by (auto simp: on_session_config_request_def sound_def split: prod.splits)
next
  case False
  then show ?thesis using assms(1) by (auto simp: on_session_config_request_def intro!: sound_refl)
qed

lemma on_session_config_sound:
  assumes "session_ok H rs" "drop 1 data \<in> H"
  shows "sound H rp rs (on_session_config e rp data rs)"
proof (cases "connectMode rs = EXCHANGING_SESSION_DATA \<and> sessionConfigIsConnectingSide rs")
  case True
  obtain stored rs1 where st: "StoreRemoteSessionConfig e (drop 1 data) rs = (stored, rs1)" by fastforce
  obtain c where rs1: "rs1 = rs\<lparr>remoteSessionConfigData := c\<rparr>" using StoreRemoteSessionConfig_in_hand(2) [OF st assms(2)] by blast
  have h: "stored \<longrightarrow> in_hand H rs1" by (rule StoreRemoteSessionConfig_in_hand(1) [OF st assms(2)])
  have "keeps H rs (rs1\<lparr>connectMode := DISCONNECT_ASAP_SILENTLY\<rparr>) []"
    by (rule exchanging_keeps) (use True assms in \<open>simp_all add: rs1\<close>)
  moreover have "keeps H rs rs' effs" if stored
      "ProduceWithheldConnectionPacket ID_CONNECTION_REQUEST_ACCEPTED (rs1\<lparr>connectMode := CONNECTED, sessionConfigStartTime := 0\<rparr>) = (rs', effs)"
    for rs' effs
    by (rule reported_keeps [OF assms(1) _ _ that(2)]) (use True h that(1) in \<open>simp_all add: rs1 in_hand_def\<close>)
  ultimately show ?thesis using True st by (auto simp: on_session_config_def sound_def split: prod.splits)
next
  case False
  then show ?thesis using assms(1) by (auto simp: on_session_config_def intro!: sound_refl)
qed

lemma close_slot_inactive [simp]: "\<not> isActive (close_slot rs)" "weInitiatedTheConnection (close_slot rs) = weInitiatedTheConnection rs"
  by (simp_all add: close_slot_def ClearSessionConfig_def ClearDisconnectReason_def)

lemma unverified_message_sound:
  assumes "session_ok H rs" "connectMode rs = UNVERIFIED_SENDER"
  shows "sound H rp rs (unverified_message e rp data rs)"
proof (cases "hd data = ID_CONNECTION_REQUEST")
  case True
  then show ?thesis using ParseConnectionRequestPacket_sound [of H rs rp e data] assms
    by (auto simp: unverified_message_def split: prod.splits)
next
  case False
  then show ?thesis by (simp add: unverified_message_def sound_def keeps_def)
qed

lemma handle_message_sound:
  assumes "session_ok H rs" "payloads [data] \<subseteq> H" "\<not> allowConnectionResponseIPMigration rp" "data \<noteq> []"
  shows "sound H rp rs (handle_message e rp data rs)"
proof -
  have "drop 1 data \<in> H" if "hd data = ID_SESSION_CONFIG_REQUEST \<or> hd data = ID_SESSION_CONFIG"
    using that assms(2) unfolding payloads_def by auto
  then show ?thesis unfolding handle_message_def Let_def
    using assms(1,3,4)
    by (simp add: sound_refl unverified_message_sound on_connection_request_sound on_new_incoming_connection_sound
        ping_handlers_sound on_session_config_request_sound on_session_config_sound status_handlers_sound on_invalid_password_sound
        on_request_accepted_sound on_user_message_sound)
qed

interpretation msg: session_handler "\<lambda>data rp. handle_message e rp data" "\<lambda>data. [data]" for e
proof
  fix ev H rp rs rp' rs' effs
  assume "[] \<notin> set [ev]" "payloads [ev] \<subseteq> H" "\<not> allowConnectionResponseIPMigration rp" "session_ok H rs"
    "handle_message e rp ev rs = (rp', rs', effs)"
  then show "\<not> allowConnectionResponseIPMigration rp' \<and> keeps H rs rs' effs"
    using handle_message_sound [of H rs ev rp e] by (simp add: sound_def)
qed

section \<open>Decisions and updates\<close>

lemma session_decision_keeps:
  assumes "session_ok H rs" "session_decision e accept mayAccept data rs = (rs', effs)"
  shows "keeps H rs rs' effs"
proof (cases "isActive rs \<and> connectMode rs = EXCHANGING_SESSION_DATA \<and> sessionConfigAwaitingLocalDecision rs")
  case True
  let ?rs1 = "rs\<lparr>sessionConfigAwaitingLocalDecision := False\<rparr>"
  have h: "in_hand H ?rs1" using assms(1) True by (simp add: session_ok_def in_hand_def)
  have "keeps H rs rs' effs" if "SendSessionConfigResponse e data ?rs1 = (rs', effs)"
    by (rule SendSessionConfigResponse_keeps [OF assms(1) _ h _ _ that]) (use True in simp_all)
  moreover have "keeps H rs rs' effs" if "SendSessionConfigRejection d ?rs1 = (rs', effs)" for d
    using that assms(1) by (auto simp: SendSessionConfigRejection_def intro!: keeps_same)
  ultimately show ?thesis using assms(2) True by (auto simp: session_decision_def Let_def split: if_splits)
next
  case False
  then show ?thesis using assms by (auto simp: session_decision_def intro!: keeps_same)
qed

lemma other_commands_keep:
  assumes "session_ok H rs"
  shows "session_status e data rs = (rs', effs) \<Longrightarrow> keeps H rs rs' effs"
    and "buffered_send data r (if disconnect then DISCONNECT_ASAP else NO_ACTION) rs = (rs', effs) \<Longrightarrow> keeps H rs rs' effs"
  using assms by (auto simp: session_status_def buffered_send_def split: if_splits intro!: keeps_same)

text \<open>A close tells the application of its end only if it was told of the connection, or asked for it.\<close>

lemma close_keeps:
  assumes "reports effs = 0" "\<not> weInitiatedTheConnection rs \<longrightarrow> closings effs \<le> told rs"
    and "weInitiatedTheConnection rs1 = weInitiatedTheConnection rs"
  shows "keeps H rs (close_slot rs1) effs"
  using assms by (simp add: keeps_def)

lemma close_notification_counts:
  "reports (close_notification rs) = 0" "\<not> weInitiatedTheConnection rs \<Longrightarrow> closings (close_notification rs) \<le> told rs"
  by (auto simp: close_notification_def told_def Let_def)

lemma ProduceSessionAbandoned_counts:
  assumes "ProduceSessionAbandoned rs = (rs1, effs)"
  shows "reports effs = 0" "closings effs = 0" "weInitiatedTheConnection rs1 = weInitiatedTheConnection rs"
    "connectionReportedToApplication rs1 = connectionReportedToApplication rs"
  using assms by (auto simp: ProduceSessionAbandoned_def split: if_splits)

lemma update_remote_system_keeps:
  assumes "session_ok H rs" "payloads ready \<subseteq> H" "\<not> allowConnectionResponseIPMigration rp" "[] \<notin> set ready" "isActive rs"
    and "update_remote_system e ls ready rp rs = (rp', rs', effs)"
  shows "\<not> allowConnectionResponseIPMigration rp' \<and> keeps H rs rs' effs"
proof -
  obtain rs1 effs1 where ab: "ProduceSessionAbandoned rs = (rs1, effs1)" by fastforce
  note c = ProduceSessionAbandoned_counts [OF ab]
  have t: "told rs1 = told rs" using c(4) by (simp add: told_def)
  consider (failed) "connection_failed e ls rs" | (timeout) "\<not> connection_failed e ls rs" "session_timed_out e rp rs"
    | (loop) "\<not> connection_failed e ls rs" "\<not> session_timed_out e rp rs" by blast
  then show ?thesis
  proof cases
    case failed
    then have "rp' = rp" "rs' = close_slot rs1" "effs = effs1 @ close_notification rs1"
      using assms(5,6) ab by (auto simp: update_remote_system_def)
    then show ?thesis using assms(3) c close_notification_counts [of rs1] t by (auto intro!: close_keeps)
  next
    case timeout
    then have "rp' = rp \<and> (rs' = close_slot rs \<and> effs = [Produce [ID_CONNECTION_ATTEMPT_FAILED]] \<or> rs' = close_slot rs1 \<and> effs = effs1)"
      using assms(5,6) ab by (auto simp: update_remote_system_def split: if_splits)
    then show ?thesis using assms(3) c by (auto intro!: close_keeps)
  next
    case loop
    then have r: "run_steps (\<lambda>data rp. handle_message e rp data) ready rp rs = (rp', rs', effs)"
      using assms(5,6) by (simp add: update_remote_system_def receive_loop_run)
    have m: "concat (map (\<lambda>data. [data]) ready) = ready" by (induction ready) simp_all
    show ?thesis using msg.run_keeps [OF _ _ assms(3,5,1) r] assms(2,4) unfolding m by simp
  qed
qed


interpretation slot: session_handler session_step messages
proof
  fix ev H rp rs rp' rs' effs
  assume a: "[] \<notin> set (messages ev)" "payloads (messages ev) \<subseteq> H" "\<not> allowConnectionResponseIPMigration rp" "isActive rs" "session_ok H rs"
    and s: "session_step ev rp rs = (rp', rs', effs)"
  obtain e ev' where ev: "ev = (e, ev')" by fastforce
  show "\<not> allowConnectionResponseIPMigration rp' \<and> keeps H rs rs' effs"
  proof (cases ev')
    case (Update ls ready)
    then show ?thesis using a s ev update_remote_system_keeps [of H rs ready rp e ls] by simp
  next
    case CloseNow
    then show ?thesis using a(3) s ev by (auto intro!: close_keeps)
  qed (use a s ev in \<open>auto dest: session_decision_keeps [OF a(5)] other_commands_keep [OF a(5)]\<close>)
qed

section \<open>What the application sees\<close>

definition arrived :: "(Env \<times> SessionEvent) list \<Rightarrow> bytes list" where
  "arrived evs = concat (map messages evs)"

lemma assign_slot_ok: "session_ok H (assign_slot e sa m rs)" "isActive (assign_slot e sa m rs)" "told (assign_slot e sa m rs) = 0"
  if "m \<noteq> CONNECTED"
  using that by (simp_all add: assign_slot_def ClearSessionConfig_def ClearDisconnectReason_def session_ok_def told_def)

lemma request_connection_ok:
  assumes "request_connection e rp sa pw rs = (rs', effs)"
  shows "session_ok H rs'" "isActive rs'" "told rs' = 0"
  using assms by (auto simp: request_connection_def assign_slot_def ClearSessionConfig_def ClearDisconnectReason_def session_ok_def told_def)

end
