(* ===== verification/Session_Handshake.thy ===== *)
theory Session_Handshake
  imports Session_Laws
begin

text \<open>
  Both sides of the session handshake together, and what a remote that does not follow it can achieve.
\<close>

section \<open>A handshake\<close>

text \<open>What a side sends, in its order.\<close>

fun sent :: "Effect list \<Rightarrow> bytes list" where
  "sent [] = []"
| "sent (Send d r # effs) = d # sent effs"
| "sent (Produce d # effs) = sent effs"

fun produced :: "Effect list \<Rightarrow> bytes list" where
  "produced [] = []"
| "produced (Send d r # effs) = produced effs"
| "produced (Produce d # effs) = d # produced effs"

lemma sent_append [simp]: "sent (a @ b) = sent a @ sent b" "produced (a @ b) = produced a @ produced b"
  by (induction a rule: sent.induct) simp_all

definition payload_of :: "bytes \<Rightarrow> bytes option" where
  "payload_of d = (if d = [] then None else Some d)"

text \<open>A peer and a slot with room for the addresses of a message.\<close>

definition sized :: "RakPeer \<Rightarrow> RemoteSystem \<Rightarrow> bool" where
  "sized rp rs \<longleftrightarrow> length (ipList rp) = MAXIMUM_NUMBER_OF_INTERNAL_IDS \<and> length (theirInternalSystemAddress rs) = MAXIMUM_NUMBER_OF_INTERNAL_IDS \<and>
    length (sessionConfig rp) \<le> MAXIMUM_SESSION_CONFIG_SIZE"

definition memory_suffices :: "Env \<Rightarrow> bool" where
  "memory_suffices e \<longleftrightarrow> (\<forall>n. can_alloc e n)"

lemma connection_request_handled:
  assumes "connectMode rs = UNVERIFIED_SENDER" "isActive rs"
  shows "handle_message e rp (connection_request guid t (incomingPassword rp)) rs =
    (rp, rs\<lparr>connectMode := HANDLING_CONNECTION_REQUEST\<rparr>,
     [Send (request_accepted (systemAddress rs) (remoteSystemIndex rs) (ipList rp) t (now e)) ReliableOrdered])"
proof -
  have "rd_raw (0 :: u8) (0 # incomingPassword rp) = (0, incomingPassword rp)" by (simp add: rd_raw_def)
  then show ?thesis using assms
    by (simp add: handle_message_def unverified_message_def connection_request_def ParseConnectionRequestPacket_def invalid_password_def OnConnectionRequest_def
        message_ids Let_def)
qed

lemma request_accepted_handled:
  assumes "connectMode rs = REQUESTED_CONNECTION" "sized rp rs" "memory_suffices e" "length ips = MAXIMUM_NUMBER_OF_INTERNAL_IDS"
    and d_def: "d = request_accepted external index ips t1 t2"
  shows "handle_message e rp d rs =
    (learn_external external rp,
     rs\<lparr>connectMode := EXCHANGING_SESSION_DATA, theirInternalSystemAddress := ips, pings := OnConnectedPong (now e) t1 t2 (pings rs),
        myExternalSystemAddress := external, remoteSessionConfigData := None, withheldConnectionPacketData := Some d,
        sessionConfigAwaitingLocalDecision := False, sessionConfigIsConnectingSide := True, connectionReportedToApplication := False,
        sessionConfigStartTime := session_clock e\<rparr>,
     [Send (new_incoming_connection (systemAddress rs) (ipList rp) t2 (now e)) ReliableOrdered,
      Send ([ID_SESSION_CONFIG_REQUEST] @ sessionConfig rp) ReliableOrdered, Send (connected_ping (now e)) Unreliable])"
proof -
  have r: "d = ID_CONNECTION_REQUEST_ACCEPTED # wr_address external @ wr_int index @ concat (map wr_address ips) @ wr_int t1 @ wr_int t2"
    by (simp add: d_def request_accepted_def)
  have l: "length d > 25" by (simp add: r)
  have "handle_message e rp d rs = on_request_accepted e rp d rs"
    using assms(1) by (simp add: handle_message_def r message_ids)
  also have "on_request_accepted e rp d rs = (learn_external external rp,
     rs\<lparr>connectMode := EXCHANGING_SESSION_DATA, theirInternalSystemAddress := ips, pings := OnConnectedPong (now e) t1 t2 (pings rs),
        myExternalSystemAddress := external, remoteSessionConfigData := None, withheldConnectionPacketData := Some d,
        sessionConfigAwaitingLocalDecision := False, sessionConfigIsConnectingSide := True, connectionReportedToApplication := False,
        sessionConfigStartTime := session_clock e\<rparr>,
     [Send (new_incoming_connection (systemAddress rs) (ipList rp) t2 (now e)) ReliableOrdered,
      Send ([ID_SESSION_CONFIG_REQUEST] @ sessionConfig rp) ReliableOrdered, Send (connected_ping (now e)) Unreliable])"
    using assms(1-4) l
    by (simp add: on_request_accepted_def r sized_def memory_suffices_def Let_def ClearSessionConfig_def PingInternal_def)
  finally show ?thesis .
qed

lemma new_incoming_connection_handled:
  assumes "connectMode rs = HANDLING_CONNECTION_REQUEST" "sized rp rs" "memory_suffices e" "length ips = MAXIMUM_NUMBER_OF_INTERNAL_IDS"
    and d_def: "d = new_incoming_connection external ips t1 t2"
  shows "handle_message e rp d rs =
    (learn_external external rp,
     rs\<lparr>connectMode := EXCHANGING_SESSION_DATA, theirInternalSystemAddress := ips, pings := OnConnectedPong (now e) t1 t2 (pings rs),
        myExternalSystemAddress := external, remoteSessionConfigData := None, withheldConnectionPacketData := Some d,
        sessionConfigAwaitingLocalDecision := False, sessionConfigIsConnectingSide := False, connectionReportedToApplication := False,
        sessionConfigStartTime := session_clock e\<rparr>,
     [Send (connected_ping (now e)) Unreliable])"
proof -
  have r: "d = ID_NEW_INCOMING_CONNECTION # wr_address external @ concat (map wr_address ips) @ wr_int t1 @ wr_int t2"
    by (simp add: d_def new_incoming_connection_def)
  have "handle_message e rp d rs = on_new_incoming_connection e rp d rs"
    using assms(1) by (simp add: handle_message_def r message_ids assms(4) MAXIMUM_NUMBER_OF_INTERNAL_IDS_def)
  then show ?thesis using assms(1-4)
    by (simp add: on_new_incoming_connection_def r sized_def memory_suffices_def Let_def ClearSessionConfig_def PingInternal_def)
qed

lemma Store_payload:
  assumes "length d \<le> MAXIMUM_SESSION_CONFIG_SIZE" "memory_suffices e"
  shows "StoreRemoteSessionConfig e d rs = (True, rs\<lparr>remoteSessionConfigData := payload_of d\<rparr>)"
  using assms by (simp add: StoreRemoteSessionConfig_def payload_of_def memory_suffices_def Let_def)

lemma ping_handled:
  assumes "connectMode rs \<noteq> UNVERIFIED_SENDER"
  shows "handle_message e rp (connected_ping t) rs = (rp, rs, [Send (connected_pong t (now e)) Unreliable])"
  using assms by (simp add: handle_message_def connected_ping_def on_connected_ping_def message_ids)

lemma pong_handled:
  assumes "connectMode rs \<noteq> UNVERIFIED_SENDER"
  shows "handle_message e rp (connected_pong t1 t2) rs = (rp, rs\<lparr>pings := OnConnectedPong (now e) t1 t2 (pings rs)\<rparr>, [])"
  using assms by (simp add: handle_message_def connected_pong_def on_connected_pong_def message_ids)

lemma session_config_request_handled:
  assumes "connectMode rs = EXCHANGING_SESSION_DATA" "\<not> sessionConfigAwaitingLocalDecision rs" "withheldConnectionPacketData rs = Some w" "w \<noteq> []"
    and "length d \<le> MAXIMUM_SESSION_CONFIG_SIZE" "memory_suffices e"
  shows "handle_message e rp ([ID_SESSION_CONFIG_REQUEST] @ d) rs =
    (if sessionConfigInteractive rp
     then (rp, rs\<lparr>remoteSessionConfigData := payload_of d, sessionConfigAwaitingLocalDecision := True\<rparr>, [Produce ([ID_SESSION_CONFIG_REQUEST] @ d)])
     else (rp, rs\<lparr>remoteSessionConfigData := payload_of d, connectMode := CONNECTED, sessionConfigStartTime := 0, withheldConnectionPacketData := None,
                  connectionReportedToApplication := True\<rparr>,
           [Send ([ID_SESSION_CONFIG] @ sessionConfig rp) ReliableOrdered, Produce w, Send (connected_ping (now e)) Unreliable]))"
  using assms
  by (simp add: handle_message_def on_session_config_request_def Store_payload message_ids SendSessionConfigResponse_def
      ProduceWithheldConnectionPacket_def PingInternal_def)

lemma session_config_handled:
  assumes "connectMode rs = EXCHANGING_SESSION_DATA" "sessionConfigIsConnectingSide rs" "withheldConnectionPacketData rs = Some w" "w \<noteq> []"
    and "length d \<le> MAXIMUM_SESSION_CONFIG_SIZE" "memory_suffices e"
  shows "handle_message e rp ([ID_SESSION_CONFIG] @ d) rs =
    (rp, rs\<lparr>remoteSessionConfigData := payload_of d, connectMode := CONNECTED, sessionConfigStartTime := 0, withheldConnectionPacketData := None,
            connectionReportedToApplication := True\<rparr>, [Produce w])"
  using assms by (simp add: handle_message_def on_session_config_def Store_payload message_ids ProduceWithheldConnectionPacket_def)

lemma accepted_decision:
  assumes "isActive rs" "connectMode rs = EXCHANGING_SESSION_DATA" "sessionConfigAwaitingLocalDecision rs"
    and "withheldConnectionPacketData rs = Some w" "w \<noteq> []"
  shows "session_decision e True True d rs =
    (rs\<lparr>sessionConfigAwaitingLocalDecision := False, connectMode := CONNECTED, sessionConfigStartTime := 0, withheldConnectionPacketData := None,
        connectionReportedToApplication := True\<rparr>,
     [Send ([ID_SESSION_CONFIG] @ d) ReliableOrdered, Produce w, Send (connected_ping (now e)) Unreliable])"
  using assms by (simp add: session_decision_def SendSessionConfigResponse_def ProduceWithheldConnectionPacket_def PingInternal_def Let_def)

text \<open>
  The two sides with every message of a side handled by the other: the server's slot and what its application gets, and the same of the client.
  The server's application accepts with \<open>answer\<close>, which has no effect unless it was asked.
\<close>

definition handshake ::
  "(nat \<Rightarrow> Env) \<Rightarrow> RakPeer \<Rightarrow> RemoteSystem \<Rightarrow> RakPeer \<Rightarrow> RemoteSystem \<Rightarrow> bytes list \<Rightarrow> bytes \<Rightarrow>
   (RemoteSystem \<times> bytes list) \<times> (RemoteSystem \<times> bytes list)" where
  "handshake env sv ss cl cs request answer =
    (let (sv1, ss1, a1) = receive_loop (env 0) request sv ss;
         (cl1, cs1, b1) = receive_loop (env 1) (sent a1) cl cs;
         (sv2, ss2, a2) = receive_loop (env 2) (sent b1) sv1 ss1;
         (ss3, a3) = session_decision (env 3) True True answer ss2;
         (cl2, cs2, b2) = receive_loop (env 4) (sent (a2 @ a3)) cl1 cs1
     in ((ss3, produced (a1 @ a2 @ a3)), (cs2, produced (b1 @ b2))))"

lemma connection_request_nonempty [simp]:
  "request_accepted a i ips t1 t2 \<noteq> []" "new_incoming_connection a ips t1 t2 \<noteq> []"
  by (simp_all add: request_accepted_def new_incoming_connection_def)

text \<open>The first two rounds: the request is granted, the client has opened the transport and offered its payload.\<close>

lemma transport_opens:
  assumes "ss = assign_slot e clientAddress UNVERIFIED_SENDER s0" "request_connection e' cl serverAddress (incomingPassword sv) c0 = (cs, effs)"
    and "sized sv s0" "sized cl c0" "\<And>i. memory_suffices (env i)"
  obtains acc nic ss1 cl1 cs1 sv2 ss2
  where "hd acc = ID_CONNECTION_REQUEST_ACCEPTED" "hd nic = ID_NEW_INCOMING_CONNECTION" "acc \<noteq> []" "nic \<noteq> []"
    and "receive_loop (env 0) (sent effs) sv ss = (sv, ss1, [Send acc ReliableOrdered])" "isActive ss1"
    and "receive_loop (env 1) [acc] cl cs = (cl1, cs1, [Send nic ReliableOrdered, Send ([ID_SESSION_CONFIG_REQUEST] @ sessionConfig cl) ReliableOrdered,
        Send (connected_ping (now (env 1))) Unreliable])"
    and "connectMode cs1 = EXCHANGING_SESSION_DATA" "sessionConfigIsConnectingSide cs1" "withheldConnectionPacketData cs1 = Some acc"
      "myExternalSystemAddress cs1 = clientAddress" "isActive cs1"
    and "handle_message (env 2) sv nic ss1 = (sv2, ss2, [Send (connected_ping (now (env 2))) Unreliable])"
    and "connectMode ss2 = EXCHANGING_SESSION_DATA" "\<not> sessionConfigAwaitingLocalDecision ss2" "withheldConnectionPacketData ss2 = Some nic"
      "myExternalSystemAddress ss2 = serverAddress" "isActive ss2"
    and "sessionConfigInteractive sv2 = sessionConfigInteractive sv" "sessionConfig sv2 = sessionConfig sv"
proof -
  have cs: "connectMode cs = REQUESTED_CONNECTION" "isActive cs" "systemAddress cs = serverAddress" "sized cl cs"
    and effs: "sent effs = [connection_request (myGuid cl) (now e') (incomingPassword sv)]"
    using assms(2,4) by (auto simp: request_connection_def assign_slot_def ClearSessionConfig_def ClearDisconnectReason_def sized_def)
  have ss: "connectMode ss = UNVERIFIED_SENDER" "isActive ss" "systemAddress ss = clientAddress" "sized sv ss"
    using assms(1,3) by (auto simp: assign_slot_def ClearSessionConfig_def ClearDisconnectReason_def sized_def)
  define acc where "acc = request_accepted clientAddress (remoteSystemIndex ss) (ipList sv) (now e') (now (env 0))"
  define nic where "nic = new_incoming_connection serverAddress (ipList cl) (now (env 0)) (now (env 1))"
  have ne: "acc \<noteq> []" "nic \<noteq> []" "hd acc = ID_CONNECTION_REQUEST_ACCEPTED" "hd nic = ID_NEW_INCOMING_CONNECTION"
    by (simp_all add: acc_def nic_def request_accepted_def new_incoming_connection_def)
  have ips: "length (ipList sv) = MAXIMUM_NUMBER_OF_INTERNAL_IDS" "length (ipList cl) = MAXIMUM_NUMBER_OF_INTERNAL_IDS"
    using assms(3,4) by (simp_all add: sized_def)
  let ?ss1 = "ss\<lparr>connectMode := HANDLING_CONNECTION_REQUEST\<rparr>"
  have r1: "receive_loop (env 0) (sent effs) sv ss = (sv, ?ss1, [Send acc ReliableOrdered])"
    using ss by (simp add: effs connection_request_handled acc_def)
  obtain cl1 cs1 where r2: "receive_loop (env 1) [acc] cl cs =
        (cl1, cs1, [Send nic ReliableOrdered, Send ([ID_SESSION_CONFIG_REQUEST] @ sessionConfig cl) ReliableOrdered, Send (connected_ping (now (env 1))) Unreliable])"
    and cs1: "connectMode cs1 = EXCHANGING_SESSION_DATA" "sessionConfigIsConnectingSide cs1" "withheldConnectionPacketData cs1 = Some acc"
      "myExternalSystemAddress cs1 = clientAddress" "isActive cs1"
    using request_accepted_handled [OF cs(1,4) assms(5) ips(1) acc_def] cs(2,3) by (simp add: nic_def)
  have "sized sv ?ss1" using ss(4) by (simp add: sized_def)
  then obtain sv2 ss2 where h2: "handle_message (env 2) sv nic ?ss1 = (sv2, ss2, [Send (connected_ping (now (env 2))) Unreliable])"
    and ss2: "connectMode ss2 = EXCHANGING_SESSION_DATA" "\<not> sessionConfigAwaitingLocalDecision ss2" "withheldConnectionPacketData ss2 = Some nic"
      "myExternalSystemAddress ss2 = serverAddress" "isActive ss2"
    and sv2: "sessionConfigInteractive sv2 = sessionConfigInteractive sv" "sessionConfig sv2 = sessionConfig sv"
    using new_incoming_connection_handled [OF _ _ assms(5) ips(2) nic_def] ss(2) by (simp add: learn_external_def)
  show thesis by (rule that [OF ne(3,4,1,2) r1 _ r2 cs1 h2 ss2 sv2]) (use ss(2) in simp)
qed

text \<open>
  Property C8: the handshake completes.  If the passwords agree and memory suffices, four rounds of messages connect both sides; each holds the
  payload the other offered (the one the server's application answered with, if it decides) and knows its own address as the other sees it; each
  application is told once, by the packet that was withheld, and the server's is asked before if it decides.
\<close>

theorem handshake_completes:
  assumes "ss = assign_slot e clientAddress UNVERIFIED_SENDER s0" "request_connection e' cl serverAddress (incomingPassword sv) c0 = (cs, effs)"
    and "sized sv s0" "sized cl c0" "length answer \<le> MAXIMUM_SESSION_CONFIG_SIZE" "\<And>i. memory_suffices (env i)"
    and "handshake env sv ss cl cs (sent effs) answer = ((ss', toServer), (cs', toClient))"
  shows "connectMode ss' = CONNECTED \<and> connectMode cs' = CONNECTED \<and>
    remoteSessionConfigData ss' = payload_of (sessionConfig cl) \<and>
    remoteSessionConfigData cs' = payload_of (if sessionConfigInteractive sv then answer else sessionConfig sv) \<and>
    myExternalSystemAddress ss' = serverAddress \<and> myExternalSystemAddress cs' = clientAddress \<and>
    map hd toServer = (if sessionConfigInteractive sv then [ID_SESSION_CONFIG_REQUEST] else []) @ [ID_NEW_INCOMING_CONNECTION] \<and>
    map hd toClient = [ID_CONNECTION_REQUEST_ACCEPTED]"
proof -
  have len: "length (sessionConfig sv) \<le> MAXIMUM_SESSION_CONFIG_SIZE" "length (sessionConfig cl) \<le> MAXIMUM_SESSION_CONFIG_SIZE"
    using assms(3,4) by (simp_all add: sized_def)
  obtain acc nic ss1 cl1 cs1 sv2 ss2
    where ne: "hd acc = ID_CONNECTION_REQUEST_ACCEPTED" "hd nic = ID_NEW_INCOMING_CONNECTION" "acc \<noteq> []" "nic \<noteq> []"
      and r1: "receive_loop (env 0) (sent effs) sv ss = (sv, ss1, [Send acc ReliableOrdered])" and ss1: "isActive ss1"
      and r2: "receive_loop (env 1) [acc] cl cs = (cl1, cs1, [Send nic ReliableOrdered,
        Send ([ID_SESSION_CONFIG_REQUEST] @ sessionConfig cl) ReliableOrdered, Send (connected_ping (now (env 1))) Unreliable])"
      and cs1: "connectMode cs1 = EXCHANGING_SESSION_DATA" "sessionConfigIsConnectingSide cs1" "withheldConnectionPacketData cs1 = Some acc"
        "myExternalSystemAddress cs1 = clientAddress" "isActive cs1"
      and h2: "handle_message (env 2) sv nic ss1 = (sv2, ss2, [Send (connected_ping (now (env 2))) Unreliable])"
      and ss2: "connectMode ss2 = EXCHANGING_SESSION_DATA" "\<not> sessionConfigAwaitingLocalDecision ss2" "withheldConnectionPacketData ss2 = Some nic"
        "myExternalSystemAddress ss2 = serverAddress" "isActive ss2"
      and sv2: "sessionConfigInteractive sv2 = sessionConfigInteractive sv" "sessionConfig sv2 = sessionConfig sv"
    by (rule transport_opens [OF assms(1-4), of env]) (use assms(6) in \<open>simp, blast\<close>)
  define req where "req = [ID_SESSION_CONFIG_REQUEST] @ sessionConfig cl"
  note h3 = session_config_request_handled [OF ss2(1,2,3) ne(4) len(2) assms(6) [of 2], of sv2, folded req_def]
  let ?connected = "\<lambda>d rs. rs\<lparr>remoteSessionConfigData := payload_of d, connectMode := CONNECTED, sessionConfigStartTime := 0,
      withheldConnectionPacketData := None, connectionReportedToApplication := True\<rparr>"
  have fin: "handle_message (env 4) cl1 (ID_SESSION_CONFIG # d) (cs1\<lparr>pings := p\<rparr>) = (cl1, ?connected d (cs1\<lparr>pings := p\<rparr>), [Produce acc])"
      "handle_message (env 4) cl1 (ID_SESSION_CONFIG # d) cs1 = (cl1, ?connected d cs1, [Produce acc])"
    if "length d \<le> MAXIMUM_SESSION_CONFIG_SIZE" for d p
    using session_config_handled [OF _ _ _ ne(3) that assms(6) [of 4], of _ cl1] cs1 by simp_all
  have cp: "connectMode cs1 \<noteq> UNVERIFIED_SENDER" using cs1(1) by simp
  show ?thesis
  proof (cases "sessionConfigInteractive sv")
    case True
    let ?ss3 = "ss2\<lparr>remoteSessionConfigData := payload_of (sessionConfig cl), sessionConfigAwaitingLocalDecision := True\<rparr>"
    have r3: "receive_loop (env 2) [nic, req, connected_ping (now (env 1))] sv ss1 = (sv2, ?ss3,
        [Send (connected_ping (now (env 2))) Unreliable, Produce req, Send (connected_pong (now (env 1)) (now (env 2))) Unreliable])"
      using ss1 ss2 h2 h3 True sv2 by (simp add: ping_handled)
    note d = accepted_decision [of ?ss3 nic "env 3" answer]
    have r4: "\<exists>cs2. receive_loop (env 4) [connected_ping (now (env 2)), connected_pong (now (env 1)) (now (env 2)), ID_SESSION_CONFIG # answer,
        connected_ping (now (env 3))] cl1 cs1 = (cl1, cs2, [Send (connected_pong (now (env 2)) (now (env 4))) Unreliable, Produce acc,
          Send (connected_pong (now (env 3)) (now (env 4))) Unreliable]) \<and> connectMode cs2 = CONNECTED \<and>
        remoteSessionConfigData cs2 = payload_of answer \<and> myExternalSystemAddress cs2 = clientAddress"
      using cs1 cp fin [OF assms(5)] by (simp add: ping_handled pong_handled)
    then show ?thesis using assms(7) r1 r2 [folded req_def] r3 d ss2 ne True
      by (auto simp: handshake_def req_def simp del: receive_loop.simps One_nat_def)
  next
    case False
    have r3: "receive_loop (env 2) [nic, req, connected_ping (now (env 1))] sv ss1 = (sv2, ?connected (sessionConfig cl) ss2,
        [Send (connected_ping (now (env 2))) Unreliable, Send (ID_SESSION_CONFIG # sessionConfig sv) ReliableOrdered, Produce nic,
         Send (connected_ping (now (env 2))) Unreliable, Send (connected_pong (now (env 1)) (now (env 2))) Unreliable])"
      using ss1 ss2 h2 h3 False sv2 by (simp add: ping_handled)
    have r4: "\<exists>cs2. receive_loop (env 4) [connected_ping (now (env 2)), ID_SESSION_CONFIG # sessionConfig sv, connected_ping (now (env 2)),
        connected_pong (now (env 1)) (now (env 2))] cl1 cs1 = (cl1, cs2, [Send (connected_pong (now (env 2)) (now (env 4))) Unreliable, Produce acc,
          Send (connected_pong (now (env 2)) (now (env 4))) Unreliable]) \<and> connectMode cs2 = CONNECTED \<and>
        remoteSessionConfigData cs2 = payload_of (sessionConfig sv) \<and> myExternalSystemAddress cs2 = clientAddress"
      using cs1 cp fin [OF len(1)] by (simp add: ping_handled pong_handled)
    have d: "session_decision (env 3) True True answer (?connected (sessionConfig cl) ss2) = (?connected (sessionConfig cl) ss2, [])"
      by (simp add: session_decision_def)
    show ?thesis using assms(7) r1 r2 [folded req_def] r3 r4 d ss2 ne False
      by (auto simp: handshake_def simp del: receive_loop.simps One_nat_def)
  qed
qed

text \<open>A client and a server with nothing set up, for evaluation.\<close>

definition demo_peer :: RakPeer where
  "demo_peer =
    \<lparr>myGuid = 77, ipList = replicate 10 UNASSIGNED_SYSTEM_ADDRESS, firstExternalID = UNASSIGNED_SYSTEM_ADDRESS, incomingPassword = [],
     sessionConfig = [1, 2], sessionConfigInteractive = True, sessionTimeout = 0, allowConnectionResponseIPMigration = False, banList = []\<rparr>"

definition demo_slot :: RemoteSystem where
  "demo_slot =
    \<lparr>isActive = False, systemAddress = UNASSIGNED_SYSTEM_ADDRESS, myExternalSystemAddress = UNASSIGNED_SYSTEM_ADDRESS,
     theirInternalSystemAddress = replicate 10 UNASSIGNED_SYSTEM_ADDRESS, weInitiatedTheConnection = False, pings = PingTable_reset,
     connectionTime = 0, remoteSystemIndex = 0, disconnectReasonData = None, remoteSessionConfigData = None,
     sessionConfigAwaitingLocalDecision = False, sessionConfigIsConnectingSide = False, connectionReportedToApplication = False,
     sessionConfigStartTime = 0, withheldConnectionPacketData = None, connectMode = NO_ACTION\<rparr>"

definition peer_env :: Env where
  "peer_env =
    \<lparr>now = 5000, timeMS = 5000, nowMS = 5000, layer_timeout = 10000, can_alloc = (\<lambda>n. True), plugin_takes = (\<lambda>d. False),
     address_string = (\<lambda>a. ''10.0.0.7''), stale_version = 0, stale_address = 0, stale_ping = 0, stale_pong = 0\<rparr>"

lemma demo_facts [simp]:
  "sized demo_peer demo_slot" "memory_suffices peer_env" "\<not> allowConnectionResponseIPMigration demo_peer" "sessionConfigInteractive demo_peer"
  "sessionConfig demo_peer = [1, 2]" "incomingPassword demo_peer = []"
  by (simp_all add: sized_def demo_peer_def demo_slot_def memory_suffices_def peer_env_def MAXIMUM_NUMBER_OF_INTERNAL_IDS_def
      MAXIMUM_SESSION_CONFIG_SIZE_def)

theorem handshake_completes_witness:
  "\<exists>ss' cs' toServer toClient.
    handshake (\<lambda>i. peer_env) demo_peer (assign_slot peer_env \<lparr>s_addr = 9, sin_port = 1\<rparr> UNVERIFIED_SENDER demo_slot)
      demo_peer (fst (request_connection peer_env demo_peer \<lparr>s_addr = 8, sin_port = 2\<rparr> [] demo_slot))
      (sent (snd (request_connection peer_env demo_peer \<lparr>s_addr = 8, sin_port = 2\<rparr> [] demo_slot))) [7] = ((ss', toServer), (cs', toClient)) \<and>
    connectMode cs' = CONNECTED \<and> remoteSessionConfigData cs' = Some [7] \<and> remoteSessionConfigData ss' = Some [1, 2]"
proof -
  let ?ss = "assign_slot peer_env \<lparr>s_addr = 9, sin_port = 1\<rparr> UNVERIFIED_SENDER demo_slot"
  let ?rc = "request_connection peer_env demo_peer \<lparr>s_addr = 8, sin_port = 2\<rparr> [] demo_slot"
  obtain cs effs where rc: "?rc = (cs, effs)" by fastforce
  obtain ss' cs' toServer toClient
    where h: "handshake (\<lambda>i. peer_env) demo_peer ?ss demo_peer cs (sent effs) [7] = ((ss', toServer), (cs', toClient))"
    by (metis surj_pair)
  have "connectMode cs' = CONNECTED \<and> remoteSessionConfigData cs' = Some [7] \<and> remoteSessionConfigData ss' = Some [1, 2]"
    using handshake_completes [OF refl, of peer_env demo_peer _ demo_peer demo_slot cs effs demo_slot "[7]" "\<lambda>i. peer_env"] rc h
    by (simp add: payload_of_def MAXIMUM_SESSION_CONFIG_SIZE_def)
  then show ?thesis using rc h by simp
qed

section \<open>A remote that does not follow the handshake\<close>

text \<open>A message that is just long enough to be taken for the acceptance of a connection request.\<close>

definition forged_accept :: bytes where
  "forged_accept = ID_CONNECTION_REQUEST_ACCEPTED # replicate 25 0"

lemma rd_address_zero [simp]: "rd_address v b old (0 # rest) = (old, rest)"
  by (simp add: rd_address_def rd_raw_def)

lemma rd_addresses_zero [simp]: "rd_addresses v b olds (replicate (length olds) 0 @ rest) = (olds, rest)"
  by (induction olds) simp_all

lemma forged_accept_handled:
  assumes "connectMode rs = HANDLING_CONNECTION_REQUEST \<or> connectMode rs = REQUESTED_CONNECTION" "memory_suffices e"
    and "length (theirInternalSystemAddress rs) = MAXIMUM_NUMBER_OF_INTERNAL_IDS"
    and "handle_message e rp forged_accept rs = (rp', rs', effs)"
  shows "connectMode rs' = EXCHANGING_SESSION_DATA" "sessionConfigIsConnectingSide rs'" "withheldConnectionPacketData rs' = Some forged_accept"
    "isActive rs' = isActive rs" "produced effs = []"
    "new_incoming_connection (systemAddress rs) (ipList rp) (stale_pong e) (now e) \<in> set (sent effs)"
proof -
  have h: "on_request_accepted e rp forged_accept rs = (rp', rs', effs)"
    using assms(1,4) by (auto simp: handle_message_def forged_accept_def message_ids)
  define z8 z4 :: bytes where "z8 = replicate 8 0" and "z4 = replicate 4 0"
  have i1: "rd_int (0 :: u16) (0 # 0 # d) = (0, d)" for d by (simp add: rd_int_def)
  have i2: "rd_int (stale_ping e) (z8 @ z4) = (of_le_bytes (rev z8), z4)" by (simp add: rd_int_def z8_def)
  have i3: "rd_int (stale_pong e) z4 = (stale_pong e, z4)" by (simp add: rd_int_def z4_def)
  have l: "length forged_accept > 25" by (simp add: forged_accept_def)
  have r': "drop (Suc 0) forged_accept = 0 # 0 # 0 # replicate (length (theirInternalSystemAddress rs)) 0 @ z8 @ z4"
  proof -
    have "(25 :: nat) = 3 + (10 + (8 + 4))" by simp
    then have "replicate 25 (0 :: u8) = replicate 3 0 @ replicate 10 0 @ z8 @ z4" unfolding z8_def z4_def by (metis replicate_add)
    moreover have "replicate 3 (0 :: u8) = [0, 0, 0]" by (simp add: numeral_3_eq_3)
    ultimately show ?thesis unfolding forged_accept_def assms(3) MAXIMUM_NUMBER_OF_INTERNAL_IDS_def by simp
  qed
  have "connectMode rs' = EXCHANGING_SESSION_DATA \<and> sessionConfigIsConnectingSide rs' \<and> withheldConnectionPacketData rs' = Some forged_accept \<and>
      isActive rs' = isActive rs \<and> produced effs = [] \<and>
      new_incoming_connection (systemAddress rs) (ipList rp) (stale_pong e) (now e) \<in> set (sent effs)"
    using h assms(1,2) l
    by (auto simp: on_request_accepted_def r' i1 i2 i3 Let_def ClearSessionConfig_def memory_suffices_def PingInternal_def)
  then show "connectMode rs' = EXCHANGING_SESSION_DATA" "sessionConfigIsConnectingSide rs'" "withheldConnectionPacketData rs' = Some forged_accept"
    "isActive rs' = isActive rs" "produced effs = []"
    "new_incoming_connection (systemAddress rs) (ipList rp) (stale_pong e) (now e) \<in> set (sent effs)" by blast+
qed

lemma forged_run:
  assumes "ss = assign_slot e0 clientAddress UNVERIFIED_SENDER s0" "sized sv s0" "memory_suffices e" "sessionConfigInteractive sv"
    and "request = connection_request guid t (incomingPassword sv)"
  shows "(\<exists>sv' ss' effs. receive_loop e [request, forged_accept, [ID_SESSION_CONFIG]] sv ss = (sv', ss', effs) \<and>
      connectMode ss' = CONNECTED \<and> isActive ss' \<and> produced effs = [forged_accept]) \<and>
    (\<exists>sv' ss' effs. receive_loop e [request, forged_accept, [ID_SESSION_CONFIG_REJECTED]] sv ss = (sv', ss', effs) \<and>
      produced effs = [[ID_CONNECTION_ATTEMPT_FAILED]])"
proof -
  let ?ss1 = "ss\<lparr>connectMode := HANDLING_CONNECTION_REQUEST\<rparr>"
  have ss: "connectMode ss = UNVERIFIED_SENDER" "isActive ss" "length (theirInternalSystemAddress ss) = MAXIMUM_NUMBER_OF_INTERNAL_IDS"
    using assms(1,2) by (auto simp: assign_slot_def ClearSessionConfig_def ClearDisconnectReason_def sized_def)
  obtain acc where h1: "handle_message e sv request ss = (sv, ?ss1, [Send acc ReliableOrdered])"
    using connection_request_handled [OF ss(1,2), of e sv guid t] assms(5) by blast
  obtain sv2 ss2 effs2 where h2: "handle_message e sv forged_accept ?ss1 = (sv2, ss2, effs2)" by (metis prod_cases3)
  have f: "connectMode ss2 = EXCHANGING_SESSION_DATA" "sessionConfigIsConnectingSide ss2" "withheldConnectionPacketData ss2 = Some forged_accept"
    "isActive ss2" "produced effs2 = []"
    using forged_accept_handled [OF _ assms(3) _ h2] ss by simp_all
  have ne: "forged_accept \<noteq> []" by (simp add: forged_accept_def)
  have h3: "handle_message e sv2 [ID_SESSION_CONFIG] ss2 = (sv2, ss2\<lparr>remoteSessionConfigData := None, connectMode := CONNECTED,
      sessionConfigStartTime := 0, withheldConnectionPacketData := None, connectionReportedToApplication := True\<rparr>, [Produce forged_accept])"
    using session_config_handled [OF f(1,2,3) ne _ assms(3), of "[]" sv2] by (simp add: payload_of_def)
  have h4: "handle_message e sv2 [ID_SESSION_CONFIG_REJECTED] ss2 =
      (sv2, ss2\<lparr>connectMode := DISCONNECT_ASAP_SILENTLY\<rparr>, [Produce [ID_CONNECTION_ATTEMPT_FAILED]])"
    using f(1,2) by (simp add: handle_message_def on_session_config_rejected_def message_ids)
  show ?thesis using h1 h2 h3 h4 ss f by simp
qed

text \<open>
  Property C34: a remote that asks for a connection and then sends the acceptance of a request nobody made is treated as the side that was connected
  to.  Its own session payload then connects it and reports the connection although the application decides about sessions and was not asked, and a
  rejection makes the application see the failure of a connection attempt it never made.
\<close>

theorem forged_acceptance_connects:
  assumes "ss = assign_slot e0 clientAddress UNVERIFIED_SENDER s0" "sized sv s0" "memory_suffices e" "sessionConfigInteractive sv"
    and "request = connection_request guid t (incomingPassword sv)"
  shows "(\<exists>sv' ss' effs. receive_loop e [request, forged_accept, [ID_SESSION_CONFIG]] sv ss = (sv', ss', effs) \<and>
      connectMode ss' = CONNECTED \<and> produced effs = [forged_accept]) \<and>
    (\<exists>sv' ss' effs. receive_loop e [request, forged_accept, [ID_SESSION_CONFIG_REJECTED]] sv ss = (sv', ss', effs) \<and>
      produced effs = [[ID_CONNECTION_ATTEMPT_FAILED]])"
  using forged_run [OF assms] by blast

theorem forged_acceptance_connects_witness:
  "\<exists>sv' ss' effs. receive_loop peer_env [connection_request 5 6 [], forged_accept, [ID_SESSION_CONFIG]] demo_peer
      (assign_slot peer_env \<lparr>s_addr = 9, sin_port = 1\<rparr> UNVERIFIED_SENDER demo_slot) = (sv', ss', effs) \<and>
    connectMode ss' = CONNECTED \<and> produced effs = [forged_accept]"
  using forged_acceptance_connects [OF refl, of demo_peer demo_slot peer_env, OF _ _ _ refl] by simp

text \<open>
  Property C35: messages that are too short make a peer send bytes of uninitialised memory.  A connection request of its identifier only is accepted if
  there is no password, and the answer carries an uninitialised time; the acceptance of 26 bytes, which passes the check of its length, has no room
  for the times, and the answer to it carries one that was never read.
\<close>

theorem short_messages_disclose_memory:
  assumes "incomingPassword sv = []" "connectMode ss = UNVERIFIED_SENDER" "isActive ss"
    and "connectMode cs = REQUESTED_CONNECTION" "memory_suffices e" "length (theirInternalSystemAddress cs) = MAXIMUM_NUMBER_OF_INTERNAL_IDS"
  shows "sent (snd (snd (handle_message e sv [ID_CONNECTION_REQUEST] ss))) =
      [request_accepted (systemAddress ss) (remoteSystemIndex ss) (ipList sv) (stale_ping e) (now e)] \<and>
    new_incoming_connection (systemAddress cs) (ipList cl) (stale_pong e) (now e) \<in> set (sent (snd (snd (handle_message e cl forged_accept cs))))"
proof -
  have "rd_int v [] = (v :: u64, [])" "rd_raw w [] = (w :: u8, [])" for v w by (simp_all add: rd_int_def rd_raw_def)
  then have "sent (snd (snd (handle_message e sv [ID_CONNECTION_REQUEST] ss))) =
      [request_accepted (systemAddress ss) (remoteSystemIndex ss) (ipList sv) (stale_ping e) (now e)]"
    using assms(1-3)
    by (simp add: handle_message_def unverified_message_def ParseConnectionRequestPacket_def invalid_password_def OnConnectionRequest_def message_ids Let_def)
  moreover obtain cl' cs' effs where h: "handle_message e cl forged_accept cs = (cl', cs', effs)" by (metis prod_cases3)
  ultimately show ?thesis using forged_accept_handled(6) [OF _ assms(5,6) h] assms(4) by simp
qed

theorem short_messages_disclose_memory_witness:
  "sent (snd (snd (handle_message peer_env demo_peer [ID_CONNECTION_REQUEST] (assign_slot peer_env \<lparr>s_addr = 9, sin_port = 1\<rparr> UNVERIFIED_SENDER demo_slot)))) =
    [request_accepted \<lparr>s_addr = 9, sin_port = 1\<rparr> 0 (ipList demo_peer) (stale_ping peer_env) (now peer_env)]"
proof -
  let ?ss = "assign_slot peer_env \<lparr>s_addr = 9, sin_port = 1\<rparr> UNVERIFIED_SENDER demo_slot"
  let ?cs = "?ss\<lparr>connectMode := REQUESTED_CONNECTION\<rparr>"
  have f: "connectMode ?ss = UNVERIFIED_SENDER" "isActive ?ss" "systemAddress ?ss = \<lparr>s_addr = 9, sin_port = 1\<rparr>" "remoteSystemIndex ?ss = 0"
    "length (theirInternalSystemAddress ?cs) = MAXIMUM_NUMBER_OF_INTERNAL_IDS"
    by (simp_all add: assign_slot_def ClearSessionConfig_def ClearDisconnectReason_def demo_slot_def MAXIMUM_NUMBER_OF_INTERNAL_IDS_def)
  show ?thesis using short_messages_disclose_memory [of demo_peer ?ss ?cs peer_env demo_peer] f by simp
qed

section \<open>What the application sees\<close>

text \<open>
  Property C7: on a slot assigned or requested anew, with \<^verbatim>\<open>AllowConnectionResponseIPMigration\<close> off as it is by default, whatever messages the remote sends (none of them empty) and the
  application decides, a connection is reported at most once, a slot in the state CONNECTED has been reported, and as long as a reported connection
  lasts the payload the remote sent in the handshake is at hand, within its size limit.
\<close>

theorem connection_reported_once:
  assumes "\<not> allowConnectionResponseIPMigration rp" "[] \<notin> set (arrived evs)"
    and "rs = assign_slot e sa UNVERIFIED_SENDER rs0 \<or> request_connection e rp sa pw rs0 = (rs, asked)"
    and "run_steps session_step evs rp rs = (rp', rs', effs)"
  shows "reports effs \<le> 1 \<and>
    (isActive rs' \<longrightarrow>
      (reports effs = 1 \<longleftrightarrow> connectionReportedToApplication rs') \<and>
      (connectMode rs' = CONNECTED \<longrightarrow> reports effs = 1) \<and>
      (reports effs = 1 \<longrightarrow> in_hand (payloads (arrived evs)) rs'))"
proof -
  have rs: "session_ok (payloads (arrived evs)) rs" "isActive rs" "told rs = 0"
    using assms(3) assign_slot_ok [of UNVERIFIED_SENDER] request_connection_ok [of e rp sa pw rs0 rs asked] by auto
  have "keeps (payloads (arrived evs)) rs rs' effs"
    using slot.run_keeps [OF _ _ assms(1) rs(2,1) assms(4)] assms(2) by (simp add: arrived_def)
  then show ?thesis using rs(3) unfolding keeps_def session_ok_def by (simp add: told_def split: if_splits)
qed

text \<open>
  Property C11: on the side that was connected to, with \<^verbatim>\<open>AllowConnectionResponseIPMigration\<close> off, the application is told that a connection ended only after it
  was told that it began, and once.
\<close>

theorem close_only_after_report:
  assumes "\<not> allowConnectionResponseIPMigration rp" "[] \<notin> set (arrived evs)"
    and "run_steps session_step evs rp (assign_slot e sa UNVERIFIED_SENDER rs0) = (rp', rs', effs)"
  shows "closings effs \<le> reports effs \<and> reports effs \<le> 1"
proof -
  let ?rs = "assign_slot e sa UNVERIFIED_SENDER rs0"
  have "keeps (payloads (arrived evs)) ?rs rs' effs"
    using slot.run_keeps [OF _ _ assms(1) _ _ assms(3)] assign_slot_ok [of UNVERIFIED_SENDER] assms(2) by (simp add: arrived_def)
  then show ?thesis using assign_slot_ok(3) [of UNVERIFIED_SENDER] unfolding keeps_def
    by (simp add: assign_slot_def ClearSessionConfig_def ClearDisconnectReason_def)
qed


text \<open>A run that connects.\<close>

definition quiet :: LayerStatus where
  "quiet = \<lparr>IsDeadConnection = False, IsOutgoingDataWaiting = False, AreAcksWaiting = False, ackTimeout = False\<rparr>"

definition demo_events :: "(Env \<times> SessionEvent) list" where
  "demo_events = [(peer_env, Update quiet [connection_request 5 6 [], forged_accept, [ID_SESSION_CONFIG]])]"

lemma demo_session_run:
  "\<exists>rp' rs' effs. run_steps session_step demo_events demo_peer (assign_slot peer_env \<lparr>s_addr = 9, sin_port = 1\<rparr> UNVERIFIED_SENDER demo_slot) =
    (rp', rs', effs) \<and> connectMode rs' = CONNECTED \<and> isActive rs'"
proof -
  let ?ss = "assign_slot peer_env \<lparr>s_addr = 9, sin_port = 1\<rparr> UNVERIFIED_SENDER demo_slot"
  have ss: "isActive ?ss" "connectMode ?ss = UNVERIFIED_SENDER" "connectionTime ?ss = 5000"
    by (simp_all add: assign_slot_def peer_env_def)
  have "\<not> connection_failed peer_env quiet ?ss" "\<not> session_timed_out peer_env demo_peer ?ss"
    using ss by (simp_all add: connection_failed_def session_timed_out_def quiet_def) (simp add: peer_env_def)
  then show ?thesis using forged_run [OF refl, of demo_peer demo_slot peer_env, OF _ _ _ refl, of 5 6 peer_env "\<lparr>s_addr = 9, sin_port = 1\<rparr>"] ss(1)
    by (auto simp: demo_events_def update_remote_system_def simp del: receive_loop.simps)
qed

lemma demo_arrived: "[] \<notin> set (arrived demo_events)"
  by (simp add: arrived_def demo_events_def connection_request_def forged_accept_def)

theorem connection_reported_once_witness:
  "\<exists>rp' rs' effs. run_steps session_step demo_events demo_peer (assign_slot peer_env \<lparr>s_addr = 9, sin_port = 1\<rparr> UNVERIFIED_SENDER demo_slot) =
    (rp', rs', effs) \<and> reports effs = 1 \<and> in_hand (payloads (arrived demo_events)) rs'"
  using demo_session_run connection_reported_once [OF demo_facts(3) demo_arrived] by blast

theorem close_only_after_report_witness:
  "\<exists>rp' rs' effs. run_steps session_step demo_events demo_peer (assign_slot peer_env \<lparr>s_addr = 9, sin_port = 1\<rparr> UNVERIFIED_SENDER demo_slot) =
    (rp', rs', effs) \<and> closings effs \<le> reports effs"
  using demo_session_run close_only_after_report [OF demo_facts(3) demo_arrived] by blast

end
