(* ===== verification/Session_States.thy ===== *)
theory Session_States
  imports Session_Handshake
begin

text \<open>
  The states of a slot as a step relation: every handler moves along it, so that a connection only ever advances, and an application that decides
  about sessions is asked before a connection is reported.
\<close>

section \<open>The state machine\<close>

inductive advances :: "ConnectMode \<Rightarrow> ConnectMode \<Rightarrow> bool" where
  requested: "m = UNVERIFIED_SENDER \<or> m = REQUESTED_CONNECTION \<Longrightarrow> advances m HANDLING_CONNECTION_REQUEST"
| transport: "m = HANDLING_CONNECTION_REQUEST \<or> m = REQUESTED_CONNECTION \<Longrightarrow> advances m EXCHANGING_SESSION_DATA"
| session: "advances EXCHANGING_SESSION_DATA CONNECTED"
| leave: "m' \<in> {DISCONNECT_ASAP, DISCONNECT_ASAP_SILENTLY, DISCONNECT_ON_NO_ACK} \<Longrightarrow> advances m m'"

inductive_simps advances_simps: "advances m m'"

text \<open>How far a state is from the beginning of a connection.\<close>

fun rank :: "ConnectMode \<Rightarrow> nat" where
  "rank UNVERIFIED_SENDER = 0"
| "rank REQUESTED_CONNECTION = 0"
| "rank HANDLING_CONNECTION_REQUEST = 1"
| "rank EXCHANGING_SESSION_DATA = 2"
| "rank CONNECTED = 3"
| "rank _ = 4"

lemma advances_rank: "advances m m' \<Longrightarrow> rank m < rank m' \<or> rank m' = 4"
  by (induction rule: advances.induct) auto

lemma reachable_rank: "advances\<^sup>*\<^sup>* m m' \<Longrightarrow> m' = m \<or> (rank m < rank m' \<or> rank m' = 4) \<and> m' \<noteq> NO_ACTION"
proof (induction rule: rtranclp_induct)
  case (step y z)
  then show ?case using advances_rank [of y z] by (cases z; auto simp: advances_simps)
qed simp

definition moves :: "RemoteSystem \<Rightarrow> RemoteSystem \<Rightarrow> bool" where
  "moves rs rs' \<longleftrightarrow> advances\<^sup>*\<^sup>* (connectMode rs) (connectMode rs') \<and> systemAddress rs' = systemAddress rs \<and>
    weInitiatedTheConnection rs' = weInitiatedTheConnection rs \<and> (isActive rs' \<longrightarrow> isActive rs)"

lemma moves_refl [simp]: "moves rs rs"
  by (simp add: moves_def)

lemma moves_trans: "moves a b \<Longrightarrow> moves b c \<Longrightarrow> moves a c"
  unfolding moves_def by auto

lemma moves_one:
  assumes "connectMode rs' = connectMode rs \<or> advances (connectMode rs) (connectMode rs')" "systemAddress rs' = systemAddress rs"
    and "weInitiatedTheConnection rs' = weInitiatedTheConnection rs" "isActive rs' \<longrightarrow> isActive rs"
  shows "moves rs rs'"
  using assms unfolding moves_def by auto

text \<open>What every step keeps of the peer and the slot, and what holds of the effects of every step, holds of a run.\<close>

lemma run_steps_invariant:
  assumes "\<And>ev rp rs rp' rs' effs. ev \<in> set evs \<Longrightarrow> J rp rs \<Longrightarrow> isActive rs \<Longrightarrow> step ev rp rs = (rp', rs', effs) \<Longrightarrow> J rp' rs' \<and> Q effs"
    and "Q []" "\<And>a b. Q a \<Longrightarrow> Q b \<Longrightarrow> Q (a @ b)" "J rp rs" "run_steps step evs rp rs = (rp', rs', effs)"
  shows "J rp' rs' \<and> Q effs"
  using assms(1,4,5)
proof (induction evs arbitrary: rp rs effs)
  case (Cons ev evs)
  show ?case
  proof (cases "isActive rs")
    case True
    obtain rp1 rs1 effs1 where s: "step ev rp rs = (rp1, rs1, effs1)" by (metis prod_cases3)
    obtain rp2 rs2 effs2 where r: "run_steps step evs rp1 rs1 = (rp2, rs2, effs2)" by (metis prod_cases3)
    have res: "rp' = rp2" "rs' = rs2" "effs = effs1 @ effs2" using Cons.prems(3) True s r by simp_all
    have 1: "J rp1 rs1 \<and> Q effs1" using Cons.prems(1) [OF _ Cons.prems(2) True s] by simp
    have "J rp' rs' \<and> Q effs2"
    proof (rule Cons.IH [OF _ _ r [folded res]])
      show "J rpb rsb \<and> Q effsb" if "ev' \<in> set evs" "J rpa rsa" "isActive rsa" "step ev' rpa rsa = (rpb, rsb, effsb)" for ev' rpa rsa rpb rsb effsb
        using Cons.prems(1) [OF _ that(2-4)] that(1) by simp
    qed (use 1 in simp)
    then show ?thesis using 1 res(3) assms(3) by simp
  qed (use Cons.prems assms(2) in simp)
qed (use assms(2) in simp)

lemma run_steps_moves:
  assumes "\<And>ev rp rs rp' rs' effs. ev \<in> set evs \<Longrightarrow> I rp \<Longrightarrow> isActive rs \<Longrightarrow> step ev rp rs = (rp', rs', effs) \<Longrightarrow> I rp' \<and> moves rs rs'"
    and "I rp" "run_steps step evs rp rs = (rp', rs', effs)"
  shows "I rp' \<and> moves rs rs'"
  using run_steps_invariant [where J = "\<lambda>rpa rsa. I rpa \<and> moves rs rsa" and Q = "\<lambda>_. True", OF _ _ _ _ assms(3)] assms(1,2)
  by (metis moves_refl moves_trans)

section \<open>Every handler moves along it\<close>

lemmas slot_updates = ClearSessionConfig_def ClearDisconnectReason_def close_slot_def

lemma close_slot_moves [simp]: "moves rs (close_slot rs)"
  by (rule moves_one) (simp_all add: slot_updates)

lemma ProduceWithheld_moves:
  "ProduceWithheldConnectionPacket i rs = (rs', effs) \<Longrightarrow> connectMode rs' = connectMode rs \<and> systemAddress rs' = systemAddress rs \<and>
    weInitiatedTheConnection rs' = weInitiatedTheConnection rs \<and> isActive rs' = isActive rs"
  by (auto simp: ProduceWithheldConnectionPacket_def split: option.splits if_splits)

lemma SendSessionConfigResponse_moves:
  "SendSessionConfigResponse e d rs = (rs', effs) \<Longrightarrow> connectMode rs' = CONNECTED \<and> systemAddress rs' = systemAddress rs \<and>
    weInitiatedTheConnection rs' = weInitiatedTheConnection rs \<and> isActive rs' = isActive rs"
  by (auto simp: SendSessionConfigResponse_def dest: ProduceWithheld_moves split: prod.splits)

lemma Store_fields:
  "StoreRemoteSessionConfig e d rs = (stored, rs1) \<Longrightarrow> systemAddress rs1 = systemAddress rs \<and> connectMode rs1 = connectMode rs \<and>
    weInitiatedTheConnection rs1 = weInitiatedTheConnection rs \<and> isActive rs1 = isActive rs"
  by (auto simp: StoreRemoteSessionConfig_def Let_def split: if_splits)

lemma ParseConnectionRequestPacket_moves:
  assumes "ParseConnectionRequestPacket e rp d rs = (rs', effs)" "connectMode rs = UNVERIFIED_SENDER \<or> connectMode rs = REQUESTED_CONNECTION"
  shows "moves rs rs'"
  using assms by (intro moves_one) (auto simp: ParseConnectionRequestPacket_def advances_simps Let_def split: prod.splits if_splits)

lemma handshake_handlers_move:
  "on_session_config_request e rp d rs = (rp', rs', effs) \<Longrightarrow> moves rs rs'"
  "on_session_config e rp d rs = (rp', rs', effs) \<Longrightarrow> moves rs rs'"
  "on_session_config_status e rp d rs = (rp', rs', effs) \<Longrightarrow> moves rs rs'"
  "on_session_config_rejected rp d rs = (rp', rs', effs) \<Longrightarrow> moves rs rs'"
  "on_invalid_password rp d rs = (rp', rs', effs) \<Longrightarrow> moves rs rs'"
proof -
  assume a: "on_session_config_request e rp d rs = (rp', rs', effs)"
  obtain stored rs1 where st: "StoreRemoteSessionConfig e (drop 1 d) rs = (stored, rs1)" by fastforce
  show "moves rs rs'" using a st Store_fields [OF st]
    by (auto simp: on_session_config_request_def advances_simps dest!: SendSessionConfigResponse_moves intro!: moves_one
        split: if_splits prod.splits)
next
  assume a: "on_session_config e rp d rs = (rp', rs', effs)"
  obtain stored rs1 where st: "StoreRemoteSessionConfig e (drop 1 d) rs = (stored, rs1)" by fastforce
  show "moves rs rs'" using a st Store_fields [OF st]
    by (auto simp: on_session_config_def advances_simps dest!: ProduceWithheld_moves intro!: moves_one split: if_splits prod.splits)
qed (auto simp: on_session_config_status_def on_session_config_rejected_def on_invalid_password_def advances_simps intro!: moves_one split: if_splits)

lemma on_connection_request_moves: "on_connection_request e rp d rs = (rp', rs', effs) \<Longrightarrow> moves rs rs'"
  by (auto simp: on_connection_request_def dest: ParseConnectionRequestPacket_moves split: if_splits prod.splits)

lemma transport_handlers_move:
  "on_new_incoming_connection e rp d rs = (rp', rs', effs) \<Longrightarrow> moves rs rs'"
  "\<not> allowConnectionResponseIPMigration rp \<Longrightarrow> on_request_accepted e rp d rs = (rp', rs', effs) \<Longrightarrow> moves rs rs'"
  "on_connected_pong e rp d rs = (rp', rs', effs) \<Longrightarrow> moves rs rs'"
  "on_connected_ping e rp d rs = (rp', rs', effs) \<Longrightarrow> moves rs rs'"
  "on_disconnection_notification e rp d rs = (rp', rs', effs) \<Longrightarrow> moves rs rs'"
  "on_user_message e rp d rs = (rp', rs', effs) \<Longrightarrow> moves rs rs'"
  by (auto simp: on_new_incoming_connection_def on_request_accepted_def on_connected_pong_def on_connected_ping_def
      on_disconnection_notification_def on_user_message_def Let_def slot_updates advances_simps intro!: moves_one split: if_splits prod.splits)

lemma handle_message_moves:
  assumes "\<not> allowConnectionResponseIPMigration rp" "handle_message e rp d rs = (rp', rs', effs)"
  shows "\<not> allowConnectionResponseIPMigration rp' \<and> moves rs rs'"
proof
  show "moves rs rs'"
    using assms handshake_handlers_move transport_handlers_move on_connection_request_moves ParseConnectionRequestPacket_moves
    unfolding handle_message_def unverified_message_def Let_def
    by (auto split: if_splits prod.splits)
  have "allowConnectionResponseIPMigration rp' = allowConnectionResponseIPMigration rp"
    using assms(2) unfolding handle_message_def unverified_message_def Let_def
      on_new_incoming_connection_def on_request_accepted_def on_connected_pong_def on_connected_ping_def
      on_disconnection_notification_def on_user_message_def on_connection_request_def on_session_config_request_def on_session_config_def
      on_session_config_status_def on_session_config_rejected_def on_invalid_password_def
    by (auto split: if_splits prod.splits)
  then show "\<not> allowConnectionResponseIPMigration rp'" using assms(1) by simp
qed

lemma session_step_moves:
  assumes "\<not> allowConnectionResponseIPMigration rp" "isActive rs" "session_step ev rp rs = (rp', rs', effs)"
  shows "\<not> allowConnectionResponseIPMigration rp' \<and> moves rs rs'"
proof -
  obtain e ev' where ev: "ev = (e, ev')" by fastforce
  show ?thesis
  proof (cases ev')
    case (Update ls ready)
    have r: "\<not> allowConnectionResponseIPMigration rp1 \<and> moves rs rs1" if "receive_loop e ready rp rs = (rp1, rs1, effs1)" for rp1 rs1 effs1
      using run_steps_moves [where I = "\<lambda>rp. \<not> allowConnectionResponseIPMigration rp", OF _ assms(1) that [unfolded receive_loop_run]]
        handle_message_moves by blast
    have a: "moves rs (close_slot rs1)" if "ProduceSessionAbandoned rs = (rs1, effs1)" for rs1 effs1
      using that by (auto simp: ProduceSessionAbandoned_def slot_updates intro!: moves_one split: if_splits)
    show ?thesis using assms ev Update r a by (auto simp: update_remote_system_def split: if_splits prod.splits)
  next
    case (Decide accept mayAccept d)
    then have "session_decision e accept mayAccept d rs = (rs', effs)" "rp' = rp" using assms ev by simp_all
    then have "moves rs rs'"
      by (auto simp: session_decision_def SendSessionConfigRejection_def Let_def advances_simps dest!: SendSessionConfigResponse_moves
          intro!: moves_one split: if_splits)
    then show ?thesis using assms(1) \<open>rp' = rp\<close> by simp
  next
    case (AppSend d r disconnect)
    then show ?thesis using assms ev by (auto simp: buffered_send_def advances_simps intro!: moves_one split: if_splits)
  qed (use assms ev in \<open>auto simp: session_status_def slot_updates intro!: moves_one split: if_splits\<close>)
qed

text \<open>
  Property C9: with \<^verbatim>\<open>AllowConnectionResponseIPMigration\<close> off, as it is by default, the state of a slot only advances: from the request over the transport and the session handshake to the
  connection, and from any of these to its end.  In particular a connection that was established is never handled as one in the making again, whatever
  arrives.  With the option on an established connection takes \<^verbatim>\<open>ID_CONNECTION_REQUEST_ACCEPTED\<close> and goes back to the session handshake.
\<close>

theorem session_states_advance:
  assumes "\<not> allowConnectionResponseIPMigration rp" "run_steps session_step evs rp rs = (rp', rs', effs)"
  shows "advances\<^sup>*\<^sup>* (connectMode rs) (connectMode rs') \<and>
    (connectMode rs = CONNECTED \<longrightarrow> connectMode rs' \<in> {CONNECTED, DISCONNECT_ASAP, DISCONNECT_ASAP_SILENTLY, DISCONNECT_ON_NO_ACK})"
proof -
  have "moves rs rs'"
    using run_steps_moves [where I = "\<lambda>rp. \<not> allowConnectionResponseIPMigration rp", OF _ assms] session_step_moves by blast
  then have a: "advances\<^sup>*\<^sup>* (connectMode rs) (connectMode rs')" by (simp add: moves_def)
  then show ?thesis using reachable_rank [OF a] by (cases "connectMode rs'") auto
qed

theorem session_states_advance_witness:
  "\<exists>rp' rs' effs. run_steps session_step demo_events demo_peer (assign_slot peer_env \<lparr>s_addr = 9, sin_port = 1\<rparr> UNVERIFIED_SENDER demo_slot) =
    (rp', rs', effs) \<and> advances\<^sup>*\<^sup>* UNVERIFIED_SENDER (connectMode rs')"
proof -
  let ?ss = "assign_slot peer_env \<lparr>s_addr = 9, sin_port = 1\<rparr> UNVERIFIED_SENDER demo_slot"
  have "connectMode ?ss = UNVERIFIED_SENDER" by (simp add: assign_slot_def)
  then show ?thesis using demo_session_run session_states_advance [OF demo_facts(3), of demo_events ?ss] by metis
qed

section \<open>The decision of the application\<close>

text \<open>A server whose application decides, and a slot that is not the connecting side.\<close>

definition deciding :: "RakPeer \<Rightarrow> RemoteSystem \<Rightarrow> bool" where
  "deciding rp rs \<longleftrightarrow> sessionConfigInteractive rp \<and> \<not> sessionConfigIsConnectingSide rs"

lemma learn_external_interactive [simp]: "sessionConfigInteractive (learn_external a rp) = sessionConfigInteractive rp"
  by (simp add: learn_external_def)

lemma Parse_unreported:
  assumes "ParseConnectionRequestPacket e rp d rs = (rs', effs)"
  shows "sessionConfigIsConnectingSide rs' = sessionConfigIsConnectingSide rs \<and> reports effs = 0"
  using assms by (auto simp: ParseConnectionRequestPacket_def invalid_password_def OnConnectionRequest_def Let_def split: prod.splits if_splits)

definition silent :: "result \<Rightarrow> bool" where
  "silent r \<longleftrightarrow> (case r of (rp, rs, effs) \<Rightarrow> deciding rp rs \<and> reports effs = 0)"

lemma session_messages_unreported:
  assumes "deciding rp rs"
  shows "hd d = ID_SESSION_CONFIG_REQUEST \<Longrightarrow> silent (on_session_config_request e rp d rs)"
    and "silent (on_session_config e rp d rs)"
    and "silent (on_session_config_status e rp d rs)"
    and "silent (on_session_config_rejected rp d rs)"
    and "hd d = ID_INVALID_PASSWORD \<Longrightarrow> silent (on_invalid_password rp d rs)"
  using assms
  by (auto simp: silent_def deciding_def on_session_config_request_def StoreRemoteSessionConfig_def on_session_config_def on_session_config_status_def
      on_session_config_rejected_def on_invalid_password_def Let_def split: if_splits prod.splits)

lemma transport_messages_unreported:
  assumes "deciding rp rs"
  shows "silent (on_new_incoming_connection e rp d rs)"
    and "silent (on_connected_pong e rp d rs)"
    and "silent (on_connected_ping e rp d rs)"
    and "silent (on_disconnection_notification e rp d rs)"
    and "silent (on_user_message e rp d rs)"
    and "silent (on_connection_request e rp d rs)"
    and "silent (unverified_message e rp d rs)"
  using assms
  by (auto simp: silent_def deciding_def on_new_incoming_connection_def on_connected_pong_def on_connected_ping_def on_disconnection_notification_def
      on_user_message_def on_connection_request_def connection_request_again_def OnConnectionRequest_def unverified_message_def slot_updates
      PingInternal_def message_ids ID_SND_RECEIPT_ACKED_def ID_SND_RECEIPT_LOSS_def Let_def dest: Parse_unreported split: if_splits prod.splits)

lemma handle_message_unreported:
  assumes "deciding rp rs" "hd d \<noteq> ID_CONNECTION_REQUEST_ACCEPTED"
  shows "silent (handle_message e rp d rs)"
proof -
  have "silent (rp, rs, [])" using assms(1) by (simp add: silent_def)
  then show ?thesis using assms(2) unfolding handle_message_def Let_def
    by (simp add: session_messages_unreported [OF assms(1)] transport_messages_unreported [OF assms(1)])
qed

lemma session_step_unreported:
  assumes "deciding rp rs" "\<forall>d \<in> set (messages ev). hd d \<noteq> ID_CONNECTION_REQUEST_ACCEPTED" "\<And>e data. ev \<noteq> (e, Decide True True data)"
    and "session_step ev rp rs = (rp', rs', effs)"
  shows "deciding rp' rs' \<and> reports effs = 0"
proof -
  obtain e ev' where ev: "ev = (e, ev')" by fastforce
  show ?thesis
  proof (cases ev')
    case (Update ls ready)
    have r: "deciding rp1 rs1 \<and> reports effs1 = 0" if "receive_loop e ready rp rs = (rp1, rs1, effs1)" for rp1 rs1 effs1
    proof (rule run_steps_invariant [where J = deciding and Q = "\<lambda>effs. reports effs = 0", OF _ _ _ assms(1) that [unfolded receive_loop_run]])
      show "deciding rpb rsb \<and> reports effsb = 0"
        if "d \<in> set ready" "deciding rpa rsa" "handle_message e rpa d rsa = (rpb, rsb, effsb)" for d rpa rsa rpb rsb effsb
        using handle_message_unreported [OF that(2), of d e] that(1,3) assms(2) ev Update by (simp add: silent_def)
    qed simp_all
    show ?thesis using assms(1,4) ev Update r
      by (auto simp: update_remote_system_def close_notification_counts slot_updates deciding_def
          dest: ProduceSessionAbandoned_counts split: if_splits prod.splits)
  next
    case (Decide accept mayAccept d)
    then show ?thesis using assms ev
      by (auto simp: session_decision_def SendSessionConfigRejection_def deciding_def Let_def split: if_splits)
  qed (use assms ev in \<open>auto simp: session_status_def buffered_send_def slot_updates deciding_def split: if_splits\<close>)
qed

text \<open>
  Property C10: a server whose application decides about sessions reports no connection the application has not accepted, as long as no remote sends
  the acceptance of a connection request.
\<close>

theorem application_decides:
  assumes "sessionConfigInteractive rp" "\<forall>d \<in> set (arrived evs). hd d \<noteq> ID_CONNECTION_REQUEST_ACCEPTED"
    and "\<forall>(e, ev) \<in> set evs. \<forall>data. ev \<noteq> Decide True True data"
    and "run_steps session_step evs rp (assign_slot e sa UNVERIFIED_SENDER rs0) = (rp', rs', effs)"
  shows "reports effs = 0"
proof -
  let ?rs = "assign_slot e sa UNVERIFIED_SENDER rs0"
  have "deciding rp ?rs" using assms(1) by (simp add: deciding_def assign_slot_def slot_updates)
  moreover have "deciding rp1 rs1 \<and> reports effs1 = 0"
    if "ev \<in> set evs" "deciding rp0 rsa" "session_step ev rp0 rsa = (rp1, rs1, effs1)" for ev rp0 rsa rp1 rs1 effs1
    by (rule session_step_unreported [OF that(2) _ _ that(3)]) (use that(1) assms(2,3) in \<open>auto simp: arrived_def\<close>)
  ultimately show ?thesis
    using run_steps_invariant [where J = deciding and Q = "\<lambda>effs. reports effs = 0", OF _ _ _ _ assms(4)] by simp
qed

theorem application_decides_witness:
  "\<exists>rp' rs' effs. run_steps session_step [(peer_env, Update quiet [connection_request 5 6 []]), (peer_env, Decide False True [3])] demo_peer
    (assign_slot peer_env \<lparr>s_addr = 9, sin_port = 1\<rparr> UNVERIFIED_SENDER demo_slot) = (rp', rs', effs) \<and> reports effs = 0"
proof -
  let ?evs = "[(peer_env, Update quiet [connection_request 5 6 []]), (peer_env, Decide False True [3])]"
  have h: "hd (connection_request 5 6 []) \<noteq> ID_CONNECTION_REQUEST_ACCEPTED" by (simp add: connection_request_def message_ids)
  obtain rp' rs' effs where r: "run_steps session_step ?evs demo_peer
      (assign_slot peer_env \<lparr>s_addr = 9, sin_port = 1\<rparr> UNVERIFIED_SENDER demo_slot) = (rp', rs', effs)" by (metis prod_cases3)
  have "reports effs = 0" by (rule application_decides [OF demo_facts(4) _ _ r]) (use h in \<open>auto simp: arrived_def\<close>)
  then show ?thesis using r by blast
qed

end
