(* ===== verification/Session_Admission.thy ===== *)
theory Session_Admission
  imports Session_States
begin

text \<open>
  Which peers may start connecting and which may be accepted (\<^verbatim>\<open>session_admission.h\<close>, \<^verbatim>\<open>RakPeer::CountRemoteInitiatedPeers\<close>,
  \<^verbatim>\<open>RakPeer::AllowIncomingConnection\<close>), over all slots of a peer.
\<close>

section \<open>The rules\<close>

record Limits =
  maxIncoming :: nat
  maxPending :: nat
  maxPendingPerAddress :: nat

record Counts =
  c_connected :: nat
  c_exchanging :: nat
  c_pending :: nat
  c_pendingFromAddress :: nat

definition UsesPendingPool :: "Limits \<Rightarrow> bool" where
  "UsesPendingPool limits \<longleftrightarrow> maxPending limits \<noteq> 0"

definition MayStartConnecting :: "Limits \<Rightarrow> Counts \<Rightarrow> bool" where
  "MayStartConnecting limits counts =
    (if \<not> UsesPendingPool limits then c_connected counts + c_exchanging counts < maxIncoming limits
     else if c_pending counts \<ge> maxPending limits then False
     else maxPendingPerAddress limits = 0 \<or> c_pendingFromAddress counts < maxPendingPerAddress limits)"

definition MayAccept :: "Limits \<Rightarrow> Counts \<Rightarrow> bool" where
  "MayAccept limits counts \<longleftrightarrow> \<not> UsesPendingPool limits \<or> c_connected counts < maxIncoming limits"

text \<open>One system of the loop; a peer in the handshake is exchanging and pending.\<close>

definition count_system :: "SystemAddress \<Rightarrow> RemoteSystem \<Rightarrow> Counts \<Rightarrow> Counts" where
  "count_system address system c =
    (if \<not> isActive system \<or> weInitiatedTheConnection system then c
     else let pend = (\<lambda>c. c\<lparr>c_pending := c_pending c + 1,
                c_pendingFromAddress := c_pendingFromAddress c +
                  (if address \<noteq> UNASSIGNED_SYSTEM_ADDRESS \<and> EqualsExcludingPort (systemAddress system) address then 1 else 0)\<rparr>)
          in case connectMode system of
               CONNECTED \<Rightarrow> c\<lparr>c_connected := c_connected c + 1\<rparr>
             | EXCHANGING_SESSION_DATA \<Rightarrow> pend (c\<lparr>c_exchanging := c_exchanging c + 1\<rparr>)
             | UNVERIFIED_SENDER \<Rightarrow> pend c
             | HANDLING_CONNECTION_REQUEST \<Rightarrow> pend c
             | _ \<Rightarrow> c)"

definition CountRemoteInitiatedPeers :: "SystemAddress \<Rightarrow> RemoteSystem list \<Rightarrow> Counts" where
  "CountRemoteInitiatedPeers address systems =
    fold (count_system address) systems \<lparr>c_connected = 0, c_exchanging = 0, c_pending = 0, c_pendingFromAddress = 0\<rparr>"

definition AllowIncomingConnection :: "Limits \<Rightarrow> SystemAddress \<Rightarrow> RemoteSystem list \<Rightarrow> bool" where
  "AllowIncomingConnection limits address systems = MayStartConnecting limits (CountRemoteInitiatedPeers address systems)"

text \<open>The number of players of the application.\<close>

definition GetNumberOfRemoteInitiatedConnections :: "RemoteSystem list \<Rightarrow> nat" where
  "GetNumberOfRemoteInitiatedConnections systems =
    length (filter (\<lambda>s. isActive s \<and> connectMode s = CONNECTED \<and> \<not> weInitiatedTheConnection s) systems)"

section \<open>The counts\<close>

definition pending :: "RemoteSystem \<Rightarrow> bool" where
  "pending s \<longleftrightarrow> isActive s \<and> \<not> weInitiatedTheConnection s \<and>
    connectMode s \<in> {EXCHANGING_SESSION_DATA, UNVERIFIED_SENDER, HANDLING_CONNECTION_REQUEST}"

definition pending_from :: "SystemAddress \<Rightarrow> RemoteSystem \<Rightarrow> bool" where
  "pending_from a s \<longleftrightarrow> pending s \<and> a \<noteq> UNASSIGNED_SYSTEM_ADDRESS \<and> EqualsExcludingPort (systemAddress s) a"

lemma count_system_eq:
  "count_system a s c =
    \<lparr>c_connected = c_connected c + (if isActive s \<and> connectMode s = CONNECTED \<and> \<not> weInitiatedTheConnection s then 1 else 0),
     c_exchanging = c_exchanging c + (if isActive s \<and> \<not> weInitiatedTheConnection s \<and> connectMode s = EXCHANGING_SESSION_DATA then 1 else 0),
     c_pending = c_pending c + (if pending s then 1 else 0), c_pendingFromAddress = c_pendingFromAddress c + (if pending_from a s then 1 else 0)\<rparr>"
proof (cases "isActive s \<and> \<not> weInitiatedTheConnection s")
  case True
  then show ?thesis by (cases "connectMode s") (simp_all add: count_system_def pending_from_def pending_def Let_def)
qed (auto simp: count_system_def pending_from_def pending_def)

lemma fold_count_system:
  "fold (count_system a) ss c =
    \<lparr>c_connected = c_connected c + GetNumberOfRemoteInitiatedConnections ss,
     c_exchanging = c_exchanging c + length (filter (\<lambda>s. isActive s \<and> \<not> weInitiatedTheConnection s \<and> connectMode s = EXCHANGING_SESSION_DATA) ss),
     c_pending = c_pending c + length (filter pending ss), c_pendingFromAddress = c_pendingFromAddress c + length (filter (pending_from a) ss)\<rparr>"
proof (induction ss arbitrary: c)
  case (Cons s ss)
  show ?case unfolding fold_simps(2) Cons.IH by (simp add: count_system_eq GetNumberOfRemoteInitiatedConnections_def)
qed (simp add: GetNumberOfRemoteInitiatedConnections_def)

lemma counts [simp]:
  "c_connected (CountRemoteInitiatedPeers a ss) = GetNumberOfRemoteInitiatedConnections ss"
  "c_exchanging (CountRemoteInitiatedPeers a ss) =
    length (filter (\<lambda>s. isActive s \<and> \<not> weInitiatedTheConnection s \<and> connectMode s = EXCHANGING_SESSION_DATA) ss)"
  "c_pending (CountRemoteInitiatedPeers a ss) = length (filter pending ss)"
  "c_pendingFromAddress (CountRemoteInitiatedPeers a ss) = length (filter (pending_from a) ss)"
  by (simp_all add: CountRemoteInitiatedPeers_def fold_count_system)

section \<open>All slots of a peer\<close>

text \<open>
  A request to connect from an address, for slot \<open>i\<close> if it is free; a connection of our own; an event of slot \<open>i\<close>, where an acceptance is judged
  by the counts at that moment.
\<close>

datatype PeerEvent = Arrives Env SystemAddress nat | Connects Env SystemAddress bytes nat | At nat Env SessionEvent

fun judged :: "Limits \<Rightarrow> RemoteSystem list \<Rightarrow> SessionEvent \<Rightarrow> SessionEvent" where
  "judged limits ss (Decide accept mayAccept data) = Decide accept (MayAccept limits (CountRemoteInitiatedPeers UNASSIGNED_SYSTEM_ADDRESS ss)) data"
| "judged limits ss ev = ev"

fun peer_step :: "Limits \<Rightarrow> PeerEvent \<Rightarrow> RakPeer \<times> RemoteSystem list \<Rightarrow> RakPeer \<times> RemoteSystem list" where
  "peer_step limits (Arrives e a i) (rp, ss) =
    (rp, if i < length ss \<and> \<not> isActive (ss ! i) \<and> a \<noteq> UNASSIGNED_SYSTEM_ADDRESS \<and> AllowIncomingConnection limits a ss
         then ss[i := assign_slot e a UNVERIFIED_SENDER (ss ! i)] else ss)"
| "peer_step limits (Connects e a pw i) (rp, ss) =
    (rp, if i < length ss \<and> \<not> isActive (ss ! i) then ss[i := fst (request_connection e rp a pw (ss ! i))] else ss)"
| "peer_step limits (At i e ev) (rp, ss) =
    (if i < length ss \<and> isActive (ss ! i)
     then let (rp', rs', effs) = session_step (e, judged limits ss ev) rp (ss ! i) in (rp', ss[i := rs'])
     else (rp, ss))"

definition peer_run :: "Limits \<Rightarrow> PeerEvent list \<Rightarrow> RakPeer \<times> RemoteSystem list \<Rightarrow> RakPeer \<times> RemoteSystem list" where
  "peer_run limits evs = fold (peer_step limits) evs"

section \<open>The pool of pending sessions\<close>









lemma EqualsExcludingPort_trans: "EqualsExcludingPort a b \<Longrightarrow> EqualsExcludingPort a c \<Longrightarrow> EqualsExcludingPort b c"
  by (simp add: EqualsExcludingPort_def)








section \<open>The limit without a pool\<close>

text \<open>A client that follows the handshake, against a server that answers by itself.\<close>

definition client_messages :: "bytes list" where
  "client_messages =
    [connection_request 5 6 [], new_incoming_connection \<lparr>s_addr = 7, sin_port = 1\<rparr> (replicate 10 UNASSIGNED_SYSTEM_ADDRESS) 7 8, [ID_SESSION_CONFIG_REQUEST]]"

definition open_peer :: RakPeer where
  "open_peer = demo_peer\<lparr>sessionConfigInteractive := False\<rparr>"

lemma client_connects:
  assumes "connectMode ss = UNVERIFIED_SENDER" "isActive ss" "sized rp ss" "memory_suffices e" "incomingPassword rp = []" "\<not> sessionConfigInteractive rp"
  shows "\<exists>rp' ss' effs. receive_loop e client_messages rp ss = (rp', ss', effs) \<and> isActive ss' \<and> connectMode ss' = CONNECTED \<and>
    weInitiatedTheConnection ss' = weInitiatedTheConnection ss \<and> (\<exists>a. rp' = learn_external a rp)"
proof -
  let ?ss1 = "ss\<lparr>connectMode := HANDLING_CONNECTION_REQUEST\<rparr>"
  define nic where "nic = new_incoming_connection \<lparr>s_addr = 7, sin_port = 1\<rparr> (replicate 10 UNASSIGNED_SYSTEM_ADDRESS) 7 8"
  obtain acc where h1: "handle_message e rp (connection_request 5 6 []) ss = (rp, ?ss1, [Send acc ReliableOrdered])"
    using connection_request_handled [OF assms(1,2), of e rp 5 6] assms(5) by auto
  have "sized rp ?ss1" "length (replicate 10 UNASSIGNED_SYSTEM_ADDRESS) = MAXIMUM_NUMBER_OF_INTERNAL_IDS"
    using assms(3) by (simp_all add: sized_def MAXIMUM_NUMBER_OF_INTERNAL_IDS_def)
  then obtain rp2 ss2 effs2 where h2: "handle_message e rp nic ?ss1 = (rp2, ss2, effs2)"
    and s2: "connectMode ss2 = EXCHANGING_SESSION_DATA" "\<not> sessionConfigAwaitingLocalDecision ss2" "withheldConnectionPacketData ss2 = Some nic"
      "isActive ss2" "weInitiatedTheConnection ss2 = weInitiatedTheConnection ss" "rp2 = learn_external \<lparr>s_addr = 7, sin_port = 1\<rparr> rp"
    using new_incoming_connection_handled [OF _ _ assms(4) _ nic_def, of ?ss1 rp] assms(2) by simp
  have ne: "nic \<noteq> []" "\<not> sessionConfigInteractive rp2" using s2(6) assms(6) by (simp_all add: nic_def)
  show ?thesis
    using h1 h2 s2 ne assms(2) session_config_request_handled [OF s2(1-3) ne(1) _ assms(4), of "[]" rp2]
    unfolding client_messages_def nic_def [symmetric] by auto
qed

lemma client_update:
  assumes "ss = assign_slot peer_env a UNVERIFIED_SENDER demo_slot" "rp = open_peer \<or> (\<exists>b. rp = learn_external b open_peer)"
  shows "\<exists>rp' ss' effs. session_step (peer_env, Update quiet client_messages) rp ss = (rp', ss', effs) \<and> isActive ss' \<and> connectMode ss' = CONNECTED \<and>
    \<not> weInitiatedTheConnection ss' \<and> (\<exists>b. rp' = learn_external b open_peer)"
proof -
  have ss: "isActive ss" "connectMode ss = UNVERIFIED_SENDER" "connectionTime ss = 5000" "\<not> weInitiatedTheConnection ss" "sized rp ss"
    "\<not> sessionConfigInteractive rp" "incomingPassword rp = []"
    using assms demo_facts(1) by (auto simp: assign_slot_def peer_env_def slot_updates sized_def open_peer_def learn_external_def split: if_splits)
  have "\<not> connection_failed peer_env quiet ss" "\<not> session_timed_out peer_env rp ss"
    using ss by (simp_all add: connection_failed_def session_timed_out_def quiet_def) (simp add: peer_env_def)
  moreover have "\<exists>c. learn_external b rp = learn_external c open_peer" for b
    using assms(2) by (auto simp: learn_external_def split: if_splits)
  ultimately show ?thesis using client_connects [OF ss(2,1,5) demo_facts(2) ss(7,6)] ss(1,4)
    by (auto simp: update_remote_system_def simp del: receive_loop.simps)
qed

text \<open>
  Property C36: without a pool the limit on incoming connections can be exceeded: peers that have asked for a connection but are not exchanging
  session data yet are not counted, so that of two peers asking at the same time both are let in and connected although one connection is allowed.
\<close>

theorem incoming_limit_exceeded:
  "GetNumberOfRemoteInitiatedConnections (snd (peer_run \<lparr>maxIncoming = 1, maxPending = 0, maxPendingPerAddress = 0\<rparr>
    [Arrives peer_env \<lparr>s_addr = 9, sin_port = 1\<rparr> 0, Arrives peer_env \<lparr>s_addr = 8, sin_port = 1\<rparr> 1,
     At 0 peer_env (Update quiet client_messages), At 1 peer_env (Update quiet client_messages)] (open_peer, [demo_slot, demo_slot]))) = 2"
proof -
  let ?s0 = "assign_slot peer_env \<lparr>s_addr = 9, sin_port = 1\<rparr> UNVERIFIED_SENDER demo_slot"
  let ?s1 = "assign_slot peer_env \<lparr>s_addr = 8, sin_port = 1\<rparr> UNVERIFIED_SENDER demo_slot"
  let ?l = "\<lparr>maxIncoming = 1, maxPending = 0, maxPendingPerAddress = 0\<rparr>"
  have ina: "\<not> isActive demo_slot" by (simp add: demo_slot_def)
  have act: "isActive ?s0" "connectMode ?s0 = UNVERIFIED_SENDER" "isActive ?s1" by (simp_all add: assign_slot_def)
  have 1: "peer_step ?l (Arrives peer_env \<lparr>s_addr = 9, sin_port = 1\<rparr> 0) (open_peer, [demo_slot, demo_slot]) = (open_peer, [?s0, demo_slot])"
    using ina by (simp add: AllowIncomingConnection_def MayStartConnecting_def UsesPendingPool_def GetNumberOfRemoteInitiatedConnections_def
        UNASSIGNED_SYSTEM_ADDRESS_def)
  have 2: "peer_step ?l (Arrives peer_env \<lparr>s_addr = 8, sin_port = 1\<rparr> 1) (open_peer, [?s0, demo_slot]) = (open_peer, [?s0, ?s1])"
    using ina act by (simp add: AllowIncomingConnection_def MayStartConnecting_def UsesPendingPool_def GetNumberOfRemoteInitiatedConnections_def
        UNASSIGNED_SYSTEM_ADDRESS_def)
  obtain rp3 s3 effs3 where 3: "session_step (peer_env, Update quiet client_messages) open_peer ?s0 = (rp3, s3, effs3)" "isActive s3"
      "connectMode s3 = CONNECTED" "\<not> weInitiatedTheConnection s3" "\<exists>b. rp3 = learn_external b open_peer"
    using client_update [OF refl, of open_peer] by blast
  obtain rp4 s4 effs4 where 4: "session_step (peer_env, Update quiet client_messages) rp3 ?s1 = (rp4, s4, effs4)" "isActive s4"
      "connectMode s4 = CONNECTED" "\<not> weInitiatedTheConnection s4"
    using client_update [OF refl, of rp3] 3(5) by blast
  show ?thesis using 1 2 3 4 act
    by (simp add: peer_run_def GetNumberOfRemoteInitiatedConnections_def del: session_step.simps)
qed

end
