(* ===== verification/Spec2Isabelle.thy ===== *)
theory Spec2Isabelle
  imports Uint24 DS_Queue DS_List DS_OrderedList DS_Heap BitStream_Codec RangeList_Wire Datagram_Wire Receive_Window
    Ordered_Channels Split_Reassembly Ack_Laws Connection_Laws
    Session_Admission
begin

text \<open>
  A verification library of the core of MafiaNet: the reliability layer, which turns datagrams into reliable, ordered messages
  (\<^verbatim>\<open>Source/src/reliability_layer.cpp\<close> and what it is built on), and the part of \<^verbatim>\<open>Source/src/peer.cpp\<close> that opens and closes
  connections on top of it.

  \<^bold>\<open>The program.\<close>  An application hands messages to \<^verbatim>\<open>RakPeer\<close> (\<^verbatim>\<open>peer.cpp\<close>), which keeps a table of remote systems, each with
  one \<^verbatim>\<open>ReliabilityLayer\<close>.  Its network thread runs a session handshake with every new remote before the application is told of the
  connection.  The sending side of the layer gives a message its numbers, cuts it into fragments when it does not fit a datagram
  (\<^verbatim>\<open>SplitPacket\<close>), queues it in a heap by priority and, in \<^verbatim>\<open>UpdateInternal\<close>, packs messages that are due again and new ones into datagrams
  with a \<^verbatim>\<open>BitStream\<close>, within the window of \<^verbatim>\<open>CCRakNetSlidingWindow\<close>.  The receiving side
  (\<^verbatim>\<open>HandleSocketReceiveFromConnectedPlayer\<close>) reads the datagram header, the acknowledgement ranges (\<^verbatim>\<open>RangeList\<close>) or the messages
  (\<^verbatim>\<open>CreateInternalPacketFromBitStream\<close>), drops duplicates with a window of message numbers, reassembles fragments and delivers on 32
  ordering channels.  When large datagrams vanish the datagram size steps down and waiting messages are cut again
  (\<^verbatim>\<open>mtu_black_hole.cpp\<close>).  Everything rests on the containers \<^verbatim>\<open>Queue\<close>, \<^verbatim>\<open>List\<close>, \<^verbatim>\<open>OrderedList\<close>, \<^verbatim>\<open>Heap\<close>, \<^verbatim>\<open>RangeList\<close> and on
  24 bit numbers that wrap.

  \<^bold>\<open>Foundations.\<close>
  \<^item> \<open>Prelude\<close>: word types, shared lemmas, the collections \<open>invar_intros\<close> and \<open>refine_simps\<close> that the components fill.
  \<^item> \<open>Uint24\<close>: \<^verbatim>\<open>uint24_t\<close> of \<^verbatim>\<open>types.h\<close>, all operators, shown to be a 24 bit word; the comparisons of wrapping numbers
    (\<^verbatim>\<open>IsOlderOrderedPacket\<close>, \<^verbatim>\<open>CCRakNetSlidingWindow::GreaterThan\<close>).
  \<^item> \<open>DS_Queue\<close>, \<open>DS_List\<close>, \<open>DS_OrderedList\<close>, \<open>DS_Heap\<close>, \<open>DS_RangeList\<close>: the containers of \<^verbatim>\<open>ds_queue.h\<close>, \<^verbatim>\<open>ds_list.h\<close>,
    \<^verbatim>\<open>ds_ordered_list.h\<close>, \<^verbatim>\<open>ds_heap.h\<close> and \<^verbatim>\<open>ds_range_list.h\<close> with their arrays, sizes and indices, refined to lists, sorted lists, multisets
    and sets.  Their interfaces are the locales \<open>indexed_queue\<close>, \<open>growable_array\<close>, \<open>comparison\<close> (the comparison functions the
    ordered list is instantiated with, three instances) and \<open>priority_queue\<close>, each interpreted on the model.
  \<^item> \<open>BitStream_Model\<close>, \<open>BitStream_Laws\<close>, \<open>BitStream_Reads\<close>, \<open>BitStream_Codec\<close>, \<open>BitStream_Aligned\<close>: \<^verbatim>\<open>BitStream\<close> of \<^verbatim>\<open>bit_stream.cpp\<close>,
    a byte buffer with bit offsets, reallocation and 32 bit sizes, refined to lists of bits.  The locale \<open>bit_codec\<close> couples a writer and
    a reader; sequences and round trips are proved once in it and used through its interpretations (integers, bytes, messages).

  \<^bold>\<open>Wire formats.\<close>  \<open>RangeList_Wire\<close> (lists of ranges), \<open>Internal_Packet\<close> (\<^verbatim>\<open>struct InternalPacket\<close>), \<open>Message_Format\<close> (the
  operations), \<open>Message_Wire\<close> and \<open>Datagram_Wire\<close> (what they put on the wire, that it is read back, and that whatever is accepted from the wire is in
  bounds).

  \<^bold>\<open>Receiving.\<close>  \<open>Receive_Window\<close> (duplicates), \<open>Ordered_Channels\<close> (order), \<open>Split_Packets\<close> and \<open>Split_Reassembly\<close> (fragments, both
  sides), \<open>Receive_Path\<close> and \<open>Receive_Laws\<close> (the data branch as a whole), \<open>Receive_Handler\<close> (the handler on the bytes of a datagram,
  which returns on every input within the bounds below).

  \<^bold>\<open>Sending.\<close>  \<open>Send_Queue\<close> and \<open>Send_Laws\<close> (\<^verbatim>\<open>Send\<close>, the weights of the heap, no starvation), \<open>Packet_Ring\<close> (the intrusive lists as
  pointers, refined to sequences), \<open>Resend_List\<close> (resend list, buffer and counters), \<open>Ack_Handling\<close> and \<open>Ack_Laws\<close> (datagram history,
  acknowledgements, loss reports), \<open>Ack_Sending\<close> (reports to the peer), \<open>Double_Arith\<close> and \<open>Sliding_Window\<close> (rounding of \<^verbatim>\<open>double\<close>, congestion
  control), \<open>BPS_Tracker\<close> (bandwidth statistics), \<open>Transmission\<close>, \<open>Transmission_Laws\<close>, \<open>Datagram_Path\<close>, \<open>Update_Laws\<close> (the
  transmission of an update: it ends, fits, and carries every numbered message), \<open>Mtu_BlackHole\<close> (the step down of the datagram size).

  \<^bold>\<open>The layer as a whole.\<close>  \<open>Session\<close> puts a sender and a receiver together: reliable ordered messages arrive in order, once each, under
  any loss, repetition and reordering.  \<open>Update_Internal\<close>, \<open>Update_Total\<close> and \<open>Connection_Laws\<close> are \<^verbatim>\<open>UpdateInternal\<close>, \<^verbatim>\<open>Reset\<close> and the
  timeouts on the state of one connection: an update returns and leaves the sender consistent, a reset connection is a new one.

  \<^bold>\<open>The peer.\<close>  \<open>Peer_Messages\<close> (the messages of the handshake as bytes), \<open>Peer_Ping\<close> (round trips and clock offsets), \<open>Ban_List\<close>,
  \<open>Peer_Session\<close> (one remote system: its record, one definition per message handler of \<^verbatim>\<open>RunUpdateCycle\<close>, the decisions of the application, closing),
  \<open>Session_Laws\<close> (the locale \<open>session_handler\<close>: what every handler keeps of the session invariant, and what a run of handlers therefore
  keeps; interpreted on the message handler and on the steps of a slot), \<open>Session_Handshake\<close> (both sides together; what hostile remotes
  achieve), \<open>Session_States\<close> (the state machine as a step relation), \<open>Session_Admission\<close> (which peers may connect, over a list of slots).

  \<^bold>\<open>Conventions.\<close>  Machine integers are words or natural numbers reduced modulo their size where the code can reach it; a pointer that may
  be null is an option; uninitialised memory, recycled packets with stale contents and clocks are parameters; a copy outside a buffer, an
  undefined conversion, an endless loop and a failed read are values.  The addresses of packets are an explicit memory, so that sharing is visible.
  The configuration is the one of the sources: \<^verbatim>\<open>USE_SLIDING_WINDOW_CONGESTION_CONTROL\<close> 1, \<^verbatim>\<open>INCLUDE_TIMESTAMP_WITH_DATAGRAMS\<close> 0,
  \<^verbatim>\<open>LIBCAT_SECURITY\<close> 0, \<^verbatim>\<open>RAKNET_SUPPORT_IPV6\<close> 0, \<^verbatim>\<open>MAXIMUM_MTU_SIZE\<close> 1400, little endian.

  \<^bold>\<open>Fuel and bounds.\<close>  Loops that are not structural carry fuel, and the lemmas on them show that it is not used up: one datagram of resends
  takes at most 512 packets (\<open>fill_resend\<close> 513, \<open>resend_loop\<close> 514), the loops over the outgoing queue at most as many as it holds (\<open>fill_new\<close> + 1,
  \<open>send_loop\<close> + 2, culling + 1), the loop over the messages of a datagram at most as many as it has bits, the walk of a ring 512, the clearing of the
  history its size.  Where a property is limited its statement says so: a million messages and 50000 datagrams for the delivery
  of a session (beyond that the receiver's own tolerance for gaps can be exceeded), \<open>2\<^sup>3\<^sup>2 - 7\<close> bits in all for reassembly (beyond that it overruns
  its buffer, which is proved too), a window below \<open>2\<^sup>3\<^sup>1\<close> bytes for the bandwidth (beyond that the conversion is undefined, also
  proved).  \<open>rto_ok\<close>, \<open>bandwidth_ok\<close> and \<open>estimates_ok\<close> say that the conversions of the congestion control are defined; updates keep that,
  acknowledgements need not.  \<open>pool_ok\<close> and \<open>supplied\<close> say that the packet pool has the packets a step down needs.  The properties of sessions are about the
  default \<^verbatim>\<open>AllowConnectionResponseIPMigration(false)\<close>.

  \<^bold>\<open>Not modelled.\<close>  Sockets, threads and their queues, memory allocation and plugins (operating system and interleaving; a plugin that takes a packet
  is a parameter); encryption (switched off in this configuration); the unconnected part of the handshake and the hash table of remote systems
  (\<^verbatim>\<open>ProcessOfflineNetworkPacket\<close>, \<^verbatim>\<open>ReferenceRemoteSystem\<close>); the alternative congestion control \<^verbatim>\<open>cc_udt\<close>, which is not compiled in;
  the compressed and floating point operations of \<^verbatim>\<open>BitStream\<close>; and the plugins and extensions above the peer (replication,
  RPC, lobby, autopatcher, NAT punch-through, teams), which are separate programs on its interface.
\<close>

end
